(* ===== verification/Prelude.thy ===== *)
theory Prelude
  imports Main "HOL-Library.Word"
begin

text \<open>
  Shared vocabulary of the development: the fact collections that the component theories
  extend, loops with an early exit (\<open>ofold\<close>), and the generic lemmas on
  lists, sums and counters that several components use.  Nothing here models a function of
  the program; everything that does lives in the component theories.
\<close>

named_theorems frame_simps \<open>what an operation leaves unchanged\<close>
named_theorems step_defs \<open>definitions unfolded when one step of a loop is analysed\<close>

section \<open>Loops with an early exit\<close>

text \<open>
  \<open>ofold f xs s\<close> runs the loop body \<open>f\<close> over \<open>xs\<close>; a body that returns \<open>None\<close>
  leaves the surrounding function at once (a \<open>return false\<close> inside a loop).
\<close>

primrec ofold :: "('a \<Rightarrow> 's \<Rightarrow> 's option) \<Rightarrow> 'a list \<Rightarrow> 's \<Rightarrow> 's option" where
  "ofold f [] s = Some s"
| "ofold f (x # xs) s = (case f x s of None \<Rightarrow> None | Some s' \<Rightarrow> ofold f xs s')"

lemma ofold_append:
  "ofold f (xs @ ys) s = (case ofold f xs s of None \<Rightarrow> None | Some s' \<Rightarrow> ofold f ys s')"
  by (induction xs arbitrary: s) (auto split: option.splits)

lemma ofold_invariant:
  assumes "ofold f xs s = Some t" and "P s"
    and "\<And>x s s'. x \<in> set xs \<Longrightarrow> P s \<Longrightarrow> f x s = Some s' \<Longrightarrow> P s'"
  shows "P t"
  using assms
proof (induction xs arbitrary: s)
  case Nil
  then show ?case by simp
next
  case (Cons x xs)
  from Cons.prems(1) obtain u where u: "f x s = Some u" "ofold f xs u = Some t"
    by (auto split: option.splits)
  have "P u" using Cons.prems(3) [OF _ Cons.prems(2) u(1)] by simp
  with u(2) show ?case by (rule Cons.IH) (auto intro: Cons.prems(3))
qed

lemma fold_invariant_mem:
  assumes "P s" and "\<And>x s. x \<in> set xs \<Longrightarrow> P s \<Longrightarrow> P (f x s)"
  shows "P (fold f xs s)"
  using assms by (induction xs arbitrary: s) auto

lemma fold_unchanged:
  assumes "\<And>x s. g (f x s) = g s"
  shows "g (fold f xs s) = g s"
  using assms by (induction xs arbitrary: s) auto

section \<open>Lists, counters and sums\<close>

lemma length_filter_sum_list: "int (length (filter P xs)) = (\<Sum>x\<leftarrow>xs. of_bool (P x))"
  by (induction xs) auto

lemma filter_eq_singleton:
  assumes "distinct (map g xs)" and "x \<in> set xs"
  shows "filter (\<lambda>y. g y = g x) xs = [x]"
  using assms by (induction xs) (auto simp: filter_empty_conv image_iff)

lemma length_filter_upd_unique:
  assumes "distinct (map g xs)" and "x \<in> set xs"
    and "\<And>y. y \<in> set xs \<Longrightarrow> g y \<noteq> g x \<Longrightarrow> P y = Q y"
  shows "int (length (filter P xs)) + of_bool (Q x) = int (length (filter Q xs)) + of_bool (P x)"
  using assms
proof (induction xs)
  case Nil
  then show ?case by simp
next
  case (Cons a xs)
  show ?case
  proof (cases "a = x")
    case True
    with Cons.prems have "\<forall>y\<in>set xs. P y = Q y"
      by (auto simp: image_iff)
    then have "filter P xs = filter Q xs"
      by (auto intro: filter_cong)
    with True show ?thesis by simp
  next
    case False
    with Cons.prems have x: "x \<in> set xs" and "g a \<noteq> g x"
      by (auto simp: image_iff)
    with Cons.prems have "P a = Q a" by simp
    moreover have "int (length (filter P xs)) + of_bool (Q x)
        = int (length (filter Q xs)) + of_bool (P x)"
      using Cons.prems x by (intro Cons.IH) auto
    ultimately show ?thesis by simp
  qed
qed

lemma sum_list_map_add: "(\<Sum>x\<leftarrow>xs. f x + (g x :: 'b :: comm_monoid_add)) = (\<Sum>x\<leftarrow>xs. f x) + (\<Sum>x\<leftarrow>xs. g x)"
  by (induction xs) (auto simp: algebra_simps)

lemma sum_list_concat_map:
  "(\<Sum>x\<leftarrow>concat (map h ys). f x) = (\<Sum>y\<leftarrow>ys. (\<Sum>x\<leftarrow>h y. f x :: 'b :: monoid_add))"
  by (induction ys) auto

lemma sum_list_upt: "(\<Sum>i\<leftarrow>[m..<n]. f i :: 'b :: comm_monoid_add) = (\<Sum>i\<in>{m..<n}. f i)"
  by (metis atLeastLessThan_upt distinct_upt sum_list_distinct_conv_sum_set)

lemma sum_list_zero: "(\<And>x. x \<in> set xs \<Longrightarrow> f x = 0) \<Longrightarrow> (\<Sum>x\<leftarrow>xs. f x :: 'b :: monoid_add) = 0"
  by (induction xs) auto

lemma distinct_subset_length:
  assumes "distinct xs" and "set xs \<subseteq> {1..n}"
  shows "length xs \<le> n"
  using assms by (metis card_atLeastAtMost card_mono diff_Suc_1 distinct_card finite_atLeastAtMost)

lemma distinct_subset_length0:
  assumes "distinct xs" and "set xs \<subseteq> {..<n}"
  shows "length xs \<le> n"
  using assms by (metis card_lessThan card_mono distinct_card finite_lessThan)

end
