(* ===== verification/Literals.thy ===== *)
theory Literals
  imports Prelude
begin

unbundle bit_operations_syntax

text \<open>
  The literal encodings of include/preprocess.hpp and the meaning of a KNF row.
  A literal is a nonzero integer, \<open>v\<close> or \<open>-v\<close>; its packed code is \<open>2 (v - 1)\<close> or
  \<open>2 (v - 1) + 1\<close>.  A row is a list of literals with a degree, and holds when at least that
  many of its literals are true.  The shifts and masks of the source are written with the
  bit operations of the library on unbounded integers: the codes stay in the range of
  \<open>int\<close> for every variable number below \<open>2 ^ 30\<close>.
\<close>

section \<open>Encodings (include/preprocess.hpp, lines 6 to 10)\<close>

definition pnsign :: "int \<Rightarrow> int" where
  "pnsign x = (if x > 0 then 1 else -1)"

definition tolit :: "int \<Rightarrow> int" where
  "tolit x = (if x > 0 then push_bit 1 (x - 1) else push_bit 1 (- x - 1) OR 1)"

definition negative :: "int \<Rightarrow> int" where
  "negative x = x XOR 1"

definition toiidx :: "int \<Rightarrow> int" where
  "toiidx x = drop_bit 1 x + 1"

definition toeidx :: "int \<Rightarrow> int" where
  "toeidx x = (if x AND 1 \<noteq> 0 then - toiidx x else toiidx x)"

lemma pnsign_cases: "pnsign x = 1 \<or> pnsign x = -1"
  by (simp add: pnsign_def)

lemma pnsign_sq [simp]: "pnsign x * pnsign x = 1"
  by (simp add: pnsign_def)

lemma abs_pnsign [simp]: "\<bar>pnsign x\<bar> = 1"
  by (simp add: pnsign_def)

lemma pnsign_neq_0 [simp]: "pnsign x \<noteq> 0"
  by (simp add: pnsign_def)

lemma pnsign_uminus: "x \<noteq> 0 \<Longrightarrow> pnsign (- x) = - pnsign x"
  by (auto simp: pnsign_def)

lemma pnsign_times_abs: "x \<noteq> 0 \<Longrightarrow> pnsign x * \<bar>x\<bar> = x"
  by (auto simp: pnsign_def)

lemma tolit_arith: "x \<noteq> 0 \<Longrightarrow> tolit x = 2 * (\<bar>x\<bar> - 1) + of_bool (x < 0)"
  by (auto simp: tolit_def push_bit_eq_mult or_one_eq)

lemma negative_arith: "negative x = (if even x then x + 1 else x - 1)"
  by (simp add: negative_def xor_one_eq)

lemma toiidx_arith: "toiidx x = x div 2 + 1"
  by (simp add: toiidx_def drop_bit_eq_div)

lemma toeidx_arith: "toeidx x = (if odd x then - (x div 2 + 1) else x div 2 + 1)"
  by (simp add: toeidx_def toiidx_arith and_one_eq odd_iff_mod_2_eq_one)

lemma tolit_eq_iff: "x \<noteq> 0 \<Longrightarrow> y \<noteq> 0 \<Longrightarrow> tolit x = tolit y \<longleftrightarrow> x = y"
  by (auto simp: tolit_arith split: if_splits) presburger+

lemma negative_tolit: "x \<noteq> 0 \<Longrightarrow> negative (tolit x) = tolit (- x)"
  by (auto simp: negative_arith tolit_arith)

section \<open>The meaning of a row\<close>

definition lit_var :: "int \<Rightarrow> nat" where
  "lit_var l = nat \<bar>l\<bar>"

definition lit_sat :: "(nat \<Rightarrow> bool) \<Rightarrow> int \<Rightarrow> bool" where
  "lit_sat a l \<longleftrightarrow> (if l > 0 then a (lit_var l) else \<not> a (lit_var l))"

definition row_count :: "(nat \<Rightarrow> bool) \<Rightarrow> int list \<Rightarrow> int" where
  "row_count a c = int (length (filter (lit_sat a) c))"

definition row_sat :: "(nat \<Rightarrow> bool) \<Rightarrow> int list \<Rightarrow> int \<Rightarrow> bool" where
  "row_sat a c d \<longleftrightarrow> d \<le> row_count a c"

lemma lit_sat_uminus: "l \<noteq> 0 \<Longrightarrow> lit_sat a (- l) \<longleftrightarrow> \<not> lit_sat a l"
  by (auto simp: lit_sat_def lit_var_def)

lemma lit_var_uminus [simp]: "lit_var (- l) = lit_var l"
  by (simp add: lit_var_def)

lemma lit_var_pos: "l \<noteq> 0 \<Longrightarrow> 0 < lit_var l"
  by (simp add: lit_var_def)

lemma row_count_Nil [simp]: "row_count a [] = 0"
  by (simp add: row_count_def)

lemma row_count_Cons [simp]: "row_count a (l # c) = of_bool (lit_sat a l) + row_count a c"
  by (simp add: row_count_def)

lemma row_count_append [simp]: "row_count a (c @ d) = row_count a c + row_count a d"
  by (simp add: row_count_def)

lemma row_count_bounds: "0 \<le> row_count a c \<and> row_count a c \<le> int (length c)"
  by (simp add: row_count_def)

lemma row_count_all: "row_count a c = int (length c) \<longleftrightarrow> (\<forall>l\<in>set c. lit_sat a l)"
  by (auto simp: row_count_def filter_id_conv dest: sym) (metis length_filter_less less_irrefl)

lemma row_count_cong:
  "(\<And>l. l \<in> set c \<Longrightarrow> lit_sat a l = lit_sat b l) \<Longrightarrow> row_count a c = row_count b c"
  by (induction c) auto

section \<open>Properties of the encodings\<close>



end
