(* ===== verification/Preproc_State.thy ===== *)
theory Preproc_State
  imports Literals
begin

text \<open>
  The state of the preprocessor: the fields of \<open>struct Preprocessor\<close>
  (include/preprocess.hpp).  Each field carries the source's name with the prefix \<open>pp_\<close>.
  The growable \<open>vec\<close> members are lists; row 0 of every row vector is the unused row the
  source keeps so that rows are numbered from 1.  The raw arrays that
  \<open>preprocess_init\<close> allocates per variable are total functions of the variable number.
  Variables and row numbers are natural numbers, literals and degrees are integers.
\<close>

record preproc =
  pp_vars :: nat
  pp_clauses :: nat
  pp_clause :: "int list list"
  pp_degree :: "int list"
  pp_in_cardinality :: "int list"
  pp_res_clause :: "int list list"
  pp_res_degree :: "int list"
  pp_maxlen :: nat
  pp_orivars :: nat
  pp_oriclauses :: nat
  pp_res_clauses :: nat
  pp_resolutions :: nat
  pp_f :: "nat \<Rightarrow> nat"
  pp_val :: "nat \<Rightarrow> int"
  pp_color :: "nat \<Rightarrow> nat"
  pp_varval :: "nat \<Rightarrow> int"
  pp_q :: "nat \<Rightarrow> nat"
  pp_seen :: "nat \<Rightarrow> nat"
  pp_resseen :: "nat \<Rightarrow> int"
  pp_clean :: "nat \<Rightarrow> int"
  pp_mapto :: "nat \<Rightarrow> int"
  pp_mapfrom :: "nat \<Rightarrow> nat"
  pp_mapval :: "nat \<Rightarrow> int"
  pp_occurp :: "nat \<Rightarrow> nat list"
  pp_occurn :: "nat \<Rightarrow> nat list"
  pp_clause_delete :: "int list"
  pp_nxtc :: "nat list"
  pp_resolution :: "nat list"
  pp_res_owner :: "nat list"

text \<open>The default constructor: the counters are 0, the vectors empty and the raw arrays null (no
  function reads a null array, so their contents are arbitrary).\<close>

definition fresh_preproc :: preproc where
  "fresh_preproc =
     \<lparr>pp_vars = 0, pp_clauses = 0, pp_clause = [], pp_degree = [], pp_in_cardinality = [],
      pp_res_clause = [], pp_res_degree = [], pp_maxlen = 0, pp_orivars = 0, pp_oriclauses = 0,
      pp_res_clauses = 0, pp_resolutions = 0, pp_f = (\<lambda>_. 0), pp_val = (\<lambda>_. 0), pp_color = (\<lambda>_. 0),
      pp_varval = (\<lambda>_. 0), pp_q = (\<lambda>_. 0), pp_seen = (\<lambda>_. 0), pp_resseen = (\<lambda>_. 0),
      pp_clean = (\<lambda>_. 0), pp_mapto = (\<lambda>_. 0), pp_mapfrom = (\<lambda>_. 0), pp_mapval = (\<lambda>_. 0),
      pp_occurp = (\<lambda>_. []), pp_occurn = (\<lambda>_. []), pp_clause_delete = [], pp_nxtc = [],
      pp_resolution = [], pp_res_owner = []\<rparr>"

text \<open>The rows \<open>1 .. clauses\<close> with their degrees, as the rest of the program reads them.\<close>

definition pp_rows :: "preproc \<Rightarrow> (int list \<times> int) list" where
  "pp_rows p = map (\<lambda>i. (pp_clause p ! i, pp_degree p ! i)) [1..<Suc (pp_clauses p)]"

definition rows_sat :: "(nat \<Rightarrow> bool) \<Rightarrow> (int list \<times> int) list \<Rightarrow> bool" where
  "rows_sat a rows \<longleftrightarrow> (\<forall>(c, d) \<in> set rows. row_sat a c d)"

end
