(* ===== verification/Index_Stack.thy ===== *)
theory Index_Stack
  imports Prelude
begin

text \<open>
  The three stacks of the local search (\<open>hardunsat_stack\<close>, \<open>cardinalitysat_stack\<close>,
  \<open>goodvar_stack\<close>, include/cardsatLS.hpp) share one shape: an array used up to a fill
  pointer, and a second array that records at which position an element sits.  Here
  \<open>items\<close> is the live part of the stack array (its length is the fill pointer) and
  \<open>index\<close> is the position array.  The locale \<open>set_stack\<close> states what the search
  relies on, namely that the stack is a duplicate-free set with constant-time insertion and
  removal; it is interpreted on both removal routines of the code.
\<close>

record istack =
  items :: "nat list"
  index :: "nat \<Rightarrow> int"

abbreviation fill_pointer :: "istack \<Rightarrow> nat" where
  "fill_pointer s \<equiv> length (items s)"

text \<open>The macros \<open>mypush\<close> and \<open>mypop\<close>: they touch the stack array only.\<close>

definition mypush :: "nat \<Rightarrow> istack \<Rightarrow> istack" where
  "mypush v s = s\<lparr>items := items s @ [v]\<rparr>"

definition mypop :: "istack \<Rightarrow> nat \<times> istack" where
  "mypop s = (last (items s), s\<lparr>items := butlast (items s)\<rparr>)"

text \<open>\<open>already_in[v] = fill_pointer; mypush(v, stack)\<close>\<close>

definition stack_add :: "nat \<Rightarrow> istack \<Rightarrow> istack" where
  "stack_add v s = mypush v (s\<lparr>index := (index s)(v := int (fill_pointer s))\<rparr>)"

text \<open>
  Removal moves the top element into the hole.  Writing the hole when the removed element
  is itself the top writes above the fill pointer, which leaves the live part alone
  (\<open>list_update\<close> past the end is the identity).  \<open>stack_remove_at i v\<close> is the
  variant that already knows the position (\<open>update_goodvarstack\<close>), \<open>stack_remove\<close>
  reads it from the index array, and \<open>stack_drop\<close> is the variant of \<open>sat()\<close>, which
  leaves the index entry of the removed element stale.
\<close>

definition stack_remove_at :: "nat \<Rightarrow> nat \<Rightarrow> istack \<Rightarrow> istack" where
  "stack_remove_at i v s =
     (let (top_v, s) = mypop s;
          s = s\<lparr>items := (items s)[i := top_v]\<rparr>;
          s = s\<lparr>index := (index s)(top_v := int i)\<rparr>
      in s\<lparr>index := (index s)(v := -1)\<rparr>)"

definition stack_remove :: "nat \<Rightarrow> istack \<Rightarrow> istack" where
  "stack_remove v s =
     (let (top_v, s) = mypop s;
          s = s\<lparr>items := (items s)[nat (index s v) := top_v]\<rparr>;
          s = s\<lparr>index := (index s)(top_v := index s v)\<rparr>
      in s\<lparr>index := (index s)(v := -1)\<rparr>)"

definition stack_drop :: "nat \<Rightarrow> istack \<Rightarrow> istack" where
  "stack_drop v s =
     (let (top_v, s) = mypop s;
          i = index s v;
          s = s\<lparr>items := (items s)[nat i := top_v]\<rparr>
      in s\<lparr>index := (index s)(top_v := i)\<rparr>)"

section \<open>The index invariant\<close>

definition stack_ok :: "istack \<Rightarrow> bool" where
  "stack_ok s \<longleftrightarrow> distinct (items s) \<and> (\<forall>i<fill_pointer s. index s (items s ! i) = int i)"

text \<open>
  \<open>tracked D s\<close>: for the elements of \<open>D\<close> the index array also answers membership,
  with \<open>-1\<close> for "not on the stack".
\<close>

definition tracked :: "nat set \<Rightarrow> istack \<Rightarrow> bool" where
  "tracked D s \<longleftrightarrow> stack_ok s \<and> (\<forall>v\<in>D. v \<notin> set (items s) \<longrightarrow> index s v = -1)"

lemma stack_okD: "stack_ok s \<Longrightarrow> i < fill_pointer s \<Longrightarrow> index s (items s ! i) = int i"
  by (simp add: stack_ok_def)

lemma stack_ok_index:
  assumes "stack_ok s" and "v \<in> set (items s)"
  shows "0 \<le> index s v \<and> nat (index s v) < fill_pointer s \<and> items s ! nat (index s v) = v"
  using assms by (auto simp: stack_ok_def in_set_conv_nth)

lemma tracked_mem:
  assumes "tracked D s" and "v \<in> D"
  shows "index s v = -1 \<longleftrightarrow> v \<notin> set (items s)"
  using assms stack_ok_index [of s v] by (auto simp: tracked_def)

lemma items_stack_add [simp]: "items (stack_add v s) = items s @ [v]"
  by (simp add: stack_add_def mypush_def)

lemma index_stack_add [simp]: "index (stack_add v s) = (index s)(v := int (fill_pointer s))"
  by (simp add: stack_add_def mypush_def)

lemma stack_ok_add:
  assumes "stack_ok s" and "v \<notin> set (items s)"
  shows "stack_ok (stack_add v s)"
  using assms by (auto simp: stack_ok_def nth_append less_Suc_eq)

text \<open>Removing by swapping with the last element, on the list alone.\<close>

lemma swap_remove_set:
  assumes "distinct xs" and "i < length xs"
  shows "set ((butlast xs)[i := last xs]) = set xs - {xs ! i}"
    and "distinct ((butlast xs)[i := last xs])"
proof -
  obtain ys y where xs: "xs = ys @ [y]"
    using assms(2) by (cases xs rule: rev_cases) auto
  have "set ((butlast xs)[i := last xs]) = set xs - {xs ! i}
     \<and> distinct ((butlast xs)[i := last xs])"
  proof (cases "i < length ys")
    case True
    with assms(1) xs have "ys ! i \<notin> set (take i ys) \<union> set (drop (Suc i) ys)"
      by (metis UnE distinct_append distinct_take append_take_drop_id disjoint_insert(1)
          distinct.simps(2) id_take_nth_drop list.set(2) not_distinct_conv_prefix)
    moreover have "set ys = set (take i ys) \<union> {ys ! i} \<union> set (drop (Suc i) ys)"
      using True by (metis Un_insert_left Un_insert_right id_take_nth_drop list.simps(15) set_append sup_bot_right)
    ultimately show ?thesis using True assms(1)
      by (auto simp: xs nth_append set_update_distinct distinct_list_update)
  next
    case False
    with assms xs have "i = length ys" by simp
    with assms(1) show ?thesis by (auto simp: xs nth_append list_update_beyond)
  qed
  then show "set ((butlast xs)[i := last xs]) = set xs - {xs ! i}"
    and "distinct ((butlast xs)[i := last xs])" by auto
qed

lemma swap_remove_index:
  assumes "stack_ok s" and "v \<in> set (items s)"
  defines "i \<equiv> nat (index s v)"
  defines "xs \<equiv> (butlast (items s))[i := last (items s)]"
  assumes "j < length xs"
  shows "((index s)(last (items s) := int i)) (xs ! j) = int j"
proof -
  from assms(1,2) have i: "i < fill_pointer s" "items s ! i = v"
    unfolding i_def using stack_ok_index by blast+
  then have ne: "items s \<noteq> []" by auto
  from assms(5) have j: "j < fill_pointer s - 1" by (simp add: xs_def)
  show ?thesis
  proof (cases "j = i")
    case True
    with j show ?thesis by (simp add: xs_def)
  next
    case False
    with j have "xs ! j = items s ! j" by (simp add: xs_def nth_butlast)
    moreover have "items s ! j \<noteq> last (items s)"
      using assms(1) j ne by (auto simp: stack_ok_def last_conv_nth nth_eq_iff_index_eq)
    ultimately show ?thesis
      using assms(1) j by (simp add: stack_ok_def)
  qed
qed

lemma items_stack_remove [simp]:
  "items (stack_remove v s) = (butlast (items s))[nat (index s v) := last (items s)]"
  by (simp add: stack_remove_def mypop_def Let_def)

lemma items_stack_drop [simp]:
  "items (stack_drop v s) = (butlast (items s))[nat (index s v) := last (items s)]"
  by (simp add: stack_drop_def mypop_def Let_def)

lemma index_stack_remove:
  "index (stack_remove v s) = (index s)(last (items s) := index s v, v := -1)"
  by (simp add: stack_remove_def mypop_def Let_def)

lemma index_stack_drop:
  "index (stack_drop v s) = (index s)(last (items s) := index s v)"
  by (simp add: stack_drop_def mypop_def Let_def)

lemma stack_remove_at_index:
  assumes "stack_ok s" and "i < fill_pointer s" and "items s ! i = v"
  shows "stack_remove_at i v s = stack_remove v s"
proof -
  from assms have "index s v = int i" by (auto dest: stack_okD)
  then show ?thesis by (simp add: stack_remove_at_def stack_remove_def mypop_def Let_def)
qed

lemma set_items_removed:
  assumes "stack_ok s" and "v \<in> set (items s)"
  shows "set ((butlast (items s))[nat (index s v) := last (items s)]) = set (items s) - {v}"
    and "distinct ((butlast (items s))[nat (index s v) := last (items s)])"
  using assms stack_ok_index [OF assms] swap_remove_set [of "items s" "nat (index s v)"]
  by (auto simp: stack_ok_def)

lemma stack_ok_drop:
  assumes "stack_ok s" and "v \<in> set (items s)"
  shows "stack_ok (stack_drop v s)"
  using assms set_items_removed [OF assms] swap_remove_index [OF assms] stack_ok_index [OF assms]
  by (simp add: stack_ok_def index_stack_drop)

lemma stack_ok_remove:
  assumes "stack_ok s" and "v \<in> set (items s)"
  shows "stack_ok (stack_remove v s)"
proof -
  have "v \<notin> set (items (stack_remove v s))"
    using set_items_removed [OF assms] by simp
  then have "\<And>j. j < fill_pointer (stack_remove v s) \<Longrightarrow> items (stack_remove v s) ! j \<noteq> v"
    by (metis nth_mem)
  moreover have "stack_ok (stack_drop v s)" using assms by (rule stack_ok_drop)
  ultimately show ?thesis
    by (auto simp: stack_ok_def index_stack_remove index_stack_drop)
qed

lemma tracked_add:
  assumes "tracked D s" and "v \<notin> set (items s)"
  shows "tracked D (stack_add v s)"
  using assms by (auto simp: tracked_def stack_ok_add)

lemma tracked_add_insert:
  assumes "tracked D s" and "v \<notin> set (items s)"
  shows "tracked (insert v D) (stack_add v s)"
  using tracked_add [OF assms] by (simp add: tracked_def)

lemma tracked_clear_insert:
  assumes "tracked D s" and "v \<notin> set (items s)"
  shows "tracked (insert v D) (s\<lparr>index := (index s)(v := -1)\<rparr>)"
proof -
  have "items s ! i \<noteq> v" if "i < fill_pointer s" for i using assms(2) that by (metis nth_mem)
  with assms(1) show ?thesis by (auto simp: tracked_def stack_ok_def)
qed

lemma tracked_remove:
  assumes "tracked D s" and "v \<in> set (items s)"
  shows "tracked D (stack_remove v s)"
proof -
  have ok: "stack_ok s" using assms(1) by (simp add: tracked_def)
  have top: "last (items s) \<in> set (items s)"
    using assms(2) by (metis last_in_set list.distinct(1) list.set_cases)
  have "index (stack_remove v s) u = -1"
    if "u \<in> D" and "u \<notin> set (items (stack_remove v s))" for u
  proof (cases "u = v")
    case True
    then show ?thesis by (simp add: index_stack_remove)
  next
    case False
    with that set_items_removed [OF ok assms(2)] have "u \<notin> set (items s)" by simp
    with assms(1) that(1) False top show ?thesis
      by (auto simp: index_stack_remove tracked_def)
  qed
  then show ?thesis
    using stack_ok_remove [OF ok assms(2)] by (simp add: tracked_def)
qed

section \<open>The interface the search relies on\<close>

locale set_stack =
  fixes add remove :: "nat \<Rightarrow> 's \<Rightarrow> 's"
    and elems :: "'s \<Rightarrow> nat list"
    and inv :: "'s \<Rightarrow> bool"
  assumes inv_add: "inv s \<Longrightarrow> v \<notin> set (elems s) \<Longrightarrow> inv (add v s)"
    and elems_add: "set (elems (add v s)) = insert v (set (elems s))"
    and inv_remove: "inv s \<Longrightarrow> v \<in> set (elems s) \<Longrightarrow> inv (remove v s)"
    and elems_remove: "inv s \<Longrightarrow> v \<in> set (elems s) \<Longrightarrow> set (elems (remove v s)) = set (elems s) - {v}"
    and inv_distinct: "inv s \<Longrightarrow> distinct (elems s)"
begin

lemma length_add:
  assumes "inv s" and "v \<notin> set (elems s)"
  shows "length (elems (add v s)) = Suc (length (elems s))"
proof -
  have "length (elems (add v s)) = card (set (elems (add v s)))"
    using inv_add [OF assms] by (simp add: inv_distinct distinct_card)
  also have "\<dots> = Suc (card (set (elems s)))" using assms by (simp add: elems_add)
  finally show ?thesis using assms by (simp add: inv_distinct distinct_card)
qed

lemma length_remove:
  assumes "inv s" and "v \<in> set (elems s)"
  shows "Suc (length (elems (remove v s))) = length (elems s)"
proof -
  have "length (elems (remove v s)) = card (set (elems s) - {v})"
    using inv_remove [OF assms] elems_remove [OF assms] by (metis inv_distinct distinct_card)
  moreover have "card (set (elems s)) = length (elems s)"
    using assms by (simp add: inv_distinct distinct_card)
  ultimately show ?thesis
    using assms(2) by (metis List.finite_set card_Suc_Diff1)
qed

lemma fits:
  assumes "inv s" and "set (elems s) \<subseteq> {..<n}"
  shows "length (elems s) \<le> n"
  using assms by (simp add: inv_distinct distinct_subset_length0)

lemma fits1:
  assumes "inv s" and "set (elems s) \<subseteq> {1..n}"
  shows "length (elems s) \<le> n"
  using assms by (simp add: inv_distinct distinct_subset_length)

end

interpretation drop_stack: set_stack stack_add stack_drop items stack_ok
  by unfold_locales
    (auto simp: stack_ok_add stack_ok_drop set_items_removed, auto simp: stack_ok_def)

interpretation tracked_stack: set_stack stack_add stack_remove items "tracked D" for D
proof unfold_locales
  fix s v
  assume s: "tracked D s"
  then have ok: "stack_ok s" by (simp add: tracked_def)
  then show "distinct (items s)" by (simp add: stack_ok_def)
  show "v \<notin> set (items s) \<Longrightarrow> tracked D (stack_add v s)" using s by (rule tracked_add)
  show "v \<in> set (items s) \<Longrightarrow> tracked D (stack_remove v s)" using s by (rule tracked_remove)
  show "v \<in> set (items s) \<Longrightarrow> set (items (stack_remove v s)) = set (items s) - {v}"
    using ok by (simp add: set_items_removed)
qed simp

end
