(* ===== verification/Ls_Instance.thy ===== *)
theory Ls_Instance
  imports Preproc_State Index_Stack
begin

text \<open>
  The instance the local search works on, and its construction from the preprocessor
  (src/LocalSearch/reader.cpp).  \<open>struct lit\<close> is the record \<open>lit\<close>; an array of
  literals with its count (\<open>clause_lit[c]\<close> with \<open>clause_lit_count[c]\<close>,
  \<open>var_lit[v]\<close> with \<open>var_lit_count[v]\<close>) is a list whose length is the count.  The
  sentinel cell behind each row (\<open>var_num = 0\<close>, \<open>clause_num = -1\<close>) lies outside the
  count; the one place that can read it is written out in the theory \<open>Ls_Pick\<close>.
\<close>

record lit =
  clause_num :: nat
  var_num :: nat
  sense :: bool

record inst =
  num_vars :: nat
  num_clauses :: nat
  max_clause_length :: nat
  clause_lit :: "nat \<Rightarrow> lit list"
  var_lit :: "nat \<Rightarrow> lit list"
  clause_true_lit_thres :: "nat \<Rightarrow> int"

abbreviation "clause_lit_count I c \<equiv> length (clause_lit I c)"
abbreviation "var_lit_count I v \<equiv> length (var_lit I v)"

section \<open>Building the instance\<close>

definition make_lit :: "nat \<Rightarrow> int \<Rightarrow> lit" where
  "make_lit c l = \<lparr>clause_num = c, var_num = lit_var l, sense = (l > 0)\<rparr>"

text \<open>One round of the loop over the rows: row \<open>i\<close> of the preprocessor becomes
  clause \<open>c = i - 1\<close>.\<close>

definition read_row :: "preproc \<Rightarrow> nat \<Rightarrow> inst \<Rightarrow> inst" where
  "read_row p i I =
     (let c = i - 1; row = pp_clause p ! i
      in I\<lparr>clause_lit := (clause_lit I)(c := map (make_lit c) row),
           clause_true_lit_thres := (clause_true_lit_thres I)(c := pp_degree p ! i),
           max_clause_length := max (max_clause_length I) (length row)\<rparr>)"

definition add_occurrence :: "lit \<Rightarrow> inst \<Rightarrow> inst" where
  "add_occurrence l I = I\<lparr>var_lit := (var_lit I)(var_num l := var_lit I (var_num l) @ [l])\<rparr>"

definition parse_from_preprocess :: "preproc \<Rightarrow> inst" where
  "parse_from_preprocess p =
     (let I = \<lparr>num_vars = pp_vars p, num_clauses = pp_clauses p, max_clause_length = 0,
               clause_lit = (\<lambda>_. []), var_lit = (\<lambda>_. []), clause_true_lit_thres = (\<lambda>_. 0)\<rparr>;
          I = fold (read_row p) [1..<Suc (pp_clauses p)] I
      in fold (\<lambda>c. fold add_occurrence (clause_lit I c)) [0..<num_clauses I] I)"

section \<open>Well-formed instances\<close>

text \<open>
  \<open>var_lit I v\<close> lists the occurrences of \<open>v\<close> in the order of the clauses.  The three
  extra conditions of \<open>wf_inst\<close>, no empty clause, no variable twice in a clause and degrees
  of at least 1, are what the preprocessing establishes; the score bookkeeping needs the
  second.
\<close>

definition occurrences :: "inst \<Rightarrow> nat \<Rightarrow> lit list" where
  "occurrences I v = concat (map (\<lambda>c. filter (\<lambda>l. var_num l = v) (clause_lit I c)) [0..<num_clauses I])"

definition indexed_inst :: "inst \<Rightarrow> bool" where
  "indexed_inst I \<longleftrightarrow>
     (\<forall>c<num_clauses I. \<forall>l\<in>set (clause_lit I c).
        clause_num l = c \<and> 1 \<le> var_num l \<and> var_num l \<le> num_vars I)
   \<and> (\<forall>v. var_lit I v = occurrences I v)"

definition wf_inst :: "inst \<Rightarrow> bool" where
  "wf_inst I \<longleftrightarrow> indexed_inst I
   \<and> (\<forall>c<num_clauses I. clause_lit I c \<noteq> [] \<and> distinct (map var_num (clause_lit I c)))
   \<and> (\<forall>c<num_clauses I. 1 \<le> clause_true_lit_thres I c)"

lemma wf_inst_lit:
  assumes "indexed_inst I" and "c < num_clauses I" and "l \<in> set (clause_lit I c)"
  shows "clause_num l = c" and "1 \<le> var_num l" and "var_num l \<le> num_vars I"
  using assms by (auto simp: indexed_inst_def)

lemma var_lit_mem:
  assumes "indexed_inst I" and "l \<in> set (var_lit I v)"
  shows "clause_num l < num_clauses I" and "l \<in> set (clause_lit I (clause_num l))" and "var_num l = v"
  using assms by (auto simp: indexed_inst_def occurrences_def)

lemma mem_var_lit:
  assumes "indexed_inst I" and "c < num_clauses I" and "l \<in> set (clause_lit I c)"
  shows "l \<in> set (var_lit I (var_num l))"
  using assms by (auto simp: indexed_inst_def occurrences_def)

text \<open>The occurrence lists are sorted by clause, strictly so when no clause repeats a variable.\<close>

lemma occurrences_clause_nums:
  assumes "\<And>c. c < n \<Longrightarrow> (\<forall>l\<in>set (f c). clause_num l = c) \<and> length (f c) \<le> 1"
  shows "sorted_wrt (<) (map clause_num (concat (map f [0..<n])))"
  using assms
proof (induction n)
  case 0
  then show ?case by simp
next
  case (Suc n)
  have "sorted_wrt (<) (map clause_num (concat (map f [0..<n])))"
    using Suc by auto
  moreover have "\<forall>x\<in>set (concat (map f [0..<n])). clause_num x < n"
  proof
    fix x assume "x \<in> set (concat (map f [0..<n]))"
    then obtain c where "c < n" "x \<in> set (f c)" by auto
    moreover from this have "clause_num x = c" using Suc.prems [of c] by auto
    ultimately show "clause_num x < n" by simp
  qed
  moreover have "sorted_wrt (<) (map clause_num (f n))"
    using Suc.prems [of n] by (cases "f n") auto
  moreover have "\<forall>x\<in>set (f n). clause_num x = n" using Suc.prems by auto
  ultimately show ?case by (auto simp: sorted_wrt_append)
qed

lemma var_lit_sorted:
  assumes "wf_inst I"
  shows "sorted_wrt (<) (map clause_num (var_lit I v))"
proof -
  have "length (filter (\<lambda>l. var_num l = v) (clause_lit I c)) \<le> 1" if c: "c < num_clauses I" for c
  proof (cases "filter (\<lambda>l. var_num l = v) (clause_lit I c)")
    case (Cons x xs)
    then have "x \<in> set (filter (\<lambda>l. var_num l = v) (clause_lit I c))" by simp
    then have "x \<in> set (clause_lit I c)" and "var_num x = v" by auto
    with assms c filter_eq_singleton [of var_num "clause_lit I c" x] show ?thesis
      by (simp add: wf_inst_def)
  qed simp
  then show ?thesis
    using assms unfolding wf_inst_def indexed_inst_def occurrences_def
    by (auto intro!: occurrences_clause_nums)
qed

section \<open>The reader builds an indexed instance\<close>

lemma fold_add_occurrence:
  "fold add_occurrence ls I
     = I\<lparr>var_lit := (\<lambda>v. var_lit I v @ filter (\<lambda>l. var_num l = v) ls)\<rparr>"
  by (induction ls arbitrary: I) (auto simp: add_occurrence_def fun_eq_iff)

lemma fold_all_occurrences:
  "fold (\<lambda>c. fold add_occurrence (f c)) cs I
     = I\<lparr>var_lit := (\<lambda>v. var_lit I v @ concat (map (\<lambda>c. filter (\<lambda>l. var_num l = v) (f c)) cs))\<rparr>"
  by (induction cs arbitrary: I) (auto simp: fold_add_occurrence)

lemma fold_read_row:
  fixes p :: preproc and I :: inst
  assumes "\<forall>i\<in>set xs. 1 \<le> i" and "distinct xs"
  defines "J \<equiv> fold (read_row p) xs I"
  shows "num_vars J = num_vars I \<and> num_clauses J = num_clauses I \<and> var_lit J = var_lit I
    \<and> (\<forall>i\<in>set xs. clause_lit J (i - 1) = map (make_lit (i - 1)) (pp_clause p ! i)
         \<and> clause_true_lit_thres J (i - 1) = pp_degree p ! i
         \<and> length (pp_clause p ! i) \<le> max_clause_length J)
    \<and> max_clause_length I \<le> max_clause_length J
    \<and> (\<forall>c. Suc c \<notin> set xs \<longrightarrow> clause_lit J c = clause_lit I c
         \<and> clause_true_lit_thres J c = clause_true_lit_thres I c)"
  using assms(1,2) unfolding J_def
proof (induction xs arbitrary: I)
  case Nil
  then show ?case by simp
next
  case (Cons i xs)
  from Cons.prems have i: "Suc (i - 1) \<notin> set xs" "1 \<le> i" by auto
  have IH: "\<forall>i\<in>set xs. 1 \<le> i" "distinct xs" using Cons.prems by auto
  show ?case
    using Cons.IH [OF IH, of "read_row p i I"] i by (auto simp: read_row_def Let_def)
qed

lemma parse_from_preprocess_fields:
  fixes p :: preproc and c v :: nat
  defines "I \<equiv> \<lambda>p. parse_from_preprocess p"
  shows "num_vars (I p) = pp_vars p" and "num_clauses (I p) = pp_clauses p"
    and "c < pp_clauses p \<Longrightarrow> clause_lit (I p) c = map (make_lit c) (pp_clause p ! Suc c)"
    and "c < pp_clauses p \<Longrightarrow> clause_true_lit_thres (I p) c = pp_degree p ! Suc c"
    and "c < pp_clauses p \<Longrightarrow> clause_lit_count (I p) c \<le> max_clause_length (I p)"
    and "var_lit (I p) v = occurrences (I p) v"
proof -
  define I0 where "I0 = \<lparr>num_vars = pp_vars p, num_clauses = pp_clauses p, max_clause_length = 0,
    clause_lit = (\<lambda>_. []), var_lit = (\<lambda>_. []), clause_true_lit_thres = (\<lambda>_. 0)\<rparr>"
  define J where "J = fold (read_row p) [1..<Suc (pp_clauses p)] I0"
  have "\<forall>i\<in>set [1..<Suc (pp_clauses p)]. 1 \<le> i" "distinct [1..<Suc (pp_clauses p)]"
    by auto
  note J = fold_read_row [OF this, of p I0, folded J_def]
  have I: "I p = J\<lparr>var_lit := (\<lambda>v. var_lit J v
      @ concat (map (\<lambda>c. filter (\<lambda>l. var_num l = v) (clause_lit J c)) [0..<num_clauses J]))\<rparr>"
    by (simp add: I_def parse_from_preprocess_def I0_def J_def Let_def fold_all_occurrences)
  have J0: "var_lit J = (\<lambda>_. [])" using J by (simp add: I0_def)
  have row: "clause_lit J c = map (make_lit c) (pp_clause p ! Suc c)
      \<and> clause_true_lit_thres J c = pp_degree p ! Suc c
      \<and> length (pp_clause p ! Suc c) \<le> max_clause_length J" if "c < pp_clauses p" for c
  proof -
    have "Suc c \<in> set [1..<Suc (pp_clauses p)]" using that by auto
    with J show ?thesis by (metis atLeastLessThan_iff diff_Suc_1 distinct_upt set_upt)
  qed
  show "num_vars (I p) = pp_vars p" "num_clauses (I p) = pp_clauses p"
    using J by (simp_all add: I I0_def)
  show "var_lit (I p) v = occurrences (I p) v" by (simp add: I J0 occurrences_def)
  show "c < pp_clauses p \<Longrightarrow> clause_lit (I p) c = map (make_lit c) (pp_clause p ! Suc c)"
    "c < pp_clauses p \<Longrightarrow> clause_true_lit_thres (I p) c = pp_degree p ! Suc c"
    "c < pp_clauses p \<Longrightarrow> clause_lit_count (I p) c \<le> max_clause_length (I p)"
    using row by (auto simp: I)
qed

text \<open>What the preprocessor must hand over for the instance to be well formed.\<close>

definition rows_ok :: "preproc \<Rightarrow> bool" where
  "rows_ok p \<longleftrightarrow> (\<forall>i\<in>{1..pp_clauses p}. 1 \<le> pp_degree p ! i
     \<and> pp_clause p ! i \<noteq> [] \<and> distinct (map lit_var (pp_clause p ! i))
     \<and> (\<forall>l\<in>set (pp_clause p ! i). l \<noteq> 0 \<and> lit_var l \<le> pp_vars p))"

lemma parse_from_preprocess_wf:
  assumes "rows_ok p"
  shows "wf_inst (parse_from_preprocess p)"
proof -
  let ?I = "parse_from_preprocess p"
  note f = parse_from_preprocess_fields [where p = p]
  have row: "1 \<le> pp_degree p ! Suc c \<and> pp_clause p ! Suc c \<noteq> [] \<and> distinct (map lit_var (pp_clause p ! Suc c))
      \<and> (\<forall>l\<in>set (pp_clause p ! Suc c). l \<noteq> 0 \<and> lit_var l \<le> pp_vars p)" if "c < pp_clauses p" for c
    using assms that by (auto simp: rows_ok_def)
  have vm: "var_num \<circ> make_lit c = lit_var" for c by (simp add: fun_eq_iff make_lit_def)
  have "indexed_inst ?I"
    using row by (auto simp: indexed_inst_def f make_lit_def lit_var_def) force
  then show ?thesis
    using row by (auto simp: wf_inst_def f vm)
qed

end
