(* ===== verification/Preprocess.thy ===== *)
theory Preprocess
  imports Ls_Instance
begin

text \<open>
  The life cycle of the preprocessor's state and the relabelling step that every phase ends
  with (src/PreProcess/preprocess.cpp): \<open>release\<close>, \<open>clear_problem\<close>, \<open>preprocess_init\<close>,
  \<open>update_var_clause_label\<close>.  The result: the relabelling keeps the rows that are not deleted, in
  order, with their variables renamed injectively onto \<open>1 .. vars\<close>.
\<close>

section \<open>Rows by number\<close>

abbreviation pp_row :: "preproc \<Rightarrow> nat \<Rightarrow> int list" where
  "pp_row p i \<equiv> pp_clause p ! i"

abbreviation pp_deg :: "preproc \<Rightarrow> nat \<Rightarrow> int" where
  "pp_deg p i \<equiv> pp_degree p ! i"

abbreviation deleted :: "preproc \<Rightarrow> nat \<Rightarrow> bool" where
  "deleted p i \<equiv> pp_clause_delete p ! i \<noteq> 0"

text \<open>\<open>vec::growTo(n, pad)\<close> and \<open>vec::setsize(n)\<close> for a smaller \<open>n\<close>.\<close>

definition grow_to :: "nat \<Rightarrow> 'a \<Rightarrow> 'a list \<Rightarrow> 'a list" where
  "grow_to n pad xs = xs @ replicate (n - length xs) pad"

lemma length_grow_to [simp]: "length (grow_to n pad xs) = max n (length xs)"
  by (simp add: grow_to_def)

section \<open>release, clear\_problem, preprocess\_init\<close>

text \<open>The raw arrays are freed; their fields keep values that nothing reads before the next
  allocation.\<close>

definition release :: "preproc \<Rightarrow> preproc" where
  "release p = p\<lparr>pp_clause_delete := [], pp_nxtc := [], pp_in_cardinality := []\<rparr>"

definition clear_problem :: "preproc \<Rightarrow> preproc" where
  "clear_problem p =
     (release p)\<lparr>pp_clause := [], pp_res_clause := [], pp_degree := [], pp_res_degree := [],
       pp_res_owner := [], pp_resolution := [], pp_vars := 0, pp_clauses := 0, pp_maxlen := 0,
       pp_orivars := 0, pp_oriclauses := 0, pp_res_clauses := 0, pp_resolutions := 0\<rparr>"

definition init_row :: "nat \<Rightarrow> preproc \<Rightarrow> preproc" where
  "init_row i p =
     (let p = (if pp_deg p i > 1
               then fold (\<lambda>l p. p\<lparr>pp_in_cardinality := (pp_in_cardinality p)[lit_var l := 1]\<rparr>) (pp_row p i) p
               else p);
          p = (if pp_deg p i = 0 then p\<lparr>pp_degree := (pp_degree p)[i := 1]\<rparr> else p);
          l = length (pp_row p i)
      in if l > pp_maxlen p then p\<lparr>pp_maxlen := l\<rparr> else p)"

definition set_identity :: "nat \<Rightarrow> preproc \<Rightarrow> preproc" where
  "set_identity i p = p\<lparr>pp_mapto := (pp_mapto p)(i := int i), pp_mapval := (pp_mapval p)(i := 0)\<rparr>"

definition preprocess_init :: "preproc \<Rightarrow> preproc" where
  "preprocess_init p =
     (let p = release p;
          p = p\<lparr>pp_clause_delete := grow_to (pp_clauses p + 1) 0 (pp_clause_delete p),
                pp_nxtc := grow_to (pp_clauses p + 1) 0 (pp_nxtc p),
                pp_occurp := (\<lambda>_. []), pp_occurn := (\<lambda>_. []),
                pp_in_cardinality := grow_to (pp_vars p + 1) 0 (pp_in_cardinality p)\<rparr>;
          p = fold init_row [1..<Suc (pp_clauses p)] p
      in fold set_identity [1..<Suc (pp_vars p)] p)"

section \<open>update\_var\_clause\_label\<close>

definition mark_row :: "nat \<Rightarrow> preproc \<Rightarrow> preproc" where
  "mark_row i p =
     (if deleted p i then p
      else fold (\<lambda>l p. p\<lparr>pp_color := (pp_color p)(lit_var l := 1)\<rparr>) (pp_row p i) p)"

definition number_var :: "nat \<Rightarrow> nat \<times> preproc \<Rightarrow> nat \<times> preproc" where
  "number_var i = (\<lambda>(remain_var, p).
     if pp_color p i = 1
     then (remain_var + 1, p\<lparr>pp_color := (pp_color p)(i := remain_var + 1)\<rparr>)
     else (remain_var, p))"

definition rename_lit :: "(nat \<Rightarrow> nat) \<Rightarrow> int \<Rightarrow> int" where
  "rename_lit color l = int (color (lit_var l)) * pnsign l"

text \<open>The two branches for \<open>i == id\<close> and \<open>i != id\<close> write the same row and degree.\<close>

definition compact_row :: "nat \<Rightarrow> nat \<times> preproc \<Rightarrow> nat \<times> preproc" where
  "compact_row i = (\<lambda>(id, p).
     if deleted p i then (id, p\<lparr>pp_clause := (pp_clause p)[i := []]\<rparr>)
     else
       let id = id + 1
       in (id, p\<lparr>pp_clause := (pp_clause p)[id := map (rename_lit (pp_color p)) (pp_row p i)],
                 pp_degree := (pp_degree p)[id := pp_deg p i]\<rparr>))"

definition update_var_clause_label :: "preproc \<Rightarrow> preproc" where
  "update_var_clause_label p =
     (let p = fold (\<lambda>i p. p\<lparr>pp_color := (pp_color p)(i := 0)\<rparr>) [1..<Suc (pp_vars p)] p;
          p = fold mark_row [1..<Suc (pp_clauses p)] p;
          (remain_var, p) = fold number_var [1..<Suc (pp_vars p)] (0, p);
          (id, p) = fold compact_row [1..<Suc (pp_clauses p)] (0, p);
          p = fold (\<lambda>i p. p\<lparr>pp_clause := (pp_clause p)[i := []]\<rparr>) [id + 1..<Suc (pp_clauses p)] p;
          p = fold (\<lambda>i p. p\<lparr>pp_occurp := (pp_occurp p)(i := []), pp_occurn := (pp_occurn p)(i := [])\<rparr>)
                   [remain_var + 1..<Suc (pp_vars p)] p
      in p\<lparr>pp_clause := take (id + 1) (pp_clause p), pp_degree := take (id + 1) (pp_degree p),
           pp_vars := remain_var, pp_clauses := id\<rparr>)"

section \<open>What the relabelling does\<close>

definition active_rows :: "preproc \<Rightarrow> nat list" where
  "active_rows p = filter (\<lambda>i. \<not> deleted p i) [1..<Suc (pp_clauses p)]"

definition used_vars :: "preproc \<Rightarrow> nat set" where
  "used_vars p = (\<Union>i\<in>set (active_rows p). lit_var ` set (pp_row p i))"

text \<open>\<open>var_number U v\<close> is the position of \<open>v\<close> in the sorted list of the used variables, 0 for an
  unused one.\<close>

definition var_number :: "nat set \<Rightarrow> nat \<Rightarrow> nat" where
  "var_number U v = (if v \<in> U then card {u \<in> U. u \<le> v} else 0)"

lemma var_number_pos:
  assumes "finite U" and "v \<in> U"
  shows "1 \<le> var_number U v" and "var_number U v \<le> card U"
proof -
  have "v \<in> {u \<in> U. u \<le> v}" using assms by simp
  then have "0 < card {u \<in> U. u \<le> v}" using assms(1) by (intro card_gt_0_iff [THEN iffD2]) auto
  then show "1 \<le> var_number U v" using assms(2) by (simp add: var_number_def)
  show "var_number U v \<le> card U" using assms by (auto simp: var_number_def intro: card_mono)
qed

lemma var_number_mono:
  assumes "finite U" and "u \<in> U" "v \<in> U" "u < v"
  shows "var_number U u < var_number U v"
proof -
  have "v \<in> {x \<in> U. x \<le> v}" "v \<notin> {x \<in> U. x \<le> u}" using assms by auto
  then have "{x \<in> U. x \<le> u} \<noteq> {x \<in> U. x \<le> v}" by blast
  then have "{x \<in> U. x \<le> u} \<subset> {x \<in> U. x \<le> v}" using assms(4) by (intro psubsetI) auto
  then show ?thesis using assms by (simp add: var_number_def psubset_card_mono)
qed

lemma var_number_inj: "finite U \<Longrightarrow> inj_on (var_number U) U"
  by (rule linorder_inj_onI') (metis var_number_mono less_irrefl)

lemma var_number_image:
  assumes "finite U"
  shows "var_number U ` U = {1..card U}"
proof (rule card_subset_eq)
  show "var_number U ` U \<subseteq> {1..card U}" using var_number_pos [OF assms] by auto
  show "card (var_number U ` U) = card {1..card U}"
    using card_image [OF var_number_inj [OF assms]] by simp
qed simp

text \<open>Equality of two updates of one field is equality of the values.\<close>

lemma color_upd_eq: "p\<lparr>pp_color := f\<rparr> = p\<lparr>pp_color := g\<rparr> \<longleftrightarrow> f = g"
  by (metis preproc.select_convs(15) preproc.surjective preproc.update_convs(15))

lemma color_upd_id: "p\<lparr>pp_color := pp_color p\<rparr> = p"
  by simp

lemma fold_color_zero:
  "fold (\<lambda>i p. p\<lparr>pp_color := (pp_color p)(i := 0)\<rparr>) xs p
     = p\<lparr>pp_color := (\<lambda>v. if v \<in> set xs then 0 else pp_color p v)\<rparr>"
  by (induction xs arbitrary: p) (auto simp: color_upd_eq fun_eq_iff)

lemma fold_mark_lits:
  "fold (\<lambda>l p. p\<lparr>pp_color := (pp_color p)(lit_var l := 1)\<rparr>) ls p
     = p\<lparr>pp_color := (\<lambda>v. if v \<in> lit_var ` set ls then 1 else pp_color p v)\<rparr>"
  by (induction ls arbitrary: p) (auto simp: color_upd_eq fun_eq_iff)

lemma fold_mark_rows:
  "fold mark_row is' p = p\<lparr>pp_color := (\<lambda>v. if \<exists>i\<in>set is'. \<not> deleted p i \<and> v \<in> lit_var ` set (pp_row p i)
      then 1 else pp_color p v)\<rparr>"
proof (induction is' arbitrary: p)
  case Nil
  then show ?case by simp
next
  case (Cons i ks)
  have "mark_row i p = p\<lparr>pp_color := (\<lambda>v. if \<not> deleted p i \<and> v \<in> lit_var ` set (pp_row p i)
      then 1 else pp_color p v)\<rparr>"
    unfolding mark_row_def fold_mark_lits by (cases "deleted p i") simp_all
  then show ?case by (auto simp: Cons.IH fun_eq_iff color_upd_eq)
qed

lemma fold_number_vars:
  assumes "\<forall>v. 1 \<le> v \<longrightarrow> v \<le> k \<longrightarrow> pp_color p v = of_bool (v \<in> U)" and "U \<subseteq> {1..}" "finite U"
  shows "fold number_var [1..<Suc k] (0, p)
     = (card {u \<in> U. u \<le> k}, p\<lparr>pp_color := (\<lambda>v. if 1 \<le> v \<and> v \<le> k then var_number U v else pp_color p v)\<rparr>)"
  using assms(1)
proof (induction k)
  case 0
  have "{u \<in> U. u \<le> 0} = {}" using assms(2) by auto
  moreover have "(\<lambda>v. if 1 \<le> v \<and> v \<le> 0 then var_number U v else pp_color p v) = pp_color p" by auto
  ultimately show ?case by simp
next
  case (Suc k)
  let ?c = "\<lambda>k v. if 1 \<le> v \<and> v \<le> k then var_number U v else pp_color p v"
  have f: "fold number_var [1..<Suc (Suc k)] (0, p)
     = number_var (Suc k) (card {u \<in> U. u \<le> k}, p\<lparr>pp_color := ?c k\<rparr>)"
    using Suc by simp
  show ?case
  proof (cases "Suc k \<in> U")
    case True
    have "{u \<in> U. u \<le> Suc k} = insert (Suc k) {u \<in> U. u \<le> k}" using True by auto
    then have "card {u \<in> U. u \<le> Suc k} = card {u \<in> U. u \<le> k} + 1" using assms(3) by simp
    moreover from this have "?c (Suc k) = (?c k)(Suc k := card {u \<in> U. u \<le> k} + 1)"
      using True by (auto simp: var_number_def fun_eq_iff le_Suc_eq)
    moreover have "pp_color p (Suc k) = 1" using Suc.prems True by auto
    ultimately show ?thesis unfolding f by (simp add: number_var_def)
  next
    case False
    then have "{u \<in> U. u \<le> Suc k} = {u \<in> U. u \<le> k}" by (auto simp: le_Suc_eq)
    moreover have "pp_color p (Suc k) = 0" using Suc.prems False by auto
    moreover from this have "?c (Suc k) = ?c k"
      using False by (auto simp: var_number_def fun_eq_iff le_Suc_eq)
    ultimately show ?thesis unfolding f by (simp add: number_var_def)
  qed
qed


text \<open>The compaction, after \<open>k\<close> rows: the first rows are the renamed active ones, the rows beyond
  \<open>k\<close> are untouched.\<close>

definition active_upto :: "preproc \<Rightarrow> nat \<Rightarrow> nat list" where
  "active_upto p k = filter (\<lambda>i. \<not> deleted p i) [1..<Suc k]"

definition compacted :: "preproc \<Rightarrow> nat \<Rightarrow> (int list list \<times> int list) \<Rightarrow> bool" where
  "compacted p k = (\<lambda>(C, D). length C = length (pp_clause p) \<and> length D = length (pp_degree p)
     \<and> C ! 0 = pp_row p 0 \<and> D ! 0 = pp_deg p 0
     \<and> (\<forall>j<length (active_upto p k).
          C ! Suc j = map (rename_lit (pp_color p)) (pp_row p (active_upto p k ! j))
        \<and> D ! Suc j = pp_deg p (active_upto p k ! j))
     \<and> (\<forall>j>k. C ! j = pp_row p j \<and> D ! j = pp_deg p j))"

lemma length_active_upto: "length (active_upto p k) \<le> k"
  using length_filter_le [of "\<lambda>i. \<not> deleted p i" "[1..<Suc k]"] by (simp add: active_upto_def del: upt_Suc)

lemma clause_degree_comm:
  "p\<lparr>pp_degree := D, pp_clause := C\<rparr> = p\<lparr>pp_clause := C, pp_degree := D\<rparr>"
  by (cases p) simp

lemma compact_loop:
  assumes "k < length (pp_clause p)" and "k < length (pp_degree p)"
  shows "\<exists>C D. fold compact_row [1..<Suc k] (0, p) = (length (active_upto p k), p\<lparr>pp_clause := C, pp_degree := D\<rparr>)
    \<and> compacted p k (C, D)"
  using assms
proof (induction k)
  case 0
  have "compacted p 0 (pp_clause p, pp_degree p)" by (simp add: compacted_def active_upto_def)
  then show ?case
    by (intro exI [of _ "pp_clause p"] exI [of _ "pp_degree p"]) (simp add: active_upto_def)
next
  case (Suc k)
  then obtain C D where IH: "fold compact_row [1..<Suc k] (0, p) = (length (active_upto p k), p\<lparr>pp_clause := C, pp_degree := D\<rparr>)"
    "compacted p k (C, D)" by auto
  let ?n = "length (active_upto p k)"
  have n: "?n \<le> k" by (rule length_active_upto)
  have f: "fold compact_row [1..<Suc (Suc k)] (0, p) = compact_row (Suc k) (?n, p\<lparr>pp_clause := C, pp_degree := D\<rparr>)"
    using IH(1) by simp
  have len: "length C = length (pp_clause p)" "length D = length (pp_degree p)" using IH(2) by (auto simp: compacted_def)
  show ?case
  proof (cases "deleted p (Suc k)")
    case True
    then have "active_upto p (Suc k) = active_upto p k" by (simp add: active_upto_def)
    moreover from this have "compacted p (Suc k) (C[Suc k := []], D)"
      using IH(2) n by (auto simp: compacted_def)
    moreover have "compact_row (Suc k) (?n, p\<lparr>pp_clause := C, pp_degree := D\<rparr>)
        = (?n, p\<lparr>pp_clause := C[Suc k := []], pp_degree := D\<rparr>)"
      using True by (simp add: compact_row_def clause_degree_comm)
    ultimately show ?thesis unfolding f by auto
  next
    case False
    then have a: "active_upto p (Suc k) = active_upto p k @ [Suc k]" by (simp add: active_upto_def)
    have r: "C ! Suc k = pp_row p (Suc k)" "D ! Suc k = pp_deg p (Suc k)" using IH(2) by (auto simp: compacted_def)
    have "compacted p (Suc k) (C[Suc ?n := map (rename_lit (pp_color p)) (pp_row p (Suc k))], D[Suc ?n := pp_deg p (Suc k)])"
      using IH(2) n Suc.prems unfolding compacted_def a
      by (auto simp: nth_append nth_list_update less_Suc_eq)
    moreover have "compact_row (Suc k) (?n, p\<lparr>pp_clause := C, pp_degree := D\<rparr>)
        = (Suc ?n, p\<lparr>pp_clause := C[Suc ?n := map (rename_lit (pp_color p)) (pp_row p (Suc k))],
                      pp_degree := D[Suc ?n := pp_deg p (Suc k)]\<rparr>)"
      using False by (simp add: compact_row_def r Let_def)
    moreover have "length (active_upto p (Suc k)) = Suc ?n" by (simp add: a)
    ultimately show ?thesis unfolding f by (auto simp del: upt_Suc)
  qed
qed

lemma compacted_rows:
  assumes "compacted p k (C, D)" and "length (active_upto p k) < length (pp_clause p)"
    and "length (active_upto p k) < length (pp_degree p)" and "pp_clause p \<noteq> []" "pp_degree p \<noteq> []"
  shows "take (length (active_upto p k) + 1) C
      = pp_row p 0 # map (\<lambda>i. map (rename_lit (pp_color p)) (pp_row p i)) (active_upto p k)"
    and "take (length (active_upto p k) + 1) D = pp_deg p 0 # map (pp_deg p) (active_upto p k)"
proof -
  show "take (length (active_upto p k) + 1) C
      = pp_row p 0 # map (\<lambda>i. map (rename_lit (pp_color p)) (pp_row p i)) (active_upto p k)"
    using assms by (intro nth_equalityI) (auto simp: compacted_def nth_Cons split: nat.split)
  show "take (length (active_upto p k) + 1) D = pp_deg p 0 # map (pp_deg p) (active_upto p k)"
    using assms by (intro nth_equalityI) (auto simp: compacted_def nth_Cons split: nat.split)
qed

lemma fold_clear_rows:
  "\<exists>C. fold (\<lambda>i p. p\<lparr>pp_clause := (pp_clause p)[i := []]\<rparr>) js p = p\<lparr>pp_clause := C\<rparr>
     \<and> length C = length (pp_clause p) \<and> (\<forall>j. j \<notin> set js \<longrightarrow> C ! j = pp_row p j)"
proof (induction js arbitrary: p)
  case Nil
  show ?case by (rule exI [of _ "pp_clause p"]) simp
next
  case (Cons i ks)
  show ?case using Cons.IH [of "p\<lparr>pp_clause := (pp_clause p)[i := []]\<rparr>"] by auto
qed

lemma fold_clear_occurrences:
  "\<exists>a b. fold (\<lambda>i p. p\<lparr>pp_occurp := (pp_occurp p)(i := []), pp_occurn := (pp_occurn p)(i := [])\<rparr>) js p
     = p\<lparr>pp_occurp := a, pp_occurn := b\<rparr>"
proof (induction js arbitrary: p)
  case Nil
  show ?case by (rule exI [of _ "pp_occurp p"], rule exI [of _ "pp_occurn p"]) simp
next
  case (Cons i ks)
  show ?case using Cons.IH [of "p\<lparr>pp_occurp := (pp_occurp p)(i := []), pp_occurn := (pp_occurn p)(i := [])\<rparr>"]
    by (simp del: fun_upd_apply)
qed

text \<open>The relabelled state: rows, degrees, sizes and the colours, which now number the variables.\<close>

lemma update_label_result:
  assumes len: "pp_clauses p < length (pp_clause p)" "pp_clauses p < length (pp_degree p)"
    and lits: "used_vars p \<subseteq> {1..pp_vars p}"
  defines "num \<equiv> var_number (used_vars p)"
  shows "\<exists>a b. update_var_clause_label p = p\<lparr>
      pp_color := (\<lambda>v. if 1 \<le> v \<and> v \<le> pp_vars p then num v else pp_color p v),
      pp_clause := pp_row p 0 # map (\<lambda>i. map (rename_lit num) (pp_row p i)) (active_rows p),
      pp_degree := pp_deg p 0 # map (pp_deg p) (active_rows p),
      pp_occurp := a, pp_occurn := b, pp_vars := card (used_vars p), pp_clauses := length (active_rows p)\<rparr>"
proof -
  let ?U = "used_vars p"
  define col where "col = (\<lambda>v. if 1 \<le> v \<and> v \<le> pp_vars p then num v else pp_color p v)"
  have fin: "finite ?U" using lits finite_subset by blast
  define p1 where "p1 = p\<lparr>pp_color := (\<lambda>v. if v \<in> set [1..<Suc (pp_vars p)] then 0 else pp_color p v)\<rparr>"
  have p1: "fold (\<lambda>i p. p\<lparr>pp_color := (pp_color p)(i := 0)\<rparr>) [1..<Suc (pp_vars p)] p = p1"
    by (simp only: fold_color_zero p1_def)
  define p2 where "p2 = p\<lparr>pp_color := (\<lambda>v. if v \<in> ?U then 1 else if 1 \<le> v \<and> v \<le> pp_vars p then 0 else pp_color p v)\<rparr>"
  have p2: "fold mark_row [1..<Suc (pp_clauses p)] p1 = p2"
    unfolding fold_mark_rows by (auto simp: p1_def p2_def color_upd_eq fun_eq_iff used_vars_def active_rows_def)
  have p3: "fold number_var [1..<Suc (pp_vars p)] (0, p2) = (card ?U, p\<lparr>pp_color := col\<rparr>)"
  proof -
    have "{u \<in> ?U. u \<le> pp_vars p} = ?U" using lits by auto
    moreover have "(\<lambda>v. if 1 \<le> v \<and> v \<le> pp_vars p then var_number ?U v else pp_color p2 v) = col"
      using lits by (auto simp: p2_def col_def num_def fun_eq_iff)
    moreover have "\<forall>v. 1 \<le> v \<longrightarrow> v \<le> pp_vars p \<longrightarrow> pp_color p2 v = of_bool (v \<in> ?U)" "?U \<subseteq> {1..}"
      using lits by (auto simp: p2_def)
    note fold_number_vars [OF this fin]
    moreover have "p2\<lparr>pp_color := col\<rparr> = p\<lparr>pp_color := col\<rparr>" by (simp add: p2_def)
    ultimately show ?thesis by (simp only:)
  qed
  define p4 where "p4 = p\<lparr>pp_color := col\<rparr>"
  have act: "active_upto p4 (pp_clauses p) = active_rows p" by (simp add: active_upto_def active_rows_def p4_def)
  obtain C D where cp: "fold compact_row [1..<Suc (pp_clauses p)] (0, p4)
      = (length (active_rows p), p4\<lparr>pp_clause := C, pp_degree := D\<rparr>)" "compacted p4 (pp_clauses p) (C, D)"
    using compact_loop [of "pp_clauses p" p4] len act by (auto simp: p4_def)
  obtain C' where C': "fold (\<lambda>i p. p\<lparr>pp_clause := (pp_clause p)[i := []]\<rparr>) [length (active_rows p) + 1..<Suc (pp_clauses p)]
        (p4\<lparr>pp_clause := C, pp_degree := D\<rparr>) = p4\<lparr>pp_clause := C', pp_degree := D\<rparr>"
    "length C' = length C" "\<forall>j. j \<notin> set [length (active_rows p) + 1..<Suc (pp_clauses p)] \<longrightarrow> C' ! j = C ! j"
    using fold_clear_rows [of "[length (active_rows p) + 1..<Suc (pp_clauses p)]" "p4\<lparr>pp_clause := C, pp_degree := D\<rparr>"]
    by (auto simp: clause_degree_comm simp del: upt_Suc)
  obtain a b where ab: "fold (\<lambda>i p. p\<lparr>pp_occurp := (pp_occurp p)(i := []), pp_occurn := (pp_occurn p)(i := [])\<rparr>)
        [card ?U + 1..<Suc (pp_vars p)] (p4\<lparr>pp_clause := C', pp_degree := D\<rparr>)
      = p4\<lparr>pp_clause := C', pp_degree := D, pp_occurp := a, pp_occurn := b\<rparr>"
    using fold_clear_occurrences by blast
  have le: "length (active_rows p) \<le> pp_clauses p" using length_active_upto [of p4] act by metis
  have "take (length (active_rows p) + 1) C' = take (length (active_rows p) + 1) C"
    using C'(2,3) cp(2) le len by (intro nth_take_lemma) (auto simp: compacted_def p4_def)
  moreover have "pp_row p4 = pp_row p" "pp_deg p4 = pp_deg p" "pp_color p4 = col" by (simp_all add: p4_def)
  note rows = compacted_rows [OF cp(2), unfolded act this]
  have "length (active_rows p) < length (pp_clause p4)" "length (active_rows p) < length (pp_degree p4)"
    "pp_clause p4 \<noteq> []" "pp_degree p4 \<noteq> []" using le len by (auto simp: p4_def)
  note rows = rows [OF this]
  moreover have "map (rename_lit col) (pp_row p i) = map (rename_lit num) (pp_row p i)" if "i \<in> set (active_rows p)" for i
  proof -
    have "1 \<le> lit_var l \<and> lit_var l \<le> pp_vars p" if "l \<in> set (pp_row p i)" for l
      using that \<open>i \<in> set (active_rows p)\<close> lits unfolding used_vars_def by force
    then show ?thesis by (simp add: rename_lit_def col_def)
  qed
  then have "map (\<lambda>i. map (rename_lit col) (pp_row p i)) (active_rows p)
      = map (\<lambda>i. map (rename_lit num) (pp_row p i)) (active_rows p)" by simp
  moreover have "update_var_clause_label p = p4\<lparr>pp_clause := take (length (active_rows p) + 1) C',
      pp_degree := take (length (active_rows p) + 1) D,
      pp_occurp := a, pp_occurn := b, pp_vars := card ?U, pp_clauses := length (active_rows p)\<rparr>"
  proof -
    have sz: "pp_clauses p1 = pp_clauses p" "pp_vars p2 = pp_vars p" "pp_clauses p4 = pp_clauses p"
      "pp_vars p4 = pp_vars p" "pp_clauses (p4\<lparr>pp_clause := C, pp_degree := D\<rparr>) = pp_clauses p"
      "pp_vars (p4\<lparr>pp_clause := C', pp_degree := D\<rparr>) = pp_vars p" by (simp_all add: p1_def p2_def p4_def)
    let ?q = "p4\<lparr>pp_clause := C', pp_degree := D, pp_occurp := a, pp_occurn := b\<rparr>"
    have "update_var_clause_label p = ?q\<lparr>pp_clause := take (length (active_rows p) + 1) (pp_clause ?q),
        pp_degree := take (length (active_rows p) + 1) (pp_degree ?q), pp_vars := card ?U,
        pp_clauses := length (active_rows p)\<rparr>"
      by (simp only: update_var_clause_label_def Let_def p1 sz p2 p3 p4_def [symmetric] case_prod_conv cp(1)
          preproc.simps C'(1) ab)
    also have "\<dots> = p4\<lparr>pp_clause := take (length (active_rows p) + 1) C',
      pp_degree := take (length (active_rows p) + 1) D,
      pp_occurp := a, pp_occurn := b, pp_vars := card ?U, pp_clauses := length (active_rows p)\<rparr>"
      by (cases p4) simp
    finally show ?thesis .
  qed
  ultimately have "update_var_clause_label p = p\<lparr>pp_color := col,
      pp_clause := pp_row p 0 # map (\<lambda>i. map (rename_lit num) (pp_row p i)) (active_rows p),
      pp_degree := pp_deg p 0 # map (pp_deg p) (active_rows p),
      pp_occurp := a, pp_occurn := b, pp_vars := card ?U, pp_clauses := length (active_rows p)\<rparr>"
    by (simp add: p4_def)
  then show ?thesis unfolding col_def by blast
qed


section \<open>The relabelling keeps the models\<close>

lemma lit_var_rename [simp]: "lit_var (rename_lit num l) = num (lit_var l)"
  by (simp add: rename_lit_def lit_var_def pnsign_def)

lemma rename_lit_eq_0: "rename_lit num l = 0 \<longleftrightarrow> num (lit_var l) = 0"
  by (simp add: rename_lit_def pnsign_def)

lemma lit_sat_rename:
  assumes "0 < num (lit_var l)" and "l \<noteq> 0" and "a (lit_var l) = b (num (lit_var l))"
  shows "lit_sat b (rename_lit num l) = lit_sat a l"
  using assms by (auto simp: lit_sat_def lit_var_def rename_lit_def pnsign_def)

text \<open>What the phases establish for the rows they keep.\<close>

definition active_ok :: "preproc \<Rightarrow> bool" where
  "active_ok p \<longleftrightarrow> pp_clauses p < length (pp_clause p) \<and> pp_clauses p < length (pp_degree p)
     \<and> (\<forall>i\<in>set (active_rows p). 1 \<le> pp_deg p i \<and> pp_row p i \<noteq> [] \<and> distinct (map lit_var (pp_row p i))
          \<and> (\<forall>l\<in>set (pp_row p i). l \<noteq> 0 \<and> lit_var l \<le> pp_vars p))"

lemma active_ok_used: "active_ok p \<Longrightarrow> used_vars p \<subseteq> {1..pp_vars p}"
  using lit_var_pos by (fastforce simp: active_ok_def used_vars_def Suc_le_eq)

lemma finite_used: "active_ok p \<Longrightarrow> finite (used_vars p)"
  using active_ok_used finite_subset by blast

lemma pp_rows_relabelled:
  assumes "pp_clause q = r # map f xs" and "pp_degree q = d # map g xs" and "pp_clauses q = length xs"
  shows "pp_rows q = map (\<lambda>i. (f i, g i)) xs"
  using assms by (intro nth_equalityI) (auto simp: pp_rows_def nth_Cons simp del: upt_Suc)

lemma relabel_ok:
  assumes ok: "active_ok p"
  defines "q \<equiv> update_var_clause_label p"
  shows "rows_ok q" and "pp_vars q = card (used_vars p)"
    and "\<And>v. v \<in> {1..pp_vars p} \<Longrightarrow> pp_color q v = var_number (used_vars p) v"
    and "pp_rows q = map (\<lambda>i. (map (rename_lit (var_number (used_vars p))) (pp_row p i), pp_deg p i)) (active_rows p)"
    and "length (pp_clause q) = Suc (pp_clauses q)" and "length (pp_degree q) = Suc (pp_clauses q)"
    and "q = p\<lparr>pp_color := pp_color q, pp_clause := pp_clause q, pp_degree := pp_degree q,
        pp_occurp := pp_occurp q, pp_occurn := pp_occurn q, pp_vars := pp_vars q, pp_clauses := pp_clauses q\<rparr>"
proof -
  let ?num = "var_number (used_vars p)"
  obtain a b where q: "q = p\<lparr>
      pp_color := (\<lambda>v. if 1 \<le> v \<and> v \<le> pp_vars p then ?num v else pp_color p v),
      pp_clause := pp_row p 0 # map (\<lambda>i. map (rename_lit ?num) (pp_row p i)) (active_rows p),
      pp_degree := pp_deg p 0 # map (pp_deg p) (active_rows p),
      pp_occurp := a, pp_occurn := b, pp_vars := card (used_vars p), pp_clauses := length (active_rows p)\<rparr>"
    using update_label_result [of p] ok active_ok_used [OF ok] by (auto simp: q_def active_ok_def)
  show "pp_vars q = card (used_vars p)" by (simp add: q)
  show "pp_color q v = ?num v" if "v \<in> {1..pp_vars p}" for v using that by (simp add: q)
  show rows: "pp_rows q = map (\<lambda>i. (map (rename_lit ?num) (pp_row p i), pp_deg p i)) (active_rows p)"
    by (rule pp_rows_relabelled) (simp_all add: q)
  show "length (pp_clause q) = Suc (pp_clauses q)" "length (pp_degree q) = Suc (pp_clauses q)" by (simp_all add: q)
  show "q = p\<lparr>pp_color := pp_color q, pp_clause := pp_clause q, pp_degree := pp_degree q,
        pp_occurp := pp_occurp q, pp_occurn := pp_occurn q, pp_vars := pp_vars q, pp_clauses := pp_clauses q\<rparr>"
    by (simp add: q)
  have fin: "finite (used_vars p)" by (rule finite_used [OF ok])
  have row: "1 \<le> pp_deg p i \<and> map (rename_lit ?num) (pp_row p i) \<noteq> []
      \<and> distinct (map lit_var (map (rename_lit ?num) (pp_row p i)))
      \<and> (\<forall>l\<in>set (map (rename_lit ?num) (pp_row p i)). l \<noteq> 0 \<and> lit_var l \<le> card (used_vars p))"
    if i: "i \<in> set (active_rows p)" for i
  proof -
    have sub: "lit_var ` set (pp_row p i) \<subseteq> used_vars p" using i by (auto simp: used_vars_def)
    have pi: "1 \<le> pp_deg p i" "pp_row p i \<noteq> []" "distinct (map lit_var (pp_row p i))"
      using ok i by (auto simp: active_ok_def)
    have "distinct (map ?num (map lit_var (pp_row p i)))"
      using pi(3) inj_on_subset [OF var_number_inj [OF fin] sub]
      by (simp only: distinct_map) simp
    moreover have "0 < ?num (lit_var l) \<and> ?num (lit_var l) \<le> card (used_vars p)" if "l \<in> set (pp_row p i)" for l
      using var_number_pos [OF fin, of "lit_var l"] that sub by auto
    ultimately show ?thesis using pi by (auto simp: o_def rename_lit_eq_0)
  qed
  have "\<forall>x\<in>set (pp_rows q). case x of (c, d) \<Rightarrow> 1 \<le> d \<and> c \<noteq> [] \<and> distinct (map lit_var c)
      \<and> (\<forall>l\<in>set c. l \<noteq> 0 \<and> lit_var l \<le> pp_vars q)"
    using row unfolding rows \<open>pp_vars q = card (used_vars p)\<close> by auto
  then show "rows_ok q" by (auto simp: rows_ok_def pp_rows_def less_Suc_eq_le)
qed

lemma relabel_models:
  assumes ok: "active_ok p" and ab: "\<forall>v\<in>used_vars p. a v = b (var_number (used_vars p) v)"
  shows "rows_sat b (pp_rows (update_var_clause_label p))
    \<longleftrightarrow> (\<forall>i\<in>set (active_rows p). row_sat a (pp_row p i) (pp_deg p i))"
proof -
  let ?num = "var_number (used_vars p)"
  have "row_count b (map (rename_lit ?num) (pp_row p i)) = row_count a (pp_row p i)"
    if i: "i \<in> set (active_rows p)" for i
  proof -
    have "lit_sat b (rename_lit ?num l) = lit_sat a l" if l: "l \<in> set (pp_row p i)" for l
    proof (rule lit_sat_rename)
      have u: "lit_var l \<in> used_vars p" using i l by (auto simp: used_vars_def)
      then show "0 < ?num (lit_var l)" using var_number_pos(1) [OF finite_used [OF ok] u] by simp
      show "l \<noteq> 0" using ok i l by (auto simp: active_ok_def)
      show "a (lit_var l) = b (?num (lit_var l))" using ab u by simp
    qed
    then show ?thesis by (simp add: row_count_def filter_map o_def cong: filter_cong)
  qed
  then show ?thesis
    unfolding rows_sat_def relabel_ok(4) [OF ok] by (auto simp: row_sat_def)
qed

end
