(* ===== verification/Parse.thy ===== *)
theory Parse
  imports Preprocess "HOL-Library.While_Combinator"
begin

text \<open>
  Reading and writing KNF files: \<open>readfile\<close> and its helpers (src/utils/parse.cpp),
  \<open>Preprocessor::read_file\<close> and \<open>write_to_file\<close> (src/PreProcess/preprocess.cpp) and
  \<open>write_instance\<close> (src/LocalSearch/reader.cpp).  The pointer \<open>p\<close> into the buffer is the rest of
  the text from there on; the empty rest is the terminating zero byte the reader appends.
  The ways the code can leave other than by returning are values: \<open>Exit0\<close> is \<open>exit(0)\<close>,
  \<open>Fault\<close> an access outside a buffer or vector or a signed overflow.  A loop that never ends has
  the value \<open>None\<close>.
\<close>

datatype stop = Exit0 | Fault

definition int_max :: int where "int_max = 2 ^ 31 - 1"

section \<open>The helpers\<close>

definition cur :: "string \<Rightarrow> nat" where
  "cur s = (case s of [] \<Rightarrow> 0 | c # _ \<Rightarrow> of_char c)"

definition is_space :: "char \<Rightarrow> bool" where
  "is_space c \<longleftrightarrow> 9 \<le> (of_char c :: nat) \<and> (of_char c :: nat) \<le> 13 \<or> (of_char c :: nat) = 32"

definition read_whitespace :: "string \<Rightarrow> string" where
  "read_whitespace s = dropWhile is_space s"

text \<open>\<open>None\<close> when the text ends before a newline: the code calls \<open>exit(0)\<close>.\<close>

fun read_until_new_line :: "string \<Rightarrow> string option" where
  "read_until_new_line [] = None"
| "read_until_new_line (c # s) =
     (if (of_char c :: nat) = 10 then Some s
      else if (of_char c :: nat) = 0 then None else read_until_new_line s)"

text \<open>\<open>*i * 10 + *p - '0'\<close> on 32-bit integers: \<open>None\<close> when the sum before the subtraction
  overflows.\<close>

fun read_digits :: "string \<Rightarrow> int \<Rightarrow> (int \<times> string) option" where
  "read_digits [] i = Some (i, [])"
| "read_digits (c # s) i =
     (if 48 \<le> (of_char c :: nat) \<and> (of_char c :: nat) \<le> 57
      then (if i * 10 + of_char c > int_max then None else read_digits s (i * 10 + of_char c - 48))
      else Some (i, c # s))"

definition read_int :: "string \<Rightarrow> (int \<times> string) option" where
  "read_int s =
     (let s = read_whitespace s;
          sym = (cur s \<noteq> 45);
          s = (if sym then s else tl s)
      in case read_digits s 0 of None \<Rightarrow> None | Some (i, s) \<Rightarrow> Some (if sym then i else - i, s))"

section \<open>readfile\<close>

record parser =
  ps_rest :: string
  ps_vars :: int
  ps_clauses :: int
  ps_num_clauses :: nat
  ps_cardinality :: bool
  ps_clause :: "int list list"
  ps_degree :: "int list"

definition parse_header :: "string \<Rightarrow> parser \<Rightarrow> stop + parser" where
  "parse_header s st =
     (if length s < 5 then Inl Fault
      else case read_int (drop 5 s) of
        None \<Rightarrow> Inl Fault
      | Some (v, s) \<Rightarrow>
          (case read_int s of
             None \<Rightarrow> Inl Fault
           | Some (c, s) \<Rightarrow>
               if c + 1 > int_max then Inl Fault
               else Inr (st\<lparr>ps_rest := s, ps_vars := v, ps_clauses := c,
                            ps_degree := grow_to (nat (c + 1)) 0 (ps_degree st)\<rparr>)))"

definition parse_number :: "string \<Rightarrow> parser \<Rightarrow> stop + parser" where
  "parse_number s st =
     (case read_int s of
        None \<Rightarrow> Inl Fault
      | Some (dimacs_lit, s) \<Rightarrow>
          let st = st\<lparr>ps_rest := s\<rparr>
          in if cur s = 0 \<and> dimacs_lit \<noteq> 0 then Inl Exit0
             else if dimacs_lit = 0
             then Inr (st\<lparr>ps_num_clauses := ps_num_clauses st + 1, ps_clause := ps_clause st @ [[]]\<rparr>)
             else if ps_cardinality st
             then (if ps_num_clauses st < length (ps_degree st)
                   then Inr (st\<lparr>ps_degree := (ps_degree st)[ps_num_clauses st := dimacs_lit], ps_cardinality := False\<rparr>)
                   else Inl Fault)
             else Inr (st\<lparr>ps_clause := (ps_clause st)[ps_num_clauses st := ps_clause st ! ps_num_clauses st @ [dimacs_lit]]\<rparr>))"

definition parse_step :: "parser \<Rightarrow> stop + parser" where
  "parse_step st =
     (let s = read_whitespace (ps_rest st)
      in if cur s = 0 then Inr (st\<lparr>ps_rest := s\<rparr>)
         else if cur s = 99 then (case read_until_new_line s of None \<Rightarrow> Inl Exit0 | Some s \<Rightarrow> Inr (st\<lparr>ps_rest := s\<rparr>))
         else if cur s = 112 then parse_header s st
         else if cur s = 107 then Inr (st\<lparr>ps_cardinality := True, ps_rest := tl s\<rparr>)
         else parse_number s st)"

definition parse_more :: "stop + parser \<Rightarrow> bool" where
  "parse_more r = (case r of Inl _ \<Rightarrow> False | Inr st \<Rightarrow> cur (ps_rest st) \<noteq> 0)"

definition parse_next :: "stop + parser \<Rightarrow> stop + parser" where
  "parse_next r = (case r of Inl e \<Rightarrow> Inl e | Inr st \<Rightarrow> parse_step st)"

definition parse_run :: "parser \<Rightarrow> (stop + parser) option" where
  "parse_run st = while_option parse_more parse_next (Inr st)"

definition parse_start :: "int \<Rightarrow> int \<Rightarrow> int list list \<Rightarrow> int list \<Rightarrow> string \<Rightarrow> parser" where
  "parse_start vars clauses clause degree data =
     \<lparr>ps_rest = data, ps_vars = vars, ps_clauses = clauses, ps_num_clauses = 1, ps_cardinality = False,
      ps_clause = clause @ [[], []], ps_degree = degree\<rparr>"

definition readfile :: "string \<Rightarrow> int \<Rightarrow> int \<Rightarrow> int list list \<Rightarrow> int list \<Rightarrow> (stop + parser) option" where
  "readfile data vars clauses clause degree =
     (case parse_run (parse_start vars clauses clause degree data) of
        None \<Rightarrow> None
      | Some (Inl e) \<Rightarrow> Some (Inl e)
      | Some (Inr st) \<Rightarrow>
          Some (Inr (if int (ps_num_clauses st) \<noteq> ps_clauses st + 1
                     then st\<lparr>ps_clauses := int (ps_num_clauses st) - 1\<rparr> else st)))"

section \<open>Preprocessor::read\_file\<close>

definition default_degree :: "nat \<Rightarrow> preproc \<Rightarrow> preproc" where
  "default_degree i p =
     (let p = (if pp_deg p i = 0 then p\<lparr>pp_degree := (pp_degree p)[i := 1]\<rparr> else p);
          l = length (pp_row p i)
      in if l > pp_maxlen p then p\<lparr>pp_maxlen := l\<rparr> else p)"

text \<open>A negative number of variables makes the first array allocation fail; it is a \<open>Fault\<close> here.\<close>

definition read_file :: "string \<Rightarrow> preproc \<Rightarrow> (stop + preproc) option" where
  "read_file data p =
     (let p = clear_problem p
      in case readfile data (int (pp_vars p)) (int (pp_clauses p)) (pp_clause p) (pp_degree p) of
           None \<Rightarrow> None
         | Some (Inl e) \<Rightarrow> Some (Inl e)
         | Some (Inr st) \<Rightarrow>
             if ps_vars st < 0 \<or> \<not> nat (ps_clauses st) < length (ps_degree st) then Some (Inl Fault)
             else
               let p = p\<lparr>pp_vars := nat (ps_vars st), pp_clauses := nat (ps_clauses st),
                         pp_clause := ps_clause st, pp_degree := ps_degree st\<rparr>;
                   p = p\<lparr>pp_orivars := pp_vars p, pp_oriclauses := pp_clauses p\<rparr>
               in Some (Inr (fold default_degree [1..<Suc (pp_clauses p)] p)))"

section \<open>Writing\<close>

fun show_nat :: "nat \<Rightarrow> string" where
  "show_nat n = (if n < 10 then [char_of (48 + n)] else show_nat (n div 10) @ [char_of (48 + n mod 10)])"

declare show_nat.simps [simp del]

definition show_int :: "int \<Rightarrow> string" where
  "show_int i = (if i < 0 then ''-'' @ show_nat (nat (- i)) else show_nat (nat i))"

definition newline :: string where "newline = [char_of (10 :: nat)]"

definition write_row :: "int list \<Rightarrow> int \<Rightarrow> string" where
  "write_row row d = (if d > 1 then ''k '' @ show_int d @ '' '' else [])
     @ concat (map (\<lambda>l. show_int l @ '' '') row) @ ''0'' @ newline"

definition write_header :: "nat \<Rightarrow> nat \<Rightarrow> string" where
  "write_header v c = ''p knf '' @ show_nat v @ '' '' @ show_nat c @ newline"

definition write_to_file :: "preproc \<Rightarrow> string" where
  "write_to_file p = write_header (pp_vars p) (pp_clauses p)
     @ concat (map (\<lambda>i. write_row (pp_row p i) (pp_deg p i)) [1..<Suc (pp_clauses p)])"

definition write_lit :: "lit \<Rightarrow> string" where
  "write_lit l = show_int (if sense l then int (var_num l) else - int (var_num l)) @ '' ''"

definition write_clause :: "inst \<Rightarrow> nat \<Rightarrow> string" where
  "write_clause I c =
     (if clause_true_lit_thres I c > 1
      then ''k '' @ show_int (clause_true_lit_thres I c) @ '' '' @ concat (map write_lit (clause_lit I c)) @ ''0'' @ newline
      else concat (map write_lit (clause_lit I c)) @ ''0'' @ newline)"

definition write_instance :: "inst \<Rightarrow> string" where
  "write_instance I = write_header (num_vars I) (num_clauses I) @ concat (map (write_clause I) [0..<num_clauses I])"

end
