(* ===== verification/Prep_Up.thy ===== *)
theory Prep_Up
  imports Preprocess "HOL-Library.While_Combinator"
begin

text \<open>
  Normalisation and unit propagation on clauses and cardinality rows
  (\<open>preprocess_up\<close>, src/PreProcess/propagation.cpp).  Every row loses its repeated literals and
  its pairs of opposite literals, satisfied rows are deleted, a row whose degree equals its
  length forces all its literals, and the forced literals are propagated in rounds.  The
  function returns false when a row can no longer be met.
\<close>

section \<open>Assigning and simplifying\<close>

text \<open>The queue \<open>q[1..tail]\<close> is a list.  \<open>None\<close> is the result \<open>false\<close>.\<close>

definition assign_lit :: "int \<Rightarrow> nat list \<times> preproc \<Rightarrow> (nat list \<times> preproc) option" where
  "assign_lit l = (\<lambda>(queue, p).
     let v = lit_var l; val = pnsign l
     in if pp_varval p v \<noteq> 0 then (if pp_varval p v = val then Some (queue, p) else None)
        else Some (queue @ [v], p\<lparr>pp_varval := (pp_varval p)(v := val)\<rparr>))"

definition force_remaining :: "nat \<Rightarrow> nat list \<times> preproc \<Rightarrow> (nat list \<times> preproc) option" where
  "force_remaining i = (\<lambda>(queue, p).
     let p = p\<lparr>pp_clause_delete := (pp_clause_delete p)[i := 1]\<rparr>
     in ofold assign_lit (pp_row p i) (queue, p))"

text \<open>The scan of one row; \<open>None\<close> says that the degree has come down to 0.\<close>

fun simplify_row :: "(nat \<Rightarrow> int) \<Rightarrow> int list \<Rightarrow> int list \<Rightarrow> int \<Rightarrow> (int list \<times> int) option" where
  "simplify_row varval [] kept d = Some (kept, d)"
| "simplify_row varval (l # ls) kept d =
     (if varval (lit_var l) = 0 then simplify_row varval ls (kept @ [l]) d
      else if varval (lit_var l) = pnsign l then
        (if d - 1 = 0 then None else simplify_row varval ls kept (d - 1))
      else simplify_row varval ls kept d)"

definition simplify_clause :: "nat \<Rightarrow> nat list \<times> preproc \<Rightarrow> (nat list \<times> preproc) option" where
  "simplify_clause i = (\<lambda>(queue, p).
     if deleted p i then Some (queue, p)
     else case simplify_row (pp_varval p) (pp_row p i) [] (pp_deg p i) of
       None \<Rightarrow> Some (queue, p\<lparr>pp_degree := (pp_degree p)[i := 0],
                             pp_clause_delete := (pp_clause_delete p)[i := 1],
                             pp_clause := (pp_clause p)[i := []]\<rparr>)
     | Some (kept, d) \<Rightarrow>
         let p = p\<lparr>pp_clause := (pp_clause p)[i := kept], pp_degree := (pp_degree p)[i := d]\<rparr>;
             t = int (length kept)
         in if d > t then None
            else if d = t then force_remaining i (queue, p)
            else Some (queue, p))"

section \<open>The first pass\<close>

text \<open>Repeated literals are skipped, the first repetition of a variable with the opposite sign
  lowers the degree; the pass over the row stops when the degree is 0.\<close>

fun scan_lits :: "nat \<Rightarrow> int list \<Rightarrow> int list \<Rightarrow> preproc \<Rightarrow> int list \<times> preproc" where
  "scan_lits i [] kept p = (kept, p)"
| "scan_lits i (x # xs) kept p =
     (let lit = nat (tolit x); v = lit_var x
      in if pp_resseen p lit = int i then scan_lits i xs kept p
         else if pp_resseen p (nat (negative (tolit x))) = int i \<and> pp_seen p v \<noteq> i then
           (let p = p\<lparr>pp_seen := (pp_seen p)(v := i), pp_degree := (pp_degree p)[i := pp_deg p i - 1]\<rparr>
            in if pp_deg p i = 0 then (kept, p\<lparr>pp_clause_delete := (pp_clause_delete p)[i := 1]\<rparr>)
               else scan_lits i xs (kept @ [x]) (p\<lparr>pp_resseen := (pp_resseen p)(lit := int i)\<rparr>))
         else scan_lits i xs (kept @ [x]) (p\<lparr>pp_resseen := (pp_resseen p)(lit := int i)\<rparr>))"

definition push_occurrence :: "nat \<Rightarrow> int \<Rightarrow> preproc \<Rightarrow> preproc" where
  "push_occurrence i l p =
     (if l > 0 then p\<lparr>pp_occurp := (pp_occurp p)(lit_var l := pp_occurp p (lit_var l) @ [i])\<rparr>
      else p\<lparr>pp_occurn := (pp_occurn p)(lit_var l := pp_occurn p (lit_var l) @ [i])\<rparr>)"

text \<open>When the pass stops early the row is left half overwritten; it is deleted and never read.\<close>

definition scan_row :: "nat \<Rightarrow> nat list \<times> preproc \<Rightarrow> (nat list \<times> preproc) option" where
  "scan_row i = (\<lambda>(queue, p).
     let (kept, p) = scan_lits i (pp_row p i) [] p
     in if deleted p i
        then Some (queue, p\<lparr>pp_clause := (pp_clause p)[i := kept @ drop (length kept) (pp_row p i)]\<rparr>)
        else
          let row = filter (\<lambda>l. pp_seen p (lit_var l) \<noteq> i) kept;
              p = p\<lparr>pp_clause := (pp_clause p)[i := row]\<rparr>;
              p = fold (push_occurrence i) row p
          in simplify_clause i (queue, p))"

definition reset_var :: "nat \<Rightarrow> preproc \<Rightarrow> preproc" where
  "reset_var i p =
     p\<lparr>pp_varval := (pp_varval p)(i := 0), pp_occurp := (pp_occurp p)(i := []),
       pp_occurn := (pp_occurn p)(i := []), pp_seen := (pp_seen p)(i := 0),
       pp_resseen := (pp_resseen p)(2 * (i - 1) := 0, 2 * (i - 1) + 1 := 0)\<rparr>"

definition reset_row :: "nat \<Rightarrow> preproc \<Rightarrow> preproc" where
  "reset_row i p = p\<lparr>pp_clause_delete := (pp_clause_delete p)[i := 0]\<rparr>"

section \<open>The rounds of propagation\<close>

definition touch_row :: "nat \<Rightarrow> nat \<Rightarrow> nat list \<times> preproc \<Rightarrow> nat list \<times> preproc" where
  "touch_row stamp r = (\<lambda>(touched, p).
     if \<not> deleted p r \<and> pp_nxtc p ! r \<noteq> stamp
     then (touched @ [r], p\<lparr>pp_nxtc := (pp_nxtc p)[r := stamp]\<rparr>) else (touched, p))"

definition touch_var :: "nat \<Rightarrow> nat \<Rightarrow> nat list \<times> preproc \<Rightarrow> nat list \<times> preproc" where
  "touch_var stamp x = (\<lambda>(touched, p).
     fold (touch_row stamp) (pp_occurp p x @ pp_occurn p x) (touched, p))"

text \<open>The loop state: \<open>head\<close>, \<open>stamp\<close> and queue with state, \<open>None\<close> once a row has failed.\<close>

definition up_more :: "nat \<times> nat \<times> (nat list \<times> preproc) option \<Rightarrow> bool" where
  "up_more = (\<lambda>(head, stamp, s). case s of None \<Rightarrow> False | Some (queue, p) \<Rightarrow> head < length queue)"

definition up_round :: "nat \<times> nat \<times> (nat list \<times> preproc) option \<Rightarrow> nat \<times> nat \<times> (nat list \<times> preproc) option" where
  "up_round = (\<lambda>(head, stamp, s). case s of
       None \<Rightarrow> (head, stamp, None)
     | Some (queue, p) \<Rightarrow>
         let stamp = stamp + 1;
             (touched, p) = fold (touch_var stamp) (drop head queue) ([], p)
         in (length queue, stamp, ofold simplify_clause touched (queue, p)))"

section \<open>The mapping of the variables\<close>

definition up_map_var :: "nat \<Rightarrow> preproc \<Rightarrow> preproc" where
  "up_map_var i p =
     (if pp_color p i \<noteq> 0
      then p\<lparr>pp_mapto := (pp_mapto p)(i := int (pp_color p i)), pp_mapfrom := (pp_mapfrom p)(pp_color p i := i)\<rparr>
      else if pp_mapval p i = 0
      then p\<lparr>pp_mapto := (pp_mapto p)(i := 0), pp_mapval := (pp_mapval p)(i := 1)\<rparr>
      else p\<lparr>pp_mapto := (pp_mapto p)(i := 0)\<rparr>)"

definition take_value :: "nat \<Rightarrow> preproc \<Rightarrow> preproc" where
  "take_value v p = p\<lparr>pp_mapval := (pp_mapval p)(v := pp_varval p v)\<rparr>"

definition clear_from :: "nat \<Rightarrow> preproc \<Rightarrow> preproc" where
  "clear_from i p = p\<lparr>pp_mapfrom := (pp_mapfrom p)(i := 0)\<rparr>"

definition up_finish :: "nat list \<Rightarrow> preproc \<Rightarrow> preproc" where
  "up_finish queue p =
     (let p = update_var_clause_label p;
          p = fold take_value queue p;
          p = fold clear_from [1..<Suc (pp_vars p)] p
      in fold up_map_var [1..<Suc (pp_orivars p)] p)"

text \<open>\<open>None\<close>: the rounds do not end; \<open>Some None\<close>: the result is false; \<open>Some (Some q)\<close>: it is true
  and the new state is \<open>q\<close>.\<close>

definition preprocess_up :: "preproc \<Rightarrow> preproc option option" where
  "preprocess_up p =
     (let p = fold reset_var [1..<Suc (pp_vars p)] p;
          p = fold reset_row [1..<Suc (pp_clauses p)] p
      in case ofold scan_row [1..<Suc (pp_clauses p)] ([], p) of
           None \<Rightarrow> Some None
         | Some s \<Rightarrow>
             (case while_option up_more up_round (0, 0, Some s) of
                None \<Rightarrow> None
              | Some (_, _, None) \<Rightarrow> Some None
              | Some (_, _, Some (queue, p)) \<Rightarrow> Some (Some (up_finish queue p))))"

end
