(* ===== verification/Prep_Res.thy ===== *)
theory Prep_Res
  imports Preprocess "HOL-Library.While_Combinator"
begin

text \<open>
  Variable elimination by resolution and pure literals (\<open>preprocess_resolution\<close>,
  src/PreProcess/resolution.cpp).  A variable whose resolvents are not more than its rows is
  eliminated; its rows are kept for the reconstruction of its value.  The literal counts of the
  active rows, the queue of candidates for pure literals and its membership flags are local to
  the function and travel with the preprocessor's state in the record \<open>res_state\<close>.
\<close>

record res_state =
  rs_prep :: preproc
  rs_pos_count :: "nat \<Rightarrow> int"
  rs_neg_count :: "nat \<Rightarrow> int"
  rs_pure_queue :: "nat list"
  rs_in_pure_queue :: "nat \<Rightarrow> bool"

abbreviation on_prep :: "(preproc \<Rightarrow> preproc) \<Rightarrow> res_state \<Rightarrow> res_state" where
  "on_prep f s \<equiv> s\<lparr>rs_prep := f (rs_prep s)\<rparr>"

section \<open>Literal counts and pure candidates\<close>

definition enqueue_pure_candidate :: "nat \<Rightarrow> res_state \<Rightarrow> res_state" where
  "enqueue_pure_candidate v s =
     (if pp_clean (rs_prep s) v \<noteq> 0 \<or> rs_in_pure_queue s v then s
      else s\<lparr>rs_pure_queue := rs_pure_queue s @ [v], rs_in_pure_queue := (rs_in_pure_queue s)(v := True)\<rparr>)"

definition inc_count :: "int \<Rightarrow> res_state \<Rightarrow> res_state" where
  "inc_count l s =
     (if l > 0 then s\<lparr>rs_pos_count := (rs_pos_count s)(lit_var l := rs_pos_count s (lit_var l) + 1)\<rparr>
      else s\<lparr>rs_neg_count := (rs_neg_count s)(lit_var l := rs_neg_count s (lit_var l) + 1)\<rparr>)"

definition dec_count :: "int \<Rightarrow> res_state \<Rightarrow> res_state" where
  "dec_count l s =
     enqueue_pure_candidate (lit_var l)
       (if l > 0 then s\<lparr>rs_pos_count := (rs_pos_count s)(lit_var l := rs_pos_count s (lit_var l) - 1)\<rparr>
        else s\<lparr>rs_neg_count := (rs_neg_count s)(lit_var l := rs_neg_count s (lit_var l) - 1)\<rparr>)"

definition add_occur :: "nat \<Rightarrow> int \<Rightarrow> preproc \<Rightarrow> preproc" where
  "add_occur i l p =
     (if l > 0 then p\<lparr>pp_occurp := (pp_occurp p)(lit_var l := pp_occurp p (lit_var l) @ [i])\<rparr>
      else p\<lparr>pp_occurn := (pp_occurn p)(lit_var l := pp_occurn p (lit_var l) @ [i])\<rparr>)"

section \<open>Set-up\<close>

definition res_reset_var :: "nat \<Rightarrow> preproc \<Rightarrow> preproc" where
  "res_reset_var i p =
     p\<lparr>pp_occurn := (pp_occurn p)(i := []), pp_occurp := (pp_occurp p)(i := []),
       pp_resseen := (pp_resseen p)(i := 0), pp_clean := (pp_clean p)(i := 0), pp_seen := (pp_seen p)(i := 0)\<rparr>"

definition res_index_row :: "nat \<Rightarrow> res_state \<Rightarrow> res_state" where
  "res_index_row i s =
     (let s = on_prep (\<lambda>p. p\<lparr>pp_clause_delete := (pp_clause_delete p)[i := 0]\<rparr>) s
      in fold (\<lambda>l s. inc_count l (on_prep (add_occur i l) s)) (pp_row (rs_prep s) i) s)"

definition res_clear_recovery :: "preproc \<Rightarrow> preproc" where
  "res_clear_recovery p =
     p\<lparr>pp_res_clauses := 0, pp_resolutions := 0, pp_res_clause := [[]], pp_res_degree := [0],
       pp_resolution := [0], pp_res_owner := [0]\<rparr>"

definition res_start :: "preproc \<Rightarrow> res_state" where
  "res_start p =
     (let p = p\<lparr>pp_clause_delete := take (pp_clauses p + 1) (pp_clause_delete p)\<rparr>;
          p = fold res_reset_var [1..<Suc (pp_vars p)] p;
          s = \<lparr>rs_prep = p, rs_pos_count = (\<lambda>_. 0), rs_neg_count = (\<lambda>_. 0),
               rs_pure_queue = [], rs_in_pure_queue = (\<lambda>_. False)\<rparr>;
          s = fold res_index_row [1..<Suc (pp_clauses p)] s
      in on_prep res_clear_recovery s)"

section \<open>Resolvents\<close>

definition store_recovery_clause :: "nat \<Rightarrow> nat \<Rightarrow> preproc \<Rightarrow> preproc" where
  "store_recovery_clause i owner p =
     p\<lparr>pp_res_clauses := pp_res_clauses p + 1,
       pp_res_clause := pp_res_clause p @ [map (\<lambda>l. pnsign l * int (pp_mapfrom p (lit_var l))) (pp_row p i)],
       pp_res_degree := pp_res_degree p @ [pp_deg p i],
       pp_res_owner := pp_res_owner p @ [owner]\<rparr>"

text \<open>The literals of one parent join the resolvent \<open>out\<close>; a code 2 (tautology) or 0 (a shared
  variable in a cardinality resolvent) ends the construction.\<close>

fun add_parent :: "nat \<Rightarrow> bool \<Rightarrow> int list \<Rightarrow> int list \<Rightarrow> (nat \<Rightarrow> int) \<Rightarrow> int + int list \<times> (nat \<Rightarrow> int)" where
  "add_parent pivot clause_resolvent [] out seen = Inr (out, seen)"
| "add_parent pivot clause_resolvent (l # ls) out seen =
     (if lit_var l = pivot then add_parent pivot clause_resolvent ls out seen
      else if clause_resolvent \<and> seen (lit_var l) = pnsign l then add_parent pivot clause_resolvent ls out seen
      else if clause_resolvent \<and> seen (lit_var l) = - pnsign l then Inl 2
      else if \<not> clause_resolvent \<and> seen (lit_var l) \<noteq> 0 then Inl 0
      else add_parent pivot clause_resolvent ls (out @ [l]) (seen(lit_var l := pnsign l)))"

text \<open>The marks in \<open>resseen\<close> are all cleared again on every way out; the function returns the code
  with the resolvent and its degree.\<close>

definition build_resolvent :: "nat \<Rightarrow> nat \<Rightarrow> nat \<Rightarrow> preproc \<Rightarrow> int \<times> int list \<times> int" where
  "build_resolvent pivot pos_id neg_id p =
     (let out_degree = pp_deg p pos_id + pp_deg p neg_id - 1;
          clause_resolvent = (pp_deg p pos_id = 1 \<and> pp_deg p neg_id = 1)
      in case add_parent pivot clause_resolvent (pp_row p pos_id) [] (pp_resseen p) of
           Inl code \<Rightarrow> (code, [], out_degree)
         | Inr (out, seen) \<Rightarrow>
             (case add_parent pivot clause_resolvent (pp_row p neg_id) out seen of
                Inl code \<Rightarrow> (code, [], out_degree)
              | Inr (out, _) \<Rightarrow>
                  if out_degree \<le> 0 then (2, out, out_degree)
                  else if out_degree > int (length out) then (-1, out, out_degree)
                  else (1, out, out_degree)))"

definition append_clause :: "int list \<Rightarrow> int \<Rightarrow> res_state \<Rightarrow> res_state" where
  "append_clause lits deg s =
     (let c = pp_clauses (rs_prep s) + 1;
          s = on_prep (\<lambda>p. p\<lparr>pp_clauses := c, pp_clause := pp_clause p @ [lits], pp_degree := pp_degree p @ [deg],
                             pp_clause_delete := pp_clause_delete p @ [0]\<rparr>) s
      in fold (\<lambda>l s. inc_count l (on_prep (add_occur c l) s)) lits s)"

definition delete_active_clause :: "nat \<Rightarrow> res_state \<Rightarrow> res_state" where
  "delete_active_clause i s =
     (if deleted (rs_prep s) i then s
      else on_prep (\<lambda>p. p\<lparr>pp_clause_delete := (pp_clause_delete p)[i := 1]\<rparr>)
             (fold dec_count (pp_row (rs_prep s) i) s))"

section \<open>Eliminating a variable\<close>

text \<open>The double loop over the parents: \<open>None\<close> is \<open>return false\<close>, the flag is
  \<open>can_eliminate\<close>.\<close>

fun resolve_neg :: "nat \<Rightarrow> preproc \<Rightarrow> nat \<Rightarrow> nat list \<Rightarrow> (int list \<times> int) list \<Rightarrow> (bool \<times> (int list \<times> int) list) option" where
  "resolve_neg v p i [] gen = Some (True, gen)"
| "resolve_neg v p i (j # js) gen =
     (case build_resolvent v i j p of (res, lits, deg) \<Rightarrow>
        if res < 0 then None
        else if res = 0 then Some (False, gen)
        else resolve_neg v p i js (if res = 1 then gen @ [(lits, deg)] else gen))"

fun resolve_pos :: "nat \<Rightarrow> preproc \<Rightarrow> nat list \<Rightarrow> nat list \<Rightarrow> (int list \<times> int) list \<Rightarrow> (bool \<times> (int list \<times> int) list) option" where
  "resolve_pos v p [] neg gen = Some (True, gen)"
| "resolve_pos v p (i # is) neg gen =
     (case resolve_neg v p i neg gen of
        None \<Rightarrow> None
      | Some (can, gen) \<Rightarrow> if can then resolve_pos v p is neg gen else Some (False, gen))"

definition residuals_implied :: "preproc \<Rightarrow> nat list \<Rightarrow> nat list \<Rightarrow> bool" where
  "residuals_implied p pos neg =
     (let all_pos_clauses = list_all (\<lambda>i. pp_deg p i = 1) pos;
          all_neg_clauses = list_all (\<lambda>i. pp_deg p i = 1) neg;
          has_tight_pos_tail = list_ex (\<lambda>i. pp_deg p i \<ge> int (length (pp_row p i)) - 1) pos;
          has_tight_neg_tail = list_ex (\<lambda>i. pp_deg p i \<ge> int (length (pp_row p i)) - 1) neg
      in (all_pos_clauses \<or> has_tight_neg_tail) \<and> (all_neg_clauses \<or> has_tight_pos_tail))"

definition retire_clause :: "nat \<Rightarrow> nat \<Rightarrow> res_state \<Rightarrow> res_state" where
  "retire_clause v i s =
     delete_active_clause i (on_prep (\<lambda>p. store_recovery_clause i (pp_mapfrom p v) p) s)"

text \<open>One round of the loop over the variables; \<open>elim\<close> is \<open>q[1..r]\<close>.\<close>

definition eliminate_var :: "nat \<Rightarrow> nat list \<times> res_state \<Rightarrow> (nat list \<times> res_state) option" where
  "eliminate_var v = (\<lambda>(elim, s).
     let p = rs_prep s;
         pos = filter (\<lambda>i. \<not> deleted p i) (pp_occurp p v);
         neg = filter (\<lambda>i. \<not> deleted p i) (pp_occurn p v);
         pc = rs_pos_count s v; nc = rs_neg_count s v
     in if pc = 0 \<or> nc = 0 \<or> pc * nc > pc + nc then Some (elim, s)
        else if \<not> residuals_implied p pos neg then Some (elim, s)
        else case resolve_pos v p pos neg [] of
          None \<Rightarrow> None
        | Some (can_eliminate, generated) \<Rightarrow>
            if \<not> can_eliminate then Some (elim, s)
            else
              let s = fold (retire_clause v) pos s;
                  s = fold (retire_clause v) neg s;
                  s = fold (\<lambda>(lits, deg). append_clause lits deg) generated s;
                  s = on_prep (\<lambda>p. p\<lparr>pp_clean := (pp_clean p)(v := 1)\<rparr>) s
              in Some (elim @ [v], s))"

section \<open>Pure literals\<close>

definition drop_pure_lit :: "nat \<Rightarrow> nat \<Rightarrow> int \<Rightarrow> int \<Rightarrow> res_state \<Rightarrow> res_state" where
  "drop_pure_lit i v val l s =
     (if lit_var l \<noteq> v then s
      else
        let s = dec_count l s
        in if val = pnsign l
           then on_prep (\<lambda>p. p\<lparr>pp_degree := (pp_degree p)[i := pp_deg p i - 1]\<rparr>) s else s)"

definition simplify_pure_clause :: "nat \<Rightarrow> int \<Rightarrow> nat \<Rightarrow> res_state \<Rightarrow> res_state option" where
  "simplify_pure_clause v val i s =
     (if deleted (rs_prep s) i then Some s
      else
        let row = pp_row (rs_prep s) i;
            kept = filter (\<lambda>l. lit_var l \<noteq> v) row;
            s = fold (drop_pure_lit i v val) row s;
            s = on_prep (\<lambda>p. p\<lparr>pp_clause := (pp_clause p)[i := kept]\<rparr>) s
        in if pp_deg (rs_prep s) i = 0
           then
             let s = fold dec_count kept s
             in Some (on_prep (\<lambda>p. p\<lparr>pp_clause_delete := (pp_clause_delete p)[i := 1],
                                       pp_clause := (pp_clause p)[i := []]\<rparr>) s)
           else if pp_deg (rs_prep s) i \<le> int (length kept) then Some s else None)"

text \<open>The loop state: \<open>pure_head\<close>, \<open>changed\<close> and the state, \<open>None\<close> once a row has failed.\<close>

definition pure_more :: "nat \<times> bool \<times> res_state option \<Rightarrow> bool" where
  "pure_more = (\<lambda>(head, changed, s). case s of None \<Rightarrow> False | Some s \<Rightarrow> head < length (rs_pure_queue s))"

definition assign_pure :: "nat \<Rightarrow> res_state \<Rightarrow> res_state option" where
  "assign_pure v s =
     (let orig = pp_mapfrom (rs_prep s) v;
          val = (if rs_pos_count s v \<noteq> 0 then 1 else -1);
          s = on_prep (\<lambda>p. p\<lparr>pp_mapval := (pp_mapval p)(orig := val), pp_mapto := (pp_mapto p)(orig := 0),
                             pp_clean := (pp_clean p)(v := 1)\<rparr>) s
      in ofold (simplify_pure_clause v val) (if val > 0 then pp_occurp (rs_prep s) v else pp_occurn (rs_prep s) v) s)"

definition pure_round :: "nat \<times> bool \<times> res_state option \<Rightarrow> nat \<times> bool \<times> res_state option" where
  "pure_round = (\<lambda>(head, changed, s). case s of
       None \<Rightarrow> (head, changed, None)
     | Some s \<Rightarrow>
         let v = rs_pure_queue s ! head;
             s = s\<lparr>rs_in_pure_queue := (rs_in_pure_queue s)(v := False)\<rparr>
         in if pp_clean (rs_prep s) v \<noteq> 0 \<or> rs_pos_count s v \<noteq> 0 \<and> rs_neg_count s v \<noteq> 0
            then (head + 1, changed, Some s)
            else if rs_pos_count s v = 0 \<and> rs_neg_count s v = 0
            then (head + 1, changed, Some (on_prep (\<lambda>p. p\<lparr>pp_clean := (pp_clean p)(v := 1)\<rparr>) s))
            else (head + 1, True, assign_pure v s))"

definition enqueue_initial :: "nat \<Rightarrow> res_state \<Rightarrow> res_state" where
  "enqueue_initial v s =
     (if pp_clean (rs_prep s) v = 0 \<and> (rs_pos_count s v = 0 \<or> rs_neg_count s v = 0)
      then enqueue_pure_candidate v s else s)"

section \<open>The end\<close>

definition record_resolution :: "nat \<Rightarrow> preproc \<Rightarrow> preproc" where
  "record_resolution v p =
     (let u = pp_mapfrom p v
      in p\<lparr>pp_resolution := pp_resolution p @ [u], pp_mapto := (pp_mapto p)(u := 0), pp_mapval := (pp_mapval p)(u := -10)\<rparr>)"

definition res_map_var :: "nat \<Rightarrow> preproc \<Rightarrow> preproc" where
  "res_map_var i p =
     (if pp_mapto p i \<noteq> 0
      then
        let p = p\<lparr>pp_mapto := (pp_mapto p)(i := int (pp_color p (nat (pp_mapto p i))))\<rparr>
        in if pp_mapto p i = 0 \<and> pp_mapval p i = 0 then p\<lparr>pp_mapval := (pp_mapval p)(i := 1)\<rparr> else p
      else if pp_mapval p i = 0 then p\<lparr>pp_mapval := (pp_mapval p)(i := 1)\<rparr> else p)"

definition res_finish :: "nat list \<Rightarrow> preproc \<Rightarrow> preproc" where
  "res_finish elim p =
     (let p = p\<lparr>pp_resolutions := length elim\<rparr>;
          p = fold record_resolution elim p;
          p = update_var_clause_label p
      in fold res_map_var [1..<Suc (pp_orivars p)] p)"

text \<open>\<open>None\<close>: the loop does not end; \<open>Some None\<close>: the result is false.\<close>

definition preprocess_resolution :: "preproc \<Rightarrow> preproc option option" where
  "preprocess_resolution p =
     (let s = res_start p
      in case ofold eliminate_var [1..<Suc (pp_vars (rs_prep s))] ([], s) of
           None \<Rightarrow> Some None
         | Some (elim, s) \<Rightarrow>
             let s = fold enqueue_initial [1..<Suc (pp_vars (rs_prep s))] s
             in (case while_option pure_more pure_round (0, elim \<noteq> [], Some s) of
                   None \<Rightarrow> None
                 | Some (_, _, None) \<Rightarrow> Some None
                 | Some (_, changed, Some s) \<Rightarrow>
                     Some (Some (if changed then res_finish elim (rs_prep s) else rs_prep s))))"

end
