(* ===== verification/Prep_Bin.thy ===== *)
theory Prep_Bin
  imports Preprocess "HOL-Library.While_Combinator"
begin

text \<open>
  Binary clauses: equivalent variables and fixed variables (\<open>preprocess_binary\<close> and
  \<open>find\<close>, src/PreProcess/binary.cpp).  The classes of equivalent variables are a union-find
  forest with signs on the edges (\<open>f\<close> and \<open>val\<close>); the value of a fixed class is kept
  at its root in \<open>varval\<close>.
\<close>

section \<open>Keys and actions\<close>

definition kMaximumClauses :: int where "kMaximumClauses = 10000000"
definition kMaximumTurns :: nat where "kMaximumTurns = 16"
definition kMaximumClauseRounds :: int where "kMaximumClauseRounds = 32000000"

definition binary_key :: "int \<Rightarrow> int \<Rightarrow> 64 word" where
  "binary_key x y =
     (let first = (if y < x then y else x); second = (if y < x then x else y)
      in push_bit 32 (ucast (word_of_int first :: 32 word)) OR ucast (word_of_int second :: 32 word))"

datatype action_kind = Relation | Fixed

record action =
  act_kind :: action_kind
  act_first :: int
  act_second :: int
  act_value :: int

definition hash_byte :: "32 word \<Rightarrow> 64 word \<Rightarrow> 64 word" where
  "hash_byte b hash = (hash XOR ucast (b AND 255)) * 1099511628211"

definition hash_mix :: "32 word \<Rightarrow> 64 word \<Rightarrow> 64 word" where
  "hash_mix v hash =
     hash_byte (drop_bit 24 v) (hash_byte (drop_bit 16 v) (hash_byte (drop_bit 8 v) (hash_byte v hash)))"

definition kind_code :: "action_kind \<Rightarrow> int" where
  "kind_code k = (case k of Relation \<Rightarrow> 0 | Fixed \<Rightarrow> 1)"

definition action_hash :: "action \<Rightarrow> 64 word" where
  "action_hash a =
     hash_mix (word_of_int (act_value a)) (hash_mix (word_of_int (act_second a))
       (hash_mix (word_of_int (act_first a)) (hash_mix (word_of_int (kind_code (act_kind a))) 1469598103934665603)))"

definition relation_action :: "int \<Rightarrow> int \<Rightarrow> action" where
  "relation_action x y =
     \<lparr>act_kind = Relation, act_first = min \<bar>x\<bar> \<bar>y\<bar>, act_second = max \<bar>x\<bar> \<bar>y\<bar>, act_value = - pnsign x * pnsign y\<rparr>"

definition fixed_action :: "int \<Rightarrow> action" where
  "fixed_action x = \<lparr>act_kind = Fixed, act_first = \<bar>x\<bar>, act_second = 0, act_value = pnsign x\<rparr>"

definition action_less :: "action \<Rightarrow> action \<Rightarrow> bool" where
  "action_less l r =
     (if act_kind l \<noteq> act_kind r then kind_code (act_kind l) < kind_code (act_kind r)
      else if act_first l \<noteq> act_first r then act_first l < act_first r
      else if act_second l \<noteq> act_second r then act_second l < act_second r
      else act_value l < act_value r)"

section \<open>The signed union-find forest\<close>

text \<open>Both loops of \<open>find\<close> follow parent edges; \<open>None\<close> if they do not end.\<close>

definition find_root :: "nat \<Rightarrow> preproc \<Rightarrow> (nat \<times> int) option" where
  "find_root x p =
     while_option (\<lambda>(root, orientation). pp_f p root \<noteq> root)
       (\<lambda>(root, orientation). (pp_f p root, orientation * pp_val p root)) (x, 1)"

definition compress_step :: "nat \<Rightarrow> int \<Rightarrow> nat \<times> int \<times> preproc \<Rightarrow> nat \<times> int \<times> preproc" where
  "compress_step root orientation = (\<lambda>(current, prefix, p).
     let parent = pp_f p current; edge = pp_val p current
     in (parent, prefix * edge,
         p\<lparr>pp_f := (pp_f p)(current := root), pp_val := (pp_val p)(current := orientation * prefix)\<rparr>))"

definition find_var :: "nat \<Rightarrow> preproc \<Rightarrow> (nat \<times> preproc) option" where
  "find_var x p =
     (case find_root x p of
        None \<Rightarrow> None
      | Some (root, orientation) \<Rightarrow>
          (case while_option (\<lambda>(current, prefix, p). pp_f p current \<noteq> current)
                  (compress_step root orientation) (x, 1, p) of
             None \<Rightarrow> None
           | Some (_, _, p) \<Rightarrow> Some (root, p)))"

text \<open>The vector \<open>component_size\<close> is local to the function.  The results carry whether the
  action is consistent and whether it changed anything.\<close>

record bin_state =
  bs_prep :: preproc
  bs_size :: "nat \<Rightarrow> nat"

definition assign_value :: "nat \<Rightarrow> int \<Rightarrow> bin_state \<Rightarrow> (bool \<times> bool \<times> bin_state) option" where
  "assign_value variable wanted s =
     (case find_var variable (bs_prep s) of
        None \<Rightarrow> None
      | Some (root, p) \<Rightarrow>
          let root_value = wanted * pp_val p variable
          in if pp_varval p root \<noteq> 0 then Some (pp_varval p root = root_value, False, s\<lparr>bs_prep := p\<rparr>)
             else Some (True, True, s\<lparr>bs_prep := p\<lparr>pp_varval := (pp_varval p)(root := root_value)\<rparr>\<rparr>))"

definition link_roots :: "nat \<Rightarrow> nat \<Rightarrow> int \<Rightarrow> bin_state \<Rightarrow> bin_state" where
  "link_roots child parent edge s =
     (let p = bs_prep s;
          child_fixed = pp_varval p child; parent_fixed = pp_varval p parent;
          p = (if child_fixed \<noteq> 0 \<and> parent_fixed = 0
               then p\<lparr>pp_varval := (pp_varval p)(parent := edge * child_fixed)\<rparr> else p);
          p = p\<lparr>pp_f := (pp_f p)(child := parent), pp_val := (pp_val p)(child := edge),
                pp_varval := (pp_varval p)(child := 0)\<rparr>
      in s\<lparr>bs_prep := p, bs_size := (bs_size s)(parent := bs_size s parent + bs_size s child)\<rparr>)"

definition unite :: "nat \<Rightarrow> nat \<Rightarrow> int \<Rightarrow> bin_state \<Rightarrow> (bool \<times> bool \<times> bin_state) option" where
  "unite first second relation s =
     (case find_var first (bs_prep s) of
        None \<Rightarrow> None
      | Some (first_root, p) \<Rightarrow>
          (case find_var second p of
             None \<Rightarrow> None
           | Some (second_root, p) \<Rightarrow>
               let s = s\<lparr>bs_prep := p\<rparr>
               in if first_root = second_root
                  then Some (pp_val p first = relation * pp_val p second, False, s)
                  else
                    let edge = relation * pp_val p first * pp_val p second;
                        first_fixed = pp_varval p first_root; second_fixed = pp_varval p second_root
                    in if first_fixed \<noteq> 0 \<and> second_fixed \<noteq> 0 \<and> first_fixed \<noteq> edge * second_fixed
                       then Some (False, False, s)
                       else if bs_size s first_root \<le> bs_size s second_root
                       then Some (True, True, link_roots first_root second_root edge s)
                       else Some (True, True, link_roots second_root first_root edge s)))"

section \<open>Recognising the patterns\<close>

definition binary_row :: "preproc \<Rightarrow> nat \<Rightarrow> bool" where
  "binary_row p i \<longleftrightarrow> \<not> deleted p i \<and> pp_deg p i = 1 \<and> length (pp_row p i) = 2"

text \<open>\<open>emplace\<close> keeps the first row with a key.\<close>

definition index_binary :: "preproc \<Rightarrow> nat \<Rightarrow> (64 word \<rightharpoonup> nat) \<Rightarrow> 64 word \<rightharpoonup> nat" where
  "index_binary p i m =
     (if binary_row p i
      then (let k = binary_key (pp_row p i ! 0) (pp_row p i ! 1)
            in if m k = None then m(k \<mapsto> i) else m)
      else m)"

definition lookup_binary :: "(64 word \<rightharpoonup> nat) \<Rightarrow> int \<Rightarrow> int \<Rightarrow> nat" where
  "lookup_binary m x y = (case m (binary_key x y) of None \<Rightarrow> 0 | Some i \<Rightarrow> i)"

definition is_safe :: "preproc \<Rightarrow> action \<Rightarrow> bool" where
  "is_safe p a =
     (if act_kind a = Fixed then pp_in_cardinality p ! nat (act_first a) = 0
      else pp_in_cardinality p ! nat (act_first a) = 0 \<and> pp_in_cardinality p ! nat (act_second a) = 0)"

definition record_action :: "preproc \<Rightarrow> action \<Rightarrow> nat \<Rightarrow> nat \<Rightarrow> nat set \<times> action list \<Rightarrow> nat set \<times> action list" where
  "record_action p a i j = (\<lambda>(witness, actions).
     if i = j \<or> \<not> is_safe p a then (witness, actions)
     else (insert i (insert j witness), if a \<in> set actions then actions else actions @ [a]))"

definition scan_binary :: "preproc \<Rightarrow> (64 word \<rightharpoonup> nat) \<Rightarrow> nat \<Rightarrow> nat set \<times> action list \<Rightarrow> nat set \<times> action list" where
  "scan_binary p m i r =
     (if \<not> binary_row p i then r
      else
        let x = pp_row p i ! 0; y = pp_row p i ! 1;
            w = lookup_binary m (- x) (- y);
            r = (if w \<noteq> 0 then record_action p (relation_action x y) i w r else r);
            w = lookup_binary m x (- y);
            r = (if w \<noteq> 0 then record_action p (fixed_action x) i w r else r);
            w = lookup_binary m (- x) y
        in if w \<noteq> 0 then record_action p (fixed_action y) i w r else r)"

text \<open>\<open>std::sort\<close> on distinct actions with a total order has one result.\<close>

fun insert_action :: "action \<Rightarrow> action list \<Rightarrow> action list" where
  "insert_action a [] = [a]"
| "insert_action a (b # bs) = (if action_less b a then b # insert_action a bs else a # b # bs)"

definition sort_actions :: "action list \<Rightarrow> action list" where
  "sort_actions as = fold insert_action as []"

section \<open>One turn\<close>

text \<open>A result \<open>Some (Some r)\<close> goes on, \<open>Some None\<close> is \<open>return false\<close>, \<open>None\<close> does
  not end.\<close>

definition apply_action :: "action \<Rightarrow> bool \<times> bin_state \<Rightarrow> (bool \<times> bin_state) option option" where
  "apply_action a = (\<lambda>(turn_changed, s).
     case (if act_kind a = Relation
           then unite (nat (act_first a)) (nat (act_second a)) (act_value a) s
           else assign_value (nat (act_first a)) (act_value a) s) of
       None \<Rightarrow> None
     | Some (consistent, changed, s) \<Rightarrow>
         Some (if consistent then Some (turn_changed \<or> changed, s) else None))"

fun apply_actions :: "action list \<Rightarrow> bool \<times> bin_state \<Rightarrow> (bool \<times> bin_state) option option" where
  "apply_actions [] r = Some (Some r)"
| "apply_actions (a # as) r =
     (case apply_action a r of
        None \<Rightarrow> None
      | Some None \<Rightarrow> Some None
      | Some (Some r) \<Rightarrow> apply_actions as r)"

definition delete_witnesses :: "nat set \<Rightarrow> nat \<Rightarrow> bool \<times> bin_state \<Rightarrow> bool \<times> bin_state" where
  "delete_witnesses witness i = (\<lambda>(turn_changed, s).
     if i \<notin> witness \<or> deleted (bs_prep s) i then (turn_changed, s)
     else (True, s\<lparr>bs_prep := (bs_prep s)\<lparr>pp_clause_delete := (pp_clause_delete (bs_prep s))[i := 1]\<rparr>\<rparr>))"

text \<open>The rewriting of the literals of a row; the flag says that the row is satisfied or a
  tautology.\<close>

fun rewrite_lits :: "int list \<Rightarrow> int list \<Rightarrow> preproc \<Rightarrow> (bool \<times> int list \<times> preproc) option" where
  "rewrite_lits [] rewritten p = Some (False, rewritten, p)"
| "rewrite_lits (l # ls) rewritten p =
     (case find_var (lit_var l) p of
        None \<Rightarrow> None
      | Some (root, p) \<Rightarrow>
          let literal_sign = pnsign l * pp_val p (lit_var l)
          in if pp_varval p root \<noteq> 0
             then (if pp_varval p root = literal_sign then Some (True, rewritten, p)
                   else rewrite_lits ls rewritten p)
             else
               let mapped_literal = literal_sign * int root; code = tolit mapped_literal
               in if pp_resseen p (nat code) \<noteq> 0 then rewrite_lits ls rewritten p
                  else if pp_resseen p (nat (negative code)) \<noteq> 0 then Some (True, rewritten, p)
                  else rewrite_lits ls (rewritten @ [mapped_literal])
                         (p\<lparr>pp_resseen := (pp_resseen p)(nat code := 1)\<rparr>))"

definition unmark_lit :: "int \<Rightarrow> preproc \<Rightarrow> preproc" where
  "unmark_lit l p = p\<lparr>pp_resseen := (pp_resseen p)(nat (tolit l) := 0)\<rparr>"

definition rewrite_row :: "nat \<Rightarrow> bool \<times> preproc \<Rightarrow> (bool \<times> preproc) option option" where
  "rewrite_row i = (\<lambda>(turn_changed, p).
     if deleted p i \<or> pp_deg p i > 1 then Some (Some (turn_changed, p))
     else case rewrite_lits (pp_row p i) [] p of
       None \<Rightarrow> None
     | Some (done, rewritten, p) \<Rightarrow>
         let p = fold unmark_lit rewritten p
         in if done then Some (Some (True, p\<lparr>pp_clause_delete := (pp_clause_delete p)[i := 1]\<rparr>))
            else if rewritten = [] then Some None
            else if pp_row p i = rewritten then Some (Some (turn_changed, p))
            else Some (Some (True, p\<lparr>pp_clause := (pp_clause p)[i := rewritten]\<rparr>)))"

fun rewrite_rows :: "nat list \<Rightarrow> bool \<times> preproc \<Rightarrow> (bool \<times> preproc) option option" where
  "rewrite_rows [] r = Some (Some r)"
| "rewrite_rows (i # is) r =
     (case rewrite_row i r of
        None \<Rightarrow> None
      | Some None \<Rightarrow> Some None
      | Some (Some r) \<Rightarrow> rewrite_rows is r)"

definition bin_turn :: "bin_state \<Rightarrow> (bool \<times> bin_state) option option" where
  "bin_turn s =
     (let p = bs_prep s; ids = [1..<Suc (pp_clauses p)];
          m = fold (index_binary p) ids (\<lambda>_. None);
          (witness, actions) = fold (scan_binary p m) ids ({}, [])
      in case apply_actions (sort_actions actions) (False, s) of
           None \<Rightarrow> None
         | Some None \<Rightarrow> Some None
         | Some (Some r) \<Rightarrow>
             let (turn_changed, s) = fold (delete_witnesses witness) ids r
             in (case rewrite_rows ids (turn_changed, bs_prep s) of
                   None \<Rightarrow> None
                 | Some None \<Rightarrow> Some None
                 | Some (Some (turn_changed, p)) \<Rightarrow> Some (Some (turn_changed, s\<lparr>bs_prep := p\<rparr>))))"

text \<open>\<open>k\<close> turns are left before \<open>kMaximumTurns\<close> is reached.\<close>

fun bin_turns :: "nat \<Rightarrow> bool \<times> bin_state \<Rightarrow> (bool \<times> bin_state) option option" where
  "bin_turns 0 r = Some (Some r)"
| "bin_turns (Suc k) (any_changed, s) =
     (if int (kMaximumTurns - Suc k + 1) * int (pp_clauses (bs_prep s)) > kMaximumClauseRounds
      then Some (Some (any_changed, s))
      else case bin_turn s of
        None \<Rightarrow> None
      | Some None \<Rightarrow> Some None
      | Some (Some (turn_changed, s)) \<Rightarrow>
          if turn_changed then bin_turns k (True, s) else Some (Some (any_changed, s)))"

section \<open>preprocess\_binary\<close>

definition bin_reset_row :: "nat \<Rightarrow> preproc \<Rightarrow> preproc" where
  "bin_reset_row i p = p\<lparr>pp_clause_delete := (pp_clause_delete p)[i := 0]\<rparr>"

definition bin_mark_row :: "nat \<Rightarrow> preproc \<Rightarrow> preproc" where
  "bin_mark_row i p =
     (if pp_deg p i \<le> 1 then p
      else fold (\<lambda>l p. p\<lparr>pp_in_cardinality := (pp_in_cardinality p)[lit_var l := 1]\<rparr>) (pp_row p i) p)"

definition bin_reset_var :: "nat \<Rightarrow> preproc \<Rightarrow> preproc" where
  "bin_reset_var v p =
     p\<lparr>pp_f := (pp_f p)(v := v), pp_val := (pp_val p)(v := 1), pp_varval := (pp_varval p)(v := 0),
       pp_resseen := (pp_resseen p)(nat (tolit (int v)) := 0, nat (tolit (- int v)) := 0)\<rparr>"

definition bin_start :: "preproc \<Rightarrow> preproc" where
  "bin_start p =
     (let p = p\<lparr>pp_clause_delete := take (pp_clauses p + 1) (pp_clause_delete p)\<rparr>;
          p = fold bin_reset_row [1..<Suc (pp_clauses p)] p;
          p = p\<lparr>pp_in_cardinality := replicate (pp_vars p + 1) 0\<rparr>;
          p = fold bin_mark_row [1..<Suc (pp_clauses p)] p
      in fold bin_reset_var [1..<Suc (pp_vars p)] p)"

definition bin_map_var :: "nat \<Rightarrow> preproc \<Rightarrow> preproc option" where
  "bin_map_var original p =
     (let old_mapping = pp_mapto p original
      in if old_mapping = 0 then Some p
         else
           let current = nat \<bar>old_mapping\<bar>
           in case find_var current p of
                None \<Rightarrow> None
              | Some (root, p) \<Rightarrow>
                  let orientation = pnsign old_mapping * pp_val p current
                  in Some (if pp_varval p root \<noteq> 0
                      then p\<lparr>pp_mapto := (pp_mapto p)(original := 0),
                             pp_mapval := (pp_mapval p)(original := orientation * pp_varval p root)\<rparr>
                      else if pp_color p root \<noteq> 0
                      then p\<lparr>pp_mapto := (pp_mapto p)(original := orientation * int (pp_color p root)),
                             pp_mapval := (pp_mapval p)(original := 0)\<rparr>
                      else p\<lparr>pp_mapto := (pp_mapto p)(original := 0),
                             pp_mapval := (pp_mapval p)(original := orientation)\<rparr>))"

definition preprocess_binary :: "preproc \<Rightarrow> preproc option option" where
  "preprocess_binary p =
     (if int (pp_clauses p) > kMaximumClauses then Some (Some p)
      else
        case bin_turns kMaximumTurns (False, \<lparr>bs_prep = bin_start p, bs_size = (\<lambda>_. 1)\<rparr>) of
          None \<Rightarrow> None
        | Some None \<Rightarrow> Some None
        | Some (Some (any_changed, s)) \<Rightarrow>
            if \<not> any_changed then Some (Some (bs_prep s))
            else
              let p = update_var_clause_label (bs_prep s)
              in (case ofold bin_map_var [1..<Suc (pp_orivars p)] p of
                    None \<Rightarrow> None
                  | Some p \<Rightarrow> Some (Some p)))"

end
