(* ===== verification/Machine_Float.thy ===== *)
theory Machine_Float
  imports Complex_Main "HOL-Library.Log_Nat"
begin

text \<open>
  The little floating-point arithmetic the program does: \<open>float\<close> and \<open>double\<close> values are
  rationals, every operation rounds its exact result to the nearest value with 24 or 53
  significant bits (ties to even), and a conversion to \<open>int\<close> truncates.  Subnormal spacing
  is included; infinities and NaN only arise in one division, which is treated where it occurs.
\<close>

definition two_pow :: "int \<Rightarrow> rat" where
  "two_pow k = (if 0 \<le> k then 2 ^ nat k else 1 / 2 ^ nat (- k))"

definition round_half_even :: "rat \<Rightarrow> int" where
  "round_half_even x =
     (let n = \<lfloor>x\<rfloor>; r = x - of_int n
      in if r < 1 / 2 then n else if r > 1 / 2 then n + 1 else if even n then n else n + 1)"

text \<open>The exponent \<open>e\<close> with \<open>2 ^ e \<le> \<bar>x\<bar> < 2 ^ (e + 1)\<close>.\<close>

definition exponent :: "rat \<Rightarrow> int" where
  "exponent x =
     (let (a, b) = quotient_of \<bar>x\<bar>;
          k = bitlen a - bitlen b
      in if two_pow k \<le> \<bar>x\<bar> then k else k - 1)"

definition fp_round :: "int \<Rightarrow> int \<Rightarrow> rat \<Rightarrow> rat" where
  "fp_round precision emin x =
     (if x = 0 then 0
      else let q = two_pow (max (exponent x - precision + 1) emin)
           in of_int (round_half_even (x / q)) * q)"

definition f32 :: "rat \<Rightarrow> rat" where
  "f32 = fp_round 24 (- 149)"

definition f64 :: "rat \<Rightarrow> rat" where
  "f64 = fp_round 53 (- 1074)"

definition trunc :: "rat \<Rightarrow> int" where
  "trunc x = (if 0 \<le> x then \<lfloor>x\<rfloor> else \<lceil>x\<rceil>)"

end
