(* ===== verification/Ls_State.thy ===== *)
theory Ls_State
  imports Ls_Instance Machine_Float
begin

text \<open>
  The mutable state of the local search (class \<open>CardSATLS\<close>, include/cardsatLS.hpp), the
  scoring helpers, the violation the search minimises, and the invariants that tie the
  cached counters, stacks and scores to the current assignment.  Scratch buffers that
  carry nothing from one call to the next (\<open>temp_array\<close>, \<open>temp_unsat\<close>,
  \<open>temp_neighbor\<close>, \<open>weight_touched_vars\<close>) are local lists of the routines that use
  them.  \<open>sat_var = None\<close> is the null pointer that \<open>release_on_the_fly_memory\<close> leaves.
  The clock fields are not modelled.
\<close>

record ls =
  score :: "nat \<Rightarrow> int"
  time_stamp :: "nat \<Rightarrow> int"
  var_neighbor :: "nat \<Rightarrow> nat list"
  neighbor_flag :: "nat \<Rightarrow> int"
  unit_weight :: "nat \<Rightarrow> int"
  weight_delta_score :: "nat \<Rightarrow> int"
  weight_is_touched :: "nat \<Rightarrow> bool"
  delta_total_weight :: int
  ave_weight :: int
  sat_count :: "nat \<Rightarrow> int"
  sat_var :: "(nat \<Rightarrow> int) option"
  hardunsat :: istack
  cardsat :: istack
  goodvar :: istack
  cur_soln :: "nat \<Rightarrow> int"
  hard_unsat_nb :: int
  minimum_hard_unsat_nb :: int
  total_step :: nat
  ls_step :: nat
  tries :: nat
  m_prng_state :: "64 word"
  rand_calls :: nat
  materialized_neighbor_mode :: bool

text \<open>
  The parameters that \<open>Solver::run\<close> and \<open>settings\<close> fix before the search starts.
  \<open>h_inc\<close> is a \<open>double\<close> that \<open>settings\<close> sets to \<open>1.0\<close>; the sum with an
  \<open>int\<close> weight is exact, so it is an integer here.  \<open>libc_rand n\<close> is the \<open>n\<close>-th value
  that \<open>rand()\<close> of the C library returns after seeding; \<open>rand_calls\<close> below counts
  the calls made.
\<close>

record ls_par =
  max_tries :: nat
  max_flips :: nat
  max_non_improve_flip :: nat
  swap_non_improve_flip :: nat
  hd_count_threshold :: nat
  h_inc :: int
  swap_bms_cap :: int
  rwprob_threshold :: int
  rdprob_threshold :: int
  swapprob :: rat
  swapprob_threshold :: int
  backbone_threshold :: int
  enable_swap :: bool
  init_mode :: int
  neighbor_entry_budget :: nat
  threshold_weight :: int
  p_scale :: rat
  q_scale :: rat
  q_init :: int
  scale_ave :: int
  libc_rand :: "nat \<Rightarrow> int"

section \<open>Scoring helpers (include/cardsatLS.hpp)\<close>

definition violation_make_contribution :: "int \<Rightarrow> int \<Rightarrow> int" where
  "violation_make_contribution w gap = (if gap > 0 then w else 0)"

definition clause_score_contribution :: "bool \<Rightarrow> int \<Rightarrow> int \<Rightarrow> int \<Rightarrow> int" where
  "clause_score_contribution b s threshold w =
     (if s < threshold then
        (if b then - w else violation_make_contribution w (threshold - s))
      else if b \<and> s = threshold then - violation_make_contribution w 1
      else 0)"

lemma contribution_cases:
  "clause_score_contribution b s t w
     = (if s < t then (if b then - w else w) else if b \<and> s = t then - w else 0)"
  by (simp add: clause_score_contribution_def violation_make_contribution_def)

section \<open>The random generator\<close>

text \<open>One xorshift step on the 64-bit state; the low 32 bits are returned.\<close>

definition fast_rand :: "ls \<Rightarrow> 32 word \<times> ls" where
  "fast_rand st =
     (let s = m_prng_state st;
          s = s XOR push_bit 13 s;
          s = s XOR drop_bit 7 s;
          s = s XOR push_bit 17 s
      in (ucast s, st\<lparr>m_prng_state := s\<rparr>))"

text \<open>\<open>fast_rand() % n\<close> with \<open>n\<close> converted to unsigned, and the comparison of such a
  value with an \<open>int\<close> threshold, which converts the threshold to unsigned as well.\<close>

definition rand_below :: "nat \<Rightarrow> ls \<Rightarrow> nat \<times> ls" where
  "rand_below n st = (let (r, st) = fast_rand st in (unat r mod n, st))"

definition MY_RAND_MAX_INT :: nat where
  "MY_RAND_MAX_INT = 10000000"

definition rand_hits :: "int \<Rightarrow> ls \<Rightarrow> bool \<times> ls" where
  "rand_hits threshold st =
     (let (r, st) = rand_below MY_RAND_MAX_INT st in (r < unat (word_of_int threshold :: 32 word), st))"

lemma rand_below_less: "0 < n \<Longrightarrow> fst (rand_below n st) < n"
  by (simp add: rand_below_def Let_def split_beta)

section \<open>Assignments, counters and the violation\<close>

text \<open>\<open>cur_soln[v] == sense\<close>\<close>

definition lit_true :: "(nat \<Rightarrow> int) \<Rightarrow> lit \<Rightarrow> bool" where
  "lit_true a l \<longleftrightarrow> a (var_num l) = of_bool (sense l)"

definition true_count :: "(nat \<Rightarrow> int) \<Rightarrow> lit list \<Rightarrow> int" where
  "true_count a ls = int (length (filter (lit_true a) ls))"

definition clause_holds :: "inst \<Rightarrow> (nat \<Rightarrow> int) \<Rightarrow> nat \<Rightarrow> bool" where
  "clause_holds I a c \<longleftrightarrow> clause_true_lit_thres I c \<le> true_count a (clause_lit I c)"

definition is_solution :: "inst \<Rightarrow> (nat \<Rightarrow> int) \<Rightarrow> bool" where
  "is_solution I a \<longleftrightarrow> (\<forall>c<num_clauses I. clause_holds I a c)"

text \<open>
  The weighted violation: every clause counts the number of true literals it still lacks,
  times its weight.  This is the objective whose decrease a score predicts.
\<close>

definition violation :: "inst \<Rightarrow> (nat \<Rightarrow> int) \<Rightarrow> (nat \<Rightarrow> int) \<Rightarrow> int" where
  "violation I w a =
     (\<Sum>c<num_clauses I. w c * max 0 (clause_true_lit_thres I c - true_count a (clause_lit I c)))"

definition flip_soln :: "nat \<Rightarrow> (nat \<Rightarrow> int) \<Rightarrow> (nat \<Rightarrow> int)" where
  "flip_soln v a = a(v := 1 - a v)"

text \<open>What the score of \<open>u\<close> ought to be: the contributions of its occurrences.\<close>

definition clause_score :: "inst \<Rightarrow> (nat \<Rightarrow> int) \<Rightarrow> (nat \<Rightarrow> int) \<Rightarrow> (nat \<Rightarrow> int) \<Rightarrow> nat \<Rightarrow> nat \<Rightarrow> int" where
  "clause_score I a sc w c u =
     (\<Sum>l\<leftarrow>clause_lit I c. if var_num l = u
        then clause_score_contribution (lit_true a l) (sc c) (clause_true_lit_thres I c) (w c) else 0)"

definition score_spec :: "inst \<Rightarrow> (nat \<Rightarrow> int) \<Rightarrow> (nat \<Rightarrow> int) \<Rightarrow> (nat \<Rightarrow> int) \<Rightarrow> nat \<Rightarrow> int" where
  "score_spec I a sc w u = (\<Sum>c<num_clauses I. clause_score I a sc w c u)"

text \<open>Solutions of the instance the reader builds are the assignments that satisfy the rows.\<close>

lemma true_count_row:
  assumes "0 \<notin> set row"
  shows "true_count (\<lambda>v. of_bool (a v)) (map (make_lit c) row) = row_count a row"
  using assms by (induction row) (auto simp: true_count_def make_lit_def lit_true_def lit_sat_def)

lemma parse_solution_rows:
  assumes "rows_ok p"
  shows "is_solution (parse_from_preprocess p) (\<lambda>v. of_bool (a v)) \<longleftrightarrow> rows_sat a (pp_rows p)"
proof -
  note f = parse_from_preprocess_fields [where p = p]
  have nz: "0 \<notin> set (pp_clause p ! Suc c)" if "c < pp_clauses p" for c
    using assms that by (auto simp: rows_ok_def)
  have "is_solution (parse_from_preprocess p) (\<lambda>v. of_bool (a v))
      \<longleftrightarrow> (\<forall>c<pp_clauses p. row_sat a (pp_clause p ! Suc c) (pp_degree p ! Suc c))"
    using nz by (auto simp: is_solution_def clause_holds_def f true_count_row row_sat_def)
  also have "\<dots> \<longleftrightarrow> rows_sat a (pp_rows p)"
    by (auto simp: rows_sat_def pp_rows_def Suc_le_eq gr0_conv_Suc less_Suc_eq_le simp del: upt_Suc)
  finally show ?thesis .
qed

lemma is_solution_cong:
  assumes "indexed_inst I" and "\<And>v. 1 \<le> v \<Longrightarrow> v \<le> num_vars I \<Longrightarrow> a v = b v"
  shows "is_solution I a = is_solution I b"
proof -
  have "true_count a (clause_lit I c) = true_count b (clause_lit I c)" if "c < num_clauses I" for c
    unfolding true_count_def
    by (rule arg_cong [where f = "\<lambda>xs. int (length xs)"], rule filter_cong)
      (use assms(2) wf_inst_lit(2,3) [OF assms(1) that] in \<open>auto simp: lit_true_def\<close>)
  then show ?thesis by (simp add: is_solution_def clause_holds_def)
qed

section \<open>Invariants\<close>

definition soln_ok :: "inst \<Rightarrow> ls \<Rightarrow> bool" where
  "soln_ok I st \<longleftrightarrow> (\<forall>v\<in>{1..num_vars I}. cur_soln st v = 0 \<or> cur_soln st v = 1)"

definition counts_ok :: "inst \<Rightarrow> ls \<Rightarrow> bool" where
  "counts_ok I st \<longleftrightarrow> (\<forall>c<num_clauses I. sat_count st c = true_count (cur_soln st) (clause_lit I c))"

definition score_at :: "inst \<Rightarrow> ls \<Rightarrow> nat \<Rightarrow> bool" where
  "score_at I st u \<longleftrightarrow> score st u = score_spec I (cur_soln st) (sat_count st) (unit_weight st) u"

definition scores_ok :: "inst \<Rightarrow> ls \<Rightarrow> bool" where
  "scores_ok I st \<longleftrightarrow> (\<forall>u\<in>{1..num_vars I}. score_at I st u)"

definition unsat_clauses :: "inst \<Rightarrow> ls \<Rightarrow> nat set" where
  "unsat_clauses I st = {c. c < num_clauses I \<and> sat_count st c < clause_true_lit_thres I c}"

definition card_clauses :: "inst \<Rightarrow> nat set" where
  "card_clauses I = {c. c < num_clauses I \<and> clause_true_lit_thres I c > 1}"

definition stacks_ok :: "inst \<Rightarrow> ls \<Rightarrow> bool" where
  "stacks_ok I st \<longleftrightarrow>
     stack_ok (hardunsat st) \<and> set (items (hardunsat st)) = unsat_clauses I st
   \<and> hard_unsat_nb st = int (fill_pointer (hardunsat st))
   \<and> tracked (card_clauses I) (cardsat st)
   \<and> set (items (cardsat st)) = card_clauses I - unsat_clauses I st"

definition good_ok :: "inst \<Rightarrow> ls \<Rightarrow> bool" where
  "good_ok I st \<longleftrightarrow> tracked {1..num_vars I} (goodvar st)
   \<and> (\<forall>v\<in>set (items (goodvar st)). 1 \<le> v \<and> v \<le> num_vars I \<and> score st v > 0)"

definition weights_ok :: "inst \<Rightarrow> ls \<Rightarrow> bool" where
  "weights_ok I st \<longleftrightarrow> (\<forall>c<num_clauses I. 1 \<le> unit_weight st c)"

text \<open>The scratch arrays are zero between calls.\<close>

definition scratch_ok :: "ls \<Rightarrow> bool" where
  "scratch_ok st \<longleftrightarrow> neighbor_flag st = (\<lambda>_. 0) \<and> weight_delta_score st = (\<lambda>_. 0)
   \<and> weight_is_touched st = (\<lambda>_. False) \<and> (\<forall>f. sat_var st = Some f \<longrightarrow> f = (\<lambda>_. 0))"

definition neighbors_of :: "inst \<Rightarrow> nat \<Rightarrow> nat set" where
  "neighbors_of I v = {u. u \<noteq> v \<and> (\<exists>c<num_clauses I. u \<in> var_num ` set (clause_lit I c)
                                        \<and> v \<in> var_num ` set (clause_lit I c))}"

definition neighbors_ok :: "inst \<Rightarrow> ls \<Rightarrow> bool" where
  "neighbors_ok I st \<longleftrightarrow> (materialized_neighbor_mode st \<longrightarrow>
     (\<forall>v\<in>{1..num_vars I}. distinct (var_neighbor st v) \<and> set (var_neighbor st v) = neighbors_of I v))"

text \<open>The invariant of the search.\<close>

definition ls_inv :: "inst \<Rightarrow> ls \<Rightarrow> bool" where
  "ls_inv I st \<longleftrightarrow> soln_ok I st \<and> counts_ok I st \<and> scores_ok I st \<and> stacks_ok I st
     \<and> good_ok I st \<and> weights_ok I st \<and> scratch_ok st \<and> neighbors_ok I st"

lemma unsat_clauses_counts:
  "counts_ok I st \<Longrightarrow> unsat_clauses I st = {c. c < num_clauses I \<and> \<not> clause_holds I (cur_soln st) c}"
  by (auto simp: unsat_clauses_def counts_ok_def clause_holds_def)

lemma solution_iff_no_unsat:
  assumes "counts_ok I st" and "stacks_ok I st"
  shows "is_solution I (cur_soln st) \<longleftrightarrow> hard_unsat_nb st = 0"
proof -
  have "hard_unsat_nb st = 0 \<longleftrightarrow> unsat_clauses I st = {}"
    using assms(2) by (auto simp: stacks_ok_def)
  then show ?thesis
    using assms(1) by (auto simp: unsat_clauses_counts is_solution_def)
qed

section \<open>Flipping one variable, on the abstract counters\<close>

lemma lit_true_flip_other [simp]: "var_num l \<noteq> v \<Longrightarrow> lit_true (flip_soln v a) l = lit_true a l"
  by (simp add: lit_true_def flip_soln_def)

lemma lit_true_flip_same:
  assumes "a v = 0 \<or> a v = 1" and "var_num l = v"
  shows "lit_true (flip_soln v a) l \<longleftrightarrow> \<not> lit_true a l"
  using assms by (auto simp: lit_true_def flip_soln_def)

text \<open>\<open>count_delta\<close>: how a flip of \<open>v\<close>, already made in \<open>a\<close>, changes the count of a
  row through the occurrence \<open>l\<close>.\<close>

definition count_delta :: "(nat \<Rightarrow> int) \<Rightarrow> lit \<Rightarrow> int" where
  "count_delta a l = (if lit_true a l then 1 else -1)"

lemma true_count_flip:
  assumes "a v = 0 \<or> a v = 1"
  shows "true_count (flip_soln v a) ls
    = true_count a ls + (\<Sum>l\<leftarrow>filter (\<lambda>l. var_num l = v) ls. count_delta (flip_soln v a) l)"
  using lit_true_flip_same [where a = a and v = v, OF assms]
  by (induction ls) (auto simp: true_count_def count_delta_def)

text \<open>
  The score of a variable is the violation it removes.  The change of one clause is a case
  split on where the count stands relative to the degree.
\<close>

lemma gap_flip:
  fixes s t w :: int
  shows "w * max 0 (t - s) - w * max 0 (t - (s + (if b then -1 else 1)))
    = clause_score_contribution b s t w"
  by (auto simp: contribution_cases max_def algebra_simps)

lemma clause_score_absent:
  "u \<notin> var_num ` set (clause_lit I c) \<Longrightarrow> clause_score I a sc w c u = 0"
  unfolding clause_score_def by (rule sum_list_zero) auto

lemma clause_score_single:
  assumes "distinct (map var_num (clause_lit I c))" and "l \<in> set (clause_lit I c)"
  shows "clause_score I a sc w c (var_num l)
    = clause_score_contribution (lit_true a l) (sc c) (clause_true_lit_thres I c) (w c)"
proof -
  have "clause_score I a sc w c (var_num l)
    = (\<Sum>l'\<leftarrow>filter (\<lambda>l'. var_num l' = var_num l) (clause_lit I c).
        clause_score_contribution (lit_true a l') (sc c) (clause_true_lit_thres I c) (w c))"
    by (simp add: clause_score_def sum_list_map_filter')
  then show ?thesis using filter_eq_singleton [OF assms] by simp
qed

lemma score_spec_violation:
  assumes "wf_inst I" and "a v = 0 \<or> a v = 1"
    and "\<And>c. c < num_clauses I \<Longrightarrow> sc c = true_count a (clause_lit I c)"
  shows "score_spec I a sc w v = violation I w a - violation I w (flip_soln v a)"
proof -
  have "clause_score I a sc w c v
      = w c * max 0 (clause_true_lit_thres I c - true_count a (clause_lit I c))
        - w c * max 0 (clause_true_lit_thres I c - true_count (flip_soln v a) (clause_lit I c))"
    if c: "c < num_clauses I" for c
  proof (cases "v \<in> var_num ` set (clause_lit I c)")
    case False
    then have no: "filter (\<lambda>l. var_num l = v) (clause_lit I c) = []"
      by (auto simp: filter_empty_conv)
    show ?thesis
      by (simp add: true_count_flip [where a = a and v = v, OF assms(2)] no clause_score_absent False)
  next
    case True
    then obtain l where l: "l \<in> set (clause_lit I c)" "v = var_num l" by auto
    have d: "distinct (map var_num (clause_lit I c))" using assms(1) c by (simp add: wf_inst_def)
    have fl: "filter (\<lambda>l'. var_num l' = v) (clause_lit I c) = [l]"
      unfolding l(2) by (rule filter_eq_singleton [OF d l(1)])
    have "true_count (flip_soln v a) (clause_lit I c)
        = true_count a (clause_lit I c) + (if lit_true a l then -1 else 1)"
      unfolding true_count_flip [where a = a and v = v, OF assms(2)] fl
      by (simp add: count_delta_def lit_true_flip_same [where a = a and v = v, OF assms(2) l(2) [symmetric]])
    then show ?thesis
      unfolding l(2) clause_score_single [OF d l(1)] assms(3) [OF c]
      by (simp only: gap_flip)
  qed
  then show ?thesis
    by (simp add: score_spec_def violation_def sum_subtractf)
qed

end
