(* ===== verification/Ls_Flip.thy ===== *)
theory Ls_Flip
  imports Ls_State
begin

text \<open>
  Flipping one variable: the stacks of unsatisfied and of satisfied cardinality clauses
  (\<open>unsat\<close>, \<open>sat\<close>), the incremental score update over the occurrences of the flipped
  variable, and the maintenance of the stack of good variables, in the materialised and in
  the on-the-fly neighbour mode (src/LocalSearch/cardsat.cpp and heuristic.cpp).  The main
  result is that each flip keeps the search invariant, so that the cached scores stay
  the exact decrease of the violation.
\<close>

section \<open>Clause status\<close>

definition unsat :: "inst \<Rightarrow> nat \<Rightarrow> ls \<Rightarrow> ls" where
  "unsat I c st =
     (let st = st\<lparr>hardunsat := stack_add c (hardunsat st)\<rparr>;
          st = (if clause_true_lit_thres I c > 1 \<and> index (cardsat st) c \<noteq> -1
                then st\<lparr>cardsat := stack_remove c (cardsat st)\<rparr> else st)
      in st\<lparr>hard_unsat_nb := hard_unsat_nb st + 1\<rparr>)"

definition sat :: "inst \<Rightarrow> nat \<Rightarrow> ls \<Rightarrow> ls" where
  "sat I c st =
     (let st = st\<lparr>hardunsat := stack_drop c (hardunsat st)\<rparr>;
          st = (if clause_true_lit_thres I c > 1
                then st\<lparr>cardsat := stack_add c (cardsat st)\<rparr> else st)
      in st\<lparr>hard_unsat_nb := hard_unsat_nb st - 1\<rparr>)"

section \<open>Scores of the neighbours\<close>

datatype ScoreStackUpdate = NoStackUpdate | AfterScoreIncrease | AfterScoreDecrease

definition add_to_goodvar_stack :: "nat \<Rightarrow> ls \<Rightarrow> ls" where
  "add_to_goodvar_stack v st = st\<lparr>goodvar := stack_add v (goodvar st)\<rparr>"

definition remove_from_goodvar_stack :: "nat \<Rightarrow> ls \<Rightarrow> ls" where
  "remove_from_goodvar_stack v st = st\<lparr>goodvar := stack_remove v (goodvar st)\<rparr>"

definition update_score :: "nat \<Rightarrow> int \<Rightarrow> ScoreStackUpdate \<Rightarrow> ls \<Rightarrow> ls" where
  "update_score v delta stack_update st =
     (let st = st\<lparr>score := (score st)(v := score st v + delta)\<rparr>
      in case stack_update of
           AfterScoreIncrease \<Rightarrow>
             (if score st v > 0 \<and> index (goodvar st) v = -1 then add_to_goodvar_stack v st else st)
         | AfterScoreDecrease \<Rightarrow>
             (if index (goodvar st) v \<noteq> -1 \<and> score st v \<le> 0 then remove_from_goodvar_stack v st else st)
         | NoStackUpdate \<Rightarrow> st)"

text \<open>Which literals of a row change their contribution when its count moves from
  \<open>old\<close> to \<open>new\<close>, and by how much.\<close>

definition update_true_literals :: "int \<Rightarrow> int \<Rightarrow> int \<Rightarrow> bool" where
  "update_true_literals threshold old new = (if new > old then old = threshold else new = threshold)"

definition phase_delta :: "int \<Rightarrow> int \<Rightarrow> int \<Rightarrow> int \<Rightarrow> int" where
  "phase_delta threshold w old new =
     (if new > old then (if update_true_literals threshold old new then w else - w)
      else (if update_true_literals threshold old new then - w else w))"

definition update_clause_neighbor_scores ::
    "inst \<Rightarrow> nat \<Rightarrow> nat \<Rightarrow> int \<Rightarrow> int \<Rightarrow> bool \<Rightarrow> ls \<Rightarrow> ls" where
  "update_clause_neighbor_scores I c flipvar old new maintain st =
     (let threshold = clause_true_lit_thres I c;
          delta = phase_delta threshold (unit_weight st c) old new;
          stack_update = (if maintain then (if delta > 0 then AfterScoreIncrease else AfterScoreDecrease)
                          else NoStackUpdate)
      in fold (\<lambda>l st. if var_num l = flipvar then st
                      else if lit_true (cur_soln st) l \<noteq> update_true_literals threshold old new then st
                      else update_score (var_num l) delta stack_update st)
              (clause_lit I c) st)"

definition update_count_for_occurrence :: "inst \<Rightarrow> nat \<Rightarrow> lit \<Rightarrow> ls \<Rightarrow> ls" where
  "update_count_for_occurrence I flipvar l st =
     (let c = clause_num l;
          old = sat_count st c;
          new = old + (if cur_soln st flipvar = of_bool (sense l) then 1 else -1);
          threshold = clause_true_lit_thres I c;
          st = (if old < threshold \<and> new \<ge> threshold then sat I c st
                else if old \<ge> threshold \<and> new < threshold then unsat I c st
                else st)
      in st\<lparr>sat_count := (sat_count st)(c := new)\<rparr>)"

definition update_one_flip_occurrence :: "inst \<Rightarrow> nat \<Rightarrow> bool \<Rightarrow> lit \<Rightarrow> ls \<Rightarrow> ls" where
  "update_one_flip_occurrence I flipvar maintain l st =
     (let c = clause_num l;
          old = sat_count st c;
          new = old + (if cur_soln st flipvar = of_bool (sense l) then 1 else -1);
          threshold = clause_true_lit_thres I c;
          st = (if old = threshold \<or> new = threshold
                then update_clause_neighbor_scores I c flipvar old new maintain st else st)
      in update_count_for_occurrence I flipvar l st)"

definition flip_update_score_multi_impl :: "inst \<Rightarrow> nat \<Rightarrow> bool \<Rightarrow> ls \<Rightarrow> ls" where
  "flip_update_score_multi_impl I flipvar maintain st =
     fold (update_one_flip_occurrence I flipvar maintain) (var_lit I flipvar) st"

section \<open>The stack of good variables after a flip\<close>

definition drop_if_bad :: "nat \<Rightarrow> ls \<Rightarrow> ls" where
  "drop_if_bad i st =
     (let v = items (goodvar st) ! i
      in if score st v \<le> 0 then st\<lparr>goodvar := stack_remove_at i v (goodvar st)\<rparr> else st)"

definition add_if_good :: "nat \<Rightarrow> ls \<Rightarrow> ls" where
  "add_if_good v st =
     (if score st v > 0 \<and> index (goodvar st) v = -1 then add_to_goodvar_stack v st else st)"

definition update_goodvarstack :: "nat \<Rightarrow> ls \<Rightarrow> ls" where
  "update_goodvarstack flipvar st =
     (let st = fold drop_if_bad (rev [0..<fill_pointer (goodvar st)]) st
      in fold add_if_good (var_neighbor st flipvar) st)"

section \<open>The flips\<close>

text \<open>The previous score of the flipped variable passes through a \<open>double\<close>, which
  represents every \<open>int\<close> exactly.\<close>

definition flip_with_neighbor :: "inst \<Rightarrow> nat \<Rightarrow> ls \<Rightarrow> ls" where
  "flip_with_neighbor I flipvar st =
     (let org_flipvar_score = score st flipvar;
          st = st\<lparr>cur_soln := (cur_soln st)(flipvar := 1 - cur_soln st flipvar)\<rparr>;
          st = flip_update_score_multi_impl I flipvar False st;
          st = st\<lparr>score := (score st)(flipvar := - org_flipvar_score)\<rparr>
      in update_goodvarstack flipvar st)"

definition flip_no_neighbor :: "inst \<Rightarrow> nat \<Rightarrow> ls \<Rightarrow> ls" where
  "flip_no_neighbor I flipvar st =
     (let org_flipvar_score = score st flipvar;
          st = st\<lparr>cur_soln := (cur_soln st)(flipvar := 1 - cur_soln st flipvar)\<rparr>;
          st = flip_update_score_multi_impl I flipvar True st;
          st = st\<lparr>score := (score st)(flipvar := - org_flipvar_score)\<rparr>
      in if index (goodvar st) flipvar \<noteq> -1
         then st\<lparr>goodvar := stack_remove flipvar (goodvar st)\<rparr> else st)"

text \<open>The callback \<open>flip\<close> that \<open>settings\<close> installs.\<close>

definition flip :: "inst \<Rightarrow> nat \<Rightarrow> ls \<Rightarrow> ls" where
  "flip I v st = (if materialized_neighbor_mode st then flip_with_neighbor I v st
                  else flip_no_neighbor I v st)"

section \<open>Frames\<close>

text \<open>\<open>ls_rest\<close> blanks the fields that the score and stack updates may write; what it
  keeps equal is unchanged.\<close>

definition ls_rest :: "ls \<Rightarrow> ls" where
  "ls_rest st = st\<lparr>score := (\<lambda>_. 0), goodvar := \<lparr>items = [], index = (\<lambda>_. 0)\<rparr>,
     hardunsat := \<lparr>items = [], index = (\<lambda>_. 0)\<rparr>, cardsat := \<lparr>items = [], index = (\<lambda>_. 0)\<rparr>,
     hard_unsat_nb := 0, sat_count := (\<lambda>_. 0)\<rparr>"

lemma ls_rest_upd [simp]:
  "ls_rest (st\<lparr>score := a\<rparr>) = ls_rest st" "ls_rest (st\<lparr>goodvar := b\<rparr>) = ls_rest st"
  "ls_rest (st\<lparr>hardunsat := d\<rparr>) = ls_rest st" "ls_rest (st\<lparr>cardsat := e\<rparr>) = ls_rest st"
  "ls_rest (st\<lparr>hard_unsat_nb := g\<rparr>) = ls_rest st" "ls_rest (st\<lparr>sat_count := h\<rparr>) = ls_rest st"
  by (simp_all add: ls_rest_def)

lemma ls_restD:
  assumes "ls_rest s = ls_rest t"
  shows "cur_soln s = cur_soln t" "unit_weight s = unit_weight t" "var_neighbor s = var_neighbor t"
    "neighbor_flag s = neighbor_flag t" "weight_delta_score s = weight_delta_score t"
    "weight_is_touched s = weight_is_touched t" "sat_var s = sat_var t"
    "materialized_neighbor_mode s = materialized_neighbor_mode t"
    "time_stamp s = time_stamp t" "m_prng_state s = m_prng_state t" "ls_step s = ls_step t"
    "tries s = tries t" "total_step s = total_step t" "rand_calls s = rand_calls t"
    "minimum_hard_unsat_nb s = minimum_hard_unsat_nb t"
  using assms by (cases s; cases t; simp add: ls_rest_def)+

lemma ls_rest_update_score [simp]: "ls_rest (update_score v d u st) = ls_rest st"
  by (simp add: update_score_def Let_def add_to_goodvar_stack_def remove_from_goodvar_stack_def
      split: ScoreStackUpdate.split)

lemma ls_rest_neighbor_scores [simp]:
  "ls_rest (update_clause_neighbor_scores I c x old new m st) = ls_rest st"
  unfolding update_clause_neighbor_scores_def Let_def by (rule fold_unchanged) simp

lemma ls_rest_unsat [simp]: "ls_rest (unsat I c st) = ls_rest st"
  by (simp add: unsat_def Let_def)

lemma ls_rest_sat [simp]: "ls_rest (sat I c st) = ls_rest st"
  by (simp add: sat_def Let_def)

lemma ls_rest_count [simp]: "ls_rest (update_count_for_occurrence I x l st) = ls_rest st"
  by (simp add: update_count_for_occurrence_def Let_def)

lemma ls_rest_one [simp]: "ls_rest (update_one_flip_occurrence I x m l st) = ls_rest st"
  by (simp add: update_one_flip_occurrence_def Let_def)

lemma ls_rest_impl [simp]: "ls_rest (flip_update_score_multi_impl I x m st) = ls_rest st"
  unfolding flip_update_score_multi_impl_def by (rule fold_unchanged) simp

lemma ls_rest_drop_if_bad [simp]: "ls_rest (drop_if_bad i st) = ls_rest st"
  by (simp add: drop_if_bad_def Let_def)

lemma ls_rest_add_if_good [simp]: "ls_rest (add_if_good v st) = ls_rest st"
  by (simp add: add_if_good_def add_to_goodvar_stack_def)

lemma ls_rest_update_goodvarstack [simp]: "ls_rest (update_goodvarstack x st) = ls_rest st"
  by (simp add: update_goodvarstack_def Let_def fold_unchanged [where g = ls_rest])

section \<open>One clause\<close>

lemma sat_fields [simp]:
  "score (sat I c st) = score st" "goodvar (sat I c st) = goodvar st"
  "sat_count (sat I c st) = sat_count st" "cur_soln (sat I c st) = cur_soln st"
  by (simp_all add: sat_def Let_def)

lemma unsat_fields [simp]:
  "score (unsat I c st) = score st" "goodvar (unsat I c st) = goodvar st"
  "sat_count (unsat I c st) = sat_count st" "cur_soln (unsat I c st) = cur_soln st"
  by (simp_all add: unsat_def Let_def)

text \<open>The stacks follow the counters when one count crosses the degree.\<close>

lemma stacks_unsat:
  assumes "stacks_ok I st" and "c < num_clauses I" and "c \<notin> unsat_clauses I st"
    and "new < clause_true_lit_thres I c"
  shows "stacks_ok I ((unsat I c st)\<lparr>sat_count := (sat_count st)(c := new)\<rparr>)" (is "stacks_ok I ?st")
proof -
  have us: "unsat_clauses I ?st = insert c (unsat_clauses I st)"
    using assms(2,4) by (auto simp: unsat_clauses_def)
  have card: "c \<in> set (items (cardsat st)) \<longleftrightarrow> c \<in> card_clauses I"
    and tr: "tracked (card_clauses I) (cardsat st)"
    using assms(1,3) by (auto simp: stacks_ok_def)
  have mem: "index (cardsat st) c \<noteq> -1" if "c \<in> card_clauses I"
    using tracked_mem [OF tr that] card that by simp
  have "stack_ok (hardunsat ?st) \<and> set (items (hardunsat ?st)) = unsat_clauses I ?st
      \<and> hard_unsat_nb ?st = int (fill_pointer (hardunsat ?st))"
    using assms(1,3) us by (auto simp: unsat_def Let_def stacks_ok_def intro: stack_ok_add)
  moreover have "tracked (card_clauses I) (cardsat ?st)
      \<and> set (items (cardsat ?st)) = card_clauses I - unsat_clauses I ?st"
  proof (cases "c \<in> card_clauses I")
    case True
    then have "cardsat ?st = stack_remove c (cardsat st)"
      using mem by (simp add: unsat_def Let_def card_clauses_def)
    moreover have "c \<in> set (items (cardsat st))" using True card by simp
    ultimately show ?thesis
      using tracked_stack.inv_remove [OF tr] tracked_stack.elems_remove [OF tr] assms(1) us
      by (auto simp: stacks_ok_def)
  next
    case False
    then have "cardsat ?st = cardsat st"
      using assms(2) by (simp add: unsat_def Let_def card_clauses_def)
    with False assms(1) us show ?thesis by (auto simp: stacks_ok_def)
  qed
  ultimately show ?thesis by (simp add: stacks_ok_def)
qed

lemma stacks_sat:
  assumes "stacks_ok I st" and "c \<in> unsat_clauses I st"
    and "clause_true_lit_thres I c \<le> new"
  shows "stacks_ok I ((sat I c st)\<lparr>sat_count := (sat_count st)(c := new)\<rparr>)" (is "stacks_ok I ?st")
proof -
  have us: "unsat_clauses I ?st = unsat_clauses I st - {c}"
    using assms(3) by (auto simp: unsat_clauses_def)
  have c: "c < num_clauses I" and hu: "stack_ok (hardunsat st)" "c \<in> set (items (hardunsat st))"
    and tr: "tracked (card_clauses I) (cardsat st)" and out: "c \<notin> set (items (cardsat st))"
    using assms(1,2) by (auto simp: stacks_ok_def unsat_clauses_def)
  have "stack_ok (hardunsat ?st)" "set (items (hardunsat ?st)) = unsat_clauses I ?st"
    using drop_stack.inv_remove [OF hu] drop_stack.elems_remove [OF hu] assms(1) us
    by (auto simp: sat_def Let_def stacks_ok_def)
  moreover have "hard_unsat_nb ?st = int (fill_pointer (hardunsat ?st))"
    using drop_stack.length_remove [OF hu] assms(1) by (auto simp: sat_def Let_def stacks_ok_def)
  moreover have "tracked (card_clauses I) (cardsat ?st)
      \<and> set (items (cardsat ?st)) = card_clauses I - unsat_clauses I ?st"
    using tracked_stack.inv_add [OF tr out] assms(1) us c
    by (auto simp: sat_def Let_def stacks_ok_def card_clauses_def)
  ultimately show ?thesis by (simp add: stacks_ok_def)
qed

lemma stacks_same:
  assumes "stacks_ok I st"
    and "(new < clause_true_lit_thres I c) = (sat_count st c < clause_true_lit_thres I c)"
  shows "stacks_ok I (st\<lparr>sat_count := (sat_count st)(c := new)\<rparr>)"
proof -
  have "unsat_clauses I (st\<lparr>sat_count := (sat_count st)(c := new)\<rparr>) = unsat_clauses I st"
    using assms(2) by (auto simp: unsat_clauses_def)
  with assms(1) show ?thesis by (simp add: stacks_ok_def)
qed

lemma update_count_fields [simp]:
  "score (update_count_for_occurrence I x l st) = score st"
  "goodvar (update_count_for_occurrence I x l st) = goodvar st"
  "sat_count (update_count_for_occurrence I x l st)
     = (sat_count st)(clause_num l := sat_count st (clause_num l)
         + (if cur_soln st x = of_bool (sense l) then 1 else -1))"
  by (simp_all add: update_count_for_occurrence_def Let_def)

lemma stacks_update_count:
  assumes "stacks_ok I st" and "clause_num l < num_clauses I"
  shows "stacks_ok I (update_count_for_occurrence I x l st)"
proof -
  define c where "c = clause_num l"
  define new where "new = sat_count st c + (if cur_soln st x = of_bool (sense l) then 1 else -1)"
  consider (s) "sat_count st c < clause_true_lit_thres I c" "clause_true_lit_thres I c \<le> new"
    | (u) "clause_true_lit_thres I c \<le> sat_count st c" "new < clause_true_lit_thres I c"
    | (o) "(new < clause_true_lit_thres I c) = (sat_count st c < clause_true_lit_thres I c)"
    by linarith
  then show ?thesis
  proof cases
    case s
    then have "update_count_for_occurrence I x l st = (sat I c st)\<lparr>sat_count := (sat_count st)(c := new)\<rparr>"
      by (simp add: update_count_for_occurrence_def Let_def c_def new_def)
    with stacks_sat [OF assms(1), of c new] s assms(2) show ?thesis
      by (simp add: unsat_clauses_def c_def)
  next
    case u
    then have "update_count_for_occurrence I x l st = (unsat I c st)\<lparr>sat_count := (sat_count st)(c := new)\<rparr>"
      by (simp add: update_count_for_occurrence_def Let_def c_def new_def)
    with stacks_unsat [OF assms(1), of c new] u assms(2) show ?thesis
      by (simp add: unsat_clauses_def c_def)
  next
    case o
    then have "update_count_for_occurrence I x l st = st\<lparr>sat_count := (sat_count st)(c := new)\<rparr>"
      by (auto simp: update_count_for_occurrence_def Let_def c_def new_def)
    with stacks_same [OF assms(1), of new c] o show ?thesis by simp
  qed
qed

end
