(* ===== verification/Ls_Flip_Inv.thy ===== *)
theory Ls_Flip_Inv
  imports Ls_Flip
begin

text \<open>
  The invariant of the search is kept by a flip.  During the loop over the occurrences of
  the flipped variable \<open>x\<close> the assignment is already the new one while the counters move
  clause by clause; the scores of all other variables match the counters at every moment,
  the score of \<open>x\<close> is repaired at the end by negation, and the stack of good variables
  is either maintained along the way or repaired at the end.
\<close>

section \<open>Scores of the other variables\<close>

lemma score_update_score [simp]:
  "score (update_score v d u st) = (score st)(v := score st v + d)"
  by (simp add: update_score_def Let_def add_to_goodvar_stack_def remove_from_goodvar_stack_def
      split: ScoreStackUpdate.split)

lemma update_score_fields [simp]:
  "cur_soln (update_score v d u st) = cur_soln st"
  "sat_count (update_score v d u st) = sat_count st"
  "hardunsat (update_score v d u st) = hardunsat st"
  "cardsat (update_score v d u st) = cardsat st"
  "hard_unsat_nb (update_score v d u st) = hard_unsat_nb st"
  by (simp_all add: update_score_def Let_def add_to_goodvar_stack_def remove_from_goodvar_stack_def
      split: ScoreStackUpdate.split)

definition neighbor_delta :: "inst \<Rightarrow> ls \<Rightarrow> nat \<Rightarrow> nat \<Rightarrow> int \<Rightarrow> int \<Rightarrow> nat \<Rightarrow> int" where
  "neighbor_delta I st c x old new u =
     (\<Sum>l\<leftarrow>clause_lit I c. if var_num l = u \<and> u \<noteq> x
          \<and> lit_true (cur_soln st) l = update_true_literals (clause_true_lit_thres I c) old new
        then phase_delta (clause_true_lit_thres I c) (unit_weight st c) old new else 0)"

lemma score_neighbor_scores:
  "score (update_clause_neighbor_scores I c x old new m st) u
     = score st u + neighbor_delta I st c x old new u"
proof -
  have "score (fold (\<lambda>l st. if var_num l = x then st
                 else if lit_true (cur_soln st) l \<noteq> t then st
                 else update_score (var_num l) d su st) ls st) u
      = score st u + (\<Sum>l\<leftarrow>ls. if var_num l = u \<and> u \<noteq> x \<and> lit_true (cur_soln st) l = t then d else 0)"
    for t d su ls
    by (induction ls arbitrary: st) auto
  then show ?thesis
    by (simp add: update_clause_neighbor_scores_def neighbor_delta_def Let_def)
qed

lemma neighbor_scores_fields [simp]:
  "cur_soln (update_clause_neighbor_scores I c x old new m st) = cur_soln st"
  "sat_count (update_clause_neighbor_scores I c x old new m st) = sat_count st"
  "hardunsat (update_clause_neighbor_scores I c x old new m st) = hardunsat st"
  "cardsat (update_clause_neighbor_scores I c x old new m st) = cardsat st"
  "hard_unsat_nb (update_clause_neighbor_scores I c x old new m st) = hard_unsat_nb st"
  unfolding update_clause_neighbor_scores_def Let_def by (rule fold_unchanged, simp)+

text \<open>The case analysis of the incremental update: at a row whose count moves by one, a
  literal's contribution changes exactly when the count is on the degree before or after.\<close>

lemma contribution_step:
  assumes "new = old + 1 \<or> new = old - 1"
  shows "clause_score_contribution b new t w - clause_score_contribution b old t w
    = (if (old = t \<or> new = t) \<and> b = update_true_literals t old new then phase_delta t w old new else 0)"
  using assms by (auto simp: contribution_cases update_true_literals_def phase_delta_def)

lemma neighbor_delta_clause_score:
  assumes "new = old + 1 \<or> new = old - 1" and "u \<noteq> x" and "sc c = old"
  shows "(if old = clause_true_lit_thres I c \<or> new = clause_true_lit_thres I c
          then neighbor_delta I st c x old new u else 0)
    = clause_score I (cur_soln st) (sc(c := new)) (unit_weight st) c u
      - clause_score I (cur_soln st) sc (unit_weight st) c u"
proof -
  let ?t = "clause_true_lit_thres I c" and ?w = "unit_weight st c" and ?a = "cur_soln st"
  have "clause_score I ?a (sc(c := new)) (unit_weight st) c u - clause_score I ?a sc (unit_weight st) c u
    = (\<Sum>l\<leftarrow>clause_lit I c. (if var_num l = u then clause_score_contribution (lit_true ?a l) new ?t ?w
         - clause_score_contribution (lit_true ?a l) old ?t ?w else 0))"
    unfolding clause_score_def using assms(3)
    by (simp add: sum_list_subtractf [symmetric] if_distrib cong: if_cong map_cong)
  also have "\<dots> = (\<Sum>l\<leftarrow>clause_lit I c. if var_num l = u \<and> (old = ?t \<or> new = ?t)
         \<and> lit_true ?a l = update_true_literals ?t old new then phase_delta ?t ?w old new else 0)"
    unfolding contribution_step [OF assms(1)] by (rule arg_cong [where f = sum_list]) auto
  also have "\<dots> = (if old = ?t \<or> new = ?t then neighbor_delta I st c x old new u else 0)"
    using assms(2) by (auto simp: neighbor_delta_def sum_list_zero intro!: arg_cong [where f = sum_list])
  finally show ?thesis by simp
qed

lemma score_spec_update_count:
  assumes "c < num_clauses I"
  shows "score_spec I a (sc(c := new)) w u = score_spec I a sc w u
    + (clause_score I a (sc(c := new)) w c u - clause_score I a sc w c u)"
proof -
  have other: "clause_score I a (sc(c := new)) w c' u = clause_score I a sc w c' u" if "c' \<noteq> c" for c'
    using that by (simp add: clause_score_def cong: if_cong)
  have "score_spec I a s w u = (\<Sum>c'\<in>{..<num_clauses I} - {c}. clause_score I a s w c' u)
      + clause_score I a s w c u" for s
    unfolding score_spec_def using assms by (simp add: sum.remove [of _ c])
  then show ?thesis by (simp add: other)
qed

lemma one_flip_score_at:
  assumes "clause_num l < num_clauses I" and "u \<noteq> x" and "score_at I st u"
  shows "score_at I (update_one_flip_occurrence I x m l st) u"
proof -
  define c where "c = clause_num l"
  define old where "old = sat_count st c"
  define new where "new = old + (if cur_soln st x = of_bool (sense l) then 1 else -1)"
  let ?s = "update_one_flip_occurrence I x m l st"
  have step: "new = old + 1 \<or> new = old - 1" by (simp add: new_def)
  have rest: "cur_soln ?s = cur_soln st" "unit_weight ?s = unit_weight st"
    using ls_rest_one by (rule ls_restD)+
  have cnt: "sat_count ?s = (sat_count st)(c := new)"
    by (simp add: update_one_flip_occurrence_def Let_def c_def old_def new_def)
  have "score ?s u = score st u + (if old = clause_true_lit_thres I c \<or> new = clause_true_lit_thres I c
          then neighbor_delta I st c x old new u else 0)"
    by (simp add: update_one_flip_occurrence_def Let_def c_def old_def new_def score_neighbor_scores)
  then show ?thesis
    using assms(3) neighbor_delta_clause_score [OF step assms(2), of "sat_count st" c]
      score_spec_update_count [of c I] assms(1)
    by (simp add: score_at_def rest cnt c_def old_def)
qed

lemma score_one_flip_same [simp]: "score (update_one_flip_occurrence I x m l st) x = score st x"
  by (simp add: update_one_flip_occurrence_def Let_def score_neighbor_scores neighbor_delta_def)

lemma sat_count_one_flip:
  "sat_count (update_one_flip_occurrence I x m l st)
     = (sat_count st)(clause_num l := sat_count st (clause_num l)
          + (if cur_soln st x = of_bool (sense l) then 1 else -1))"
  by (simp add: update_one_flip_occurrence_def Let_def)

lemma stacks_one_flip:
  assumes "stacks_ok I st" and "clause_num l < num_clauses I"
  shows "stacks_ok I (update_one_flip_occurrence I x m l st)"
proof -
  have "stacks_ok I (update_clause_neighbor_scores I c x old new m st)" for c old new
    using assms(1) by (simp add: stacks_ok_def unsat_clauses_def)
  then show ?thesis
    using assms by (simp add: update_one_flip_occurrence_def Let_def stacks_update_count)
qed

section \<open>The stack of good variables\<close>

lemma good_add:
  assumes "good_ok I st" and "1 \<le> v" and "v \<le> num_vars I" and "0 < score st v"
    and "index (goodvar st) v = -1"
  shows "good_ok I (add_to_goodvar_stack v st)"
proof -
  have "v \<notin> set (items (goodvar st))"
    using assms tracked_mem [of "{1..num_vars I}" "goodvar st" v] by (simp add: good_ok_def)
  with assms show ?thesis
    by (auto simp: good_ok_def add_to_goodvar_stack_def intro: tracked_add)
qed

lemma good_remove:
  assumes "tracked {1..num_vars I} (goodvar st)" and "v \<in> set (items (goodvar st))"
    and "\<forall>u\<in>set (items (goodvar st)) - {v}. 1 \<le> u \<and> u \<le> num_vars I \<and> score st u > 0"
  shows "good_ok I (remove_from_goodvar_stack v st)"
  using tracked_stack.inv_remove [OF assms(1,2)] tracked_stack.elems_remove [OF assms(1,2)] assms(3)
  by (simp add: good_ok_def remove_from_goodvar_stack_def)

lemma good_in:
  assumes "good_ok I st" and "1 \<le> v" and "v \<le> num_vars I"
  shows "index (goodvar st) v = -1 \<longleftrightarrow> v \<notin> set (items (goodvar st))"
  using assms tracked_mem [of "{1..num_vars I}" "goodvar st" v] by (simp add: good_ok_def)

lemma good_update_inc:
  assumes "good_ok I st" and "1 \<le> v" and "v \<le> num_vars I" and "0 \<le> d"
  shows "good_ok I (update_score v d AfterScoreIncrease st)"
proof -
  let ?st = "st\<lparr>score := (score st)(v := score st v + d)\<rparr>"
  from assms have "good_ok I ?st" by (fastforce simp: good_ok_def)
  with assms(2,3) show ?thesis
    using good_add [of I ?st v] by (simp add: update_score_def Let_def)
qed

lemma good_update_dec:
  assumes "good_ok I st" and "1 \<le> v" and "v \<le> num_vars I"
  shows "good_ok I (update_score v d AfterScoreDecrease st)"
proof -
  let ?st = "st\<lparr>score := (score st)(v := score st v + d)\<rparr>"
  note m = good_in [OF assms]
  show ?thesis
  proof (cases "v \<in> set (items (goodvar st)) \<and> score st v + d \<le> 0")
    case True
    then have "good_ok I (remove_from_goodvar_stack v ?st)"
      using assms(1) by (intro good_remove) (auto simp: good_ok_def)
    with True m show ?thesis by (simp add: update_score_def Let_def)
  next
    case no: False
    with assms have "good_ok I ?st" by (auto simp: good_ok_def)
    with no m show ?thesis by (auto simp: update_score_def Let_def)
  qed
qed

lemma good_update_score:
  assumes "good_ok I st" and "1 \<le> v" and "v \<le> num_vars I"
  shows "good_ok I (update_score v d (if d > 0 then AfterScoreIncrease else AfterScoreDecrease) st)"
  using good_update_inc [OF assms] good_update_dec [OF assms] by simp

lemma good_neighbor_scores:
  assumes "indexed_inst I" and "c < num_clauses I" and "good_ok I st"
  shows "good_ok I (update_clause_neighbor_scores I c x old new True st)"
proof -
  define d where "d = phase_delta (clause_true_lit_thres I c) (unit_weight st c) old new"
  define su where "su = (if d > 0 then AfterScoreIncrease else AfterScoreDecrease)"
  have "good_ok I (update_score (var_num l) d su s)" if "l \<in> set (clause_lit I c)" "good_ok I s" for l s
    unfolding su_def using that wf_inst_lit [OF assms(1,2)] by (intro good_update_score)
  then show ?thesis
    unfolding update_clause_neighbor_scores_def Let_def d_def [symmetric] if_True su_def [symmetric]
    by (intro fold_invariant_mem [where P = "good_ok I"] assms(3)) auto
qed

lemma good_one_flip:
  assumes "indexed_inst I" and "clause_num l < num_clauses I" and "good_ok I st"
  shows "good_ok I (update_one_flip_occurrence I x True l st)"
proof -
  have "good_ok I (update_count_for_occurrence I x l s) = good_ok I s" for s
    by (simp add: good_ok_def)
  then show ?thesis
    using good_neighbor_scores [OF assms] assms(3) by (simp add: update_one_flip_occurrence_def Let_def)
qed

lemma goodvar_neighbor_scores_False [simp]:
  "goodvar (update_clause_neighbor_scores I c x old new False st) = goodvar st"
  unfolding update_clause_neighbor_scores_def Let_def
  by (rule fold_unchanged) (simp add: update_score_def Let_def)

lemma goodvar_one_flip_False [simp]:
  "goodvar (update_one_flip_occurrence I x False l st) = goodvar st"
  by (simp add: update_one_flip_occurrence_def Let_def)

text \<open>Removing the bad variables from the top of the stack downwards: the positions from
  \<open>i\<close> on hold good variables already.\<close>

lemma drop_if_bad_fields [simp]:
  "score (drop_if_bad i st) = score st" "cur_soln (drop_if_bad i st) = cur_soln st"
  "sat_count (drop_if_bad i st) = sat_count st" "unit_weight (drop_if_bad i st) = unit_weight st"
  "hardunsat (drop_if_bad i st) = hardunsat st" "cardsat (drop_if_bad i st) = cardsat st"
  "hard_unsat_nb (drop_if_bad i st) = hard_unsat_nb st" "var_neighbor (drop_if_bad i st) = var_neighbor st"
  by (simp_all add: drop_if_bad_def Let_def)

lemma add_if_good_fields [simp]:
  "score (add_if_good v st) = score st" "cur_soln (add_if_good v st) = cur_soln st"
  "sat_count (add_if_good v st) = sat_count st" "unit_weight (add_if_good v st) = unit_weight st"
  "hardunsat (add_if_good v st) = hardunsat st" "cardsat (add_if_good v st) = cardsat st"
  "hard_unsat_nb (add_if_good v st) = hard_unsat_nb st"
  by (simp_all add: add_if_good_def add_to_goodvar_stack_def)

lemma drop_step:
  assumes "tracked D (goodvar st)" and "i < fill_pointer (goodvar st)"
    and "\<forall>j. Suc i \<le> j \<and> j < fill_pointer (goodvar st) \<longrightarrow> score st (items (goodvar st) ! j) > 0"
  defines "st' \<equiv> drop_if_bad i st"
  shows "tracked D (goodvar st') \<and> i \<le> fill_pointer (goodvar st')
    \<and> (\<forall>j. i \<le> j \<and> j < fill_pointer (goodvar st') \<longrightarrow> score st (items (goodvar st') ! j) > 0)
    \<and> {v \<in> set (items (goodvar st')). score st v > 0} = {v \<in> set (items (goodvar st)). score st v > 0}"
proof (cases "score st (items (goodvar st) ! i) \<le> 0")
  case False
  then have "st' = st" by (simp add: st'_def drop_if_bad_def Let_def)
  with False assms(1,2,3) show ?thesis
    by (auto simp: not_le less_eq_Suc_le) (metis Suc_leI le_antisym not_le)
next
  case True
  let ?g = "goodvar st" and ?v = "items (goodvar st) ! i"
  have ok: "stack_ok ?g" and mem: "?v \<in> set (items ?g)" using assms(1,2) by (auto simp: tracked_def)
  have gv: "goodvar st' = stack_remove ?v ?g"
    unfolding st'_def drop_if_bad_def Let_def
    using True by (simp add: stack_remove_at_index [OF ok assms(2) refl] del: items_stack_remove)
  have it: "items (goodvar st') = (butlast (items ?g))[i := last (items ?g)]"
    using stack_okD [OF ok assms(2)] by (simp add: gv)
  have pos: "0 < score st (items (goodvar st') ! j)" if j: "i \<le> j" "j < fill_pointer (goodvar st')" for j
  proof (cases "j = i")
    case eq: True
    with j it have "Suc i \<le> fill_pointer ?g - 1" and "items (goodvar st') ! j = last (items ?g)" by auto
    moreover from this have "last (items ?g) = items ?g ! (fill_pointer ?g - 1)"
      by (metis last_conv_nth list.size(3) not_less_eq_eq diff_0_eq_0 le0)
    ultimately show ?thesis using assms(2,3) by simp
  next
    case False
    with j it have "items (goodvar st') ! j = items ?g ! j" and "Suc i \<le> j" "j < fill_pointer ?g"
      by (auto simp: nth_butlast)
    with assms(3) show ?thesis by simp
  qed
  have "set (items (goodvar st')) = set (items ?g) - {?v}"
    unfolding gv by (rule tracked_stack.elems_remove [OF assms(1) mem])
  moreover have "A' = A - {w} \<Longrightarrow> \<not> 0 < score st w \<Longrightarrow> {v \<in> A'. 0 < score st v} = {v \<in> A. 0 < score st v}"
    for A A' w by auto
  ultimately have "{v \<in> set (items (goodvar st')). score st v > 0} = {v \<in> set (items ?g). score st v > 0}"
    using True by (meson not_less)
  moreover have "tracked D (goodvar st')"
    unfolding gv by (rule tracked_stack.inv_remove [OF assms(1) mem])
  ultimately show ?thesis using pos it assms(2) by auto
qed

lemma drop_loop:
  assumes "tracked D (goodvar st)" and "i \<le> fill_pointer (goodvar st)"
    and "\<forall>j. i \<le> j \<and> j < fill_pointer (goodvar st) \<longrightarrow> score st (items (goodvar st) ! j) > 0"
  defines "st' \<equiv> fold drop_if_bad (rev [0..<i]) st"
  shows "tracked D (goodvar st') \<and> set (items (goodvar st')) = {v \<in> set (items (goodvar st)). score st v > 0}"
  using assms(1-3) unfolding st'_def
proof (induction i arbitrary: st)
  case 0
  then show ?case by (auto simp: in_set_conv_nth)
next
  case (Suc i)
  have "i < fill_pointer (goodvar st)" using Suc.prems(2) by simp
  from drop_step [OF Suc.prems(1) this Suc.prems(3)]
  show ?case using Suc.IH [of "drop_if_bad i st"] by simp
qed

lemma add_if_good_ok:
  assumes "good_ok I st" and "1 \<le> v" and "v \<le> num_vars I"
  shows "good_ok I (add_if_good v st)
    \<and> set (items (goodvar (add_if_good v st)))
        = set (items (goodvar st)) \<union> (if score st v > 0 then {v} else {})"
  using assms good_in [OF assms] good_add [OF assms]
  by (auto simp: add_if_good_def add_to_goodvar_stack_def)

lemma add_loop:
  assumes "good_ok I st" and "\<forall>v\<in>set vs. 1 \<le> v \<and> v \<le> num_vars I"
  shows "good_ok I (fold add_if_good vs st)
    \<and> set (items (goodvar (fold add_if_good vs st)))
        = set (items (goodvar st)) \<union> {v \<in> set vs. score st v > 0}"
  using assms
proof (induction vs arbitrary: st)
  case Nil
  then show ?case by simp
next
  case (Cons v vs)
  have "1 \<le> v" "v \<le> num_vars I" using Cons.prems(2) by auto
  from add_if_good_ok [OF Cons.prems(1) this]
  show ?case using Cons.IH [of "add_if_good v st"] Cons.prems(2) by auto
qed

lemma update_goodvarstack_fields [simp]:
  "score (update_goodvarstack x st) = score st" "cur_soln (update_goodvarstack x st) = cur_soln st"
  "sat_count (update_goodvarstack x st) = sat_count st"
  "unit_weight (update_goodvarstack x st) = unit_weight st"
  "hardunsat (update_goodvarstack x st) = hardunsat st" "cardsat (update_goodvarstack x st) = cardsat st"
  "hard_unsat_nb (update_goodvarstack x st) = hard_unsat_nb st"
  by (simp_all add: update_goodvarstack_def Let_def fold_unchanged [where g = score]
      fold_unchanged [where g = cur_soln] fold_unchanged [where g = sat_count]
      fold_unchanged [where g = unit_weight] fold_unchanged [where g = hardunsat]
      fold_unchanged [where g = cardsat] fold_unchanged [where g = hard_unsat_nb])

text \<open>After the repair the stack holds good variables only, and every good neighbour of the
  flipped variable.\<close>

lemma update_goodvarstack_ok:
  assumes "tracked {1..num_vars I} (goodvar st)"
    and "set (items (goodvar st)) \<subseteq> {1..num_vars I}"
    and "\<forall>v\<in>set (var_neighbor st x). 1 \<le> v \<and> v \<le> num_vars I"
  shows "good_ok I (update_goodvarstack x st)
    \<and> set (items (goodvar (update_goodvarstack x st)))
        = {v \<in> set (items (goodvar st)) \<union> set (var_neighbor st x). score st v > 0}"
proof -
  define s where "s = fold drop_if_bad (rev [0..<fill_pointer (goodvar st)]) st"
  have s: "tracked {1..num_vars I} (goodvar s)"
    "set (items (goodvar s)) = {v \<in> set (items (goodvar st)). score st v > 0}"
    using drop_loop [OF assms(1) order.refl] unfolding s_def by auto
  have f: "score s = score st" "var_neighbor s = var_neighbor st"
    unfolding s_def by (rule fold_unchanged, simp)+
  have "good_ok I s" using s assms(2) by (auto simp: good_ok_def f)
  from add_loop [OF this] assms(3)
  show ?thesis by (auto simp: update_goodvarstack_def s_def [symmetric] f s(2))
qed

section \<open>The loop over the occurrences\<close>

lemma filter_var_lit_clause:
  assumes "indexed_inst I" and "c < num_clauses I"
  shows "filter (\<lambda>l. clause_num l = c) (var_lit I x) = filter (\<lambda>l. var_num l = x) (clause_lit I c)"
proof -
  have inner: "filter (\<lambda>l. clause_num l = c) (filter (\<lambda>l. var_num l = x) (clause_lit I c'))
      = (if c' = c then filter (\<lambda>l. var_num l = x) (clause_lit I c) else [])"
    if "c' < num_clauses I" for c'
    using wf_inst_lit(1) [OF assms(1) that] by (auto simp: filter_empty_conv intro!: filter_cong)
  have "filter (\<lambda>l. clause_num l = c) (concat (map (\<lambda>c'. filter (\<lambda>l. var_num l = x) (clause_lit I c')) [0..<n]))
      = (if c < n then filter (\<lambda>l. var_num l = x) (clause_lit I c) else [])" if "n \<le> num_clauses I" for n
    using that by (induction n) (auto simp: inner less_Suc_eq simp del: filter_filter)
  with assms show ?thesis by (simp add: indexed_inst_def occurrences_def)
qed

lemma flip_loop:
  fixes st :: ls
  assumes "\<forall>l\<in>set ls. clause_num l < num_clauses I \<and> var_num l = x" and "stacks_ok I st"
  shows "let st' = fold (update_one_flip_occurrence I x m) ls st in
      stacks_ok I st'
    \<and> (\<forall>u. u \<noteq> x \<longrightarrow> score_at I st u \<longrightarrow> score_at I st' u)
    \<and> score st' x = score st x
    \<and> (\<forall>c. sat_count st' c = sat_count st c
           + (\<Sum>l\<leftarrow>filter (\<lambda>l. clause_num l = c) ls. count_delta (cur_soln st) l))
    \<and> (m \<longrightarrow> indexed_inst I \<longrightarrow> good_ok I st \<longrightarrow> good_ok I st')
    \<and> (\<not> m \<longrightarrow> goodvar st' = goodvar st)"
  using assms
proof (induction ls arbitrary: st)
  case Nil
  then show ?case by simp
next
  case (Cons l ls)
  let ?s = "update_one_flip_occurrence I x m l st"
  have cs: "cur_soln ?s = cur_soln st" by (rule ls_restD(1)) simp
  have l: "clause_num l < num_clauses I" "var_num l = x" using Cons.prems(1) by auto
  then have cd: "(if cur_soln st x = of_bool (sense l) then 1 else -1) = count_delta (cur_soln st) l"
    by (simp add: count_delta_def lit_true_def)
  have s: "stacks_ok I ?s" using Cons.prems(2) l(1) by (rule stacks_one_flip)
  note IH = Cons.IH [OF _ s, unfolded Let_def cs]
  show ?case
    using IH Cons.prems(1) one_flip_score_at [OF l(1)] good_one_flip [OF _ l(1), where st = st and x = x]
      goodvar_one_flip_False [of I x l st]
    by (simp add: Let_def sat_count_one_flip cd l(2))
qed

section \<open>One flip\<close>

lemma flip_soln_twice [simp]: "flip_soln x (flip_soln x a) = a"
  by (simp add: flip_soln_def)

lemma score_spec_flip_other:
  assumes "u \<noteq> x"
  shows "score_spec I (flip_soln x a) sc w u = score_spec I a sc w u"
proof -
  have "clause_score I (flip_soln x a) sc w c u = clause_score I a sc w c u" for c
    using assms unfolding clause_score_def by (intro arg_cong [where f = sum_list] map_cong) auto
  then show ?thesis by (simp add: score_spec_def)
qed

text \<open>The state between the loop over the occurrences and the repair of the good stack.\<close>

definition flip_mid :: "inst \<Rightarrow> nat \<Rightarrow> bool \<Rightarrow> ls \<Rightarrow> ls" where
  "flip_mid I x m st =
     (let s = flip_update_score_multi_impl I x m (st\<lparr>cur_soln := flip_soln x (cur_soln st)\<rparr>)
      in s\<lparr>score := (score s)(x := - score st x)\<rparr>)"

lemma flip_with_neighbor_mid:
  "flip_with_neighbor I x st = update_goodvarstack x (flip_mid I x False st)"
  by (simp add: flip_with_neighbor_def flip_mid_def flip_soln_def Let_def)

lemma flip_no_neighbor_mid:
  "flip_no_neighbor I x st
     = (let s = flip_mid I x True st
        in if index (goodvar s) x \<noteq> -1 then remove_from_goodvar_stack x s else s)"
  by (simp add: flip_no_neighbor_def flip_mid_def flip_soln_def Let_def remove_from_goodvar_stack_def)

lemma flip_mid_rest:
  "ls_rest (flip_mid I x m st) = ls_rest (st\<lparr>cur_soln := flip_soln x (cur_soln st)\<rparr>)"
  by (simp add: flip_mid_def Let_def)

lemmas flip_mid_frame = ls_restD [OF flip_mid_rest, simplified]

text \<open>The loop over the occurrences of the flipped variable, from a state with correct
  counters and scores.\<close>

lemma flip_mid_ok:
  fixes m :: bool
  assumes wf: "wf_inst I" and x: "1 \<le> x" "x \<le> num_vars I"
    and inv: "soln_ok I st" "counts_ok I st" "scores_ok I st" "stacks_ok I st"
  defines "s \<equiv> flip_mid I x m st"
  shows "counts_ok I s \<and> scores_ok I s \<and> stacks_ok I s \<and> soln_ok I s
    \<and> (\<not> m \<longrightarrow> goodvar s = goodvar st)
    \<and> (m \<longrightarrow> good_ok I st \<longrightarrow> good_ok I (s\<lparr>score := (score s)(x := score st x)\<rparr>))"
proof -
  define a where "a = cur_soln st"
  define st1 where "st1 = st\<lparr>cur_soln := flip_soln x a\<rparr>"
  define t where "t = flip_update_score_multi_impl I x m st1"
  have ix: "indexed_inst I" using wf by (simp add: wf_inst_def)
  have s: "s = t\<lparr>score := (score t)(x := - score st x)\<rparr>"
    by (simp add: s_def flip_mid_def t_def st1_def a_def Let_def)
  have ax: "a x = 0 \<or> a x = 1" using inv(1) x by (simp add: soln_ok_def a_def)
  have occ: "\<forall>l\<in>set (var_lit I x). clause_num l < num_clauses I \<and> var_num l = x"
    using var_lit_mem [OF ix] by blast
  have "stacks_ok I st1" using inv(4) by (simp add: st1_def stacks_ok_def unsat_clauses_def)
  note loop = flip_loop [OF occ this, of m, folded flip_update_score_multi_impl_def, folded t_def, unfolded Let_def]
  have fr: "cur_soln t = flip_soln x a" "unit_weight t = unit_weight st"
    using ls_restD(1,2) [of t st1] by (simp_all add: t_def st1_def)
  have cnt: "sat_count t c = true_count (flip_soln x a) (clause_lit I c)" if c: "c < num_clauses I" for c
    using loop inv(2) c filter_var_lit_clause [OF ix c]
      true_count_flip [where a = a and v = x and ls = "clause_lit I c", OF ax]
    by (simp add: st1_def counts_ok_def a_def)
  have "counts_ok I s" using cnt by (simp add: counts_ok_def s fr)
  moreover have "scores_ok I s"
    unfolding scores_ok_def
  proof
    fix u assume u: "u \<in> {1..num_vars I}"
    show "score_at I s u"
    proof (cases "u = x")
      case True
      have "score st x = violation I (unit_weight st) a - violation I (unit_weight st) (flip_soln x a)"
        using inv(2,3) x score_spec_violation [where a = a and v = x, OF wf ax]
        by (simp add: scores_ok_def score_at_def counts_ok_def a_def)
      moreover have "flip_soln x a x = 0 \<or> flip_soln x a x = 1" using ax by (auto simp: flip_soln_def)
      from score_spec_violation [where a = "flip_soln x a" and v = x, OF wf this, of "sat_count t" "unit_weight st"]
      have "score_spec I (flip_soln x a) (sat_count t) (unit_weight st) x
          = violation I (unit_weight st) (flip_soln x a) - violation I (unit_weight st) a"
        using cnt by simp
      ultimately show ?thesis by (simp add: True score_at_def s fr)
    next
      case False
      have "score_at I st1 u"
        using inv(3) u score_spec_flip_other [OF False]
        by (simp add: scores_ok_def score_at_def st1_def a_def)
      with loop False have "score_at I t u" by blast
      with False show ?thesis by (simp add: score_at_def s)
    qed
  qed
  moreover have "stacks_ok I s" using loop by (simp add: s stacks_ok_def unsat_clauses_def)
  moreover have "soln_ok I s" using inv(1) by (auto simp: soln_ok_def s fr flip_soln_def a_def)
  moreover have "\<not> m \<longrightarrow> goodvar s = goodvar st" using loop by (simp add: s st1_def)
  moreover have "m \<longrightarrow> good_ok I st \<longrightarrow> good_ok I (s\<lparr>score := (score s)(x := score st x)\<rparr>)"
  proof (intro impI)
    assume m and "good_ok I st"
    then have "good_ok I st1" by (simp add: good_ok_def st1_def)
    with loop \<open>m\<close> ix have "good_ok I t" by blast
    moreover have "score t x = score st x" using loop by (simp add: st1_def)
    ultimately show "good_ok I (s\<lparr>score := (score s)(x := score st x)\<rparr>)"
      by (auto simp: s good_ok_def)
  qed
  ultimately show ?thesis by blast
qed

lemma ls_inv_parts:
  assumes "soln_ok I s" "counts_ok I s" "scores_ok I s" "stacks_ok I s" "good_ok I s"
    and "ls_rest s = ls_rest (t\<lparr>cur_soln := a\<rparr>)" and "ls_inv I t"
  shows "ls_inv I s"
  using assms(1-5,7) ls_restD [OF assms(6)]
  by (simp add: ls_inv_def weights_ok_def scratch_ok_def neighbors_ok_def)

lemma flip_with_neighbor_inv:
  assumes wf: "wf_inst I" and x: "1 \<le> x" "x \<le> num_vars I"
    and inv: "ls_inv I st" and mode: "materialized_neighbor_mode st"
  shows "ls_inv I (flip_with_neighbor I x st)"
proof -
  define s where "s = flip_mid I x False st"
  have mid: "counts_ok I s" "scores_ok I s" "stacks_ok I s" "soln_ok I s" "goodvar s = goodvar st"
    using flip_mid_ok [OF wf x, of st False] inv by (simp_all add: s_def ls_inv_def)
  have nb: "\<forall>v\<in>set (var_neighbor s x). 1 \<le> v \<and> v \<le> num_vars I"
    using inv mode x wf
    by (auto simp: s_def flip_mid_frame ls_inv_def neighbors_ok_def neighbors_of_def wf_inst_def
        indexed_inst_def)
  have g: "tracked {1..num_vars I} (goodvar s)" "set (items (goodvar s)) \<subseteq> {1..num_vars I}"
    using inv by (auto simp: mid(5) ls_inv_def good_ok_def)
  let ?t = "update_goodvarstack x s"
  have "ls_rest ?t = ls_rest (st\<lparr>cur_soln := flip_soln x (cur_soln st)\<rparr>)"
    by (simp add: s_def flip_mid_rest)
  note rest = this
  have "good_ok I ?t" using update_goodvarstack_ok [OF g nb] by simp
  then have "ls_inv I ?t"
    using mid
    by (intro ls_inv_parts [OF _ _ _ _ _ rest inv])
      (simp_all add: soln_ok_def counts_ok_def scores_ok_def score_at_def stacks_ok_def unsat_clauses_def)
  then show ?thesis by (simp add: flip_with_neighbor_mid s_def)
qed

lemma flip_no_neighbor_inv:
  assumes wf: "wf_inst I" and x: "1 \<le> x" "x \<le> num_vars I" and inv: "ls_inv I st"
  shows "ls_inv I (flip_no_neighbor I x st)"
proof -
  define s where "s = flip_mid I x True st"
  define t where "t = (if index (goodvar s) x \<noteq> -1 then remove_from_goodvar_stack x s else s)"
  have mid: "counts_ok I s" "scores_ok I s" "stacks_ok I s" "soln_ok I s"
    "good_ok I (s\<lparr>score := (score s)(x := score st x)\<rparr>)"
    using flip_mid_ok [OF wf x, of st True] inv by (simp_all add: s_def ls_inv_def)
  have mem: "index (goodvar s) x = -1 \<longleftrightarrow> x \<notin> set (items (goodvar s))"
    using good_in [OF mid(5) x] by simp
  have g: "good_ok I t"
  proof (cases "x \<in> set (items (goodvar s))")
    case True
    then have "good_ok I (remove_from_goodvar_stack x s)"
      using mid(5) by (intro good_remove) (auto simp: good_ok_def split: if_splits)
    with True mem show ?thesis by (simp add: t_def)
  next
    case False
    with mid(5) mem show ?thesis by (auto simp: t_def good_ok_def split: if_splits)
  qed
  have rest: "ls_rest t = ls_rest (st\<lparr>cur_soln := flip_soln x (cur_soln st)\<rparr>)"
    by (simp add: t_def s_def flip_mid_rest remove_from_goodvar_stack_def)
  have "ls_inv I t"
    using mid g
    by (intro ls_inv_parts [OF _ _ _ _ _ rest inv])
      (simp_all add: t_def remove_from_goodvar_stack_def soln_ok_def counts_ok_def scores_ok_def
        score_at_def stacks_ok_def unsat_clauses_def)
  then show ?thesis unfolding flip_no_neighbor_mid t_def s_def Let_def .
qed

lemma flip_inv:
  assumes "wf_inst I" and "1 \<le> x" "x \<le> num_vars I" and "ls_inv I st"
  shows "ls_inv I (flip I x st)"
  using assms by (simp add: flip_def flip_with_neighbor_inv flip_no_neighbor_inv)

lemma flip_rest: "ls_rest (flip I x st) = ls_rest (st\<lparr>cur_soln := flip_soln x (cur_soln st)\<rparr>)"
  by (simp add: flip_def flip_with_neighbor_mid flip_no_neighbor_mid flip_mid_rest Let_def
      remove_from_goodvar_stack_def)

lemmas flip_frame = ls_restD [OF flip_rest, simplified]

end
