(* ===== verification/Ls_Weight.thy ===== *)
theory Ls_Weight
  imports Ls_Flip_Inv
begin

text \<open>
  Clause weighting (src/LocalSearch/weight.cpp): \<open>increase_weights\<close> and the two routines
  that the released profile keeps but does not call, \<open>smooth_weights\<close> and
  \<open>update_weight_score_multi\<close>.  Every one of them changes weights and scores together; the
  lemmas show that the scores remain the decrease of the violation under the new weights.
\<close>

section \<open>increase\_weights\<close>

text \<open>One literal of an unsatisfied clause: remember the variable once, and accumulate the
  score change.  \<open>touched\<close> is the scratch list \<open>weight_touched_vars\<close>.\<close>

definition touch_literal :: "int \<Rightarrow> lit \<Rightarrow> nat list \<times> ls \<Rightarrow> nat list \<times> ls" where
  "touch_literal delta_weight l = (\<lambda>(touched, st).
     (let v = var_num l;
          (touched, st) =
            (if \<not> weight_is_touched st v
             then (touched @ [v], st\<lparr>weight_is_touched := (weight_is_touched st)(v := True)\<rparr>)
             else (touched, st));
          d = (if lit_true (cur_soln st) l then - delta_weight else delta_weight)
      in (touched, st\<lparr>weight_delta_score := (weight_delta_score st)(v := weight_delta_score st v + d)\<rparr>)))"

definition bump_clause :: "inst \<Rightarrow> ls_par \<Rightarrow> nat \<Rightarrow> nat list \<times> ls \<Rightarrow> nat list \<times> ls" where
  "bump_clause I P c = (\<lambda>(touched, st).
     (let old_weight = unit_weight st c;
          st = st\<lparr>unit_weight := (unit_weight st)(c := old_weight + h_inc P)\<rparr>;
          delta_weight = unit_weight st c - old_weight
      in fold (touch_literal delta_weight) (clause_lit I c) (touched, st)))"

definition apply_delta :: "nat \<Rightarrow> ls \<Rightarrow> ls" where
  "apply_delta v st =
     (let delta = weight_delta_score st v;
          st = st\<lparr>weight_delta_score := (weight_delta_score st)(v := 0),
                  weight_is_touched := (weight_is_touched st)(v := False)\<rparr>
      in if delta = 0 then st
         else update_score v delta (if delta > 0 then AfterScoreIncrease else AfterScoreDecrease) st)"

definition increase_weights :: "inst \<Rightarrow> ls_par \<Rightarrow> ls \<Rightarrow> ls" where
  "increase_weights I P st =
     (let (touched, st) = fold (bump_clause I P) (items (hardunsat st)) ([], st);
          st = fold apply_delta touched st;
          st = st\<lparr>delta_total_weight := delta_total_weight st + int (fill_pointer (hardunsat st))\<rparr>
      in if delta_total_weight st \<ge> int (num_clauses I)
         then st\<lparr>ave_weight := ave_weight st + 1,
                 delta_total_weight := delta_total_weight st - int (num_clauses I)\<rparr>
         else st)"

definition update_clause_weights :: "inst \<Rightarrow> ls_par \<Rightarrow> ls \<Rightarrow> ls" where
  "update_clause_weights I P st = increase_weights I P st"

section \<open>smooth\_weights and update\_weight\_score\_multi\<close>

text \<open>The new weight \<open>unit_weight * p_scale + scale_ave\<close> is computed in single precision
  and truncated.\<close>

definition rescale_weight :: "ls_par \<Rightarrow> int \<Rightarrow> int" where
  "rescale_weight P w =
     trunc (f32 (f32 (f32 (of_int w) * p_scale P) + f32 (of_int (scale_ave P))))"

definition smooth_clause :: "inst \<Rightarrow> (int \<Rightarrow> int) \<Rightarrow> nat \<Rightarrow> ls \<Rightarrow> ls" where
  "smooth_clause I rescale c st =
     (if unit_weight st c = 1 \<and> sat_count st c < clause_true_lit_thres I c then st
      else
        let old_weight = unit_weight st c;
            st = st\<lparr>unit_weight := (unit_weight st)(c := rescale old_weight)\<rparr>
        in fold (\<lambda>l st.
             let b = lit_true (cur_soln st) l;
                 old_contribution =
                   clause_score_contribution b (sat_count st c) (clause_true_lit_thres I c) old_weight;
                 new_contribution =
                   clause_score_contribution b (sat_count st c) (clause_true_lit_thres I c) (unit_weight st c);
                 delta = new_contribution - old_contribution
             in if delta = 0 then st
                else update_score (var_num l) delta
                       (if delta > 0 then AfterScoreIncrease else AfterScoreDecrease) st)
           (clause_lit I c) st)"

definition smooth_weights :: "inst \<Rightarrow> ls_par \<Rightarrow> ls \<Rightarrow> ls" where
  "smooth_weights I P st = fold (smooth_clause I (rescale_weight P)) [0..<num_clauses I] st"

definition update_weight_score_multi :: "inst \<Rightarrow> ls_par \<Rightarrow> nat \<Rightarrow> ls \<Rightarrow> ls" where
  "update_weight_score_multi I P c st =
     fold (\<lambda>l st.
        let gap = clause_true_lit_thres I c - sat_count st c
        in if \<not> lit_true (cur_soln st) l
           then update_score (var_num l) (violation_make_contribution (h_inc P) gap) AfterScoreIncrease st
           else update_score (var_num l) (- violation_make_contribution (h_inc P) (gap + 1)) AfterScoreDecrease st)
      (clause_lit I c) st"

section \<open>Contributions are linear in the weight\<close>

lemma contribution_add:
  "clause_score_contribution b s t (w + d) = clause_score_contribution b s t w + clause_score_contribution b s t d"
  by (simp add: contribution_cases)

lemma clause_score_weight:
  "clause_score I a sc (w(c := w c + d)) c u
     = clause_score I a sc w c u + (\<Sum>l\<leftarrow>clause_lit I c. if var_num l = u
          then clause_score_contribution (lit_true a l) (sc c) (clause_true_lit_thres I c) d else 0)"
  unfolding clause_score_def sum_list_map_add [symmetric]
  by (rule arg_cong [where f = sum_list]) (auto simp: contribution_add)

lemma score_spec_update_weight:
  assumes "c < num_clauses I"
  shows "score_spec I a sc (w(c := w c + d)) u
    = score_spec I a sc w u + (\<Sum>l\<leftarrow>clause_lit I c. if var_num l = u
          then clause_score_contribution (lit_true a l) (sc c) (clause_true_lit_thres I c) d else 0)"
proof -
  have other: "clause_score I a sc (w(c := w')) c' u = clause_score I a sc w c' u" if "c' \<noteq> c" for c' w'
    using that by (simp add: clause_score_def cong: if_cong)
  have "score_spec I a sc v u = (\<Sum>c'\<in>{..<num_clauses I} - {c}. clause_score I a sc v c' u)
      + clause_score I a sc v c u" for v
    unfolding score_spec_def using assms by (simp add: sum.remove [of _ c])
  then show ?thesis by (simp add: other clause_score_weight)
qed

section \<open>increase\_weights keeps the invariant\<close>

text \<open>\<open>pending\<close>: the scores are right once the accumulated changes are applied.\<close>

definition pending :: "inst \<Rightarrow> nat list \<Rightarrow> ls \<Rightarrow> bool" where
  "pending I vs st \<longleftrightarrow>
     (\<forall>u\<in>{1..num_vars I}. score st u + weight_delta_score st u
        = score_spec I (cur_soln st) (sat_count st) (unit_weight st) u)
   \<and> distinct vs \<and> set vs \<subseteq> {1..num_vars I}
   \<and> (\<forall>u. weight_is_touched st u \<longleftrightarrow> u \<in> set vs)
   \<and> (\<forall>u. u \<notin> set vs \<longrightarrow> weight_delta_score st u = 0)"

text \<open>\<open>wd_rest\<close> blanks what \<open>increase_weights\<close> may write in its first loop.\<close>

definition wd_rest :: "ls \<Rightarrow> ls" where
  "wd_rest st = st\<lparr>unit_weight := (\<lambda>_. 0), weight_delta_score := (\<lambda>_. 0), weight_is_touched := (\<lambda>_. False)\<rparr>"

lemma wd_restD:
  assumes "wd_rest s = wd_rest t"
  shows "score s = score t" "cur_soln s = cur_soln t" "sat_count s = sat_count t"
    "hardunsat s = hardunsat t" "cardsat s = cardsat t" "goodvar s = goodvar t"
    "hard_unsat_nb s = hard_unsat_nb t" "var_neighbor s = var_neighbor t"
    "neighbor_flag s = neighbor_flag t" "sat_var s = sat_var t"
    "materialized_neighbor_mode s = materialized_neighbor_mode t"
    "time_stamp s = time_stamp t" "m_prng_state s = m_prng_state t"
    "ls_step s = ls_step t" "tries s = tries t" "total_step s = total_step t"
    "rand_calls s = rand_calls t" "minimum_hard_unsat_nb s = minimum_hard_unsat_nb t"
  using assms by (cases s; cases t; simp add: wd_rest_def)+

lemma touch_literals:
  assumes "\<forall>l\<in>set ls. 1 \<le> var_num l \<and> var_num l \<le> num_vars I"
    and "distinct vs" "set vs \<subseteq> {1..num_vars I}" "\<forall>u. weight_is_touched st u \<longleftrightarrow> u \<in> set vs"
    and "\<forall>u. u \<notin> set vs \<longrightarrow> weight_delta_score st u = 0"
    and "fold (touch_literal d) ls (vs, st) = (vs', st')"
  shows "distinct vs' \<and> set vs' \<subseteq> {1..num_vars I} \<and> (\<forall>u. weight_is_touched st' u \<longleftrightarrow> u \<in> set vs')
    \<and> (\<forall>u. u \<notin> set vs' \<longrightarrow> weight_delta_score st' u = 0)
    \<and> wd_rest st' = wd_rest st \<and> unit_weight st' = unit_weight st
    \<and> (\<forall>u. weight_delta_score st' u = weight_delta_score st u
         + (\<Sum>l\<leftarrow>ls. if var_num l = u then (if lit_true (cur_soln st) l then - d else d) else 0))"
  using assms
proof (induction ls arbitrary: vs st)
  case Nil
  then show ?case by simp
next
  case (Cons l ls)
  obtain vs1 st1 where s1: "touch_literal d l (vs, st) = (vs1, st1)" by fastforce
  then have st1: "vs1 = (if var_num l \<in> set vs then vs else vs @ [var_num l])"
    "st1 = st\<lparr>weight_is_touched := (weight_is_touched st)(var_num l := True),
       weight_delta_score := (weight_delta_score st)(var_num l := weight_delta_score st (var_num l)
         + (if lit_true (cur_soln st) l then - d else d))\<rparr>"
    using Cons.prems(4) by (auto simp: touch_literal_def Let_def split: if_splits intro!: ls.equality)
  have pre: "distinct vs1" "set vs1 \<subseteq> {1..num_vars I}" "\<forall>u. weight_is_touched st1 u \<longleftrightarrow> u \<in> set vs1"
    "\<forall>u. u \<notin> set vs1 \<longrightarrow> weight_delta_score st1 u = 0"
    using Cons.prems by (auto simp: st1)
  have "fold (touch_literal d) ls (vs1, st1) = (vs', st')" using Cons.prems(6) s1 by simp
  moreover have "cur_soln st1 = cur_soln st" by (simp add: st1(2))
  ultimately show ?case
    using Cons.IH [OF _ pre] Cons.prems(1) by (auto simp: st1(2) wd_rest_def cong: if_cong)
qed

lemma bump_clause_pending:
  assumes ix: "indexed_inst I" and c: "c < num_clauses I" and u: "sat_count st c < clause_true_lit_thres I c"
    and p: "pending I vs st" and b: "bump_clause I P c (vs, st) = (vs', st')"
  shows "pending I vs' st' \<and> wd_rest st' = wd_rest st
    \<and> unit_weight st' = (unit_weight st)(c := unit_weight st c + h_inc P)"
proof -
  define s where "s = st\<lparr>unit_weight := (unit_weight st)(c := unit_weight st c + h_inc P)\<rparr>"
  have f: "fold (touch_literal (h_inc P)) (clause_lit I c) (vs, s) = (vs', st')"
    using b by (simp add: bump_clause_def s_def Let_def)
  have vars: "\<forall>l\<in>set (clause_lit I c). 1 \<le> var_num l \<and> var_num l \<le> num_vars I"
    using wf_inst_lit [OF ix c] by blast
  have pre: "distinct vs" "set vs \<subseteq> {1..num_vars I}" "\<forall>u. weight_is_touched s u \<longleftrightarrow> u \<in> set vs"
    "\<forall>u. u \<notin> set vs \<longrightarrow> weight_delta_score s u = 0"
    using p by (auto simp: pending_def s_def)
  have "cur_soln s = cur_soln st" by (simp add: s_def)
  note t = touch_literals [OF vars pre f, unfolded this]
  have w: "wd_rest st' = wd_rest st" using t by (simp add: s_def wd_rest_def)
  have "score_spec I (cur_soln st) (sat_count st) ((unit_weight st)(c := unit_weight st c + h_inc P)) v
    = score_spec I (cur_soln st) (sat_count st) (unit_weight st) v
      + (\<Sum>l\<leftarrow>clause_lit I c. if var_num l = v then (if lit_true (cur_soln st) l then - h_inc P else h_inc P) else 0)" for v
    unfolding score_spec_update_weight [OF c] using u by (simp add: contribution_cases cong: if_cong)
  then have "pending I vs' st'"
    using t p wd_restD [OF w] by (auto simp: pending_def s_def)
  with t w show ?thesis by (simp add: s_def)
qed

lemma bump_loop:
  assumes ix: "indexed_inst I" and cs: "\<forall>c\<in>set cs. c \<in> unsat_clauses I st"
    and p: "pending I vs st" and w: "weights_ok I st" and h: "0 \<le> h_inc P"
    and d: "distinct cs" and b: "fold (bump_clause I P) cs (vs, st) = (vs', st')"
  shows "pending I vs' st' \<and> wd_rest st' = wd_rest st \<and> weights_ok I st'
    \<and> unit_weight st' = (\<lambda>c. unit_weight st c + (if c \<in> set cs then h_inc P else 0))"
  using cs p w d b
proof (induction cs arbitrary: vs st)
  case Nil
  then show ?case by simp
next
  case (Cons c cs)
  obtain vs1 st1 where s1: "bump_clause I P c (vs, st) = (vs1, st1)" by fastforce
  have c: "c < num_clauses I" "sat_count st c < clause_true_lit_thres I c"
    using Cons.prems(1) by (auto simp: unsat_clauses_def)
  note step = bump_clause_pending [OF ix c Cons.prems(2) s1]
  have "weights_ok I st1" using step Cons.prems(3) h by (auto simp: weights_ok_def)
  moreover have "unsat_clauses I st1 = unsat_clauses I st"
    using step wd_restD(3) [of st1 st] by (simp add: unsat_clauses_def)
  ultimately have IH: "pending I vs' st' \<and> wd_rest st' = wd_rest st1 \<and> weights_ok I st'
    \<and> unit_weight st' = (\<lambda>c. unit_weight st1 c + (if c \<in> set cs then h_inc P else 0))"
    using Cons.IH [of st1 vs1] Cons.prems s1 step by simp
  moreover have "(\<lambda>x. unit_weight st1 x + (if x \<in> set cs then h_inc P else 0))
      = (\<lambda>x. unit_weight st x + (if x \<in> set (c # cs) then h_inc P else 0))"
    using step Cons.prems(4) by (auto simp: fun_eq_iff)
  ultimately show ?case using step by simp
qed

text \<open>\<open>ap_rest\<close> blanks what the second loop may write.\<close>

definition ap_rest :: "ls \<Rightarrow> ls" where
  "ap_rest st = st\<lparr>score := (\<lambda>_. 0), goodvar := \<lparr>items = [], index = (\<lambda>_. 0)\<rparr>,
     weight_delta_score := (\<lambda>_. 0), weight_is_touched := (\<lambda>_. False)\<rparr>"

lemma ap_restD:
  assumes "ap_rest s = ap_rest t"
  shows "cur_soln s = cur_soln t" "sat_count s = sat_count t" "unit_weight s = unit_weight t"
    "hardunsat s = hardunsat t" "cardsat s = cardsat t"
    "hard_unsat_nb s = hard_unsat_nb t" "var_neighbor s = var_neighbor t"
    "neighbor_flag s = neighbor_flag t" "sat_var s = sat_var t"
    "materialized_neighbor_mode s = materialized_neighbor_mode t"
    "time_stamp s = time_stamp t" "m_prng_state s = m_prng_state t"
    "ls_step s = ls_step t" "tries s = tries t" "total_step s = total_step t"
    "rand_calls s = rand_calls t" "minimum_hard_unsat_nb s = minimum_hard_unsat_nb t"
  using assms by (cases s; cases t; simp add: ap_rest_def)+

lemma ap_rest_apply_delta [simp]: "ap_rest (apply_delta v st) = ap_rest st"
  by (simp add: apply_delta_def update_score_def ap_rest_def Let_def add_to_goodvar_stack_def
      remove_from_goodvar_stack_def)

lemma apply_delta_fields:
  "score (apply_delta v st) = (score st)(v := score st v + weight_delta_score st v)"
  "weight_delta_score (apply_delta v st) = (weight_delta_score st)(v := 0)"
  "weight_is_touched (apply_delta v st) = (weight_is_touched st)(v := False)"
  by (auto simp: apply_delta_def Let_def) (simp_all add: update_score_def Let_def
      add_to_goodvar_stack_def remove_from_goodvar_stack_def split: ScoreStackUpdate.split)

lemma apply_delta_good:
  assumes "good_ok I st" and "1 \<le> v" "v \<le> num_vars I"
  shows "good_ok I (apply_delta v st)"
proof -
  have "good_ok I (st\<lparr>weight_delta_score := d, weight_is_touched := t\<rparr>)" for d t
    using assms(1) by (simp add: good_ok_def)
  then show ?thesis
    using good_update_score [OF _ assms(2,3)] by (simp add: apply_delta_def Let_def)
qed

lemma apply_loop:
  assumes "pending I vs st" and "good_ok I st"
  shows "pending I [] (fold apply_delta vs st) \<and> good_ok I (fold apply_delta vs st)
    \<and> ap_rest (fold apply_delta vs st) = ap_rest st"
  using assms
proof (induction vs arbitrary: st)
  case Nil
  then show ?case by simp
next
  case (Cons v vs)
  have v: "1 \<le> v" "v \<le> num_vars I" using Cons.prems(1) by (auto simp: pending_def)
  have "pending I vs (apply_delta v st)"
    using Cons.prems(1) ap_restD [OF ap_rest_apply_delta, of v st]
    by (auto simp: pending_def apply_delta_fields)
  moreover have "good_ok I (apply_delta v st)" using Cons.prems(2) v by (rule apply_delta_good)
  ultimately show ?case using Cons.IH by simp
qed

lemma increase_weights_inv:
  assumes wf: "wf_inst I" and inv: "ls_inv I st" and h: "0 \<le> h_inc P"
  shows "ls_inv I (increase_weights I P st)
    \<and> cur_soln (increase_weights I P st) = cur_soln st
    \<and> hardunsat (increase_weights I P st) = hardunsat st
    \<and> materialized_neighbor_mode (increase_weights I P st) = materialized_neighbor_mode st
    \<and> unit_weight (increase_weights I P st)
        = (\<lambda>c. unit_weight st c + (if c \<in> unsat_clauses I st then h_inc P else 0))"
proof -
  have ix: "indexed_inst I" using wf by (simp add: wf_inst_def)
  obtain vs s where s: "fold (bump_clause I P) (items (hardunsat st)) ([], st) = (vs, s)" by fastforce
  define t where "t = fold apply_delta vs s"
  have p: "pending I [] st"
    using inv by (auto simp: ls_inv_def pending_def scratch_ok_def scores_ok_def score_at_def)
  have "\<forall>c\<in>set (items (hardunsat st)). c \<in> unsat_clauses I st" and "weights_ok I st"
    and "distinct (items (hardunsat st))" and us: "set (items (hardunsat st)) = unsat_clauses I st"
    using inv by (auto simp: ls_inv_def stacks_ok_def stack_ok_def)
  note bump = bump_loop [OF ix this(1) p this(2) h this(3) s]
  have wd: "wd_rest s = wd_rest st" using bump by blast
  have "good_ok I s" using inv by (simp add: ls_inv_def good_ok_def wd_restD [OF wd])
  note app = apply_loop [OF _ this, of vs, folded t_def]
  have ap: "ap_rest t = ap_rest s" and pt: "pending I [] t" and gt: "good_ok I t"
    using app bump by blast+
  note fr = ap_restD [OF ap] wd_restD [OF wd]
  have "ls_inv I t"
    using inv pt gt bump
    by (auto simp: ls_inv_def fr soln_ok_def counts_ok_def scores_ok_def score_at_def stacks_ok_def
        unsat_clauses_def weights_ok_def scratch_ok_def neighbors_ok_def pending_def)
  moreover have "ls_inv I (t\<lparr>delta_total_weight := a, ave_weight := b\<rparr>) = ls_inv I t" for a b
    by (simp add: ls_inv_def soln_ok_def counts_ok_def scores_ok_def score_at_def stacks_ok_def
        unsat_clauses_def weights_ok_def scratch_ok_def neighbors_ok_def good_ok_def)
  moreover obtain a b where "increase_weights I P st = t\<lparr>delta_total_weight := a, ave_weight := b\<rparr>"
  proof
    show "increase_weights I P st
      = t\<lparr>delta_total_weight := delta_total_weight (increase_weights I P st),
          ave_weight := ave_weight (increase_weights I P st)\<rparr>"
      by (simp add: increase_weights_def s t_def [symmetric] Let_def)
  qed
  moreover have "unit_weight t = (\<lambda>c. unit_weight st c + (if c \<in> unsat_clauses I st then h_inc P else 0))"
    using bump by (simp add: fr us)
  ultimately show ?thesis by (simp add: fr)
qed

section \<open>The two other weight routines\<close>

text \<open>Both walk over one row and change the score of each literal's variable; \<open>g\<close> is the
  change per literal.\<close>

lemma score_row_fold:
  assumes "\<And>l s. l \<in> set ls \<Longrightarrow> ls_rest s = ls_rest st \<Longrightarrow> sat_count s = sat_count st \<Longrightarrow>
      \<exists>su. f l s = update_score (var_num l) (g l) su s
        \<and> (su = AfterScoreDecrease \<or> su = AfterScoreIncrease \<and> 0 \<le> g l) \<or> f l s = s \<and> g l = 0"
    and "\<forall>l\<in>set ls. 1 \<le> var_num l \<and> var_num l \<le> num_vars I"
  shows "score (fold f ls st) u = score st u + (\<Sum>l\<leftarrow>ls. if var_num l = u then g l else 0)
    \<and> ls_rest (fold f ls st) = ls_rest st \<and> sat_count (fold f ls st) = sat_count st
    \<and> hardunsat (fold f ls st) = hardunsat st \<and> cardsat (fold f ls st) = cardsat st
    \<and> hard_unsat_nb (fold f ls st) = hard_unsat_nb st
    \<and> (good_ok I st \<longrightarrow> good_ok I (fold f ls st))"
  using assms
proof (induction ls arbitrary: st)
  case Nil
  then show ?case by simp
next
  case (Cons l ls)
  have l: "1 \<le> var_num l" "var_num l \<le> num_vars I" using Cons.prems(2) by auto
  obtain su where su: "f l st = update_score (var_num l) (g l) su st
        \<and> (su = AfterScoreDecrease \<or> su = AfterScoreIncrease \<and> 0 \<le> g l) \<or> f l st = st \<and> g l = 0"
    using Cons.prems(1) [of l st] by auto
  then have s: "score (f l st) = (score st)(var_num l := score st (var_num l) + g l)"
    "ls_rest (f l st) = ls_rest st" "sat_count (f l st) = sat_count st"
    "hardunsat (f l st) = hardunsat st" "cardsat (f l st) = cardsat st"
    "hard_unsat_nb (f l st) = hard_unsat_nb st"
    by auto
  have good: "good_ok I st \<Longrightarrow> good_ok I (f l st)"
    using su good_update_inc [OF _ l] good_update_dec [OF _ l] by auto
  show ?case
    using Cons.IH [of "f l st"] Cons.prems s good by (simp cong: if_cong)
qed

lemma smooth_clause_keeps:
  assumes ix: "indexed_inst I" and c: "c < num_clauses I"
    and inv: "scores_ok I st" "counts_ok I st" "stacks_ok I st" "good_ok I st"
  shows "scores_ok I (smooth_clause I rescale c st) \<and> counts_ok I (smooth_clause I rescale c st)
    \<and> stacks_ok I (smooth_clause I rescale c st) \<and> good_ok I (smooth_clause I rescale c st)
    \<and> cur_soln (smooth_clause I rescale c st) = cur_soln st"
proof (cases "unit_weight st c = 1 \<and> sat_count st c < clause_true_lit_thres I c")
  case True
  with inv show ?thesis by (simp add: smooth_clause_def)
next
  case False
  let ?t = "clause_true_lit_thres I c" and ?w = "unit_weight st c"
  define s where "s = st\<lparr>unit_weight := (unit_weight st)(c := rescale ?w)\<rparr>"
  define g where "g l = clause_score_contribution (lit_true (cur_soln st) l) (sat_count st c) ?t (rescale ?w)
    - clause_score_contribution (lit_true (cur_soln st) l) (sat_count st c) ?t ?w" for l
  define f where "f = (\<lambda>l st. let b = lit_true (cur_soln st) l;
                 old_contribution = clause_score_contribution b (sat_count st c) ?t ?w;
                 new_contribution = clause_score_contribution b (sat_count st c) ?t (unit_weight st c);
                 delta = new_contribution - old_contribution
             in if delta = 0 then st else update_score (var_num l) delta
                  (if delta > 0 then AfterScoreIncrease else AfterScoreDecrease) st)"
  have sm: "smooth_clause I rescale c st = fold f (clause_lit I c) s"
    unfolding f_def s_def smooth_clause_def Let_def if_not_P [OF False] by simp
  have body: "\<exists>su. f l s' = update_score (var_num l) (g l) su s'
        \<and> (su = AfterScoreDecrease \<or> su = AfterScoreIncrease \<and> 0 \<le> g l) \<or> f l s' = s' \<and> g l = 0"
    if "l \<in> set (clause_lit I c)" and "ls_rest s' = ls_rest s" and "sat_count s' = sat_count s" for l s'
  proof -
    have fr: "cur_soln s' = cur_soln st" "unit_weight s' c = rescale ?w" "sat_count s' = sat_count st"
      using ls_restD(1,2) [OF that(2)] that(3) by (simp_all add: s_def)
    have "f l s' = (if g l = 0 then s' else update_score (var_num l) (g l)
        (if g l > 0 then AfterScoreIncrease else AfterScoreDecrease) s')"
      unfolding f_def Let_def fr g_def ..
    then show ?thesis by (cases "g l > 0") auto
  qed
  have vars: "\<forall>l\<in>set (clause_lit I c). 1 \<le> var_num l \<and> var_num l \<le> num_vars I"
    using wf_inst_lit [OF ix c] by blast
  note r = score_row_fold [where st = s and f = f, OF body vars, folded sm]
  have rr: "ls_rest (smooth_clause I rescale c st) = ls_rest s" using r by blast
  have fr: "cur_soln (smooth_clause I rescale c st) = cur_soln st"
    "unit_weight (smooth_clause I rescale c st) = (unit_weight st)(c := rescale ?w)"
    using ls_restD(1,2) [OF rr] by (simp_all add: s_def)
  have g: "clause_score_contribution (lit_true (cur_soln st) l) (sat_count st c) ?t (rescale ?w - ?w) = g l" for l
    by (simp add: g_def contribution_cases)
  have sp: "score_spec I (cur_soln st) (sat_count st) ((unit_weight st)(c := rescale ?w)) u
      = score_spec I (cur_soln st) (sat_count st) (unit_weight st) u
        + (\<Sum>l\<leftarrow>clause_lit I c. if var_num l = u then g l else 0)" for u
    using score_spec_update_weight [OF c, of "cur_soln st" "sat_count st" "unit_weight st" "rescale ?w - ?w" u]
    by (simp add: g cong: if_cong)
  have "score_at I (smooth_clause I rescale c st) u" if "score_at I st u" for u
    using that r [of u] by (simp add: score_at_def fr sp s_def)
  moreover have "good_ok I s" using inv(4) by (simp add: s_def good_ok_def)
  ultimately show ?thesis
    using inv r by (simp add: scores_ok_def counts_ok_def fr stacks_ok_def unsat_clauses_def s_def)
qed

lemma smooth_weights_keeps:
  assumes "indexed_inst I" and "scores_ok I st" "counts_ok I st" "stacks_ok I st" "good_ok I st"
  shows "scores_ok I (smooth_weights I P st) \<and> counts_ok I (smooth_weights I P st)
    \<and> stacks_ok I (smooth_weights I P st) \<and> good_ok I (smooth_weights I P st)
    \<and> cur_soln (smooth_weights I P st) = cur_soln st"
  unfolding smooth_weights_def
  by (rule fold_invariant_mem [where P = "\<lambda>s. scores_ok I s \<and> counts_ok I s \<and> stacks_ok I s
        \<and> good_ok I s \<and> cur_soln s = cur_soln st"])
    (use assms smooth_clause_keeps [OF assms(1)] in auto)

lemma update_weight_score_multi_keeps:
  assumes ix: "indexed_inst I" and c: "c < num_clauses I" and h: "0 \<le> h_inc P"
    and inv: "scores_ok I st" "good_ok I st"
  defines "t \<equiv> update_weight_score_multi I P c st"
  shows "scores_ok I (t\<lparr>unit_weight := (unit_weight st)(c := unit_weight st c + h_inc P)\<rparr>) \<and> good_ok I t"
proof -
  define g where "g l = clause_score_contribution (lit_true (cur_soln st) l) (sat_count st c)
      (clause_true_lit_thres I c) (h_inc P)" for l
  define f where "f = (\<lambda>l st. let gap = clause_true_lit_thres I c - sat_count st c
        in if \<not> lit_true (cur_soln st) l
           then update_score (var_num l) (violation_make_contribution (h_inc P) gap) AfterScoreIncrease st
           else update_score (var_num l) (- violation_make_contribution (h_inc P) (gap + 1)) AfterScoreDecrease st)"
  have body: "\<exists>su. f l s' = update_score (var_num l) (g l) su s'
        \<and> (su = AfterScoreDecrease \<or> su = AfterScoreIncrease \<and> 0 \<le> g l) \<or> f l s' = s' \<and> g l = 0"
    if "l \<in> set (clause_lit I c)" and "ls_rest s' = ls_rest st" and "sat_count s' = sat_count st" for l s'
    using h ls_restD(1) [OF that(2)] that(3)
    by (intro exI [of _ "if lit_true (cur_soln st) l then AfterScoreDecrease else AfterScoreIncrease"])
      (auto simp: f_def g_def Let_def contribution_cases violation_make_contribution_def)
  have vars: "\<forall>l\<in>set (clause_lit I c). 1 \<le> var_num l \<and> var_num l \<le> num_vars I"
    using wf_inst_lit [OF ix c] by blast
  have t: "t = fold f (clause_lit I c) st"
    by (simp add: t_def update_weight_score_multi_def f_def)
  note r = score_row_fold [where st = st and f = f, OF body vars, folded t]
  have "ls_rest t = ls_rest st" "sat_count t = sat_count st" using r by blast+
  note fr = ls_restD(1) [OF this(1)] this(2)
  have sc: "score t u = score st u + (\<Sum>l\<leftarrow>clause_lit I c. if var_num l = u then g l else 0)" for u
    using r by blast
  have sp: "score_spec I (cur_soln st) (sat_count st) ((unit_weight st)(c := unit_weight st c + h_inc P)) u
      = score_spec I (cur_soln st) (sat_count st) (unit_weight st) u
        + (\<Sum>l\<leftarrow>clause_lit I c. if var_num l = u then g l else 0)" for u
    unfolding g_def by (rule score_spec_update_weight [OF c])
  have "good_ok I t" using r inv(2) by blast
  with inv(1) show ?thesis by (simp add: fr scores_ok_def score_at_def sp sc)
qed

end
