(* ===== verification/Ls_Pick.thy ===== *)
theory Ls_Pick
  imports Ls_Weight
begin

text \<open>
  Choosing the variable to flip: \<open>pick_var\<close> (src/LocalSearch/cardsat.cpp) and
  \<open>select_var_after_update_weight\<close> (heuristic.cpp).  The results: while some clause is
  unsatisfied, both return a variable of the instance and keep the search invariant; the
  greedy branch returns a good variable of maximal score, the oldest among equals; the
  fallback returns a variable of an unsatisfied clause.
\<close>

section \<open>pick\_var\<close>

text \<open>The comparison the code writes out in every scan: a larger score wins, and on equal
  scores the older time stamp.\<close>

definition pick_better :: "ls \<Rightarrow> nat \<Rightarrow> nat \<Rightarrow> nat" where
  "pick_better st v best_var =
     (if score st v > score st best_var then v
      else if score st v = score st best_var then
        (if time_stamp st v < time_stamp st best_var then v else best_var)
      else best_var)"

definition sample_good :: "nat \<times> ls \<Rightarrow> nat \<times> ls" where
  "sample_good = (\<lambda>(best_var, st).
     let (r, st) = rand_below (fill_pointer (goodvar st)) st
     in (pick_better st (items (goodvar st) ! r) best_var, st))"

text \<open>The cell \<open>clause_lit[c][0].var_num\<close> of an empty clause is the sentinel's 0.\<close>

definition first_var_of :: "lit list \<Rightarrow> nat" where
  "first_var_of ls = (case ls of [] \<Rightarrow> 0 | l # _ \<Rightarrow> var_num l)"

text \<open>The scan for the best false literals keeps all that tie in score and age.\<close>

definition collect_best :: "ls \<Rightarrow> nat \<Rightarrow> int \<times> nat list \<Rightarrow> int \<times> nat list" where
  "collect_best st v = (\<lambda>(best_w, temp_array).
     if best_w < score st v then (score st v, [v])
     else if best_w = score st v \<and> time_stamp st v < time_stamp st (temp_array ! 0) then (best_w, [v])
     else if best_w = score st v \<and> time_stamp st v = time_stamp st (temp_array ! 0)
     then (best_w, temp_array @ [v])
     else (best_w, temp_array))"

definition choose_false_var :: "ls_par \<Rightarrow> nat list \<Rightarrow> ls \<Rightarrow> nat \<times> ls" where
  "choose_false_var P temp_unsat st =
     (let (hit, st) = rand_hits (rwprob_threshold P) st
      in if hit then
           let (r, st) = rand_below (length temp_unsat) st in (temp_unsat ! r, st)
         else
           let v = temp_unsat ! 0;
               temp_array = snd (fold (collect_best st) (tl temp_unsat) (score st v, [v]));
               (r, st) = rand_below (length temp_array) st
           in (temp_array ! r, st))"

definition select_var_after_update_weight :: "inst \<Rightarrow> ls_par \<Rightarrow> ls \<Rightarrow> nat \<times> ls" where
  "select_var_after_update_weight I P st =
     (let (r, st) = rand_below (fill_pointer (hardunsat st)) st;
          c = items (hardunsat st) ! r;
          temp_unsat = map var_num (filter (\<lambda>l. \<not> lit_true (cur_soln st) l) (clause_lit I c))
      in if temp_unsat = [] then
           (fold (\<lambda>l. pick_better st (var_num l)) (tl (clause_lit I c)) (first_var_of (clause_lit I c)), st)
         else choose_false_var P temp_unsat st)"

definition pick_var :: "inst \<Rightarrow> ls_par \<Rightarrow> ls \<Rightarrow> nat \<times> ls" where
  "pick_var I P st =
     (if fill_pointer (goodvar st) > 0 then
        let (hit, st) = rand_hits (rdprob_threshold P) st
        in if hit then
             let (r, st) = rand_below (fill_pointer (goodvar st)) st in (items (goodvar st) ! r, st)
           else if fill_pointer (goodvar st) < hd_count_threshold P then
             (fold (pick_better st) (tl (items (goodvar st))) (items (goodvar st) ! 0), st)
           else
             let (r, st) = rand_below (fill_pointer (goodvar st)) st
             in fold (\<lambda>_. sample_good) [1..<hd_count_threshold P] (items (goodvar st) ! r, st)
      else
        let st = update_clause_weights I P st
        in select_var_after_update_weight I P st)"

section \<open>The generator changes its own state only\<close>

lemma fast_rand_state: "snd (fast_rand st) = st\<lparr>m_prng_state := m_prng_state (snd (fast_rand st))\<rparr>"
  by (simp add: fast_rand_def Let_def)

lemma rand_below_state: "snd (rand_below n st) = st\<lparr>m_prng_state := m_prng_state (snd (fast_rand st))\<rparr>"
  by (simp add: rand_below_def fast_rand_state [symmetric] split_beta)

lemma rand_hits_state: "snd (rand_hits t st) = st\<lparr>m_prng_state := m_prng_state (snd (fast_rand st))\<rparr>"
  by (simp add: rand_hits_def rand_below_state split_beta)

lemma ls_inv_prng [simp]: "ls_inv I (st\<lparr>m_prng_state := s\<rparr>) = ls_inv I st"
  by (simp add: ls_inv_def soln_ok_def counts_ok_def scores_ok_def score_at_def stacks_ok_def
      unsat_clauses_def weights_ok_def scratch_ok_def neighbors_ok_def good_ok_def)

lemma rand_belowE:
  assumes "rand_below n st = (r, st')"
  obtains s where "st' = st\<lparr>m_prng_state := s\<rparr>" and "0 < n \<Longrightarrow> r < n"
  using assms rand_below_state [of n st] rand_below_less [of n st] by (metis fst_conv snd_conv)

lemma rand_hitsE:
  assumes "rand_hits t st = (b, st')"
  obtains s where "st' = st\<lparr>m_prng_state := s\<rparr>"
  using assms rand_hits_state [of t st] by (metis snd_conv)

section \<open>The scans\<close>

lemma fold_pick_better:
  "fold (\<lambda>x. pick_better st (f x)) xs b \<in> insert b (f ` set xs)
   \<and> (\<forall>u\<in>insert b (f ` set xs). score st u < score st (fold (\<lambda>x. pick_better st (f x)) xs b)
        \<or> score st u = score st (fold (\<lambda>x. pick_better st (f x)) xs b)
          \<and> time_stamp st (fold (\<lambda>x. pick_better st (f x)) xs b) \<le> time_stamp st u)"
proof (induction xs arbitrary: b)
  case Nil
  then show ?case by simp
next
  case (Cons x xs)
  let ?b = "pick_better st (f x) b"
  have "?b = f x \<or> ?b = b" by (simp add: pick_better_def)
  moreover have "score st u < score st ?b \<or> score st u = score st ?b \<and> time_stamp st ?b \<le> time_stamp st u"
    if "u = f x \<or> u = b" for u
    using that by (auto simp: pick_better_def)
  ultimately show ?case using Cons.IH [of ?b] by fastforce
qed

lemma fold_collect_best:
  assumes "arr \<noteq> []" and "\<forall>u\<in>set arr. score st u = w"
    and "fold (collect_best st) vs (w, arr) = (w', arr')"
  shows "arr' \<noteq> [] \<and> set arr' \<subseteq> set arr \<union> set vs \<and> (\<forall>u\<in>set arr'. score st u = w') \<and> w \<le> w'
    \<and> (\<forall>u\<in>set vs. score st u \<le> w')"
  using assms
proof (induction vs arbitrary: w arr)
  case Nil
  then show ?case by simp
next
  case (Cons v vs)
  obtain w1 arr1 where s: "collect_best st v (w, arr) = (w1, arr1)" by fastforce
  have "arr1 \<noteq> []" "\<forall>u\<in>set arr1. score st u = w1" "w \<le> w1" "score st v \<le> w1" "set arr1 \<subseteq> insert v (set arr)"
    using s Cons.prems(1,2) by (auto simp: collect_best_def split: if_splits)
  with Cons.IH [of arr1 w1] Cons.prems(3) s show ?case by fastforce
qed

section \<open>The choice is a variable of the instance\<close>

lemma clause_var_range:
  assumes "indexed_inst I" and "c < num_clauses I" and "l \<in> set (clause_lit I c)"
  shows "var_num l \<in> {1..num_vars I}"
  using wf_inst_lit [OF assms] by simp

lemma choose_false_var_ok:
  assumes "temp \<noteq> []" and s: "choose_false_var P temp st = (v, st')"
  shows "v \<in> set temp \<and> (\<exists>s. st' = st\<lparr>m_prng_state := s\<rparr>)"
proof -
  obtain hit st2 where h: "rand_hits (rwprob_threshold P) st = (hit, st2)" by fastforce
  obtain s2 where st2: "st2 = st\<lparr>m_prng_state := s2\<rparr>" using h by (rule rand_hitsE)
  define arr where "arr = snd (fold (collect_best st2) (tl temp) (score st2 (temp ! 0), [temp ! 0]))"
  have "arr \<noteq> [] \<and> set arr \<subseteq> set [temp ! 0] \<union> set (tl temp)"
    using fold_collect_best [of "[temp ! 0]" st2 "score st2 (temp ! 0)" "tl temp" _ arr]
    by (simp add: arr_def prod_eq_iff)
  moreover have "set [temp ! 0] \<union> set (tl temp) = set temp" using assms(1) by (cases temp) auto
  ultimately have arr: "arr \<noteq> []" "set arr \<subseteq> set temp" by simp_all
  define ts where "ts = (if hit then temp else arr)"
  have ts: "ts \<noteq> []" "set ts \<subseteq> set temp" using arr assms(1) by (simp_all add: ts_def)
  obtain r3 st3 where r3: "rand_below (length ts) st2 = (r3, st3)" by fastforce
  obtain s3 where st3: "st3 = st2\<lparr>m_prng_state := s3\<rparr>" and l3: "r3 < length ts"
    using r3 ts(1) by (auto elim: rand_belowE)
  have "(v, st') = (ts ! r3, st3)"
    using s r3 unfolding choose_false_var_def h ts_def arr_def [symmetric] Let_def
    by (cases hit) (simp_all add: arr_def)
  then show ?thesis using ts nth_mem [OF l3] by (auto simp: st3 st2)
qed

lemma select_var_ok:
  assumes wf: "wf_inst I" and inv: "ls_inv I st" and un: "0 < hard_unsat_nb st"
    and s: "select_var_after_update_weight I P st = (v, st')"
  shows "(\<exists>c\<in>unsat_clauses I st. v \<in> var_num ` set (clause_lit I c)) \<and> (\<exists>s. st' = st\<lparr>m_prng_state := s\<rparr>)"
proof -
  have fp: "0 < fill_pointer (hardunsat st)" using inv un by (simp add: ls_inv_def stacks_ok_def)
  obtain r st1 where r: "rand_below (fill_pointer (hardunsat st)) st = (r, st1)" by fastforce
  obtain s1 where st1: "st1 = st\<lparr>m_prng_state := s1\<rparr>" and rl: "r < fill_pointer (hardunsat st)"
    using r fp by (auto elim: rand_belowE)
  have st1_fields: "cur_soln st1 = cur_soln st" "hardunsat st1 = hardunsat st" by (simp_all add: st1)
  define c where "c = items (hardunsat st) ! r"
  have c: "c \<in> unsat_clauses I st" using rl inv by (auto simp: c_def ls_inv_def stacks_ok_def)
  then have ne: "clause_lit I c \<noteq> []" using wf by (simp add: wf_inst_def unsat_clauses_def)
  define temp where "temp = map var_num (filter (\<lambda>l. \<not> lit_true (cur_soln st) l) (clause_lit I c))"
  define best where "best = fold (\<lambda>l. pick_better st1 (var_num l)) (tl (clause_lit I c)) (first_var_of (clause_lit I c))"
  have sel: "(if temp = [] then (best, st1) else choose_false_var P temp st1) = (v, st')"
    using s by (simp add: select_var_after_update_weight_def r st1_fields c_def temp_def best_def Let_def cong: if_cong)
  have "v \<in> var_num ` set (clause_lit I c) \<and> (\<exists>s. st' = st\<lparr>m_prng_state := s\<rparr>)"
  proof (cases "temp = []")
    case True
    have "best \<in> insert (first_var_of (clause_lit I c)) (var_num ` set (tl (clause_lit I c)))"
      unfolding best_def by (rule conjunct1 [OF fold_pick_better])
    also have "\<dots> = var_num ` set (clause_lit I c)"
      using ne by (cases "clause_lit I c") (simp_all add: first_var_of_def)
    finally show ?thesis using sel True st1 by auto
  next
    case False
    with choose_false_var_ok [OF False, of P st1 v st'] sel
    have "v \<in> set temp" "\<exists>s. st' = st1\<lparr>m_prng_state := s\<rparr>" by auto
    then show ?thesis by (auto simp: temp_def st1)
  qed
  with c show ?thesis by blast
qed

lemma sample_good_loop:
  assumes "fold (\<lambda>_. sample_good) ns (b, st) = (v, st')" and "b \<in> set (items (goodvar st))"
  shows "v \<in> set (items (goodvar st)) \<and> (\<exists>s. st' = st\<lparr>m_prng_state := s\<rparr>)"
  using assms
proof (induction ns arbitrary: b st)
  case Nil
  then show ?case by (auto intro: exI [of _ "m_prng_state st"])
next
  case (Cons n ns)
  obtain r st1 where r: "rand_below (fill_pointer (goodvar st)) st = (r, st1)" by fastforce
  have "0 < fill_pointer (goodvar st)" using Cons.prems(2) by auto
  then obtain s1 where st1: "st1 = st\<lparr>m_prng_state := s1\<rparr>" and rl: "r < fill_pointer (goodvar st)"
    using r by (auto elim: rand_belowE)
  let ?b = "pick_better st1 (items (goodvar st) ! r) b"
  have "fold (\<lambda>_. sample_good) ns (?b, st1) = (v, st')"
    using Cons.prems(1) by (simp add: sample_good_def r st1 Let_def)
  moreover have "?b \<in> set (items (goodvar st1))"
    using Cons.prems(2) rl by (auto simp: pick_better_def st1)
  ultimately show ?case using Cons.IH st1 by fastforce
qed

text \<open>With good variables on the stack, one of them is chosen; the full scan finds the one of
  maximal score, the oldest among equals.\<close>

lemma pick_var_good:
  assumes good: "0 < fill_pointer (goodvar st)" and s: "pick_var I P st = (v, st')"
  shows "v \<in> set (items (goodvar st)) \<and> (\<exists>p. st' = st\<lparr>m_prng_state := p\<rparr>)"
    and "\<not> fst (rand_hits (rdprob_threshold P) st) \<Longrightarrow> fill_pointer (goodvar st) < hd_count_threshold P
      \<Longrightarrow> \<forall>u\<in>set (items (goodvar st)). score st u < score st v
        \<or> score st u = score st v \<and> time_stamp st v \<le> time_stamp st u"
proof -
  obtain hit st1 where hh: "rand_hits (rdprob_threshold P) st = (hit, st1)" by fastforce
  obtain s1 where st1: "st1 = st\<lparr>m_prng_state := s1\<rparr>" using hh by (rule rand_hitsE)
  have [simp]: "goodvar st1 = goodvar st" by (simp add: st1)
  have same: "score st1 = score st" "time_stamp st1 = time_stamp st" by (simp_all add: st1)
  obtain r st2 where r: "rand_below (fill_pointer (goodvar st)) st1 = (r, st2)" by fastforce
  obtain s2 where st2: "st2 = st1\<lparr>m_prng_state := s2\<rparr>" and rl: "r < fill_pointer (goodvar st)"
    using r good by (auto elim: rand_belowE)
  have all: "insert (items (goodvar st) ! 0) (set (tl (items (goodvar st)))) = set (items (goodvar st))"
    using good by (cases "items (goodvar st)") auto
  note scan = fold_pick_better [of st1 "\<lambda>x. x" "tl (items (goodvar st))" "items (goodvar st) ! 0",
      simplified image_ident all same]
  have small: "(v, st') = (fold (pick_better st1) (tl (items (goodvar st))) (items (goodvar st) ! 0), st1)"
    if "\<not> hit" "fill_pointer (goodvar st) < hd_count_threshold P"
    using s good that by (auto simp: pick_var_def hh Let_def)
  show "v \<in> set (items (goodvar st)) \<and> (\<exists>p. st' = st\<lparr>m_prng_state := p\<rparr>)"
  proof (cases hit)
    case True
    then have "(v, st') = (items (goodvar st) ! r, st2)"
      using s good r by (simp add: pick_var_def hh Let_def st2)
    then show ?thesis using rl by (simp add: st1 st2) blast
  next
    case nohit: False
    show ?thesis
    proof (cases "fill_pointer (goodvar st) < hd_count_threshold P")
      case True
      have "fold (pick_better st1) (tl (items (goodvar st))) (items (goodvar st) ! 0) \<in> set (items (goodvar st))"
        using scan by blast
      then show ?thesis using small [OF nohit True] st1 by (metis prod.inject)
    next
      case False
      then have "fold (\<lambda>_. sample_good) [1..<hd_count_threshold P] (items (goodvar st2) ! r, st2) = (v, st')"
        using s good nohit r by (simp add: pick_var_def hh Let_def st2)
      from sample_good_loop [OF this] rl show ?thesis by (auto simp: st1 st2)
    qed
  qed
  show "\<forall>u\<in>set (items (goodvar st)). score st u < score st v
        \<or> score st u = score st v \<and> time_stamp st v \<le> time_stamp st u"
    if "\<not> fst (rand_hits (rdprob_threshold P) st)" "fill_pointer (goodvar st) < hd_count_threshold P"
    using scan small that hh by (metis fst_conv prod.inject)
qed

text \<open>Without one, the weights go up and the choice falls on a variable of an unsatisfied clause.\<close>

lemma pick_var_bad:
  assumes wf: "wf_inst I" and inv: "ls_inv I st" and un: "0 < hard_unsat_nb st" and h: "0 \<le> h_inc P"
    and none: "fill_pointer (goodvar st) = 0" and s: "pick_var I P st = (v, st')"
  shows "(\<exists>c\<in>unsat_clauses I st. v \<in> var_num ` set (clause_lit I c))
    \<and> (\<exists>p. st' = (update_clause_weights I P st)\<lparr>m_prng_state := p\<rparr>)"
proof -
  let ?s = "update_clause_weights I P st"
  have u: "ls_inv I ?s" "hardunsat ?s = hardunsat st"
    using increase_weights_inv [OF wf inv h] by (simp_all add: update_clause_weights_def)
  then have "0 < hard_unsat_nb ?s" using un inv by (simp add: ls_inv_def stacks_ok_def)
  moreover have "select_var_after_update_weight I P ?s = (v, st')"
    using s none by (simp add: pick_var_def)
  moreover have "unsat_clauses I ?s = unsat_clauses I st"
    using u inv by (metis ls_inv_def stacks_ok_def)
  ultimately show ?thesis using select_var_ok [OF wf u(1)] by metis
qed

lemma pick_var_ok:
  assumes wf: "wf_inst I" and inv: "ls_inv I st" and un: "0 < hard_unsat_nb st" and h: "0 \<le> h_inc P"
    and s: "pick_var I P st = (v, st')"
  shows "ls_inv I st' \<and> v \<in> {1..num_vars I} \<and> cur_soln st' = cur_soln st
    \<and> materialized_neighbor_mode st' = materialized_neighbor_mode st"
proof (cases "fill_pointer (goodvar st) = 0")
  case True
  note w = increase_weights_inv [OF wf inv h]
  from pick_var_bad [OF wf inv un h True s]
  show ?thesis
    using clause_var_range wf w by (auto simp: wf_inst_def unsat_clauses_def update_clause_weights_def)
next
  case False
  have "set (items (goodvar st)) \<subseteq> {1..num_vars I}" using inv by (auto simp: ls_inv_def good_ok_def)
  then show ?thesis using pick_var_good(1) [OF _ s] False inv by auto
qed

end
