(* ===== verification/Ls_Swap.thy ===== *)
theory Ls_Swap
  imports Ls_Pick Ls_Flip_Inv "HOL-Library.Signed_Division"
begin

text \<open>
  The swap move inside a satisfied cardinality clause: \<open>swap_vars\<close> samples the clause and
  flips a true and a false literal together with \<open>flip_pair_atomic\<close>
  (src/LocalSearch/heuristic.cpp).  The fast path of \<open>flip_pair_atomic\<close> reads every clause
  that both variables share once, and delays what the second flip owes to the scores; the
  main result is that it computes exactly the state of the two single flips in order.
\<close>

section \<open>The pair flip\<close>

definition has_repeated_clause_occurrence :: "inst \<Rightarrow> nat \<Rightarrow> bool" where
  "has_repeated_clause_occurrence I v =
     list_ex (\<lambda>i. clause_num (var_lit I v ! (i - 1)) = clause_num (var_lit I v ! i)) [1..<var_lit_count I v]"

text \<open>The merge of the two occurrence lists: the shared clauses go to \<open>temp_array\<close>, and
  \<open>sat_var\<close> records the phase of the second literal.\<close>

fun mark_shared :: "lit list \<Rightarrow> lit list \<Rightarrow> nat list \<times> (nat \<Rightarrow> int) \<Rightarrow> nat list \<times> (nat \<Rightarrow> int)" where
  "mark_shared (a # fs) (b # ss) (temp_array, sv) =
     (if clause_num a < clause_num b then mark_shared fs (b # ss) (temp_array, sv)
      else if clause_num b < clause_num a then mark_shared (a # fs) ss (temp_array, sv)
      else mark_shared fs ss
             (temp_array @ [clause_num a], sv(clause_num a := if sense b then 2 else 1)))"
| "mark_shared _ _ marks = marks"

definition accumulate_delayed_score :: "nat \<Rightarrow> int \<Rightarrow> nat list \<times> ls \<Rightarrow> nat list \<times> ls" where
  "accumulate_delayed_score v delta = (\<lambda>(touched, st).
     if delta = 0 then (touched, st)
     else if neighbor_flag st v = 0 then
       (touched @ [v], st\<lparr>neighbor_flag := (neighbor_flag st)(v := 1),
                         weight_delta_score := (weight_delta_score st)(v := delta)\<rparr>)
     else (touched, st\<lparr>weight_delta_score := (weight_delta_score st)(v := weight_delta_score st v + delta)\<rparr>))"

text \<open>One literal of a shared row: what the first flip changes is added at once, what the
  second changes is delayed.\<close>

definition shared_pair_literal ::
    "bool \<times> nat \<times> bool \<times> int \<Rightarrow> bool \<times> nat \<times> bool \<times> int \<Rightarrow> lit \<Rightarrow> nat list \<times> ls \<Rightarrow> nat list \<times> ls" where
  "shared_pair_literal first second l = (\<lambda>(touched, st).
     let (update_first, first_var, first_true_phase, first_delta) = first;
         (update_second, second_var, second_true_phase, second_delta) = second;
         v = var_num l;
         st = (if update_first \<and> v \<noteq> first_var \<and> lit_true (cur_soln st) l = first_true_phase
               then update_score v first_delta NoStackUpdate st else st)
     in if update_second \<and> v \<noteq> second_var \<and> lit_true (cur_soln st) l = second_true_phase
        then accumulate_delayed_score v second_delta (touched, st) else (touched, st))"

definition update_shared_pair_scores ::
    "inst \<Rightarrow> nat \<Rightarrow> nat \<Rightarrow> nat \<Rightarrow> int \<Rightarrow> int \<Rightarrow> int \<Rightarrow> nat list \<times> ls \<Rightarrow> nat list \<times> ls" where
  "update_shared_pair_scores I c first_var second_var old middle final = (\<lambda>(touched, st).
     let threshold = clause_true_lit_thres I c;
         update_first = (old = threshold \<or> middle = threshold);
         update_second = (middle = threshold \<or> final = threshold);
         first_true_phase = update_true_literals threshold old middle;
         first_delta = phase_delta threshold (unit_weight st c) old middle;
         second_true_phase = update_true_literals threshold middle final;
         second_delta = phase_delta threshold (unit_weight st c) middle final
     in if \<not> update_first \<and> \<not> update_second then (touched, st)
        else fold (shared_pair_literal (update_first, first_var, first_true_phase, first_delta)
                                       (update_second, second_var, second_true_phase, second_delta))
                  (clause_lit I c) (touched, st))"

definition pair_first_occurrence ::
    "inst \<Rightarrow> nat \<Rightarrow> nat \<Rightarrow> (nat \<Rightarrow> int) \<Rightarrow> lit \<Rightarrow> nat list \<times> ls \<Rightarrow> nat list \<times> ls" where
  "pair_first_occurrence I first_var second_var sv l = (\<lambda>(touched, st).
     let c = clause_num l
     in if sv c = 0 then (touched, update_one_flip_occurrence I first_var False l st)
        else let old = sat_count st c;
                 middle = old + (if cur_soln st first_var = of_bool (sense l) then 1 else -1);
                 second_sense = (sv c = 2);
                 final = middle + (if 1 - cur_soln st second_var = of_bool second_sense then 1 else -1);
                 (touched, st) = update_shared_pair_scores I c first_var second_var old middle final (touched, st)
             in (touched, update_count_for_occurrence I first_var l st))"

definition flush_delayed :: "nat \<Rightarrow> ls \<Rightarrow> ls" where
  "flush_delayed v st =
     (let st = update_score v (weight_delta_score st v) NoStackUpdate st
      in st\<lparr>weight_delta_score := (weight_delta_score st)(v := 0), neighbor_flag := (neighbor_flag st)(v := 0)\<rparr>)"

definition pair_second_occurrence :: "inst \<Rightarrow> nat \<Rightarrow> (nat \<Rightarrow> int) \<Rightarrow> lit \<Rightarrow> ls \<Rightarrow> ls" where
  "pair_second_occurrence I second_var sv l st =
     (if sv (clause_num l) = 0 then update_one_flip_occurrence I second_var False l st
      else update_count_for_occurrence I second_var l st)"

text \<open>The marks \<open>sv\<close> live in the array \<open>sat_var\<close>, which the routines called here neither
  read nor write; the array goes back into the state when the marks are cleared.\<close>

definition flip_pair_atomic :: "inst \<Rightarrow> nat \<Rightarrow> nat \<Rightarrow> ls \<Rightarrow> ls" where
  "flip_pair_atomic I first_var second_var st =
     (if first_var = 0 \<or> second_var = 0 \<or> first_var > num_vars I \<or> second_var > num_vars I
         \<or> first_var = second_var then st
      else case sat_var st of
        None \<Rightarrow> flip I second_var (flip I first_var st)
      | Some sv0 \<Rightarrow>
          if \<not> materialized_neighbor_mode st \<or> has_repeated_clause_occurrence I first_var
             \<or> has_repeated_clause_occurrence I second_var
          then flip I second_var (flip I first_var st)
          else
            let (temp_array, sv) = mark_shared (var_lit I first_var) (var_lit I second_var) ([], sv0)
            in if temp_array = [] then flip I second_var (flip I first_var st)
               else
                 let old_first_score = score st first_var;
                     st = st\<lparr>cur_soln := (cur_soln st)(first_var := 1 - cur_soln st first_var)\<rparr>;
                     (touched, st) = fold (pair_first_occurrence I first_var second_var sv)
                                          (var_lit I first_var) ([], st);
                     st = st\<lparr>score := (score st)(first_var := - old_first_score)\<rparr>;
                     st = update_goodvarstack first_var st;
                     old_second_score = score st second_var;
                     st = st\<lparr>cur_soln := (cur_soln st)(second_var := 1 - cur_soln st second_var)\<rparr>;
                     st = fold flush_delayed touched st;
                     st = fold (pair_second_occurrence I second_var sv) (var_lit I second_var) st;
                     st = st\<lparr>score := (score st)(second_var := - old_second_score)\<rparr>;
                     st = update_goodvarstack second_var st
                 in st\<lparr>sat_var := Some (fold (\<lambda>c sv. sv(c := 0)) temp_array sv)\<rparr>)"

section \<open>The swap move\<close>

definition swap_bms_sample_count :: "int \<Rightarrow> int \<Rightarrow> int" where
  "swap_bms_sample_count clause_length cap = min ((clause_length - 1) sdiv 2 + 1) cap"

text \<open>The lambda \<open>consider\<close>, on the best true and the best false variable so far; the
  generator is only asked when score and age tie.\<close>

definition better_swap :: "nat \<Rightarrow> nat \<Rightarrow> ls \<Rightarrow> nat \<times> ls" where
  "better_swap v best st =
     (if best = v then (best, st)
      else if best = 0 \<or> score st v > score st best
              \<or> (score st v = score st best \<and> time_stamp st v < time_stamp st best) then (v, st)
      else if score st v = score st best \<and> time_stamp st v = time_stamp st best then
        let (r, st) = fast_rand st in (if unat r mod 2 = 1 then v else best, st)
      else (best, st))"

definition swap_consider :: "lit \<Rightarrow> nat \<times> nat \<times> ls \<Rightarrow> nat \<times> nat \<times> ls" where
  "swap_consider l = (\<lambda>(best_true_var, best_false_var, st).
     if lit_true (cur_soln st) l then
       let (b, st) = better_swap (var_num l) best_true_var st in (b, best_false_var, st)
     else
       let (b, st) = better_swap (var_num l) best_false_var st in (best_true_var, b, st))"

text \<open>The positions probed: \<open>start + i * stride\<close> modulo the row size.\<close>

definition swap_probes :: "nat \<Rightarrow> nat \<Rightarrow> nat \<Rightarrow> nat \<Rightarrow> nat list" where
  "swap_probes row_size probes start stride = map (\<lambda>i. (start + i * stride) mod row_size) [0..<probes]"

definition swap_vars :: "inst \<Rightarrow> ls_par \<Rightarrow> ls \<Rightarrow> ls" where
  "swap_vars I P st =
     (if fill_pointer (cardsat st) = 0 then st
      else
        let (r, st) = rand_below (fill_pointer (cardsat st)) st;
            sel_c = items (cardsat st) ! r;
            row_size = clause_lit_count I sel_c
        in if row_size = 0 then st
           else
             let probes = nat (swap_bms_sample_count (int row_size) (swap_bms_cap P));
                 (start, st) = rand_below row_size st;
                 (stride, st) = (if row_size > 1 then
                                   let (r, st) = fast_rand st
                                   in (if r AND 1 = 0 then 1 else row_size - 1, st)
                                 else (1, st));
                 (best_true_var, best_false_var, st) =
                   fold (\<lambda>probe. swap_consider (clause_lit I sel_c ! probe))
                        (swap_probes row_size probes start stride) (0, 0, st)
             in if best_true_var = 0 \<or> best_false_var = 0 \<or> best_true_var = best_false_var then st
                else
                  let st = flip_pair_atomic I best_true_var best_false_var st
                  in st\<lparr>time_stamp := (time_stamp st)(best_true_var := int (ls_step st),
                                                     best_false_var := int (ls_step st))\<rparr>)"

section \<open>Score updates without stack maintenance\<close>

text \<open>\<open>add_scores d st\<close> adds \<open>d u\<close> to the score of every \<open>u\<close>; what one occurrence of the
  flipped variable owes to the others is \<open>occ_delta\<close>.\<close>

definition add_scores :: "(nat \<Rightarrow> int) \<Rightarrow> ls \<Rightarrow> ls" where
  "add_scores d st = st\<lparr>score := (\<lambda>u. score st u + d u)\<rparr>"

definition occ_delta :: "inst \<Rightarrow> ls \<Rightarrow> nat \<Rightarrow> lit \<Rightarrow> nat \<Rightarrow> int" where
  "occ_delta I st x l u =
     (let c = clause_num l; old = sat_count st c;
          new = old + (if cur_soln st x = of_bool (sense l) then 1 else -1)
      in if old = clause_true_lit_thres I c \<or> new = clause_true_lit_thres I c
         then neighbor_delta I st c x old new u else 0)"

lemma add_scores_fields [simp]:
  "score (add_scores d st) = (\<lambda>u. score st u + d u)" "cur_soln (add_scores d st) = cur_soln st"
  "sat_count (add_scores d st) = sat_count st" "unit_weight (add_scores d st) = unit_weight st"
  by (simp_all add: add_scores_def)

lemma add_scores_twice [simp]: "add_scores d (add_scores e st) = add_scores (\<lambda>u. e u + d u) st"
  by (simp add: add_scores_def fun_eq_iff algebra_simps)

lemma add_scores_0: "(\<And>u. d u = 0) \<Longrightarrow> add_scores d st = st"
  by (simp add: add_scores_def)

lemma update_score_add: "update_score v d NoStackUpdate st = add_scores (\<lambda>u. if u = v then d else 0) st"
  by (simp add: update_score_def add_scores_def fun_upd_def) (rule arg_cong [where f = "\<lambda>f. st\<lparr>score := f\<rparr>"], auto)

lemma count_add [simp]:
  "update_count_for_occurrence I x l (add_scores d st) = add_scores d (update_count_for_occurrence I x l st)"
  by (simp add: update_count_for_occurrence_def add_scores_def Let_def sat_def unsat_def)

lemma neighbor_scores_add:
  "update_clause_neighbor_scores I c x old new False st = add_scores (neighbor_delta I st c x old new) st"
proof -
  have "fold (\<lambda>l st. if var_num l = x then st
          else if lit_true (cur_soln st) l \<noteq> t then st
          else update_score (var_num l) d NoStackUpdate st) ls st
      = add_scores (\<lambda>u. \<Sum>l\<leftarrow>ls. if var_num l = u \<and> u \<noteq> x \<and> lit_true (cur_soln st) l = t then d else 0) st"
    for t d ls
  proof (induction ls arbitrary: st)
    case Nil
    then show ?case by (simp add: add_scores_0)
  next
    case (Cons l ls)
    then show ?case
      by (auto simp: update_score_add intro!: arg_cong2 [where f = add_scores])
  qed
  then show ?thesis
    by (simp add: update_clause_neighbor_scores_def neighbor_delta_def [abs_def] Let_def)
qed

lemma one_flip_add:
  "update_one_flip_occurrence I x False l st
     = add_scores (occ_delta I st x l) (update_count_for_occurrence I x l st)"
  by (auto simp: update_one_flip_occurrence_def Let_def neighbor_scores_add occ_delta_def [abs_def]
      add_scores_0)


lemma neighbor_delta_cong:
  assumes "cur_soln s = cur_soln t" "unit_weight s c = unit_weight t c"
  shows "neighbor_delta I s c x old new = neighbor_delta I t c x old new"
  by (rule ext) (simp only: neighbor_delta_def assms)

lemma occ_delta_cong:
  assumes "cur_soln s = cur_soln t" "unit_weight s (clause_num l) = unit_weight t (clause_num l)"
    "sat_count s (clause_num l) = sat_count t (clause_num l)"
  shows "occ_delta I s x l = occ_delta I t x l"
  by (rule ext) (simp only: occ_delta_def Let_def assms neighbor_delta_cong [OF assms(1,2)])

lemma occ_delta_add [simp]: "occ_delta I (add_scores d st) x l = occ_delta I st x l"
  by (rule occ_delta_cong) simp_all

lemma cur_soln_count [simp]: "cur_soln (update_count_for_occurrence I x l st) = cur_soln st"
  using ls_rest_count by (rule ls_restD)

lemma unit_weight_count [simp]: "unit_weight (update_count_for_occurrence I x l st) = unit_weight st"
  using ls_rest_count by (rule ls_restD)

text \<open>An occurrence in another clause does not change what \<open>l\<close> owes.\<close>

lemma occ_delta_count:
  assumes "clause_num l' \<noteq> clause_num l"
  shows "occ_delta I (update_count_for_occurrence I x l' st) x' l = occ_delta I st x' l"
  using assms by (intro occ_delta_cong) simp_all

lemma fold_count_add [simp]:
  "fold (update_count_for_occurrence I x) ls (add_scores d st)
     = add_scores d (fold (update_count_for_occurrence I x) ls st)"
  by (induction ls arbitrary: st) simp_all

lemma sum_list_occ_delta_count:
  assumes "clause_num l' \<notin> clause_num ` set ls"
  shows "(\<Sum>l\<leftarrow>ls. occ_delta I (update_count_for_occurrence I x l' st) x l u) = (\<Sum>l\<leftarrow>ls. occ_delta I st x l u)"
  using assms by (induction ls) (auto simp: occ_delta_count)

lemma fold_one_flip_add:
  assumes "distinct (map clause_num ls)"
  shows "fold (update_one_flip_occurrence I x False) ls st
    = add_scores (\<lambda>u. \<Sum>l\<leftarrow>ls. occ_delta I st x l u) (fold (update_count_for_occurrence I x) ls st)"
  using assms
proof (induction ls arbitrary: st)
  case Nil
  then show ?case by (simp add: add_scores_0)
next
  case (Cons l ls)
  then show ?case
    by (simp add: one_flip_add sum_list_occ_delta_count)
qed

lemma fold_count_other:
  assumes "c \<notin> clause_num ` set ls"
  shows "sat_count (fold (update_count_for_occurrence I x) ls st) c = sat_count st c"
  using assms by (induction ls arbitrary: st) auto

lemma fold_count_at:
  assumes "distinct (map clause_num ls)" and "l \<in> set ls"
  shows "sat_count (fold (update_count_for_occurrence I x) ls st) (clause_num l)
    = sat_count st (clause_num l) + (if cur_soln st x = of_bool (sense l) then 1 else -1)"
  using assms
proof (induction ls arbitrary: st)
  case Nil
  then show ?case by simp
next
  case (Cons a ls)
  show ?case
  proof (cases "l = a")
    case True
    then show ?thesis using Cons.prems(1) by (simp add: fold_count_other)
  next
    case False
    then have "l \<in> set ls" "clause_num l \<noteq> clause_num a" using Cons.prems by (auto simp: image_iff)
    then show ?thesis using Cons.IH [of "update_count_for_occurrence I x a st"] Cons.prems(1) by simp
  qed
qed

section \<open>Delayed scores\<close>

text \<open>\<open>with_delay e T st\<close> is \<open>st\<close> with the amounts \<open>e\<close> parked in
  \<open>weight_delta_score\<close> for the touched variables \<open>T\<close>.\<close>

definition with_delay :: "(nat \<Rightarrow> int) \<Rightarrow> nat list \<Rightarrow> ls \<Rightarrow> ls" where
  "with_delay e T st = st\<lparr>weight_delta_score := e, neighbor_flag := (\<lambda>v. of_bool (v \<in> set T))\<rparr>"

definition delayed :: "ls \<Rightarrow> (nat \<Rightarrow> int) \<Rightarrow> nat list \<times> ls \<Rightarrow> bool" where
  "delayed s e p \<longleftrightarrow> (\<exists>T. p = (T, with_delay e T s) \<and> distinct T \<and> (\<forall>v. v \<notin> set T \<longrightarrow> e v = 0))"

lemma with_delay_fields [simp]:
  "score (with_delay e T st) = score st" "cur_soln (with_delay e T st) = cur_soln st"
  "sat_count (with_delay e T st) = sat_count st" "unit_weight (with_delay e T st) = unit_weight st"
  "goodvar (with_delay e T st) = goodvar st" "var_neighbor (with_delay e T st) = var_neighbor st"
  "weight_delta_score (with_delay e T st) = e"
  "neighbor_flag (with_delay e T st) = (\<lambda>v. of_bool (v \<in> set T))"
  by (simp_all add: with_delay_def)

lemma with_delay_upd [simp]:
  "(with_delay e T st)\<lparr>score := f\<rparr> = with_delay e T (st\<lparr>score := f\<rparr>)"
  "(with_delay e T st)\<lparr>goodvar := g\<rparr> = with_delay e T (st\<lparr>goodvar := g\<rparr>)"
  "(with_delay e T st)\<lparr>cur_soln := a\<rparr> = with_delay e T (st\<lparr>cur_soln := a\<rparr>)"
  by (simp_all add: with_delay_def)

lemma with_delay_add [simp]: "add_scores d (with_delay e T st) = with_delay e T (add_scores d st)"
  by (simp add: add_scores_def with_delay_def)

lemma with_delay_count [simp]:
  "update_count_for_occurrence I x l (with_delay e T st) = with_delay e T (update_count_for_occurrence I x l st)"
  by (simp add: update_count_for_occurrence_def with_delay_def Let_def sat_def unsat_def)

lemma occ_delta_with_delay [simp]: "occ_delta I (with_delay e T st) x l = occ_delta I st x l"
  by (rule occ_delta_cong) simp_all

lemma with_delay_one_flip [simp]:
  "update_one_flip_occurrence I x False l (with_delay e T st)
     = with_delay e T (update_one_flip_occurrence I x False l st)"
  by (simp add: one_flip_add)

lemma with_delay_drop_if_bad [simp]: "drop_if_bad i (with_delay e T st) = with_delay e T (drop_if_bad i st)"
  by (simp add: drop_if_bad_def Let_def)

lemma with_delay_add_if_good [simp]: "add_if_good v (with_delay e T st) = with_delay e T (add_if_good v st)"
  by (simp add: add_if_good_def add_to_goodvar_stack_def)

lemma with_delay_goodvarstack [simp]:
  "update_goodvarstack x (with_delay e T st) = with_delay e T (update_goodvarstack x st)"
proof -
  have "fold drop_if_bad js (with_delay e T s) = with_delay e T (fold drop_if_bad js s)" for js s
    by (induction js arbitrary: s) simp_all
  moreover have "fold add_if_good vs (with_delay e T s) = with_delay e T (fold add_if_good vs s)" for vs s
    by (induction vs arbitrary: s) simp_all
  moreover have "var_neighbor (fold drop_if_bad js st) = var_neighbor st" for js
    by (rule ls_restD(3), rule fold_unchanged) simp
  ultimately show ?thesis by (simp add: update_goodvarstack_def Let_def)
qed

lemma delayed_add_scores: "delayed s e (T, st) \<Longrightarrow> delayed (add_scores d s) e (T, add_scores d st)"
  by (auto simp: delayed_def)

lemma delayed_accumulate:
  assumes "delayed s e p"
  shows "delayed s (\<lambda>u. e u + (if u = v then d else 0)) (accumulate_delayed_score v d p)"
proof -
  obtain T where T: "p = (T, with_delay e T s)" "distinct T" "\<forall>v. v \<notin> set T \<longrightarrow> e v = 0"
    using assms by (auto simp: delayed_def)
  have e: "e(v := e v + d) = (\<lambda>u. e u + (if u = v then d else 0))" by auto
  consider "d = 0" | "d \<noteq> 0" "v \<in> set T" | "d \<noteq> 0" "v \<notin> set T" by blast
  then show ?thesis
  proof cases
    case 1
    then show ?thesis using assms by (simp add: accumulate_delayed_score_def split_beta cong: if_cong)
  next
    case 2
    then have "accumulate_delayed_score v d p = (T, with_delay (e(v := e v + d)) T s)"
      by (simp add: accumulate_delayed_score_def T(1) with_delay_def)
    with T 2 show ?thesis unfolding e delayed_def by auto
  next
    case 3
    then have "(\<lambda>u. of_bool (u \<in> set T))(v := 1) = (\<lambda>u. of_bool (u \<in> set (T @ [v])) :: int)" by auto
    with 3 T(3) have "accumulate_delayed_score v d p = (T @ [v], with_delay (e(v := e v + d)) (T @ [v]) s)"
      by (simp add: accumulate_delayed_score_def T(1) with_delay_def)
    with T 3 show ?thesis unfolding e delayed_def by auto
  qed
qed


lemma delayed_literal:
  assumes "delayed s e p"
  shows "delayed (add_scores (\<lambda>u. if uf \<and> var_num l = u \<and> u \<noteq> a \<and> lit_true (cur_soln s) l = t then d else 0) s)
     (\<lambda>u. e u + (if us \<and> var_num l = u \<and> u \<noteq> b \<and> lit_true (cur_soln s) l = t' then d' else 0))
     (shared_pair_literal (uf, a, t, d) (us, b, t', d') l p)" (is "delayed (add_scores ?d s) ?e _")
proof -
  obtain T st where p: "p = (T, st)" by fastforce
  with assms have cur: "cur_soln st = cur_soln s" by (auto simp: delayed_def)
  define st1 where "st1 = (if uf \<and> var_num l \<noteq> a \<and> lit_true (cur_soln st) l = t
      then update_score (var_num l) d NoStackUpdate st else st)"
  have "st1 = add_scores ?d st"
    by (auto simp: st1_def cur update_score_add intro!: arg_cong2 [where f = add_scores] add_scores_0 [symmetric])
  then have st1: "delayed (add_scores ?d s) e (T, st1)"
    using assms by (simp only: p delayed_add_scores)
  have cur1: "cur_soln st1 = cur_soln s" by (simp add: st1_def cur update_score_add)
  show ?thesis
  proof (cases "us \<and> var_num l \<noteq> b \<and> lit_true (cur_soln s) l = t'")
    case True
    then have "shared_pair_literal (uf, a, t, d) (us, b, t', d') l p = accumulate_delayed_score (var_num l) d' (T, st1)"
      by (simp add: shared_pair_literal_def p cur1 Let_def st1_def [symmetric])
    moreover have "?e = (\<lambda>u. e u + (if u = var_num l then d' else 0))" using True by auto
    ultimately show ?thesis using delayed_accumulate [OF st1] by simp
  next
    case False
    then have "shared_pair_literal (uf, a, t, d) (us, b, t', d') l p = (T, st1)"
      by (auto simp: shared_pair_literal_def p cur1 Let_def st1_def [symmetric])
    moreover have "?e = e" using False by auto
    ultimately show ?thesis using st1 by simp
  qed
qed

lemma delayed_row:
  assumes "delayed s e p"
  shows "delayed (add_scores (\<lambda>u. \<Sum>l\<leftarrow>ls. if uf \<and> var_num l = u \<and> u \<noteq> a \<and> lit_true (cur_soln s) l = t then d else 0) s)
     (\<lambda>u. e u + (\<Sum>l\<leftarrow>ls. if us \<and> var_num l = u \<and> u \<noteq> b \<and> lit_true (cur_soln s) l = t' then d' else 0))
     (fold (shared_pair_literal (uf, a, t, d) (us, b, t', d')) ls p)"
  using assms
proof (induction ls arbitrary: s e p)
  case Nil
  then show ?case by (simp add: add_scores_0)
next
  case (Cons l ls)
  from Cons.IH [OF delayed_literal [OF Cons.prems, of uf l a t d us b t' d']]
  show ?case by (simp add: algebra_simps)
qed

text \<open>What the second flip owes to the others through a shared occurrence \<open>l\<close> of the first
  variable, before either counter moves.\<close>

definition pair_delta :: "inst \<Rightarrow> ls \<Rightarrow> nat \<Rightarrow> nat \<Rightarrow> (nat \<Rightarrow> int) \<Rightarrow> lit \<Rightarrow> nat \<Rightarrow> int" where
  "pair_delta I st a b sv l u =
     (let c = clause_num l;
          middle = sat_count st c + (if cur_soln st a = of_bool (sense l) then 1 else -1);
          final = middle + (if 1 - cur_soln st b = of_bool (sv c = 2) then 1 else -1)
      in if sv c = 0 then 0
         else if middle = clause_true_lit_thres I c \<or> final = clause_true_lit_thres I c
         then neighbor_delta I st c b middle final u else 0)"

lemma pair_delta_cong:
  assumes "cur_soln s = cur_soln t" "unit_weight s (clause_num l) = unit_weight t (clause_num l)"
    "sat_count s (clause_num l) = sat_count t (clause_num l)"
  shows "pair_delta I s a b sv l = pair_delta I t a b sv l"
  by (rule ext) (simp only: pair_delta_def Let_def assms neighbor_delta_cong [OF assms(1,2)])

lemma delayed_shared:
  assumes "delayed s e p"
  shows "delayed (add_scores (\<lambda>u. if old = clause_true_lit_thres I c \<or> mid = clause_true_lit_thres I c
            then neighbor_delta I s c a old mid u else 0) s)
     (\<lambda>u. e u + (if mid = clause_true_lit_thres I c \<or> fin = clause_true_lit_thres I c
            then neighbor_delta I s c b mid fin u else 0))
     (update_shared_pair_scores I c a b old mid fin p)"
proof -
  obtain T st where p: "p = (T, st)" by fastforce
  with assms have w: "unit_weight st = unit_weight s" by (auto simp: delayed_def)
  let ?t = "clause_true_lit_thres I c"
  let ?uf = "old = ?t \<or> mid = ?t" and ?us = "mid = ?t \<or> fin = ?t"
  have nd: "(if Q then neighbor_delta I s c x od nw u else 0)
     = (\<Sum>l\<leftarrow>clause_lit I c. if Q \<and> var_num l = u \<and> u \<noteq> x
          \<and> lit_true (cur_soln s) l = update_true_literals ?t od nw then phase_delta ?t (unit_weight s c) od nw else 0)"
    for Q x od nw u
    by (cases Q) (simp_all add: neighbor_delta_def)
  show ?thesis
  proof (cases "\<not> ?uf \<and> \<not> ?us")
    case True
    then show ?thesis using assms by (simp add: update_shared_pair_scores_def p add_scores_0)
  next
    case False
    then have "update_shared_pair_scores I c a b old mid fin p
       = fold (shared_pair_literal (?uf, a, update_true_literals ?t old mid, phase_delta ?t (unit_weight s c) old mid)
            (?us, b, update_true_literals ?t mid fin, phase_delta ?t (unit_weight s c) mid fin)) (clause_lit I c) p"
      by (auto simp: update_shared_pair_scores_def p w Let_def)
    then show ?thesis unfolding nd using delayed_row [OF assms] by simp
  qed
qed

lemma delayed_first_occurrence:
  assumes "delayed s e p"
  shows "delayed (update_one_flip_occurrence I a False l s) (\<lambda>u. e u + pair_delta I s a b sv l u)
           (pair_first_occurrence I a b sv l p)"
proof -
  obtain T st where p: "p = (T, st)" by fastforce
  show ?thesis
  proof (cases "sv (clause_num l) = 0")
    case True
    then show ?thesis using assms
      by (auto simp: pair_first_occurrence_def p delayed_def pair_delta_def)
  next
    case False
    define c where "c = clause_num l"
    define mid where "mid = sat_count s c + (if cur_soln s a = of_bool (sense l) then 1 else -1)"
    define fin where "fin = mid + (if 1 - cur_soln s b = of_bool (sv c = 2) then 1 else -1)"
    have fields: "sat_count st = sat_count s" "cur_soln st = cur_soln s"
      using assms by (auto simp: delayed_def p)
    obtain T' st' where sh: "update_shared_pair_scores I c a b (sat_count s c) mid fin (T, st) = (T', st')"
      by fastforce
    have "pair_first_occurrence I a b sv l p = (T', update_count_for_occurrence I a l st')"
      using False sh by (simp add: pair_first_occurrence_def p Let_def fields c_def mid_def fin_def)
    moreover have "occ_delta I s a l = (\<lambda>u. if sat_count s c = clause_true_lit_thres I c
        \<or> mid = clause_true_lit_thres I c then neighbor_delta I s c a (sat_count s c) mid u else 0)"
      by (rule ext) (simp only: occ_delta_def Let_def c_def mid_def)
    moreover have "pair_delta I s a b sv l = (\<lambda>u. if mid = clause_true_lit_thres I c
        \<or> fin = clause_true_lit_thres I c then neighbor_delta I s c b mid fin u else 0)"
      using False by (simp only: pair_delta_def [abs_def] Let_def c_def mid_def fin_def if_False)
    moreover note delayed_shared [OF assms, of "sat_count s c" I c mid a fin b, unfolded p sh]
    ultimately show ?thesis by (auto simp: delayed_def one_flip_add)
  qed
qed

lemma sum_list_pair_delta_count:
  assumes "clause_num l' \<notin> clause_num ` set ls"
  shows "(\<Sum>l\<leftarrow>ls. pair_delta I (update_one_flip_occurrence I x False l' st) a b sv l u)
    = (\<Sum>l\<leftarrow>ls. pair_delta I st a b sv l u)"
proof -
  have "pair_delta I (update_one_flip_occurrence I x False l' st) a b sv l = pair_delta I st a b sv l"
    if "l \<in> set ls" for l
    using that assms by (intro pair_delta_cong) (auto simp: one_flip_add image_iff)
  then show ?thesis by (simp cong: map_cong)
qed

lemma delayed_first_loop:
  assumes "delayed s e p" and "distinct (map clause_num ls)"
  shows "delayed (fold (update_one_flip_occurrence I a False) ls s)
           (\<lambda>u. e u + (\<Sum>l\<leftarrow>ls. pair_delta I s a b sv l u)) (fold (pair_first_occurrence I a b sv) ls p)"
  using assms
proof (induction ls arbitrary: s e p)
  case Nil
  then show ?case by simp
next
  case (Cons l ls)
  have "distinct (map clause_num ls)" "clause_num l \<notin> clause_num ` set ls" using Cons.prems by auto
  with Cons.IH [OF delayed_first_occurrence [OF Cons.prems(1), of I a l b sv]]
  show ?case by (simp add: sum_list_pair_delta_count algebra_simps)
qed


lemma fold_flush_delayed:
  assumes "distinct T" and "\<forall>v. v \<notin> set T \<longrightarrow> e v = 0"
  shows "fold flush_delayed T (with_delay e T s) = with_delay (\<lambda>_. 0) [] (add_scores e s)"
  using assms
proof (induction T arbitrary: e s)
  case Nil
  then have "e = (\<lambda>_. 0)" by auto
  then show ?case by (simp add: add_scores_0)
next
  case (Cons v T)
  have "(\<lambda>u. of_bool (u \<in> set (v # T)))(v := 0) = (\<lambda>u. of_bool (u \<in> set T) :: int)"
    using Cons.prems(1) by auto
  then have "flush_delayed v (with_delay e (v # T) s)
      = with_delay (e(v := 0)) T (add_scores (\<lambda>u. if u = v then e v else 0) s)"
    by (simp add: flush_delayed_def Let_def update_score_add) (simp add: with_delay_def)
  moreover have "add_scores (e(v := 0)) (add_scores (\<lambda>u. if u = v then e v else 0) s) = add_scores e s"
    by (auto intro!: arg_cong2 [where f = add_scores])
  moreover have "fold flush_delayed T (with_delay (e(v := 0)) T s') = with_delay (\<lambda>_. 0) [] (add_scores (e(v := 0)) s')" for s'
    using Cons.prems by (intro Cons.IH) auto
  ultimately show ?case by (simp del: add_scores_twice)
qed

section \<open>The merge and the second loop\<close>

lemma mark_shared_ok:
  assumes "sorted_wrt (<) (map clause_num fs)" and "sorted_wrt (<) (map clause_num ss)"
    and "mark_shared fs ss (temp, sv) = (temp', sv')"
  shows "set temp' = set temp \<union> (clause_num ` set fs \<inter> clause_num ` set ss)
    \<and> (\<forall>c. c \<notin> clause_num ` set fs \<inter> clause_num ` set ss \<longrightarrow> sv' c = sv c)
    \<and> (\<forall>b\<in>set ss. clause_num b \<in> clause_num ` set fs \<longrightarrow> sv' (clause_num b) = (if sense b then 2 else 1))"
  using assms
proof (induction fs ss "(temp, sv)" arbitrary: temp sv rule: mark_shared.induct)
  case (1 a fs b ss temp sv)
  consider "clause_num a < clause_num b" | "clause_num b < clause_num a" | "clause_num a = clause_num b"
    by linarith
  then show ?case
  proof cases
    case lt: 1
    have "clause_num a \<notin> clause_num ` set (b # ss)" using lt "1.prems"(2) by auto
    then show ?thesis using "1.hyps"(1) [OF lt] "1.prems" lt by auto
  next
    case gt: 2
    have "clause_num b \<notin> clause_num ` set (a # fs)" using gt "1.prems"(1) by auto
    then show ?thesis using "1.hyps"(2) gt "1.prems" by auto
  next
    case eq: 3
    have n: "clause_num a \<notin> clause_num ` set fs" "clause_num a \<notin> clause_num ` set ss"
      "\<forall>x\<in>set ss. clause_num x \<noteq> clause_num b"
      using eq "1.prems"(1,2) by auto
    have "mark_shared fs ss (temp @ [clause_num a], sv(clause_num a := if sense b then 2 else 1)) = (temp', sv')"
      using "1.prems"(3) eq by simp
    from "1.hyps"(3) [OF _ _ _ _ this] "1.prems"(1,2) eq
    have "set temp' = set (temp @ [clause_num a]) \<union> (clause_num ` set fs \<inter> clause_num ` set ss)"
      "\<forall>c. c \<notin> clause_num ` set fs \<inter> clause_num ` set ss
         \<longrightarrow> sv' c = (sv(clause_num a := if sense b then 2 else 1)) c"
      "\<forall>b\<in>set ss. clause_num b \<in> clause_num ` set fs \<longrightarrow> sv' (clause_num b) = (if sense b then 2 else 1)"
      by auto
    then show ?thesis using n eq by auto
  qed
qed auto

lemma fold_second_occurrence:
  assumes "distinct (map clause_num ls)"
  shows "fold (pair_second_occurrence I b sv) ls st
    = add_scores (\<lambda>u. \<Sum>l\<leftarrow>ls. if sv (clause_num l) = 0 then occ_delta I st b l u else 0)
        (fold (update_count_for_occurrence I b) ls st)"
  using assms
proof (induction ls arbitrary: st)
  case Nil
  then show ?case by (simp add: add_scores_0)
next
  case (Cons l ls)
  have n: "clause_num l \<notin> clause_num ` set ls" using Cons.prems by simp
  let ?st = "update_count_for_occurrence I b l st"
  have o: "(\<Sum>l'\<leftarrow>ls. if sv (clause_num l') = 0 then occ_delta I ?st b l' u else 0)
      = (\<Sum>l'\<leftarrow>ls. if sv (clause_num l') = 0 then occ_delta I st b l' u else 0)" for u
    using n by (induction ls) (auto simp: occ_delta_count)
  have "fold (pair_second_occurrence I b sv) ls ?st
      = add_scores (\<lambda>u. \<Sum>l\<leftarrow>ls. if sv (clause_num l) = 0 then occ_delta I st b l u else 0)
          (fold (update_count_for_occurrence I b) ls ?st)"
    using Cons by (simp add: o)
  moreover have "fold (pair_second_occurrence I b sv) ls (add_scores d ?st)
      = add_scores (\<lambda>u. d u + (\<Sum>l\<leftarrow>ls. if sv (clause_num l) = 0 then occ_delta I st b l u else 0))
          (fold (update_count_for_occurrence I b) ls ?st)" for d
    using Cons by (simp add: o cong: if_cong)
  moreover have "pair_second_occurrence I b sv l st
      = (if sv (clause_num l) = 0 then add_scores (occ_delta I st b l) ?st else ?st)"
    by (simp add: pair_second_occurrence_def one_flip_add)
  ultimately show ?case by simp
qed

lemma sum_shared_clauses:
  fixes f g :: "lit \<Rightarrow> int"
  assumes da: "distinct (map clause_num la)" and db: "distinct (map clause_num lb)"
    and fa: "\<And>l. l \<in> set la \<Longrightarrow> clause_num l \<notin> clause_num ` set lb \<Longrightarrow> f l = 0"
    and gb: "\<And>m. m \<in> set lb \<Longrightarrow> clause_num m \<notin> clause_num ` set la \<Longrightarrow> g m = 0"
    and fg: "\<And>l m. l \<in> set la \<Longrightarrow> m \<in> set lb \<Longrightarrow> clause_num l = clause_num m \<Longrightarrow> f l = g m"
  shows "(\<Sum>l\<leftarrow>la. f l) = (\<Sum>m\<leftarrow>lb. g m)"
proof -
  let ?S = "\<lambda>ls ls'. {l \<in> set ls. clause_num l \<in> clause_num ` set ls'}"
  let ?m = "\<lambda>ls l. the_inv_into (set ls) clause_num (clause_num l)"
  have ia: "inj_on clause_num (set la)" and ib: "inj_on clause_num (set lb)"
    using da db by (simp_all add: distinct_map)
  have "(\<Sum>l\<leftarrow>la. f l) = sum f (?S la lb)"
    using da by (simp add: sum_list_distinct_conv_sum_set distinct_map) (rule sum.mono_neutral_right, auto intro: fa)
  also have "\<dots> = sum g (?S lb la)"
  proof (rule sum.reindex_bij_witness [where i = "?m la" and j = "?m lb"])
    fix l assume l: "l \<in> ?S la lb"
    then obtain m where m: "m \<in> set lb" "clause_num m = clause_num l" by auto
    then have e: "?m lb l = m" using the_inv_into_f_f [OF ib] by metis
    show "?m la (?m lb l) = l" "?m lb l \<in> ?S lb la" using l m the_inv_into_f_f [OF ia] unfolding e by auto
    show "g (?m lb l) = f l" using l m fg unfolding e by auto
  next
    fix l assume l: "l \<in> ?S lb la"
    then obtain m where m: "m \<in> set la" "clause_num m = clause_num l" by auto
    then have e: "?m la l = m" using the_inv_into_f_f [OF ia] by metis
    show "?m lb (?m la l) = l" "?m la l \<in> ?S la lb" using l m the_inv_into_f_f [OF ib] unfolding e by auto
  qed
  also have "\<dots> = (\<Sum>m\<leftarrow>lb. g m)"
    using db by (simp add: sum_list_distinct_conv_sum_set distinct_map) (rule sum.mono_neutral_left, auto intro: gb)
  finally show ?thesis .
qed


section \<open>The pair flip is the two single flips\<close>

lemma neighbor_delta_other_soln:
  assumes "\<And>v. v \<noteq> x \<Longrightarrow> cur_soln s v = cur_soln t v" and "unit_weight s c = unit_weight t c"
  shows "neighbor_delta I s c x old new u = neighbor_delta I t c x old new u"
proof -
  have "lit_true (cur_soln s) l = lit_true (cur_soln t) l" if "var_num l = u" "u \<noteq> x" for l
    using that assms(1) by (simp add: lit_true_def)
  then show ?thesis
    by (auto simp: neighbor_delta_def assms(2) intro!: arg_cong [where f = sum_list])
qed

lemma no_delay: "scratch_ok st \<Longrightarrow> with_delay (\<lambda>_. 0) [] st = st"
  by (simp add: with_delay_def scratch_ok_def)

lemma with_delay_none: "(\<lambda>_. 0) = weight_delta_score s \<Longrightarrow> neighbor_flag s = (\<lambda>_. 0) \<Longrightarrow> with_delay (\<lambda>_. 0) [] s = s"
  by (simp add: with_delay_def)

lemma pair_sum:
  assumes wf: "wf_inst I" and ab: "a \<noteq> b"
    and H: "cur_soln H = (cur_soln s)(b := 1 - cur_soln s b)" "unit_weight H = unit_weight s"
      "sat_count H = sat_count (fold (update_count_for_occurrence I a) (var_lit I a) s)"
    and sv: "\<And>c. c \<notin> clause_num ` set (var_lit I a) \<inter> clause_num ` set (var_lit I b) \<Longrightarrow> sv c = 0"
      "\<And>m. m \<in> set (var_lit I b) \<Longrightarrow> clause_num m \<in> clause_num ` set (var_lit I a)
          \<Longrightarrow> sv (clause_num m) = (if sense m then 2 else 1)"
  shows "(\<Sum>l\<leftarrow>var_lit I a. pair_delta I s a b sv l u)
    = (\<Sum>m\<leftarrow>var_lit I b. if sv (clause_num m) = 0 then 0 else occ_delta I H b m u)"
proof (rule sum_shared_clauses)
  have d: "distinct (map clause_num (var_lit I v))" for v
    using var_lit_sorted [OF wf] by (rule strict_sorted_iff [THEN iffD1, THEN conjunct2])
  show "distinct (map clause_num (var_lit I a))" "distinct (map clause_num (var_lit I b))" by (rule d)+
  show "pair_delta I s a b sv l u = 0"
    if "l \<in> set (var_lit I a)" "clause_num l \<notin> clause_num ` set (var_lit I b)" for l
    using that sv(1) by (simp add: pair_delta_def Let_def)
  show "(if sv (clause_num m) = 0 then 0 else occ_delta I H b m u) = 0"
    if "m \<in> set (var_lit I b)" "clause_num m \<notin> clause_num ` set (var_lit I a)" for m
    using that sv(1) by simp
  show "pair_delta I s a b sv l u = (if sv (clause_num m) = 0 then 0 else occ_delta I H b m u)"
    if l: "l \<in> set (var_lit I a)" and m: "m \<in> set (var_lit I b)" and c: "clause_num l = clause_num m" for l m
  proof -
    define mid where "mid = sat_count s (clause_num m) + (if cur_soln s a = of_bool (sense l) then 1 else -1)"
    have svm: "sv (clause_num m) = (if sense m then 2 else 1)" using sv(2) m l c by (metis imageI)
    then have sm: "(sv (clause_num m) = 2) = sense m" "sv (clause_num m) \<noteq> 0" by simp_all
    have mid: "sat_count H (clause_num m) = mid"
      using fold_count_at [OF d l] by (simp add: H(3) mid_def c)
    have "neighbor_delta I H c' b old new u = neighbor_delta I s c' b old new u" for c' old new
      by (rule neighbor_delta_other_soln) (simp_all add: H)
    then show ?thesis
      by (simp only: pair_delta_def occ_delta_def Let_def mid sm if_False c H(1) fun_upd_same mid_def)
  qed
qed

lemma sat_var_same: "sat_var s = x \<Longrightarrow> s\<lparr>sat_var := x\<rparr> = s"
  by (cases s) simp

lemma flip_pair_fast_path:
  assumes wf: "wf_inst I" and scr: "scratch_ok st" and mode: "materialized_neighbor_mode st"
    and sv0: "sat_var st = Some sv0" and ab: "a \<noteq> b"
    and ms: "mark_shared (var_lit I a) (var_lit I b) ([], sv0) = (temp, sv)"
    and loop: "fold (pair_first_occurrence I a b sv) (var_lit I a)
        ([], st\<lparr>cur_soln := (cur_soln st)(a := 1 - cur_soln st a)\<rparr>) = (touched, st1)"
    and st2: "st2 = update_goodvarstack a (st1\<lparr>score := (score st1)(a := - score st a)\<rparr>)"
    and st3: "st3 = fold (pair_second_occurrence I b sv) (var_lit I b)
        (fold flush_delayed touched (st2\<lparr>cur_soln := (cur_soln st2)(b := 1 - cur_soln st2 b)\<rparr>))"
    and st4: "st4 = update_goodvarstack b (st3\<lparr>score := (score st3)(b := - score st2 b)\<rparr>)"
  shows "st4\<lparr>sat_var := Some (fold (\<lambda>c sv. sv(c := 0)) temp sv)\<rparr> = flip I b (flip I a st)"
proof -
  have sorted: "sorted_wrt (<) (map clause_num (var_lit I v))" for v by (rule var_lit_sorted [OF wf])
  then have d: "distinct (map clause_num (var_lit I v))" for v by (simp add: strict_sorted_iff)
  have sv00: "sv0 = (\<lambda>_. 0)" using scr sv0 by (simp add: scratch_ok_def)
  note marks = mark_shared_ok [OF sorted sorted ms]
  define s where "s = st\<lparr>cur_soln := (cur_soln st)(a := 1 - cur_soln st a)\<rparr>"
  define F where "F = fold (update_one_flip_occurrence I a False) (var_lit I a) s"
  define e where "e = (\<lambda>u. \<Sum>l\<leftarrow>var_lit I a. pair_delta I s a b sv l u)"
  define G where "G = update_goodvarstack a (F\<lparr>score := (score F)(a := - score st a)\<rparr>)"
  define H where "H = G\<lparr>cur_soln := (cur_soln G)(b := 1 - cur_soln G b)\<rparr>"
  have G_flip: "flip I a st = G"
    by (simp add: flip_def mode flip_with_neighbor_def Let_def flip_update_score_multi_impl_def G_def F_def s_def)
  have "scratch_ok s" using scr by (simp add: s_def scratch_ok_def)
  then have "delayed s (\<lambda>_. 0) ([], s)" by (simp add: delayed_def no_delay)
  from delayed_first_loop [OF this d [of a], where I = I and a = a and b = b and sv = sv]
  have "delayed F e (touched, st1)" using loop by (simp add: s_def [symmetric] e_def F_def)
  then obtain T where T: "touched = T" "st1 = with_delay e T F" "distinct T" "\<forall>v. v \<notin> set T \<longrightarrow> e v = 0"
    by (auto simp: delayed_def)
  have st2': "st2 = with_delay e T G" by (simp add: st2 T G_def)
  have rF: "ls_rest F = ls_rest s" unfolding F_def by (rule fold_unchanged) simp
  have rG: "ls_rest G = ls_rest s" by (simp add: G_def rF)
  note Gf = ls_restD [OF rG]
  have H_clean: "with_delay (\<lambda>_. 0) [] (add_scores f H) = add_scores f H" for f
    using scr by (intro with_delay_none) (simp_all add: add_scores_def H_def Gf s_def scratch_ok_def)
  have flushed: "fold flush_delayed touched (st2\<lparr>cur_soln := (cur_soln st2)(b := 1 - cur_soln st2 b)\<rparr>) = add_scores e H"
    using fold_flush_delayed [OF T(3,4), of H] by (simp add: st2' T(1) H_clean H_def [symmetric])
  have "cur_soln H = (cur_soln s)(b := 1 - cur_soln s b)" "unit_weight H = unit_weight s"
    by (simp_all add: H_def Gf)
  moreover have "sat_count H = sat_count (fold (update_count_for_occurrence I a) (var_lit I a) s)"
    by (simp add: H_def G_def F_def fold_one_flip_add d)
  ultimately have sums: "e u = (\<Sum>m\<leftarrow>var_lit I b. if sv (clause_num m) = 0 then 0 else occ_delta I H b m u)" for u
    unfolding e_def using marks sv00 by (intro pair_sum [OF wf ab]) auto
  have "st3 = add_scores (\<lambda>u. \<Sum>m\<leftarrow>var_lit I b. occ_delta I H b m u) (fold (update_count_for_occurrence I b) (var_lit I b) H)"
    unfolding st3 flushed fold_second_occurrence [OF d]
    by (simp add: sums sum_list_map_add [symmetric] cong: if_cong)
       (rule arg_cong2 [where f = add_scores], auto intro!: arg_cong [where f = sum_list])
  then have "st3 = fold (update_one_flip_occurrence I b False) (var_lit I b) H"
    by (simp add: fold_one_flip_add d)
  then have st4': "st4 = flip_with_neighbor I b G"
    by (simp add: st4 st2' flip_with_neighbor_def Let_def flip_update_score_multi_impl_def H_def)
  have mG: "materialized_neighbor_mode G" by (simp add: Gf s_def mode)
  have "fold (\<lambda>c sv. sv(c := 0)) xs f = (\<lambda>c. if c \<in> set xs then 0 else f c)" for xs and f :: "nat \<Rightarrow> int"
    by (induction xs arbitrary: f) auto
  then have "fold (\<lambda>c sv. sv(c := 0)) temp sv = (\<lambda>_. 0)" using marks sv00 by auto
  moreover have "sat_var st4 = Some (\<lambda>_. 0)"
    using flip_frame(7) [of I b G] mG sv0 sv00 by (simp add: st4' flip_def Gf s_def)
  moreover have "flip I b (flip I a st) = st4" unfolding G_flip by (simp add: flip_def mG st4')
  ultimately show ?thesis by (simp add: sat_var_same)
qed

lemma flip_pair_atomic_eq:
  assumes "wf_inst I" and "scratch_ok st"
  shows "flip_pair_atomic I a b st
    = (if a \<in> {1..num_vars I} \<and> b \<in> {1..num_vars I} \<and> a \<noteq> b then flip I b (flip I a st) else st)"
proof (cases "a \<in> {1..num_vars I} \<and> b \<in> {1..num_vars I} \<and> a \<noteq> b")
  case False
  then show ?thesis by (auto simp: flip_pair_atomic_def)
next
  case True
  then have g: "\<not> (a = 0 \<or> b = 0 \<or> a > num_vars I \<or> b > num_vars I \<or> a = b)" by auto
  obtain temp sv where ms: "mark_shared (var_lit I a) (var_lit I b) ([], the (sat_var st)) = (temp, sv)"
    by fastforce
  obtain touched st1 where loop: "fold (pair_first_occurrence I a b sv) (var_lit I a)
        ([], st\<lparr>cur_soln := (cur_soln st)(a := 1 - cur_soln st a)\<rparr>) = (touched, st1)" by fastforce
  show ?thesis
  proof (cases "sat_var st = None \<or> \<not> materialized_neighbor_mode st \<or> has_repeated_clause_occurrence I a
      \<or> has_repeated_clause_occurrence I b \<or> temp = []")
    case slow: True
    then show ?thesis using True g ms
      by (auto simp: flip_pair_atomic_def split: option.splits)
  next
    case False
    then obtain sv0 where sv0: "sat_var st = Some sv0" and m: "materialized_neighbor_mode st" by auto
    note fast = flip_pair_fast_path [OF assms m sv0 _ ms [unfolded sv0 option.sel] loop refl refl refl]
    show ?thesis using False True g ms loop fast
      by (simp add: flip_pair_atomic_def sv0 Let_def)
  qed
qed


section \<open>The probes of the swap move\<close>

lemma distinct_walk:
  assumes "coprime stride (n :: nat)" and "k \<le> n"
  shows "distinct (map (\<lambda>i. (start + i * stride) mod n) [0..<k])"
proof -
  have "i = j" if "i \<le> j" "j < n" "(start + i * stride) mod n = (start + j * stride) mod n" for i j
  proof -
    have "n dvd (start + j * stride) - (start + i * stride)"
      using that(1,3) by (metis add_le_cancel_left mod_eq_dvd_iff_nat mult_le_mono1)
    then have "n dvd (j - i) * stride" by (simp add: diff_mult_distrib)
    then have "n dvd j - i" using assms(1) by (simp add: coprime_commute coprime_dvd_mult_left_iff)
    then show "i = j" using that(1,2) by (metis diff_diff_cancel diff_zero dvd_imp_le less_imp_diff_less
          linorder_not_less neq0_conv)
  qed
  then have "inj_on (\<lambda>i. (start + i * stride) mod n) {0..<k}"
    using assms(2) by (intro linorder_inj_onI') (metis atLeastLessThan_iff less_imp_le less_irrefl order_less_le_trans)
  then show ?thesis by (simp add: distinct_map)
qed

lemma swap_bms_sample_count_value:
  assumes "0 < n"
  shows "swap_bms_sample_count (int n) cap = min (int ((n - 1) div 2) + 1) cap"
proof -
  have "(int n - 1) sdiv 2 = int ((n - 1) div 2)"
    using assms by (simp add: signed_divide_int_def sgn_if of_nat_diff zdiv_int)
  then show ?thesis by (simp add: swap_bms_sample_count_def)
qed

lemma swap_probes_ok:
  assumes "0 < n" and "stride = 1 \<or> 1 < n \<and> stride = n - 1" and "k \<le> n"
  shows "distinct (swap_probes n k start stride)" and "set (swap_probes n k start stride) \<subseteq> {..<n}"
    and "length (swap_probes n k start stride) = k"
proof -
  have "coprime stride n" using assms(1,2) coprime_diff_one_left_nat [of n] by auto
  then show "distinct (swap_probes n k start stride)"
    unfolding swap_probes_def using assms(3) by (rule distinct_walk)
qed (use assms(1) in \<open>auto simp: swap_probes_def\<close>)

section \<open>The swap move keeps the invariant\<close>

definition swap_pick :: "(nat \<Rightarrow> int) \<Rightarrow> lit list \<Rightarrow> bool \<Rightarrow> nat \<Rightarrow> bool" where
  "swap_pick a row b v \<longleftrightarrow> v = 0 \<or> (\<exists>l\<in>set row. var_num l = v \<and> lit_true a l = b)"

text \<open>Only the state of the generator differs.\<close>

definition prng_only :: "ls \<Rightarrow> ls \<Rightarrow> bool" where
  "prng_only s t \<longleftrightarrow> (\<exists>x. t = s\<lparr>m_prng_state := x\<rparr>)"

lemma prng_only_refl [simp]: "prng_only s s"
  unfolding prng_only_def by (rule exI [of _ "m_prng_state s"]) simp

lemma prng_only_trans: "prng_only s t \<Longrightarrow> prng_only t u \<Longrightarrow> prng_only s u"
  unfolding prng_only_def by (elim exE) (simp, rule exI, rule refl)

lemma prng_only_fast_rand [simp]: "prng_only s (snd (fast_rand s))"
  unfolding prng_only_def using fast_rand_state by (rule exI)

lemma prng_only_rand_below: "rand_below n s = (r, t) \<Longrightarrow> prng_only s t"
  by (metis rand_below_def prng_only_fast_rand prod.collapse snd_conv case_prod_conv)

lemma prng_onlyD:
  assumes "prng_only s t"
  shows "cur_soln t = cur_soln s" "ls_inv I t = ls_inv I s" "cardsat t = cardsat s" "sat_count t = sat_count s"
    "ls_step t = ls_step s" "total_step t = total_step s" "tries t = tries s"
    "hardunsat t = hardunsat s" "unit_weight t = unit_weight s"
    "materialized_neighbor_mode t = materialized_neighbor_mode s"
  using assms unfolding prng_only_def by (elim exE, simp)+

lemma better_swap_ok:
  assumes "better_swap v best st = (b, st')"
  shows "(b = v \<or> b = best) \<and> prng_only st st'"
  using assms prng_only_fast_rand [of st]
  by (auto simp: better_swap_def Let_def split_beta simp del: prng_only_fast_rand split: if_splits)

lemma swap_consider_ok:
  assumes "swap_consider l (bt, bf, st) = (bt', bf', st')" and "l \<in> set row"
    and "swap_pick (cur_soln st) row True bt" and "swap_pick (cur_soln st) row False bf"
  shows "swap_pick (cur_soln st) row True bt' \<and> swap_pick (cur_soln st) row False bf' \<and> prng_only st st'"
proof (cases "lit_true (cur_soln st) l")
  case True
  obtain b st1 where b: "better_swap (var_num l) bt st = (b, st1)" by fastforce
  with assms(1) True have "bt' = b" "bf' = bf" "st' = st1" by (auto simp: swap_consider_def)
  with better_swap_ok [OF b] assms True show ?thesis by (auto simp: swap_pick_def)
next
  case False
  obtain b st1 where b: "better_swap (var_num l) bf st = (b, st1)" by fastforce
  with assms(1) False have "bt' = bt" "bf' = b" "st' = st1" by (auto simp: swap_consider_def)
  with better_swap_ok [OF b] assms False show ?thesis by (auto simp: swap_pick_def)
qed

lemma swap_scan_ok:
  assumes "fold (\<lambda>i. swap_consider (row ! i)) js (bt, bf, st) = (bt', bf', st')"
    and "set js \<subseteq> {..<length row}"
    and "swap_pick (cur_soln st) row True bt" and "swap_pick (cur_soln st) row False bf"
  shows "swap_pick (cur_soln st) row True bt' \<and> swap_pick (cur_soln st) row False bf' \<and> prng_only st st'"
  using assms
proof (induction js arbitrary: bt bf st)
  case Nil
  then show ?case by simp
next
  case (Cons i ks)
  obtain bt1 bf1 st1 where c: "swap_consider (row ! i) (bt, bf, st) = (bt1, bf1, st1)"
    by (metis prod_cases3)
  have "row ! i \<in> set row" using Cons.prems(2) by auto
  note step = swap_consider_ok [OF c this Cons.prems(3,4)]
  then have cur: "cur_soln st1 = cur_soln st" by (simp add: prng_onlyD)
  have "fold (\<lambda>i. swap_consider (row ! i)) ks (bt1, bf1, st1) = (bt', bf', st')"
    using Cons.prems(1) c by simp
  from Cons.IH [OF this] Cons.prems(2) step show ?case by (auto simp: cur intro: prng_only_trans)
qed


lemma ls_inv_time_stamp [simp]: "ls_inv I (st\<lparr>time_stamp := f\<rparr>) = ls_inv I st"
  by (simp add: ls_inv_def soln_ok_def counts_ok_def scores_ok_def score_at_def stacks_ok_def
      unsat_clauses_def weights_ok_def scratch_ok_def neighbors_ok_def good_ok_def)

lemma flip_pair_ok:
  assumes wf: "wf_inst I" and inv: "ls_inv I st" and ab: "a \<in> {1..num_vars I}" "b \<in> {1..num_vars I}" "a \<noteq> b"
  shows "ls_inv I (flip_pair_atomic I a b st)"
    and "cur_soln (flip_pair_atomic I a b st) = flip_soln b (flip_soln a (cur_soln st))"
    and "materialized_neighbor_mode (flip_pair_atomic I a b st) = materialized_neighbor_mode st"
    and "ls_step (flip_pair_atomic I a b st) = ls_step st"
    and "total_step (flip_pair_atomic I a b st) = total_step st"
proof -
  have s: "scratch_ok st" using inv by (simp add: ls_inv_def)
  have e: "flip_pair_atomic I a b st = flip I b (flip I a st)"
    using flip_pair_atomic_eq [OF wf s] ab by simp
  show "ls_inv I (flip_pair_atomic I a b st)"
    unfolding e using ab by (intro flip_inv [OF wf] inv) auto
  show "cur_soln (flip_pair_atomic I a b st) = flip_soln b (flip_soln a (cur_soln st))"
    "materialized_neighbor_mode (flip_pair_atomic I a b st) = materialized_neighbor_mode st"
    "ls_step (flip_pair_atomic I a b st) = ls_step st"
    "total_step (flip_pair_atomic I a b st) = total_step st"
    by (simp_all add: e flip_frame)
qed

text \<open>Trading a true literal of a row for a false one leaves the count of the row.\<close>

lemma true_count_swap:
  assumes d: "distinct (map var_num row)" and l: "l \<in> set row" "lit_true A l" and m: "m \<in> set row" "\<not> lit_true A m"
    and bin: "A (var_num l) = 0 \<or> A (var_num l) = 1" "A (var_num m) = 0 \<or> A (var_num m) = 1"
  shows "true_count (flip_soln (var_num m) (flip_soln (var_num l) A)) row = true_count A row"
proof -
  let ?A1 = "flip_soln (var_num l) A"
  let ?A2 = "flip_soln (var_num m) ?A1"
  have nm: "var_num m \<noteq> var_num l"
    using d l m by (metis distinct_map inj_on_eq_iff)
  then have same: "?A1 (var_num m) = A (var_num m)" by (simp add: flip_soln_def)
  with bin have bin1: "?A1 (var_num m) = 0 \<or> ?A1 (var_num m) = 1" by simp
  have "true_count ?A1 row = true_count A row - 1"
    using lit_true_flip_same [where a = A and v = "var_num l", OF bin(1) refl] l
    by (simp add: true_count_flip [where a = A and v = "var_num l", OF bin(1)] filter_eq_singleton [OF d l(1)] count_delta_def)
  moreover have "lit_true ?A2 m"
    using lit_true_flip_same [where a = ?A1 and v = "var_num m", OF bin1 refl] m(2) nm by simp
  then have "true_count ?A2 row = true_count ?A1 row + 1"
    by (simp add: true_count_flip [where a = ?A1 and v = "var_num m", OF bin1] filter_eq_singleton [OF d m(1)] count_delta_def)
  ultimately show ?thesis by simp
qed

lemma swap_row_ok:
  assumes wf: "wf_inst I" and inv: "ls_inv I st" and c: "c < num_clauses I"
    and p: "swap_pick (cur_soln st) (clause_lit I c) True a" "swap_pick (cur_soln st) (clause_lit I c) False b"
    and ab: "a \<noteq> 0" "b \<noteq> 0" "a \<noteq> b"
  shows "a \<in> {1..num_vars I}" "b \<in> {1..num_vars I}"
    and "true_count (flip_soln b (flip_soln a (cur_soln st))) (clause_lit I c) = true_count (cur_soln st) (clause_lit I c)"
proof -
  obtain l m where l: "l \<in> set (clause_lit I c)" "var_num l = a" "lit_true (cur_soln st) l"
    and m: "m \<in> set (clause_lit I c)" "var_num m = b" "\<not> lit_true (cur_soln st) m"
    using p ab by (auto simp: swap_pick_def)
  have "indexed_inst I" "distinct (map var_num (clause_lit I c))" using wf c by (simp_all add: wf_inst_def)
  note range = clause_var_range [OF this(1) c] and d = this(2)
  show a: "a \<in> {1..num_vars I}" and b: "b \<in> {1..num_vars I}" using range l m by auto
  have "\<forall>v\<in>{1..num_vars I}. cur_soln st v = 0 \<or> cur_soln st v = 1" using inv by (simp add: ls_inv_def soln_ok_def)
  then show "true_count (flip_soln b (flip_soln a (cur_soln st))) (clause_lit I c) = true_count (cur_soln st) (clause_lit I c)"
    using true_count_swap [OF d l(1,3) m(1,3)] a b l m by simp
qed


lemma swap_vars_cases:
  assumes wf: "wf_inst I" and inv: "ls_inv I st"
  shows "prng_only st (swap_vars I P st)
    \<or> (\<exists>c\<in>card_clauses I - unsat_clauses I st. \<exists>a b st1. prng_only st st1
        \<and> swap_pick (cur_soln st) (clause_lit I c) True a \<and> swap_pick (cur_soln st) (clause_lit I c) False b
        \<and> a \<noteq> 0 \<and> b \<noteq> 0 \<and> a \<noteq> b
        \<and> swap_vars I P st = (flip_pair_atomic I a b st1)\<lparr>time_stamp :=
             (time_stamp (flip_pair_atomic I a b st1))(a := int (ls_step (flip_pair_atomic I a b st1)),
                                                      b := int (ls_step (flip_pair_atomic I a b st1)))\<rparr>)"
proof (cases "fill_pointer (cardsat st) = 0")
  case True
  then show ?thesis by (simp add: swap_vars_def)
next
  case False
  obtain r st1 where r: "rand_below (fill_pointer (cardsat st)) st = (r, st1)" by fastforce
  have "r < fill_pointer (cardsat st)" using r False by (auto elim: rand_belowE)
  define c where "c = items (cardsat st) ! r"
  define n where "n = clause_lit_count I c"
  have c: "c \<in> card_clauses I - unsat_clauses I st"
    using \<open>r < fill_pointer (cardsat st)\<close> inv nth_mem unfolding c_def ls_inv_def stacks_ok_def by metis
  then have n: "0 < n" using wf by (simp add: n_def wf_inst_def card_clauses_def)
  have p1: "prng_only st st1" using r by (rule prng_only_rand_below)
  obtain start st2 where s: "rand_below n st1 = (start, st2)" by fastforce
  have p2: "prng_only st1 st2" using s by (rule prng_only_rand_below)
  define w where "w = (if n > 1 then let (r, st) = fast_rand st2 in (if r AND 1 = 0 then 1 else n - 1, st) else (1, st2))"
  obtain stride st3 where w': "w = (stride, st3)" by fastforce
  have "prng_only st2 st3" using w' prng_only_fast_rand [of st2]
    by (auto simp: w_def Let_def split_beta simp del: prng_only_fast_rand split: if_splits)
  then have p3: "prng_only st st3" using p1 p2 by (blast intro: prng_only_trans)
  define js where "js = swap_probes n (nat (swap_bms_sample_count (int n) (swap_bms_cap P))) start stride"
  obtain a b st4 where scan: "fold (\<lambda>i. swap_consider (clause_lit I c ! i)) js (0, 0, st3) = (a, b, st4)"
    by (metis prod_cases3)
  have "set js \<subseteq> {..<clause_lit_count I c}" using n by (auto simp: js_def swap_probes_def n_def)
  from swap_scan_ok [OF scan this] have p: "swap_pick (cur_soln st3) (clause_lit I c) True a"
    "swap_pick (cur_soln st3) (clause_lit I c) False b" "prng_only st3 st4"
    by (auto simp: swap_pick_def)
  have "swap_vars I P st = (if a = 0 \<or> b = 0 \<or> a = b then st4
      else let st = flip_pair_atomic I a b st4 in st\<lparr>time_stamp := (time_stamp st)(a := int (ls_step st), b := int (ls_step st))\<rparr>)"
    using False n unfolding swap_vars_def r c_def [symmetric] prng_onlyD(3) [OF p1] n_def [symmetric] Let_def
      case_prod_conv s w_def [unfolded Let_def, symmetric] w' js_def [symmetric] scan by simp
  moreover have "prng_only st st4" using p3 p(3) by (rule prng_only_trans)
  moreover have "cur_soln st3 = cur_soln st" using p3 by (rule prng_onlyD)
  ultimately show ?thesis using c p by (auto simp: Let_def)
qed

text \<open>Either nothing is flipped, or two variables of a satisfied cardinality clause trade places
  and the clause keeps its count.\<close>

definition swap_effect :: "inst \<Rightarrow> ls \<Rightarrow> (nat \<Rightarrow> int) \<Rightarrow> bool" where
  "swap_effect I st a' \<longleftrightarrow> a' = cur_soln st
     \<or> (\<exists>c\<in>card_clauses I - unsat_clauses I st. \<exists>a\<in>{1..num_vars I}. \<exists>b\<in>{1..num_vars I}. a \<noteq> b
          \<and> a' = flip_soln b (flip_soln a (cur_soln st))
          \<and> true_count a' (clause_lit I c) = true_count (cur_soln st) (clause_lit I c))"

lemma swap_vars_ok:
  assumes wf: "wf_inst I" and inv: "ls_inv I st"
  shows "ls_inv I (swap_vars I P st)
    \<and> materialized_neighbor_mode (swap_vars I P st) = materialized_neighbor_mode st
    \<and> swap_effect I st (cur_soln (swap_vars I P st))"
  using swap_vars_cases [OF assms, of P]
proof (elim disjE bexE exE conjE)
  assume "prng_only st (swap_vars I P st)"
  then show ?thesis using inv by (simp add: prng_onlyD swap_effect_def)
next
  fix c a b st1
  assume c: "c \<in> card_clauses I - unsat_clauses I st" and p: "prng_only st st1"
    and pick: "swap_pick (cur_soln st) (clause_lit I c) True a" "swap_pick (cur_soln st) (clause_lit I c) False b"
      "a \<noteq> 0" "b \<noteq> 0" "a \<noteq> b"
    and e: "swap_vars I P st = (flip_pair_atomic I a b st1)\<lparr>time_stamp :=
           (time_stamp (flip_pair_atomic I a b st1))(a := int (ls_step (flip_pair_atomic I a b st1)),
                                                    b := int (ls_step (flip_pair_atomic I a b st1)))\<rparr>"
  have cn: "c < num_clauses I" using c by (simp add: card_clauses_def)
  note row = swap_row_ok [OF wf inv cn pick]
  have "ls_inv I st1" using p inv by (simp add: prng_onlyD)
  note fp = flip_pair_ok [OF wf this row(1,2) pick(5)]
  have "swap_effect I st (flip_soln b (flip_soln a (cur_soln st)))"
    unfolding swap_effect_def using c row pick(5) by blast
  then show ?thesis
    unfolding e by (simp add: fp prng_onlyD [OF p])
qed

end
