(* ===== verification/Ls_Init.thy ===== *)
theory Ls_Init
  imports Ls_Flip_Inv
begin

text \<open>
  Setting the search up: the initial assignment of a try (src/LocalSearch/init.cpp), the
  counters, stacks and scores computed from it (\<open>init_local_search\<close> in cardsat.cpp and
  \<open>init_score_multi\<close> in heuristic.cpp).  The result: a try starts in a state that satisfies
  the search invariant, with every good variable on the stack.
\<close>

section \<open>The initial assignment\<close>

definition set_var :: "int \<Rightarrow> nat \<Rightarrow> ls \<Rightarrow> ls" where
  "set_var a v st = st\<lparr>cur_soln := (cur_soln st)(v := a), time_stamp := (time_stamp st)(v := 0)\<rparr>"

definition init_assignment_with_value :: "inst \<Rightarrow> int \<Rightarrow> ls \<Rightarrow> ls" where
  "init_assignment_with_value I a st = fold (set_var a) [1..<Suc (num_vars I)] st"

definition set_var_random :: "ls_par \<Rightarrow> nat \<Rightarrow> ls \<Rightarrow> ls" where
  "set_var_random P v st =
     (let r = libc_rand P (rand_calls st);
          st = st\<lparr>rand_calls := Suc (rand_calls st)\<rparr>
      in set_var (if r mod 2 \<noteq> 0 then 1 else 0) v st)"

definition init_assignment_with_random :: "inst \<Rightarrow> ls_par \<Rightarrow> ls \<Rightarrow> ls" where
  "init_assignment_with_random I P st = fold (set_var_random P) [1..<Suc (num_vars I)] st"

definition reset_old_var :: "ls_par \<Rightarrow> nat \<Rightarrow> ls \<Rightarrow> ls" where
  "reset_old_var P v st =
     (let st = (if time_stamp st v > backbone_threshold P
                then st\<lparr>cur_soln := (cur_soln st)(v := 0)\<rparr> else st)
      in st\<lparr>time_stamp := (time_stamp st)(v := 0)\<rparr>)"

definition init_assignment_from_backbone :: "inst \<Rightarrow> ls_par \<Rightarrow> ls \<Rightarrow> ls" where
  "init_assignment_from_backbone I P st = fold (reset_old_var P) [1..<Suc (num_vars I)] st"

definition init_assignment_with_false :: "inst \<Rightarrow> ls \<Rightarrow> ls" where
  "init_assignment_with_false I st = init_assignment_with_value I 0 st"

definition init_assignment_with_true :: "inst \<Rightarrow> ls \<Rightarrow> ls" where
  "init_assignment_with_true I st = init_assignment_with_value I 1 st"

definition init_assignment_with_backbone :: "inst \<Rightarrow> ls_par \<Rightarrow> ls \<Rightarrow> ls" where
  "init_assignment_with_backbone I P st =
     (if tries st = 1 then init_assignment_with_false I st
      else init_assignment_from_backbone I P st)"

definition init_assignment_with_best :: "inst \<Rightarrow> ls_par \<Rightarrow> ls \<Rightarrow> ls" where
  "init_assignment_with_best I P st = init_assignment_with_backbone I P st"

text \<open>The callback that \<open>set_init_method\<close> installs.\<close>

definition init_assignment :: "inst \<Rightarrow> ls_par \<Rightarrow> ls \<Rightarrow> ls" where
  "init_assignment I P st =
     (if init_mode P = 0 then init_assignment_with_random I P st
      else if init_mode P = 1 then init_assignment_with_backbone I P st
      else if init_mode P = 2 then init_assignment_with_best I P st
      else if init_mode P = 3 then init_assignment_with_false I st
      else if init_mode P = 4 then init_assignment_with_true I st
      else init_assignment_with_backbone I P st)"

section \<open>Scores from scratch\<close>

definition add_initial_contribution :: "inst \<Rightarrow> nat \<Rightarrow> lit \<Rightarrow> ls \<Rightarrow> ls" where
  "add_initial_contribution I v l st =
     (let c = clause_num l; t = clause_true_lit_thres I c; weight = 1
      in if sat_count st c < t then
           if of_bool (sense l) \<noteq> cur_soln st v
           then st\<lparr>score := (score st)(v := score st v
                  + violation_make_contribution (unit_weight st c) (t - sat_count st c))\<rparr>
           else st\<lparr>score := (score st)(v := score st v
                  - violation_make_contribution (unit_weight st c) (t - sat_count st c + weight))\<rparr>
         else if sat_count st c \<ge> t then
           if of_bool (sense l) = cur_soln st v
           then st\<lparr>score := (score st)(v := score st v
                  - violation_make_contribution (unit_weight st c) (t - sat_count st c + weight))\<rparr>
           else st
         else st)"

definition init_score_var :: "inst \<Rightarrow> nat \<Rightarrow> ls \<Rightarrow> ls" where
  "init_score_var I v st =
     fold (add_initial_contribution I v) (var_lit I v) (st\<lparr>score := (score st)(v := 0)\<rparr>)"

definition init_score_multi :: "inst \<Rightarrow> ls \<Rightarrow> ls" where
  "init_score_multi I st = fold (init_score_var I) [1..<Suc (num_vars I)] st"

section \<open>init\_local\_search\<close>

definition count_row :: "nat \<Rightarrow> lit \<Rightarrow> ls \<Rightarrow> ls" where
  "count_row c l st =
     (if cur_soln st (var_num l) = of_bool (sense l)
      then st\<lparr>sat_count := (sat_count st)(c := sat_count st c + 1)\<rparr> else st)"

definition init_clause :: "inst \<Rightarrow> nat \<Rightarrow> ls \<Rightarrow> ls" where
  "init_clause I c st =
     (let st = st\<lparr>sat_count := (sat_count st)(c := 0)\<rparr>;
          st = fold (count_row c) (clause_lit I c) st;
          t = clause_true_lit_thres I c;
          st = (if t > 1 then
                  (let st = st\<lparr>cardsat := (cardsat st)\<lparr>index := (index (cardsat st))(c := -1)\<rparr>\<rparr>
                   in if sat_count st c \<ge> t then st\<lparr>cardsat := stack_add c (cardsat st)\<rparr> else st)
                else st)
      in if sat_count st c < t then unsat I c st else st)"

definition init_good :: "nat \<Rightarrow> ls \<Rightarrow> ls" where
  "init_good v st =
     (if score st v > 0 then st\<lparr>goodvar := stack_add v (goodvar st)\<rparr>
      else st\<lparr>goodvar := (goodvar st)\<lparr>index := (index (goodvar st))(v := -1)\<rparr>\<rparr>)"

definition init_local_search :: "inst \<Rightarrow> ls \<Rightarrow> ls" where
  "init_local_search I st =
     (let st = fold (\<lambda>i st. st\<lparr>unit_weight := (unit_weight st)(i := 1)\<rparr>) [0..<num_clauses I] st;
          st = st\<lparr>hard_unsat_nb := 0, hardunsat := (hardunsat st)\<lparr>items := []\<rparr>,
                  cardsat := (cardsat st)\<lparr>items := []\<rparr>\<rparr>;
          st = fold (init_clause I) [0..<num_clauses I] st;
          st = init_score_multi I st;
          st = st\<lparr>goodvar := (goodvar st)\<lparr>items := []\<rparr>\<rparr>
      in fold init_good [1..<Suc (num_vars I)] st)"

section \<open>The assignment of a try is Boolean\<close>

lemma fold_set_vars:
  assumes "\<And>v st. g v (f v st)" and "\<And>v u st. u \<noteq> v \<Longrightarrow> g u (f v st) = g u st"
  shows "u \<in> set vs \<Longrightarrow> g u (fold f vs st)"
proof (induction vs arbitrary: st rule: rev_induct)
  case Nil
  then show ?case by simp
next
  case (snoc v vs)
  show ?case
  proof (cases "u = v")
    case True
    then show ?thesis using assms(1) by simp
  next
    case False
    with snoc assms(2) show ?thesis by simp
  qed
qed

lemma init_assignment_soln_ok:
  assumes "tries st = 1 \<or> soln_ok I st"
  shows "soln_ok I (init_assignment I P st)"
proof -
  let ?b = "\<lambda>u st. cur_soln st u = 0 \<or> cur_soln st u = 1"
  have val: "soln_ok I (init_assignment_with_value I a st)" if "a = 0 \<or> a = 1" for a
  proof -
    have "?b u (fold (set_var a) vs st)" if "u \<in> set vs" for u vs
      by (rule fold_set_vars [where g = ?b, OF _ _ that]) (use \<open>a = 0 \<or> a = 1\<close> in \<open>auto simp: set_var_def\<close>)
    then show ?thesis by (auto simp: soln_ok_def init_assignment_with_value_def simp del: upt_Suc)
  qed
  have rnd: "soln_ok I (init_assignment_with_random I P st)"
  proof -
    have "?b u (fold (set_var_random P) vs st)" if "u \<in> set vs" for u vs
      by (rule fold_set_vars [where g = ?b, OF _ _ that]) (auto simp: set_var_random_def set_var_def Let_def)
    then show ?thesis by (auto simp: soln_ok_def init_assignment_with_random_def simp del: upt_Suc)
  qed
  have bb: "soln_ok I (init_assignment_from_backbone I P st)" if "soln_ok I st"
  proof -
    have "soln_ok I (fold (reset_old_var P) vs st)" for vs
      using that by (rule fold_invariant_mem) (auto simp: reset_old_var_def soln_ok_def Let_def)
    then show ?thesis by (simp add: init_assignment_from_backbone_def)
  qed
  show ?thesis
    using val rnd bb assms
    by (auto simp: init_assignment_def init_assignment_with_backbone_def init_assignment_with_best_def
        init_assignment_with_false_def init_assignment_with_true_def)
qed

section \<open>A try starts in the invariant\<close>

lemma init_score_var_fields:
  "score (init_score_var I v st) = (score st)(v := (\<Sum>l\<leftarrow>var_lit I v.
     clause_score_contribution (of_bool (sense l) = cur_soln st v) (sat_count st (clause_num l))
       (clause_true_lit_thres I (clause_num l)) (unit_weight st (clause_num l))))
   \<and> ls_rest (init_score_var I v st) = ls_rest st
   \<and> sat_count (init_score_var I v st) = sat_count st \<and> hardunsat (init_score_var I v st) = hardunsat st
   \<and> cardsat (init_score_var I v st) = cardsat st \<and> hard_unsat_nb (init_score_var I v st) = hard_unsat_nb st
   \<and> goodvar (init_score_var I v st) = goodvar st"
proof -
  have "score (fold (add_initial_contribution I v) ls s) = (score s)(v := score s v + (\<Sum>l\<leftarrow>ls.
       clause_score_contribution (of_bool (sense l) = cur_soln s v) (sat_count s (clause_num l))
       (clause_true_lit_thres I (clause_num l)) (unit_weight s (clause_num l))))
     \<and> ls_rest (fold (add_initial_contribution I v) ls s) = ls_rest s
     \<and> sat_count (fold (add_initial_contribution I v) ls s) = sat_count s
     \<and> hardunsat (fold (add_initial_contribution I v) ls s) = hardunsat s
     \<and> cardsat (fold (add_initial_contribution I v) ls s) = cardsat s
     \<and> hard_unsat_nb (fold (add_initial_contribution I v) ls s) = hard_unsat_nb s
     \<and> goodvar (fold (add_initial_contribution I v) ls s) = goodvar s" for ls s
  proof (induction ls arbitrary: s)
    case Nil
    then show ?case by simp
  next
    case (Cons l ls)
    let ?s = "add_initial_contribution I v l s"
    have "?s = s\<lparr>score := (score s)(v := score s v + clause_score_contribution
        (of_bool (sense l) = cur_soln s v) (sat_count s (clause_num l))
        (clause_true_lit_thres I (clause_num l)) (unit_weight s (clause_num l)))\<rparr>"
      by (auto simp: add_initial_contribution_def contribution_cases violation_make_contribution_def Let_def)
    then show ?case using Cons.IH [of ?s] by (auto simp: fun_eq_iff)
  qed
  then show ?thesis by (simp add: init_score_var_def)
qed

text \<open>Summing over the occurrence list of a variable is summing over the clauses.\<close>

lemma score_spec_occurrences:
  assumes "indexed_inst I"
  shows "(\<Sum>l\<leftarrow>var_lit I v. clause_score_contribution (of_bool (sense l) = a v) (sc (clause_num l))
       (clause_true_lit_thres I (clause_num l)) (w (clause_num l))) = score_spec I a sc w v"
proof -
  have row: "(\<Sum>l\<leftarrow>filter (\<lambda>l. var_num l = v) (clause_lit I c). clause_score_contribution (of_bool (sense l) = a v)
        (sc (clause_num l)) (clause_true_lit_thres I (clause_num l)) (w (clause_num l))) = clause_score I a sc w c v"
    if "c < num_clauses I" for c
    using wf_inst_lit(1) [OF assms that] unfolding clause_score_def sum_list_map_filter'
    by (intro arg_cong [where f = sum_list] map_cong) (auto simp: lit_true_def)
  have "var_lit I v = occurrences I v" using assms by (simp add: indexed_inst_def)
  then show ?thesis
    by (simp add: occurrences_def sum_list_concat_map score_spec_def sum_list_upt atLeast0LessThan)
      (rule sum.cong, simp_all add: row)
qed

lemma init_score_multi_ok:
  fixes st :: ls
  assumes "indexed_inst I"
  defines "t \<equiv> init_score_multi I st"
  shows "scores_ok I t \<and> ls_rest t = ls_rest st \<and> sat_count t = sat_count st
    \<and> hardunsat t = hardunsat st \<and> cardsat t = cardsat st \<and> hard_unsat_nb t = hard_unsat_nb st
    \<and> goodvar t = goodvar st"
proof -
  have step: "(\<forall>u\<in>set vs. score_at I (fold (init_score_var I) vs st) u)
      \<and> ls_rest (fold (init_score_var I) vs st) = ls_rest st
      \<and> sat_count (fold (init_score_var I) vs st) = sat_count st
      \<and> hardunsat (fold (init_score_var I) vs st) = hardunsat st
      \<and> cardsat (fold (init_score_var I) vs st) = cardsat st
      \<and> hard_unsat_nb (fold (init_score_var I) vs st) = hard_unsat_nb st
      \<and> goodvar (fold (init_score_var I) vs st) = goodvar st" for vs
  proof (induction vs rule: rev_induct)
    case Nil
    then show ?case by simp
  next
    case (snoc v vs)
    let ?s = "fold (init_score_var I) vs st"
    have r: "ls_rest (init_score_var I v ?s) = ls_rest ?s" by (simp add: init_score_var_fields)
    have "score_at I (init_score_var I v ?s) u" if "u = v \<or> score_at I ?s u" for u
      using that by (auto simp: score_at_def init_score_var_fields ls_restD(1,2) [OF r]
          score_spec_occurrences [OF assms(1)])
    with snoc show ?case by (auto simp: init_score_var_fields)
  qed
  show ?thesis
    using step [of "[1..<Suc (num_vars I)]"]
    by (simp add: t_def init_score_multi_def scores_ok_def atLeastLessThanSuc_atLeastAtMost del: upt_Suc)
qed

text \<open>The first \<open>k\<close> clauses seen as an instance of their own.\<close>

abbreviation prefix_inst :: "inst \<Rightarrow> nat \<Rightarrow> inst" where
  "prefix_inst I k \<equiv> I\<lparr>num_clauses := k\<rparr>"

lemma count_rows:
  "fold (count_row c) ls st = st\<lparr>sat_count := (sat_count st)(c := sat_count st c + true_count (cur_soln st) ls)\<rparr>"
  by (induction ls arbitrary: st) (auto simp: count_row_def true_count_def lit_true_def algebra_simps)

lemma init_clause_step:
  assumes s: "stacks_ok (prefix_inst I k) st" and cnt: "counts_ok (prefix_inst I k) st"
  defines "t \<equiv> init_clause I k st"
  shows "stacks_ok (prefix_inst I (Suc k)) t \<and> counts_ok (prefix_inst I (Suc k)) t
    \<and> ls_rest t = ls_rest st \<and> goodvar t = goodvar st"
proof -
  define n where "n = true_count (cur_soln st) (clause_lit I k)"
  let ?th = "clause_true_lit_thres I k"
  define s1 where "s1 = st\<lparr>sat_count := (sat_count st)(k := n)\<rparr>"
  have t: "t = (let s = (if ?th > 1 then (let s = s1\<lparr>cardsat := (cardsat s1)\<lparr>index := (index (cardsat s1))(k := -1)\<rparr>\<rparr>
                 in if n \<ge> ?th then s\<lparr>cardsat := stack_add k (cardsat s)\<rparr> else s) else s1)
      in if n < ?th then unsat I k s else s)"
    unfolding t_def init_clause_def s1_def n_def by (simp add: Let_def count_rows)
  have us: "unsat_clauses (prefix_inst I (Suc k)) u
      = (if n < ?th then insert k (unsat_clauses (prefix_inst I k) st) else unsat_clauses (prefix_inst I k) st)"
    if "sat_count u = (sat_count st)(k := n)" for u
    using that by (auto simp: unsat_clauses_def less_Suc_eq)
  have cs: "card_clauses (prefix_inst I (Suc k))
      = (if ?th > 1 then insert k (card_clauses (prefix_inst I k)) else card_clauses (prefix_inst I k))"
    by (auto simp: card_clauses_def less_Suc_eq)
  have out: "k \<notin> set (items (hardunsat st))" "k \<notin> set (items (cardsat st))"
    using s by (auto simp: stacks_ok_def unsat_clauses_def card_clauses_def)
  have fr: "sat_count t = (sat_count st)(k := n)" "cur_soln t = cur_soln st" "goodvar t = goodvar st"
    "ls_rest t = ls_rest st"
    by (auto simp: t s1_def Let_def)
  have hu: "hardunsat t = (if n < ?th then stack_add k (hardunsat st) else hardunsat st)"
    "hard_unsat_nb t = hard_unsat_nb st + of_bool (n < ?th)"
    by (auto simp: t s1_def Let_def unsat_def)
  have ca: "cardsat t = (if ?th > 1 then
      (let c = (cardsat st)\<lparr>index := (index (cardsat st))(k := -1)\<rparr> in if n \<ge> ?th then stack_add k c else c)
      else cardsat st)"
    by (auto simp: t s1_def Let_def unsat_def)
  have tr: "tracked (card_clauses (prefix_inst I k)) (cardsat st)"
    and ms: "set (items (cardsat st)) = card_clauses (prefix_inst I k) - unsat_clauses (prefix_inst I k) st"
    using s by (auto simp: stacks_ok_def)
  define c0 where "c0 = (cardsat st)\<lparr>index := (index (cardsat st))(k := -1)\<rparr>"
  have c0: "tracked (insert k (card_clauses (prefix_inst I k))) c0" "items c0 = items (cardsat st)"
    using tracked_clear_insert [OF tr out(2)] by (simp_all add: c0_def)
  have "tracked (card_clauses (prefix_inst I (Suc k))) (cardsat t)
      \<and> set (items (cardsat t)) = card_clauses (prefix_inst I (Suc k)) - unsat_clauses (prefix_inst I (Suc k)) t"
  proof -
    have kC: "k \<notin> card_clauses (prefix_inst I k)" "k \<notin> unsat_clauses (prefix_inst I k) st"
      by (auto simp: card_clauses_def unsat_clauses_def)
    have add: "tracked (insert k (card_clauses (prefix_inst I k))) (stack_add k c0)"
      using tracked_add [OF c0(1)] out(2) c0(2) by simp
    consider (plain) "\<not> ?th > 1" | (held) "?th > 1" "n \<ge> ?th" | (viol) "?th > 1" "n < ?th" by linarith
    then show ?thesis
    proof cases
      case plain
      with tr have "tracked (card_clauses (prefix_inst I (Suc k))) (cardsat t)" by (simp add: ca cs)
      moreover have "C - insert k U = C - U" if "k \<notin> C" for C U :: "nat set" using that by blast
      ultimately show ?thesis using plain ms kC by (simp add: ca cs us [OF fr(1)])
    next
      case held
      with add c0(2) ms kC show ?thesis by (auto simp: ca cs us [OF fr(1)] Let_def c0_def [symmetric])
    next
      case viol
      with c0 ms kC show ?thesis by (auto simp: ca cs us [OF fr(1)] Let_def c0_def [symmetric])
    qed
  qed
  moreover have "stack_ok (hardunsat t)" "set (items (hardunsat t)) = unsat_clauses (prefix_inst I (Suc k)) t"
    "hard_unsat_nb t = int (fill_pointer (hardunsat t))"
    using s out by (auto simp: hu us [OF fr(1)] stacks_ok_def intro: stack_ok_add)
  moreover have "counts_ok (prefix_inst I (Suc k)) t"
    using cnt by (auto simp: counts_ok_def fr n_def less_Suc_eq)
  ultimately show ?thesis using fr by (simp add: stacks_ok_def)
qed

lemma init_clauses:
  fixes I :: inst and k :: nat
  assumes "hard_unsat_nb st = 0" "items (hardunsat st) = []" "items (cardsat st) = []"
  defines "t \<equiv> \<lambda>k. fold (init_clause I) [0..<k] st"
  shows "stacks_ok (prefix_inst I k) (t k) \<and> counts_ok (prefix_inst I k) (t k)
    \<and> ls_rest (t k) = ls_rest st \<and> goodvar (t k) = goodvar st"
proof (induction k)
  case 0
  then show ?case
    using assms(1-3) by (simp add: t_def stacks_ok_def counts_ok_def unsat_clauses_def card_clauses_def
        tracked_def stack_ok_def)
next
  case (Suc k)
  then show ?case using init_clause_step [where I = I and k = k and st = "t k"] by (simp add: t_def)
qed

lemma init_good_loop:
  assumes "items (goodvar st) = []"
  defines "t \<equiv> \<lambda>k. fold init_good [1..<Suc k] st"
  shows "tracked {1..k} (goodvar (t k)) \<and> set (items (goodvar (t k))) = {v. 1 \<le> v \<and> v \<le> k \<and> score st v > 0}
    \<and> (\<exists>g. t k = st\<lparr>goodvar := g\<rparr>)"
proof (induction k)
  case 0
  show ?case using assms(1) by (auto simp: t_def tracked_def stack_ok_def intro!: exI [of _ "goodvar st"])
next
  case (Suc k)
  then obtain g where g: "t k = st\<lparr>goodvar := g\<rparr>" by blast
  have t: "t (Suc k) = init_good (Suc k) (st\<lparr>goodvar := g\<rparr>)" by (simp add: t_def flip: g)
  have tr: "tracked {1..k} g" and mem: "set (items g) = {v. 1 \<le> v \<and> v \<le> k \<and> score st v > 0}"
    using conjunct1 [OF Suc.IH] conjunct1 [OF conjunct2 [OF Suc.IH]] by (simp_all add: g)
  have out: "Suc k \<notin> set (items g)" by (simp add: mem)
  note new = tracked_add_insert [OF tr out] tracked_clear_insert [OF tr out]
  have ins: "insert (Suc k) {1..k} = {1..Suc k}" by auto
  show ?case
  proof (cases "score st (Suc k) > 0")
    case True
    then have "t (Suc k) = st\<lparr>goodvar := stack_add (Suc k) g\<rparr>" by (simp add: t init_good_def)
    with new(1) True show ?thesis unfolding ins by (auto simp: mem le_Suc_eq)
  next
    case False
    then have "t (Suc k) = st\<lparr>goodvar := g\<lparr>index := (index g)(Suc k := -1)\<rparr>\<rparr>" by (simp add: t init_good_def)
    with new(2) False show ?thesis unfolding ins by (auto simp: mem le_Suc_eq)
  qed
qed

lemma prefix_inst_self [simp]: "prefix_inst I (num_clauses I) = I"
  by simp

lemma init_local_search_inv:
  assumes wf: "wf_inst I" and "soln_ok I st" "scratch_ok st" "neighbors_ok I st"
  defines "t \<equiv> init_local_search I st"
  shows "ls_inv I t" and "cur_soln t = cur_soln st"
    and "set (items (goodvar t)) = {v. 1 \<le> v \<and> v \<le> num_vars I \<and> score t v > 0}"
proof -
  have ix: "indexed_inst I" using wf by (simp add: wf_inst_def)
  define s0 where "s0 = fold (\<lambda>i st. st\<lparr>unit_weight := (unit_weight st)(i := 1)\<rparr>) [0..<num_clauses I] st"
  have s0: "s0 = st\<lparr>unit_weight := (\<lambda>i. if i < num_clauses I then 1 else unit_weight st i)\<rparr>"
  proof -
    have "fold (\<lambda>i st. st\<lparr>unit_weight := (unit_weight st)(i := 1)\<rparr>) [0..<k] st
        = st\<lparr>unit_weight := (\<lambda>i. if i < k then 1 else unit_weight st i)\<rparr>" for k
      by (induction k) (auto simp: fun_eq_iff less_Suc_eq intro!: ls.equality)
    then show ?thesis by (simp add: s0_def)
  qed
  define s1 where "s1 = s0\<lparr>hard_unsat_nb := 0, hardunsat := (hardunsat s0)\<lparr>items := []\<rparr>,
      cardsat := (cardsat s0)\<lparr>items := []\<rparr>\<rparr>"
  define s2 where "s2 = fold (init_clause I) [0..<num_clauses I] s1"
  have s2: "stacks_ok I s2" "counts_ok I s2" "ls_rest s2 = ls_rest s1"
    using init_clauses [where st = s1 and I = I and k = "num_clauses I"] by (simp_all add: s1_def s2_def)
  define s3 where "s3 = init_score_multi I s2"
  have s3: "scores_ok I s3" "ls_rest s3 = ls_rest s1" "sat_count s3 = sat_count s2"
    "hardunsat s3 = hardunsat s2" "cardsat s3 = cardsat s2" "hard_unsat_nb s3 = hard_unsat_nb s2"
    using init_score_multi_ok [OF ix, of s2] s2(3) by (simp_all add: s3_def)
  define s4 where "s4 = s3\<lparr>goodvar := (goodvar s3)\<lparr>items := []\<rparr>\<rparr>"
  have t: "t = fold init_good [1..<Suc (num_vars I)] s4"
    by (simp add: t_def init_local_search_def s0_def [symmetric] s1_def [symmetric] s2_def [symmetric]
        s3_def [symmetric] s4_def [symmetric] Let_def del: upt_Suc)
  have "items (goodvar s4) = []" by (simp add: s4_def)
  note good = init_good_loop [OF this, of "num_vars I", folded t]
  then obtain g where g: "t = s4\<lparr>goodvar := g\<rparr>" by blast
  have sc: "score t = score s3" by (simp add: g s4_def)
  have fr: "cur_soln s3 = cur_soln st" "unit_weight s3 = unit_weight s0"
    using ls_restD(1,2) [OF s3(2)] by (simp_all add: s1_def s0)
  have cs2: "cur_soln s2 = cur_soln s3" using ls_restD(1) [OF s2(3)] ls_restD(1) [OF s3(2)] by simp
  show "cur_soln t = cur_soln st" by (simp add: g s4_def fr)
  show mem: "set (items (goodvar t)) = {v. 1 \<le> v \<and> v \<le> num_vars I \<and> score t v > 0}"
    using good by (simp add: sc s4_def)
  have "good_ok I t" using conjunct1 [OF good] mem by (simp add: good_ok_def)
  moreover have "soln_ok I t" "counts_ok I t" "scores_ok I t" "stacks_ok I t"
    using assms(2) s2 s3 cs2
    by (simp_all add: g s4_def soln_ok_def counts_ok_def scores_ok_def score_at_def stacks_ok_def
        unsat_clauses_def fr)
  moreover have "weights_ok I t" by (simp add: weights_ok_def g s4_def fr s0)
  moreover have "scratch_ok t" "neighbors_ok I t"
    using assms(3,4) ls_restD [OF s3(2)]
    by (simp_all add: g s4_def scratch_ok_def neighbors_ok_def s1_def s0)
  ultimately show "ls_inv I t" by (simp add: ls_inv_def)
qed

end
