(* ===== verification/Ls_Neighbors.thy ===== *)
theory Ls_Neighbors
  imports Ls_State
begin

text \<open>
  The materialised neighbour lists (\<open>build_neighbor_relation\<close> in src/LocalSearch/reader.cpp).
  When the construction succeeds, the list of every variable holds exactly the variables that
  share a clause with it, once each, and the lists together stay within the entry budget; when
  the budget or the allocator stops it, every list is empty again.  In both cases the scratch
  flags are zero afterwards.
\<close>

section \<open>build\_neighbor\_relation\<close>

definition collect_neighbor :: "lit \<Rightarrow> nat list \<times> (nat \<Rightarrow> int) \<Rightarrow> nat list \<times> (nat \<Rightarrow> int)" where
  "collect_neighbor l = (\<lambda>(temp_neighbor, flag).
     if flag (var_num l) \<noteq> 1
     then (temp_neighbor @ [var_num l], flag(var_num l := 1)) else (temp_neighbor, flag))"

definition collect_neighbors :: "inst \<Rightarrow> nat \<Rightarrow> (nat \<Rightarrow> int) \<Rightarrow> nat list \<times> (nat \<Rightarrow> int)" where
  "collect_neighbors I v flag =
     (let (temp, flag) = fold (\<lambda>l. fold collect_neighbor (clause_lit I (clause_num l))) (var_lit I v)
                              ([], flag(v := 1))
      in (temp, flag(v := 0)))"

definition clear_flags :: "nat list \<Rightarrow> ls \<Rightarrow> ls" where
  "clear_flags vs st = fold (\<lambda>n st. st\<lparr>neighbor_flag := (neighbor_flag st)(n := 0)\<rparr>) vs st"

definition clear_materialized_neighbors :: "nat \<Rightarrow> ls \<Rightarrow> ls" where
  "clear_materialized_neighbors end_var st =
     fold (\<lambda>u st. st\<lparr>var_neighbor := (var_neighbor st)(u := [])\<rparr>) [1..<end_var] st"

text \<open>\<open>alloc v\<close> says whether the allocation of the list of \<open>v\<close> succeeds (it throws
  \<open>bad_alloc\<close> otherwise).  \<open>tot\<close> (\<open>total_neighbor_entries\<close>) never exceeds \<open>entry_budget\<close>, so the unsigned
  difference does not wrap.\<close>

primrec build_neighbors :: "inst \<Rightarrow> nat \<Rightarrow> (nat \<Rightarrow> bool) \<Rightarrow> nat list \<Rightarrow> nat \<Rightarrow> ls \<Rightarrow> bool \<times> ls" where
  "build_neighbors I entry_budget alloc [] tot st = (True, st)"
| "build_neighbors I entry_budget alloc (v # vs) tot st =
     (let (temp, flag) = collect_neighbors I v (neighbor_flag st);
          st = st\<lparr>neighbor_flag := flag\<rparr>
      in if length temp > entry_budget - tot
         then (False, clear_materialized_neighbors v (clear_flags temp st))
         else if \<not> alloc v
         then (False, clear_materialized_neighbors v (clear_flags temp st))
         else build_neighbors I entry_budget alloc vs (tot + length temp)
                (clear_flags temp (st\<lparr>var_neighbor := (var_neighbor st)(v := temp)\<rparr>)))"

definition build_neighbor_relation :: "inst \<Rightarrow> nat \<Rightarrow> (nat \<Rightarrow> bool) \<Rightarrow> ls \<Rightarrow> bool \<times> ls" where
  "build_neighbor_relation I entry_budget alloc st =
     build_neighbors I entry_budget alloc [1..<Suc (num_vars I)] 0 st"

section \<open>The lists are exact\<close>

definition flags_mark :: "nat \<Rightarrow> nat list \<times> (nat \<Rightarrow> int) \<Rightarrow> bool" where
  "flags_mark v = (\<lambda>(temp, flag). distinct temp \<and> v \<notin> set temp
     \<and> flag = (\<lambda>u. if u = v \<or> u \<in> set temp then 1 else 0))"

lemma collect_row:
  assumes "flags_mark v s" and "fold collect_neighbor ls s = t"
  shows "flags_mark v t \<and> set (fst t) = set (fst s) \<union> (var_num ` set ls - {v})"
  using assms
proof (induction ls arbitrary: s)
  case Nil
  then show ?case by simp
next
  case (Cons l ls)
  obtain temp flag where s: "s = (temp, flag)" by fastforce
  have "flags_mark v (collect_neighbor l s)"
    "set (fst (collect_neighbor l s)) = set temp \<union> ({var_num l} - {v})"
    using Cons.prems(1) by (auto simp: s flags_mark_def collect_neighbor_def fun_eq_iff)
  then show ?case using Cons.IH [of "collect_neighbor l s"] Cons.prems(2) by (auto simp: s)
qed

lemma collect_rows:
  assumes "flags_mark v s" and "fold (\<lambda>l. fold collect_neighbor (f l)) ls s = t"
  shows "flags_mark v t \<and> set (fst t) = set (fst s) \<union> (var_num ` (\<Union>l\<in>set ls. set (f l)) - {v})"
  using assms
proof (induction ls arbitrary: s)
  case Nil
  then show ?case by simp
next
  case (Cons l ls)
  show ?case
    using Cons.IH [of "fold collect_neighbor (f l) s"] collect_row [OF Cons.prems(1) refl, of "f l"] Cons.prems(2)
    by auto
qed

lemma neighbors_of_occurrences:
  assumes "indexed_inst I"
  shows "var_num ` (\<Union>l\<in>set (var_lit I v). set (clause_lit I (clause_num l))) - {v} = neighbors_of I v"
proof -
  have img: "clause_num ` set (var_lit I v) = {c. c < num_clauses I \<and> v \<in> var_num ` set (clause_lit I c)}"
  proof (intro set_eqI iffI)
    fix c assume "c \<in> clause_num ` set (var_lit I v)"
    then obtain l where "c = clause_num l" "l \<in> set (var_lit I v)" by blast
    with var_lit_mem [OF assms, of l v] show "c \<in> {c. c < num_clauses I \<and> v \<in> var_num ` set (clause_lit I c)}"
      by auto
  next
    fix c assume "c \<in> {c. c < num_clauses I \<and> v \<in> var_num ` set (clause_lit I c)}"
    then obtain l where "c < num_clauses I" "l \<in> set (clause_lit I c)" "v = var_num l" by blast
    with mem_var_lit [OF assms] wf_inst_lit(1) [OF assms]
    show "c \<in> clause_num ` set (var_lit I v)" by blast
  qed
  have "(\<Union>l\<in>set (var_lit I v). set (clause_lit I (clause_num l)))
      = (\<Union>c\<in>clause_num ` set (var_lit I v). set (clause_lit I c))" by simp
  also have "\<dots> = (\<Union>c\<in>{c. c < num_clauses I \<and> v \<in> var_num ` set (clause_lit I c)}. set (clause_lit I c))"
    by (simp only: img)
  finally have "(\<Union>l\<in>set (var_lit I v). set (clause_lit I (clause_num l)))
      = (\<Union>c\<in>{c. c < num_clauses I \<and> v \<in> var_num ` set (clause_lit I c)}. set (clause_lit I c))" .
  then show ?thesis by (auto simp: neighbors_of_def)
qed

lemma collect_neighbors_exact:
  assumes "indexed_inst I" and "collect_neighbors I v (\<lambda>_. 0) = (temp, flag)"
  shows "distinct temp \<and> set temp = neighbors_of I v \<and> flag = (\<lambda>u. if u \<in> set temp then 1 else 0)"
proof -
  obtain flag' where r: "fold (\<lambda>l. fold collect_neighbor (clause_lit I (clause_num l))) (var_lit I v)
      ([], (\<lambda>_. 0)(v := 1)) = (temp, flag')" and f: "flag = flag'(v := 0)"
    using assms(2) by (auto simp: collect_neighbors_def Let_def split: prod.splits)
  have "flags_mark v ([], (\<lambda>_. 0)(v := 1))" by (auto simp: flags_mark_def)
  from collect_rows [OF this r] have "flags_mark v (temp, flag')" "set temp = neighbors_of I v"
    unfolding neighbors_of_occurrences [OF assms(1)] by simp_all
  then show ?thesis by (simp add: flags_mark_def f fun_eq_iff)
qed

lemma clear_flags_upd:
  "clear_flags vs st = st\<lparr>neighbor_flag := (\<lambda>u. if u \<in> set vs then 0 else neighbor_flag st u)\<rparr>"
  by (induction vs arbitrary: st) (auto simp: clear_flags_def fun_eq_iff intro!: ls.equality)

lemma clear_materialized_upd:
  "clear_materialized_neighbors n st
     = st\<lparr>var_neighbor := (\<lambda>u. if 1 \<le> u \<and> u < n then [] else var_neighbor st u)\<rparr>"
proof -
  have "fold (\<lambda>u st. st\<lparr>var_neighbor := (var_neighbor st)(u := [])\<rparr>) vs st
      = st\<lparr>var_neighbor := (\<lambda>u. if u \<in> set vs then [] else var_neighbor st u)\<rparr>" for vs
    by (induction vs arbitrary: st) (auto simp: fun_eq_iff intro!: ls.equality)
  then show ?thesis by (simp add: clear_materialized_neighbors_def)
qed

lemma build_neighbors_correct:
  assumes ix: "indexed_inst I" and "neighbor_flag st = (\<lambda>_. 0)" and "1 \<le> k" and "tot \<le> budget"
    and "\<forall>v. 1 \<le> v \<and> v < k \<longrightarrow> distinct (var_neighbor st v) \<and> set (var_neighbor st v) = neighbors_of I v"
    and "tot = (\<Sum>v\<leftarrow>[1..<k]. length (var_neighbor st v))"
    and "\<forall>v. k \<le> v \<longrightarrow> var_neighbor st v = []"
    and "build_neighbors I budget alloc [k..<k + n] tot st = (ok, t)"
  shows "neighbor_flag t = (\<lambda>_. 0) \<and> t = st\<lparr>var_neighbor := var_neighbor t\<rparr>
    \<and> (ok \<longrightarrow> (\<forall>v. 1 \<le> v \<and> v < k + n \<longrightarrow> distinct (var_neighbor t v) \<and> set (var_neighbor t v) = neighbors_of I v)
          \<and> (\<Sum>v\<leftarrow>[1..<k + n]. length (var_neighbor t v)) \<le> budget)
    \<and> (\<not> ok \<longrightarrow> (\<forall>v\<ge>1. var_neighbor t v = []))"
  using assms(2-)
proof (induction n arbitrary: k tot st)
  case 0
  then show ?case by simp
next
  case (Suc n)
  obtain temp flag where c: "collect_neighbors I k (neighbor_flag st) = (temp, flag)" by fastforce
  have ex: "distinct temp" "set temp = neighbors_of I k" "flag = (\<lambda>u. if u \<in> set temp then 1 else 0)"
    using collect_neighbors_exact [OF ix c [unfolded Suc.prems(1)]] by auto
  have up: "[k..<k + Suc n] = k # [Suc k..<Suc k + n]" by (simp add: upt_rec)
  show ?case
  proof (cases "length temp > budget - tot \<or> \<not> alloc k")
    case True
    then have t: "ok = False" "t = clear_materialized_neighbors k (clear_flags temp (st\<lparr>neighbor_flag := flag\<rparr>))"
      using Suc.prems(7) unfolding up by (auto simp: c Let_def split: if_splits)
    have "neighbor_flag t = (\<lambda>_. 0)" "t = st\<lparr>var_neighbor := var_neighbor t\<rparr>"
      "var_neighbor t = (\<lambda>u. if 1 \<le> u \<and> u < k then [] else var_neighbor st u)"
      using Suc.prems(1) by (auto simp: t clear_flags_upd clear_materialized_upd ex(3) fun_eq_iff intro!: ls.equality)
    with Suc.prems(6) t(1) show ?thesis by auto
  next
    case False
    define s where "s = clear_flags temp (st\<lparr>neighbor_flag := flag, var_neighbor := (var_neighbor st)(k := temp)\<rparr>)"
    have s: "neighbor_flag s = (\<lambda>_. 0)" "var_neighbor s = (var_neighbor st)(k := temp)"
      "s = st\<lparr>var_neighbor := (var_neighbor st)(k := temp)\<rparr>"
      using Suc.prems(1) by (auto simp: s_def clear_flags_upd ex(3) fun_eq_iff intro!: ls.equality)
    have b: "build_neighbors I budget alloc [Suc k..<Suc k + n] (tot + length temp) s = (ok, t)"
      using Suc.prems(7) False unfolding up by (simp add: c s_def Let_def)
    have "(\<Sum>v\<leftarrow>[1..<k]. length (var_neighbor s v)) = (\<Sum>v\<leftarrow>[1..<k]. length (var_neighbor st v))"
      by (intro arg_cong [where f = sum_list] map_cong) (auto simp: s(2))
    then have tot: "tot + length temp = (\<Sum>v\<leftarrow>[1..<Suc k]. length (var_neighbor s v))"
      using Suc.prems(2,5) by (simp add: s(2))
    have nb: "\<forall>v. 1 \<le> v \<and> v < Suc k \<longrightarrow> distinct (var_neighbor s v) \<and> set (var_neighbor s v) = neighbors_of I v"
      using Suc.prems(4) ex by (auto simp: s(2) less_Suc_eq)
    have le: "tot + length temp \<le> budget" using False Suc.prems(3) by linarith
    have em: "\<forall>v. Suc k \<le> v \<longrightarrow> var_neighbor s v = []" using Suc.prems(6) by (simp add: s(2))
    have "t = st\<lparr>var_neighbor := var_neighbor t\<rparr>" if "t = s\<lparr>var_neighbor := var_neighbor t\<rparr>"
      using that s(3) by (metis ls.update_convs(3) ls.surjective)
    with Suc.IH [OF s(1) _ le nb tot em b] show ?thesis by simp
  qed
qed

end
