(* ===== verification/Options.thy ===== *)
theory Options
  imports Machine_Float
begin

text \<open>
  The command-line options (include/option.hpp): their names, defaults and ranges, and the
  check that follows the parsing.  The parser itself (cmdline.hpp) is third-party code; it
  hands over one value per option and rejects a value outside its range.  Options of type
  \<open>double\<close> are rationals.
\<close>

record opts =
  opt_cutoff :: rat
  opt_seeds :: int
  opt_preprocessing :: int
  opt_mode :: int
  opt_init_mode :: int
  opt_enable_swap :: int
  opt_ls_max_flips :: int
  opt_ls_max_non_improve_flip :: int
  opt_ls_swap_non_improve_flip :: int
  opt_ls_swapprob :: rat
  opt_ls_backbone_threshold :: int
  opt_ls_rdprob :: rat
  opt_ls_rwprob :: rat
  opt_ls_hd_count_small :: int
  opt_ls_hd_count_large :: int
  opt_ls_swap_bms_cap :: int
  opt_ls_neighbor_budget_gib :: int
  opt_verbose :: int

definition default_options :: opts where
  "default_options =
     \<lparr>opt_cutoff = 3600, opt_seeds = 20, opt_preprocessing = 1, opt_mode = 0, opt_init_mode = 1,
      opt_enable_swap = 1, opt_ls_max_flips = 29256504, opt_ls_max_non_improve_flip = 17193298,
      opt_ls_swap_non_improve_flip = 431188, opt_ls_swapprob = f64 (44873770692 / 10 ^ 13),
      opt_ls_backbone_threshold = 272, opt_ls_rdprob = f64 (15390844143 / 10 ^ 12),
      opt_ls_rwprob = f64 (309754852086 / 10 ^ 12), opt_ls_hd_count_small = 20,
      opt_ls_hd_count_large = 88, opt_ls_swap_bms_cap = 2, opt_ls_neighbor_budget_gib = 37,
      opt_verbose = 0\<rparr>"

text \<open>The ranges of the option table, as the parser enforces them.\<close>

definition options_in_range :: "opts \<Rightarrow> bool" where
  "options_in_range opt \<longleftrightarrow>
     0 \<le> opt_cutoff opt \<and> opt_cutoff opt \<le> 10 ^ 18
   \<and> opt_seeds opt \<in> {0..2000000000} \<and> opt_preprocessing opt \<in> {0..1} \<and> opt_mode opt \<in> {0..1}
   \<and> opt_init_mode opt \<in> {0..4} \<and> opt_enable_swap opt \<in> {0..1}
   \<and> opt_ls_max_flips opt \<in> {0..10 ^ 9} \<and> opt_ls_max_non_improve_flip opt \<in> {0..10 ^ 9}
   \<and> opt_ls_swap_non_improve_flip opt \<in> {0..10 ^ 9}
   \<and> 0 \<le> opt_ls_swapprob opt \<and> opt_ls_swapprob opt \<le> 1
   \<and> opt_ls_backbone_threshold opt \<in> {0..10 ^ 9}
   \<and> 0 \<le> opt_ls_rdprob opt \<and> opt_ls_rdprob opt \<le> 1 \<and> 0 \<le> opt_ls_rwprob opt \<and> opt_ls_rwprob opt \<le> 1
   \<and> opt_ls_hd_count_small opt \<in> {1..10000} \<and> opt_ls_hd_count_large opt \<in> {1..10000}
   \<and> opt_ls_swap_bms_cap opt \<in> {1..10000} \<and> opt_ls_neighbor_budget_gib opt \<in> {1..48}
   \<and> opt_verbose opt \<in> {0..1}"

text \<open>\<open>None\<close>: the process exits with an error message.\<close>

definition parse_args :: "opts \<Rightarrow> opts option" where
  "parse_args opt =
     (if \<not> options_in_range opt then None
      else if opt_ls_hd_count_small opt > opt_ls_hd_count_large opt then None
      else Some opt)"

end
