(* ===== verification/Ls_Search.thy ===== *)
theory Ls_Search
  imports Ls_Swap Ls_Init Ls_Neighbors Options
begin

text \<open>
  The search itself: allocation and settings, the flip loop, the loop over the tries, and the
  final check of the assignment (\<open>allocate_memory\<close>, \<open>release_on_the_fly_memory\<close> in
  src/LocalSearch/init.cpp; \<open>settings\<close>, \<open>local_search_flip\<close>, \<open>local_search\<close>, \<open>verify_sol\<close>,
  \<open>solve\<close> in cardsat.cpp; the fields that \<open>Solver::run\<close> sets).  The results: every state the
  search passes through satisfies the invariant; a try that reports 10 stands on a solution;
  \<open>solve\<close> answers 10 exactly when its final assignment is one.
\<close>

section \<open>Memory\<close>

text \<open>\<open>allocate_memory\<close> leaves the arrays without initialiser with arbitrary contents, those of
  \<open>garbage\<close>, and zeroes the others.\<close>

definition allocate_memory :: "ls \<Rightarrow> ls" where
  "allocate_memory garbage = garbage\<lparr>
     var_neighbor := (\<lambda>_. []), neighbor_flag := (\<lambda>_. 0), weight_delta_score := (\<lambda>_. 0),
     weight_is_touched := (\<lambda>_. False), sat_var := Some (\<lambda>_. 0)\<rparr>"

text \<open>In on-the-fly mode \<open>weight_delta_score\<close> takes over the array of \<open>neighbor_flag\<close>; the
  pointer comparison at the start of the function asks whether that has happened.  From then on
  nothing reads \<open>neighbor_flag\<close>, so the two stay separate fields here.\<close>

definition release_on_the_fly_memory :: "ls \<Rightarrow> ls" where
  "release_on_the_fly_memory st =
     (if sat_var st = None then st
      else st\<lparr>sat_var := None, weight_delta_score := (\<lambda>_. 0), neighbor_flag := (\<lambda>_. 0)\<rparr>)"

section \<open>Settings\<close>

definition checked_neighbor_entry_budget :: "64 word \<Rightarrow> 64 word option" where
  "checked_neighbor_entry_budget budget_gib =
     (let kBytesPerGiB = push_bit 30 1
      in if budget_gib > - 1 div kBytesPerGiB then None
         else Some ((budget_gib * kBytesPerGiB) div 4))"

text \<open>What \<open>Solver::run\<close> stores in the object before \<open>solve\<close>; the other fields of the
  value-initialised object are 0.\<close>

definition configure :: "opts \<Rightarrow> (nat \<Rightarrow> int) \<Rightarrow> ls_par" where
  "configure opt libc =
     \<lparr>max_tries = 0, max_flips = nat (opt_ls_max_flips opt),
      max_non_improve_flip = nat (opt_ls_max_non_improve_flip opt),
      swap_non_improve_flip = nat (opt_ls_swap_non_improve_flip opt),
      hd_count_threshold = 0, h_inc = 0, swap_bms_cap = 0, rwprob_threshold = 0,
      rdprob_threshold = 0, swapprob = opt_ls_swapprob opt, swapprob_threshold = 0,
      backbone_threshold = opt_ls_backbone_threshold opt, enable_swap = (opt_enable_swap opt = 1),
      init_mode = opt_init_mode opt, neighbor_entry_budget = 0, threshold_weight = 0,
      p_scale = 0, q_scale = 0, q_init = 0, scale_ave = 0, libc_rand = libc\<rparr>"

text \<open>\<open>avg_neighbor_lit < 1e+7\<close>: the quotient of two \<open>int\<close> values in double precision.  A
  zero denominator gives an infinity or NaN, and only the negative infinity is below the limit.
  Otherwise rounding cannot carry the quotient across the limit for counts below \<open>2 ^ 30\<close>.\<close>

definition literal_total :: "inst \<Rightarrow> nat" where
  "literal_total I = (\<Sum>v\<leftarrow>[1..<Suc (num_vars I)]. var_lit_count I v)"

definition avg_neighbor_lit_small :: "inst \<Rightarrow> bool" where
  "avg_neighbor_lit_small I =
     (let n = int (literal_total I) - int (num_clauses I);
          d = int (num_vars I) - int (num_clauses I) + 1
      in if d = 0 then n < 0 else if d > 0 then n < 10000000 * d else n > 10000000 * d)"

text \<open>\<open>ratio \<le> 15\<close>; dividing by zero variables gives an infinity or NaN, which is not.\<close>

definition ratio_small :: "inst \<Rightarrow> bool" where
  "ratio_small I \<longleftrightarrow> num_vars I \<noteq> 0
     \<and> f32 (f32 (rat_of_nat (num_clauses I)) / f32 (rat_of_nat (num_vars I))) \<le> 15"

definition set_parameters :: "inst \<Rightarrow> opts \<Rightarrow> 64 word \<Rightarrow> ls_par \<Rightarrow> ls_par" where
  "set_parameters I opt budget P =
     (let q = (if q_init P = 0 then (if ratio_small I then 0 else f32 (7 / 10))
               else if q_scale P < 1 / 2 then f32 (7 / 10) else 0);
          rand_max = rat_of_nat MY_RAND_MAX_INT
      in P\<lparr>max_tries := 2000000000, threshold_weight := 300, p_scale := f32 (3 / 10), q_scale := q,
           scale_ave := trunc (f32 (301 * q)), q_init := 1,
           hd_count_threshold :=
             nat (if num_vars I > 2000 then opt_ls_hd_count_large opt else opt_ls_hd_count_small opt),
           h_inc := 1, swap_bms_cap := opt_ls_swap_bms_cap opt, neighbor_entry_budget := unat budget,
           rwprob_threshold := trunc (f32 (f32 (opt_ls_rwprob opt) * rand_max)),
           rdprob_threshold := trunc (f32 (f32 (opt_ls_rdprob opt) * rand_max)),
           swapprob_threshold := trunc (f64 (swapprob P * rand_max))\<rparr>)"

definition choose_mode :: "inst \<Rightarrow> ls_par \<Rightarrow> (nat \<Rightarrow> bool) \<Rightarrow> ls \<Rightarrow> ls" where
  "choose_mode I P alloc st =
     (let size = max_clause_length I;
          min_entries = (if size > 1 then size * (size - 1) else 0);
          (materialized, st) =
            (if avg_neighbor_lit_small I \<and> min_entries \<le> neighbor_entry_budget P
             then build_neighbor_relation I (neighbor_entry_budget P) alloc st else (False, st))
      in if materialized then st\<lparr>materialized_neighbor_mode := True\<rparr>
         else release_on_the_fly_memory (st\<lparr>materialized_neighbor_mode := False\<rparr>))"

text \<open>\<open>None\<close> is the exit on an invalid budget.\<close>

definition settings :: "inst \<Rightarrow> opts \<Rightarrow> (nat \<Rightarrow> bool) \<Rightarrow> ls_par \<Rightarrow> ls \<Rightarrow> (ls_par \<times> ls) option" where
  "settings I opt alloc P st =
     (case checked_neighbor_entry_budget (word_of_int (opt_ls_neighbor_budget_gib opt)) of
        None \<Rightarrow> None
      | Some budget \<Rightarrow>
          let P = set_parameters I opt budget P;
              st = st\<lparr>total_step := 0, minimum_hard_unsat_nb := 2147483647,
                      delta_total_weight := 0, ave_weight := 1,
                      m_prng_state := word_of_int (if opt_seeds opt \<noteq> 0 then opt_seeds opt else 1)\<rparr>
          in Some (P, choose_mode I P alloc st))"

section \<open>The search loops\<close>

text \<open>The swap condition; the generator is only asked when the cheaper tests hold.\<close>

definition swap_now :: "ls_par \<Rightarrow> nat \<Rightarrow> ls \<Rightarrow> bool \<times> ls" where
  "swap_now P non_improve_flips st =
     (if enable_swap P \<and> fill_pointer (cardsat st) > 0 \<and> non_improve_flips \<ge> swap_non_improve_flip P
      then rand_hits (swapprob_threshold P) st else (False, st))"

definition search_move :: "inst \<Rightarrow> ls_par \<Rightarrow> nat \<Rightarrow> ls \<Rightarrow> ls" where
  "search_move I P non_improve_flips st =
     (let st = st\<lparr>total_step := total_step st + 1\<rparr>;
          (swap, st) = swap_now P non_improve_flips st
      in if swap then swap_vars I P st
         else
           let (flipvar, st) = pick_var I P st;
               st = flip I flipvar st
           in st\<lparr>time_stamp := (time_stamp st)(flipvar := int (ls_step st))\<rparr>)"

text \<open>\<open>flip_loop n\<close> is the loop with \<open>n\<close> steps left before \<open>step\<close> reaches \<open>max_flips\<close>.\<close>

primrec flip_loop :: "inst \<Rightarrow> ls_par \<Rightarrow> nat \<Rightarrow> int \<Rightarrow> nat \<Rightarrow> ls \<Rightarrow> int \<times> ls" where
  "flip_loop I P 0 best_hard_unsat_nb non_improve_flips st = (0, st)"
| "flip_loop I P (Suc n) best_hard_unsat_nb non_improve_flips st =
     (if hard_unsat_nb st = 0 then (10, st)
      else if non_improve_flips \<ge> max_non_improve_flip P then (0, st)
      else
        let st = search_move I P non_improve_flips st;
            (best_hard_unsat_nb, non_improve_flips) =
              (if hard_unsat_nb st < best_hard_unsat_nb then (hard_unsat_nb st, 0)
               else (best_hard_unsat_nb, non_improve_flips + 1));
            st = st\<lparr>minimum_hard_unsat_nb := min (minimum_hard_unsat_nb st) (hard_unsat_nb st)\<rparr>
        in flip_loop I P n best_hard_unsat_nb non_improve_flips (st\<lparr>ls_step := ls_step st + 1\<rparr>))"

definition local_search_flip :: "inst \<Rightarrow> ls_par \<Rightarrow> ls \<Rightarrow> int \<times> ls" where
  "local_search_flip I P st =
     flip_loop I P (max_flips P - 1) (hard_unsat_nb st) 0 (st\<lparr>ls_step := 1\<rparr>)"

text \<open>\<open>tries_loop n\<close> is the loop with \<open>n\<close> tries left before \<open>tries\<close> reaches \<open>max_tries\<close>.\<close>

primrec tries_loop :: "inst \<Rightarrow> ls_par \<Rightarrow> nat \<Rightarrow> ls \<Rightarrow> ls" where
  "tries_loop I P 0 st = st"
| "tries_loop I P (Suc n) st =
     (let st = init_assignment I P st;
          st = init_local_search I st;
          st = st\<lparr>minimum_hard_unsat_nb := min (minimum_hard_unsat_nb st) (hard_unsat_nb st)\<rparr>;
          (res, st) = local_search_flip I P st
      in if res = 10 then st else tries_loop I P n (st\<lparr>tries := tries st + 1\<rparr>))"

definition local_search :: "inst \<Rightarrow> ls_par \<Rightarrow> ls \<Rightarrow> ls" where
  "local_search I P st = tries_loop I P (max_tries P - 1) (st\<lparr>tries := 1\<rparr>)"

text \<open>\<open>verify_sol\<close> recounts every clause and stops at the first that fails.\<close>

definition verify_clause :: "inst \<Rightarrow> (nat \<Rightarrow> int) \<Rightarrow> nat \<Rightarrow> unit \<Rightarrow> unit option" where
  "verify_clause I a c u =
     (let count = fold (\<lambda>l count. if a (var_num l) = of_bool (sense l) then count + 1 else count)
                       (clause_lit I c) (0 :: int)
      in if count < clause_true_lit_thres I c then None else Some u)"

definition verify_sol :: "inst \<Rightarrow> ls \<Rightarrow> int" where
  "verify_sol I st =
     (case ofold (verify_clause I (cur_soln st)) [0..<num_clauses I] () of None \<Rightarrow> 0 | Some _ \<Rightarrow> 10)"

text \<open>\<open>solve\<close> with the parts that run before it in \<open>Solver::run\<close>: allocation and
  configuration.\<close>

definition solve :: "inst \<Rightarrow> opts \<Rightarrow> (nat \<Rightarrow> int) \<Rightarrow> (nat \<Rightarrow> bool) \<Rightarrow> ls \<Rightarrow> (int \<times> ls) option" where
  "solve I opt libc alloc garbage =
     (case settings I opt alloc (configure opt libc) (allocate_memory garbage) of
        None \<Rightarrow> None
      | Some (P, st) \<Rightarrow> let st = local_search I P st in Some (verify_sol I st, st))"


section \<open>The budget\<close>

lemma checked_budget_value:
  "checked_neighbor_entry_budget g =
     (if unat g < 2 ^ 34 then Some (word_of_nat (unat g * 2 ^ 28)) else None)"
proof -
  have lim: "unat (- 1 div (push_bit 30 1) :: 64 word) = 2 ^ 34 - 1"
    by (simp add: unat_div push_bit_eq_mult)
  have gt: "(- 1 div push_bit 30 1 < g) = (\<not> unat g < 2 ^ 34)"
    unfolding word_less_nat_alt lim by auto
  show ?thesis
  proof (cases "unat g < 2 ^ 34")
    case True
    have p: "unat (push_bit 30 1 :: 64 word) = 2 ^ 30" by (simp add: push_bit_eq_mult)
    have "unat g * unat (push_bit 30 1 :: 64 word) < 2 ^ LENGTH(64)" using True unfolding p by simp
    then have "unat (g * push_bit 30 1) = unat g * 2 ^ 30"
      using unat_mult_lem [of g "push_bit 30 1"] p by simp
    then have "unat ((g * push_bit 30 1) div 4) = unat g * 2 ^ 28"
      by (simp add: unat_div)
    from arg_cong [OF this, of "word_of_nat :: nat \<Rightarrow> 64 word"]
    have "(g * push_bit 30 1) div 4 = word_of_nat (unat g * 2 ^ 28)" by simp
    with gt True show ?thesis by (simp add: checked_neighbor_entry_budget_def Let_def)
  next
    case False
    with gt show ?thesis by (simp add: checked_neighbor_entry_budget_def Let_def)
  qed
qed

section \<open>The final check\<close>

lemma verify_count:
  "fold (\<lambda>l count. if a (var_num l) = of_bool (sense l) then count + 1 else count) ls k
     = k + true_count a ls"
  by (induction ls arbitrary: k) (auto simp: true_count_def lit_true_def)

lemma verify_sol_iff: "verify_sol I st = (if is_solution I (cur_soln st) then 10 else 0)"
proof -
  have "ofold (verify_clause I a) cs () = (if \<forall>c\<in>set cs. clause_holds I a c then Some () else None)" for a cs
    by (induction cs) (auto simp: verify_clause_def verify_count clause_holds_def)
  then show ?thesis by (simp add: verify_sol_def is_solution_def atLeast0LessThan lessThan_def)
qed

section \<open>The invariant through the search\<close>

lemma ls_inv_bookkeeping [simp]:
  "ls_inv I (st\<lparr>total_step := n\<rparr>) = ls_inv I st" "ls_inv I (st\<lparr>ls_step := n\<rparr>) = ls_inv I st"
  "ls_inv I (st\<lparr>tries := n\<rparr>) = ls_inv I st" "ls_inv I (st\<lparr>minimum_hard_unsat_nb := m\<rparr>) = ls_inv I st"
  by (simp_all add: ls_inv_def soln_ok_def counts_ok_def scores_ok_def score_at_def stacks_ok_def
      unsat_clauses_def weights_ok_def scratch_ok_def neighbors_ok_def good_ok_def)

lemma search_move_inv:
  assumes wf: "wf_inst I" and h: "0 \<le> h_inc P" and inv: "ls_inv I st" and un: "0 < hard_unsat_nb st"
  shows "ls_inv I (search_move I P k st)
    \<and> materialized_neighbor_mode (search_move I P k st) = materialized_neighbor_mode st"
proof -
  let ?st = "st\<lparr>total_step := total_step st + 1\<rparr>"
  obtain b st1 where sw: "swap_now P k ?st = (b, st1)" by fastforce
  have p: "prng_only ?st st1"
  proof (cases "enable_swap P \<and> fill_pointer (cardsat ?st) > 0 \<and> k \<ge> swap_non_improve_flip P")
    case True
    with sw have "rand_hits (swapprob_threshold P) ?st = (b, st1)" by (simp add: swap_now_def)
    then show ?thesis unfolding prng_only_def by (rule rand_hitsE) blast
  next
    case False
    with sw show ?thesis by (auto simp: swap_now_def)
  qed
  have inv1: "ls_inv I st1" using prng_onlyD(2) [OF p] inv by simp
  have un1: "0 < hard_unsat_nb st1" using p un by (auto simp: prng_only_def)
  have m1: "materialized_neighbor_mode st1 = materialized_neighbor_mode st" using prng_onlyD [OF p] by simp
  show ?thesis
  proof (cases b)
    case True
    then show ?thesis using swap_vars_ok [OF wf inv1, of P] sw m1 by (simp add: search_move_def Let_def)
  next
    case False
    obtain v st2 where pv: "pick_var I P st1 = (v, st2)" by fastforce
    note ok = pick_var_ok [OF wf inv1 un1 h pv]
    then have "ls_inv I (flip I v st2)" by (intro flip_inv [OF wf]) auto
    then show ?thesis using False sw pv ok m1
      by (simp add: search_move_def Let_def flip_frame)
  qed
qed

lemma hard_unsat_nb_nonneg: "ls_inv I st \<Longrightarrow> 0 \<le> hard_unsat_nb st"
  by (simp add: ls_inv_def stacks_ok_def)

lemma flip_loop_inv:
  assumes wf: "wf_inst I" and h: "0 \<le> h_inc P"
    and "ls_inv I st" and "flip_loop I P n best k st = (r, t)"
  shows "ls_inv I t \<and> materialized_neighbor_mode t = materialized_neighbor_mode st
    \<and> (r = 10 \<and> hard_unsat_nb t = 0 \<or> r = 0)"
  using assms(3,4)
proof (induction n arbitrary: best k st)
  case 0
  then show ?case by auto
next
  case (Suc n)
  show ?case
  proof (cases "hard_unsat_nb st = 0 \<or> k \<ge> max_non_improve_flip P")
    case True
    with Suc.prems show ?thesis by (auto split: if_splits)
  next
    case False
    then have "0 < hard_unsat_nb st" using hard_unsat_nb_nonneg [OF Suc.prems(1)] by simp
    note move = search_move_inv [OF wf h Suc.prems(1) this, of k]
    obtain best' k' st' where "flip_loop I P n best' k' st' = (r, t)"
      and "ls_inv I st'" "materialized_neighbor_mode st' = materialized_neighbor_mode st"
      using Suc.prems(2) False move by (auto simp: Let_def split: if_splits)
    from Suc.IH [OF this(2,1)] this(3) show ?thesis by simp
  qed
qed

lemma local_search_flip_ok:
  assumes "wf_inst I" and "ls_inv I st" and "0 \<le> h_inc P" and "local_search_flip I P st = (r, t)"
  shows "ls_inv I t \<and> (r = 10 \<and> is_solution I (cur_soln t) \<or> r = 0)
    \<and> (is_solution I (cur_soln st) \<longrightarrow> 1 < max_flips P \<longrightarrow> r = 10 \<and> cur_soln t = cur_soln st)"
proof -
  have fl: "flip_loop I P (max_flips P - 1) (hard_unsat_nb st) 0 (st\<lparr>ls_step := 1\<rparr>) = (r, t)"
    using assms(4) by (simp add: local_search_flip_def)
  have inv: "ls_inv I t \<and> (r = 10 \<and> hard_unsat_nb t = 0 \<or> r = 0)"
    using flip_loop_inv [OF assms(1,3) _ fl] assms(2) by simp
  have sol: "is_solution I (cur_soln s) \<longleftrightarrow> hard_unsat_nb s = 0" if "ls_inv I s" for s
    using that by (intro solution_iff_no_unsat) (simp_all add: ls_inv_def)
  have "r = 10 \<and> cur_soln t = cur_soln st" if z: "hard_unsat_nb st = 0" and m: "1 < max_flips P"
  proof -
    obtain n where "max_flips P - 1 = Suc n" using m by (metis Suc_diff_Suc diff_zero)
    then show ?thesis using fl z by auto
  qed
  then show ?thesis using inv sol assms(2) by blast
qed

definition init_rest :: "ls \<Rightarrow> ls" where
  "init_rest st = st\<lparr>cur_soln := (\<lambda>_. 0), time_stamp := (\<lambda>_. 0), rand_calls := 0\<rparr>"

lemma init_restD:
  assumes "init_rest s = init_rest t"
  shows "neighbor_flag s = neighbor_flag t" "weight_delta_score s = weight_delta_score t"
    "weight_is_touched s = weight_is_touched t" "sat_var s = sat_var t" "var_neighbor s = var_neighbor t"
    "materialized_neighbor_mode s = materialized_neighbor_mode t"
  using assms by (cases s; cases t; simp add: init_rest_def)+

lemma init_assignment_frame: "init_rest (init_assignment I P st) = init_rest st"
proof -
  have "init_rest (fold (set_var a) vs st) = init_rest st" "init_rest (fold (set_var_random P) vs st) = init_rest st"
    "init_rest (fold (reset_old_var P) vs st) = init_rest st" for a vs
    by (rule fold_unchanged, simp add: init_rest_def set_var_def set_var_random_def reset_old_var_def Let_def)+
  then show ?thesis
    by (simp add: init_assignment_def init_assignment_with_random_def init_assignment_with_backbone_def
        init_assignment_with_best_def init_assignment_with_false_def init_assignment_with_true_def
        init_assignment_with_value_def init_assignment_from_backbone_def del: upt_Suc)
qed

lemma start_try_inv:
  assumes wf: "wf_inst I" and "tries st = 1 \<or> soln_ok I st" and "scratch_ok st" "neighbors_ok I st"
  shows "ls_inv I (init_local_search I (init_assignment I P st))"
proof -
  let ?s = "init_assignment I P st"
  note f = init_restD [OF init_assignment_frame]
  have "scratch_ok ?s" "neighbors_ok I ?s"
    using assms(3,4) by (simp_all add: scratch_ok_def neighbors_ok_def f)
  with init_assignment_soln_ok [OF assms(2)] show ?thesis by (intro init_local_search_inv [OF wf])
qed

lemma tries_loop_inv:
  assumes wf: "wf_inst I" and h: "0 \<le> h_inc P"
    and "tries st = 1 \<or> soln_ok I st" and "scratch_ok st" "neighbors_ok I st"
  shows "ls_inv I (tries_loop I P (Suc n) st)"
  using assms(3-)
proof (induction n arbitrary: st)
  case (0 st)
  let ?s = "init_local_search I (init_assignment I P st)"
  obtain r t where fl: "local_search_flip I P (?s\<lparr>minimum_hard_unsat_nb :=
      min (minimum_hard_unsat_nb ?s) (hard_unsat_nb ?s)\<rparr>) = (r, t)" by fastforce
  have "ls_inv I t"
    using flip_loop_inv [OF wf h _ fl [unfolded local_search_flip_def]] start_try_inv [OF wf 0] by simp
  then show ?case using fl by (simp add: Let_def)
next
  case (Suc n st)
  let ?s = "init_local_search I (init_assignment I P st)"
  obtain r t where fl: "local_search_flip I P (?s\<lparr>minimum_hard_unsat_nb :=
      min (minimum_hard_unsat_nb ?s) (hard_unsat_nb ?s)\<rparr>) = (r, t)" by fastforce
  have t: "ls_inv I t"
    using flip_loop_inv [OF wf h _ fl [unfolded local_search_flip_def]] start_try_inv [OF wf Suc.prems] by simp
  have e: "tries_loop I P (Suc (Suc n)) st
      = (if r = 10 then t else tries_loop I P (Suc n) (t\<lparr>tries := tries t + 1\<rparr>))"
    unfolding tries_loop.simps(2) [of I P "Suc n"] Let_def fl by simp
  have "soln_ok I (t\<lparr>tries := tries t + 1\<rparr>)" "scratch_ok (t\<lparr>tries := tries t + 1\<rparr>)"
    "neighbors_ok I (t\<lparr>tries := tries t + 1\<rparr>)"
    using t by (simp_all add: ls_inv_def soln_ok_def scratch_ok_def neighbors_ok_def)
  with Suc.IH t show ?case unfolding e by simp
qed


section \<open>From a fresh allocation to the answer\<close>

lemma choose_mode_ok:
  assumes ix: "indexed_inst I"
    and st: "neighbor_flag st = (\<lambda>_. 0)" "weight_delta_score st = (\<lambda>_. 0)" "weight_is_touched st = (\<lambda>_. False)"
      "sat_var st = Some (\<lambda>_. 0)" "var_neighbor st = (\<lambda>_. [])"
  shows "scratch_ok (choose_mode I P alloc st) \<and> neighbors_ok I (choose_mode I P alloc st)
    \<and> (materialized_neighbor_mode (choose_mode I P alloc st) \<longrightarrow>
         (\<Sum>v\<leftarrow>[1..<Suc (num_vars I)]. length (var_neighbor (choose_mode I P alloc st) v)) \<le> neighbor_entry_budget P)"
proof -
  let ?B = "neighbor_entry_budget P"
  obtain m s where ms: "(if avg_neighbor_lit_small I
        \<and> (if max_clause_length I > 1 then max_clause_length I * (max_clause_length I - 1) else 0) \<le> ?B
      then build_neighbor_relation I ?B alloc st else (False, st)) = (m, s)" by fastforce
  have s: "neighbor_flag s = (\<lambda>_. 0) \<and> s = st\<lparr>var_neighbor := var_neighbor s\<rparr>
    \<and> (m \<longrightarrow> (\<forall>v. 1 \<le> v \<and> v < Suc (num_vars I) \<longrightarrow> distinct (var_neighbor s v) \<and> set (var_neighbor s v) = neighbors_of I v)
          \<and> (\<Sum>v\<leftarrow>[1..<Suc (num_vars I)]. length (var_neighbor s v)) \<le> ?B)"
  proof (cases "m = False \<and> s = st")
    case True
    then show ?thesis by (simp add: st)
  next
    case False
    then have "build_neighbors I ?B alloc [1..<1 + num_vars I] 0 st = (m, s)"
      using ms by (auto simp: build_neighbor_relation_def split: if_splits)
    from build_neighbors_correct [OF ix st(1) _ _ _ _ _ this] show ?thesis by (simp add: st del: upt_Suc)
  qed
  have "choose_mode I P alloc st = (if m then s\<lparr>materialized_neighbor_mode := True\<rparr>
      else release_on_the_fly_memory (s\<lparr>materialized_neighbor_mode := False\<rparr>))"
    unfolding choose_mode_def Let_def ms by simp
  moreover have "weight_delta_score s = (\<lambda>_. 0)" "weight_is_touched s = (\<lambda>_. False)" "sat_var s = Some (\<lambda>_. 0)"
    using s st by (metis ls.select_convs ls.surjective ls.update_convs(3))+
  ultimately show ?thesis
    using s by (auto simp: scratch_ok_def neighbors_ok_def release_on_the_fly_memory_def)
qed

lemma settings_ok:
  assumes ix: "indexed_inst I" and s: "settings I opt alloc P0 (allocate_memory garbage) = Some (P, st)"
  shows "scratch_ok st" and "neighbors_ok I st" and "h_inc P = 1" and "max_tries P = 2000000000"
    and "max_flips P = max_flips P0"
proof -
  obtain b where b: "checked_neighbor_entry_budget (word_of_int (opt_ls_neighbor_budget_gib opt)) = Some b"
    using s by (auto simp: settings_def split: option.splits)
  let ?s = "(allocate_memory garbage)\<lparr>total_step := 0, minimum_hard_unsat_nb := 2147483647,
      delta_total_weight := 0, ave_weight := 1,
      m_prng_state := word_of_int (if opt_seeds opt \<noteq> 0 then opt_seeds opt else 1)\<rparr>"
  have P: "P = set_parameters I opt b P0" and st: "st = choose_mode I P alloc ?s"
    using s unfolding settings_def b by (auto simp: Let_def)
  show "h_inc P = 1" "max_tries P = 2000000000" "max_flips P = max_flips P0"
    by (simp_all add: P set_parameters_def Let_def)
  show "scratch_ok st" "neighbors_ok I st"
    using choose_mode_ok [OF ix, of ?s P alloc] by (simp_all add: st allocate_memory_def)
qed

lemma settings_mode:
  assumes ix: "indexed_inst I" and s: "settings I opt alloc P0 (allocate_memory garbage) = Some (P, st)"
  shows "if materialized_neighbor_mode st
    then (\<Sum>v\<leftarrow>[1..<Suc (num_vars I)]. length (var_neighbor st v)) \<le> neighbor_entry_budget P
    else sat_var st = None"
proof -
  obtain b where b: "checked_neighbor_entry_budget (word_of_int (opt_ls_neighbor_budget_gib opt)) = Some b"
    using s by (auto simp: settings_def split: option.splits)
  let ?s = "(allocate_memory garbage)\<lparr>total_step := 0, minimum_hard_unsat_nb := 2147483647,
      delta_total_weight := 0, ave_weight := 1,
      m_prng_state := word_of_int (if opt_seeds opt \<noteq> 0 then opt_seeds opt else 1)\<rparr>"
  have st: "st = choose_mode I P alloc ?s"
    using s unfolding settings_def b by (auto simp: Let_def)
  have "sat_var (choose_mode I P alloc t) = None" if "\<not> materialized_neighbor_mode (choose_mode I P alloc t)" for t
    using that by (auto simp: choose_mode_def Let_def release_on_the_fly_memory_def split: prod.splits if_splits)
  then show ?thesis
    using choose_mode_ok [OF ix, of ?s P alloc] by (simp add: st allocate_memory_def)
qed

lemma solve_inv:
  assumes wf: "wf_inst I" and s: "solve I opt libc alloc garbage = Some (r, t)"
  shows "ls_inv I t" and "r = (if is_solution I (cur_soln t) then 10 else 0)"
proof -
  have ix: "indexed_inst I" using wf by (simp add: wf_inst_def)
  obtain P st where ps: "settings I opt alloc (configure opt libc) (allocate_memory garbage) = Some (P, st)"
    and t: "t = local_search I P st" and r: "r = verify_sol I t"
    using s by (auto simp: solve_def Let_def split: option.splits)
  note ok = settings_ok [OF ix ps]
  have "max_tries P - 1 = Suc 1999999998" by (simp add: ok)
  then have "t = tries_loop I P (Suc 1999999998) (st\<lparr>tries := 1\<rparr>)"
    by (simp only: t local_search_def)
  moreover have "ls_inv I (tries_loop I P (Suc 1999999998) (st\<lparr>tries := 1\<rparr>))"
    using ok by (intro tries_loop_inv [OF wf]) (simp_all add: scratch_ok_def neighbors_ok_def)
  ultimately show "ls_inv I t" by simp
  show "r = (if is_solution I (cur_soln t) then 10 else 0)" by (simp add: r verify_sol_iff)
qed

end
