(* ===== verification/Solver.thy ===== *)
theory Solver
  imports Parse Prep_Up Prep_Res Prep_Bin Ls_Search
begin

text \<open>
  The preprocessing pipeline with the reconstruction of a complete model (\<open>do_preprocess\<close>,
  \<open>get_complete_model\<close>, src/PreProcess/preprocess.cpp) and the driver (src/solver.cpp,
  src/main.cpp).  The conflict-driven solver of mode 1 is the library src/lib/ccdcl; it is the
  parameter \<open>ccdcl\<close> of the driver: its answer and its values as a function of the problem.
\<close>

section \<open>Reconstructing the eliminated variables\<close>

definition bad_value :: "preproc \<Rightarrow> nat \<Rightarrow> bool" where
  "bad_value p i \<longleftrightarrow> pp_mapto p i = 0 \<and> pp_mapval p i \<noteq> 0 \<and> \<bar>pp_mapval p i\<bar> \<noteq> 1"

definition satisfied_with :: "preproc \<Rightarrow> nat \<Rightarrow> nat \<Rightarrow> int \<Rightarrow> bool" where
  "satisfied_with p cid pivot v =
     (int (length (filter (\<lambda>l. (if lit_var l = pivot then v else pp_mapval p (lit_var l)) = pnsign l)
             (pp_res_clause p ! cid)))
      \<ge> pp_res_degree p ! cid)"

definition clauses_with_pivot_satisfied :: "preproc \<Rightarrow> nat \<Rightarrow> int \<Rightarrow> nat \<Rightarrow> nat \<Rightarrow> bool" where
  "clauses_with_pivot_satisfied p pivot v lo hi =
     list_all (\<lambda>cid. satisfied_with p cid pivot v) [lo..<Suc hi]"

text \<open>\<open>while (last_owned_clause >= 1 && res_owner[last_owned_clause] == v) --last_owned_clause\<close>.\<close>

fun skip_owned :: "nat list \<Rightarrow> nat \<Rightarrow> nat \<Rightarrow> nat" where
  "skip_owned owner v 0 = 0"
| "skip_owned owner v (Suc n) = (if owner ! Suc n = v then skip_owned owner v n else Suc n)"

text \<open>The loop over the resolutions from the last to the first; \<open>None\<close> is \<open>return false\<close>,
  otherwise the final \<open>last_owned_clause\<close> and the state.\<close>

fun recover_vars :: "nat list \<Rightarrow> nat \<Rightarrow> preproc \<Rightarrow> (nat \<times> preproc) option" where
  "recover_vars [] last_owned p = Some (last_owned, p)"
| "recover_vars (v # vs) last_owned p =
     (let group_last = last_owned;
          last_owned = skip_owned (pp_res_owner p) v last_owned;
          group_first = last_owned + 1
      in if group_first > group_last then None
         else if clauses_with_pivot_satisfied p v 1 group_first group_last
         then recover_vars vs last_owned (p\<lparr>pp_mapval := (pp_mapval p)(v := 1)\<rparr>)
         else if clauses_with_pivot_satisfied p v (-1) group_first group_last
         then recover_vars vs last_owned (p\<lparr>pp_mapval := (pp_mapval p)(v := -1)\<rparr>)
         else None)"

definition get_complete_model :: "preproc \<Rightarrow> bool \<times> preproc" where
  "get_complete_model p =
     (let bad = filter (bad_value p) [1..<Suc (pp_orivars p)];
          p = fold (\<lambda>i p. p\<lparr>pp_mapval := (pp_mapval p)(i := 0)\<rparr>) bad p
      in if bad = [] then (True, p)
         else if length (pp_res_owner p) \<noteq> pp_res_clauses p + 1 \<or> length (pp_resolution p) \<noteq> pp_resolutions p + 1
         then (False, p)
         else case recover_vars (rev (tl (pp_resolution p))) (pp_res_clauses p) p of
           None \<Rightarrow> (False, p)
         | Some (last_owned, p) \<Rightarrow>
             if last_owned \<noteq> 0 then (False, p)
             else (True, p\<lparr>pp_res_clause := [], pp_res_degree := [], pp_resolution := [], pp_res_owner := []\<rparr>))"

section \<open>The pipeline\<close>

text \<open>The answer 20 (unsatisfiable) or 0 with the state; \<open>None\<close> if a part does not return.\<close>

definition prep_fail :: "preproc \<Rightarrow> stop + int \<times> preproc" where
  "prep_fail p = Inr (20, clear_problem p)"

definition run_phases :: "preproc \<Rightarrow> (stop + int \<times> preproc) option" where
  "run_phases p =
     (case preprocess_up p of
        None \<Rightarrow> None
      | Some None \<Rightarrow> Some (prep_fail p)
      | Some (Some p) \<Rightarrow>
          (case preprocess_resolution p of
             None \<Rightarrow> None
           | Some None \<Rightarrow> Some (prep_fail p)
           | Some (Some p) \<Rightarrow>
               (case preprocess_binary p of
                  None \<Rightarrow> None
                | Some None \<Rightarrow> Some (prep_fail p)
                | Some (Some p) \<Rightarrow> Some (Inr (0, release p)))))"

definition do_preprocess :: "string \<Rightarrow> preproc \<Rightarrow> (stop + int \<times> preproc) option" where
  "do_preprocess data p =
     (case read_file data p of
        None \<Rightarrow> None
      | Some (Inl e) \<Rightarrow> Some (Inl e)
      | Some (Inr p) \<Rightarrow> run_phases (preprocess_init p))"

section \<open>The driver\<close>

definition sign_of :: "int \<Rightarrow> int" where
  "sign_of x = (if x > 0 then 1 else -1)"

definition take_back :: "(nat \<Rightarrow> int) \<Rightarrow> nat \<Rightarrow> preproc \<Rightarrow> preproc" where
  "take_back value i p =
     (if pp_mapto p i \<noteq> 0
      then p\<lparr>pp_mapval := (pp_mapval p)(i := sign_of (value (nat \<bar>pp_mapto p i\<bar>)) * sign_of (pp_mapto p i))\<rparr>
      else p)"

text \<open>\<open>value\<close> is \<open>m_ccdcl_solver->val\<close> or \<open>cur_soln\<close>; the model has \<open>orivars + 1\<close>
  entries.\<close>

definition build_model :: "bool \<Rightarrow> (nat \<Rightarrow> int) \<Rightarrow> preproc \<Rightarrow> bool \<times> int list" where
  "build_model preprocessing value p =
     (let model = replicate (pp_orivars p + 1) 0
      in if \<not> preprocessing
         then (True, fold (\<lambda>i model. model[i := sign_of (value i)]) [1..<Suc (pp_orivars p)] model)
         else
           let p = fold (take_back value) [1..<Suc (pp_orivars p)] p;
               (complete, p) = get_complete_model p
           in if \<not> complete then (False, model)
              else case ofold (\<lambda>i model. if \<bar>pp_mapval p i\<bar> \<noteq> 1 then None else Some (model[i := pp_mapval p i]))
                        [1..<Suc (pp_orivars p)] model of
                None \<Rightarrow> (False, model)
              | Some model \<Rightarrow> (True, model))"

text \<open>What the search needs from outside: the sequence of random numbers, the answers of the
  allocator, the contents of fresh memory, and the conflict-driven solver.\<close>

record environment =
  env_rand :: "nat \<Rightarrow> int"
  env_alloc :: "nat \<Rightarrow> bool"
  env_garbage :: ls
  env_ccdcl :: "preproc \<Rightarrow> int \<times> (nat \<Rightarrow> int)"

definition load_problem :: "opts \<Rightarrow> string \<Rightarrow> (stop + int \<times> preproc) option" where
  "load_problem opt data =
     (if opt_preprocessing opt \<noteq> 0 then do_preprocess data fresh_preproc
      else case read_file data fresh_preproc of
        None \<Rightarrow> None
      | Some (Inl e) \<Rightarrow> Some (Inl e)
      | Some (Inr p) \<Rightarrow> Some (Inr (0, p)))"

definition search_problem :: "opts \<Rightarrow> environment \<Rightarrow> preproc \<Rightarrow> (int \<times> (nat \<Rightarrow> int)) option" where
  "search_problem opt env p =
     (if opt_mode opt \<noteq> 0 then Some (env_ccdcl env p)
      else case solve (parse_from_preprocess p) opt (env_rand env) (env_alloc env) (env_garbage env) of
        None \<Rightarrow> None
      | Some (res, st) \<Rightarrow> Some (res, cur_soln st))"

text \<open>The answer of \<open>Solver::run\<close> and the model; \<open>Some (Inl Fault)\<close> also stands for the exit
  on an invalid memory budget.\<close>

definition run :: "opts \<Rightarrow> environment \<Rightarrow> string \<Rightarrow> (stop + int \<times> int list) option" where
  "run opt env data =
     (case load_problem opt data of
        None \<Rightarrow> None
      | Some (Inl e) \<Rightarrow> Some (Inl e)
      | Some (Inr (res, p)) \<Rightarrow>
          if res \<noteq> 0 then Some (Inr (res, []))
          else case search_problem opt env p of
            None \<Rightarrow> Some (Inl Fault)
          | Some (res, value) \<Rightarrow>
              if res \<noteq> 10 then Some (Inr (res, []))
              else (case build_model (opt_preprocessing opt \<noteq> 0) value p of
                      (done, model) \<Rightarrow> Some (Inr (if done then 10 else 0, model))))"

definition get_model :: "nat \<Rightarrow> int list \<Rightarrow> string" where
  "get_model orivars model =
     ''v '' @ concat (map (\<lambda>i. show_int (int i * model ! i) @ '' '') [1..<Suc orivars]) @ ''0'' @ newline"

text \<open>The status line of \<open>main\<close> and the model line; the timing line is left out.\<close>

definition status_line :: "int \<Rightarrow> string" where
  "status_line res =
     (if res = 10 then ''s SATISFIABLE'' else if res = 20 then ''s UNSATISFIABLE'' else ''s UNKNOWN'') @ newline"

definition main_output :: "opts \<Rightarrow> environment \<Rightarrow> string \<Rightarrow> (stop + string) option" where
  "main_output opt env data =
     (case run opt env data of
        None \<Rightarrow> None
      | Some (Inl e) \<Rightarrow> Some (Inl e)
      | Some (Inr (res, model)) \<Rightarrow>
          Some (Inr (status_line res @ (if res = 10 then get_model (length model - 1) model else []))))"

end
