(* ===== verification/Prep_Up_Inv.thy ===== *)
theory Prep_Up_Inv
  imports Prep_Up
begin

text \<open>
  Correctness of \<open>preprocess_up\<close>.  The set of models of a state, assignments that agree with the
  values given so far and satisfy the rows that are not deleted, is kept by every step; the
  structural invariant says that a row whose variables may have been assigned is still due for
  simplification.  A row counts each literal once, so the models of the input are those of its
  rows read as sets of literals.
\<close>

section \<open>Models of a state\<close>

definition set_sat :: "(nat \<Rightarrow> bool) \<Rightarrow> int list \<Rightarrow> int \<Rightarrow> bool" where
  "set_sat a c d \<longleftrightarrow> row_sat a (remdups c) d"

definition agrees :: "preproc \<Rightarrow> (nat \<Rightarrow> bool) \<Rightarrow> bool" where
  "agrees p a \<longleftrightarrow> (\<forall>v\<in>{1..pp_vars p}. pp_varval p v \<noteq> 0 \<longrightarrow> a v = (pp_varval p v = 1))"

definition up_models :: "preproc \<Rightarrow> (nat \<Rightarrow> bool) \<Rightarrow> bool" where
  "up_models p a \<longleftrightarrow> agrees p a
     \<and> (\<forall>i\<in>{1..pp_clauses p}. \<not> deleted p i \<longrightarrow> set_sat a (pp_row p i) (pp_deg p i))"

definition queue_ok :: "preproc \<Rightarrow> nat list \<Rightarrow> bool" where
  "queue_ok p queue \<longleftrightarrow> distinct queue \<and> set queue = {v\<in>{1..pp_vars p}. pp_varval p v \<noteq> 0}
     \<and> (\<forall>v\<in>{1..pp_vars p}. pp_varval p v \<in> {-1, 0, 1})"

lemma lit_sat_agrees:
  assumes "agrees p a" and "l \<noteq> 0" and "lit_var l \<in> {1..pp_vars p}"
    and "pp_varval p (lit_var l) \<in> {-1, 1}"
  shows "lit_sat a l \<longleftrightarrow> pp_varval p (lit_var l) = pnsign l"
  using assms by (auto simp: agrees_def lit_sat_def pnsign_def)

section \<open>Assigning literals\<close>

text \<open>Only values change, and every variable whose value changes joins the queue.\<close>

definition up_extends :: "nat list \<times> preproc \<Rightarrow> nat list \<times> preproc \<Rightarrow> bool" where
  "up_extends = (\<lambda>(q, p) (q', p'). \<exists>new vv. q' = q @ new \<and> p' = p\<lparr>pp_varval := vv\<rparr>
     \<and> (\<forall>v. vv v \<noteq> pp_varval p v \<longrightarrow> v \<in> set new))"

lemma up_extendsI:
  "q' = q @ new \<Longrightarrow> p' = p\<lparr>pp_varval := vv\<rparr> \<Longrightarrow> (\<And>v. vv v \<noteq> pp_varval p v \<Longrightarrow> v \<in> set new)
    \<Longrightarrow> up_extends (q, p) (q', p')"
  by (auto simp: up_extends_def)

lemma up_extends_refl [simp]: "up_extends (q, p) (q, p)"
  by (rule up_extendsI [where new = "[]" and vv = "pp_varval p"]) simp_all

lemma up_extends_trans:
  assumes "up_extends (q, p) (q1, p1)" and "up_extends (q1, p1) (q2, p2)"
  shows "up_extends (q, p) (q2, p2)"
proof -
  obtain new vv where 1: "q1 = q @ new" "p1 = p\<lparr>pp_varval := vv\<rparr>" "\<forall>v. vv v \<noteq> pp_varval p v \<longrightarrow> v \<in> set new"
    using assms(1) by (auto simp: up_extends_def)
  obtain new2 vv2 where 2: "q2 = q1 @ new2" "p2 = p1\<lparr>pp_varval := vv2\<rparr>"
    "\<forall>v. vv2 v \<noteq> pp_varval p1 v \<longrightarrow> v \<in> set new2"
    using assms(2) by (auto simp: up_extends_def)
  show ?thesis
  proof (rule up_extendsI)
    show "q2 = q @ (new @ new2)" "p2 = p\<lparr>pp_varval := vv2\<rparr>" using 1 2 by simp_all
    show "v \<in> set (new @ new2)" if "vv2 v \<noteq> pp_varval p v" for v
      using that 1 2 by (cases "vv v = pp_varval p v") auto
  qed
qed

lemma up_extends_static:
  assumes "up_extends (q, p) (q', p')"
  shows "pp_vars p' = pp_vars p" "pp_clauses p' = pp_clauses p" "pp_clause p' = pp_clause p"
    "pp_degree p' = pp_degree p" "pp_clause_delete p' = pp_clause_delete p" "pp_nxtc p' = pp_nxtc p"
    "pp_occurp p' = pp_occurp p" "pp_occurn p' = pp_occurn p"
  using assms by (auto simp: up_extends_def)

lemma assign_lit_ok:
  assumes "queue_ok p q" and "l \<noteq> 0" and "lit_var l \<in> {1..pp_vars p}"
  shows "case assign_lit l (q, p) of
      None \<Rightarrow> \<forall>a. agrees p a \<longrightarrow> \<not> lit_sat a l
    | Some (q', p') \<Rightarrow> queue_ok p' q' \<and> (\<forall>a. agrees p' a \<longleftrightarrow> agrees p a \<and> lit_sat a l) \<and> up_extends (q, p) (q', p')"
proof (cases "pp_varval p (lit_var l) = 0")
  case False
  then have "pp_varval p (lit_var l) \<in> {-1, 1}" using assms by (auto simp: queue_ok_def)
  note s = lit_sat_agrees [OF _ assms(2,3) this]
  then show ?thesis using False assms(1) by (auto simp: assign_lit_def Let_def)
next
  case True
  let ?v = "lit_var l"
  let ?p = "p\<lparr>pp_varval := (pp_varval p)(?v := pnsign l)\<rparr>"
  have e: "assign_lit l (q, p) = Some (q @ [?v], ?p)" using True by (simp add: assign_lit_def Let_def)
  have "queue_ok ?p (q @ [?v])"
    using assms(1,3) True pnsign_cases [of l] by (auto simp: queue_ok_def)
  moreover have "agrees ?p a \<longleftrightarrow> agrees p a \<and> lit_sat a l" for a
    using True assms(2,3) by (auto simp: agrees_def lit_sat_def pnsign_def)
  moreover have "up_extends (q, p) (q @ [?v], ?p)"
    by (rule up_extendsI [where new = "[?v]"]) (auto split: if_splits)
  ultimately show ?thesis unfolding e by simp
qed

lemma force_lits_ok:
  assumes "queue_ok p q" and "\<forall>l\<in>set ls. l \<noteq> 0 \<and> lit_var l \<in> {1..pp_vars p}"
  shows "case ofold assign_lit ls (q, p) of
      None \<Rightarrow> \<forall>a. agrees p a \<longrightarrow> (\<exists>l\<in>set ls. \<not> lit_sat a l)
    | Some (q', p') \<Rightarrow> queue_ok p' q' \<and> (\<forall>a. agrees p' a \<longleftrightarrow> agrees p a \<and> (\<forall>l\<in>set ls. lit_sat a l))
        \<and> up_extends (q, p) (q', p')"
  using assms
proof (induction ls arbitrary: q p)
  case Nil
  then show ?case by simp
next
  case (Cons l ls)
  have l: "l \<noteq> 0" "lit_var l \<in> {1..pp_vars p}" using Cons.prems(2) by auto
  note step = assign_lit_ok [OF Cons.prems(1) l]
  show ?case
  proof (cases "assign_lit l (q, p)")
    case None
    then show ?thesis using step by auto
  next
    case (Some s)
    obtain q1 p1 where s: "s = (q1, p1)" by fastforce
    have q1: "queue_ok p1 q1" "up_extends (q, p) (q1, p1)"
      and ag: "\<And>a. agrees p1 a \<longleftrightarrow> agrees p a \<and> lit_sat a l"
      using step by (auto simp: Some s)
    have "\<forall>l\<in>set ls. l \<noteq> 0 \<and> lit_var l \<in> {1..pp_vars p1}"
      using Cons.prems(2) up_extends_static(1) [OF q1(2)] by simp
    note IH = Cons.IH [OF q1(1) this]
    have fold: "ofold assign_lit (l # ls) (q, p) = ofold assign_lit ls (q1, p1)" by (simp add: Some s)
    show ?thesis
    proof (cases "ofold assign_lit ls (q1, p1)")
      case None
      then show ?thesis using IH ag unfolding fold by auto
    next
      case (Some t)
      obtain q2 p2 where t: "t = (q2, p2)" by fastforce
      have "queue_ok p2 q2" "up_extends (q, p) (q2, p2)"
        "\<forall>a. agrees p2 a \<longleftrightarrow> agrees p1 a \<and> (\<forall>l\<in>set ls. lit_sat a l)"
        using IH up_extends_trans [OF q1(2), of q2 p2] by (auto simp: Some t)
      then show ?thesis using ag unfolding fold Some t by auto
    qed
  qed
qed

section \<open>Simplifying a row\<close>

lemma simplify_row_ok:
  assumes "1 \<le> d" and ag: "agrees p a"
    and "\<forall>l\<in>set ls. l \<noteq> 0 \<and> lit_var l \<in> {1..pp_vars p}"
    and vals: "\<forall>v\<in>{1..pp_vars p}. pp_varval p v \<in> {-1, 0, 1}"
  shows "case simplify_row (pp_varval p) ls kept d of
      None \<Rightarrow> d \<le> row_count a ls
    | Some (kept', d') \<Rightarrow> kept' = kept @ filter (\<lambda>l. pp_varval p (lit_var l) = 0) ls \<and> 1 \<le> d'
        \<and> d' + row_count a ls = d + row_count a (filter (\<lambda>l. pp_varval p (lit_var l) = 0) ls)"
  using assms(1,3)
proof (induction ls arbitrary: kept d)
  case Nil
  then show ?case by simp
next
  case (Cons l ls)
  then have l: "l \<noteq> 0" "lit_var l \<in> {1..pp_vars p}"
    and ls: "\<forall>l\<in>set ls. l \<noteq> 0 \<and> lit_var l \<in> {1..pp_vars p}" by auto
  have nn: "0 \<le> row_count a ls" using row_count_bounds by blast
  show ?case
  proof (cases "pp_varval p (lit_var l) = 0")
    case True
    then show ?thesis
      using Cons.IH [OF Cons.prems(1) ls, of "kept @ [l]"] by (auto split: option.splits prod.splits)
  next
    case False
    then have "pp_varval p (lit_var l) \<in> {-1, 1}" using vals l by auto
    note sat = lit_sat_agrees [OF ag l this]
    show ?thesis
    proof (cases "pp_varval p (lit_var l) = pnsign l \<and> d \<noteq> 1")
      case True
      then have "1 \<le> d - 1" using Cons.prems(1) by simp
      from Cons.IH [OF this ls, of kept] show ?thesis
        using True False sat by (auto split: option.splits prod.splits)
    next
      case other: False
      then show ?thesis
        using Cons.IH [OF Cons.prems(1) ls, of kept] False sat nn
        by (auto split: option.splits prod.splits)
    qed
  qed
qed


section \<open>The invariant\<close>

definition occ_list :: "preproc \<Rightarrow> int \<Rightarrow> nat list" where
  "occ_list p l = (if l > 0 then pp_occurp p (lit_var l) else pp_occurn p (lit_var l))"

definition up_row_ok :: "preproc \<Rightarrow> nat \<Rightarrow> bool" where
  "up_row_ok p i \<longleftrightarrow> 1 \<le> pp_deg p i \<and> distinct (map lit_var (pp_row p i))
     \<and> (\<forall>l\<in>set (pp_row p i). l \<noteq> 0 \<and> lit_var l \<in> {1..pp_vars p} \<and> i \<in> set (occ_list p l))"

text \<open>\<open>n\<close> rows have been scanned, the queue is propagated up to \<open>h\<close>, and the rows in \<open>W\<close> are due.\<close>

definition settled :: "preproc \<Rightarrow> nat set \<Rightarrow> nat \<Rightarrow> bool" where
  "settled p pend i \<longleftrightarrow> pp_deg p i < int (length (pp_row p i))
     \<and> (\<forall>l\<in>set (pp_row p i). pp_varval p (lit_var l) \<noteq> 0 \<longrightarrow> lit_var l \<in> pend)"

definition up_inv :: "nat \<Rightarrow> nat \<Rightarrow> nat set \<Rightarrow> nat list \<times> preproc \<Rightarrow> bool" where
  "up_inv n h W = (\<lambda>(q, p). pp_clauses p < length (pp_clause p) \<and> pp_clauses p < length (pp_degree p)
     \<and> length (pp_clause_delete p) = Suc (pp_clauses p) \<and> length (pp_nxtc p) = Suc (pp_clauses p)
     \<and> n \<le> pp_clauses p \<and> h \<le> length q \<and> queue_ok p q
     \<and> (\<forall>v\<in>{1..pp_vars p}. set (pp_occurp p v) \<union> set (pp_occurn p v) \<subseteq> {1..n})
     \<and> (\<forall>i\<in>{1..n}. \<not> deleted p i \<longrightarrow> up_row_ok p i)
     \<and> (\<forall>i\<in>{1..n}. \<not> deleted p i \<longrightarrow> i \<notin> W \<longrightarrow> settled p (set (drop h q)) i))"

definition up_rest :: "preproc \<Rightarrow> preproc" where
  "up_rest p = p\<lparr>pp_varval := (\<lambda>_. 0), pp_clause := [], pp_degree := [], pp_clause_delete := []\<rparr>"

lemma up_rest_upd [simp]:
  "up_rest (p\<lparr>pp_varval := a\<rparr>) = up_rest p" "up_rest (p\<lparr>pp_clause := b\<rparr>) = up_rest p"
  "up_rest (p\<lparr>pp_degree := d\<rparr>) = up_rest p" "up_rest (p\<lparr>pp_clause_delete := e\<rparr>) = up_rest p"
  by (simp_all add: up_rest_def)

lemma up_restD:
  assumes "up_rest p = up_rest q"
  shows "pp_vars p = pp_vars q" "pp_clauses p = pp_clauses q" "pp_nxtc p = pp_nxtc q"
    "pp_occurp p = pp_occurp q" "pp_occurn p = pp_occurn q" "pp_orivars p = pp_orivars q"
    "pp_mapto p = pp_mapto q" "pp_mapval p = pp_mapval q" "pp_mapfrom p = pp_mapfrom q"
    "pp_resseen p = pp_resseen q" "pp_seen p = pp_seen q" "pp_oriclauses p = pp_oriclauses q"
  using arg_cong [OF assms [unfolded up_rest_def], of pp_vars]
    arg_cong [OF assms [unfolded up_rest_def], of pp_clauses]
    arg_cong [OF assms [unfolded up_rest_def], of pp_nxtc]
    arg_cong [OF assms [unfolded up_rest_def], of pp_occurp]
    arg_cong [OF assms [unfolded up_rest_def], of pp_occurn]
    arg_cong [OF assms [unfolded up_rest_def], of pp_orivars]
    arg_cong [OF assms [unfolded up_rest_def], of pp_mapto]
    arg_cong [OF assms [unfolded up_rest_def], of pp_mapval]
    arg_cong [OF assms [unfolded up_rest_def], of pp_mapfrom]
    arg_cong [OF assms [unfolded up_rest_def], of pp_resseen]
    arg_cong [OF assms [unfolded up_rest_def], of pp_seen]
    arg_cong [OF assms [unfolded up_rest_def], of pp_oriclauses]
  by simp_all

lemma up_extends_rest: "up_extends (q, p) (q', p') \<Longrightarrow> up_rest p' = up_rest p"
  by (auto simp: up_extends_def)

text \<open>What a step on row \<open>i\<close> may change.\<close>

definition only_row :: "nat \<Rightarrow> nat list \<times> preproc \<Rightarrow> nat list \<times> preproc \<Rightarrow> bool" where
  "only_row i = (\<lambda>(q, p) (q', p'). up_rest p' = up_rest p \<and> (\<exists>new. q' = q @ new
       \<and> (\<forall>v. pp_varval p' v \<noteq> pp_varval p v \<longrightarrow> v \<in> set new))
     \<and> (\<forall>j. j \<noteq> i \<longrightarrow> pp_row p' j = pp_row p j \<and> pp_deg p' j = pp_deg p j \<and> deleted p' j = deleted p j)
     \<and> length (pp_clause p') = length (pp_clause p) \<and> length (pp_degree p') = length (pp_degree p)
     \<and> length (pp_clause_delete p') = length (pp_clause_delete p))"

lemma up_inv_only_row:
  assumes inv: "up_inv n h W (q, p)" and o: "only_row i (q, p) (q', p')" and qk: "queue_ok p' q'"
    and i: "i \<in> {1..n} \<Longrightarrow> \<not> deleted p' i \<Longrightarrow> up_row_ok p' i \<and> settled p' (set (drop h q')) i"
  shows "up_inv n h (W - {i}) (q', p')"
proof -
  have r: "up_rest p' = up_rest p" using o by (simp add: only_row_def)
  note f = up_restD [OF r]
  obtain new where new: "q' = q @ new" "\<forall>v. pp_varval p' v \<noteq> pp_varval p v \<longrightarrow> v \<in> set new"
    using o by (auto simp: only_row_def)
  have h: "h \<le> length q" using inv by (simp add: up_inv_def)
  then have d: "drop h q' = drop h q @ new" by (simp add: new(1))
  have "up_row_ok p' j \<and> (j \<notin> W \<longrightarrow> settled p' (set (drop h q')) j)"
    if j: "j \<in> {1..n}" "\<not> deleted p' j" "j \<noteq> i" for j
  proof -
    have e: "pp_row p' j = pp_row p j" "pp_deg p' j = pp_deg p j" "\<not> deleted p j"
      using o j by (auto simp: only_row_def)
    have "up_row_ok p j" "j \<notin> W \<longrightarrow> settled p (set (drop h q)) j"
      using inv j(1) e(3) by (simp_all add: up_inv_def)
    moreover have "occ_list p' = occ_list p" by (simp add: fun_eq_iff occ_list_def f)
    ultimately show ?thesis using new(2) unfolding up_row_ok_def settled_def e f d set_append
      by (metis Un_iff)
  qed
  then have "j \<in> {1..n} \<Longrightarrow> \<not> deleted p' j \<Longrightarrow> up_row_ok p' j
      \<and> (j \<notin> W - {i} \<longrightarrow> settled p' (set (drop h q')) j)" for j
    using i by (cases "j = i") simp_all
  moreover have "pp_clauses p' < length (pp_clause p') \<and> pp_clauses p' < length (pp_degree p')
      \<and> length (pp_clause_delete p') = Suc (pp_clauses p')"
    using inv o by (simp add: up_inv_def only_row_def f)
  moreover have "length (pp_nxtc p') = Suc (pp_clauses p') \<and> n \<le> pp_clauses p' \<and> h \<le> length q'
      \<and> (\<forall>v\<in>{1..pp_vars p'}. set (pp_occurp p' v) \<union> set (pp_occurn p' v) \<subseteq> {1..n})"
    using inv by (simp add: up_inv_def f new(1))
  ultimately show ?thesis unfolding up_inv_def using qk by blast
qed

lemma up_models_row:
  assumes "i \<in> {1..pp_clauses p}" and o: "only_row i (q, p) (q', p')"
    and "agrees p' a \<and> (\<not> deleted p' i \<longrightarrow> set_sat a (pp_row p' i) (pp_deg p' i))
      \<longleftrightarrow> agrees p a \<and> (\<not> deleted p i \<longrightarrow> set_sat a (pp_row p i) (pp_deg p i))"
  shows "up_models p' a \<longleftrightarrow> up_models p a"
proof -
  have c: "pp_clauses p' = pp_clauses p" using o up_restD(2) [of p' p] by (simp add: only_row_def)
  have split: "up_models s a \<longleftrightarrow> (agrees s a \<and> (\<not> deleted s i \<longrightarrow> set_sat a (pp_row s i) (pp_deg s i)))
      \<and> (\<forall>j\<in>{1..pp_clauses p} - {i}. \<not> deleted s j \<longrightarrow> set_sat a (pp_row s j) (pp_deg s j))"
    if "pp_clauses s = pp_clauses p" for s
    using assms(1) by (auto simp: up_models_def that)
  have "(\<forall>j\<in>{1..pp_clauses p} - {i}. \<not> deleted p' j \<longrightarrow> set_sat a (pp_row p' j) (pp_deg p' j))
      \<longleftrightarrow> (\<forall>j\<in>{1..pp_clauses p} - {i}. \<not> deleted p j \<longrightarrow> set_sat a (pp_row p j) (pp_deg p j))"
    using o by (simp add: only_row_def)
  then show ?thesis using assms(3) split [OF c] split [OF refl] by simp
qed


section \<open>Simplifying a clause\<close>

lemma distinct_row: "up_row_ok p i \<Longrightarrow> set_sat a (pp_row p i) d \<longleftrightarrow> d \<le> row_count a (pp_row p i)"
  by (simp add: set_sat_def row_sat_def up_row_ok_def distinct_map distinct_remdups_id)

lemma only_row_force:
  assumes "up_extends (q, p\<lparr>pp_clause := (pp_clause p)[i := c], pp_degree := (pp_degree p)[i := d],
      pp_clause_delete := (pp_clause_delete p)[i := e]\<rparr>) (q', p')"
  shows "only_row i (q, p) (q', p')"
  using assms up_extends_rest [OF assms] up_extends_static [OF assms]
  by (auto simp: only_row_def up_extends_def)

lemma only_row_plain:
  "only_row i (q, p) (q, p\<lparr>pp_clause := (pp_clause p)[i := c], pp_degree := (pp_degree p)[i := d]\<rparr>)"
  by (simp add: only_row_def)

lemma only_row_refl: "only_row i (q, p) (q, p)"
  by (simp add: only_row_def)

definition clause_step_ok :: "nat \<Rightarrow> nat \<Rightarrow> nat set \<Rightarrow> nat \<Rightarrow> nat list \<times> preproc \<Rightarrow> (nat list \<times> preproc) option \<Rightarrow> bool" where
  "clause_step_ok n h W i s r = (case r of
       None \<Rightarrow> \<forall>a. \<not> up_models (snd s) a
     | Some s' \<Rightarrow> up_inv n h (W - {i}) s' \<and> (\<forall>a. up_models (snd s') a \<longleftrightarrow> up_models (snd s) a) \<and> only_row i s s')"

lemma agrees_some: "\<exists>a. agrees p a"
  by (rule exI [of _ "\<lambda>v. pp_varval p v = 1"]) (simp add: agrees_def)

lemma agrees_cong: "pp_vars p' = pp_vars p \<Longrightarrow> pp_varval p' = pp_varval p \<Longrightarrow> agrees p' a = agrees p a"
  by (simp add: agrees_def)

lemma queue_ok_cong: "pp_vars p' = pp_vars p \<Longrightarrow> pp_varval p' = pp_varval p \<Longrightarrow> queue_ok p' q = queue_ok p q"
  by (simp add: queue_ok_def)

text \<open>The two ways a row ends without an assignment: deleted as satisfied, or kept shortened.\<close>

lemma clause_step_deleted:
  assumes inv: "up_inv n h W (q, p)" and i: "i \<in> {1..n}" and nd: "\<not> deleted p i"
    and sat: "\<And>a. agrees p a \<Longrightarrow> pp_deg p i \<le> row_count a (pp_row p i)"
  shows "clause_step_ok n h W i (q, p) (Some (q, p\<lparr>pp_degree := (pp_degree p)[i := 0],
      pp_clause_delete := (pp_clause_delete p)[i := 1], pp_clause := (pp_clause p)[i := []]\<rparr>))"
proof -
  let ?p = "p\<lparr>pp_degree := (pp_degree p)[i := 0],
      pp_clause_delete := (pp_clause_delete p)[i := 1], pp_clause := (pp_clause p)[i := []]\<rparr>"
  have rk: "up_row_ok p i" and len: "i < length (pp_clause_delete p)" "i \<in> {1..pp_clauses p}" "queue_ok p q"
    using inv i nd by (auto simp: up_inv_def)
  have o: "only_row i (q, p) (q, ?p)" by (simp add: only_row_def)
  have del: "deleted ?p i" using len by simp
  have qk: "queue_ok ?p q" using len(3) queue_ok_cong [of ?p p q] by simp
  have ag: "agrees ?p a = agrees p a" for a by (rule agrees_cong) simp_all
  have "up_inv n h (W - {i}) (q, ?p)" by (rule up_inv_only_row [OF inv o qk]) (use del in blast)
  moreover have "up_models ?p a \<longleftrightarrow> up_models p a" for a
    by (rule up_models_row [OF len(2) o]) (use del nd sat ag distinct_row [OF rk] in blast)
  ultimately show ?thesis using o by (simp add: clause_step_ok_def)
qed

lemma clause_step_kept:
  assumes inv: "up_inv n h W (q, p)" and i: "i \<in> {1..n}" and nd: "\<not> deleted p i"
    and kept: "kept = filter (\<lambda>l. pp_varval p (lit_var l) = 0) (pp_row p i)"
    and d: "1 \<le> d" "d < int (length kept)"
    and cnt: "\<And>a. agrees p a \<Longrightarrow> d + row_count a (pp_row p i) = pp_deg p i + row_count a kept"
  shows "clause_step_ok n h W i (q, p)
      (Some (q, p\<lparr>pp_clause := (pp_clause p)[i := kept], pp_degree := (pp_degree p)[i := d]\<rparr>))"
proof -
  let ?p = "p\<lparr>pp_clause := (pp_clause p)[i := kept], pp_degree := (pp_degree p)[i := d]\<rparr>"
  have rk: "up_row_ok p i" and len: "i < length (pp_clause p)" "i < length (pp_degree p)"
    "i \<in> {1..pp_clauses p}" "queue_ok p q"
    using inv i nd by (auto simp: up_inv_def)
  have o: "only_row i (q, p) (q, ?p)" by (rule only_row_plain)
  have row: "pp_row ?p i = kept" "pp_deg ?p i = d" using len by simp_all
  have qk: "queue_ok ?p q" using len(4) queue_ok_cong [of ?p p q] by simp
  have ag: "agrees ?p a = agrees p a" for a by (rule agrees_cong) simp_all
  have "distinct (map lit_var kept)" using rk unfolding kept up_row_ok_def by (auto simp: distinct_map inj_on_def)
  then have rk': "up_row_ok ?p i"
    using rk d(1) unfolding up_row_ok_def row by (auto simp: kept occ_list_def)
  have st: "settled ?p (set (drop h q)) i" using d(2) unfolding settled_def row by (auto simp: kept)
  have "up_inv n h (W - {i}) (q, ?p)" by (rule up_inv_only_row [OF inv o qk]) (use rk' st in blast)
  moreover have "up_models ?p a \<longleftrightarrow> up_models p a" for a
  proof (rule up_models_row [OF len(3) o])
    have "d \<le> row_count a kept \<longleftrightarrow> pp_deg p i \<le> row_count a (pp_row p i)" if "agrees p a"
      using cnt [OF that] by linarith
    then show "agrees ?p a \<and> (\<not> deleted ?p i \<longrightarrow> set_sat a (pp_row ?p i) (pp_deg ?p i))
      \<longleftrightarrow> agrees p a \<and> (\<not> deleted p i \<longrightarrow> set_sat a (pp_row p i) (pp_deg p i))"
      using distinct_row [OF rk', of a d] unfolding ag distinct_row [OF rk] row using nd by auto
  qed
  ultimately show ?thesis using o by (simp add: clause_step_ok_def)
qed

lemma clause_step_forced:
  assumes inv: "up_inv n h W (q, p)" and i: "i \<in> {1..n}" and nd: "\<not> deleted p i"
    and kept: "set kept \<subseteq> set (pp_row p i)" and d: "d = int (length kept)"
    and cnt: "\<And>a. agrees p a \<Longrightarrow> d + row_count a (pp_row p i) = pp_deg p i + row_count a kept"
  shows "clause_step_ok n h W i (q, p)
      (force_remaining i (q, p\<lparr>pp_clause := (pp_clause p)[i := kept], pp_degree := (pp_degree p)[i := d]\<rparr>))"
proof -
  let ?p = "p\<lparr>pp_clause := (pp_clause p)[i := kept], pp_degree := (pp_degree p)[i := d],
    pp_clause_delete := (pp_clause_delete p)[i := 1]\<rparr>"
  have rk: "up_row_ok p i" and len: "i < length (pp_clause p)" "i < length (pp_degree p)"
    "i < length (pp_clause_delete p)" "i \<in> {1..pp_clauses p}" "queue_ok p q"
    using inv i nd by (auto simp: up_inv_def)
  have f: "force_remaining i (q, p\<lparr>pp_clause := (pp_clause p)[i := kept], pp_degree := (pp_degree p)[i := d]\<rparr>)
      = ofold assign_lit kept (q, ?p)"
    using len by (simp add: force_remaining_def Let_def)
  have qk: "queue_ok ?p q" using len(5) queue_ok_cong [of ?p p q] by simp
  have ag: "agrees ?p a = agrees p a" for a by (rule agrees_cong) simp_all
  have "\<forall>l\<in>set kept. l \<noteq> 0 \<and> lit_var l \<in> {1..pp_vars ?p}"
    using kept rk by (auto simp: up_row_ok_def)
  note fl = force_lits_ok [OF qk this]
  have sat: "(\<forall>l\<in>set kept. lit_sat a l) \<longleftrightarrow> set_sat a (pp_row p i) (pp_deg p i)" if "agrees p a" for a
    using cnt [OF that] d row_count_bounds [of a kept] row_count_all [of a kept]
    unfolding distinct_row [OF rk] by linarith
  have um: "up_models p a \<Longrightarrow> agrees p a \<and> set_sat a (pp_row p i) (pp_deg p i)" for a
    using len(4) nd by (simp add: up_models_def)
  show ?thesis
  proof (cases "ofold assign_lit kept (q, ?p)")
    case None
    then have "\<forall>a. \<not> up_models p a" using fl um sat ag by auto
    then show ?thesis unfolding f None by (simp add: clause_step_ok_def)
  next
    case (Some s)
    obtain q' p' where s: "s = (q', p')" by fastforce
    have r: "queue_ok p' q'" "\<And>a. agrees p' a \<longleftrightarrow> agrees ?p a \<and> (\<forall>l\<in>set kept. lit_sat a l)"
      "up_extends (q, ?p) (q', p')" using fl by (auto simp: Some s)
    have o: "only_row i (q, p) (q', p')" by (rule only_row_force [OF r(3)])
    have del: "deleted p' i" using up_extends_static(5) [OF r(3)] len(3) by simp
    have "up_inv n h (W - {i}) (q', p')" by (rule up_inv_only_row [OF inv o r(1)]) (use del in blast)
    moreover have "up_models p' a \<longleftrightarrow> up_models p a" for a
      by (rule up_models_row [OF len(4) o]) (use del nd sat r(2) ag in blast)
    ultimately show ?thesis using o unfolding f Some s by (simp add: clause_step_ok_def)
  qed
qed

lemma simplify_clause_ok:
  assumes inv: "up_inv n h W (q, p)" and i: "i \<in> {1..n}"
  shows "clause_step_ok n h W i (q, p) (simplify_clause i (q, p))"
proof (cases "deleted p i")
  case True
  have "queue_ok p q" using inv by (simp add: up_inv_def)
  then have "up_inv n h (W - {i}) (q, p)"
    by (rule up_inv_only_row [OF inv only_row_refl]) (use True in blast)
  then show ?thesis using True by (simp add: simplify_clause_def clause_step_ok_def only_row_refl)
next
  case False
  let ?kept = "filter (\<lambda>l. pp_varval p (lit_var l) = 0) (pp_row p i)"
  have rk: "up_row_ok p i" and qk: "queue_ok p q" and len: "i \<in> {1..pp_clauses p}"
    using inv i False by (auto simp: up_inv_def)
  have "1 \<le> pp_deg p i" "\<forall>l\<in>set (pp_row p i). l \<noteq> 0 \<and> lit_var l \<in> {1..pp_vars p}"
    "\<forall>v\<in>{1..pp_vars p}. pp_varval p v \<in> {-1, 0, 1}"
    using rk qk by (auto simp: up_row_ok_def queue_ok_def)
  note sr = simplify_row_ok [OF this(1) _ this(2,3), where kept = "[]"]
  show ?thesis
  proof (cases "simplify_row (pp_varval p) (pp_row p i) [] (pp_deg p i)")
    case None
    then have "simplify_clause i (q, p) = Some (q, p\<lparr>pp_degree := (pp_degree p)[i := 0],
        pp_clause_delete := (pp_clause_delete p)[i := 1], pp_clause := (pp_clause p)[i := []]\<rparr>)"
      using False by (simp add: simplify_clause_def)
    moreover have "pp_deg p i \<le> row_count a (pp_row p i)" if "agrees p a" for a
      using sr [OF that] None by simp
    ultimately show ?thesis using clause_step_deleted [OF inv i False] by simp
  next
    case (Some kd)
    obtain kept d where kd: "kd = (kept, d)" by fastforce
    have sr': "kept = ?kept \<and> 1 \<le> d \<and> d + row_count a (pp_row p i) = pp_deg p i + row_count a ?kept"
      if "agrees p a" for a
      using sr [OF that] by (simp add: Some kd)
    then have kept: "kept = ?kept" and d: "1 \<le> d" using agrees_some by blast+
    then have cnt: "d + row_count a (pp_row p i) = pp_deg p i + row_count a kept" if "agrees p a" for a
      using sr' [OF that] by simp
    have e: "simplify_clause i (q, p)
        = (let p = p\<lparr>pp_clause := (pp_clause p)[i := kept], pp_degree := (pp_degree p)[i := d]\<rparr>
           in if d > int (length kept) then None
              else if d = int (length kept) then force_remaining i (q, p) else Some (q, p))"
      using False by (simp add: simplify_clause_def Some kd Let_def)
    consider "d > int (length kept)" | "d = int (length kept)" | "d < int (length kept)" by linarith
    then show ?thesis
    proof cases
      case 1
      have "\<not> up_models p a" for a
        using cnt [of a] 1 row_count_bounds [of a kept] len False distinct_row [OF rk]
        by (force simp: up_models_def)
      then show ?thesis using 1 unfolding e by (simp add: clause_step_ok_def)
    next
      case 2
      have "set kept \<subseteq> set (pp_row p i)" by (auto simp: kept)
      from clause_step_forced [OF inv i False this 2 cnt] 2 show ?thesis unfolding e by (simp add: Let_def)
    next
      case 3
      from clause_step_kept [OF inv i False kept d 3 cnt] 3 show ?thesis unfolding e by (simp add: Let_def)
    qed
  qed
qed

end
