(* ===== verification/Prep_Up_Scan.thy ===== *)
theory Prep_Up_Scan
  imports Prep_Up_Inv
begin

text \<open>
  The first pass of \<open>preprocess_up\<close> over the rows: repeated literals are dropped, a pair of
  opposite literals is worth exactly one true literal and lowers the degree by one.
\<close>

section \<open>Counting a set of literals\<close>

definition opposite :: "int set \<Rightarrow> nat set" where
  "opposite S = {v. int v \<in> S \<and> - int v \<in> S}"

definition true_lits :: "(nat \<Rightarrow> bool) \<Rightarrow> int set \<Rightarrow> int set" where
  "true_lits a S = {l\<in>S. lit_sat a l}"

lemma finite_opposite: "finite S \<Longrightarrow> finite (opposite S)"
proof -
  assume "finite S"
  moreover have "int ` opposite S \<subseteq> S" by (auto simp: opposite_def)
  ultimately have "finite (int ` opposite S)" using finite_subset by blast
  then show ?thesis by (simp add: finite_image_iff)
qed

lemma card_true_lits:
  assumes "finite S" and "0 \<notin> S"
  shows "card (true_lits a S) = card (opposite S) + card (true_lits a {l\<in>S. lit_var l \<notin> opposite S})"
proof -
  let ?A = "{l\<in>true_lits a S. lit_var l \<in> opposite S}"
  have "lit_var ` ?A = opposite S"
  proof
    show "opposite S \<subseteq> lit_var ` ?A"
    proof
      fix v assume v: "v \<in> opposite S"
      then have "0 < v" using assms(2) by (cases v) (auto simp: opposite_def)
      moreover define l where "l = (if a v then int v else - int v)"
      ultimately have l: "lit_var l = v" "lit_sat a l" by (auto simp: lit_sat_def lit_var_def)
      moreover have "l \<in> S" using v by (simp add: opposite_def l_def)
      ultimately have "l \<in> ?A" using v by (simp add: true_lits_def)
      then show "v \<in> lit_var ` ?A" using l(1) by (metis imageI)
    qed
  qed auto
  moreover have "inj_on lit_var ?A"
    by (auto simp: inj_on_def true_lits_def lit_sat_def lit_var_def split: if_splits)
  ultimately have "card ?A = card (opposite S)" by (metis card_image)
  moreover have "true_lits a S = ?A \<union> true_lits a {l\<in>S. lit_var l \<notin> opposite S}"
    by (auto simp: true_lits_def)
  moreover have "finite (true_lits a S)" using assms(1) by (simp add: true_lits_def)
  moreover have "?A \<inter> true_lits a {l\<in>S. lit_var l \<notin> opposite S} = {}" by (auto simp: true_lits_def)
  ultimately show ?thesis by (metis (no_types, lifting) card_Un_disjoint finite_Un)
qed

lemma row_count_distinct: "distinct c \<Longrightarrow> row_count a c = int (card (true_lits a (set c)))"
proof -
  assume "distinct c"
  then have "card (set (filter (lit_sat a) c)) = length (filter (lit_sat a) c)"
    using distinct_card distinct_filter by blast
  moreover have "set (filter (lit_sat a) c) = true_lits a (set c)" by (auto simp: true_lits_def)
  ultimately show ?thesis by (simp add: row_count_def)
qed

lemma set_sat_card: "set_sat a c d \<longleftrightarrow> d \<le> int (card (true_lits a (set c)))"
  by (simp add: set_sat_def row_sat_def row_count_distinct)

lemma opposite_insert:
  assumes "x \<noteq> 0"
  shows "opposite (insert x S) = (if - x \<in> S then insert (lit_var x) (opposite S) else opposite S)"
  using assms by (auto simp: opposite_def lit_var_def abs_if split: if_splits)

lemma opposite_lit_var: "lit_var x \<in> opposite S \<longleftrightarrow> x \<in> S \<and> - x \<in> S"
proof -
  have "int (lit_var x) = \<bar>x\<bar>" by (simp add: lit_var_def)
  then show ?thesis by (cases "0 \<le> x") (auto simp: opposite_def)
qed

lemma opposite_mono: "S \<subseteq> T \<Longrightarrow> opposite S \<subseteq> opposite T"
  by (auto simp: opposite_def)

lemma opposite_sat:
  assumes "finite S" "0 \<notin> S" "S \<subseteq> T" "finite T" "d \<le> int (card (opposite S))"
  shows "d \<le> int (card (true_lits a T))"
proof -
  have "card (opposite S) \<le> card (true_lits a S)" using card_true_lits [OF assms(1,2)] by simp
  moreover have "card (true_lits a S) \<le> card (true_lits a T)"
    using assms(3,4) by (intro card_mono) (auto simp: true_lits_def)
  ultimately show ?thesis using assms(5) by linarith
qed

section \<open>The scan of the literals of a row\<close>

definition in_range :: "preproc \<Rightarrow> int \<Rightarrow> bool" where
  "in_range p x \<longleftrightarrow> x \<noteq> 0 \<and> lit_var x \<in> {1..pp_vars p}"

definition stamps_le :: "nat \<Rightarrow> preproc \<Rightarrow> bool" where
  "stamps_le i p \<longleftrightarrow> (\<forall>x. in_range p x \<longrightarrow> pp_resseen p (nat (tolit x)) \<le> int i)
     \<and> (\<forall>v\<in>{1..pp_vars p}. pp_seen p v \<le> i)"

definition scan_ok :: "nat \<Rightarrow> int \<Rightarrow> int list \<Rightarrow> preproc \<Rightarrow> bool" where
  "scan_ok i d0 kept p \<longleftrightarrow> distinct kept \<and> (\<forall>x\<in>set kept. in_range p x)
     \<and> (\<forall>x. in_range p x \<longrightarrow> (pp_resseen p (nat (tolit x)) = int i \<longleftrightarrow> x \<in> set kept))
     \<and> (\<forall>v\<in>{1..pp_vars p}. pp_seen p v = i \<longleftrightarrow> v \<in> opposite (set kept))
     \<and> pp_deg p i = d0 - int (card (opposite (set kept))) \<and> 1 \<le> pp_deg p i
     \<and> stamps_le i p \<and> \<not> deleted p i \<and> i < length (pp_degree p) \<and> i < length (pp_clause_delete p)"

definition scan_frame :: "nat \<Rightarrow> preproc \<Rightarrow> preproc \<Rightarrow> bool" where
  "scan_frame i p p' \<longleftrightarrow> (\<exists>s d e r. p' = p\<lparr>pp_seen := s, pp_degree := (pp_degree p)[i := d],
     pp_clause_delete := (pp_clause_delete p)[i := e], pp_resseen := r\<rparr>)"

lemma scan_frameI:
  "p' = p\<lparr>pp_seen := s, pp_degree := (pp_degree p)[i := d],
     pp_clause_delete := (pp_clause_delete p)[i := e], pp_resseen := r\<rparr> \<Longrightarrow> scan_frame i p p'"
  by (auto simp: scan_frame_def)

lemma scan_frame_refl: "scan_frame i p p"
  by (rule scan_frameI [where s = "pp_seen p" and d = "pp_deg p i" and e = "pp_clause_delete p ! i"
        and r = "pp_resseen p"]) simp

lemma scan_frame_trans:
  assumes "scan_frame i p p1" and "scan_frame i p1 p2"
  shows "scan_frame i p p2"
proof -
  obtain s d e r where 1: "p1 = p\<lparr>pp_seen := s, pp_degree := (pp_degree p)[i := d],
     pp_clause_delete := (pp_clause_delete p)[i := e], pp_resseen := r\<rparr>"
    using assms(1) by (auto simp: scan_frame_def)
  obtain s d e r where 2: "p2 = p1\<lparr>pp_seen := s, pp_degree := (pp_degree p1)[i := d],
     pp_clause_delete := (pp_clause_delete p1)[i := e], pp_resseen := r\<rparr>"
    using assms(2) by (auto simp: scan_frame_def)
  show ?thesis by (rule scan_frameI [where s = s and d = d and e = e and r = r]) (simp add: 1 2)
qed

lemma tolit_nat_eq_iff: "x \<noteq> 0 \<Longrightarrow> y \<noteq> 0 \<Longrightarrow> nat (tolit x) = nat (tolit y) \<longleftrightarrow> x = y"
  using tolit_eq_iff [of x y] by (auto simp: tolit_arith split: if_splits)

lemma scan_keep:
  assumes ok: "scan_ok i d0 kept p" and x: "in_range p x" "x \<notin> set kept"
    and no: "- x \<notin> set kept \<or> pp_seen p (lit_var x) = i"
  shows "scan_ok i d0 (kept @ [x]) (p\<lparr>pp_resseen := (pp_resseen p)(nat (tolit x) := int i)\<rparr>)"
proof -
  have nz: "x \<noteq> 0" using x by (simp add: in_range_def)
  have op: "opposite (insert x (set kept)) = opposite (set kept)"
    using no x ok unfolding opposite_insert [OF nz] scan_ok_def by (auto simp: in_range_def)
  have "nat (tolit y) = nat (tolit x) \<longleftrightarrow> y = x" if "in_range p y" for y
    using tolit_nat_eq_iff that nz by (auto simp: in_range_def)
  then show ?thesis using ok x unfolding scan_ok_def stamps_le_def
    by (simp add: op in_range_def)
qed

definition scan_post :: "nat \<Rightarrow> int \<Rightarrow> int set \<Rightarrow> preproc \<Rightarrow> int list \<times> preproc \<Rightarrow> bool" where
  "scan_post i d0 T p = (\<lambda>(kept', p'). scan_frame i p p' \<and> stamps_le i p'
     \<and> (if deleted p' i then \<exists>S. S \<subseteq> T \<and> d0 \<le> int (card (opposite S))
        else scan_ok i d0 kept' p' \<and> set kept' = T))"

lemma scan_post_deletedI:
  assumes "scan_frame i p p'" "d0 \<le> int (card (opposite S))" "S \<subseteq> T" "stamps_le i p'" "deleted p' i"
  shows "scan_post i d0 T p (kept, p')"
  using assms by (auto simp: scan_post_def)

lemma scan_post_trans: "scan_post i d0 T p1 r \<Longrightarrow> scan_frame i p p1 \<Longrightarrow> scan_post i d0 T p r"
  using scan_frame_trans by (auto simp: scan_post_def)

lemma scan_lits_ok:
  assumes "scan_ok i d0 kept p" and "\<forall>x\<in>set xs. in_range p x"
  shows "scan_post i d0 (set kept \<union> set xs) p (scan_lits i xs kept p)"
  using assms
proof (induction xs arbitrary: kept p)
  case Nil
  then show ?case by (auto simp: scan_post_def scan_frame_refl scan_ok_def)
next
  case (Cons x xs)
  note ok = Cons.prems(1)
  have x: "in_range p x" and xs: "\<forall>x\<in>set xs. in_range p x" using Cons.prems(2) by auto
  then have nz: "x \<noteq> 0" and mx: "in_range p (- x)" by (auto simp: in_range_def)
  have seen: "pp_resseen p (nat (tolit y)) = int i \<longleftrightarrow> y \<in> set kept" if "in_range p y" for y
    using ok that by (simp add: scan_ok_def)
  have neg: "nat (negative (tolit x)) = nat (tolit (- x))" using nz by (simp add: negative_tolit)
  let ?r = "(pp_resseen p)(nat (tolit x) := int i)"
  consider (dup) "x \<in> set kept" | (new) "x \<notin> set kept" "- x \<notin> set kept \<or> pp_seen p (lit_var x) = i"
    | (pair) "x \<notin> set kept" "- x \<in> set kept" "pp_seen p (lit_var x) \<noteq> i" by blast
  then show ?case
  proof cases
    case dup
    then have "scan_lits i (x # xs) kept p = scan_lits i xs kept p" using seen [OF x] by simp
    moreover have "set kept \<union> set (x # xs) = set kept \<union> set xs" using dup by auto
    ultimately show ?thesis using Cons.IH [OF ok xs] by (simp only:)
  next
    case new
    let ?p = "p\<lparr>pp_resseen := ?r\<rparr>"
    have "scan_lits i (x # xs) kept p = scan_lits i xs (kept @ [x]) ?p"
      using new seen [OF x] seen [OF mx] by (auto simp: neg Let_def)
    moreover have "scan_frame i p ?p"
      by (rule scan_frameI [where s = "pp_seen p" and d = "pp_deg p i" and e = "pp_clause_delete p ! i"]) simp
    moreover have "\<forall>x\<in>set xs. in_range ?p x" using xs by (simp add: in_range_def)
    moreover have "set (kept @ [x]) \<union> set xs = set kept \<union> set (x # xs)" by auto
    ultimately show ?thesis using Cons.IH [OF scan_keep [OF ok x new]] scan_post_trans by metis
  next
    case pair
    let ?p = "p\<lparr>pp_seen := (pp_seen p)(lit_var x := i), pp_degree := (pp_degree p)[i := pp_deg p i - 1]\<rparr>"
    have v: "lit_var x \<in> {1..pp_vars p}" "lit_var x \<notin> opposite (set kept)"
      using x pair(3) ok by (auto simp: in_range_def scan_ok_def)
    have op: "opposite (insert x (set kept)) = insert (lit_var x) (opposite (set kept))"
      using pair(2) opposite_insert [OF nz] by simp
    then have card: "card (opposite (insert x (set kept))) = Suc (card (opposite (set kept)))"
      using v(2) finite_opposite [of "set kept"] by simp
    have st: "stamps_le i ?p" using ok by (auto simp: scan_ok_def stamps_le_def in_range_def)
    show ?thesis
    proof (cases "pp_deg p i = 1")
      case True
      then have e: "scan_lits i (x # xs) kept p = (kept, ?p\<lparr>pp_clause_delete := (pp_clause_delete p)[i := 1]\<rparr>)"
        using pair seen [OF x] seen [OF mx] ok by (simp add: neg scan_ok_def Let_def)
      have "scan_frame i p (?p\<lparr>pp_clause_delete := (pp_clause_delete p)[i := 1]\<rparr>)"
        by (rule scan_frameI [where r = "pp_resseen p"]) simp
      moreover have "d0 \<le> int (card (opposite (insert x (set kept))))"
        using True ok card by (simp add: scan_ok_def)
      moreover have "insert x (set kept) \<subseteq> set kept \<union> set (x # xs)" by auto
      moreover have "stamps_le i (?p\<lparr>pp_clause_delete := (pp_clause_delete p)[i := 1]\<rparr>)"
        using st by (simp add: stamps_le_def in_range_def)
      moreover have "deleted (?p\<lparr>pp_clause_delete := (pp_clause_delete p)[i := 1]\<rparr>) i"
        using ok by (simp add: scan_ok_def)
      ultimately show ?thesis unfolding e by (intro scan_post_deletedI)
    next
      case False
      let ?p' = "?p\<lparr>pp_resseen := ?r\<rparr>"
      have e: "scan_lits i (x # xs) kept p = scan_lits i xs (kept @ [x]) ?p'"
        using pair False seen [OF x] seen [OF mx] ok by (simp add: neg scan_ok_def Let_def)
      have f: "scan_frame i p ?p'"
        by (rule scan_frameI [where e = "pp_clause_delete p ! i"]) simp
      have "nat (tolit y) = nat (tolit x) \<longleftrightarrow> y = x" if "in_range p y" for y
        using tolit_nat_eq_iff that nz by (auto simp: in_range_def)
      then have "scan_ok i d0 (kept @ [x]) ?p'"
        using ok x pair(1) False v card st unfolding scan_ok_def stamps_le_def
        by (simp add: op in_range_def)
      moreover have "\<forall>x\<in>set xs. in_range ?p' x" using xs by (simp add: in_range_def)
      ultimately have "scan_post i d0 (set (kept @ [x]) \<union> set xs) ?p' (scan_lits i xs (kept @ [x]) ?p')"
        by (rule Cons.IH)
      from scan_post_trans [OF this f] show ?thesis unfolding e by simp
    qed
  qed
qed


section \<open>One row of the first pass\<close>

definition row_step :: "nat \<Rightarrow> preproc \<Rightarrow> preproc \<Rightarrow> bool" where
  "row_step i p p' \<longleftrightarrow> pp_vars p' = pp_vars p \<and> pp_clauses p' = pp_clauses p \<and> pp_nxtc p' = pp_nxtc p
     \<and> pp_varval p' = pp_varval p \<and> pp_orivars p' = pp_orivars p \<and> pp_mapto p' = pp_mapto p \<and> pp_mapval p' = pp_mapval p
     \<and> (\<forall>j. j \<noteq> i \<longrightarrow> pp_row p' j = pp_row p j \<and> pp_deg p' j = pp_deg p j \<and> deleted p' j = deleted p j)
     \<and> length (pp_clause p') = length (pp_clause p) \<and> length (pp_degree p') = length (pp_degree p)
     \<and> length (pp_clause_delete p') = length (pp_clause_delete p)
     \<and> (\<forall>l. set (occ_list p l) \<subseteq> set (occ_list p' l) \<and> set (occ_list p' l) \<subseteq> insert i (set (occ_list p l)))"

lemma row_step_trans: "row_step i p p1 \<Longrightarrow> row_step i p1 p2 \<Longrightarrow> row_step i p p2"
  unfolding row_step_def by (intro conjI allI impI) (simp_all, blast+)

lemma scan_frame_row_step: "scan_frame i p p' \<Longrightarrow> row_step i p p'"
  by (auto simp: scan_frame_def row_step_def occ_list_def)

lemma set_clause_row_step: "row_step i p (p\<lparr>pp_clause := (pp_clause p)[i := c]\<rparr>)"
  by (auto simp: row_step_def occ_list_def)

lemma occ_list_push:
  "l \<noteq> 0 \<Longrightarrow> occ_list (push_occurrence i l p) m
     = occ_list p m @ (if lit_var m = lit_var l \<and> (m > 0) = (l > 0) then [i] else [])"
  by (auto simp: push_occurrence_def occ_list_def)

lemma push_row_step: "l \<noteq> 0 \<Longrightarrow> row_step i p (push_occurrence i l p)"
  unfolding row_step_def by (simp add: occ_list_push) (auto simp: push_occurrence_def)

lemma fold_push_ok:
  assumes "0 \<notin> set row"
  shows "row_step i p (fold (push_occurrence i) row p)
    \<and> (\<forall>l\<in>set row. i \<in> set (occ_list (fold (push_occurrence i) row p) l))
    \<and> pp_clause (fold (push_occurrence i) row p) = pp_clause p
    \<and> pp_degree (fold (push_occurrence i) row p) = pp_degree p
    \<and> pp_clause_delete (fold (push_occurrence i) row p) = pp_clause_delete p
    \<and> pp_seen (fold (push_occurrence i) row p) = pp_seen p
    \<and> pp_resseen (fold (push_occurrence i) row p) = pp_resseen p"
  using assms
proof (induction row arbitrary: p)
  case Nil
  then show ?case by (simp add: row_step_def) blast
next
  case (Cons l row)
  let ?p = "push_occurrence i l p"
  have l: "l \<noteq> 0" "0 \<notin> set row" using Cons.prems by auto
  note IH = Cons.IH [OF l(2), of ?p]
  have "i \<in> set (occ_list ?p l)" using l by (simp add: occ_list_push)
  moreover have "set (occ_list ?p l) \<subseteq> set (occ_list (fold (push_occurrence i) row ?p) l)"
    using IH unfolding row_step_def by blast
  moreover have "pp_clause ?p = pp_clause p" "pp_degree ?p = pp_degree p" "pp_seen ?p = pp_seen p"
    "pp_clause_delete ?p = pp_clause_delete p" "pp_resseen ?p = pp_resseen p" by (simp_all add: push_occurrence_def)
  ultimately show ?case using IH row_step_trans [OF push_row_step [OF l(1)]] by auto
qed

lemma occ_list_of_var:
  assumes "0 < v"
  shows "pp_occurp p v = occ_list p (int v)" "pp_occurn p v = occ_list p (- int v)"
  using assms by (simp_all add: occ_list_def lit_var_def)

lemma row_step_inv:
  assumes inv: "up_inv k 0 {} (q, p)" and st: "row_step (Suc k) p p'" and k: "Suc k \<le> pp_clauses p"
    and row: "\<not> deleted p' (Suc k) \<Longrightarrow> up_row_ok p' (Suc k)"
  shows "up_inv (Suc k) 0 {Suc k} (q, p')"
proof -
  have f: "pp_vars p' = pp_vars p" "pp_clauses p' = pp_clauses p" "pp_nxtc p' = pp_nxtc p" "pp_varval p' = pp_varval p"
    using st by (simp_all add: row_step_def)
  have occ: "set (occ_list p l) \<subseteq> set (occ_list p' l)" "set (occ_list p' l) \<subseteq> insert (Suc k) (set (occ_list p l))" for l
    using st by (simp_all add: row_step_def)
  have "up_row_ok p' j \<and> settled p' (set q) j" if j: "j \<in> {1..k}" "\<not> deleted p' j" for j
  proof -
    have e: "pp_row p' j = pp_row p j" "pp_deg p' j = pp_deg p j" "\<not> deleted p j"
      using st j by (simp_all add: row_step_def)
    have "up_row_ok p j" "settled p (set q) j" using inv j(1) e(3) by (simp_all add: up_inv_def)
    then show ?thesis using occ(1) unfolding up_row_ok_def settled_def e f by blast
  qed
  then have rows: "j \<in> {1..Suc k} \<Longrightarrow> \<not> deleted p' j \<Longrightarrow> up_row_ok p' j \<and> (j \<notin> {Suc k} \<longrightarrow> settled p' (set (drop 0 q)) j)" for j
    using row by (cases "j = Suc k") (simp_all add: le_Suc_eq)
  have "set (pp_occurp p' v) \<union> set (pp_occurn p' v) \<subseteq> {1..Suc k}" if v: "v \<in> {1..pp_vars p}" for v
  proof -
    have "set (pp_occurp p v) \<union> set (pp_occurn p v) \<subseteq> {1..k}" using inv v by (simp add: up_inv_def)
    then have "insert (Suc k) (set (pp_occurp p v)) \<union> insert (Suc k) (set (pp_occurn p v)) \<subseteq> {1..Suc k}" by auto
    then show ?thesis using v occ(2) [of "int v"] occ(2) [of "- int v"] occ_list_of_var [of v p] occ_list_of_var [of v p']
      by auto
  qed
  then have "\<forall>v\<in>{1..pp_vars p'}. set (pp_occurp p' v) \<union> set (pp_occurn p' v) \<subseteq> {1..Suc k}" using f by simp
  moreover have "pp_clauses p' < length (pp_clause p') \<and> pp_clauses p' < length (pp_degree p')
      \<and> length (pp_clause_delete p') = Suc (pp_clauses p') \<and> length (pp_nxtc p') = Suc (pp_clauses p') \<and> queue_ok p' q"
    using inv st queue_ok_cong [OF f(1,4)] by (simp add: up_inv_def row_step_def)
  ultimately show ?thesis using rows k f(2) unfolding up_inv_def by auto
qed

lemma up_models_change:
  assumes "i \<in> {1..pp_clauses p}" and c: "pp_clauses p' = pp_clauses p"
    and same: "\<And>j. j \<noteq> i \<Longrightarrow> pp_row p' j = pp_row p j \<and> pp_deg p' j = pp_deg p j \<and> deleted p' j = deleted p j"
    and "agrees p' a \<and> (\<not> deleted p' i \<longrightarrow> set_sat a (pp_row p' i) (pp_deg p' i))
      \<longleftrightarrow> agrees p a \<and> (\<not> deleted p i \<longrightarrow> set_sat a (pp_row p i) (pp_deg p i))"
  shows "up_models p' a \<longleftrightarrow> up_models p a"
proof -
  have split: "up_models s a \<longleftrightarrow> (agrees s a \<and> (\<not> deleted s i \<longrightarrow> set_sat a (pp_row s i) (pp_deg s i)))
      \<and> (\<forall>j\<in>{1..pp_clauses p} - {i}. \<not> deleted s j \<longrightarrow> set_sat a (pp_row s j) (pp_deg s j))"
    if "pp_clauses s = pp_clauses p" for s
    using assms(1) by (auto simp: up_models_def that)
  have "(\<forall>j\<in>{1..pp_clauses p} - {i}. \<not> deleted p' j \<longrightarrow> set_sat a (pp_row p' j) (pp_deg p' j))
      \<longleftrightarrow> (\<forall>j\<in>{1..pp_clauses p} - {i}. \<not> deleted p j \<longrightarrow> set_sat a (pp_row p j) (pp_deg p j))"
    using same by simp
  then show ?thesis using assms(4) split [OF c] split [OF refl] by simp
qed

text \<open>The state in which the pass has reached row \<open>k\<close>; \<open>p0\<close> is the state before the pass.\<close>

definition up_frame :: "preproc \<Rightarrow> preproc \<Rightarrow> bool" where
  "up_frame p0 p \<longleftrightarrow> pp_vars p = pp_vars p0 \<and> pp_clauses p = pp_clauses p0 \<and> pp_nxtc p = pp_nxtc p0
     \<and> pp_orivars p = pp_orivars p0 \<and> pp_mapto p = pp_mapto p0 \<and> pp_mapval p = pp_mapval p0"

definition first_ok :: "preproc \<Rightarrow> nat \<Rightarrow> nat list \<times> preproc \<Rightarrow> bool" where
  "first_ok p0 k = (\<lambda>(q, p). up_inv k 0 {} (q, p) \<and> stamps_le k p \<and> up_frame p0 p
     \<and> (\<forall>i\<in>{k<..pp_clauses p0}. pp_row p i = pp_row p0 i \<and> pp_deg p i = pp_deg p0 i \<and> \<not> deleted p i)
     \<and> (\<forall>a. up_models p a \<longleftrightarrow> up_models p0 a))"

definition scannable :: "preproc \<Rightarrow> bool" where
  "scannable p \<longleftrightarrow> (\<forall>i\<in>{1..pp_clauses p}. 1 \<le> pp_deg p i \<and> (\<forall>x\<in>set (pp_row p i). in_range p x))"

lemma up_frame_row_step: "up_frame p0 p \<Longrightarrow> row_step i p p' \<Longrightarrow> up_frame p0 p'"
  by (simp add: up_frame_def row_step_def)

lemma first_step:
  assumes fk: "first_ok p0 k (q, p)" and st: "row_step (Suc k) p p'" and k: "Suc k \<le> pp_clauses p0"
    and stamp: "stamps_le (Suc k) p'" and row: "\<not> deleted p' (Suc k) \<Longrightarrow> up_row_ok p' (Suc k)"
    and sat: "\<And>a. (\<not> deleted p' (Suc k) \<longrightarrow> set_sat a (pp_row p' (Suc k)) (pp_deg p' (Suc k)))
      \<longleftrightarrow> set_sat a (pp_row p (Suc k)) (pp_deg p (Suc k))"
  shows "up_inv (Suc k) 0 {Suc k} (q, p')" and "up_frame p0 p'"
    and "\<forall>i\<in>{Suc k<..pp_clauses p0}. pp_row p' i = pp_row p0 i \<and> pp_deg p' i = pp_deg p0 i \<and> \<not> deleted p' i"
    and "up_models p' a \<longleftrightarrow> up_models p0 a"
proof -
  have c: "pp_clauses p = pp_clauses p0" "\<not> deleted p (Suc k)" "up_inv k 0 {} (q, p)" "up_frame p0 p"
    using fk k by (auto simp: first_ok_def up_frame_def)
  show "up_inv (Suc k) 0 {Suc k} (q, p')" by (rule row_step_inv [OF c(3) st]) (use k c(1) row in auto)
  show "up_frame p0 p'" by (rule up_frame_row_step [OF c(4) st])
  show "\<forall>i\<in>{Suc k<..pp_clauses p0}. pp_row p' i = pp_row p0 i \<and> pp_deg p' i = pp_deg p0 i \<and> \<not> deleted p' i"
    using fk st by (auto simp: first_ok_def row_step_def)
  have "agrees p' a = agrees p a" by (rule agrees_cong) (use st in \<open>simp_all add: row_step_def\<close>)
  then have "up_models p' a \<longleftrightarrow> up_models p a"
    using st k c(1,2) sat by (intro up_models_change [of "Suc k"]) (simp_all add: row_step_def)
  then show "up_models p' a \<longleftrightarrow> up_models p0 a" using fk by (simp add: first_ok_def)
qed


lemma scan_start:
  assumes "stamps_le k p" and "1 \<le> pp_deg p (Suc k)" and "\<not> deleted p (Suc k)"
    and "Suc k < length (pp_degree p)" "Suc k < length (pp_clause_delete p)"
  shows "scan_ok (Suc k) (pp_deg p (Suc k)) [] p"
proof -
  have "pp_resseen p (nat (tolit x)) \<le> int k" if "in_range p x" for x
    using assms(1) that by (simp add: stamps_le_def)
  moreover have "pp_seen p v \<le> k" if "v \<in> {1..pp_vars p}" for v
    using assms(1) that by (simp add: stamps_le_def)
  ultimately show ?thesis using assms
    by (auto simp: scan_ok_def stamps_le_def opposite_def) fastforce+
qed

lemma pair_row:
  assumes ok: "scan_ok i d0 kept p"
  defines "row \<equiv> filter (\<lambda>l. pp_seen p (lit_var l) \<noteq> i) kept"
  shows "distinct (map lit_var row)" and "\<forall>x\<in>set row. in_range p x"
    and "pp_deg p i \<le> row_count a row \<longleftrightarrow> d0 \<le> int (card (true_lits a (set kept)))"
proof -
  have k: "distinct kept" "\<And>x. x \<in> set kept \<Longrightarrow> in_range p x" "pp_deg p i = d0 - int (card (opposite (set kept)))"
    using ok by (simp_all add: scan_ok_def)
  have op: "pp_seen p (lit_var x) = i \<longleftrightarrow> lit_var x \<in> opposite (set kept)" if "x \<in> set kept" for x
    using ok k(2) [OF that] by (simp add: scan_ok_def in_range_def)
  then have row: "set row = {l\<in>set kept. lit_var l \<notin> opposite (set kept)}" by (auto simp: row_def)
  show "\<forall>x\<in>set row. in_range p x" using k(2) by (auto simp: row_def)
  have dr: "distinct row" using k(1) by (simp add: row_def)
  have "inj_on lit_var (set row)"
  proof (rule inj_onI)
    fix x y assume xy: "x \<in> set row" "y \<in> set row" "lit_var x = lit_var y"
    show "x = y"
    proof (rule ccontr)
      assume "x \<noteq> y"
      then have "y = - x" using xy(3) by (auto simp: lit_var_def)
      then have "lit_var x \<in> opposite (set kept)"
        using xy(1,2) unfolding row opposite_lit_var by simp
      then show False using xy(1) unfolding row by simp
    qed
  qed
  then show "distinct (map lit_var row)" using dr by (simp add: distinct_map)
  have "0 \<notin> set kept" using k(2) by (auto simp: in_range_def)
  from card_true_lits [OF _ this, of a] show "pp_deg p i \<le> row_count a row \<longleftrightarrow> d0 \<le> int (card (true_lits a (set kept)))"
    unfolding row_count_distinct [OF dr] row k(3) by auto
qed

definition scan_step_ok :: "preproc \<Rightarrow> nat \<Rightarrow> (nat list \<times> preproc) option \<Rightarrow> bool" where
  "scan_step_ok p0 k r = (case r of None \<Rightarrow> \<forall>a. \<not> up_models p0 a | Some s \<Rightarrow> first_ok p0 k s)"

lemma up_inv_deleted:
  assumes "up_inv n h {i} (q, p)" and "deleted p i"
  shows "up_inv n h {} (q, p)"
proof -
  have "settled p (set (drop h q)) j" if "j \<in> {1..n}" "\<not> deleted p j" for j
    using assms that by (cases "j = i") (auto simp: up_inv_def)
  then show ?thesis using assms(1) by (simp add: up_inv_def)
qed

lemma only_row_frame: "up_frame p0 p \<Longrightarrow> only_row i (q, p) (q', p') \<Longrightarrow> up_frame p0 p'"
  using up_restD [of p' p] by (simp add: up_frame_def only_row_def)

lemma clause_step_first:
  assumes cs: "clause_step_ok i 0 {i} i (q, p) r" and fr: "up_frame p0 p"
    and rest: "\<forall>j\<in>{i<..pp_clauses p0}. pp_row p j = pp_row p0 j \<and> pp_deg p j = pp_deg p0 j \<and> \<not> deleted p j"
    and um: "\<And>a. up_models p a \<longleftrightarrow> up_models p0 a" and stamp: "stamps_le i p"
  shows "scan_step_ok p0 i r"
proof (cases r)
  case None
  then show ?thesis using cs um by (simp add: clause_step_ok_def scan_step_ok_def)
next
  case (Some s)
  obtain q' p' where s: "s = (q', p')" by fastforce
  have r: "up_inv i 0 {} (q', p')" "up_models p' a \<longleftrightarrow> up_models p a" "only_row i (q, p) (q', p')" for a
    using cs by (simp_all add: clause_step_ok_def Some s)
  have "pp_seen p' = pp_seen p" "pp_resseen p' = pp_resseen p" "pp_vars p' = pp_vars p"
    using r(3) up_restD [of p' p] by (simp_all add: only_row_def)
  then have "stamps_le i p'" using stamp by (simp add: stamps_le_def in_range_def)
  moreover have "\<forall>j\<in>{i<..pp_clauses p0}. pp_row p' j = pp_row p0 j \<and> pp_deg p' j = pp_deg p0 j \<and> \<not> deleted p' j"
    using rest r(3) by (simp add: only_row_def)
  ultimately show ?thesis using r um only_row_frame [OF fr r(3)]
    by (simp add: Some s scan_step_ok_def first_ok_def)
qed

lemma scan_row_ok:
  assumes fk: "first_ok p0 k (q, p)" and sc: "scannable p0" and k: "Suc k \<le> pp_clauses p0"
  shows "scan_step_ok p0 (Suc k) (scan_row (Suc k) (q, p))"
proof -
  let ?i = "Suc k" and ?row0 = "pp_row p (Suc k)" and ?d0 = "pp_deg p (Suc k)"
  have i0: "?row0 = pp_row p0 ?i" "?d0 = pp_deg p0 ?i" "\<not> deleted p ?i" "stamps_le k p" "up_inv k 0 {} (q, p)"
    "up_frame p0 p" using fk k by (simp_all add: first_ok_def)
  then have r0: "1 \<le> ?d0" "\<forall>x\<in>set ?row0. in_range p x"
    using sc k by (auto simp: scannable_def in_range_def up_frame_def)
  have len: "?i < length (pp_clause p)" "?i < length (pp_degree p)" "?i < length (pp_clause_delete p)"
    using i0(5,6) k by (simp_all add: up_inv_def up_frame_def)
  obtain kept p1 where kp: "scan_lits ?i ?row0 [] p = (kept, p1)" by fastforce
  have post: "scan_post ?i ?d0 (set ?row0) p (kept, p1)"
    using scan_lits_ok [OF scan_start [OF i0(4) r0(1) i0(3) len(2,3)] r0(2)] kp by simp
  have st1: "row_step ?i p p1" and stamp1: "stamps_le ?i p1"
    using post scan_frame_row_step by (auto simp: scan_post_def)
  have cl1: "pp_clause p1 = pp_clause p" "pp_vars p1 = pp_vars p"
    using post by (auto simp: scan_post_def scan_frame_def)
  have sat0: "set_sat a ?row0 ?d0 \<longleftrightarrow> ?d0 \<le> int (card (true_lits a (set ?row0)))" for a
    by (rule set_sat_card)
  show ?thesis
  proof (cases "deleted p1 ?i")
    case True
    let ?p2 = "p1\<lparr>pp_clause := (pp_clause p1)[?i := kept @ drop (length kept) (pp_row p1 ?i)]\<rparr>"
    have e: "scan_row ?i (q, p) = Some (q, ?p2)" using True by (simp add: scan_row_def kp)
    obtain S where "S \<subseteq> set ?row0" "?d0 \<le> int (card (opposite S))"
      using post True by (auto simp: scan_post_def)
    moreover have "0 \<notin> set ?row0" using r0(2) by (auto simp: in_range_def)
    ultimately have sat: "set_sat a ?row0 ?d0" for a
      unfolding sat0 by (intro opposite_sat) (auto intro: finite_subset)
    have st: "row_step ?i p ?p2" by (rule row_step_trans [OF st1 set_clause_row_step])
    have stamp: "stamps_le ?i ?p2" using stamp1 by (simp add: stamps_le_def in_range_def)
    have del: "deleted ?p2 ?i" using True by simp
    have row: "\<not> deleted ?p2 ?i \<Longrightarrow> up_row_ok ?p2 ?i"
      and sat2: "(\<not> deleted ?p2 ?i \<longrightarrow> set_sat a (pp_row ?p2 ?i) (pp_deg ?p2 ?i)) \<longleftrightarrow> set_sat a ?row0 ?d0" for a
      using del sat by blast+
    note fs = first_step [OF fk st k stamp row sat2]
    show ?thesis unfolding e scan_step_ok_def option.case first_ok_def prod.case
      using up_inv_deleted [OF fs(1) del] stamp fs(2-4) by blast
  next
    case False
    then have ok: "scan_ok ?i ?d0 kept p1" "set kept = set ?row0" using post by (auto simp: scan_post_def)
    define row where "row = filter (\<lambda>l. pp_seen p1 (lit_var l) \<noteq> ?i) kept"
    note pr = pair_row [OF ok(1), folded row_def]
    have nz: "0 \<notin> set row" using pr(2) by (auto simp: in_range_def)
    let ?p2 = "p1\<lparr>pp_clause := (pp_clause p1)[?i := row]\<rparr>"
    define p3 where "p3 = fold (push_occurrence ?i) row ?p2"
    have e: "scan_row ?i (q, p) = simplify_clause ?i (q, p3)"
      using False by (simp add: scan_row_def kp row_def p3_def Let_def)
    note fp = fold_push_ok [OF nz, of ?i ?p2, folded p3_def]
    have st: "row_step ?i p p3"
      using row_step_trans [OF row_step_trans [OF st1 set_clause_row_step]] fp by blast
    have same: "pp_row p3 ?i = row" "pp_deg p3 ?i = pp_deg p1 ?i" "pp_vars p3 = pp_vars p" "\<not> deleted p3 ?i"
      using fp len(1) cl1 st False by (simp_all add: row_step_def)
    have stamp: "stamps_le ?i p3" using stamp1 fp cl1(2) same(3) by (simp add: stamps_le_def in_range_def)
    have "1 \<le> pp_deg p1 ?i" using ok(1) by (simp add: scan_ok_def)
    moreover have "\<forall>x\<in>set row. x \<noteq> 0 \<and> lit_var x \<in> {1..pp_vars p}" using pr(2) by (simp add: in_range_def cl1(2))
    ultimately have rk: "up_row_ok p3 ?i" using pr(1) fp unfolding up_row_ok_def same by blast
    have sat: "(\<not> deleted p3 ?i \<longrightarrow> set_sat a (pp_row p3 ?i) (pp_deg p3 ?i)) \<longleftrightarrow> set_sat a ?row0 ?d0" for a
      using pr(3) [of a] same(4) unfolding sat0 ok(2) distinct_row [OF rk] unfolding same by simp
    note fs = first_step [OF fk st k stamp rk sat]
    have "clause_step_ok ?i 0 {?i} ?i (q, p3) (simplify_clause ?i (q, p3))"
      by (rule simplify_clause_ok [OF fs(1)]) simp
    then show ?thesis unfolding e
      by (rule clause_step_first [OF _ fs(2-4) stamp])
  qed
qed

end
