(* ===== verification/Prep_Up_Correct.thy ===== *)
theory Prep_Up_Correct
  imports Prep_Up_Scan
begin

text \<open>
  The rounds of propagation end, and \<open>preprocess_up\<close> as a whole: a false result means that the
  rows have no model, and otherwise the relabelled rows have exactly the models of the input,
  read through \<open>mapto\<close> and \<open>mapval\<close>.
\<close>

section \<open>One round\<close>

text \<open>Touching only changes the stamps.  \<open>seen\<close> is the set of rows looked at so far.\<close>

definition touch_ok :: "nat \<Rightarrow> preproc \<Rightarrow> nat set \<Rightarrow> nat list \<times> preproc \<Rightarrow> bool" where
  "touch_ok stamp p0 R = (\<lambda>(touched, p). (\<exists>nx. p = p0\<lparr>pp_nxtc := nx\<rparr>)
     \<and> length (pp_nxtc p) = length (pp_nxtc p0) \<and> set touched \<subseteq> R
     \<and> (\<forall>r<length (pp_nxtc p0). pp_nxtc p ! r \<le> stamp \<and> (pp_nxtc p ! r = stamp \<longrightarrow> r \<in> set touched))
     \<and> (\<forall>r\<in>R. \<not> deleted p0 r \<longrightarrow> r \<in> set touched))"

lemma touch_okI:
  assumes "s = (touched, p0\<lparr>pp_nxtc := nx\<rparr>)" and "length nx = length (pp_nxtc p0)" and "set touched \<subseteq> R"
    and "\<forall>r<length (pp_nxtc p0). nx ! r \<le> stamp \<and> (nx ! r = stamp \<longrightarrow> r \<in> set touched)"
    and "\<forall>r\<in>R. \<not> deleted p0 r \<longrightarrow> r \<in> set touched"
  shows "touch_ok stamp p0 R s"
  unfolding touch_ok_def assms(1) prod.case using assms(2-5) by (intro conjI exI [of _ nx]) simp_all

lemma touch_row_ok:
  assumes "touch_ok stamp p0 R s" and "r < length (pp_nxtc p0)"
  shows "touch_ok stamp p0 (insert r R) (touch_row stamp r s)"
proof -
  obtain touched p where s: "s = (touched, p)" by fastforce
  obtain nx where nx: "p = p0\<lparr>pp_nxtc := nx\<rparr>" using assms(1) by (auto simp: touch_ok_def s)
  have b: "length nx = length (pp_nxtc p0)" "set touched \<subseteq> R"
    "\<forall>r<length (pp_nxtc p0). nx ! r \<le> stamp \<and> (nx ! r = stamp \<longrightarrow> r \<in> set touched)"
    "\<forall>r\<in>R. \<not> deleted p0 r \<longrightarrow> r \<in> set touched"
    using assms(1) by (simp_all add: touch_ok_def s nx)
  show ?thesis
  proof (cases "\<not> deleted p0 r \<and> nx ! r \<noteq> stamp")
    case True
    then have "touch_row stamp r s = (touched @ [r], p0\<lparr>pp_nxtc := nx[r := stamp]\<rparr>)"
      by (simp add: touch_row_def s nx)
    moreover have "\<forall>x<length (pp_nxtc p0). nx[r := stamp] ! x \<le> stamp
        \<and> (nx[r := stamp] ! x = stamp \<longrightarrow> x \<in> set (touched @ [r]))"
    proof (intro allI impI)
      fix x assume "x < length (pp_nxtc p0)"
      then show "nx[r := stamp] ! x \<le> stamp \<and> (nx[r := stamp] ! x = stamp \<longrightarrow> x \<in> set (touched @ [r]))"
        using b(1,3) by (cases "x = r") simp_all
    qed
    ultimately show ?thesis using b
      by (intro touch_okI [where touched = "touched @ [r]" and nx = "nx[r := stamp]"]) auto
  next
    case False
    then have "touch_row stamp r s = (touched, p0\<lparr>pp_nxtc := nx\<rparr>)"
      by (simp add: touch_row_def s nx)
    then show ?thesis using b False assms(2) by (intro touch_okI) auto
  qed
qed

lemma touch_rows_ok:
  assumes "touch_ok stamp p0 R s" and "\<forall>r\<in>set rs. r < length (pp_nxtc p0)"
  shows "touch_ok stamp p0 (R \<union> set rs) (fold (touch_row stamp) rs s)"
  using assms
proof (induction rs arbitrary: R s)
  case (Cons r rs)
  then have "touch_ok stamp p0 (insert r R) (touch_row stamp r s)" "\<forall>r\<in>set rs. r < length (pp_nxtc p0)"
    using touch_row_ok by auto
  from Cons.IH [OF this] show ?case by simp
qed simp

definition occurs :: "preproc \<Rightarrow> nat \<Rightarrow> nat set" where
  "occurs p v = set (pp_occurp p v) \<union> set (pp_occurn p v)"

lemma touch_vars_ok:
  assumes "touch_ok stamp p0 R s" and "\<forall>v\<in>set vs. \<forall>r\<in>occurs p0 v. r < length (pp_nxtc p0)"
  shows "touch_ok stamp p0 (R \<union> (\<Union>v\<in>set vs. occurs p0 v)) (fold (touch_var stamp) vs s)"
  using assms
proof (induction vs arbitrary: R s)
  case (Cons v vs)
  obtain touched p where s: "s = (touched, p)" by fastforce
  have "pp_occurp p v = pp_occurp p0 v" "pp_occurn p v = pp_occurn p0 v"
    using Cons.prems(1) by (auto simp: touch_ok_def s)
  then have "touch_ok stamp p0 (R \<union> occurs p0 v) (touch_var stamp v s)"
    using touch_rows_ok [OF Cons.prems(1), of "pp_occurp p0 v @ pp_occurn p0 v"] Cons.prems(2)
    by (simp add: touch_var_def s occurs_def)
  from Cons.IH [OF this] show ?case using Cons.prems(2) by (simp add: Un_assoc)
qed simp

lemma simplify_touched_ok:
  assumes "up_inv n h W s" and "\<forall>r\<in>set rs. r \<in> {1..n}"
  shows "case ofold simplify_clause rs s of
      None \<Rightarrow> \<forall>a. \<not> up_models (snd s) a
    | Some s' \<Rightarrow> up_inv n h (W - set rs) s' \<and> (\<forall>a. up_models (snd s') a \<longleftrightarrow> up_models (snd s) a)
        \<and> up_rest (snd s') = up_rest (snd s)"
  using assms
proof (induction rs arbitrary: W s)
  case Nil
  then show ?case by simp
next
  case (Cons r rs)
  obtain q p where s: "s = (q, p)" by fastforce
  have cs: "clause_step_ok n h W r s (simplify_clause r s)"
    using simplify_clause_ok [of n h W q p r] Cons.prems by (simp add: s)
  show ?case
  proof (cases "simplify_clause r s")
    case None
    then show ?thesis using cs by (simp add: clause_step_ok_def)
  next
    case (Some s')
    have c: "up_inv n h (W - {r}) s'" "\<And>a. up_models (snd s') a \<longleftrightarrow> up_models (snd s) a" "only_row r s s'"
      using cs by (simp_all add: clause_step_ok_def Some)
    have "up_rest (snd s') = up_rest (snd s)" using c(3) by (auto simp: only_row_def)
    moreover have "W - {r} - set rs = W - set (r # rs)" by auto
    ultimately show ?thesis using Cons.IH [OF c(1)] Cons.prems(2) c(2)
      by (auto simp: Some split: option.splits)
  qed
qed

section \<open>The rounds end\<close>

text \<open>The frame of the rounds: like \<open>up_frame\<close> without the stamps of the rows.\<close>

definition round_frame :: "preproc \<Rightarrow> preproc \<Rightarrow> bool" where
  "round_frame p0 p \<longleftrightarrow> pp_vars p = pp_vars p0 \<and> pp_clauses p = pp_clauses p0
     \<and> pp_orivars p = pp_orivars p0 \<and> pp_mapto p = pp_mapto p0 \<and> pp_mapval p = pp_mapval p0"

definition round_inv :: "preproc \<Rightarrow> nat \<times> nat \<times> (nat list \<times> preproc) option \<Rightarrow> bool" where
  "round_inv p0 = (\<lambda>(h, stamp, s). case s of
      None \<Rightarrow> \<forall>a. \<not> up_models p0 a
    | Some (q, p) \<Rightarrow> up_inv (pp_clauses p0) h {} (q, p) \<and> round_frame p0 p
        \<and> (\<forall>r<length (pp_nxtc p). pp_nxtc p ! r \<le> stamp) \<and> (\<forall>a. up_models p a \<longleftrightarrow> up_models p0 a))"

definition round_measure :: "preproc \<Rightarrow> nat \<times> nat \<times> (nat list \<times> preproc) option \<Rightarrow> nat" where
  "round_measure p0 = (\<lambda>(h, stamp, s). case s of None \<Rightarrow> 0 | Some _ \<Rightarrow> Suc (pp_vars p0) - h)"

lemma round_touch:
  assumes inv: "up_inv n h {} (q, p)" and n: "n = pp_clauses p"
    and nx: "\<forall>r<length (pp_nxtc p). pp_nxtc p ! r \<le> stamp"
    and t: "fold (touch_var (stamp + 1)) (drop h q) ([], p) = (touched, p1)"
  shows "up_inv n (length q) (set touched) (q, p1)" and "\<forall>r\<in>set touched. r \<in> {1..n}"
    and "\<forall>r<length (pp_nxtc p1). pp_nxtc p1 ! r \<le> stamp + 1" and "round_frame p p1"
    and "up_models p1 a \<longleftrightarrow> up_models p a"
proof -
  have "touch_ok (stamp + 1) p {} ([], p)"
    using nx by (intro touch_okI [where nx = "pp_nxtc p"]) auto
  moreover have qv: "set (drop h q) \<subseteq> {1..pp_vars p}"
    using inv set_drop_subset [of h q] by (auto simp: up_inv_def queue_ok_def)
  have occ: "occurs p v \<subseteq> {1..n}" if "v \<in> {1..pp_vars p}" for v
    using inv that by (simp add: up_inv_def occurs_def)
  moreover have "length (pp_nxtc p) = Suc n" using inv n by (simp add: up_inv_def)
  ultimately have tk: "touch_ok (stamp + 1) p (\<Union>v\<in>set (drop h q). occurs p v) (touched, p1)"
    using touch_vars_ok [of "stamp + 1" p "{}" "([], p)" "drop h q"] t qv by fastforce
  then obtain nxt where p1: "p1 = p\<lparr>pp_nxtc := nxt\<rparr>" "length nxt = length (pp_nxtc p)"
    by (auto simp: touch_ok_def)
  have "set touched \<subseteq> (\<Union>v\<in>set (drop h q). occurs p v)" using tk by (simp add: touch_ok_def)
  then show "\<forall>r\<in>set touched. r \<in> {1..n}" using occ qv by blast
  show "\<forall>r<length (pp_nxtc p1). pp_nxtc p1 ! r \<le> stamp + 1" using tk by (simp add: touch_ok_def)
  show "round_frame p p1" by (simp add: round_frame_def p1)
  show "up_models p1 a \<longleftrightarrow> up_models p a" by (simp add: up_models_def p1 agrees_def)
  have st: "settled p1 {} i" if i: "i \<in> {1..n}" "\<not> deleted p i" "i \<notin> set touched" for i
  proof -
    have s: "settled p (set (drop h q)) i" "up_row_ok p i" using inv i by (simp_all add: up_inv_def)
    have "pp_varval p (lit_var l) = 0" if l: "l \<in> set (pp_row p i)" for l
    proof (rule ccontr)
      assume "pp_varval p (lit_var l) \<noteq> 0"
      then have "lit_var l \<in> set (drop h q)" "i \<in> occurs p (lit_var l)"
        using s l by (auto simp: settled_def up_row_ok_def occurs_def occ_list_def split: if_splits)
      then have "i \<in> set touched" using tk i(2) by (auto simp: touch_ok_def)
      then show False using i(3) by simp
    qed
    then show ?thesis using s(1) by (simp add: settled_def p1)
  qed
  have "queue_ok p1 q" using inv by (simp add: up_inv_def queue_ok_def p1)
  moreover have "up_row_ok p1 i" if "i \<in> {1..n}" "\<not> deleted p i" for i
  proof -
    have "up_row_ok p i" using inv that by (simp add: up_inv_def)
    moreover have "occ_list p1 = occ_list p" by (simp add: fun_eq_iff occ_list_def p1(1))
    ultimately show ?thesis by (simp add: up_row_ok_def p1(1))
  qed
  ultimately show "up_inv n (length q) (set touched) (q, p1)"
    using inv st by (simp add: up_inv_def p1)
qed

lemma round_step:
  assumes "round_inv p0 s" and "up_more s"
  shows "round_inv p0 (up_round s) \<and> round_measure p0 (up_round s) < round_measure p0 s"
proof -
  obtain h stamp q p where s: "s = (h, stamp, Some (q, p))" "h < length q"
    using assms(2) by (cases s) (auto simp: up_more_def split: option.splits prod.splits)
  obtain touched p1 where t: "fold (touch_var (stamp + 1)) (drop h q) ([], p) = (touched, p1)" by fastforce
  have inv: "up_inv (pp_clauses p0) h {} (q, p)" and fr: "round_frame p0 p"
    and nx: "\<forall>r<length (pp_nxtc p). pp_nxtc p ! r \<le> stamp" and um: "\<And>a. up_models p a \<longleftrightarrow> up_models p0 a"
    using assms(1) by (simp_all add: round_inv_def s(1))
  have c: "pp_clauses p0 = pp_clauses p" "pp_vars p0 = pp_vars p" using fr by (simp_all add: round_frame_def)
  note rt = round_touch [OF inv c(1) nx t]
  have fr1: "round_frame p0 p1" using fr rt(4) by (simp add: round_frame_def)
  have "length q \<le> pp_vars p"
    using inv by (intro distinct_subset_length) (auto simp: up_inv_def queue_ok_def)
  then have m: "h \<le> pp_vars p" using s(2) by simp
  have e: "up_round (h, stamp, Some (q, p)) = (length q, stamp + 1, ofold simplify_clause touched (q, p1))"
    using t by (simp add: up_round_def Let_def)
  note so = simplify_touched_ok [OF rt(1,2)]
  show ?thesis
  proof (cases "ofold simplify_clause touched (q, p1)")
    case None
    then show ?thesis using so rt(5) um m c(2) by (simp add: s(1) e round_inv_def round_measure_def)
  next
    case (Some s')
    obtain q' p' where s': "s' = (q', p')" by fastforce
    have r: "up_inv (pp_clauses p0) (length q) {} (q', p')" "\<And>a. up_models p' a \<longleftrightarrow> up_models p1 a"
      "up_rest p' = up_rest p1" using so by (simp_all add: Some s')
    have "round_frame p0 p'" "pp_nxtc p' = pp_nxtc p1"
      using fr1 up_restD [OF r(3)] by (simp_all add: round_frame_def)
    then show ?thesis using r(1,2) rt(3,5) um m s(2) c(2)
      by (simp add: s(1) e Some s' round_inv_def round_measure_def diff_less_mono2)
  qed
qed

lemma rounds_end:
  assumes "round_inv p0 s"
  shows "\<exists>t. while_option up_more up_round s = Some t \<and> round_inv p0 t \<and> \<not> up_more t"
proof -
  have "\<exists>t. while_option up_more up_round s = Some t"
    by (rule measure_while_option_Some [where P = "round_inv p0" and f = "round_measure p0"])
       (use round_step assms in blast)+
  then obtain t where t: "while_option up_more up_round s = Some t" by blast
  have "round_inv p0 t" by (rule while_option_rule [where P = "round_inv p0", OF _ t assms]) (use round_step in blast)
  then show ?thesis using t while_option_stop [OF t] by blast
qed


section \<open>The first pass as a whole\<close>

definition input_sat :: "preproc \<Rightarrow> (nat \<Rightarrow> bool) \<Rightarrow> bool" where
  "input_sat p a \<longleftrightarrow> (\<forall>i\<in>{1..pp_clauses p}. set_sat a (pp_row p i) (pp_deg p i))"

text \<open>What \<open>preprocess_up\<close> expects, as \<open>preprocess_init\<close> leaves it.\<close>

definition up_input_ok :: "preproc \<Rightarrow> bool" where
  "up_input_ok p \<longleftrightarrow> pp_clauses p < length (pp_clause p) \<and> pp_clauses p < length (pp_degree p)
     \<and> length (pp_clause_delete p) = Suc (pp_clauses p) \<and> pp_nxtc p = replicate (Suc (pp_clauses p)) 0
     \<and> pp_orivars p = pp_vars p \<and> (\<forall>v\<in>{1..pp_vars p}. pp_mapval p v = 0) \<and> scannable p"

definition up_reset :: "preproc \<Rightarrow> preproc" where
  "up_reset p = fold reset_row [1..<Suc (pp_clauses p)] (fold reset_var [1..<Suc (pp_vars p)] p)"

definition reset_frame :: "preproc \<Rightarrow> preproc \<Rightarrow> bool" where
  "reset_frame p p' \<longleftrightarrow> up_frame p p' \<and> pp_clause p' = pp_clause p \<and> pp_degree p' = pp_degree p
     \<and> length (pp_clause_delete p') = length (pp_clause_delete p)"

definition reset_upto :: "nat \<Rightarrow> preproc \<Rightarrow> bool" where
  "reset_upto n p \<longleftrightarrow> (\<forall>v\<in>{1..n}. pp_varval p v = 0 \<and> pp_occurp p v = [] \<and> pp_occurn p v = [] \<and> pp_seen p v = 0
     \<and> pp_resseen p (2 * (v - 1)) = 0 \<and> pp_resseen p (2 * (v - 1) + 1) = 0)"

lemma reset_var_step: "reset_frame p r \<Longrightarrow> reset_frame p (reset_var i r)"
  "reset_upto n r \<Longrightarrow> reset_upto (Suc n) (reset_var (Suc n) r)"
  by (auto simp: reset_frame_def up_frame_def reset_upto_def reset_var_def le_Suc_eq)

lemma reset_row_step: "reset_frame p r \<Longrightarrow> reset_frame p (reset_row i r)"
  "i < length (pp_clause_delete r) \<Longrightarrow> deleted (reset_row i r) j \<longleftrightarrow> j \<noteq> i \<and> deleted r j"
  by (auto simp: reset_frame_def up_frame_def reset_row_def nth_list_update)

lemma fold_reset_var: "reset_frame p (fold reset_var [1..<Suc n] p) \<and> reset_upto n (fold reset_var [1..<Suc n] p)"
proof (induction n)
  case 0
  show ?case by (simp add: reset_frame_def up_frame_def reset_upto_def)
next
  case (Suc n)
  have e: "fold reset_var [1..<Suc (Suc n)] p = reset_var (Suc n) (fold reset_var [1..<Suc n] p)" by simp
  show ?case unfolding e using Suc reset_var_step by blast
qed

lemma fold_reset_row:
  assumes "n < length (pp_clause_delete p)"
  shows "reset_frame p (fold reset_row [1..<Suc n] p) \<and> (\<forall>i\<in>{1..n}. \<not> deleted (fold reset_row [1..<Suc n] p) i)"
    and "reset_upto m p \<Longrightarrow> reset_upto m (fold reset_row [1..<Suc n] p)"
proof -
  show "reset_frame p (fold reset_row [1..<Suc n] p) \<and> (\<forall>i\<in>{1..n}. \<not> deleted (fold reset_row [1..<Suc n] p) i)"
    using assms
  proof (induction n)
    case 0
    show ?case by (simp add: reset_frame_def up_frame_def)
  next
    case (Suc n)
    let ?r = "fold reset_row [1..<Suc n] p"
    have e: "fold reset_row [1..<Suc (Suc n)] p = reset_row (Suc n) ?r" by simp
    have IH: "reset_frame p ?r" "\<forall>i\<in>{1..n}. \<not> deleted ?r i" using Suc by (simp_all del: upt_Suc)
    have "Suc n < length (pp_clause_delete ?r)" using IH(1) Suc.prems by (simp add: reset_frame_def del: upt_Suc)
    note reset_row_step(2) [OF this]
    then have "\<forall>i\<in>{1..Suc n}. \<not> deleted (reset_row (Suc n) ?r) i" using IH(2) by (auto simp: le_Suc_eq simp del: upt_Suc)
    then show ?case unfolding e using reset_row_step(1) [OF IH(1)] by blast
  qed
  assume "reset_upto m p"
  then show "reset_upto m (fold reset_row [1..<Suc n] p)"
    by (intro fold_invariant_mem [of "reset_upto m"]) (simp_all add: reset_upto_def reset_row_def)
qed

lemma in_range_code:
  assumes "in_range p x"
  shows "\<exists>v\<in>{1..pp_vars p}. nat (tolit x) = 2 * (v - 1) \<or> nat (tolit x) = 2 * (v - 1) + 1"
  using assms by (intro bexI [of _ "lit_var x"]) (auto simp: in_range_def tolit_arith lit_var_def nat_mult_distrib)

lemma up_reset_ok:
  assumes ok: "up_input_ok p"
  shows "first_ok (up_reset p) 0 ([], up_reset p)" and "scannable (up_reset p)"
    and "up_models (up_reset p) a \<longleftrightarrow> input_sat p a" and "up_frame p (up_reset p)"
proof -
  let ?r = "fold reset_var [1..<Suc (pp_vars p)] p" and ?q = "up_reset p"
  have r: "reset_frame p ?r" "reset_upto (pp_vars p) ?r" using fold_reset_var by blast+
  have len: "pp_clauses p < length (pp_clause_delete ?r)"
    using r(1) ok by (simp add: reset_frame_def up_input_ok_def)
  have q: "reset_frame ?r ?q" "\<forall>i\<in>{1..pp_clauses p}. \<not> deleted ?q i" "reset_upto (pp_vars p) ?q"
    using fold_reset_row [OF len] r(2) unfolding up_reset_def by blast+
  have f: "reset_frame p ?q" using r(1) q(1) by (simp add: reset_frame_def up_frame_def)
  then show fr: "up_frame p ?q" by (simp add: reset_frame_def)
  have e: "pp_vars ?q = pp_vars p" "pp_clauses ?q = pp_clauses p" "pp_clause ?q = pp_clause p"
    "pp_degree ?q = pp_degree p" "length (pp_clause_delete ?q) = length (pp_clause_delete p)" "pp_nxtc ?q = pp_nxtc p"
    using f by (simp_all add: reset_frame_def up_frame_def)
  show sc: "scannable ?q" using ok by (simp add: e scannable_def up_input_ok_def in_range_def)
  have "agrees ?q a" using q(3) by (simp add: agrees_def e reset_upto_def)
  then show "up_models ?q a \<longleftrightarrow> input_sat p a"
    using q(2) by (simp add: up_models_def input_sat_def e)
  have "pp_resseen ?q (nat (tolit x)) = 0" if "in_range ?q x" for x
    using in_range_code [OF that] q(3) by (auto simp: reset_upto_def e)
  then have "stamps_le 0 ?q" using q(3) by (simp add: stamps_le_def reset_upto_def e)
  moreover have "up_inv 0 0 {} ([], ?q)"
    using ok q(3) by (simp add: up_inv_def up_input_ok_def queue_ok_def e reset_upto_def)
  ultimately show "first_ok ?q 0 ([], ?q)"
    unfolding first_ok_def prod.case using q(2) by (simp add: up_frame_def e)
qed

lemma first_pass:
  assumes ok: "first_ok p0 0 s" "scannable p0" and "k \<le> pp_clauses p0"
  shows "scan_step_ok p0 k (ofold scan_row [1..<Suc k] s)"
  using assms(3)
proof (induction k)
  case 0
  then show ?case using ok by (simp add: scan_step_ok_def)
next
  case (Suc k)
  have e: "ofold scan_row [1..<Suc (Suc k)] s
      = (case ofold scan_row [1..<Suc k] s of None \<Rightarrow> None | Some t \<Rightarrow> scan_row (Suc k) t)"
    by (simp add: ofold_append split: option.split)
  show ?case
  proof (cases "ofold scan_row [1..<Suc k] s")
    case None
    then show ?thesis using Suc unfolding e by (simp add: scan_step_ok_def)
  next
    case (Some t)
    obtain q p where t: "t = (q, p)" by fastforce
    have "first_ok p0 k (q, p)" using Suc.IH Suc.prems unfolding Some t scan_step_ok_def by simp
    from scan_row_ok [OF this ok(2) Suc.prems] show ?thesis unfolding e Some t by simp
  qed
qed

end
