(* ===== verification/Prep_Up_Main.thy ===== *)
theory Prep_Up_Main
  imports Prep_Up_Correct
begin

text \<open>
  The end of \<open>preprocess_up\<close>: the relabelling, the mapping of the variables, and the theorems on
  the whole phase.
\<close>

section \<open>The mapping\<close>

definition map_frame :: "preproc \<Rightarrow> preproc \<Rightarrow> bool" where
  "map_frame p p' \<longleftrightarrow> pp_vars p' = pp_vars p \<and> pp_clauses p' = pp_clauses p \<and> pp_clause p' = pp_clause p
     \<and> pp_degree p' = pp_degree p \<and> pp_color p' = pp_color p \<and> pp_orivars p' = pp_orivars p
     \<and> pp_varval p' = pp_varval p"

lemma fold_take_values:
  "map_frame p (fold take_value q p)
    \<and> (\<forall>v. pp_mapval (fold take_value q p) v
          = (if v \<in> set q then pp_varval p v else pp_mapval p v))"
proof (induction q arbitrary: p)
  case Nil
  then show ?case by (simp add: map_frame_def)
next
  case (Cons x q)
  show ?case using Cons.IH [of "take_value x p"]
    by (auto simp: map_frame_def take_value_def [of x])
qed

lemma fold_clear_mapfrom:
  "map_frame p (fold clear_from xs p)
    \<and> pp_mapval (fold clear_from xs p) = pp_mapval p"
proof (induction xs arbitrary: p)
  case Nil
  then show ?case by (simp add: map_frame_def)
next
  case (Cons x xs)
  show ?case using Cons.IH [of "clear_from x p"]
    by (simp add: map_frame_def clear_from_def [of x])
qed

definition mapped_upto :: "nat \<Rightarrow> preproc \<Rightarrow> preproc \<Rightarrow> bool" where
  "mapped_upto n p p' \<longleftrightarrow> map_frame p p'
     \<and> (\<forall>v\<in>{1..n}. pp_mapto p' v = int (pp_color p v)
          \<and> pp_mapval p' v = (if pp_color p v = 0 \<and> pp_mapval p v = 0 then 1 else pp_mapval p v)
          \<and> (pp_color p v \<noteq> 0 \<longrightarrow> pp_mapfrom p' (pp_color p v) = v))
     \<and> (\<forall>v. v \<notin> {1..n} \<longrightarrow> pp_mapval p' v = pp_mapval p v)"

lemma mapped_step:
  assumes "mapped_upto n p p'" and "inj_on (pp_color p) {v\<in>{1..Suc n}. pp_color p v \<noteq> 0}"
  shows "mapped_upto (Suc n) p (up_map_var (Suc n) p')"
proof -
  have c: "pp_color p' = pp_color p" "pp_mapval p' (Suc n) = pp_mapval p (Suc n)" "map_frame p p'"
    using assms(1) by (simp_all add: mapped_upto_def map_frame_def)
  have f: "map_frame p (up_map_var (Suc n) p')" using c(3) by (simp add: map_frame_def up_map_var_def)
  have other: "pp_mapto (up_map_var (Suc n) p') v = pp_mapto p' v"
    "pp_mapval (up_map_var (Suc n) p') v = pp_mapval p' v" if "v \<noteq> Suc n" for v
    using that by (simp_all add: up_map_var_def)
  have new: "pp_mapto (up_map_var (Suc n) p') (Suc n) = int (pp_color p (Suc n))"
    "pp_mapval (up_map_var (Suc n) p') (Suc n)
      = (if pp_color p (Suc n) = 0 \<and> pp_mapval p (Suc n) = 0 then 1 else pp_mapval p (Suc n))"
    using c by (simp_all add: up_map_var_def)
  have mfrom: "pp_mapfrom (up_map_var (Suc n) p') (pp_color p v) = v"
    if "v \<in> {1..Suc n}" "pp_color p v \<noteq> 0" for v
  proof (cases "v = Suc n")
    case True
    then show ?thesis using that(2) by (simp add: up_map_var_def c(1))
  next
    case False
    then have "v \<in> {1..n}" using that(1) by simp
    moreover have "pp_color p (Suc n) \<noteq> 0 \<longrightarrow> pp_color p v \<noteq> pp_color p (Suc n)"
      using assms(2) that False unfolding inj_on_def by force
    ultimately show ?thesis using assms(1) that(2) by (simp add: up_map_var_def c(1) mapped_upto_def)
  qed
  show ?thesis unfolding mapped_upto_def
  proof (intro conjI ballI allI impI)
    fix v assume v: "v \<in> {1..Suc n}"
    show "pp_mapto (up_map_var (Suc n) p') v = int (pp_color p v)"
      using v new(1) other(1) [of v] assms(1) by (cases "v = Suc n") (simp_all add: mapped_upto_def)
    show "pp_mapval (up_map_var (Suc n) p') v = (if pp_color p v = 0 \<and> pp_mapval p v = 0 then 1 else pp_mapval p v)"
      using v new(2) other(2) [of v] assms(1) by (cases "v = Suc n") (simp_all add: mapped_upto_def)
    show "pp_mapfrom (up_map_var (Suc n) p') (pp_color p v) = v" if "pp_color p v \<noteq> 0"
      by (rule mfrom [OF v that])
  next
    fix v assume v: "v \<notin> {1..Suc n}"
    then have "v \<notin> {1..n}" "v \<noteq> Suc n" by auto
    then show "pp_mapval (up_map_var (Suc n) p') v = pp_mapval p v"
      using other(2) [of v] assms(1) unfolding mapped_upto_def by metis
  qed (rule f)
qed

lemma fold_up_map_var:
  assumes "inj_on (pp_color p) {v\<in>{1..n}. pp_color p v \<noteq> 0}"
  shows "mapped_upto n p (fold up_map_var [1..<Suc n] p)"
  using assms
proof (induction n)
  case 0
  show ?case by (simp add: mapped_upto_def map_frame_def)
next
  case (Suc n)
  have "inj_on (pp_color p) {v\<in>{1..n}. pp_color p v \<noteq> 0}"
    by (rule inj_on_subset [OF Suc.prems]) auto
  then have "mapped_upto n p (fold up_map_var [1..<Suc n] p)" by (rule Suc.IH)
  from mapped_step [OF this Suc.prems] show ?case by simp
qed

section \<open>The final state\<close>

text \<open>The value of an original variable from an assignment of the relabelled ones.\<close>

definition up_decode :: "preproc \<Rightarrow> (nat \<Rightarrow> bool) \<Rightarrow> nat \<Rightarrow> bool" where
  "up_decode q b v = (if pp_mapto q v \<noteq> 0 then b (nat (pp_mapto q v)) else pp_mapval q v = 1)"

lemma up_finish_ok:
  assumes ok: "active_ok p" and qk: "queue_ok p queue" and o: "pp_orivars p = pp_vars p"
    and mv: "\<forall>v\<in>{1..pp_vars p}. pp_mapval p v = 0"
    and disj: "\<forall>v\<in>used_vars p. pp_varval p v = 0"
  defines "q \<equiv> up_finish queue p"
  shows "rows_ok q" and "pp_rows q = pp_rows (update_var_clause_label p)" and "pp_orivars q = pp_orivars p"
    and "\<And>v. v \<in> {1..pp_vars p} \<Longrightarrow> pp_mapto q v = int (var_number (used_vars p) v)"
    and "\<And>v. v \<in> {1..pp_vars p} \<Longrightarrow> pp_mapval q v
       = (if v \<in> used_vars p then 0 else if pp_varval p v = 0 then 1 else pp_varval p v)"
    and "\<And>v. v \<in> {1..pp_vars p} \<Longrightarrow> v \<in> used_vars p \<Longrightarrow> pp_mapfrom q (nat (pp_mapto q v)) = v"
    and "length (pp_clause q) = Suc (pp_clauses q)" and "length (pp_degree q) = Suc (pp_clauses q)"
    and "pp_vars q = card (used_vars p)"
proof -
  let ?U = "used_vars p"
  define p1 where "p1 = update_var_clause_label p"
  define p2 where "p2 = fold take_value queue p1"
  define p3 where "p3 = fold clear_from [1..<Suc (pp_vars p2)] p2"
  have q: "q = fold up_map_var [1..<Suc (pp_orivars p3)] p3"
    by (simp only: q_def up_finish_def Let_def p1_def p2_def p3_def)
  note rl = relabel_ok [OF ok, folded p1_def]
  have keep: "pp_varval p1 = pp_varval p \<and> pp_orivars p1 = pp_orivars p \<and> pp_mapval p1 = pp_mapval p"
    by (subst (1 2 3) rl(7)) simp
  have m2: "map_frame p1 p2" "\<And>v. pp_mapval p2 v = (if v \<in> set queue then pp_varval p v else pp_mapval p v)"
    using fold_take_values [of p1 queue] keep by (simp_all add: p2_def)
  have m3: "map_frame p2 p3" "pp_mapval p3 = pp_mapval p2"
    using fold_clear_mapfrom by (simp_all add: p3_def)
  have f3: "map_frame p1 p3" using m2(1) m3(1) by (simp add: map_frame_def)
  have n: "pp_orivars p3 = pp_vars p" using f3 keep o by (simp add: map_frame_def)
  have col: "pp_color p3 v = var_number ?U v" if "v \<in> {1..pp_vars p}" for v
    using f3 rl(3) [OF that] by (simp add: map_frame_def)
  have used: "var_number ?U v \<noteq> 0 \<longleftrightarrow> v \<in> ?U" for v
    using var_number_pos(1) [OF finite_used [OF ok], of v] by (auto simp: var_number_def)
  have "inj_on (pp_color p3) {v\<in>{1..pp_orivars p3}. pp_color p3 v \<noteq> 0}"
  proof (rule inj_onI)
    fix x y assume "x \<in> {v\<in>{1..pp_orivars p3}. pp_color p3 v \<noteq> 0}" "y \<in> {v\<in>{1..pp_orivars p3}. pp_color p3 v \<noteq> 0}"
      and "pp_color p3 x = pp_color p3 y"
    then have "x \<in> ?U" "y \<in> ?U" "var_number ?U x = var_number ?U y" using col used by (simp_all add: n) metis
    then show "x = y" using inj_onD [OF var_number_inj [OF finite_used [OF ok]]] by blast
  qed
  from fold_up_map_var [OF this]
  have mp: "map_frame p3 q" "\<And>v. v \<in> {1..pp_vars p} \<Longrightarrow> pp_mapto q v = int (pp_color p3 v)
      \<and> pp_mapval q v = (if pp_color p3 v = 0 \<and> pp_mapval p3 v = 0 then 1 else pp_mapval p3 v)
      \<and> (pp_color p3 v \<noteq> 0 \<longrightarrow> pp_mapfrom q (pp_color p3 v) = v)"
    unfolding q n mapped_upto_def by blast+
  have f: "map_frame p1 q" using f3 mp(1) by (simp add: map_frame_def)
  then show "rows_ok q" "pp_rows q = pp_rows (update_var_clause_label p)" "pp_orivars q = pp_orivars p"
    "length (pp_clause q) = Suc (pp_clauses q)" "length (pp_degree q) = Suc (pp_clauses q)" "pp_vars q = card ?U"
    using rl(1,2,5,6) keep by (simp_all add: map_frame_def rows_ok_def pp_rows_def p1_def)
  fix v assume v: "v \<in> {1..pp_vars p}"
  show "pp_mapto q v = int (var_number ?U v)" using mp(2) [OF v] col [OF v] by simp
  have "v \<in> set queue \<longleftrightarrow> pp_varval p v \<noteq> 0" using qk v by (simp add: queue_ok_def)
  then have mv3: "pp_mapval p3 v = pp_varval p v" using m2(2) m3(2) mv v by simp
  show "pp_mapval q v = (if v \<in> ?U then 0 else if pp_varval p v = 0 then 1 else pp_varval p v)"
    using mp(2) [OF v] col [OF v] used [of v] disj by (auto simp: mv3)
  show "pp_mapfrom q (nat (pp_mapto q v)) = v" if "v \<in> ?U"
    using mp(2) [OF v] col [OF v] used [of v] that by simp
qed

lemma up_final_active:
  assumes inv: "up_inv (pp_clauses p) h {} (q, p)" and h: "\<not> h < length q"
  shows "active_ok p" and "\<forall>v\<in>used_vars p. pp_varval p v = 0"
proof -
  have st: "up_row_ok p i" "settled p {} i" if "i \<in> set (active_rows p)" for i
    using inv h that by (auto simp: up_inv_def active_rows_def)
  have "pp_row p i \<noteq> []" if "i \<in> set (active_rows p)" for i
    using st [OF that] by (auto simp: settled_def up_row_ok_def)
  then show "active_ok p" using inv st(1) by (simp add: active_ok_def up_inv_def up_row_ok_def)
  show "\<forall>v\<in>used_vars p. pp_varval p v = 0"
    using st(2) by (auto simp: used_vars_def settled_def)
qed

lemma up_models_active:
  assumes "active_ok p"
  shows "up_models p a \<longleftrightarrow> agrees p a \<and> (\<forall>i\<in>set (active_rows p). row_sat a (pp_row p i) (pp_deg p i))"
proof -
  have "set_sat a (pp_row p i) d \<longleftrightarrow> row_sat a (pp_row p i) d" if "i \<in> set (active_rows p)" for i d
    using assms that by (simp add: active_ok_def set_sat_def distinct_map distinct_remdups_id)
  moreover have "set (active_rows p) = {i\<in>{1..pp_clauses p}. \<not> deleted p i}"
    unfolding active_rows_def set_filter set_upt by auto
  ultimately show ?thesis unfolding up_models_def by blast
qed

text \<open>Decoding a model of the relabelled rows gives a model, and every model is reached.\<close>

lemma up_finish_models:
  assumes ok: "active_ok p" and qk: "queue_ok p queue" and o: "pp_orivars p = pp_vars p"
    and mv: "\<forall>v\<in>{1..pp_vars p}. pp_mapval p v = 0"
    and disj: "\<forall>v\<in>used_vars p. pp_varval p v = 0"
  defines "q \<equiv> up_finish queue p"
  shows "rows_sat b (pp_rows q) \<longleftrightarrow> up_models p (up_decode q b)"
    and "up_models p a \<Longrightarrow> \<exists>b. rows_sat b (pp_rows q) \<and> (\<forall>v\<in>{1..pp_vars p}. pp_mapto q v \<noteq> 0 \<longrightarrow> b (nat (pp_mapto q v)) = a v)"
proof -
  note uf = up_finish_ok [OF ok qk o mv disj, folded q_def]
  let ?U = "used_vars p" and ?num = "var_number (used_vars p)"
  have U: "?U \<subseteq> {1..pp_vars p}" by (rule active_ok_used [OF ok])
  have used: "?num v \<noteq> 0 \<longleftrightarrow> v \<in> ?U" for v
    using var_number_pos(1) [OF finite_used [OF ok], of v] by (auto simp: var_number_def)
  have rows: "rows_sat b (pp_rows q) \<longleftrightarrow> (\<forall>i\<in>set (active_rows p). row_sat a (pp_row p i) (pp_deg p i))"
    if "\<forall>v\<in>?U. a v = b (?num v)" for a b
    using relabel_models [OF ok that] uf(2) by simp
  have dec: "up_decode q b v = (if v \<in> ?U then b (?num v) else pp_varval p v = 0 \<or> pp_varval p v = 1)"
    if "v \<in> {1..pp_vars p}" for b v
    using uf(4,5) [OF that] used [of v] by (auto simp: up_decode_def)
  have "agrees p (up_decode q b)" using dec disj by (auto simp: agrees_def)
  moreover have "\<forall>v\<in>?U. up_decode q b v = b (?num v)" using dec U by auto
  ultimately show "rows_sat b (pp_rows q) \<longleftrightarrow> up_models p (up_decode q b)"
    using rows [of "up_decode q b" b] up_models_active [OF ok] by simp
  assume um: "up_models p a"
  define b where "b = (\<lambda>k. a (the_inv_into ?U ?num k))"
  have b: "\<forall>v\<in>?U. a v = b (?num v)"
    using the_inv_into_f_f [OF var_number_inj [OF finite_used [OF ok]]] by (simp add: b_def)
  then have "rows_sat b (pp_rows q)" using rows um up_models_active [OF ok] by blast
  moreover have "\<forall>v\<in>{1..pp_vars p}. pp_mapto q v \<noteq> 0 \<longrightarrow> b (nat (pp_mapto q v)) = a v"
    using uf(4) used b by simp
  ultimately show "\<exists>b. rows_sat b (pp_rows q) \<and> (\<forall>v\<in>{1..pp_vars p}. pp_mapto q v \<noteq> 0 \<longrightarrow> b (nat (pp_mapto q v)) = a v)"
    by blast
qed

section \<open>The phase as a whole\<close>

lemma preprocess_up_unfold:
  assumes "up_input_ok p"
  shows "preprocess_up p = (case ofold scan_row [1..<Suc (pp_clauses p)] ([], up_reset p) of
       None \<Rightarrow> Some None
     | Some s \<Rightarrow> (case while_option up_more up_round (0, 0, Some s) of
                None \<Rightarrow> None
              | Some (_, _, None) \<Rightarrow> Some None
              | Some (_, _, Some (queue, p)) \<Rightarrow> Some (Some (up_finish queue p))))"
proof -
  have 1: "pp_clauses (fold reset_var [1..<Suc (pp_vars p)] p) = pp_clauses p"
    using fold_reset_var [of p "pp_vars p"] unfolding reset_frame_def up_frame_def by blast
  have 2: "pp_clauses (up_reset p) = pp_clauses p" using up_reset_ok(4) [OF assms] by (simp add: up_frame_def)
  show ?thesis unfolding preprocess_up_def Let_def 1 up_reset_def [symmetric] 2 ..
qed

definition up_result_ok :: "preproc \<Rightarrow> preproc option \<Rightarrow> bool" where
  "up_result_ok p r = (case r of
       None \<Rightarrow> \<forall>a. \<not> input_sat p a
     | Some q \<Rightarrow> rows_ok q \<and> (\<forall>b. rows_sat b (pp_rows q) \<longleftrightarrow> input_sat p (up_decode q b))
         \<and> (\<forall>a. input_sat p a \<longrightarrow> (\<exists>b. rows_sat b (pp_rows q)
              \<and> (\<forall>v\<in>{1..pp_vars p}. pp_mapto q v \<noteq> 0 \<longrightarrow> b (nat (pp_mapto q v)) = a v))))"

lemma first_round_inv:
  assumes "up_input_ok p" and "ofold scan_row [1..<Suc (pp_clauses p)] ([], up_reset p) = Some s"
  shows "round_inv (up_reset p) (0, 0, Some s)"
proof -
  note ur = up_reset_ok [OF assms(1)]
  have c: "pp_clauses (up_reset p) = pp_clauses p" "pp_nxtc (up_reset p) = replicate (Suc (pp_clauses p)) 0"
    using ur(4) assms(1) by (simp_all add: up_frame_def up_input_ok_def)
  have "scan_step_ok (up_reset p) (pp_clauses p) (Some s)"
    using first_pass [OF ur(1,2), of "pp_clauses p"] assms(2) c by simp
  then have fk: "first_ok (up_reset p) (pp_clauses p) s" by (simp add: scan_step_ok_def)
  obtain q p' where s: "s = (q, p')" by fastforce
  have u: "up_inv (pp_clauses p) 0 {} (q, p')" "up_frame (up_reset p) p'" "\<And>a. up_models p' a \<longleftrightarrow> up_models (up_reset p) a"
    using fk by (simp_all add: first_ok_def s)
  then have "pp_nxtc p' = replicate (Suc (pp_clauses p)) 0" using c by (simp add: up_frame_def)
  then have "\<forall>r<length (pp_nxtc p'). pp_nxtc p' ! r \<le> 0" by (simp only: length_replicate) (simp del: replicate_Suc)
  then show ?thesis using u c(1) by (simp add: round_inv_def s round_frame_def up_frame_def)
qed

text \<open>The state in which the rounds of propagation end.\<close>

definition up_exit :: "preproc \<Rightarrow> nat list \<Rightarrow> preproc \<Rightarrow> bool" where
  "up_exit p queue p' \<longleftrightarrow> active_ok p' \<and> queue_ok p' queue \<and> pp_orivars p' = pp_vars p'
     \<and> (\<forall>v\<in>{1..pp_vars p'}. pp_mapval p' v = 0) \<and> (\<forall>v\<in>used_vars p'. pp_varval p' v = 0)
     \<and> pp_vars p' = pp_vars p \<and> length (pp_clause_delete p') = Suc (pp_clauses p')
     \<and> (\<forall>a. up_models p' a \<longleftrightarrow> input_sat p a)"

lemma preprocess_up_exit:
  assumes ok: "up_input_ok p"
  shows "preprocess_up p = Some None \<and> (\<forall>a. \<not> input_sat p a)
    \<or> (\<exists>queue p'. preprocess_up p = Some (Some (up_finish queue p')) \<and> up_exit p queue p')"
proof -
  note ur = up_reset_ok [OF ok]
  have c: "pp_clauses (up_reset p) = pp_clauses p" using ur(4) by (simp add: up_frame_def)
  show ?thesis
  proof (cases "ofold scan_row [1..<Suc (pp_clauses p)] ([], up_reset p)")
    case None
    then have "\<forall>a. \<not> input_sat p a"
      using first_pass [OF ur(1,2), of "pp_clauses p"] c ur(3) by (simp add: scan_step_ok_def)
    then show ?thesis unfolding preprocess_up_unfold [OF ok] None by simp
  next
    case (Some s)
    obtain t where t: "while_option up_more up_round (0, 0, Some s) = Some t" "round_inv (up_reset p) t" "\<not> up_more t"
      using rounds_end [OF first_round_inv [OF ok Some]] by blast
    obtain h stamp r where tt: "t = (h, stamp, r)" by (cases t) auto
    show ?thesis
    proof (cases r)
      case None
      then have "\<forall>a. \<not> input_sat p a" using t(2) ur(3) by (simp add: tt round_inv_def)
      then show ?thesis unfolding preprocess_up_unfold [OF ok] Some option.case t(1) tt None by simp
    next
      case (Some z)
      obtain q p' where z: "z = (q, p')" by fastforce
      have ri: "up_inv (pp_clauses p) h {} (q, p')" "round_frame (up_reset p) p'"
        "\<And>a. up_models p' a \<longleftrightarrow> input_sat p a" and h: "\<not> h < length q"
        using t(2,3) ur(3) c by (simp_all add: tt Some z round_inv_def up_more_def)
      have e: "preprocess_up p = Some (Some (up_finish q p'))"
        unfolding preprocess_up_unfold [OF ok] \<open>ofold _ _ _ = Some s\<close> option.case t(1) tt Some z by simp
      have f: "pp_clauses p' = pp_clauses p" "pp_vars p' = pp_vars p" "pp_orivars p' = pp_vars p'"
        "\<forall>v\<in>{1..pp_vars p'}. pp_mapval p' v = 0"
        using ri(2) ur(4) ok by (simp_all add: round_frame_def up_frame_def up_input_ok_def)
      have inv: "up_inv (pp_clauses p') h {} (q, p')" using ri(1) f(1) by simp
      have "queue_ok p' q" "length (pp_clause_delete p') = Suc (pp_clauses p')" using inv by (simp_all add: up_inv_def)
      then have "up_exit p q p'" unfolding up_exit_def using up_final_active [OF inv h] f(2-4) ri(3) by blast
      then show ?thesis using e by blast
    qed
  qed
qed

lemma preprocess_up_cases:
  assumes ok: "up_input_ok p"
  shows "\<exists>r. preprocess_up p = Some r \<and> up_result_ok p r"
  using preprocess_up_exit [OF ok]
proof (elim disjE exE conjE)
  fix queue p'
  assume e: "preprocess_up p = Some (Some (up_finish queue p'))" and x: "up_exit p queue p'"
  have a: "active_ok p'" "queue_ok p' queue" "pp_orivars p' = pp_vars p'" "\<forall>v\<in>{1..pp_vars p'}. pp_mapval p' v = 0"
    "\<forall>v\<in>used_vars p'. pp_varval p' v = 0" "pp_vars p' = pp_vars p" "\<And>a. up_models p' a \<longleftrightarrow> input_sat p a"
    using x unfolding up_exit_def by blast+
  have "up_result_ok p (Some (up_finish queue p'))"
    unfolding up_result_ok_def option.case using up_finish_ok(1) [OF a(1-5)] up_finish_models [OF a(1-5)] a(6,7) by simp
  then show ?thesis using e by blast
qed (auto simp: up_result_ok_def)

end
