(* ===== verification/Prep_Up_Props.thy ===== *)
theory Prep_Up_Props
  imports Prep_Up_Main
begin

text \<open>
  \<open>preprocess_up\<close> on a freshly initialised state: what \<open>preprocess_init\<close> establishes, and the
  properties of the phase.
\<close>

section \<open>preprocess\_init establishes the input condition\<close>

text \<open>A loaded problem, as \<open>read_file\<close> leaves it when the file keeps its promises.\<close>

definition loaded_ok :: "preproc \<Rightarrow> bool" where
  "loaded_ok p \<longleftrightarrow> pp_clauses p < length (pp_clause p) \<and> pp_clauses p < length (pp_degree p)
     \<and> pp_orivars p = pp_vars p
     \<and> (\<forall>i\<in>{1..pp_clauses p}. 0 \<le> pp_deg p i \<and> (\<forall>x\<in>set (pp_row p i). x \<noteq> 0 \<and> lit_var x \<in> {1..pp_vars p}))"

definition init_frame :: "preproc \<Rightarrow> preproc \<Rightarrow> bool" where
  "init_frame p p' \<longleftrightarrow> pp_vars p' = pp_vars p \<and> pp_clauses p' = pp_clauses p \<and> pp_clause p' = pp_clause p
     \<and> pp_orivars p' = pp_orivars p \<and> pp_nxtc p' = pp_nxtc p \<and> pp_clause_delete p' = pp_clause_delete p
     \<and> length (pp_degree p') = length (pp_degree p)"

lemma mark_cardinality_frame:
  "init_frame p (fold (\<lambda>l p. p\<lparr>pp_in_cardinality := (pp_in_cardinality p)[lit_var l := 1]\<rparr>) ls p)
    \<and> pp_degree (fold (\<lambda>l p. p\<lparr>pp_in_cardinality := (pp_in_cardinality p)[lit_var l := 1]\<rparr>) ls p) = pp_degree p"
  by (rule fold_invariant_mem [where P = "\<lambda>s. init_frame p s \<and> pp_degree s = pp_degree p"])
     (simp_all add: init_frame_def)

lemma init_row_step:
  "init_frame p (init_row i p) \<and> pp_degree (init_row i p) = (if pp_deg p i = 0 then (pp_degree p)[i := 1] else pp_degree p)"
proof -
  define p1 where "p1 = (if pp_deg p i > 1
      then fold (\<lambda>l p. p\<lparr>pp_in_cardinality := (pp_in_cardinality p)[lit_var l := 1]\<rparr>) (pp_row p i) p else p)"
  have 1: "init_frame p p1" "pp_degree p1 = pp_degree p"
    using mark_cardinality_frame [of p "pp_row p i"] by (simp_all add: p1_def) (simp add: init_frame_def)
  have e: "init_row i p = (let p2 = (if pp_deg p1 i = 0 then p1\<lparr>pp_degree := (pp_degree p1)[i := 1]\<rparr> else p1);
      l = length (pp_row p2 i) in if l > pp_maxlen p2 then p2\<lparr>pp_maxlen := l\<rparr> else p2)"
    unfolding init_row_def p1_def Let_def ..
  show ?thesis using 1 unfolding e by (simp add: Let_def init_frame_def)
qed

lemma fold_init_rows:
  assumes "n < length (pp_degree p)"
  shows "init_frame p (fold init_row [1..<Suc n] p)
    \<and> (\<forall>i<length (pp_degree p). pp_deg (fold init_row [1..<Suc n] p) i
         = (if i \<in> {1..n} \<and> pp_deg p i = 0 then 1 else pp_deg p i))"
  using assms
proof (induction n)
  case 0
  then show ?case by (simp add: init_frame_def)
next
  case (Suc n)
  define r where "r = fold init_row [1..<Suc n] p"
  have IH: "init_frame p r" "\<forall>i<length (pp_degree p). pp_deg r i = (if i \<in> {1..n} \<and> pp_deg p i = 0 then 1 else pp_deg p i)"
    using Suc by (simp_all add: r_def)
  have e: "fold init_row [1..<Suc (Suc n)] p = init_row (Suc n) r" by (simp add: r_def)
  have "length (pp_degree r) = length (pp_degree p)" using IH(1) by (simp add: init_frame_def)
  moreover have "pp_deg r (Suc n) = pp_deg p (Suc n)" using IH(2) Suc.prems by simp
  ultimately show ?case
    using init_row_step [of r "Suc n"] IH Suc.prems unfolding e
    by (auto simp: init_frame_def nth_list_update le_Suc_eq)
qed

definition identity_upto :: "nat \<Rightarrow> preproc \<Rightarrow> preproc \<Rightarrow> bool" where
  "identity_upto n p q \<longleftrightarrow> init_frame p q \<and> pp_degree q = pp_degree p
     \<and> (\<forall>v\<in>{1..n}. pp_mapto q v = int v \<and> pp_mapval q v = 0)"

lemma identity_step: "identity_upto n p q \<Longrightarrow> identity_upto (Suc n) p (set_identity (Suc n) q)"
  by (auto simp: identity_upto_def init_frame_def set_identity_def le_Suc_eq)

lemma fold_set_identity: "identity_upto n p (fold set_identity [1..<Suc n] p)"
proof (induction n)
  case 0
  show ?case by (simp add: identity_upto_def init_frame_def)
next
  case (Suc n)
  have "fold set_identity [1..<Suc (Suc n)] p = set_identity (Suc n) (fold set_identity [1..<Suc n] p)" by simp
  then show ?case using identity_step [OF Suc.IH] by (simp only:)
qed

lemma preprocess_init_fields:
  assumes "pp_clauses p < length (pp_degree p)"
  defines "q \<equiv> preprocess_init p"
  shows "pp_vars q = pp_vars p" "pp_clauses q = pp_clauses p" "pp_clause q = pp_clause p" "pp_orivars q = pp_orivars p"
    "pp_nxtc q = replicate (Suc (pp_clauses p)) 0" "pp_clause_delete q = replicate (Suc (pp_clauses p)) 0"
    "length (pp_degree q) = length (pp_degree p)"
    "\<And>i. i \<in> {1..pp_clauses p} \<Longrightarrow> pp_deg q i = (if pp_deg p i = 0 then 1 else pp_deg p i)"
    "\<And>v. v \<in> {1..pp_vars p} \<Longrightarrow> pp_mapto q v = int v \<and> pp_mapval q v = 0"
proof -
  define p1 where "p1 = (release p)\<lparr>pp_clause_delete := grow_to (pp_clauses (release p) + 1) 0 (pp_clause_delete (release p)),
                pp_nxtc := grow_to (pp_clauses (release p) + 1) 0 (pp_nxtc (release p)),
                pp_occurp := (\<lambda>_. []), pp_occurn := (\<lambda>_. []),
                pp_in_cardinality := grow_to (pp_vars (release p) + 1) 0 (pp_in_cardinality (release p))\<rparr>"
  define p2 where "p2 = fold init_row [1..<Suc (pp_clauses p1)] p1"
  have q: "q = fold set_identity [1..<Suc (pp_vars p2)] p2"
    unfolding q_def preprocess_init_def Let_def p1_def [symmetric] p2_def [symmetric] ..
  have 1: "pp_vars p1 = pp_vars p" "pp_clauses p1 = pp_clauses p" "pp_clause p1 = pp_clause p" "pp_orivars p1 = pp_orivars p"
    "pp_degree p1 = pp_degree p" "pp_nxtc p1 = replicate (Suc (pp_clauses p)) 0"
    "pp_clause_delete p1 = replicate (Suc (pp_clauses p)) 0"
    by (simp_all add: p1_def release_def grow_to_def)
  have 2: "init_frame p1 p2" "\<forall>i<length (pp_degree p). pp_deg p2 i = (if i \<in> {1..pp_clauses p} \<and> pp_deg p i = 0 then 1 else pp_deg p i)"
    using fold_init_rows [of "pp_clauses p1" p1, folded p2_def, unfolded 1, OF assms(1)] by (rule conjunct1, rule conjunct2)
  have 3: "init_frame p2 q" "pp_degree q = pp_degree p2" "\<forall>v\<in>{1..pp_vars p2}. pp_mapto q v = int v \<and> pp_mapval q v = 0"
    using fold_set_identity [of "pp_vars p2" p2] unfolding q [symmetric] identity_upto_def by blast+
  show "pp_vars q = pp_vars p" "pp_clauses q = pp_clauses p" "pp_clause q = pp_clause p" "pp_orivars q = pp_orivars p"
    "pp_nxtc q = replicate (Suc (pp_clauses p)) 0" "pp_clause_delete q = replicate (Suc (pp_clauses p)) 0"
    "length (pp_degree q) = length (pp_degree p)"
    using 2(1) 3(1) 1 by (simp_all add: init_frame_def)
  show "pp_deg q i = (if pp_deg p i = 0 then 1 else pp_deg p i)" if "i \<in> {1..pp_clauses p}" for i
    using 2(2) 3(2) that assms(1) by simp
  show "pp_mapto q v = int v \<and> pp_mapval q v = 0" if "v \<in> {1..pp_vars p}" for v
    using 3(3) that 2(1) 1(1) by (simp add: init_frame_def)
qed

lemma preprocess_init_ok:
  assumes "loaded_ok p"
  shows "up_input_ok (preprocess_init p)"
proof -
  have "pp_clauses p < length (pp_degree p)" using assms by (simp add: loaded_ok_def)
  note f = preprocess_init_fields [OF this]
  have "1 \<le> (if pp_deg p i = 0 then 1 else pp_deg p i)" if "i \<in> {1..pp_clauses p}" for i
  proof -
    have "0 \<le> pp_deg p i" using assms that by (simp add: loaded_ok_def)
    then show ?thesis by auto
  qed
  then show ?thesis using assms f(9)
    unfolding up_input_ok_def scannable_def in_range_def f(1-7) by (simp add: f(8) loaded_ok_def)
qed

section \<open>Properties\<close>

text \<open>Unit propagation and normalisation always return: on every initialised problem the
  rounds of propagation come to an end, whatever the rows are.\<close>

theorem preprocess_up_terminates:
  assumes "loaded_ok p"
  shows "preprocess_up (preprocess_init p) \<noteq> None"
  using preprocess_up_cases [OF preprocess_init_ok [OF assms]] by auto

text \<open>C10. When \<open>preprocess_up\<close> returns false the rows, read as sets of literals, have no model.
  When it returns true, the rows it leaves are ready for the search, their models are exactly the
  assignments that \<open>mapto\<close> and \<open>mapval\<close> decode to models of the input, and every model of the
  input is met on the variables that remain.\<close>

theorem preprocess_up_keeps_models:
  assumes "loaded_ok p" and "preprocess_up (preprocess_init p) = Some r"
  shows "case r of
      None \<Rightarrow> \<forall>a. \<not> input_sat (preprocess_init p) a
    | Some q \<Rightarrow> rows_ok q
        \<and> (\<forall>b. rows_sat b (pp_rows q) \<longleftrightarrow> input_sat (preprocess_init p) (up_decode q b))
        \<and> (\<forall>a. input_sat (preprocess_init p) a \<longrightarrow> (\<exists>b. rows_sat b (pp_rows q)
             \<and> (\<forall>v\<in>{1..pp_vars p}. pp_mapto q v \<noteq> 0 \<longrightarrow> b (nat (pp_mapto q v)) = a v)))"
proof -
  have "pp_clauses p < length (pp_degree p)" using assms(1) by (simp add: loaded_ok_def)
  note f = preprocess_init_fields [OF this]
  have "up_result_ok (preprocess_init p) r"
    using preprocess_up_cases [OF preprocess_init_ok [OF assms(1)]] assms(2) by auto
  then show ?thesis unfolding up_result_ok_def f(1) .
qed

section \<open>Witnesses\<close>

text \<open>Three rows over four variables: a repeated and an opposite pair of literals, a unit clause,
  and an at-least-two row.\<close>

definition demo_loaded :: preproc where
  "demo_loaded = fresh_preproc\<lparr>pp_vars := 4, pp_orivars := 4, pp_clauses := 3, pp_oriclauses := 3,
     pp_clause := [[], [1, 1, 2, -2, 3], [-4], [1, 2, 3, 4]], pp_degree := [0, 2, 1, 2]\<rparr>"

lemma demo_loaded_ok: "loaded_ok demo_loaded"
  by (code_simp)


lemma demo_up_rows: "map_option (map_option pp_rows) (preprocess_up (preprocess_init demo_loaded))
    = Some (Some [([1, 3], 1), ([1, 2, 3], 2)])"
  by code_simp

theorem preprocess_up_terminates_witness: "preprocess_up (preprocess_init demo_loaded) \<noteq> None"
  by (rule preprocess_up_terminates [OF demo_loaded_ok])

theorem preprocess_up_keeps_models_witness:
  "\<exists>q. preprocess_up (preprocess_init demo_loaded) = Some (Some q) \<and> rows_ok q
     \<and> input_sat (preprocess_init demo_loaded) (up_decode q (\<lambda>_. True))"
proof -
  obtain q where q: "preprocess_up (preprocess_init demo_loaded) = Some (Some q)"
    "pp_rows q = [([1, 3], 1), ([1, 2, 3], 2)]"
    using demo_up_rows by auto
  have "rows_sat (\<lambda>_. True) (pp_rows q)" unfolding q(2) by code_simp
  then show ?thesis using preprocess_up_keeps_models [OF demo_loaded_ok q(1)] q(1) by auto
qed

end
