(* ===== verification/Prep_Res_Step.thy ===== *)
theory Prep_Res_Step
  imports Prep_Res
begin

text \<open>
  What the resolvents of a variable say: which rows \<open>build_resolvent\<close> returns, and why rows with
  the variable may be exchanged for the resolvents of all their pairs.
\<close>

section \<open>Building a resolvent\<close>

text \<open>The marks describe the literals collected so far.\<close>

definition marks :: "nat \<Rightarrow> int list \<Rightarrow> (nat \<Rightarrow> int) \<Rightarrow> bool" where
  "marks n out seen \<longleftrightarrow> distinct (map lit_var out)
     \<and> (\<forall>l\<in>set out. seen (lit_var l) = pnsign l) \<and> (\<forall>u\<in>{1..n}. u \<notin> lit_var ` set out \<longrightarrow> seen u = 0)"

definition lits_in :: "nat \<Rightarrow> int list \<Rightarrow> bool" where
  "lits_in n ls \<longleftrightarrow> (\<forall>l\<in>set ls. l \<noteq> 0 \<and> lit_var l \<le> n)"

abbreviation residual :: "nat \<Rightarrow> int list \<Rightarrow> int list" where
  "residual v ls \<equiv> filter (\<lambda>l. lit_var l \<noteq> v) ls"

lemma pnsign_lit_var: "l \<noteq> 0 \<Longrightarrow> m \<noteq> 0 \<Longrightarrow> lit_var l = lit_var m \<Longrightarrow> pnsign l = pnsign m \<longleftrightarrow> l = m"
  by (auto simp: lit_var_def pnsign_def split: if_splits)

lemma pnsign_lit_var_neg: "l \<noteq> 0 \<Longrightarrow> m \<noteq> 0 \<Longrightarrow> lit_var l = lit_var m \<Longrightarrow> pnsign l = - pnsign m \<longleftrightarrow> l = - m"
  by (auto simp: lit_var_def pnsign_def split: if_splits)

lemma same_lit_var: "lit_var l = lit_var m \<longleftrightarrow> l = m \<or> l = - m"
  by (auto simp: lit_var_def)

lemma marks_member:
  assumes "marks n out seen" and "0 \<notin> set out" and "l \<noteq> 0" and "lit_var l \<le> n"
  shows "seen (lit_var l) = pnsign l \<longleftrightarrow> l \<in> set out" and "seen (lit_var l) = - pnsign l \<longleftrightarrow> - l \<in> set out"
    and "seen (lit_var l) = 0 \<longleftrightarrow> lit_var l \<notin> lit_var ` set out"
proof -
  have m: "seen (lit_var m) = pnsign m" if "m \<in> set out" for m using assms(1) that by (auto simp: marks_def)
  have "lit_var l \<in> {1..n}" using assms(4) lit_var_pos [OF assms(3)] by simp
  then have z: "seen (lit_var l) = 0" if "lit_var l \<notin> lit_var ` set out" using assms(1) that by (auto simp: marks_def)
  show "seen (lit_var l) = 0 \<longleftrightarrow> lit_var l \<notin> lit_var ` set out"
    using m z by auto
  have k: "\<exists>k\<in>set out. k \<noteq> 0 \<and> lit_var l = lit_var k \<and> pnsign k = seen (lit_var l)" if "seen (lit_var l) \<noteq> 0"
  proof -
    have "lit_var l \<in> lit_var ` set out" using z that by blast
    then obtain k where "k \<in> set out" "lit_var l = lit_var k" by auto
    then show ?thesis using m assms(2) by metis
  qed
  show "seen (lit_var l) = pnsign l \<longleftrightarrow> l \<in> set out"
  proof
    assume s: "seen (lit_var l) = pnsign l"
    with k obtain k where "k \<in> set out" "k \<noteq> 0" "lit_var l = lit_var k" "pnsign l = pnsign k" by auto
    then show "l \<in> set out" using pnsign_lit_var assms(3) by blast
  qed (rule m)
  show "seen (lit_var l) = - pnsign l \<longleftrightarrow> - l \<in> set out"
  proof
    assume s: "seen (lit_var l) = - pnsign l"
    with k obtain k where "k \<in> set out" "k \<noteq> 0" "lit_var k = lit_var l" "pnsign k = - pnsign l" by auto
    then have "k = - l" using pnsign_lit_var_neg assms(3) by blast
    then show "- l \<in> set out" using \<open>k \<in> set out\<close> by simp
  next
    assume "- l \<in> set out"
    from m [OF this] show "seen (lit_var l) = - pnsign l" using assms(3) by (simp add: pnsign_uminus)
  qed
qed

lemma marks_push:
  assumes "marks n out seen" and "lit_var l \<notin> lit_var ` set out"
  shows "marks n (out @ [l]) (seen(lit_var l := pnsign l))"
  using assms by (auto simp: marks_def image_iff)

text \<open>The literals of a parent, added to clauses: a union without repetition, or a tautology.\<close>

definition joins_clause :: "nat \<Rightarrow> nat \<Rightarrow> int list \<Rightarrow> int list \<Rightarrow> int + int list \<times> (nat \<Rightarrow> int) \<Rightarrow> bool" where
  "joins_clause n v out ls r =
     (case r of Inl code \<Rightarrow> code = 2 \<and> (\<exists>l\<in>set (out @ residual v ls). - l \<in> set (out @ residual v ls))
      | Inr (out', seen') \<Rightarrow> marks n out' seen' \<and> set out' = set (out @ residual v ls))"

lemma joins_clause_cong:
  "set (out @ residual v ls) = set (out' @ residual v ls') \<Longrightarrow> joins_clause n v out ls r = joins_clause n v out' ls' r"
  unfolding joins_clause_def by (simp only:)

lemma add_parent_clause:
  assumes "marks n out seen" and "0 \<notin> set out" and "lits_in n ls"
  shows "joins_clause n v out ls (add_parent v True ls out seen)"
  using assms
proof (induction ls arbitrary: out seen)
  case Nil
  then show ?case by (simp add: joins_clause_def)
next
  case (Cons l ls)
  have l: "l \<noteq> 0" "lit_var l \<le> n" "lits_in n ls" using Cons.prems by (auto simp: lits_in_def)
  note mm = marks_member [OF Cons.prems(1,2) l(1,2)]
  note ih = Cons.IH [OF Cons.prems(1,2) l(3)]
  show ?case
  proof (cases "lit_var l = v \<or> l \<in> set out")
    case True
    then have e: "add_parent v True (l # ls) out seen = add_parent v True ls out seen" using mm(1) by auto
    have "set (out @ residual v (l # ls)) = set (out @ residual v ls)" using True by auto
    from joins_clause_cong [OF this] ih show ?thesis unfolding e by blast
  next
    case F: False
    show ?thesis
    proof (cases "- l \<in> set out")
      case True
      then have e: "add_parent v True (l # ls) out seen = Inl 2" using F mm(1,2) by simp
      have "l \<in> set (out @ residual v (l # ls))" "- l \<in> set (out @ residual v (l # ls))" using F True by simp_all
      then show ?thesis unfolding e joins_clause_def sum.case by blast
    next
      case False
      have new: "lit_var l \<notin> lit_var ` set out" using F False by (auto simp: same_lit_var)
      have "0 \<notin> set (out @ [l])" using Cons.prems l by auto
      from Cons.IH [OF marks_push [OF Cons.prems(1) new] this l(3)]
      have "joins_clause n v (out @ [l]) ls (add_parent v True ls (out @ [l]) (seen(lit_var l := pnsign l)))" .
      moreover have e: "add_parent v True (l # ls) out seen = add_parent v True ls (out @ [l]) (seen(lit_var l := pnsign l))"
        using F False mm(1,2) by simp
      moreover have "set (out @ residual v (l # ls)) = set ((out @ [l]) @ residual v ls)" using F by auto
      ultimately show ?thesis unfolding e using joins_clause_cong by blast
    qed
  qed
qed

text \<open>The literals of a parent, added to a cardinality resolvent: a concatenation of disjoint rows.\<close>

definition joins_card :: "nat \<Rightarrow> nat \<Rightarrow> int list \<Rightarrow> int list \<Rightarrow> int + int list \<times> (nat \<Rightarrow> int) \<Rightarrow> bool" where
  "joins_card n v out ls r =
     (case r of Inl code \<Rightarrow> code = 0
      | Inr (out', seen') \<Rightarrow> marks n out' seen' \<and> out' = out @ residual v ls)"

lemma add_parent_card:
  assumes "marks n out seen" and "0 \<notin> set out" and "lits_in n ls"
  shows "joins_card n v out ls (add_parent v False ls out seen)"
  using assms
proof (induction ls arbitrary: out seen)
  case Nil
  then show ?case by (simp add: joins_card_def)
next
  case (Cons l ls)
  have l: "l \<noteq> 0" "lit_var l \<le> n" "lits_in n ls" using Cons.prems by (auto simp: lits_in_def)
  note mm = marks_member [OF Cons.prems(1,2) l(1,2)]
  show ?case
  proof (cases "lit_var l = v")
    case True
    then have "residual v (l # ls) = residual v ls" "add_parent v False (l # ls) out seen = add_parent v False ls out seen"
      by simp_all
    then show ?thesis using Cons.IH [OF Cons.prems(1,2) l(3)] unfolding joins_card_def by metis
  next
    case v: False
    show ?thesis
    proof (cases "lit_var l \<in> lit_var ` set out")
      case True
      then have "add_parent v False (l # ls) out seen = Inl 0" using v mm(3) by simp
      then show ?thesis by (simp add: joins_card_def)
    next
      case False
      have "0 \<notin> set (out @ [l])" using Cons.prems l by auto
      from Cons.IH [OF marks_push [OF Cons.prems(1) False] this l(3)]
      have "joins_card n v (out @ [l]) ls (add_parent v False ls (out @ [l]) (seen(lit_var l := pnsign l)))" .
      moreover have "add_parent v False (l # ls) out seen = add_parent v False ls (out @ [l]) (seen(lit_var l := pnsign l))"
        using v False mm(3) by simp
      moreover have "out @ residual v (l # ls) = (out @ [l]) @ residual v ls" using v by simp
      ultimately show ?thesis unfolding joins_card_def by (simp only:)
    qed
  qed
qed

section \<open>What a resolvent implies\<close>

text \<open>\<open>parent v l r\<close>: the row \<open>r\<close> contains the literal \<open>l\<close> of \<open>v\<close> and is as the phases leave rows.\<close>

definition good_row :: "nat \<Rightarrow> int list \<times> int \<Rightarrow> bool" where
  "good_row n r \<longleftrightarrow> 1 \<le> snd r \<and> fst r \<noteq> [] \<and> distinct (map lit_var (fst r))
     \<and> (\<forall>l\<in>set (fst r). l \<noteq> 0 \<and> lit_var l \<le> n)"

definition rest :: "nat \<Rightarrow> (nat \<Rightarrow> bool) \<Rightarrow> int list \<times> int \<Rightarrow> int" where
  "rest v a r = row_count a (residual v (fst r))"

text \<open>What a set of rows must say about a pair of parents.\<close>

definition pair_met :: "nat \<Rightarrow> (nat \<Rightarrow> bool) \<Rightarrow> int list \<times> int \<Rightarrow> int list \<times> int \<Rightarrow> bool" where
  "pair_met v a r t \<longleftrightarrow>
     (snd r - 1 \<le> rest v a r \<longrightarrow> snd t - 1 \<le> rest v a t \<longrightarrow> snd r \<le> rest v a r \<or> snd t \<le> rest v a t)
   \<and> (snd r = 1 \<or> int (length (residual v (fst t))) \<le> snd t \<longrightarrow> snd r - 1 \<le> rest v a r)
   \<and> (snd t = 1 \<or> int (length (residual v (fst r))) \<le> snd r \<longrightarrow> snd t - 1 \<le> rest v a t)"

lemma rest_bounds: "0 \<le> rest v a r" "rest v a r \<le> int (length (residual v (fst r)))"
  using row_count_bounds by (simp_all add: rest_def)

lemma row_count_pos: "1 \<le> row_count a c \<longleftrightarrow> (\<exists>l\<in>set c. lit_sat a l)"
  by (induction c) (use row_count_bounds in \<open>auto simp: of_bool_def\<close>)

lemma row_with_pivot:
  assumes "distinct (map lit_var c)" and "l \<in> set c" and "lit_var l = v"
  shows "row_count a c = of_bool (lit_sat a l) + row_count a (residual v c)"
  using assms
proof (induction c)
  case (Cons m c)
  show ?case
  proof (cases "lit_var m = v")
    case True
    then have m: "m = l" using Cons.prems by (auto simp: image_iff)
    have "\<forall>x\<in>set c. lit_var x \<noteq> v" using True Cons.prems(1) by (auto simp: image_iff)
    then have "residual v c = c" by (rule filter_True)
    then show ?thesis using True m by simp
  next
    case False
    then have "l \<in> set c" using Cons.prems by auto
    moreover have "distinct (map lit_var c)" using Cons.prems(1) by simp
    ultimately have "row_count a c = of_bool (lit_sat a l) + row_count a (residual v c)" using Cons.IH assms(3) by simp
    then show ?thesis using False by simp
  qed
qed simp

lemma length_residual:
  assumes "distinct (map lit_var c)" and "l \<in> set c" and "lit_var l = v"
  shows "length c = Suc (length (residual v c))"
  using assms
proof (induction c)
  case (Cons m c)
  show ?case
  proof (cases "lit_var m = v")
    case True
    have "\<forall>x\<in>set c. lit_var x \<noteq> v" using True Cons.prems(1) by (auto simp: image_iff)
    then have "residual v c = c" by (rule filter_True)
    then show ?thesis using True by simp
  next
    case False
    then have "l \<in> set c" using Cons.prems by auto
    then show ?thesis using Cons False by simp
  qed
qed simp

text \<open>The codes of \<open>build_resolvent\<close>.\<close>

definition resolvent_ok :: "nat \<Rightarrow> nat \<Rightarrow> int list \<times> int \<Rightarrow> int list \<times> int \<Rightarrow> int \<times> int list \<times> int \<Rightarrow> bool" where
  "resolvent_ok n v r t = (\<lambda>(code, lits, deg).
     if code < 0 then (\<forall>a. \<not> (row_sat a (fst r) (snd r) \<and> row_sat a (fst t) (snd t)))
     else if code = 0 then True
     else if code = 1 then good_row n (lits, deg) \<and> v \<notin> lit_var ` set lits
       \<and> lit_var ` set lits \<subseteq> lit_var ` (set (fst r) \<union> set (fst t))
       \<and> (\<forall>a. row_sat a (fst r) (snd r) \<longrightarrow> row_sat a (fst t) (snd t) \<longrightarrow> row_sat a lits deg)
       \<and> (\<forall>a. row_sat a lits deg \<longrightarrow> pair_met v a r t)
     else (\<forall>a. pair_met v a r t))"

definition resolve_rows :: "nat \<Rightarrow> int list \<times> int \<Rightarrow> int list \<times> int \<Rightarrow> (nat \<Rightarrow> int) \<Rightarrow> int \<times> int list \<times> int" where
  "resolve_rows v r t seen =
     (let out_degree = snd r + snd t - 1;
          clause_resolvent = (snd r = 1 \<and> snd t = 1)
      in case add_parent v clause_resolvent (fst r) [] seen of
           Inl code \<Rightarrow> (code, [], out_degree)
         | Inr (out, seen) \<Rightarrow>
             (case add_parent v clause_resolvent (fst t) out seen of
                Inl code \<Rightarrow> (code, [], out_degree)
              | Inr (out, _) \<Rightarrow>
                  if out_degree \<le> 0 then (2, out, out_degree)
                  else if out_degree > int (length out) then (-1, out, out_degree)
                  else (1, out, out_degree)))"

lemma build_resolve_rows:
  "build_resolvent v i j p = resolve_rows v (pp_row p i, pp_deg p i) (pp_row p j, pp_deg p j) (pp_resseen p)"
  unfolding build_resolvent_def resolve_rows_def fst_conv snd_conv ..

text \<open>An assignment that meets both parents meets the exchange, on either value of the variable.\<close>

lemma parents_met:
  assumes "good_row n r" "good_row n t" and "int v \<in> set (fst r)" "- int v \<in> set (fst t)" and "0 < v"
    and "row_sat a (fst r) (snd r)" "row_sat a (fst t) (snd t)"
  shows "snd r - 1 \<le> rest v a r" "snd t - 1 \<le> rest v a t" "snd r \<le> rest v a r \<or> snd t \<le> rest v a t"
proof -
  have lv: "lit_var (int v) = v" "lit_var (- int v) = v" by (simp_all add: lit_var_def)
  have "row_count a (fst r) = of_bool (a v) + rest v a r"
    using row_with_pivot [of "fst r" "int v" v a] assms by (simp add: good_row_def lv rest_def lit_sat_def)
  moreover have "row_count a (fst t) = of_bool (\<not> a v) + rest v a t"
    using row_with_pivot [of "fst t" "- int v" v a] assms by (simp add: good_row_def lv rest_def lit_sat_def)
  ultimately show "snd r - 1 \<le> rest v a r" "snd t - 1 \<le> rest v a t" "snd r \<le> rest v a r \<or> snd t \<le> rest v a t"
    using assms(6,7) by (auto simp: row_sat_def of_bool_def split: if_splits)
qed

lemma marks_start: "\<forall>u\<in>{1..n}. seen u = 0 \<Longrightarrow> marks n [] seen"
  by (simp add: marks_def)

lemma resolve_clauses:
  assumes r: "good_row n r" "good_row n t" and v: "int v \<in> set (fst r)" "- int v \<in> set (fst t)" "0 < v"
    and c: "snd r = 1" "snd t = 1" and seen: "\<forall>u\<in>{1..n}. seen u = 0"
  shows "resolvent_ok n v r t (resolve_rows v r t seen)"
proof -
  have nz: "0 \<notin> set (fst r)" "0 \<notin> set (fst t)" "lits_in n (fst r)" "lits_in n (fst t)"
    using r by (auto simp: good_row_def lits_in_def)
  let ?L = "set (residual v (fst r)) \<union> set (residual v (fst t))"
  have met: "pair_met v a r t" if "\<exists>l\<in>?L. lit_sat a l" for a
    using that c rest_bounds(1) [of v a r] rest_bounds(1) [of v a t] row_count_pos [of a "residual v (fst r)"]
      row_count_pos [of a "residual v (fst t)"] by (auto simp: pair_met_def rest_def)
  have taut: "resolvent_ok n v r t (2, lits, d)" if "l \<in> ?L" "- l \<in> ?L" for l lits d
  proof -
    have "l \<noteq> 0" using that(1) nz by auto
    then have "lit_sat a l \<or> lit_sat a (- l)" for a by (simp add: lit_sat_uminus)
    then have "pair_met v a r t" for a using met that by blast
    then show ?thesis by (simp add: resolvent_ok_def)
  qed
  note p1 = add_parent_clause [OF marks_start [OF seen] _ nz(3), of v, simplified, unfolded joins_clause_def append_Nil]
  show ?thesis
  proof (cases "add_parent v True (fst r) [] seen")
    case (Inl code)
    then obtain l where "code = 2" "l \<in> ?L" "- l \<in> ?L" using p1 by auto
    then show ?thesis using taut Inl c by (simp add: resolve_rows_def)
  next
    case (Inr os)
    obtain out s1 where os: "os = (out, s1)" by fastforce
    then have o1: "marks n out s1" "set out = set (residual v (fst r))" using p1 Inr by simp_all
    then have "0 \<notin> set out" using nz by auto
    note p2 = add_parent_clause [OF o1(1) this nz(4), of v, unfolded joins_clause_def]
    show ?thesis
    proof (cases "add_parent v True (fst t) out s1")
      case (Inl code)
      then obtain l where "code = 2" "l \<in> ?L" "- l \<in> ?L" using p2 o1(2) by auto
      then show ?thesis using taut Inr os Inl c by (simp add: resolve_rows_def)
    next
      case R: (Inr os2)
      obtain out2 s2 where os2: "os2 = (out2, s2)" by fastforce
      then have o2: "marks n out2 s2" "set out2 = ?L" using p2 R o1(2) by simp_all
      have e: "resolve_rows v r t seen = (if 1 > int (length out2) then (-1, out2, 1) else (1, out2, 1))"
        using Inr os R os2 c by (simp add: resolve_rows_def)
      have sat: "row_sat a out2 1 \<longleftrightarrow> (\<exists>l\<in>?L. lit_sat a l)" for a
        using row_count_pos [of a out2] o2(2) by (simp add: row_sat_def)
      have imp: "row_sat a out2 1" if "row_sat a (fst r) (snd r)" "row_sat a (fst t) (snd t)" for a
        using parents_met(3) [OF r v that] c row_count_pos [of a "residual v (fst r)"] row_count_pos [of a "residual v (fst t)"]
        by (auto simp: sat rest_def)
      show ?thesis
      proof (cases "out2 = []")
        case True
        then have "\<not> row_sat a out2 1" for a by (simp add: row_sat_def)
        then show ?thesis using imp True by (auto simp: e resolvent_ok_def)
      next
        case False
        have "good_row n (out2, 1)" using o2 r False by (auto simp: good_row_def marks_def)
        moreover have "v \<notin> lit_var ` set out2" "lit_var ` set out2 \<subseteq> lit_var ` (set (fst r) \<union> set (fst t))" using o2(2) by auto
        moreover have "0 < length out2" using False by simp
        ultimately show ?thesis using imp met sat by (auto simp: e resolvent_ok_def)
      qed
    qed
  qed
qed

lemma resolve_cards:
  assumes r: "good_row n r" "good_row n t" and v: "int v \<in> set (fst r)" "- int v \<in> set (fst t)" "0 < v"
    and c: "\<not> (snd r = 1 \<and> snd t = 1)" and seen: "\<forall>u\<in>{1..n}. seen u = 0"
  shows "resolvent_ok n v r t (resolve_rows v r t seen)"
proof -
  have nz: "0 \<notin> set (fst r)" "0 \<notin> set (fst t)" "lits_in n (fst r)" "lits_in n (fst t)"
    using r by (auto simp: good_row_def lits_in_def)
  have d: "1 \<le> snd r" "1 \<le> snd t" using r by (simp_all add: good_row_def)
  note p1 = add_parent_card [OF marks_start [OF seen] _ nz(3), of v, simplified, unfolded joins_card_def append_Nil]
  have c': "(snd r = 1 \<and> snd t = 1) = False" using c by simp
  show ?thesis
  proof (cases "add_parent v False (fst r) [] seen")
    case (Inl code)
    then have "code = 0" using p1 by simp
    then have "resolve_rows v r t seen = (0, [], snd r + snd t - 1)"
      unfolding resolve_rows_def Let_def c' Inl by simp
    then show ?thesis by (simp add: resolvent_ok_def)
  next
    case (Inr os)
    obtain out s1 where os: "os = (out, s1)" by fastforce
    have "marks n out s1 \<and> out = residual v (fst r)" using p1 unfolding Inr os sum.case prod.case .
    then have o1: "marks n out s1" "out = residual v (fst r)" by blast+
    then have "0 \<notin> set out" using nz by auto
    note p2 = add_parent_card [OF o1(1) this nz(4), of v, unfolded joins_card_def]
    show ?thesis
    proof (cases "add_parent v False (fst t) out s1")
      case (Inl code)
      then have "code = 0" using p2 by simp
      then have "resolve_rows v r t seen = (0, [], snd r + snd t - 1)"
        unfolding resolve_rows_def Let_def c' Inr os by (simp add: Inl)
      then show ?thesis by (simp add: resolvent_ok_def)
    next
      case R: (Inr os2)
      obtain out2 s2 where os2: "os2 = (out2, s2)" by fastforce
      then have o2: "marks n out2 s2" "out2 = residual v (fst r) @ residual v (fst t)" using p2 R o1(2) by auto
      let ?d = "snd r + snd t - 1"
      have e: "resolve_rows v r t seen = (if ?d > int (length out2) then (-1, out2, ?d) else (1, out2, ?d))"
        unfolding resolve_rows_def Let_def c' Inr os using R os2 d by simp
      have sat: "row_sat a out2 ?d \<longleftrightarrow> ?d \<le> rest v a r + rest v a t" for a
        by (simp add: row_sat_def o2(2) rest_def)
      have imp: "row_sat a out2 ?d" if "row_sat a (fst r) (snd r)" "row_sat a (fst t) (snd t)" for a
        using parents_met [OF r v that] by (auto simp: sat)
      have met: "pair_met v a r t" if "row_sat a out2 ?d" for a
        using that rest_bounds [of v a r] rest_bounds [of v a t] d by (auto simp: sat pair_met_def)
      show ?thesis
      proof (cases "?d > int (length out2)")
        case True
        then have "\<not> row_sat a out2 ?d" for a using row_count_bounds [of a out2] by (simp add: row_sat_def)
        then show ?thesis using imp True by (auto simp: e resolvent_ok_def)
      next
        case False
        have "out2 \<noteq> []" using False d by auto
        then have "good_row n (out2, ?d)" using o2 r d by (auto simp: good_row_def marks_def)
        moreover have "v \<notin> lit_var ` set out2" "lit_var ` set out2 \<subseteq> lit_var ` (set (fst r) \<union> set (fst t))"
          unfolding o2(2) by auto
        ultimately show ?thesis using imp met False by (auto simp: e resolvent_ok_def)
      qed
    qed
  qed
qed

lemma resolve_rows_ok:
  assumes "good_row n r" "good_row n t" and "int v \<in> set (fst r)" "- int v \<in> set (fst t)" "0 < v" and "\<forall>u\<in>{1..n}. seen u = 0"
  shows "resolvent_ok n v r t (resolve_rows v r t seen)"
  using resolve_clauses [OF assms(1-5) _ _ assms(6)] resolve_cards [OF assms(1-5) _ assms(6)] by blast

section \<open>All pairs of parents\<close>

abbreviation row_of :: "preproc \<Rightarrow> nat \<Rightarrow> int list \<times> int" where
  "row_of p i \<equiv> (pp_row p i, pp_deg p i)"

definition gen_row_ok :: "nat \<Rightarrow> nat \<Rightarrow> (int list \<times> int) set \<Rightarrow> int list \<times> int \<Rightarrow> bool" where
  "gen_row_ok n v R x \<longleftrightarrow> good_row n x \<and> v \<notin> lit_var ` set (fst x)
     \<and> lit_var ` set (fst x) \<subseteq> (\<Union>r\<in>R. lit_var ` set (fst r))
     \<and> (\<forall>a. (\<forall>r\<in>R. row_sat a (fst r) (snd r)) \<longrightarrow> row_sat a (fst x) (snd x))"

definition covered :: "nat \<Rightarrow> (int list \<times> int) list \<Rightarrow> int list \<times> int \<Rightarrow> int list \<times> int \<Rightarrow> bool" where
  "covered v gen r t \<longleftrightarrow> (\<forall>a. rows_sat a gen \<longrightarrow> pair_met v a r t)"

lemma covered_mono: "covered v gen r t \<Longrightarrow> set gen \<subseteq> set gen' \<Longrightarrow> covered v gen' r t"
  unfolding covered_def rows_sat_def by blast

text \<open>The parents of \<open>v\<close>, and what the loops over the pairs have achieved.\<close>

definition parents :: "nat \<Rightarrow> nat \<Rightarrow> preproc \<Rightarrow> nat list \<Rightarrow> nat list \<Rightarrow> bool" where
  "parents n v p pos neg \<longleftrightarrow> 0 < v \<and> (\<forall>u\<in>{1..n}. pp_resseen p u = 0)
     \<and> (\<forall>i\<in>set pos. good_row n (row_of p i) \<and> int v \<in> set (pp_row p i))
     \<and> (\<forall>j\<in>set neg. good_row n (row_of p j) \<and> - int v \<in> set (pp_row p j))"

definition pairs_post :: "nat \<Rightarrow> nat \<Rightarrow> preproc \<Rightarrow> (int list \<times> int) set \<Rightarrow> (nat \<times> nat) set \<Rightarrow> (int list \<times> int) list
    \<Rightarrow> (bool \<times> (int list \<times> int) list) option \<Rightarrow> bool" where
  "pairs_post n v p R IJ gen res = (case res of
       None \<Rightarrow> (\<forall>a. \<exists>r\<in>R. \<not> row_sat a (fst r) (snd r))
     | Some (can, gen') \<Rightarrow> (\<forall>x\<in>set gen'. gen_row_ok n v R x)
         \<and> (can \<longrightarrow> set gen \<subseteq> set gen' \<and> (\<forall>(i, j)\<in>IJ. covered v gen' (row_of p i) (row_of p j))))"

lemma resolve_neg_ok:
  assumes "parents n v p pos neg" and "i \<in> set pos" and "set js \<subseteq> set neg"
    and "\<forall>x\<in>set gen. gen_row_ok n v (row_of p ` (set pos \<union> set neg)) x"
  shows "pairs_post n v p (row_of p ` (set pos \<union> set neg)) ({i} \<times> set js) gen (resolve_neg v p i js gen)"
  using assms(3,4)
proof (induction js arbitrary: gen)
  case Nil
  then show ?case by (simp add: pairs_post_def)
next
  case (Cons j js)
  let ?R = "row_of p ` (set pos \<union> set neg)"
  have j: "j \<in> set neg" "set js \<subseteq> set neg" using Cons.prems by auto
  obtain code lits deg where b: "build_resolvent v i j p = (code, lits, deg)" by (metis prod_cases3)
  have ok: "resolvent_ok n v (row_of p i) (row_of p j) (code, lits, deg)"
    unfolding b [symmetric] build_resolve_rows
    by (rule resolve_rows_ok) (use assms(1,2) j in \<open>auto simp: parents_def\<close>)
  have in_R: "row_of p i \<in> ?R" "row_of p j \<in> ?R" using assms(2) j by auto
  consider "code < 0" | "code = 0" | "code = 1" | "0 < code" "code \<noteq> 1" by linarith
  then show ?case
  proof cases
    case 1
    then have "\<forall>a. \<not> (row_sat a (pp_row p i) (pp_deg p i) \<and> row_sat a (pp_row p j) (pp_deg p j))"
      using ok by (simp add: resolvent_ok_def)
    then have "\<forall>a. \<exists>r\<in>?R. \<not> row_sat a (fst r) (snd r)" using in_R by (metis fst_conv snd_conv)
    moreover have e: "resolve_neg v p i (j # js) gen = None" using 1 b by simp
    ultimately show ?thesis unfolding pairs_post_def e option.case by blast
  next
    case 2
    then show ?thesis using b Cons.prems by (simp add: pairs_post_def)
  next
    case 3
    have new: "gen_row_ok n v ?R (lits, deg)"
    proof -
      have g: "good_row n (lits, deg)" "v \<notin> lit_var ` set lits"
        "lit_var ` set lits \<subseteq> lit_var ` (set (pp_row p i) \<union> set (pp_row p j))"
        "\<forall>a. row_sat a (pp_row p i) (pp_deg p i) \<longrightarrow> row_sat a (pp_row p j) (pp_deg p j) \<longrightarrow> row_sat a lits deg"
        using ok 3 by (simp_all add: resolvent_ok_def)
      have "lit_var ` set (fst (row_of p i)) \<subseteq> (\<Union>r\<in>?R. lit_var ` set (fst r))"
        "lit_var ` set (fst (row_of p j)) \<subseteq> (\<Union>r\<in>?R. lit_var ` set (fst r))"
        by (rule UN_upper [OF in_R(1)], rule UN_upper [OF in_R(2)])
      then have "lit_var ` set lits \<subseteq> (\<Union>r\<in>?R. lit_var ` set (fst r))"
        by (intro subset_trans [OF g(3)]) (simp only: image_Un fst_conv Un_least)
      moreover have "row_sat a lits deg" if "\<forall>r\<in>?R. row_sat a (fst r) (snd r)" for a
      proof -
        have "row_sat a (fst (row_of p i)) (snd (row_of p i))" "row_sat a (fst (row_of p j)) (snd (row_of p j))"
          using that in_R by blast+
        then show ?thesis using g(4) by simp
      qed
      ultimately show ?thesis using g by (simp add: gen_row_ok_def)
    qed
    then have "\<forall>x\<in>set (gen @ [(lits, deg)]). gen_row_ok n v ?R x" using Cons.prems(2) by auto
    note ih = Cons.IH [OF j(2) this]
    have e: "resolve_neg v p i (j # js) gen = resolve_neg v p i js (gen @ [(lits, deg)])" using 3 b by simp
    have cov: "covered v [(lits, deg)] (row_of p i) (row_of p j)"
      using ok 3 by (simp add: covered_def rows_sat_def resolvent_ok_def)
    show ?thesis
    proof (cases "resolve_neg v p i js (gen @ [(lits, deg)])")
      case (Some cg)
      obtain can gen' where cg: "cg = (can, gen')" by fastforce
      have "\<forall>x\<in>set gen'. gen_row_ok n v ?R x" "can \<longrightarrow> set (gen @ [(lits, deg)]) \<subseteq> set gen'
        \<and> (\<forall>(i, j)\<in>{i} \<times> set js. covered v gen' (row_of p i) (row_of p j))"
        using ih unfolding Some cg by (auto simp: pairs_post_def)
      then show ?thesis unfolding e Some cg using covered_mono [OF cov, of gen'] by (auto simp: pairs_post_def)
    next
      case None
      show ?thesis using ih unfolding e None pairs_post_def by simp
    qed
  next
    case 4
    have e: "resolve_neg v p i (j # js) gen = resolve_neg v p i js gen" using 4 b by simp
    have "covered v gen' (row_of p i) (row_of p j)" for gen' using ok 4 by (simp add: covered_def resolvent_ok_def)
    then show ?thesis unfolding e using Cons.IH [OF j(2) Cons.prems(2)]
      by (cases "resolve_neg v p i js gen") (auto simp: pairs_post_def)
  qed
qed

lemma resolve_pos_ok:
  assumes "parents n v p pos neg" and "set is \<subseteq> set pos"
    and "\<forall>x\<in>set gen. gen_row_ok n v (row_of p ` (set pos \<union> set neg)) x"
  shows "pairs_post n v p (row_of p ` (set pos \<union> set neg)) (set is \<times> set neg) gen (resolve_pos v p is neg gen)"
  using assms(2,3)
proof (induction "is" arbitrary: gen)
  case Nil
  then show ?case by (simp add: pairs_post_def)
next
  case (Cons i "is")
  let ?R = "row_of p ` (set pos \<union> set neg)"
  have i: "i \<in> set pos" "set is \<subseteq> set pos" using Cons.prems by auto
  note inner = resolve_neg_ok [OF assms(1) i(1) subset_refl Cons.prems(2)]
  show ?case
  proof (cases "resolve_neg v p i neg gen")
    case None
    then show ?thesis using inner by (simp add: pairs_post_def)
  next
    case (Some cg)
    obtain can gen1 where cg: "cg = (can, gen1)" by fastforce
    have g1: "\<forall>x\<in>set gen1. gen_row_ok n v ?R x" "can \<longrightarrow> set gen \<subseteq> set gen1
        \<and> (\<forall>j\<in>set neg. covered v gen1 (row_of p i) (row_of p j))"
      using inner unfolding Some cg by (auto simp: pairs_post_def)
    show ?thesis
    proof (cases can)
      case False
      then show ?thesis using g1(1) by (simp add: Some cg pairs_post_def)
    next
      case True
      then have e: "resolve_pos v p (i # is) neg gen = resolve_pos v p is neg gen1" by (simp add: Some cg)
      note ih = Cons.IH [OF i(2) g1(1)]
      show ?thesis
      proof (cases "resolve_pos v p is neg gen1")
        case None
        then show ?thesis using ih unfolding e None pairs_post_def by simp
      next
        case S: (Some ch)
        obtain can2 gen2 where ch: "ch = (can2, gen2)" by fastforce
        have "\<forall>x\<in>set gen2. gen_row_ok n v ?R x" "can2 \<longrightarrow> set gen1 \<subseteq> set gen2
            \<and> (\<forall>(i, j)\<in>set is \<times> set neg. covered v gen2 (row_of p i) (row_of p j))"
          using ih unfolding S ch by (auto simp: pairs_post_def)
        then show ?thesis unfolding e S ch using g1(2) True covered_mono by (fastforce simp: pairs_post_def)
      qed
    qed
  qed
qed

section \<open>The exchange\<close>

text \<open>When the residual conditions hold and every pair is covered, an assignment of the resolvents
  can be completed on the variable so that all parents hold.\<close>

lemma exchange:
  assumes par: "parents n v p pos neg" and res: "residuals_implied p pos neg"
    and cov: "\<forall>i\<in>set pos. \<forall>j\<in>set neg. covered v gen (row_of p i) (row_of p j)"
    and sat: "rows_sat a gen" and ne: "pos \<noteq> []" "neg \<noteq> []"
  shows "(\<forall>i\<in>set pos \<union> set neg. row_sat (a(v := True)) (pp_row p i) (pp_deg p i))
    \<or> (\<forall>i\<in>set pos \<union> set neg. row_sat (a(v := False)) (pp_row p i) (pp_deg p i))"
proof -
  have v: "0 < v" "lit_var (int v) = v" "lit_var (- int v) = v" using par by (simp_all add: parents_def lit_var_def)
  have met: "pair_met v a (row_of p i) (row_of p j)" if "i \<in> set pos" "j \<in> set neg" for i j
    using cov sat that by (simp add: covered_def)
  have pos: "good_row n (row_of p i)" "int v \<in> set (pp_row p i)" if "i \<in> set pos" for i
    using par that by (simp_all add: parents_def)
  have neg: "good_row n (row_of p j)" "- int v \<in> set (pp_row p j)" if "j \<in> set neg" for j
    using par that by (simp_all add: parents_def)
  have rp: "pp_deg p i - 1 \<le> rest v a (row_of p i)" if i: "i \<in> set pos" for i
  proof (cases "list_all (\<lambda>i. pp_deg p i = 1) pos")
    case True
    then have "pp_deg p i = 1" using i by (simp add: list_all_iff)
    then show ?thesis using rest_bounds(1) [of v a "row_of p i"] by simp
  next
    case False
    then obtain j where j: "j \<in> set neg" "pp_deg p j \<ge> int (length (pp_row p j)) - 1"
      using res by (auto simp: residuals_implied_def list_ex_iff Let_def)
    then have "int (length (residual v (pp_row p j))) \<le> pp_deg p j"
      using length_residual [of "pp_row p j" "- int v" v] neg [OF j(1)] v by (simp add: good_row_def)
    then show ?thesis using met [OF i j(1)] by (simp add: pair_met_def)
  qed
  have rn: "pp_deg p j - 1 \<le> rest v a (row_of p j)" if j: "j \<in> set neg" for j
  proof (cases "list_all (\<lambda>i. pp_deg p i = 1) neg")
    case True
    then have "pp_deg p j = 1" using j by (simp add: list_all_iff)
    then show ?thesis using rest_bounds(1) [of v a "row_of p j"] by simp
  next
    case False
    then obtain i where i: "i \<in> set pos" "pp_deg p i \<ge> int (length (pp_row p i)) - 1"
      using res by (auto simp: residuals_implied_def list_ex_iff Let_def)
    then have "int (length (residual v (pp_row p i))) \<le> pp_deg p i"
      using length_residual [of "pp_row p i" "int v" v] pos [OF i(1)] v by (simp add: good_row_def)
    then show ?thesis using met [OF i(1) j] by (simp add: pair_met_def)
  qed
  have same: "rest v (a(v := b)) r = rest v a r" for b r
    unfolding rest_def by (rule row_count_cong) (auto simp: lit_sat_def)
  have cp: "row_count (a(v := b)) (pp_row p i) = of_bool b + rest v a (row_of p i)" if "i \<in> set pos" for i b
    using row_with_pivot [of "pp_row p i" "int v" v "a(v := b)"] pos [OF that] v same [of b "row_of p i"]
    by (simp add: good_row_def rest_def lit_sat_def)
  have cn: "row_count (a(v := b)) (pp_row p j) = of_bool (\<not> b) + rest v a (row_of p j)" if "j \<in> set neg" for j b
    using row_with_pivot [of "pp_row p j" "- int v" v "a(v := b)"] neg [OF that] v same [of b "row_of p j"]
    by (simp add: good_row_def rest_def lit_sat_def)
  show ?thesis
  proof (cases "\<forall>i\<in>set pos. pp_deg p i \<le> rest v a (row_of p i)")
    case True
    have "row_sat (a(v := False)) (pp_row p i) (pp_deg p i)" if "i \<in> set pos \<union> set neg" for i
      using that True rn [of i] cp [of i False] cn [of i False] by (auto simp: row_sat_def)
    then show ?thesis by blast
  next
    case False
    then obtain i0 where i0: "i0 \<in> set pos" "\<not> pp_deg p i0 \<le> rest v a (row_of p i0)" by blast
    have n: "pp_deg p j \<le> rest v a (row_of p j)" if "j \<in> set neg" for j
      using met [OF i0(1) that] rp [OF i0(1)] rn [OF that] i0(2) by (simp add: pair_met_def)
    have "row_sat (a(v := True)) (pp_row p i) (pp_deg p i)" if "i \<in> set pos \<union> set neg" for i
      using that rp [of i] n [of i] cp [of i True] cn [of i True] by (auto simp: row_sat_def)
    then show ?thesis by blast
  qed
qed

end
