(* ===== verification/Prep_Res_Inv.thy ===== *)
theory Prep_Res_Inv
  imports Prep_Res_Step
begin

text \<open>
  The elimination of variables by resolution: the literal counts and occurrence lists describe the
  active rows, the stored rows allow the eliminated variables to be recovered, and the rows that
  remain have a model exactly when the rows of the start have one.
\<close>

section \<open>Counts and occurrences\<close>

definition lit_count :: "res_state \<Rightarrow> int \<Rightarrow> int" where
  "lit_count s l = (if l > 0 then rs_pos_count s (lit_var l) else rs_neg_count s (lit_var l))"

definition occ :: "preproc \<Rightarrow> int \<Rightarrow> nat list" where
  "occ p l = (if l > 0 then pp_occurp p (lit_var l) else pp_occurn p (lit_var l))"

definition cnt :: "preproc \<Rightarrow> int \<Rightarrow> nat" where
  "cnt p l = length (filter (\<lambda>i. l \<in> set (pp_row p i)) (active_rows p))"

definition rows_inv :: "nat \<Rightarrow> res_state \<Rightarrow> bool" where
  "rows_inv n s \<longleftrightarrow> pp_vars (rs_prep s) = n
     \<and> length (pp_clause (rs_prep s)) = Suc (pp_clauses (rs_prep s))
     \<and> length (pp_degree (rs_prep s)) = Suc (pp_clauses (rs_prep s))
     \<and> length (pp_clause_delete (rs_prep s)) = Suc (pp_clauses (rs_prep s))
     \<and> (\<forall>i\<in>set (active_rows (rs_prep s)). good_row n (row_of (rs_prep s) i))
     \<and> (\<forall>l. l \<noteq> 0 \<longrightarrow> lit_var l \<le> n \<longrightarrow> lit_count s l = int (cnt (rs_prep s) l))
     \<and> (\<forall>v\<in>set (rs_pure_queue s). v \<in> {1..n})"

definition occ_inv :: "nat \<Rightarrow> preproc \<Rightarrow> bool" where
  "occ_inv n p \<longleftrightarrow> (\<forall>l. l \<noteq> 0 \<longrightarrow> lit_var l \<le> n \<longrightarrow> set (occ p l) \<subseteq> {1..pp_clauses p}
     \<and> (\<forall>i\<in>set (active_rows p). i \<in> set (occ p l) \<longleftrightarrow> l \<in> set (pp_row p i)))"

lemma rows_invD:
  assumes "rows_inv n s"
  shows "pp_vars (rs_prep s) = n" "length (pp_clause (rs_prep s)) = Suc (pp_clauses (rs_prep s))"
    "length (pp_degree (rs_prep s)) = Suc (pp_clauses (rs_prep s))"
    "length (pp_clause_delete (rs_prep s)) = Suc (pp_clauses (rs_prep s))"
    "\<And>i. i \<in> set (active_rows (rs_prep s)) \<Longrightarrow> good_row n (row_of (rs_prep s) i)"
    "\<And>l. l \<noteq> 0 \<Longrightarrow> lit_var l \<le> n \<Longrightarrow> lit_count s l = int (cnt (rs_prep s) l)"
    "set (rs_pure_queue s) \<subseteq> {1..n}"
  using assms by (auto simp: rows_inv_def)

lemma rows_invI:
  assumes "pp_vars (rs_prep s) = n" "length (pp_clause (rs_prep s)) = Suc (pp_clauses (rs_prep s))"
    "length (pp_degree (rs_prep s)) = Suc (pp_clauses (rs_prep s))"
    "length (pp_clause_delete (rs_prep s)) = Suc (pp_clauses (rs_prep s))"
    "\<And>i. i \<in> set (active_rows (rs_prep s)) \<Longrightarrow> good_row n (row_of (rs_prep s) i)"
    "\<And>l. l \<noteq> 0 \<Longrightarrow> lit_var l \<le> n \<Longrightarrow> lit_count s l = int (cnt (rs_prep s) l)"
    "set (rs_pure_queue s) \<subseteq> {1..n}"
  shows "rows_inv n s"
  using assms by (auto simp: rows_inv_def)

lemma active_mem: "i \<in> set (active_rows p) \<longleftrightarrow> 1 \<le> i \<and> i \<le> pp_clauses p \<and> \<not> deleted p i"
  by (auto simp: active_rows_def)

lemma distinct_active: "distinct (active_rows p)"
  by (simp add: active_rows_def)

text \<open>\<open>inc_count\<close> and \<open>dec_count\<close> touch the counts and the queue only.\<close>

lemma enqueue_frame [simp]:
  "rs_prep (enqueue_pure_candidate v s) = rs_prep s"
  "lit_count (enqueue_pure_candidate v s) l = lit_count s l"
  by (simp_all add: enqueue_pure_candidate_def lit_count_def)

lemma dec_count_frame [simp]: "rs_prep (dec_count m s) = rs_prep s"
  by (simp add: dec_count_def)

lemma inc_count_frame [simp]: "rs_prep (inc_count m s) = rs_prep s" "rs_pure_queue (inc_count m s) = rs_pure_queue s"
  by (simp_all add: inc_count_def)

lemma same_sign: "l \<noteq> 0 \<Longrightarrow> m \<noteq> 0 \<Longrightarrow> (l > 0) = (m > 0) \<Longrightarrow> lit_var l = lit_var m \<longleftrightarrow> l = m"
  by (auto simp: lit_var_def)

lemma count_dec:
  assumes "l \<noteq> 0" "m \<noteq> 0"
  shows "lit_count (dec_count m s) l = lit_count s l - of_bool (l = m)"
  unfolding dec_count_def enqueue_frame using same_sign [OF assms] by (auto simp: lit_count_def)

lemma count_inc:
  assumes "l \<noteq> 0" "m \<noteq> 0"
  shows "lit_count (inc_count m s) l = lit_count s l + of_bool (l = m)"
  using same_sign [OF assms] by (auto simp: lit_count_def inc_count_def)

lemma count_on_prep [simp]: "lit_count (s\<lparr>rs_prep := q\<rparr>) l = lit_count s l"
  by (simp add: lit_count_def)

lemma queue_dec: "set (rs_pure_queue (dec_count m s)) \<subseteq> insert (lit_var m) (set (rs_pure_queue s))"
  by (auto simp: dec_count_def enqueue_pure_candidate_def)

lemma fold_dec_frame [simp]: "rs_prep (fold dec_count ls s) = rs_prep s"
  by (induction ls arbitrary: s) auto

lemma fold_dec_count:
  assumes "distinct ls" and "0 \<notin> set ls" and "l \<noteq> 0"
  shows "lit_count (fold dec_count ls s) l = lit_count s l - of_bool (l \<in> set ls)"
  using assms(1,2)
proof (induction ls arbitrary: s)
  case (Cons m ls)
  have "lit_count (fold dec_count ls (dec_count m s)) l = lit_count (dec_count m s) l - of_bool (l \<in> set ls)"
    using Cons by simp
  also have "\<dots> = lit_count s l - of_bool (l = m) - of_bool (l \<in> set ls)"
    using count_dec [OF assms(3), of m s] Cons.prems by simp
  finally show ?case using Cons.prems(1) by auto
qed simp

lemma fold_dec_queue: "set (rs_pure_queue (fold dec_count ls s)) \<subseteq> lit_var ` set ls \<union> set (rs_pure_queue s)"
proof (induction ls arbitrary: s)
  case (Cons m ls)
  show ?case using Cons.IH [of "dec_count m s"] queue_dec [of m s] by auto
qed simp

lemma distinct_lits: "distinct (map lit_var ls) \<Longrightarrow> distinct ls"
  by (simp add: distinct_map)

lemma good_row_vars: "good_row n r \<Longrightarrow> lit_var ` set (fst r) \<subseteq> {1..n}"
  using lit_var_pos by (fastforce simp: good_row_def)

section \<open>Retiring the parents\<close>

definition stored_row :: "preproc \<Rightarrow> int list \<Rightarrow> int list" where
  "stored_row p ls = map (\<lambda>l. pnsign l * int (pp_mapfrom p (lit_var l))) ls"

text \<open>The state after the rows \<open>ids\<close> have been stored and deleted.\<close>

definition retired :: "nat \<Rightarrow> nat list \<Rightarrow> preproc \<Rightarrow> preproc \<Rightarrow> bool" where
  "retired v ids p p' \<longleftrightarrow> p' = p\<lparr>pp_clause_delete := pp_clause_delete p',
       pp_res_clauses := pp_res_clauses p + length ids,
       pp_res_clause := pp_res_clause p @ map (\<lambda>i. stored_row p (pp_row p i)) ids,
       pp_res_degree := pp_res_degree p @ map (pp_deg p) ids,
       pp_res_owner := pp_res_owner p @ replicate (length ids) (pp_mapfrom p v)\<rparr>
     \<and> active_rows p' = filter (\<lambda>i. i \<notin> set ids) (active_rows p)"

lemma retired_fields:
  assumes "retired v ids p p'"
  shows "pp_clause p' = pp_clause p" "pp_degree p' = pp_degree p" "pp_clauses p' = pp_clauses p" "pp_vars p' = pp_vars p"
    "pp_mapfrom p' = pp_mapfrom p" "pp_mapto p' = pp_mapto p" "pp_mapval p' = pp_mapval p" "pp_orivars p' = pp_orivars p"
    "pp_resseen p' = pp_resseen p" "pp_clean p' = pp_clean p" "pp_occurp p' = pp_occurp p" "pp_occurn p' = pp_occurn p"
    "pp_resolution p' = pp_resolution p"
    "pp_res_clauses p' = pp_res_clauses p + length ids"
    "pp_res_clause p' = pp_res_clause p @ map (\<lambda>i. stored_row p (pp_row p i)) ids"
    "pp_res_degree p' = pp_res_degree p @ map (pp_deg p) ids"
    "pp_res_owner p' = pp_res_owner p @ replicate (length ids) (pp_mapfrom p v)"
proof -
  have p': "p' = p\<lparr>pp_clause_delete := pp_clause_delete p',
       pp_res_clauses := pp_res_clauses p + length ids,
       pp_res_clause := pp_res_clause p @ map (\<lambda>i. stored_row p (pp_row p i)) ids,
       pp_res_degree := pp_res_degree p @ map (pp_deg p) ids,
       pp_res_owner := pp_res_owner p @ replicate (length ids) (pp_mapfrom p v)\<rparr>" using assms by (simp add: retired_def)
  show "pp_clause p' = pp_clause p" "pp_degree p' = pp_degree p" "pp_clauses p' = pp_clauses p" "pp_vars p' = pp_vars p"
    "pp_mapfrom p' = pp_mapfrom p" "pp_mapto p' = pp_mapto p" "pp_mapval p' = pp_mapval p" "pp_orivars p' = pp_orivars p"
    "pp_resseen p' = pp_resseen p" "pp_clean p' = pp_clean p" "pp_occurp p' = pp_occurp p" "pp_occurn p' = pp_occurn p"
    "pp_resolution p' = pp_resolution p"
    "pp_res_clauses p' = pp_res_clauses p + length ids"
    "pp_res_clause p' = pp_res_clause p @ map (\<lambda>i. stored_row p (pp_row p i)) ids"
    "pp_res_degree p' = pp_res_degree p @ map (pp_deg p) ids"
    "pp_res_owner p' = pp_res_owner p @ replicate (length ids) (pp_mapfrom p v)"
    by (subst p', simp)+
qed

lemma retired_trans:
  assumes "retired v [i] p p1" and "retired v ids p1 p2"
  shows "retired v (i # ids) p p2"
proof -
  note f = retired_fields [OF assms(1)]
  have "stored_row p1 = stored_row p" by (simp add: stored_row_def fun_eq_iff f)
  then have "p2 = p\<lparr>pp_clause_delete := pp_clause_delete p2,
       pp_res_clauses := pp_res_clauses p + length (i # ids),
       pp_res_clause := pp_res_clause p @ map (\<lambda>i. stored_row p (pp_row p i)) (i # ids),
       pp_res_degree := pp_res_degree p @ map (pp_deg p) (i # ids),
       pp_res_owner := pp_res_owner p @ replicate (length (i # ids)) (pp_mapfrom p v)\<rparr>"
    using assms by (cases p; cases p1; cases p2) (simp add: retired_def)
  moreover have "active_rows p2 = filter (\<lambda>x. x \<notin> set (i # ids)) (active_rows p)"
    using assms by (simp add: retired_def)
  ultimately show ?thesis by (simp add: retired_def)
qed

lemma active_delete:
  assumes "i < length (pp_clause_delete p)"
  shows "active_rows (p\<lparr>pp_clause_delete := (pp_clause_delete p)[i := 1]\<rparr>) = filter (\<lambda>x. x \<noteq> i) (active_rows p)"
  using assms unfolding active_rows_def
  by (auto simp: filter_filter nth_list_update intro!: filter_cong simp del: upt_Suc)

lemma cnt_removed:
  assumes "i \<in> set (active_rows p)" and "pp_clause p' = pp_clause p" and "active_rows p' = filter (\<lambda>x. x \<noteq> i) (active_rows p)"
  shows "int (cnt p' l) = int (cnt p l) - of_bool (l \<in> set (pp_row p i))"
proof -
  let ?F = "filter (\<lambda>x. l \<in> set (pp_row p x)) (active_rows p)"
  have "filter (\<lambda>x. l \<in> set (pp_row p' x)) (active_rows p') = filter (\<lambda>x. i \<noteq> x) ?F"
    unfolding assms(2,3) filter_filter by (rule filter_cong) auto
  also have "\<dots> = remove1 i ?F"
    using distinct_active [of p] by (simp add: distinct_remove1_removeAll removeAll_filter_not_eq)
  finally have "cnt p' l = (if i \<in> set ?F then length ?F - 1 else length ?F)" by (simp add: cnt_def length_remove1)
  moreover have "0 < length ?F" if "i \<in> set ?F" using that by (metis length_pos_if_in_set)
  moreover have "i \<in> set ?F \<longleftrightarrow> l \<in> set (pp_row p i)" using assms(1) by simp
  ultimately show ?thesis by (auto simp: cnt_def of_nat_diff Suc_le_eq)
qed

lemma delete_active_ok:
  assumes inv: "rows_inv n s" and i: "i \<in> {1..pp_clauses (rs_prep s)}"
  shows "rows_inv n (delete_active_clause i s)"
    and "\<exists>cd. rs_prep (delete_active_clause i s) = (rs_prep s)\<lparr>pp_clause_delete := cd\<rparr>"
    and "active_rows (rs_prep (delete_active_clause i s)) = filter (\<lambda>x. x \<noteq> i) (active_rows (rs_prep s))"
proof -
  let ?p = "rs_prep s" and ?s = "delete_active_clause i s"
  have "rows_inv n ?s \<and> (\<exists>cd. rs_prep ?s = ?p\<lparr>pp_clause_delete := cd\<rparr>)
    \<and> active_rows (rs_prep ?s) = filter (\<lambda>x. x \<noteq> i) (active_rows ?p)"
  proof (cases "deleted ?p i")
    case True
    then have e: "?s = s" by (simp add: delete_active_clause_def)
    have "filter (\<lambda>x. x \<noteq> i) (active_rows ?p) = active_rows ?p" using True by (auto simp: filter_id_conv active_mem)
    moreover have "?p = ?p\<lparr>pp_clause_delete := pp_clause_delete ?p\<rparr>" by simp
    ultimately show ?thesis using inv unfolding e by metis
  next
    case False
    let ?q = "?p\<lparr>pp_clause_delete := (pp_clause_delete ?p)[i := 1]\<rparr>"
    have p: "rs_prep ?s = ?q" using False by (simp add: delete_active_clause_def)
    note d = rows_invD [OF inv]
    have len: "i < length (pp_clause_delete ?p)" using d(4) i by simp
    note act = active_delete [OF len]
    have ia: "i \<in> set (active_rows ?p)" using i False by (simp add: active_mem)
    note g = d(5) [OF ia]
    have cnt: "int (cnt ?q l) = int (cnt ?p l) - of_bool (l \<in> set (pp_row ?p i))" for l
      by (rule cnt_removed [OF ia _ act]) simp
    have c: "lit_count ?s l = lit_count s l - of_bool (l \<in> set (pp_row ?p i))" if "l \<noteq> 0" for l
    proof -
      have "lit_count ?s l = lit_count (fold dec_count (pp_row ?p i) s) l"
        using False by (simp add: delete_active_clause_def)
      then show ?thesis using fold_dec_count [of "pp_row ?p i" l s] that g by (auto simp: good_row_def distinct_lits)
    qed
    have "rs_pure_queue ?s = rs_pure_queue (fold dec_count (pp_row ?p i) s)" using False by (simp add: delete_active_clause_def)
    then have q: "set (rs_pure_queue ?s) \<subseteq> lit_var ` set (pp_row ?p i) \<union> set (rs_pure_queue s)"
      using fold_dec_queue by metis
    have v: "lit_var ` set (pp_row ?p i) \<subseteq> {1..n}" using good_row_vars [OF g] by simp
    have "rows_inv n ?s"
    proof (rule rows_invI, unfold p)
      show "lit_count ?s l = int (cnt ?q l)" if "l \<noteq> 0" "lit_var l \<le> n" for l
        using d(6) [OF that] c [OF that(1)] cnt [of l] by simp
      show "good_row n (row_of ?q x)" if "x \<in> set (active_rows ?q)" for x
        using that d(5) [of x] unfolding act by simp
      show "set (rs_pure_queue ?s) \<subseteq> {1..n}" using q v d(7) by blast
    qed (use d in simp_all)
    then show ?thesis using p act by auto
  qed
  then show "rows_inv n ?s" "\<exists>cd. rs_prep ?s = ?p\<lparr>pp_clause_delete := cd\<rparr>"
    "active_rows (rs_prep ?s) = filter (\<lambda>x. x \<noteq> i) (active_rows ?p)" by blast+
qed

lemma retire_clause_ok:
  assumes inv: "rows_inv n s" and i: "i \<in> {1..pp_clauses (rs_prep s)}"
  shows "rows_inv n (retire_clause v i s) \<and> retired v [i] (rs_prep s) (rs_prep (retire_clause v i s))"
proof -
  let ?p = "rs_prep s"
  define p1 where "p1 = store_recovery_clause i (pp_mapfrom ?p v) ?p"
  have e: "retire_clause v i s = delete_active_clause i (s\<lparr>rs_prep := p1\<rparr>)" by (simp add: retire_clause_def p1_def)
  have p1: "p1 = ?p\<lparr>pp_res_clauses := pp_res_clauses ?p + 1, pp_res_clause := pp_res_clause ?p @ [stored_row ?p (pp_row ?p i)],
      pp_res_degree := pp_res_degree ?p @ [pp_deg ?p i], pp_res_owner := pp_res_owner ?p @ [pp_mapfrom ?p v]\<rparr>"
    by (simp add: p1_def store_recovery_clause_def stored_row_def)
  have act: "active_rows p1 = active_rows ?p" by (simp add: p1 active_rows_def)
  have cnt: "cnt p1 l = cnt ?p l" for l unfolding cnt_def act by (simp add: p1)
  have inv1: "rows_inv n (s\<lparr>rs_prep := p1\<rparr>)"
    using rows_invD [OF inv] by (intro rows_invI) (simp_all add: act cnt, simp_all add: p1)
  have i1: "i \<in> {1..pp_clauses (rs_prep (s\<lparr>rs_prep := p1\<rparr>))}" using i by (simp add: p1)
  note d = delete_active_ok [OF inv1 i1]
  obtain cd where cd: "rs_prep (retire_clause v i s) = p1\<lparr>pp_clause_delete := cd\<rparr>" using d(2) unfolding e by auto
  have "retired v [i] ?p (rs_prep (retire_clause v i s))"
    using d(3) act unfolding retired_def e [symmetric] cd by (simp add: p1)
  then show ?thesis using d(1) unfolding e by simp
qed

lemma fold_retire_ok:
  assumes "rows_inv n s" and "set ids \<subseteq> {1..pp_clauses (rs_prep s)}"
  shows "rows_inv n (fold (retire_clause v) ids s) \<and> retired v ids (rs_prep s) (rs_prep (fold (retire_clause v) ids s))"
  using assms
proof (induction ids arbitrary: s)
  case Nil
  then show ?case by (simp add: retired_def)
next
  case (Cons i ids)
  let ?s = "retire_clause v i s"
  have r: "rows_inv n ?s" "retired v [i] (rs_prep s) (rs_prep ?s)" using retire_clause_ok [OF Cons.prems(1)] Cons.prems(2) by auto
  have "set ids \<subseteq> {1..pp_clauses (rs_prep ?s)}" using Cons.prems(2) retired_fields(3) [OF r(2)] by simp
  with Cons.IH [OF r(1)] retired_trans [OF r(2)] show ?case by auto
qed

section \<open>Appending the resolvents\<close>

definition appended :: "(int list \<times> int) list \<Rightarrow> preproc \<Rightarrow> preproc \<Rightarrow> bool" where
  "appended gen p p' \<longleftrightarrow> p' = p\<lparr>pp_clauses := pp_clauses p + length gen, pp_clause := pp_clause p @ map fst gen,
       pp_degree := pp_degree p @ map snd gen, pp_clause_delete := pp_clause_delete p @ replicate (length gen) 0,
       pp_occurp := pp_occurp p', pp_occurn := pp_occurn p'\<rparr>"

lemma add_occur_occ:
  assumes "l \<noteq> 0" "m \<noteq> 0"
  shows "occ (add_occur c m p) l = (if l = m then occ p l @ [c] else occ p l)"
  using same_sign [OF assms] by (auto simp: occ_def add_occur_def)

definition occ_frame :: "preproc \<Rightarrow> preproc \<Rightarrow> bool" where
  "occ_frame p p' \<longleftrightarrow> p' = p\<lparr>pp_occurp := pp_occurp p', pp_occurn := pp_occurn p'\<rparr>"

lemma occ_frame_refl: "occ_frame p p"
  by (simp add: occ_frame_def)

lemma occ_frame_trans: "occ_frame p q \<Longrightarrow> occ_frame q r \<Longrightarrow> occ_frame p r"
  by (cases p; cases q; cases r; simp add: occ_frame_def)

lemma occ_frame_add: "occ_frame p (add_occur c m p)"
  by (simp add: add_occur_def occ_frame_def)

definition add_lit :: "nat \<Rightarrow> int \<Rightarrow> res_state \<Rightarrow> res_state" where
  "add_lit c l s = inc_count l (on_prep (add_occur c l) s)"

definition lits_added :: "nat \<Rightarrow> int list \<Rightarrow> res_state \<Rightarrow> res_state \<Rightarrow> bool" where
  "lits_added c ls s s' \<longleftrightarrow> occ_frame (rs_prep s) (rs_prep s') \<and> rs_pure_queue s' = rs_pure_queue s
    \<and> (\<forall>l. l \<noteq> 0 \<longrightarrow> lit_count s' l = lit_count s l + of_bool (l \<in> set ls)
         \<and> set (occ (rs_prep s') l) = set (occ (rs_prep s) l) \<union> (if l \<in> set ls then {c} else {}))"

lemma lits_added_step:
  assumes "m \<noteq> 0"
  shows "lits_added c [m] s (add_lit c m s)"
  using occ_frame_add [of "rs_prep s" c m] count_inc [OF _ assms] add_occur_occ [OF _ assms]
  by (simp add: lits_added_def add_lit_def)

lemma lits_added_trans:
  assumes "lits_added c [m] s t" and "lits_added c ls t u" and "m \<notin> set ls"
  shows "lits_added c (m # ls) s u"
proof -
  have "lit_count u l = lit_count s l + of_bool (l \<in> set (m # ls))" if "l \<noteq> 0" for l
    using assms that by (auto simp: lits_added_def)
  moreover have "set (occ (rs_prep u) l) = set (occ (rs_prep s) l) \<union> (if l \<in> set (m # ls) then {c} else {})"
    if "l \<noteq> 0" for l
    using assms that by (auto simp: lits_added_def)
  moreover have "occ_frame (rs_prep s) (rs_prep u)" "rs_pure_queue u = rs_pure_queue s"
    using assms by (auto simp: lits_added_def intro: occ_frame_trans)
  ultimately show ?thesis by (simp add: lits_added_def)
qed

lemma fold_add_lit:
  assumes "distinct ls" and "0 \<notin> set ls"
  shows "lits_added c ls s (fold (add_lit c) ls s)"
  using assms
proof (induction ls arbitrary: s)
  case Nil
  then show ?case by (simp add: lits_added_def occ_frame_refl)
next
  case (Cons m ls)
  have "lits_added c [m] s (add_lit c m s)" by (rule lits_added_step) (use Cons.prems in simp)
  moreover have "lits_added c ls (add_lit c m s) (fold (add_lit c) ls (add_lit c m s))" using Cons by simp
  ultimately have "lits_added c (m # ls) s (fold (add_lit c) ls (add_lit c m s))"
    by (rule lits_added_trans) (use Cons.prems in simp)
  then show ?case by simp
qed

lemma active_appended:
  assumes "length (pp_clause_delete p) = Suc (pp_clauses p)" and "pp_clauses p' = Suc (pp_clauses p)"
    and "pp_clause_delete p' = pp_clause_delete p @ [0]"
  shows "active_rows p' = active_rows p @ [Suc (pp_clauses p)]"
proof -
  have "filter (\<lambda>i. \<not> deleted p' i) [1..<Suc (pp_clauses p)] = active_rows p"
    unfolding active_rows_def by (rule filter_cong) (auto simp: assms nth_append)
  moreover have "\<not> deleted p' (Suc (pp_clauses p))" using assms by (simp add: nth_append)
  ultimately show ?thesis by (simp add: active_rows_def assms(2))
qed

lemma append_clause_ok:
  assumes inv: "rows_inv n s" and occ: "occ_inv n (rs_prep s)" and g: "good_row n (lits, deg)"
  shows "rows_inv n (append_clause lits deg s) \<and> occ_inv n (rs_prep (append_clause lits deg s))
    \<and> appended [(lits, deg)] (rs_prep s) (rs_prep (append_clause lits deg s))
    \<and> active_rows (rs_prep (append_clause lits deg s)) = active_rows (rs_prep s) @ [Suc (pp_clauses (rs_prep s))]"
proof -
  let ?p = "rs_prep s" and ?t = "append_clause lits deg s"
  define c where "c = Suc (pp_clauses ?p)"
  define s1 where "s1 = s\<lparr>rs_prep := ?p\<lparr>pp_clauses := c, pp_clause := pp_clause ?p @ [lits],
      pp_degree := pp_degree ?p @ [deg], pp_clause_delete := pp_clause_delete ?p @ [0]\<rparr>\<rparr>"
  have t: "?t = fold (add_lit c) lits s1"
    by (simp add: append_clause_def s1_def c_def Let_def add_lit_def [abs_def])
  note d = rows_invD [OF inv]
  have ls: "distinct lits" "0 \<notin> set lits" using g by (auto simp: good_row_def distinct_lits)
  note f = fold_add_lit [OF ls, of c s1, folded t]
  have p': "rs_prep ?t = (rs_prep s1)\<lparr>pp_occurp := pp_occurp (rs_prep ?t), pp_occurn := pp_occurn (rs_prep ?t)\<rparr>"
    using f by (simp add: lits_added_def occ_frame_def)
  have fl: "pp_clause (rs_prep ?t) = pp_clause ?p @ [lits]" "pp_degree (rs_prep ?t) = pp_degree ?p @ [deg]"
    "pp_clause_delete (rs_prep ?t) = pp_clause_delete ?p @ [0]" "pp_clauses (rs_prep ?t) = c" "pp_vars (rs_prep ?t) = pp_vars ?p"
    by (subst p', simp add: s1_def)+
  have act: "active_rows (rs_prep ?t) = active_rows ?p @ [c]"
    unfolding c_def by (rule active_appended) (use d fl in \<open>simp_all add: c_def\<close>)
  have ac: "i \<noteq> c" if "i \<in> set (active_rows ?p)" for i using that by (auto simp: active_mem c_def)
  have new: "pp_row (rs_prep ?t) c = lits" "pp_deg (rs_prep ?t) c = deg" unfolding fl c_def using d(2,3) by (simp_all add: nth_append)
  have old: "pp_row (rs_prep ?t) i = pp_row ?p i" "pp_deg (rs_prep ?t) i = pp_deg ?p i" if "i \<in> set (active_rows ?p)" for i
    using that d(2,3) unfolding fl by (auto simp: active_mem nth_append)
  have s1c: "lit_count s1 l = lit_count s l" "occ (rs_prep s1) l = occ ?p l" "rs_pure_queue s1 = rs_pure_queue s" for l
    by (simp_all add: s1_def occ_def)
  have cnt: "cnt (rs_prep ?t) l = cnt ?p l + of_bool (l \<in> set lits)" for l
  proof -
    have "filter (\<lambda>i. l \<in> set (pp_row (rs_prep ?t) i)) (active_rows ?p) = filter (\<lambda>i. l \<in> set (pp_row ?p i)) (active_rows ?p)"
      by (rule filter_cong) (simp_all add: old)
    then show ?thesis by (simp add: cnt_def act new)
  qed
  have "rows_inv n ?t"
  proof (rule rows_invI)
    show "good_row n (row_of (rs_prep ?t) i)" if "i \<in> set (active_rows (rs_prep ?t))" for i
      using that g d(5) [of i] old [of i] new unfolding act by auto
    show "lit_count ?t l = int (cnt (rs_prep ?t) l)" if "l \<noteq> 0" "lit_var l \<le> n" for l
      using f that d(6) [OF that] cnt [of l] s1c(1) [of l] by (simp add: of_bool_def lits_added_def)
    show "set (rs_pure_queue ?t) \<subseteq> {1..n}" using f d(7) s1c(3) by (simp add: lits_added_def)
  qed (use d fl in \<open>simp_all add: c_def\<close>)
  moreover have "occ_inv n (rs_prep ?t)"
    unfolding occ_inv_def
  proof (intro allI impI conjI ballI)
    fix l :: int assume l: "l \<noteq> 0" "lit_var l \<le> n"
    have o: "set (occ (rs_prep ?t) l) = set (occ ?p l) \<union> (if l \<in> set lits then {c} else {})"
      using f l(1) s1c(2) by (simp add: lits_added_def)
    have oi: "set (occ ?p l) \<subseteq> {1..pp_clauses ?p}" "\<And>i. i \<in> set (active_rows ?p) \<Longrightarrow> i \<in> set (occ ?p l) \<longleftrightarrow> l \<in> set (pp_row ?p i)"
      using occ l by (auto simp: occ_inv_def)
    have "set (occ ?p l) \<subseteq> {1..c}" "1 \<le> c" using oi(1) by (auto simp: c_def)
    then show "set (occ (rs_prep ?t) l) \<subseteq> {1..pp_clauses (rs_prep ?t)}" unfolding o fl(4) by simp
    fix i assume i: "i \<in> set (active_rows (rs_prep ?t))"
    show "i \<in> set (occ (rs_prep ?t) l) \<longleftrightarrow> l \<in> set (pp_row (rs_prep ?t) i)"
    proof (cases "i = c")
      case True
      then have "i \<notin> set (occ ?p l)" using oi(1) by (auto simp: c_def)
      then show ?thesis unfolding o True new(1) by simp
    next
      case False
      then have "i \<in> set (active_rows ?p)" using i unfolding act by simp
      then show ?thesis unfolding o using old(1) False oi(2) by simp
    qed
  qed
  moreover have "appended [(lits, deg)] ?p (rs_prep ?t)"
    unfolding appended_def by (subst p') (simp add: s1_def c_def)
  ultimately show ?thesis using act by (simp add: c_def)
qed

lemma appended_fields:
  assumes "appended gen p p'"
  shows "pp_clause p' = pp_clause p @ map fst gen" "pp_degree p' = pp_degree p @ map snd gen"
    "pp_clauses p' = pp_clauses p + length gen" "pp_vars p' = pp_vars p"
    "pp_mapfrom p' = pp_mapfrom p" "pp_mapto p' = pp_mapto p" "pp_mapval p' = pp_mapval p" "pp_orivars p' = pp_orivars p"
    "pp_resseen p' = pp_resseen p" "pp_clean p' = pp_clean p" "pp_resolution p' = pp_resolution p"
    "pp_res_clauses p' = pp_res_clauses p" "pp_res_clause p' = pp_res_clause p" "pp_res_degree p' = pp_res_degree p"
    "pp_res_owner p' = pp_res_owner p"
proof -
  have p': "p' = p\<lparr>pp_clauses := pp_clauses p + length gen, pp_clause := pp_clause p @ map fst gen,
       pp_degree := pp_degree p @ map snd gen, pp_clause_delete := pp_clause_delete p @ replicate (length gen) 0,
       pp_occurp := pp_occurp p', pp_occurn := pp_occurn p'\<rparr>" using assms by (simp add: appended_def)
  show "pp_clause p' = pp_clause p @ map fst gen" "pp_degree p' = pp_degree p @ map snd gen"
    "pp_clauses p' = pp_clauses p + length gen" "pp_vars p' = pp_vars p"
    "pp_mapfrom p' = pp_mapfrom p" "pp_mapto p' = pp_mapto p" "pp_mapval p' = pp_mapval p" "pp_orivars p' = pp_orivars p"
    "pp_resseen p' = pp_resseen p" "pp_clean p' = pp_clean p" "pp_resolution p' = pp_resolution p"
    "pp_res_clauses p' = pp_res_clauses p" "pp_res_clause p' = pp_res_clause p" "pp_res_degree p' = pp_res_degree p"
    "pp_res_owner p' = pp_res_owner p"
    by (subst p', simp)+
qed

lemma appended_refl: "appended [] p p"
  by (simp add: appended_def)

lemma appended_trans: "appended [x] p q \<Longrightarrow> appended gen q r \<Longrightarrow> appended (x # gen) p r"
  by (cases p; cases q; cases r; simp add: appended_def)

text \<open>The active rows with their degrees.\<close>

definition act_rows :: "preproc \<Rightarrow> (int list \<times> int) list" where
  "act_rows p = map (row_of p) (active_rows p)"

lemma append_act_rows:
  assumes "length (pp_clause p) = Suc (pp_clauses p)" "length (pp_degree p) = Suc (pp_clauses p)"
    and "appended [x] p q" and "active_rows q = active_rows p @ [Suc (pp_clauses p)]"
  shows "act_rows q = act_rows p @ [x]"
proof -
  note f = appended_fields [OF assms(3)]
  have "map (row_of q) (active_rows p) = act_rows p"
    unfolding act_rows_def by (rule map_cong) (use assms(1,2) in \<open>auto simp: active_mem f nth_append\<close>)
  moreover have "row_of q (Suc (pp_clauses p)) = x" using assms(1,2) by (simp add: f nth_append)
  ultimately show ?thesis by (simp add: act_rows_def assms(4))
qed

lemma fold_append_ok:
  assumes "rows_inv n s" and "occ_inv n (rs_prep s)" and "\<forall>x\<in>set gen. good_row n x"
  defines "t \<equiv> fold (\<lambda>(lits, deg). append_clause lits deg) gen s"
  shows "rows_inv n t \<and> occ_inv n (rs_prep t) \<and> appended gen (rs_prep s) (rs_prep t)
    \<and> act_rows (rs_prep t) = act_rows (rs_prep s) @ gen"
  using assms(1-3) unfolding t_def
proof (induction gen arbitrary: s)
  case Nil
  then show ?case by (simp add: appended_refl)
next
  case (Cons x gen)
  obtain lits deg where x: "x = (lits, deg)" by fastforce
  let ?u = "append_clause lits deg s"
  have g: "good_row n (lits, deg)" using Cons.prems(3) x by simp
  note a = append_clause_ok [OF Cons.prems(1,2) g]
  have u: "rows_inv n ?u" "occ_inv n (rs_prep ?u)" "appended [(lits, deg)] (rs_prep s) (rs_prep ?u)"
    "active_rows (rs_prep ?u) = active_rows (rs_prep s) @ [Suc (pp_clauses (rs_prep s))]" using a by blast+
  have r: "act_rows (rs_prep ?u) = act_rows (rs_prep s) @ [(lits, deg)]"
    by (rule append_act_rows [OF rows_invD(2,3) [OF Cons.prems(1)] u(3,4)])
  have "\<forall>x\<in>set gen. good_row n x" using Cons.prems(3) by simp
  from Cons.IH [OF u(1,2) this] show ?case using r appended_trans [OF u(3)] by (simp add: x)
qed

section \<open>Recovering eliminated variables\<close>

text \<open>The recovery of a variable on assignments: true if that satisfies the rows stored for it,
  otherwise false.\<close>

type_synonym row_group = "nat \<times> (int list \<times> int) list"

definition recover_step :: "row_group \<Rightarrow> (nat \<Rightarrow> bool) \<Rightarrow> nat \<Rightarrow> bool" where
  "recover_step g b = (if rows_sat (b(fst g := True)) (snd g) then b(fst g := True) else b(fst g := False))"

text \<open>The groups stand with the newest first.\<close>

fun recovers :: "row_group list \<Rightarrow> (nat \<Rightarrow> bool) \<Rightarrow> bool" where
  "recovers [] b = True"
| "recovers (g # gs) b = (rows_sat (recover_step g b) (snd g) \<and> recovers gs (recover_step g b))"

fun groups_wf :: "nat \<Rightarrow> row_group list \<Rightarrow> bool" where
  "groups_wf n [] = True"
| "groups_wf n (g # gs) = (snd g \<noteq> [] \<and> fst g \<in> {1..n} \<and> fst g \<notin> fst ` set gs
     \<and> (\<forall>r\<in>set (snd g). lits_in n (fst r) \<and> (\<forall>u\<in>fst ` set gs. u \<notin> lit_var ` set (fst r))) \<and> groups_wf n gs)"

text \<open>The arrays of stored rows that belong to the groups.\<close>

definition group_rows :: "row_group list \<Rightarrow> (int list \<times> int) list" where
  "group_rows rg = concat (map snd (rev rg))"

definition stores :: "preproc \<Rightarrow> row_group list \<Rightarrow> bool" where
  "stores p rg \<longleftrightarrow> pp_res_clauses p = length (group_rows rg)
     \<and> pp_res_clause p = [] # map (\<lambda>r. stored_row p (fst r)) (group_rows rg)
     \<and> pp_res_degree p = 0 # map snd (group_rows rg)
     \<and> pp_res_owner p = 0 # concat (map (\<lambda>g. replicate (length (snd g)) (pp_mapfrom p (fst g))) (rev rg))"

definition models :: "preproc \<Rightarrow> (nat \<Rightarrow> bool) \<Rightarrow> bool" where
  "models p a \<longleftrightarrow> rows_sat a (act_rows p)"

lemma models_iff: "models p a \<longleftrightarrow> (\<forall>i\<in>set (active_rows p). row_sat a (pp_row p i) (pp_deg p i))"
  by (auto simp: models_def rows_sat_def act_rows_def)

lemma row_sat_other:
  assumes "v \<notin> lit_var ` set c"
  shows "row_sat (a(v := b)) c d = row_sat a c d"
proof -
  have "lit_sat (a(v := b)) l = lit_sat a l" if "l \<in> set c" for l
  proof -
    have "lit_var l \<noteq> v" using assms that by blast
    then show ?thesis by (simp add: lit_sat_def)
  qed
  then show ?thesis unfolding row_sat_def using row_count_cong by metis
qed

definition elim_frame :: "preproc \<Rightarrow> preproc \<Rightarrow> bool" where
  "elim_frame p p' \<longleftrightarrow> pp_vars p' = pp_vars p \<and> pp_mapfrom p' = pp_mapfrom p \<and> pp_mapto p' = pp_mapto p
     \<and> pp_mapval p' = pp_mapval p \<and> pp_orivars p' = pp_orivars p \<and> pp_resseen p' = pp_resseen p
     \<and> pp_resolution p' = pp_resolution p"

definition elim_inv :: "nat \<Rightarrow> preproc \<Rightarrow> row_group list \<Rightarrow> nat list \<times> res_state \<Rightarrow> bool" where
  "elim_inv n p0 rg = (\<lambda>(elim, s). rows_inv n s \<and> occ_inv n (rs_prep s) \<and> elim_frame p0 (rs_prep s)
     \<and> elim = map fst (rev rg) \<and> groups_wf n rg \<and> stores (rs_prep s) rg
     \<and> (\<forall>v\<in>{1..n}. pp_clean (rs_prep s) v \<noteq> 0 \<longleftrightarrow> v \<in> set elim)
     \<and> set elim \<inter> used_vars (rs_prep s) = {}
     \<and> (\<forall>b. models (rs_prep s) b \<longrightarrow> recovers rg b \<and> models p0 (fold recover_step rg b))
     \<and> (\<forall>b. models p0 b \<longrightarrow> models (rs_prep s) b))"

end
