(* ===== verification/Prep_Res_Elim.thy ===== *)
theory Prep_Res_Elim
  imports Prep_Res_Inv
begin

text \<open>
  One elimination of a variable keeps the invariant of the elimination, and so does the loop over
  the variables; a conflict refutes the rows.
\<close>

section \<open>The parts of the invariant\<close>

lemma elim_invD:
  assumes "elim_inv n p0 rg (elim, s)"
  shows "rows_inv n s" "occ_inv n (rs_prep s)" "elim_frame p0 (rs_prep s)" "elim = map fst (rev rg)" "groups_wf n rg"
    "stores (rs_prep s) rg" "\<And>v. v \<in> {1..n} \<Longrightarrow> pp_clean (rs_prep s) v \<noteq> 0 \<longleftrightarrow> v \<in> set elim"
    "set elim \<inter> used_vars (rs_prep s) = {}"
    "\<And>b. models (rs_prep s) b \<Longrightarrow> recovers rg b \<and> models p0 (fold recover_step rg b)"
    "\<And>b. models p0 b \<Longrightarrow> models (rs_prep s) b"
  using assms unfolding elim_inv_def prod.case by blast+

lemma elim_invI:
  assumes "rows_inv n s" "occ_inv n (rs_prep s)" "elim_frame p0 (rs_prep s)" "elim = map fst (rev rg)" "groups_wf n rg"
    "stores (rs_prep s) rg" "\<And>v. v \<in> {1..n} \<Longrightarrow> pp_clean (rs_prep s) v \<noteq> 0 \<longleftrightarrow> v \<in> set elim"
    "set elim \<inter> used_vars (rs_prep s) = {}"
    "\<And>b. models (rs_prep s) b \<Longrightarrow> recovers rg b \<and> models p0 (fold recover_step rg b)"
    "\<And>b. models p0 b \<Longrightarrow> models (rs_prep s) b"
  shows "elim_inv n p0 rg (elim, s)"
  using assms unfolding elim_inv_def prod.case by blast

lemma occ_invD:
  assumes "occ_inv n p" and "l \<noteq> 0" and "lit_var l \<le> n"
  shows "set (occ p l) \<subseteq> {1..pp_clauses p}"
    and "i \<in> set (active_rows p) \<Longrightarrow> i \<in> set (occ p l) \<longleftrightarrow> l \<in> set (pp_row p i)"
  using assms by (auto simp: occ_inv_def)

lemma retired_occ:
  assumes "occ_inv n p" and "retired v ids p p'"
  shows "occ_inv n p'"
proof -
  note f = retired_fields [OF assms(2)]
  have o: "occ p' l = occ p l" for l by (simp add: occ_def f)
  have a: "set (active_rows p') \<subseteq> set (active_rows p)" using assms(2) by (auto simp: retired_def)
  show ?thesis using assms(1) a unfolding occ_inv_def o f by blast
qed

section \<open>The candidates of a variable\<close>

definition active_occ :: "preproc \<Rightarrow> int \<Rightarrow> nat list" where
  "active_occ p l = filter (\<lambda>i. \<not> deleted p i) (occ p l)"

lemma active_occ_mem:
  assumes "occ_inv n p" and "l \<noteq> 0" and "lit_var l \<le> n"
  shows "i \<in> set (active_occ p l) \<longleftrightarrow> i \<in> set (active_rows p) \<and> l \<in> set (pp_row p i)"
proof -
  have "i \<in> set (active_occ p l) \<longleftrightarrow> i \<in> set (active_rows p) \<and> i \<in> set (occ p l)"
    using occ_invD(1) [OF assms] by (auto simp: active_occ_def active_mem)
  then show ?thesis using occ_invD(2) [OF assms] by blast
qed

lemma active_occ_ne:
  assumes "rows_inv n s" and "occ_inv n (rs_prep s)" and "l \<noteq> 0" and "lit_var l \<le> n" and "lit_count s l \<noteq> 0"
  shows "active_occ (rs_prep s) l \<noteq> []"
proof -
  have "cnt (rs_prep s) l \<noteq> 0" using rows_invD(6) [OF assms(1,3,4)] assms(5) by simp
  then have "filter (\<lambda>i. l \<in> set (pp_row (rs_prep s) i)) (active_rows (rs_prep s)) \<noteq> []" by (auto simp: cnt_def)
  then obtain i where "i \<in> set (active_rows (rs_prep s))" "l \<in> set (pp_row (rs_prep s) i)" by (auto simp: filter_empty_conv)
  then have "i \<in> set (active_occ (rs_prep s) l)" using active_occ_mem [OF assms(2-4)] by simp
  then show ?thesis by auto
qed

text \<open>The parents of \<open>v\<close> in an invariant state.\<close>

lemma parents_of:
  assumes inv: "rows_inv n s" and occ: "occ_inv n (rs_prep s)" and v: "v \<in> {1..n}"
    and seen: "\<forall>u\<in>{1..n}. pp_resseen (rs_prep s) u = 0"
  shows "parents n v (rs_prep s) (active_occ (rs_prep s) (int v)) (active_occ (rs_prep s) (- int v))"
proof -
  have l: "int v \<noteq> 0" "- int v \<noteq> 0" "lit_var (int v) \<le> n" "lit_var (- int v) \<le> n" using v by (simp_all add: lit_var_def)
  note m = active_occ_mem [OF occ l(1,3)] active_occ_mem [OF occ l(2,4)]
  show ?thesis using v seen rows_invD(5) [OF inv] by (simp add: parents_def m)
qed

text \<open>After the parents have been replaced the variable occurs no more.\<close>

definition swapped :: "nat \<Rightarrow> preproc \<Rightarrow> (int list \<times> int) list \<Rightarrow> preproc \<Rightarrow> bool" where
  "swapped v p gen p' \<longleftrightarrow>
     act_rows p' = map (row_of p) (filter (\<lambda>i. v \<notin> lit_var ` set (pp_row p i)) (active_rows p)) @ gen"

lemma var_of_lit: "v \<in> lit_var ` set ls \<longleftrightarrow> int v \<in> set ls \<or> - int v \<in> set ls"
proof
  assume "v \<in> lit_var ` set ls"
  then obtain l where "l \<in> set ls" "v = lit_var l" by auto
  then show "int v \<in> set ls \<or> - int v \<in> set ls" by (auto simp: lit_var_def abs_if)
next
  assume "int v \<in> set ls \<or> - int v \<in> set ls"
  moreover have "lit_var (int v) = v" "lit_var (- int v) = v" by (simp_all add: lit_var_def)
  ultimately show "v \<in> lit_var ` set ls" by (metis imageI)
qed

lemma swapped_models:
  assumes "swapped v p gen p'"
  shows "models p' b \<longleftrightarrow> (\<forall>i\<in>set (active_rows p). v \<notin> lit_var ` set (pp_row p i) \<longrightarrow> row_sat b (pp_row p i) (pp_deg p i))
    \<and> rows_sat b gen"
  using assms unfolding models_def swapped_def by (auto simp: rows_sat_def)

lemma used_act: "used_vars p = (\<Union>r\<in>set (act_rows p). lit_var ` set (fst r))"
  by (simp add: used_vars_def act_rows_def)

section \<open>One elimination\<close>

definition replace_parents :: "nat \<Rightarrow> (int list \<times> int) list \<Rightarrow> res_state \<Rightarrow> res_state" where
  "replace_parents v gen s =
     (let pos = active_occ (rs_prep s) (int v); neg = active_occ (rs_prep s) (- int v)
      in fold (\<lambda>(lits, deg). append_clause lits deg) gen (fold (retire_clause v) neg (fold (retire_clause v) pos s)))"

lemma replace_parents_ok:
  assumes inv: "rows_inv n s" and occ: "occ_inv n (rs_prep s)" and v: "v \<in> {1..n}" and gen: "\<forall>x\<in>set gen. good_row n x"
  defines "p \<equiv> rs_prep s" and "t \<equiv> replace_parents v gen s"
  defines "ids \<equiv> active_occ p (int v) @ active_occ p (- int v)"
  shows "rows_inv n t" and "occ_inv n (rs_prep t)" and "swapped v p gen (rs_prep t)"
    and "\<exists>q. retired v ids p q \<and> appended gen q (rs_prep t)"
proof -
  define s1 where "s1 = fold (retire_clause v) (active_occ p (int v)) s"
  define s2 where "s2 = fold (retire_clause v) (active_occ p (- int v)) s1"
  have s2: "s2 = fold (retire_clause v) ids s" by (simp add: s2_def s1_def ids_def)
  have l: "int v \<noteq> 0" "- int v \<noteq> 0" "lit_var (int v) \<le> n" "lit_var (- int v) \<le> n" using v by (simp_all add: lit_var_def)
  note m = active_occ_mem [OF occ l(1,3), folded p_def] active_occ_mem [OF occ l(2,4), folded p_def]
  have ids: "set ids \<subseteq> {1..pp_clauses p}" using m by (auto simp: ids_def active_mem)
  note r = fold_retire_ok [OF inv, of ids v, folded p_def s2, OF ids]
  have ret: "retired v ids p (rs_prep s2)" and inv2: "rows_inv n s2" using r by blast+
  have occ2: "occ_inv n (rs_prep s2)" by (rule retired_occ [OF _ ret]) (use occ p_def in simp)
  have t: "t = fold (\<lambda>(lits, deg). append_clause lits deg) gen s2"
    by (simp add: t_def replace_parents_def s2_def s1_def p_def Let_def)
  note a = fold_append_ok [OF inv2 occ2 gen, folded t]
  show "rows_inv n t" "occ_inv n (rs_prep t)" "\<exists>q. retired v ids p q \<and> appended gen q (rs_prep t)" using a ret by blast+
  have act: "active_rows (rs_prep s2) = filter (\<lambda>i. i \<notin> set ids) (active_rows p)" using ret by (simp add: retired_def)
  also have "\<dots> = filter (\<lambda>i. v \<notin> lit_var ` set (pp_row p i)) (active_rows p)"
    by (rule filter_cong) (auto simp: ids_def m var_of_lit)
  finally have "act_rows (rs_prep s2) = map (row_of p) (filter (\<lambda>i. v \<notin> lit_var ` set (pp_row p i)) (active_rows p))"
    by (simp add: act_rows_def retired_fields(1,2) [OF ret])
  then show "swapped v p gen (rs_prep t)" using a by (simp add: swapped_def)
qed

lemma stored_frame: "pp_mapfrom q = pp_mapfrom p \<Longrightarrow> stored_row q = stored_row p"
  by (simp add: stored_row_def fun_eq_iff)

lemma group_rows_Cons: "group_rows (g # rg) = group_rows rg @ snd g"
  by (simp add: group_rows_def)

lemma stores_retired:
  assumes "stores p rg" and "retired v ids p q" and "appended gen q r"
  shows "stores r ((v, map (row_of p) ids) # rg)"
proof -
  note f = retired_fields [OF assms(2)] and g = appended_fields [OF assms(3)]
  have m: "pp_mapfrom r = pp_mapfrom p" by (simp add: f g)
  note s = assms(1) [unfolded stores_def]
  show ?thesis
    unfolding stores_def group_rows_Cons stored_frame [OF m] m
    using s by (simp add: f g comp_def)
qed

lemma clean_frame [simp]:
  "active_rows (p\<lparr>pp_clean := c\<rparr>) = active_rows p" "cnt (p\<lparr>pp_clean := c\<rparr>) l = cnt p l"
  "occ (p\<lparr>pp_clean := c\<rparr>) l = occ p l" "act_rows (p\<lparr>pp_clean := c\<rparr>) = act_rows p"
  "models (p\<lparr>pp_clean := c\<rparr>) = models p" "used_vars (p\<lparr>pp_clean := c\<rparr>) = used_vars p"
  "stores (p\<lparr>pp_clean := c\<rparr>) rg = stores p rg" "elim_frame p0 (p\<lparr>pp_clean := c\<rparr>) = elim_frame p0 p"
  by (simp_all add: active_rows_def cnt_def occ_def act_rows_def models_def used_vars_def stores_def elim_frame_def
      fun_eq_iff stored_row_def)

lemma clean_inv:
  "rows_inv n (s\<lparr>rs_prep := (rs_prep s)\<lparr>pp_clean := c\<rparr>\<rparr>) = rows_inv n s" "occ_inv n (p\<lparr>pp_clean := c\<rparr>) = occ_inv n p"
  by (simp_all add: rows_inv_def occ_inv_def)

lemma eliminate_var_alt:
  "eliminate_var v (elim, s) =
     (let p = rs_prep s; pos = active_occ p (int v); neg = active_occ p (- int v);
          pc = lit_count s (int v); nc = lit_count s (- int v)
      in if pc = 0 \<or> nc = 0 \<or> pc * nc > pc + nc \<or> \<not> residuals_implied p pos neg then Some (elim, s)
         else case resolve_pos v p pos neg [] of
           None \<Rightarrow> None
         | Some (can, gen) \<Rightarrow>
             if \<not> can then Some (elim, s)
             else let t = replace_parents v gen s
                  in Some (elim @ [v], t\<lparr>rs_prep := (rs_prep t)\<lparr>pp_clean := (pp_clean (rs_prep t))(v := 1)\<rparr>\<rparr>))"
  if "0 < v"
proof -
  have l: "lit_var (int v) = v" "lit_var (- int v) = v" "int v > 0" "\<not> - int v > 0" using that by (simp_all add: lit_var_def)
  have o: "active_occ p (int v) = filter (\<lambda>i. \<not> deleted p i) (pp_occurp p v)"
    "active_occ p (- int v) = filter (\<lambda>i. \<not> deleted p i) (pp_occurn p v)" for p
    using l by (simp_all add: active_occ_def occ_def)
  have c: "lit_count s (int v) = rs_pos_count s v" "lit_count s (- int v) = rs_neg_count s v"
    using l by (simp_all add: lit_count_def)
  show ?thesis
    unfolding eliminate_var_def Let_def prod.case replace_parents_def o c
    by (simp split: option.split)
qed

lemma row_group_sat:
  assumes "\<forall>i\<in>set ids. row_sat a (pp_row p i) (pp_deg p i)"
  shows "rows_sat a (map (row_of p) ids)"
  using assms by (auto simp: rows_sat_def)

text \<open>The models after the exchange, and the recovery of \<open>v\<close>.\<close>

lemma recover_exchanged:
  assumes par: "parents n v p pos neg" and res: "residuals_implied p pos neg" and ne: "pos \<noteq> []" "neg \<noteq> []"
    and cov: "\<forall>i\<in>set pos. \<forall>j\<in>set neg. covered v gen (row_of p i) (row_of p j)"
    and rows: "\<And>i. i \<in> set pos \<union> set neg \<longleftrightarrow> i \<in> set (active_rows p) \<and> v \<in> lit_var ` set (pp_row p i)"
    and sw: "swapped v p gen q" and b: "models q b"
  defines "g \<equiv> (v, map (row_of p) (pos @ neg))"
  shows "rows_sat (recover_step g b) (snd g)" and "models p (recover_step g b)"
proof -
  have other: "\<forall>i\<in>set (active_rows p). v \<notin> lit_var ` set (pp_row p i) \<longrightarrow> row_sat b (pp_row p i) (pp_deg p i)" and gen: "rows_sat b gen"
    using b swapped_models [OF sw] by auto
  have group: "rows_sat a (snd g) \<longleftrightarrow> (\<forall>i\<in>set pos \<union> set neg. row_sat a (pp_row p i) (pp_deg p i))" for a
    by (auto simp: g_def rows_sat_def)
  have "rows_sat (b(v := True)) (snd g) \<or> rows_sat (b(v := False)) (snd g)"
    unfolding group by (rule exchange [OF par res cov gen ne])
  moreover have fg: "fst g = v" by (simp add: g_def)
  ultimately show sat: "rows_sat (recover_step g b) (snd g)" unfolding recover_step_def fg by presburger
  obtain w where w: "recover_step g b = b(v := w)" unfolding recover_step_def fg by metis
  show "models p (recover_step g b)"
    unfolding models_iff
  proof
    fix i assume i: "i \<in> set (active_rows p)"
    show "row_sat (recover_step g b) (pp_row p i) (pp_deg p i)"
    proof (cases "v \<in> lit_var ` set (pp_row p i)")
      case True
      then show ?thesis using sat rows i unfolding group by blast
    next
      case False
      then show ?thesis using other i unfolding w row_sat_other [OF False] by blast
    qed
  qed
qed

lemma elim_frame_trans:
  assumes "elim_frame p0 p" and "retired v ids p q" and "appended gen q r"
  shows "elim_frame p0 r"
  using assms(1) by (simp add: elim_frame_def retired_fields [OF assms(2)] appended_fields [OF assms(3)])

lemma gen_models:
  assumes "\<forall>x\<in>set gen. gen_row_ok n v (row_of p ` S) x" and "S \<subseteq> set (active_rows p)" and "models p b"
  shows "rows_sat b gen"
proof -
  have "\<forall>r\<in>row_of p ` S. row_sat b (fst r) (snd r)" using assms(2,3) by (auto simp: models_iff)
  then have "row_sat b (fst x) (snd x)" if "x \<in> set gen" for x using assms(1) that by (auto simp: gen_row_ok_def)
  then show ?thesis by (auto simp: rows_sat_def)
qed

lemma swapped_used:
  assumes "swapped v p gen q" and "\<forall>x\<in>set gen. gen_row_ok n v (row_of p ` S) x" and "S \<subseteq> set (active_rows p)"
  shows "v \<notin> used_vars q" and "used_vars q \<subseteq> used_vars p"
proof -
  have g: "lit_var ` set (fst x) \<subseteq> used_vars p" "v \<notin> lit_var ` set (fst x)" if "x \<in> set gen" for x
  proof -
    have x: "gen_row_ok n v (row_of p ` S) x" using assms(2) that by blast
    then show "v \<notin> lit_var ` set (fst x)" by (simp add: gen_row_ok_def)
    have "lit_var ` set (fst x) \<subseteq> (\<Union>i\<in>S. lit_var ` set (pp_row p i))" using x by (simp add: gen_row_ok_def)
    then show "lit_var ` set (fst x) \<subseteq> used_vars p" using assms(3) unfolding used_vars_def by blast
  qed
  have u: "used_vars q = (\<Union>i\<in>{i \<in> set (active_rows p). v \<notin> lit_var ` set (pp_row p i)}. lit_var ` set (pp_row p i))
      \<union> (\<Union>x\<in>set gen. lit_var ` set (fst x))"
    unfolding used_act assms(1) [unfolded swapped_def] by auto
  show "v \<notin> used_vars q" unfolding u using g(2) by blast
  show "used_vars q \<subseteq> used_vars p" unfolding u using g(1) unfolding used_vars_def by blast
qed

end
