(* ===== verification/Prep_Res_Loop.thy ===== *)
theory Prep_Res_Loop
  imports Prep_Res_Elim
begin

text \<open>The loop over the variables keeps the invariant of the elimination.\<close>

lemma elim_extend:
  assumes inv: "elim_inv n p0 rg (elim, s)" and v: "v \<in> {1..n}" "v \<notin> set elim"
    and par: "parents n v (rs_prep s) pos neg" and res: "residuals_implied (rs_prep s) pos neg"
    and ids: "pos = active_occ (rs_prep s) (int v)" "neg = active_occ (rs_prep s) (- int v)" and ne: "pos \<noteq> []" "neg \<noteq> []"
    and gen: "\<forall>x\<in>set gen. gen_row_ok n v (row_of (rs_prep s) ` (set pos \<union> set neg)) x"
    and cov: "\<forall>i\<in>set pos. \<forall>j\<in>set neg. covered v gen (row_of (rs_prep s) i) (row_of (rs_prep s) j)"
  defines "t \<equiv> replace_parents v gen s"
  shows "elim_inv n p0 ((v, map (row_of (rs_prep s)) (pos @ neg)) # rg)
    (elim @ [v], t\<lparr>rs_prep := (rs_prep t)\<lparr>pp_clean := (pp_clean (rs_prep t))(v := 1)\<rparr>\<rparr>)"
proof -
  define p where "p = rs_prep s"
  define g where "g = (v, map (row_of p) (pos @ neg))"
  note d = elim_invD [OF inv, folded p_def]
  have good: "\<forall>x\<in>set gen. good_row n x" using gen by (simp add: gen_row_ok_def)
  note r = replace_parents_ok [OF d(1) elim_invD(2) [OF inv] v(1) good, folded t_def p_def ids [folded p_def]]
  obtain q where q: "retired v (pos @ neg) p q" "appended gen q (rs_prep t)"
    using r(4) ids unfolding p_def by auto
  have l: "int v \<noteq> 0" "- int v \<noteq> 0" "lit_var (int v) \<le> n" "lit_var (- int v) \<le> n" using v by (simp_all add: lit_var_def)
  have rows: "i \<in> set pos \<union> set neg \<longleftrightarrow> i \<in> set (active_rows p) \<and> v \<in> lit_var ` set (pp_row p i)" for i
    unfolding ids p_def var_of_lit Un_iff using active_occ_mem [OF elim_invD(2) [OF inv] l(1,3)] active_occ_mem [OF elim_invD(2) [OF inv] l(2,4)] by blast
  then have sub: "set pos \<union> set neg \<subseteq> set (active_rows p)" by blast
  note rec = recover_exchanged [OF par res ne cov rows [unfolded p_def] r(3) [unfolded p_def], folded p_def, folded g_def]
  note used = swapped_used [OF r(3) gen [folded p_def] sub]
  have v_in: "v \<notin> fst ` set rg" using v(2) d(4) by simp
  have elim_rg: "fst ` set rg = set elim" using d(4) by simp
  have group: "lits_in n (pp_row p i) \<and> (\<forall>u\<in>set elim. u \<notin> lit_var ` set (pp_row p i))" if "i \<in> set pos \<union> set neg" for i
  proof -
    have a: "i \<in> set (active_rows p)" using rows that by blast
    have "good_row n (row_of p i)" using rows_invD(5) [OF d(1)] a by (simp add: p_def)
    moreover have "lit_var ` set (pp_row p i) \<subseteq> used_vars p" using a unfolding used_vars_def by blast
    ultimately show ?thesis using d(8) by (auto simp: good_row_def lits_in_def)
  qed
  have wf: "groups_wf n (g # rg)"
  proof -
    have f: "fst g = v" "snd g = map (row_of p) (pos @ neg)" by (simp_all add: g_def)
    have "snd g \<noteq> []" using ne f by simp
    moreover have "\<forall>r\<in>set (snd g). lits_in n (fst r) \<and> (\<forall>u\<in>fst ` set rg. u \<notin> lit_var ` set (fst r))"
      unfolding f elim_rg using group by fastforce
    ultimately show ?thesis unfolding groups_wf.simps f using v(1) v_in d(5) by blast
  qed
  have m: "models (rs_prep t) b \<Longrightarrow> recovers (g # rg) b \<and> models p0 (fold recover_step (g # rg) b)" for b
    using rec [of b] d(9) [of "recover_step g b"] by simp
  have m': "models (rs_prep t) b" if "models p0 b" for b
  proof -
    have pb: "models p b" using d(10) that by simp
    then show ?thesis
      unfolding swapped_models [OF r(3)] using gen_models [OF gen [folded p_def] sub pb] by (simp add: models_iff)
  qed
  have cl: "pp_clean (rs_prep t) = pp_clean p" using retired_fields(10) [OF q(1)] appended_fields(10) [OF q(2)] by simp
  show ?thesis
    unfolding p_def [symmetric] g_def [symmetric]
  proof (rule elim_invI)
    show "elim @ [v] = map fst (rev (g # rg))" using d(4) by (simp add: g_def)
    show "rows_inv n (t\<lparr>rs_prep := (rs_prep t)\<lparr>pp_clean := (pp_clean (rs_prep t))(v := 1)\<rparr>\<rparr>)"
      unfolding clean_inv by (rule r(1))
    show "groups_wf n (g # rg)" by (rule wf)
    show "pp_clean (rs_prep (t\<lparr>rs_prep := (rs_prep t)\<lparr>pp_clean := (pp_clean (rs_prep t))(v := 1)\<rparr>\<rparr>)) u \<noteq> 0
        \<longleftrightarrow> u \<in> set (elim @ [v])" if "u \<in> {1..n}" for u
      using d(7) [OF that] by (simp add: cl)
    show "recovers (g # rg) b \<and> models p0 (fold recover_step (g # rg) b)"
      if "models (rs_prep (t\<lparr>rs_prep := (rs_prep t)\<lparr>pp_clean := (pp_clean (rs_prep t))(v := 1)\<rparr>\<rparr>)) b" for b
      by (rule m) (use that in simp)
    show "stores (rs_prep (t\<lparr>rs_prep := (rs_prep t)\<lparr>pp_clean := (pp_clean (rs_prep t))(v := 1)\<rparr>\<rparr>)) (g # rg)"
      using stores_retired [OF d(6) q] by (simp add: g_def)
    show "set (elim @ [v]) \<inter> used_vars (rs_prep (t\<lparr>rs_prep := (rs_prep t)\<lparr>pp_clean := (pp_clean (rs_prep t))(v := 1)\<rparr>\<rparr>)) = {}"
      using used d(8) by auto
    show "occ_inv n (rs_prep (t\<lparr>rs_prep := (rs_prep t)\<lparr>pp_clean := (pp_clean (rs_prep t))(v := 1)\<rparr>\<rparr>))"
      using r(2) by (simp add: clean_inv)
    show "elim_frame p0 (rs_prep (t\<lparr>rs_prep := (rs_prep t)\<lparr>pp_clean := (pp_clean (rs_prep t))(v := 1)\<rparr>\<rparr>))"
      using elim_frame_trans [OF d(3) q] by simp
  qed (simp add: m')
qed

text \<open>The states of the loop that have handled the variables below \<open>k\<close>; without a state the rows
  have no model.\<close>

definition elim_state :: "nat \<Rightarrow> preproc \<Rightarrow> nat \<Rightarrow> (nat list \<times> res_state) option \<Rightarrow> bool" where
  "elim_state n p0 k r = (case r of None \<Rightarrow> \<forall>b. \<not> models p0 b
     | Some x \<Rightarrow> \<exists>rg. elim_inv n p0 rg x \<and> set (fst x) \<subseteq> {1..k})"

lemma eliminate_step:
  assumes inv: "elim_inv n p0 rg (elim, s)" and v: "v \<in> {1..n}" "set elim \<subseteq> {1..<v}"
    and seen: "\<forall>u\<in>{1..n}. pp_resseen p0 u = 0"
  shows "elim_state n p0 v (eliminate_var v (elim, s))"
proof -
  define p where "p = rs_prep s"
  define pos where "pos = active_occ p (int v)"
  define neg where "neg = active_occ p (- int v)"
  let ?R = "row_of p ` (set pos \<union> set neg)"
  note d = elim_invD [OF inv, folded p_def]
  have l: "int v \<noteq> 0" "- int v \<noteq> 0" "lit_var (int v) \<le> n" "lit_var (- int v) \<le> n" "0 < v" using v by (simp_all add: lit_var_def)
  have vn: "v \<notin> set elim" using v(2) by auto
  have keep: "elim_state n p0 v (Some (elim, s))" using inv v unfolding elim_state_def option.case by fastforce
  have seen': "\<forall>u\<in>{1..n}. pp_resseen p u = 0" using seen d(3) by (simp add: elim_frame_def)
  have par: "parents n v p pos neg"
    unfolding pos_def neg_def p_def by (rule parents_of [OF d(1) elim_invD(2) [OF inv] v(1)]) (use seen' p_def in simp)
  have sub: "set pos \<union> set neg \<subseteq> set (active_rows p)"
    unfolding pos_def neg_def using active_occ_mem [OF d(2) l(1,3)] active_occ_mem [OF d(2) l(2,4)] by blast
  note post = resolve_pos_ok [OF par subset_refl, of "[]", simplified]
  note alt = eliminate_var_alt [OF l(5), of elim s, unfolded Let_def, folded p_def, folded pos_def neg_def]
  show ?thesis
  proof (cases "lit_count s (int v) = 0 \<or> lit_count s (- int v) = 0
      \<or> lit_count s (int v) * lit_count s (- int v) > lit_count s (int v) + lit_count s (- int v) \<or> \<not> residuals_implied p pos neg")
    case True
    then show ?thesis unfolding alt using keep by simp
  next
    case False
    then have c: "lit_count s (int v) \<noteq> 0" "lit_count s (- int v) \<noteq> 0" and res: "residuals_implied p pos neg" by blast+
    have ne: "pos \<noteq> []" "neg \<noteq> []"
      unfolding pos_def neg_def p_def
      using active_occ_ne [OF d(1) elim_invD(2) [OF inv]] l c by blast+
    show ?thesis
    proof (cases "resolve_pos v p pos neg []")
      case None
      then have e: "eliminate_var v (elim, s) = None" unfolding alt using False by simp
      have "\<not> models p0 b" for b
      proof
        assume "models p0 b"
        then have "models p b" by (rule d(10))
        then have "\<forall>r\<in>?R. row_sat b (fst r) (snd r)" using sub by (auto simp: models_iff)
        then show False using post unfolding None pairs_post_def by fastforce
      qed
      then show ?thesis by (simp add: e elim_state_def)
    next
      case (Some r)
      obtain can gen where r: "r = (can, gen)" by fastforce
      show ?thesis
      proof (cases can)
        case False
        then have "eliminate_var v (elim, s) = Some (elim, s)" unfolding alt Some r by simp
        then show ?thesis using keep by simp
      next
        case True
        have gen: "\<forall>x\<in>set gen. gen_row_ok n v ?R x"
          and cov: "\<forall>i\<in>set pos. \<forall>j\<in>set neg. covered v gen (row_of p i) (row_of p j)"
          using post True unfolding Some r pairs_post_def by auto
        let ?t = "replace_parents v gen s"
        have e: "eliminate_var v (elim, s) = Some (elim @ [v], ?t\<lparr>rs_prep := (rs_prep ?t)\<lparr>pp_clean := (pp_clean (rs_prep ?t))(v := 1)\<rparr>\<rparr>)"
          unfolding alt Some r using False True by simp
        note x = elim_extend [OF inv v(1) vn par [unfolded p_def] res [unfolded p_def] pos_def [unfolded p_def] neg_def [unfolded p_def] ne
            gen [unfolded p_def] cov [unfolded p_def]]
        have "set (elim @ [v]) \<subseteq> {1..v}" using v by auto
        then show ?thesis unfolding e elim_state_def option.case fst_conv using x by blast
      qed
    qed
  qed
qed

lemma eliminate_loop:
  assumes "elim_inv n p0 [] ([], s)" and seen: "\<forall>u\<in>{1..n}. pp_resseen p0 u = 0" and "k \<le> n"
  shows "elim_state n p0 k (ofold eliminate_var [1..<Suc k] ([], s))"
  using assms(3)
proof (induction k)
  case 0
  then show ?case using assms(1) by (auto simp: elim_state_def)
next
  case (Suc k)
  have up: "[1..<Suc (Suc k)] = [1..<Suc k] @ [Suc k]" by simp
  have ih: "elim_state n p0 k (ofold eliminate_var [1..<Suc k] ([], s))" using Suc by simp
  show ?case
  proof (cases "ofold eliminate_var [1..<Suc k] ([], s)")
    case None
    then show ?thesis using ih unfolding up ofold_append None by (simp add: elim_state_def)
  next
    case (Some x)
    obtain elim t where x: "x = (elim, t)" by fastforce
    obtain rg where rg: "elim_inv n p0 rg (elim, t)" "set elim \<subseteq> {1..k}"
      using ih unfolding Some x elim_state_def option.case by auto
    have "elim_state n p0 (Suc k) (eliminate_var (Suc k) (elim, t))"
      by (rule eliminate_step [OF rg(1) _ _ seen]) (use Suc.prems rg(2) in auto)
    then show ?thesis unfolding up ofold_append Some option.case x by (cases "eliminate_var (Suc k) (elim, t)") simp_all
  qed
qed

end
