(* ===== verification/Prep_Res_Start.thy ===== *)
theory Prep_Res_Start
  imports Prep_Res_Loop Ls_Instance
begin

text \<open>The set-up of \<open>preprocess_resolution\<close> establishes the invariant of the elimination.\<close>

definition res_input_ok :: "preproc \<Rightarrow> bool" where
  "res_input_ok p \<longleftrightarrow> rows_ok p \<and> length (pp_clause p) = Suc (pp_clauses p) \<and> length (pp_degree p) = Suc (pp_clauses p)
     \<and> Suc (pp_clauses p) \<le> length (pp_clause_delete p)"

lemma res_input_good: "res_input_ok p \<Longrightarrow> i \<in> {1..pp_clauses p} \<Longrightarrow> good_row (pp_vars p) (row_of p i)"
  by (auto simp: res_input_ok_def rows_ok_def good_row_def)

section \<open>Resetting the variables\<close>

definition vars_reset :: "preproc \<Rightarrow> preproc \<Rightarrow> bool" where
  "vars_reset p q \<longleftrightarrow> q = p\<lparr>pp_occurn := pp_occurn q, pp_occurp := pp_occurp q, pp_resseen := pp_resseen q,
     pp_clean := pp_clean q, pp_seen := pp_seen q\<rparr>"

lemma vars_reset_trans: "vars_reset p q \<Longrightarrow> vars_reset q r \<Longrightarrow> vars_reset p r"
  by (cases p; cases q; cases r; simp add: vars_reset_def)

lemma res_reset_step:
  "vars_reset q (res_reset_var x q)" "pp_occurn (res_reset_var x q) v = (if v = x then [] else pp_occurn q v)"
  "pp_occurp (res_reset_var x q) v = (if v = x then [] else pp_occurp q v)"
  "pp_resseen (res_reset_var x q) v = (if v = x then 0 else pp_resseen q v)"
  "pp_clean (res_reset_var x q) v = (if v = x then 0 else pp_clean q v)"
  by (simp_all add: res_reset_var_def vars_reset_def)

lemma fold_res_reset:
  "vars_reset p (fold res_reset_var xs p) \<and> (\<forall>v\<in>set xs. pp_occurn (fold res_reset_var xs p) v = []
    \<and> pp_occurp (fold res_reset_var xs p) v = [] \<and> pp_resseen (fold res_reset_var xs p) v = 0
    \<and> pp_clean (fold res_reset_var xs p) v = 0)"
proof (induction xs rule: rev_induct)
  case Nil
  then show ?case by (simp add: vars_reset_def)
next
  case (snoc x xs)
  let ?q = "fold res_reset_var xs p"
  note st = res_reset_step [where q = ?q and x = x]
  have "vars_reset p (res_reset_var x ?q)" using snoc st(1) vars_reset_trans by blast
  then show ?case using snoc st(2-5) by simp
qed

lemma vars_reset_fields:
  assumes "vars_reset p q"
  shows "pp_clause q = pp_clause p" "pp_degree q = pp_degree p" "pp_clauses q = pp_clauses p" "pp_vars q = pp_vars p"
    "pp_mapfrom q = pp_mapfrom p" "pp_mapto q = pp_mapto p" "pp_mapval q = pp_mapval p" "pp_orivars q = pp_orivars p"
    "pp_clause_delete q = pp_clause_delete p"
proof -
  have q: "q = p\<lparr>pp_occurn := pp_occurn q, pp_occurp := pp_occurp q, pp_resseen := pp_resseen q,
     pp_clean := pp_clean q, pp_seen := pp_seen q\<rparr>" using assms by (simp add: vars_reset_def)
  show "pp_clause q = pp_clause p" "pp_degree q = pp_degree p" "pp_clauses q = pp_clauses p" "pp_vars q = pp_vars p"
    "pp_mapfrom q = pp_mapfrom p" "pp_mapto q = pp_mapto p" "pp_mapval q = pp_mapval p" "pp_orivars q = pp_orivars p"
    "pp_clause_delete q = pp_clause_delete p"
    by (subst q, simp)+
qed

section \<open>Indexing the rows\<close>

definition rows_with :: "preproc \<Rightarrow> nat \<Rightarrow> int \<Rightarrow> nat list" where
  "rows_with p k l = filter (\<lambda>i. l \<in> set (pp_row p i)) [1..<Suc k]"

definition index_frame :: "preproc \<Rightarrow> preproc \<Rightarrow> bool" where
  "index_frame p q \<longleftrightarrow> q = p\<lparr>pp_occurp := pp_occurp q, pp_occurn := pp_occurn q, pp_clause_delete := pp_clause_delete q\<rparr>"

lemma index_frame_trans: "index_frame p q \<Longrightarrow> index_frame q r \<Longrightarrow> index_frame p r"
  by (cases p; cases q; cases r; simp add: index_frame_def)

lemma index_fields:
  assumes "index_frame p q"
  shows "pp_clause q = pp_clause p" "pp_degree q = pp_degree p" "pp_clauses q = pp_clauses p" "pp_vars q = pp_vars p"
    "pp_mapfrom q = pp_mapfrom p" "pp_mapto q = pp_mapto p" "pp_mapval q = pp_mapval p" "pp_orivars q = pp_orivars p"
    "pp_resseen q = pp_resseen p" "pp_clean q = pp_clean p"
proof -
  have q: "q = p\<lparr>pp_occurp := pp_occurp q, pp_occurn := pp_occurn q, pp_clause_delete := pp_clause_delete q\<rparr>"
    using assms by (simp add: index_frame_def)
  show "pp_clause q = pp_clause p" "pp_degree q = pp_degree p" "pp_clauses q = pp_clauses p" "pp_vars q = pp_vars p"
    "pp_mapfrom q = pp_mapfrom p" "pp_mapto q = pp_mapto p" "pp_mapval q = pp_mapval p" "pp_orivars q = pp_orivars p"
    "pp_resseen q = pp_resseen p" "pp_clean q = pp_clean p"
    by (subst q, simp)+
qed

definition indexed :: "nat \<Rightarrow> preproc \<Rightarrow> nat \<Rightarrow> res_state \<Rightarrow> bool" where
  "indexed n p k s \<longleftrightarrow> index_frame p (rs_prep s) \<and> length (pp_clause_delete (rs_prep s)) = length (pp_clause_delete p)
     \<and> (\<forall>i\<in>{1..k}. pp_clause_delete (rs_prep s) ! i = 0) \<and> rs_pure_queue s = []
     \<and> (\<forall>v. \<not> rs_in_pure_queue s v)
     \<and> (\<forall>l. l \<noteq> 0 \<longrightarrow> lit_var l \<le> n \<longrightarrow> lit_count s l = int (length (rows_with p k l))
          \<and> set (occ (rs_prep s) l) = set (rows_with p k l))"

lemma res_index_row_alt:
  "res_index_row i s = fold (add_lit i) (pp_row (rs_prep s) i)
     (s\<lparr>rs_prep := (rs_prep s)\<lparr>pp_clause_delete := (pp_clause_delete (rs_prep s))[i := 0]\<rparr>\<rparr>)"
  by (simp add: res_index_row_def add_lit_def [abs_def] Let_def)

lemma rows_with_Suc: "rows_with p (Suc k) l = rows_with p k l @ (if l \<in> set (pp_row p (Suc k)) then [Suc k] else [])"
  by (simp add: rows_with_def)

lemma in_queue_add: "rs_in_pure_queue (fold (add_lit c) ls s) = rs_in_pure_queue s"
proof (induction ls arbitrary: s)
  case (Cons l ls)
  then show ?case by (simp add: add_lit_def inc_count_def)
qed simp

lemma index_step:
  assumes ix: "indexed n p k s" and k: "Suc k < length (pp_clause_delete p)" and g: "good_row n (row_of p (Suc k))"
  shows "indexed n p (Suc k) (res_index_row (Suc k) s)"
proof -
  let ?row = "pp_row p (Suc k)"
  define s1 where "s1 = s\<lparr>rs_prep := (rs_prep s)\<lparr>pp_clause_delete := (pp_clause_delete (rs_prep s))[Suc k := 0]\<rparr>\<rparr>"
  define t where "t = res_index_row (Suc k) s"
  have fr: "index_frame p (rs_prep s)" using ix by (simp add: indexed_def)
  have t: "t = fold (add_lit (Suc k)) ?row s1"
    unfolding t_def res_index_row_alt s1_def index_fields(1) [OF fr] by simp
  have ls: "distinct ?row" "0 \<notin> set ?row" using g by (auto simp: good_row_def distinct_lits)
  note f = fold_add_lit [OF ls, of "Suc k" s1, folded t, unfolded lits_added_def]
  have o: "rs_prep t = (rs_prep s1)\<lparr>pp_occurp := pp_occurp (rs_prep t), pp_occurn := pp_occurn (rs_prep t)\<rparr>"
    using f by (simp add: occ_frame_def)
  have cd: "pp_clause_delete (rs_prep t) = (pp_clause_delete (rs_prep s))[Suc k := 0]"
    by (subst o) (simp add: s1_def)
  have "index_frame (rs_prep s) (rs_prep t)" unfolding index_frame_def cd by (subst o) (simp add: s1_def)
  then have fr': "index_frame p (rs_prep t)" using fr index_frame_trans by blast
  have s1: "lit_count s1 l = lit_count s l" "occ (rs_prep s1) l = occ (rs_prep s) l" for l
    by (simp_all add: s1_def occ_def)
  have q: "rs_pure_queue t = []" "\<forall>v. \<not> rs_in_pure_queue t v"
    using f ix in_queue_add [of "Suc k" ?row s1] by (simp_all add: indexed_def t s1_def)
  have c: "lit_count t l = int (length (rows_with p (Suc k) l)) \<and> set (occ (rs_prep t) l) = set (rows_with p (Suc k) l)"
    if "l \<noteq> 0" "lit_var l \<le> n" for l
  proof -
    have a: "lit_count s l = int (length (rows_with p k l))" "set (occ (rs_prep s) l) = set (rows_with p k l)"
      using ix that by (simp_all add: indexed_def)
    have b: "lit_count t l = lit_count s l + of_bool (l \<in> set ?row)"
      "set (occ (rs_prep t) l) = set (occ (rs_prep s) l) \<union> (if l \<in> set ?row then {Suc k} else {})"
      using f that(1) s1 by simp_all
    show ?thesis unfolding b a rows_with_Suc by simp
  qed
  have d: "\<forall>i\<in>{1..Suc k}. pp_clause_delete (rs_prep t) ! i = 0"
    using ix k unfolding cd indexed_def by (auto simp: nth_list_update le_Suc_eq)
  show ?thesis
    unfolding t_def [symmetric] indexed_def using fr' q c d ix by (simp add: indexed_def cd)
qed

lemma index_rows:
  assumes "indexed n p 0 s" and "k < length (pp_clause_delete p)" and "\<forall>i\<in>{1..k}. good_row n (row_of p i)"
  shows "indexed n p k (fold res_index_row [1..<Suc k] s)"
  using assms(2,3)
proof (induction k)
  case 0
  then show ?case using assms(1) by simp
next
  case (Suc k)
  have "indexed n p k (fold res_index_row [1..<Suc k] s)" using Suc by simp
  then have "indexed n p (Suc k) (res_index_row (Suc k) (fold res_index_row [1..<Suc k] s))"
    by (rule index_step) (use Suc.prems in simp_all)
  then show ?case by simp
qed

section \<open>The start\<close>

definition res_core :: "preproc \<Rightarrow> preproc \<Rightarrow> bool" where
  "res_core p q \<longleftrightarrow> pp_clause q = pp_clause p \<and> pp_degree q = pp_degree p \<and> pp_clauses q = pp_clauses p \<and> pp_vars q = pp_vars p
     \<and> pp_mapfrom q = pp_mapfrom p \<and> pp_mapto q = pp_mapto p \<and> pp_mapval q = pp_mapval p \<and> pp_orivars q = pp_orivars p"

lemma res_start_ok:
  assumes ok: "res_input_ok p"
  defines "s \<equiv> res_start p"
  shows "elim_inv (pp_vars p) (rs_prep s) [] ([], s)" and "\<forall>u\<in>{1..pp_vars p}. pp_resseen (rs_prep s) u = 0"
    and "active_rows (rs_prep s) = [1..<Suc (pp_clauses p)]" and "res_core p (rs_prep s)" and "\<forall>v. \<not> rs_in_pure_queue s v"
    and "rs_pure_queue s = []" and "pp_resolution (rs_prep s) = [0]"
    and "pp_resolutions (rs_prep s) = 0"
proof -
  let ?n = "pp_vars p" and ?m = "pp_clauses p"
  define p1 where "p1 = p\<lparr>pp_clause_delete := take (pp_clauses p + 1) (pp_clause_delete p)\<rparr>"
  define p2 where "p2 = fold res_reset_var [1..<Suc (pp_vars p1)] p1"
  define s0 where "s0 = \<lparr>rs_prep = p2, rs_pos_count = (\<lambda>_. 0), rs_neg_count = (\<lambda>_. 0), rs_pure_queue = [], rs_in_pure_queue = (\<lambda>_. False)\<rparr>"
  define s1 where "s1 = fold res_index_row [1..<Suc (pp_clauses p2)] s0"
  have s: "s = s1\<lparr>rs_prep := res_clear_recovery (rs_prep s1)\<rparr>"
    by (simp only: s_def res_start_def Let_def p1_def s1_def s0_def p2_def)
  note r = fold_res_reset [of p1 "[1..<Suc (pp_vars p1)]", folded p2_def]
  have r1: "vars_reset p1 p2" using r by blast
  have r2: "pp_occurn p2 v = []" "pp_occurp p2 v = []" "pp_resseen p2 v = 0" "pp_clean p2 v = 0" if "v \<in> {1..?n}" for v
    using r that by (simp_all add: p1_def del: upt_Suc)
  note f = vars_reset_fields [OF r1]
  have p2: "pp_clause p2 = pp_clause p" "pp_degree p2 = pp_degree p" "pp_clauses p2 = ?m" "pp_vars p2 = ?n"
    "pp_mapfrom p2 = pp_mapfrom p" "pp_mapto p2 = pp_mapto p" "pp_mapval p2 = pp_mapval p" "pp_orivars p2 = pp_orivars p"
    by (simp_all add: f, simp_all add: p1_def)
  have cl: "length (pp_clause_delete p2) = Suc ?m" using ok by (simp add: f p1_def res_input_ok_def)
  have "occ p2 l = []" if "l \<noteq> 0" "lit_var l \<le> ?n" for l
    using r2 [of "lit_var l"] lit_var_pos [OF that(1)] that(2) by (simp add: occ_def Suc_le_eq)
  then have i0: "indexed ?n p2 0 s0"
    by (auto simp: indexed_def s0_def index_frame_def lit_count_def rows_with_def)
  have good: "\<forall>i\<in>{1..?m}. good_row ?n (row_of p2 i)" using res_input_good [OF ok] by (simp add: p2)
  have ix: "indexed ?n p2 ?m s1"
    unfolding s1_def p2(3) by (rule index_rows [OF i0]) (use cl good in simp_all)
  note g = index_fields [OF ix [unfolded indexed_def, THEN conjunct1]]
  let ?q = "rs_prep s"
  have q: "pp_clause ?q = pp_clause p" "pp_degree ?q = pp_degree p" "pp_clauses ?q = ?m" "pp_vars ?q = ?n"
    "pp_mapfrom ?q = pp_mapfrom p" "pp_mapto ?q = pp_mapto p" "pp_mapval ?q = pp_mapval p" "pp_orivars ?q = pp_orivars p"
    "pp_resseen ?q = pp_resseen p2" "pp_clean ?q = pp_clean p2" "pp_resolution ?q = [0]"
    by (simp_all add: s res_clear_recovery_def g p2)
  have qc: "length (pp_clause_delete ?q) = Suc ?m" "\<forall>i\<in>{1..?m}. pp_clause_delete ?q ! i = 0"
    using ix cl by (simp_all add: s res_clear_recovery_def indexed_def)
  show act: "active_rows ?q = [1..<Suc ?m]" unfolding active_rows_def q(3) by (rule filter_True) (use qc in auto)
  show core: "res_core p ?q" by (simp add: res_core_def q)
  show seen: "\<forall>u\<in>{1..?n}. pp_resseen ?q u = 0" using r2 by (simp add: q)
  show "\<forall>v. \<not> rs_in_pure_queue s v" "rs_pure_queue s = []" using ix by (simp_all add: s indexed_def)
  show "pp_resolution ?q = [0]" by (rule q)
  show "pp_resolutions ?q = 0" by (simp add: s res_clear_recovery_def)
  have len: "length (pp_clause p) = Suc ?m" "length (pp_degree p) = Suc ?m" using ok by (simp_all add: res_input_ok_def)
  have rw: "rows_with p2 ?m l = filter (\<lambda>i. l \<in> set (pp_row ?q i)) (active_rows ?q)" for l
    by (simp only: rows_with_def act q p2)
  have cnt: "lit_count s l = int (cnt ?q l)" "set (occ ?q l) = set (rows_with p2 ?m l)" if "l \<noteq> 0" "lit_var l \<le> ?n" for l
  proof -
    have a: "lit_count s1 l = int (length (rows_with p2 ?m l))" "set (occ (rs_prep s1) l) = set (rows_with p2 ?m l)"
      using ix that by (simp_all add: indexed_def)
    have b: "lit_count s l = lit_count s1 l" "occ ?q l = occ (rs_prep s1) l"
      by (simp_all add: s res_clear_recovery_def occ_def)
    show "lit_count s l = int (cnt ?q l)" unfolding b a(1) cnt_def rw ..
    show "set (occ ?q l) = set (rows_with p2 ?m l)" unfolding b a(2) ..
  qed
  have inv: "rows_inv ?n s"
  proof (rule rows_invI)
    show "good_row ?n (row_of ?q i)" if "i \<in> set (active_rows ?q)" for i
      using that res_input_good [OF ok, of i] by (simp add: q active_mem)
  qed (use q len qc cnt ix in \<open>simp_all add: indexed_def s\<close>)
  have oc: "occ_inv ?n ?q"
    unfolding occ_inv_def using cnt(2) rw by (auto simp: active_mem q)
  show "elim_inv ?n ?q [] ([], s)"
  proof (rule elim_invI)
    show "stores ?q []" by (simp add: stores_def group_rows_def s res_clear_recovery_def)
    show "elim_frame ?q ?q" by (simp add: elim_frame_def)
    show "pp_clean ?q v \<noteq> 0 \<longleftrightarrow> v \<in> set []" if "v \<in> {1..?n}" for v using r2(4) [OF that] by (simp add: q)
  qed (use inv oc in simp_all)
qed

lemma res_start_models:
  assumes "res_input_ok p"
  shows "models (rs_prep (res_start p)) b \<longleftrightarrow> rows_sat b (pp_rows p)"
proof -
  have c: "res_core p (rs_prep (res_start p))" by (rule res_start_ok(4) [OF assms])
  have "act_rows (rs_prep (res_start p)) = pp_rows p"
    using c by (simp add: act_rows_def pp_rows_def res_start_ok(3) [OF assms] res_core_def del: upt_Suc)
  then show ?thesis by (simp add: models_def)
qed

end
