(* ===== verification/Prep_Res_Pure.thy ===== *)
theory Prep_Res_Pure
  imports Prep_Res_Start "HOL-Library.Multiset"
begin

text \<open>
  Pure literals: a literal whose complement does not occur is made true.  Its rows lose the
  literal and one unit of their degree; a row of degree 0 is dropped, a row that asks for more
  literals than it has refutes the problem.
\<close>

section \<open>One row\<close>

definition pure_frame :: "preproc \<Rightarrow> preproc \<Rightarrow> bool" where
  "pure_frame p q \<longleftrightarrow> q = p\<lparr>pp_clause := pp_clause q, pp_degree := pp_degree q, pp_clause_delete := pp_clause_delete q\<rparr>"

lemma pure_frame_refl: "pure_frame p p"
  by (simp add: pure_frame_def)

lemma pure_frame_trans: "pure_frame p q \<Longrightarrow> pure_frame q r \<Longrightarrow> pure_frame p r"
  by (cases p; cases q; cases r; simp add: pure_frame_def)

lemma pure_fields:
  assumes "pure_frame p q"
  shows "pp_clauses q = pp_clauses p" "pp_vars q = pp_vars p" "pp_mapfrom q = pp_mapfrom p" "pp_mapto q = pp_mapto p"
    "pp_mapval q = pp_mapval p" "pp_orivars q = pp_orivars p" "pp_clean q = pp_clean p" "pp_occurp q = pp_occurp p"
    "pp_occurn q = pp_occurn p" "pp_res_clauses q = pp_res_clauses p" "pp_res_clause q = pp_res_clause p"
    "pp_res_degree q = pp_res_degree p" "pp_res_owner q = pp_res_owner p" "pp_resolution q = pp_resolution p"
proof -
  have q: "q = p\<lparr>pp_clause := pp_clause q, pp_degree := pp_degree q, pp_clause_delete := pp_clause_delete q\<rparr>"
    using assms by (simp add: pure_frame_def)
  show "pp_clauses q = pp_clauses p" "pp_vars q = pp_vars p" "pp_mapfrom q = pp_mapfrom p" "pp_mapto q = pp_mapto p"
    "pp_mapval q = pp_mapval p" "pp_orivars q = pp_orivars p" "pp_clean q = pp_clean p" "pp_occurp q = pp_occurp p"
    "pp_occurn q = pp_occurn p" "pp_res_clauses q = pp_res_clauses p" "pp_res_clause q = pp_res_clause p"
    "pp_res_degree q = pp_res_degree p" "pp_res_owner q = pp_res_owner p" "pp_resolution q = pp_resolution p"
    by (subst q, simp)+
qed

text \<open>The literals of the active rows and the candidates in the queue bound the work that is left.\<close>

definition potential :: "nat \<Rightarrow> res_state \<Rightarrow> int" where
  "potential n s = (\<Sum>v\<in>{1..n}. rs_pos_count s v + rs_neg_count s v) + int (length (rs_pure_queue s))"

lemma potential_on_prep [simp]: "potential n (s\<lparr>rs_prep := p\<rparr>) = potential n s"
  by (simp add: potential_def)

lemma potential_enqueue: "potential n (enqueue_pure_candidate v s) \<le> potential n s + 1"
  by (simp add: enqueue_pure_candidate_def potential_def)

lemma sum_upd1:
  fixes f :: "nat \<Rightarrow> int"
  assumes "v \<in> {1..n}"
  shows "(\<Sum>u\<in>{1..n}. (f(v := f v - 1)) u) = (\<Sum>u\<in>{1..n}. f u) - 1"
proof -
  have "(\<Sum>u\<in>{1..n} - {v}. (f(v := f v - 1)) u) = (\<Sum>u\<in>{1..n} - {v}. f u)" by (rule sum.cong) auto
  then show ?thesis using assms sum.remove [of "{1..n}" v "f(v := f v - 1)"] sum.remove [of "{1..n}" v f] by simp
qed

lemma potential_dec:
  assumes "lit_var l \<in> {1..n}"
  shows "potential n (dec_count l s) \<le> potential n s"
proof -
  define t where "t = (if l > 0 then s\<lparr>rs_pos_count := (rs_pos_count s)(lit_var l := rs_pos_count s (lit_var l) - 1)\<rparr>
        else s\<lparr>rs_neg_count := (rs_neg_count s)(lit_var l := rs_neg_count s (lit_var l) - 1)\<rparr>)"
  have "potential n t = potential n s - 1"
    using sum_upd1 [OF assms, of "rs_pos_count s"] sum_upd1 [OF assms, of "rs_neg_count s"]
    by (simp add: t_def potential_def sum.distrib del: fun_upd_apply)
  moreover have "dec_count l s = enqueue_pure_candidate (lit_var l) t" by (simp add: dec_count_def t_def)
  ultimately show ?thesis using potential_enqueue [of n "lit_var l" t] by simp
qed

lemma potential_fold_dec:
  assumes "lit_var ` set ls \<subseteq> {1..n}"
  shows "potential n (fold dec_count ls s) \<le> potential n s"
  using assms
proof (induction ls arbitrary: s)
  case (Cons l ls)
  have "potential n (fold dec_count ls (dec_count l s)) \<le> potential n (dec_count l s)" using Cons by simp
  also have "\<dots> \<le> potential n s" using Cons.prems by (intro potential_dec) simp
  finally show ?case by simp
qed simp

lemma fold_drop_other: "v \<notin> lit_var ` set ls \<Longrightarrow> fold (drop_pure_lit i v val) ls s = s"
  by (induction ls arbitrary: s) (auto simp: drop_pure_lit_def)

lemma fold_drop_pure:
  assumes "distinct (map lit_var ls)" and "l \<in> set ls" and "lit_var l = v" and "val = pnsign l"
  shows "fold (drop_pure_lit i v val) ls s
     = (dec_count l s)\<lparr>rs_prep := (rs_prep s)\<lparr>pp_degree := (pp_degree (rs_prep s))[i := pp_deg (rs_prep s) i - 1]\<rparr>\<rparr>"
  using assms(1,2)
proof (induction ls arbitrary: s)
  case (Cons m ls)
  show ?case
  proof (cases "m = l")
    case True
    then have "v \<notin> lit_var ` set ls" using Cons.prems(1) assms(3) by auto
    then show ?thesis using True assms(3,4) by (simp add: fold_drop_other, simp add: drop_pure_lit_def Let_def)
  next
    case False
    then have l: "l \<in> set ls" using Cons.prems(2) by simp
    then have "lit_var m \<noteq> v" using Cons.prems(1) assms(3) by (auto simp: image_iff)
    then have "drop_pure_lit i v val m s = s" by (simp add: drop_pure_lit_def)
    then show ?thesis using Cons.IH [of s] Cons.prems(1) l by simp
  qed
qed simp

text \<open>What a row update has to achieve.\<close>

definition row_done :: "nat \<Rightarrow> int \<Rightarrow> nat \<Rightarrow> res_state \<Rightarrow> res_state \<Rightarrow> bool" where
  "row_done n l i s t \<longleftrightarrow> rows_inv n t \<and> pure_frame (rs_prep s) (rs_prep t) \<and> potential n t \<le> potential n s
     \<and> set (active_rows (rs_prep t)) \<subseteq> set (active_rows (rs_prep s))
     \<and> (\<forall>j\<in>set (active_rows (rs_prep t)). set (pp_row (rs_prep t) j) \<subseteq> set (pp_row (rs_prep s) j))
     \<and> (\<forall>b. lit_sat b l \<longrightarrow> (models (rs_prep t) b \<longleftrightarrow> models (rs_prep s) b))
     \<and> (i \<in> set (active_rows (rs_prep t)) \<longrightarrow> l \<notin> set (pp_row (rs_prep t) i))"

lemma row_count_le: "row_count a c \<le> int (length c)"
  using row_count_bounds by simp

lemma row_too_short: "d > int (length c) \<Longrightarrow> \<not> row_sat a c d"
  using row_count_bounds [of a c] by (simp add: row_sat_def)

lemma cnt_shrunk:
  assumes "i \<in> set (active_rows p)" and "i < length (pp_clause p)"
    and "active_rows q = active_rows p" and "pp_clause q = (pp_clause p)[i := kept]" and "set kept \<subseteq> set (pp_row p i)"
  shows "int (cnt q m) = int (cnt p m) - of_bool (m \<in> set (pp_row p i) \<and> m \<notin> set kept)"
proof -
  define P where "P = (\<lambda>x. m \<in> set (pp_row p x))"
  define Q where "Q = (\<lambda>x. m \<in> set (pp_row q x))"
  have split: "length (filter F (active_rows p)) = of_bool (F i) + length (filter F (remove1 i (active_rows p)))" for F
  proof -
    have "mset (active_rows p) = mset (i # remove1 i (active_rows p))" using assms(1) by simp
    then have "size (filter_mset F (mset (active_rows p))) = size (filter_mset F (mset (i # remove1 i (active_rows p))))" by simp
    then have "length (filter F (active_rows p)) = length (filter F (i # remove1 i (active_rows p)))"
      by (metis mset_filter size_mset)
    then show ?thesis by simp
  qed
  have same: "filter Q (remove1 i (active_rows p)) = filter P (remove1 i (active_rows p))"
    by (rule filter_cong) (use distinct_active [of p] assms(4) in \<open>auto simp: P_def Q_def\<close>)
  have "cnt q m = of_bool (Q i) + length (filter P (remove1 i (active_rows p)))"
    unfolding cnt_def assms(3) using split [of Q] same by (simp add: Q_def)
  moreover have "cnt p m = of_bool (P i) + length (filter P (remove1 i (active_rows p)))"
    unfolding cnt_def using split [of P] by (simp add: P_def)
  moreover have "Q i \<longleftrightarrow> m \<in> set kept" using assms(2,4) by (simp add: Q_def)
  ultimately show ?thesis using assms(5) by (auto simp: P_def)
qed

text \<open>The row \<open>i\<close> with the kept literals and the lower degree.\<close>

definition shrink_row :: "nat \<Rightarrow> int list \<Rightarrow> int \<Rightarrow> res_state \<Rightarrow> res_state" where
  "shrink_row i kept d s = s\<lparr>rs_prep := (rs_prep s)\<lparr>pp_degree := (pp_degree (rs_prep s))[i := d],
     pp_clause := (pp_clause (rs_prep s))[i := kept]\<rparr>\<rparr>"

definition drop_row :: "nat \<Rightarrow> res_state \<Rightarrow> res_state" where
  "drop_row i s = s\<lparr>rs_prep := (rs_prep s)\<lparr>pp_clause_delete := (pp_clause_delete (rs_prep s))[i := 1],
     pp_clause := (pp_clause (rs_prep s))[i := []]\<rparr>\<rparr>"

lemma simplify_alt:
  assumes "i \<in> set (active_rows (rs_prep s))" and "rows_inv n s" and "v \<in> {1..n}" and "val = 1 \<or> val = -1"
    and "- (val * int v) \<notin> set (pp_row (rs_prep s) i)"
  defines "row \<equiv> pp_row (rs_prep s) i" and "deg \<equiv> pp_deg (rs_prep s) i" and "l \<equiv> val * int v"
  defines "kept \<equiv> residual v row"
  defines "d \<equiv> (if l \<in> set row then deg - 1 else deg)"
  shows "simplify_pure_clause v val i s =
    (let t = shrink_row i kept d (if l \<in> set row then dec_count l s else s)
     in if d = 0 then Some (drop_row i (fold dec_count kept t)) else if d \<le> int (length kept) then Some t else None)"
proof -
  have lv: "lit_var l = v" "val = pnsign l" "l \<noteq> 0" using assms(3,4) by (auto simp: l_def lit_var_def pnsign_def)
  note inv = rows_invD [OF assms(2)]
  have i: "i < length (pp_degree (rs_prep s))" "\<not> deleted (rs_prep s) i" using assms(1) inv(3) by (auto simp: active_mem)
  have g: "distinct (map lit_var row)" using inv(5) [OF assms(1)] by (simp add: good_row_def row_def)
  have occ: "v \<in> lit_var ` set row \<longleftrightarrow> l \<in> set row"
    using assms(5) var_of_lit [of v row] assms(4) by (auto simp: l_def row_def)
  define s1 where "s1 = fold (drop_pure_lit i v val) row s"
  have s1: "s1 = (if l \<in> set row then (dec_count l s)\<lparr>rs_prep := (rs_prep s)\<lparr>pp_degree := (pp_degree (rs_prep s))[i := deg - 1]\<rparr>\<rparr> else s)"
    using fold_drop_pure [OF g _ lv(1,2), of i s] fold_drop_other [of v row i val s] occ by (auto simp: s1_def deg_def)
  have p1: "rs_prep s1 = (rs_prep s)\<lparr>pp_degree := (pp_degree (rs_prep s))[i := d]\<rparr>"
    by (auto simp: s1 d_def deg_def)
  have t: "s1\<lparr>rs_prep := (rs_prep s1)\<lparr>pp_clause := (pp_clause (rs_prep s1))[i := kept]\<rparr>\<rparr>
      = shrink_row i kept d (if l \<in> set row then dec_count l s else s)"
    unfolding p1 by (auto simp: shrink_row_def s1 d_def deg_def)
  have d: "pp_deg (rs_prep (shrink_row i kept d x)) i = d" if "rs_prep x = rs_prep s" for x
    using i that by (simp add: shrink_row_def)
  show ?thesis
    unfolding simplify_pure_clause_def Let_def row_def [symmetric] s1_def [symmetric] kept_def [symmetric] t
    using i d by (simp add: drop_row_def)
qed

lemma shrunk_sat:
  assumes "distinct (map lit_var row)" and "l \<in> set row" and "lit_var l = v" and "lit_sat b l"
  shows "row_sat b (residual v row) (d - 1) \<longleftrightarrow> row_sat b row d"
  using row_with_pivot [OF assms(1-3), of b] assms(4) by (auto simp: row_sat_def)

lemma residual_same: "v \<notin> lit_var ` set row \<Longrightarrow> residual v row = row"
  by (rule filter_True) auto

lemma models_split:
  assumes "i \<in> set (active_rows p)"
  shows "models p b \<longleftrightarrow> row_sat b (pp_row p i) (pp_deg p i)
    \<and> (\<forall>j\<in>set (active_rows p). j \<noteq> i \<longrightarrow> row_sat b (pp_row p j) (pp_deg p j))"
  unfolding models_iff using assms by metis

lemma shrink_row_done:
  assumes inv: "rows_inv n s" and i: "i \<in> set (active_rows (rs_prep s))" and t: "rs_prep t = rs_prep s"
    and kept: "set kept \<subseteq> set (pp_row (rs_prep s) i)" and g: "good_row n (kept, d)" and l: "l \<notin> set kept"
    and c: "\<And>m. m \<noteq> 0 \<Longrightarrow> lit_count t m = lit_count s m - of_bool (m \<in> set (pp_row (rs_prep s) i) \<and> m \<notin> set kept)"
    and pot: "potential n t \<le> potential n s" and q: "set (rs_pure_queue t) \<subseteq> {1..n}"
    and sat: "\<And>b. lit_sat b l \<Longrightarrow> row_sat b kept d \<longleftrightarrow> row_sat b (pp_row (rs_prep s) i) (pp_deg (rs_prep s) i)"
  shows "row_done n l i s (shrink_row i kept d t)"
proof -
  define p where "p = rs_prep s"
  define u where "u = rs_prep (shrink_row i kept d t)"
  note v = rows_invD [OF inv, folded p_def]
  have u: "u = p\<lparr>pp_degree := (pp_degree p)[i := d], pp_clause := (pp_clause p)[i := kept]\<rparr>"
    by (simp add: u_def shrink_row_def t p_def)
  have il: "i < length (pp_clause p)" "i < length (pp_degree p)" using i v by (auto simp: active_mem p_def)
  have act: "active_rows u = active_rows p" by (simp add: u active_rows_def)
  have row: "pp_row u j = (if j = i then kept else pp_row p j)" "pp_deg u j = (if j = i then d else pp_deg p j)" for j
    using il by (simp_all add: u)
  have cn: "int (cnt u m) = int (cnt p m) - of_bool (m \<in> set (pp_row p i) \<and> m \<notin> set kept)" for m
    by (rule cnt_shrunk [OF _ il(1) act]) (use i kept u in \<open>simp_all add: p_def\<close>)
  have cs: "lit_count (shrink_row i kept d t) m = lit_count t m" for m by (simp add: shrink_row_def)
  have inv': "rows_inv n (shrink_row i kept d t)"
  proof (rule rows_invI, unfold u_def [symmetric] cs)
    show "good_row n (row_of u j)" if "j \<in> set (active_rows u)" for j
      using that v(5) [of j] g unfolding row act by simp
    show "lit_count t m = int (cnt u m)" if "m \<noteq> 0" "lit_var m \<le> n" for m
      using c [OF that(1)] v(6) [OF that] cn [of m] by (simp add: p_def)
    show "set (rs_pure_queue (shrink_row i kept d t)) \<subseteq> {1..n}" using q by (simp add: shrink_row_def)
  qed (use v in \<open>simp_all add: u\<close>)
  have m: "models u b = models p b" if "lit_sat b l" for b
    using i sat [OF that] unfolding models_split [of i u] models_split [of i p] act row
    by (simp add: models_iff act row p_def) blast
  show ?thesis
    unfolding row_done_def u_def [symmetric] p_def [symmetric]
    using inv' m l kept pot act row by (auto simp: pure_frame_def u p_def) (auto simp: shrink_row_def)
qed

lemma drop_row_done:
  assumes inv: "rows_inv n s" and i: "i \<in> set (active_rows (rs_prep s))"
    and t: "rs_prep t = (rs_prep s)\<lparr>pp_degree := D, pp_clause := (pp_clause (rs_prep s))[i := kept]\<rparr>"
    and D: "D = (pp_degree (rs_prep s))[i := d]"
    and c: "\<And>m. m \<noteq> 0 \<Longrightarrow> lit_count t m = lit_count s m - of_bool (m \<in> set (pp_row (rs_prep s) i))"
    and pot: "potential n t \<le> potential n s" and q: "set (rs_pure_queue t) \<subseteq> {1..n}"
    and sat: "\<And>b. lit_sat b l \<Longrightarrow> row_sat b (pp_row (rs_prep s) i) (pp_deg (rs_prep s) i)"
  shows "row_done n l i s (drop_row i t)"
proof -
  define p where "p = rs_prep s"
  define u where "u = rs_prep (drop_row i t)"
  note v = rows_invD [OF inv, folded p_def]
  have u: "u = p\<lparr>pp_degree := (pp_degree p)[i := d], pp_clause := (pp_clause p)[i := []], pp_clause_delete := (pp_clause_delete p)[i := 1]\<rparr>"
    by (simp add: u_def drop_row_def t D p_def)
  have il: "i < length (pp_clause p)" "i < length (pp_degree p)" "i < length (pp_clause_delete p)"
    using i v by (auto simp: active_mem p_def)
  have "active_rows u = active_rows (p\<lparr>pp_clause_delete := (pp_clause_delete p)[i := 1]\<rparr>)" by (simp add: u active_rows_def)
  then have act: "active_rows u = filter (\<lambda>x. x \<noteq> i) (active_rows p)" using active_delete [OF il(3)] by simp
  have row: "pp_row u j = pp_row p j" "pp_deg u j = pp_deg p j" if "j \<noteq> i" for j
    using that by (simp_all add: u)
  have cn: "int (cnt u m) = int (cnt p m) - of_bool (m \<in> set (pp_row p i))" for m
  proof -
    have "cnt u m = length (filter (\<lambda>x. m \<in> set (pp_row p x)) (filter (\<lambda>x. x \<noteq> i) (active_rows p)))"
      unfolding cnt_def act by (rule arg_cong [where f = length], rule filter_cong) (auto simp: row)
    also have "\<dots> = cnt (p\<lparr>pp_clause_delete := (pp_clause_delete p)[i := 1]\<rparr>) m"
      unfolding cnt_def active_delete [OF il(3)] by simp
    finally show ?thesis
      using cnt_removed [of i p "p\<lparr>pp_clause_delete := (pp_clause_delete p)[i := 1]\<rparr>" m] active_delete [OF il(3)] i
      by (simp add: p_def)
  qed
  have cs: "lit_count (drop_row i t) m = lit_count t m" for m by (simp add: drop_row_def)
  have inv': "rows_inv n (drop_row i t)"
  proof (rule rows_invI, unfold u_def [symmetric] cs)
    show "good_row n (row_of u j)" if "j \<in> set (active_rows u)" for j
      using that v(5) [of j] row [of j] unfolding act by simp
    show "lit_count t m = int (cnt u m)" if "m \<noteq> 0" "lit_var m \<le> n" for m
      using c [OF that(1)] v(6) [OF that] cn [of m] by (simp add: p_def)
    show "set (rs_pure_queue (drop_row i t)) \<subseteq> {1..n}" using q by (simp add: drop_row_def)
  qed (use v in \<open>simp_all add: u\<close>)
  have m: "models u b = models p b" if "lit_sat b l" for b
    using sat [OF that] i unfolding models_split [OF i [folded p_def]] models_iff [of u] act
    by (auto simp: row p_def)
  show ?thesis
    unfolding row_done_def u_def [symmetric] p_def [symmetric]
    using inv' m pot act row by (auto simp: pure_frame_def u p_def) (auto simp: drop_row_def)
qed

end
