(* ===== verification/Prep_Res_Pure_Loop.thy ===== *)
theory Prep_Res_Pure_Loop
  imports Prep_Res_Pure
begin

text \<open>The loop over the pure literals: it ends, and it keeps the models up to the values it chooses.\<close>

section \<open>All rows of one literal\<close>

definition row_result :: "nat \<Rightarrow> int \<Rightarrow> nat \<Rightarrow> res_state \<Rightarrow> res_state option \<Rightarrow> bool" where
  "row_result n l i s r = (case r of None \<Rightarrow> \<forall>b. lit_sat b l \<longrightarrow> \<not> models (rs_prep s) b | Some t \<Rightarrow> row_done n l i s t)"

lemma row_done_same:
  assumes "rows_inv n s" and "i \<in> set (active_rows (rs_prep s)) \<longrightarrow> l \<notin> set (pp_row (rs_prep s) i)"
  shows "row_done n l i s s"
  using assms by (simp add: row_done_def pure_frame_refl)

lemma simplify_pure_row:
  assumes inv: "rows_inv n s" and i: "i \<in> {1..pp_clauses (rs_prep s)}" and v: "v \<in> {1..n}" and val: "val = 1 \<or> val = -1"
    and neg: "\<And>j. j \<in> set (active_rows (rs_prep s)) \<Longrightarrow> - (val * int v) \<notin> set (pp_row (rs_prep s) j)"
  shows "row_result n (val * int v) i s (simplify_pure_clause v val i s)"
proof (cases "deleted (rs_prep s) i")
  case True
  then have "simplify_pure_clause v val i s = Some s" by (simp add: simplify_pure_clause_def)
  moreover have "i \<notin> set (active_rows (rs_prep s))" using True by (simp add: active_mem)
  ultimately show ?thesis using row_done_same [OF inv] by (simp add: row_result_def)
next
  case False
  then have ia: "i \<in> set (active_rows (rs_prep s))" using i by (simp add: active_mem)
  define row where "row = pp_row (rs_prep s) i"
  define deg where "deg = pp_deg (rs_prep s) i"
  define l where "l = val * int v"
  define kept where "kept = residual v row"
  define d where "d = (if l \<in> set row then deg - 1 else deg)"
  define s1 where "s1 = (if l \<in> set row then dec_count l s else s)"
  define t where "t = shrink_row i kept d s1"
  note d7 = rows_invD(7) [OF inv]
  have lv: "lit_var l = v" "l \<noteq> 0" using v val by (auto simp: l_def lit_var_def)
  have g: "good_row n (row, deg)" using rows_invD(5) [OF inv ia] by (simp add: row_def deg_def)
  have dist: "distinct (map lit_var row)" "distinct row" "0 \<notin> set row" using g by (auto simp: good_row_def distinct_lits)
  have nl: "- l \<notin> set row" using neg [OF ia] by (simp add: row_def l_def)
  have alt: "simplify_pure_clause v val i s =
      (if d = 0 then Some (drop_row i (fold dec_count kept t)) else if d \<le> int (length kept) then Some t else None)"
    unfolding simplify_alt [OF ia inv v val neg [OF ia]] Let_def by (simp add: t_def s1_def d_def deg_def row_def l_def kept_def)
  have kept_sub: "set kept \<subseteq> set row" "l \<notin> set kept" using lv by (auto simp: kept_def)
  have vrow: "v \<in> lit_var ` set row \<longleftrightarrow> l \<in> set row"
    using nl var_of_lit [of v row] val by (auto simp: l_def)
  have row_mem: "m \<in> set row \<longleftrightarrow> m \<in> set kept \<or> m = l \<and> l \<in> set row" for m
  proof -
    have "m = l" if "m \<in> set row" "lit_var m = v"
      using that nl lv same_lit_var [of m l] by auto
    then show ?thesis using lv by (auto simp: kept_def)
  qed
  have sat: "row_sat b kept d \<longleftrightarrow> row_sat b row deg" if "lit_sat b l" for b
    using shrunk_sat [OF dist(1) _ lv(1) that, of deg] vrow residual_same [of v row] by (auto simp: kept_def d_def)
  have p1: "rs_prep s1 = rs_prep s" by (simp add: s1_def)
  have c1: "lit_count s1 m = lit_count s m - of_bool (m \<in> set row \<and> m \<notin> set kept)" if "m \<noteq> 0" for m
    using count_dec [OF that lv(2), of s] row_mem [of m] kept_sub(2) by (auto simp: s1_def)
  have q1: "set (rs_pure_queue s1) \<subseteq> {1..n}" using d7 queue_dec [of l s] v lv by (auto simp: s1_def)
  have pot1: "potential n s1 \<le> potential n s" using potential_dec [of l n s] v lv by (auto simp: s1_def)
  have d0: "0 \<le> d" using g by (auto simp: d_def good_row_def)
  show ?thesis
  proof (cases "d = 0")
    case True
    have k: "distinct kept" "0 \<notin> set kept" "lit_var ` set kept \<subseteq> {1..n}"
      using dist good_row_vars [OF g] by (auto simp: kept_def)
    have tp: "rs_prep (fold dec_count kept t) = (rs_prep s)\<lparr>pp_degree := (pp_degree (rs_prep s))[i := d], pp_clause := (pp_clause (rs_prep s))[i := kept]\<rparr>"
      by (simp add: t_def shrink_row_def p1)
    have ct: "lit_count t m = lit_count s1 m" "rs_pure_queue t = rs_pure_queue s1" "potential n t = potential n s1" for m
      by (simp_all add: t_def shrink_row_def)
    have "row_done n l i s (drop_row i (fold dec_count kept t))"
    proof (rule drop_row_done [OF inv ia tp refl])
      show "lit_count (fold dec_count kept t) m = lit_count s m - of_bool (m \<in> set (pp_row (rs_prep s) i))" if "m \<noteq> 0" for m
        using fold_dec_count [OF k(1,2) that, of t] c1 [OF that] row_mem [of m] kept_sub by (auto simp: ct row_def [symmetric])
      show "potential n (fold dec_count kept t) \<le> potential n s"
        using potential_fold_dec [OF k(3), of t] pot1 by (simp add: ct)
      show "set (rs_pure_queue (fold dec_count kept t)) \<subseteq> {1..n}"
        using fold_dec_queue [of kept t] k(3) q1 by (auto simp: ct)
      show "row_sat b (pp_row (rs_prep s) i) (pp_deg (rs_prep s) i)" if "lit_sat b l" for b
        using sat [OF that] True row_count_bounds(1) [of b kept] by (simp add: row_sat_def row_def deg_def)
    qed
    then show ?thesis unfolding alt l_def [symmetric] by (simp add: True row_result_def)
  next
    case dn: False
    show ?thesis
    proof (cases "d \<le> int (length kept)")
      case True
      have gk: "good_row n (kept, d)"
        using g dn d0 True dist by (auto simp: good_row_def kept_def distinct_map_filter)
      have "row_done n l i s t"
        unfolding t_def
        by (rule shrink_row_done [OF inv ia p1]) (use kept_sub gk c1 pot1 q1 sat in \<open>simp_all add: row_def deg_def\<close>)
      then show ?thesis unfolding alt l_def [symmetric] using dn True by (simp add: row_result_def)
    next
      case False
      have "\<not> models (rs_prep s) b" if "lit_sat b l" for b
        using sat [OF that] row_too_short [of kept d b] False ia by (auto simp: models_iff row_def deg_def)
      then show ?thesis unfolding alt l_def [symmetric] using dn False by (simp add: row_result_def)
    qed
  qed
qed

text \<open>The rows \<open>is\<close> have lost the literal.\<close>

definition lit_done :: "nat \<Rightarrow> int \<Rightarrow> nat set \<Rightarrow> res_state \<Rightarrow> res_state \<Rightarrow> bool" where
  "lit_done n l S s t \<longleftrightarrow> rows_inv n t \<and> pure_frame (rs_prep s) (rs_prep t) \<and> potential n t \<le> potential n s
     \<and> set (active_rows (rs_prep t)) \<subseteq> set (active_rows (rs_prep s))
     \<and> (\<forall>j\<in>set (active_rows (rs_prep t)). set (pp_row (rs_prep t) j) \<subseteq> set (pp_row (rs_prep s) j))
     \<and> (\<forall>b. lit_sat b l \<longrightarrow> (models (rs_prep t) b \<longleftrightarrow> models (rs_prep s) b))
     \<and> (\<forall>i\<in>S. i \<in> set (active_rows (rs_prep t)) \<longrightarrow> l \<notin> set (pp_row (rs_prep t) i))"

lemma row_done_lit: "row_done n l i s t \<longleftrightarrow> lit_done n l {i} s t"
  by (simp add: row_done_def lit_done_def)

lemma lit_done_trans:
  assumes st: "lit_done n l S s t" and tu: "lit_done n l S' t u"
  shows "lit_done n l (S \<union> S') s u"
proof -
  have a: "rows_inv n u" "potential n u \<le> potential n s" using assms by (auto simp: lit_done_def)
  have f: "pure_frame (rs_prep s) (rs_prep u)"
    using assms pure_frame_trans unfolding lit_done_def by blast
  have b: "set (active_rows (rs_prep u)) \<subseteq> set (active_rows (rs_prep t))" "set (active_rows (rs_prep t)) \<subseteq> set (active_rows (rs_prep s))"
    using assms by (simp_all add: lit_done_def)
  have r: "set (pp_row (rs_prep u) j) \<subseteq> set (pp_row (rs_prep t) j)" "set (pp_row (rs_prep t) j) \<subseteq> set (pp_row (rs_prep s) j)"
    if "j \<in> set (active_rows (rs_prep u))" for j
    using assms b(1) that unfolding lit_done_def by blast+
  have m: "models (rs_prep u) b \<longleftrightarrow> models (rs_prep s) b" if "lit_sat b l" for b
    using assms that by (simp add: lit_done_def)
  have n: "l \<notin> set (pp_row (rs_prep u) i)" if i: "i \<in> S \<union> S'" "i \<in> set (active_rows (rs_prep u))" for i
  proof (cases "i \<in> S'")
    case True
    then show ?thesis using tu i by (simp add: lit_done_def)
  next
    case False
    then have "l \<notin> set (pp_row (rs_prep t) i)" using st i b(1) unfolding lit_done_def by blast
    then show ?thesis using r(1) [OF i(2)] by blast
  qed
  show ?thesis unfolding lit_done_def using a f b r m n by blast
qed

lemma simplify_rows:
  assumes "rows_inv n s" and "set is \<subseteq> {1..pp_clauses (rs_prep s)}" and v: "v \<in> {1..n}" and val: "val = 1 \<or> val = -1"
    and "\<And>j. j \<in> set (active_rows (rs_prep s)) \<Longrightarrow> - (val * int v) \<notin> set (pp_row (rs_prep s) j)"
  shows "case ofold (simplify_pure_clause v val) is s of
      None \<Rightarrow> \<forall>b. lit_sat b (val * int v) \<longrightarrow> \<not> models (rs_prep s) b
    | Some t \<Rightarrow> lit_done n (val * int v) (set is) s t"
  using assms(1,2,5)
proof (induction "is" arbitrary: s)
  case Nil
  then show ?case by (simp add: lit_done_def pure_frame_refl)
next
  case (Cons i "is")
  have r: "row_result n (val * int v) i s (simplify_pure_clause v val i s)"
    by (rule simplify_pure_row [OF Cons.prems(1) _ v val Cons.prems(3)]) (use Cons.prems(2) in simp_all)
  show ?case
  proof (cases "simplify_pure_clause v val i s")
    case None
    then show ?thesis using r by (simp add: row_result_def)
  next
    case (Some t)
    have t: "lit_done n (val * int v) {i} s t" using r Some by (simp add: row_result_def row_done_lit)
    have inv: "rows_inv n t" using t by (simp add: lit_done_def)
    have "pp_clauses (rs_prep t) = pp_clauses (rs_prep s)" using t pure_fields(1) by (simp add: lit_done_def)
    then have "set is \<subseteq> {1..pp_clauses (rs_prep t)}" using Cons.prems(2) by simp
    moreover have "- (val * int v) \<notin> set (pp_row (rs_prep t) j)" if "j \<in> set (active_rows (rs_prep t))" for j
      using t that Cons.prems(3) unfolding lit_done_def by blast
    ultimately have ih: "case ofold (simplify_pure_clause v val) is t of
        None \<Rightarrow> \<forall>b. lit_sat b (val * int v) \<longrightarrow> \<not> models (rs_prep t) b
      | Some u \<Rightarrow> lit_done n (val * int v) (set is) t u" using Cons.IH [OF inv] by blast
    show ?thesis
    proof (cases "ofold (simplify_pure_clause v val) is t")
      case None
      then show ?thesis using ih t by (simp add: Some lit_done_def)
    next
      case (Some u)
      then have "lit_done n (val * int v) (set is) t u" using ih by simp
      from lit_done_trans [OF t this] show ?thesis using Some \<open>simplify_pure_clause v val i s = Some t\<close> by simp
    qed
  qed
qed

end
