(* ===== verification/Prep_Res_Main.thy ===== *)
theory Prep_Res_Main
  imports Prep_Res_Pure_Loop
begin

text \<open>The pure stage as a whole.\<close>

section \<open>The invariant\<close>

definition occ_sub :: "nat \<Rightarrow> preproc \<Rightarrow> bool" where
  "occ_sub n p \<longleftrightarrow> (\<forall>l. l \<noteq> 0 \<longrightarrow> lit_var l \<le> n \<longrightarrow> set (occ p l) \<subseteq> {1..pp_clauses p}
     \<and> (\<forall>i\<in>set (active_rows p). l \<in> set (pp_row p i) \<longrightarrow> i \<in> set (occ p l)))"

lemma occ_inv_sub: "occ_inv n p \<Longrightarrow> occ_sub n p"
  by (simp add: occ_inv_def occ_sub_def)

text \<open>The values assigned so far, and their effect on an assignment.\<close>

type_synonym choices = "nat \<rightharpoonup> int"

definition chosen :: "choices \<Rightarrow> (nat \<Rightarrow> bool) \<Rightarrow> nat \<Rightarrow> bool" where
  "chosen A b v = (case A v of None \<Rightarrow> b v | Some x \<Rightarrow> x = 1)"

lemma chosen_empty [simp]: "chosen (\<lambda>_. None) b = b"
  by (simp add: chosen_def fun_eq_iff)

lemma chosen_upd: "A v = None \<Longrightarrow> chosen (A(v \<mapsto> x)) b = chosen A (b(v := (x = 1)))"
  by (auto simp: chosen_def fun_eq_iff split: option.splits)

definition pure_maps :: "preproc \<Rightarrow> choices \<Rightarrow> preproc \<Rightarrow> bool" where
  "pure_maps p0 A q \<longleftrightarrow> pp_clauses q = pp_clauses p0 \<and> pp_vars q = pp_vars p0 \<and> pp_mapfrom q = pp_mapfrom p0
     \<and> pp_orivars q = pp_orivars p0 \<and> pp_res_clauses q = pp_res_clauses p0 \<and> pp_res_clause q = pp_res_clause p0
     \<and> pp_res_degree q = pp_res_degree p0 \<and> pp_res_owner q = pp_res_owner p0 \<and> pp_resolution q = pp_resolution p0
     \<and> (\<forall>u. pp_mapto q u = (if u \<in> pp_mapfrom p0 ` dom A then 0 else pp_mapto p0 u))
     \<and> (\<forall>u. u \<notin> pp_mapfrom p0 ` dom A \<longrightarrow> pp_mapval q u = pp_mapval p0 u)
     \<and> (\<forall>v x. A v = Some x \<longrightarrow> pp_mapval q (pp_mapfrom p0 v) = x)"

definition pure_inv :: "nat \<Rightarrow> nat set \<Rightarrow> preproc \<Rightarrow> choices \<Rightarrow> res_state \<Rightarrow> bool" where
  "pure_inv n E p0 A s \<longleftrightarrow> rows_inv n s \<and> occ_sub n (rs_prep s) \<and> pure_maps p0 A (rs_prep s)
     \<and> dom A \<subseteq> {1..n} \<and> ran A \<subseteq> {1, -1} \<and> dom A \<inter> E = {}
     \<and> (\<forall>v\<in>dom A \<union> E. pp_clean (rs_prep s) v \<noteq> 0 \<and> v \<notin> used_vars (rs_prep s))
     \<and> (\<forall>b. models (rs_prep s) b \<longleftrightarrow> models p0 (chosen A b)) \<and> (\<forall>b. models p0 b \<longrightarrow> models p0 (chosen A b))"

lemma pure_invD:
  assumes "pure_inv n E p0 A s"
  shows "rows_inv n s" "occ_sub n (rs_prep s)" "pure_maps p0 A (rs_prep s)" "dom A \<subseteq> {1..n}" "ran A \<subseteq> {1, -1}" "dom A \<inter> E = {}"
    "\<And>v. v \<in> dom A \<union> E \<Longrightarrow> pp_clean (rs_prep s) v \<noteq> 0" "\<And>v. v \<in> dom A \<union> E \<Longrightarrow> v \<notin> used_vars (rs_prep s)"
    "\<And>b. models (rs_prep s) b \<longleftrightarrow> models p0 (chosen A b)" "\<And>b. models p0 b \<Longrightarrow> models p0 (chosen A b)"
  using assms unfolding pure_inv_def by blast+

lemma pure_invI:
  assumes "rows_inv n s" "occ_sub n (rs_prep s)" "pure_maps p0 A (rs_prep s)" "dom A \<subseteq> {1..n}" "ran A \<subseteq> {1, -1}" "dom A \<inter> E = {}"
    "\<And>v. v \<in> dom A \<union> E \<Longrightarrow> pp_clean (rs_prep s) v \<noteq> 0" "\<And>v. v \<in> dom A \<union> E \<Longrightarrow> v \<notin> used_vars (rs_prep s)"
    "\<And>b. models (rs_prep s) b \<longleftrightarrow> models p0 (chosen A b)" "\<And>b. models p0 b \<Longrightarrow> models p0 (chosen A b)"
  shows "pure_inv n E p0 A s"
  using assms unfolding pure_inv_def by blast

section \<open>Writing the maps only\<close>

definition map_clean :: "(nat \<Rightarrow> int) \<Rightarrow> (nat \<Rightarrow> int) \<Rightarrow> (nat \<Rightarrow> int) \<Rightarrow> res_state \<Rightarrow> res_state" where
  "map_clean mv mt c s = s\<lparr>rs_prep := (rs_prep s)\<lparr>pp_mapval := mv, pp_mapto := mt, pp_clean := c\<rparr>\<rparr>"

lemma map_clean_frame [simp]:
  "active_rows (p\<lparr>pp_mapval := mv\<rparr>) = active_rows p" "active_rows (p\<lparr>pp_mapto := mt\<rparr>) = active_rows p"
  "cnt (p\<lparr>pp_mapval := mv\<rparr>) l = cnt p l" "cnt (p\<lparr>pp_mapto := mt\<rparr>) l = cnt p l"
  "occ (p\<lparr>pp_mapval := mv\<rparr>) l = occ p l" "occ (p\<lparr>pp_mapto := mt\<rparr>) l = occ p l"
  "models (p\<lparr>pp_mapval := mv\<rparr>) = models p" "models (p\<lparr>pp_mapto := mt\<rparr>) = models p"
  by (simp_all add: active_rows_def cnt_def occ_def act_rows_def models_def fun_eq_iff)

lemma map_clean_inv [simp]: "rows_inv n (map_clean mv mt c s) = rows_inv n s"
  by (simp add: rows_inv_def map_clean_def)

lemma map_clean_potential [simp]: "potential n (map_clean mv mt c s) = potential n s"
  by (simp add: map_clean_def)

section \<open>One pure literal\<close>

lemma pure_sign:
  assumes inv: "rows_inv n s" and v: "v \<in> {1..n}" and one: "\<not> (rs_pos_count s v \<noteq> 0 \<and> rs_neg_count s v \<noteq> 0)"
  defines "val \<equiv> (if rs_pos_count s v \<noteq> 0 then 1 else -1 :: int)"
  shows "j \<in> set (active_rows (rs_prep s)) \<Longrightarrow> - (val * int v) \<notin> set (pp_row (rs_prep s) j)"
proof
  assume j: "j \<in> set (active_rows (rs_prep s))" "- (val * int v) \<in> set (pp_row (rs_prep s) j)"
  let ?m = "- (val * int v)"
  have m: "?m \<noteq> 0" "lit_var ?m = v" using v by (auto simp: val_def lit_var_def)
  have "lit_count s ?m = 0" using one v by (auto simp: lit_count_def lit_var_def val_def)
  then have "cnt (rs_prep s) ?m = 0" using rows_invD(6) [OF inv m(1)] v m(2) by simp
  then show False using j by (simp add: cnt_def filter_empty_conv)
qed

lemma rows_without:
  assumes "v \<notin> used_vars p"
  shows "models p (b(v := x)) = models p b"
proof -
  have "row_sat (b(v := x)) (pp_row p i) (pp_deg p i) = row_sat b (pp_row p i) (pp_deg p i)" if "i \<in> set (active_rows p)" for i
    by (rule row_sat_other) (use assms that in \<open>auto simp: used_vars_def\<close>)
  then show ?thesis by (simp add: models_iff)
qed

lemma row_sat_raise:
  assumes "- l \<notin> set c" and "l \<noteq> 0" and "row_sat b c d"
  shows "row_sat (b(lit_var l := (l > 0))) c d"
proof -
  define b' where "b' = b(lit_var l := (l > 0))"
  have "row_count b c \<le> row_count b' c"
    using assms(1)
  proof (induction c)
    case (Cons m c)
    have "lit_sat b' m" if "lit_sat b m"
    proof (cases "lit_var m = lit_var l")
      case True
      then have "m = l" using Cons.prems same_lit_var [of m l] by auto
      then show ?thesis by (simp add: lit_sat_def b'_def)
    qed (use that in \<open>simp add: lit_sat_def b'_def\<close>)
    moreover have "row_count b c \<le> row_count b' c" using Cons by simp
    ultimately show ?case by simp
  qed simp
  then show ?thesis using assms(3) by (simp add: row_sat_def b'_def)
qed

lemma pure_maps_step:
  assumes m: "pure_maps p0 A p" and v: "A v = None" "v \<in> {1..n}" "dom A \<subseteq> {1..n}" and inj: "inj_on (pp_mapfrom p0) {1..n}"
  shows "pure_maps p0 (A(v \<mapsto> x)) (p\<lparr>pp_mapval := (pp_mapval p)(pp_mapfrom p v := x), pp_mapto := (pp_mapto p)(pp_mapfrom p v := 0), pp_clean := c\<rparr>)"
proof -
  have mf: "pp_mapfrom p = pp_mapfrom p0" using m by (simp add: pure_maps_def)
  have ne: "pp_mapfrom p0 u \<noteq> pp_mapfrom p0 v" if "u \<in> dom A" for u
  proof
    assume "pp_mapfrom p0 u = pp_mapfrom p0 v"
    moreover have "u \<in> {1..n}" using that v(3) by blast
    ultimately have "u = v" using inj v(2) by (meson inj_onD)
    then show False using that v(1) by (simp add: domIff)
  qed
  have d: "pp_mapfrom p0 ` dom (A(v \<mapsto> x)) = insert (pp_mapfrom p0 v) (pp_mapfrom p0 ` dom A)" by auto
  have val: "((pp_mapval p)(pp_mapfrom p0 v := x)) (pp_mapfrom p0 u) = y" if "(A(v \<mapsto> x)) u = Some y" for u y
  proof (cases "u = v")
    case False
    then have a: "A u = Some y" using that by simp
    then have "pp_mapfrom p0 u \<noteq> pp_mapfrom p0 v" using ne by blast
    then show ?thesis using m a by (simp add: pure_maps_def)
  qed (use that in simp)
  show ?thesis
    unfolding pure_maps_def d mf using m val by (simp add: pure_maps_def)
qed

lemma assign_pure_step:
  assumes inv: "pure_inv n E p0 A s" and v: "v \<in> {1..n}" "pp_clean (rs_prep s) v = 0"
    and one: "\<not> (rs_pos_count s v \<noteq> 0 \<and> rs_neg_count s v \<noteq> 0)" and inj: "inj_on (pp_mapfrom p0) {1..n}"
  shows "case assign_pure v s of None \<Rightarrow> \<forall>b. \<not> models p0 b
    | Some t \<Rightarrow> (\<exists>A'. pure_inv n E p0 A' t) \<and> potential n t \<le> potential n s"
proof -
  define p where "p = rs_prep s"
  define val where "val = (if rs_pos_count s v \<noteq> 0 then 1 else -1 :: int)"
  define l where "l = val * int v"
  define s1 where "s1 = map_clean ((pp_mapval p)(pp_mapfrom p v := val)) ((pp_mapto p)(pp_mapfrom p v := 0)) ((pp_clean p)(v := 1)) s"
  note d = pure_invD [OF inv, folded p_def]
  have val: "val = 1 \<or> val = -1" by (simp add: val_def)
  have l: "l \<noteq> 0" "lit_var l = v" "(l > 0) = (val = 1)" using v val by (auto simp: l_def lit_var_def)
  have s1p: "rs_prep s1 = p\<lparr>pp_mapval := (pp_mapval p)(pp_mapfrom p v := val), pp_mapto := (pp_mapto p)(pp_mapfrom p v := 0), pp_clean := (pp_clean p)(v := 1)\<rparr>"
    by (simp add: s1_def map_clean_def p_def)
  have s1: "rows_inv n s1" "potential n s1 = potential n s" using d(1) by (simp_all add: s1_def)
  have s1f: "active_rows (rs_prep s1) = active_rows p" "pp_row (rs_prep s1) = pp_row p" "pp_clauses (rs_prep s1) = pp_clauses p"
    "occ (rs_prep s1) m = occ p m" "models (rs_prep s1) = models p" for m by (simp_all add: s1p)
  have as: "assign_pure v s = ofold (simplify_pure_clause v val) (occ p l) s1"
  proof -
    have o: "occ p l = (if val > 0 then pp_occurp p v else pp_occurn p v)" using l val by (auto simp: occ_def)
    show ?thesis
      unfolding assign_pure_def Let_def val_def [symmetric] p_def [symmetric] s1_def map_clean_def o by simp
  qed
  have os: "set (occ p l) \<subseteq> {1..pp_clauses p}" "\<And>i. i \<in> set (active_rows p) \<Longrightarrow> l \<in> set (pp_row p i) \<Longrightarrow> i \<in> set (occ p l)"
    using d(2) l v by (auto simp: occ_sub_def)
  have neg: "- l \<notin> set (pp_row p j)" if "j \<in> set (active_rows p)" for j
    using pure_sign [OF d(1) v(1) one] that by (simp add: p_def l_def val_def)
  have neg1: "- (val * int v) \<notin> set (pp_row (rs_prep s1) j)" if "j \<in> set (active_rows (rs_prep s1))" for j
    using neg that by (simp add: s1f l_def)
  have r: "case assign_pure v s of None \<Rightarrow> \<forall>b. lit_sat b l \<longrightarrow> \<not> models p b | Some t \<Rightarrow> lit_done n l (set (occ p l)) s1 t"
    using simplify_rows [OF s1(1) _ v(1) val neg1, of "occ p l"] os(1) unfolding as s1f l_def by blast
  define up where "up = (\<lambda>b :: nat \<Rightarrow> bool. b(v := (val = 1)))"
  have up: "lit_sat (up b) l" for b using l by (simp add: up_def lit_sat_def)
  have raise: "models p (up b)" if "models p b" for b
    using that row_sat_raise [OF neg l(1)] unfolding models_iff up_def l(2,3) by blast
  have va: "v \<notin> dom A" using d(7) v(2) by (auto simp: p_def)
  show ?thesis
  proof (cases "assign_pure v s")
    case None
    have "\<not> models p0 b" for b
    proof
      assume "models p0 b"
      then have "models p b" using d(9,10) by blast
      then show False using raise up r None by auto
    qed
    then show ?thesis by (simp add: None)
  next
    case (Some t)
    have t: "lit_done n l (set (occ p l)) s1 t" using r Some by simp
    then have tf: "pure_frame (rs_prep s1) (rs_prep t)" by (simp add: lit_done_def)
    note f = pure_fields [OF tf]
    have act: "set (active_rows (rs_prep t)) \<subseteq> set (active_rows p)" using t by (simp add: lit_done_def s1f)
    have row: "set (pp_row (rs_prep t) j) \<subseteq> set (pp_row p j)" if "j \<in> set (active_rows (rs_prep t))" for j
      using t that by (simp add: lit_done_def s1p)
    have gone: "l \<notin> set (pp_row (rs_prep t) j)" if j: "j \<in> set (active_rows (rs_prep t))" for j
    proof
      assume a: "l \<in> set (pp_row (rs_prep t) j)"
      then have "j \<in> set (occ p l)" using os(2) act row j by blast
      then show False using t j a by (simp add: lit_done_def)
    qed
    have used: "used_vars (rs_prep t) \<subseteq> used_vars p" using act row unfolding used_vars_def by blast
    have vu: "v \<notin> used_vars (rs_prep t)"
    proof
      assume "v \<in> used_vars (rs_prep t)"
      then obtain j m where j: "j \<in> set (active_rows (rs_prep t))" "m \<in> set (pp_row (rs_prep t) j)" "v = lit_var m"
        by (auto simp: used_vars_def)
      then have "m = l \<or> m = - l" using same_lit_var [of m l] l by simp
      then show False using gone [OF j(1)] neg act row [OF j(1)] j by blast
    qed
    have mod: "models (rs_prep t) b \<longleftrightarrow> models p (up b)" for b
    proof -
      have "models (rs_prep t) b \<longleftrightarrow> models (rs_prep t) (up b)" using rows_without [OF vu] by (simp add: up_def)
      then show ?thesis using t up by (simp add: lit_done_def s1f)
    qed
    have ch: "chosen (A(v \<mapsto> val)) b = chosen A (up b)" for b
      using chosen_upd [of A v val b] va by (simp add: up_def domIff)
    have "pure_inv n E p0 (A(v \<mapsto> val)) t"
    proof (rule pure_invI)
      show "rows_inv n t" using t by (simp add: lit_done_def)
      show "occ_sub n (rs_prep t)"
        unfolding occ_sub_def
      proof (intro allI impI conjI ballI)
        fix m :: int assume m: "m \<noteq> 0" "lit_var m \<le> n"
        have o: "occ (rs_prep t) m = occ p m" by (simp add: occ_def f s1p)
        show "set (occ (rs_prep t) m) \<subseteq> {1..pp_clauses (rs_prep t)}" using d(2) m by (simp add: o f s1p occ_sub_def)
        fix i assume i: "i \<in> set (active_rows (rs_prep t))" "m \<in> set (pp_row (rs_prep t) i)"
        have "i \<in> set (active_rows p)" "m \<in> set (pp_row p i)" using act row [OF i(1)] i by blast+
        then show "i \<in> set (occ (rs_prep t) m)" using d(2) m by (simp add: o occ_sub_def)
      qed
      have pm: "pure_maps p0 (A(v \<mapsto> val)) (rs_prep s1)"
        unfolding s1p by (rule pure_maps_step [OF d(3) _ v(1) d(4) inj]) (use va in \<open>simp add: domIff\<close>)
      then show "pure_maps p0 (A(v \<mapsto> val)) (rs_prep t)"
        unfolding pure_maps_def f by simp
      show "dom (A(v \<mapsto> val)) \<subseteq> {1..n}" using d(4) v by simp
      show "ran (A(v \<mapsto> val)) \<subseteq> {1, -1}"
        using d(5) val va by (auto simp: ran_map_upd domIff)
      have vE: "v \<notin> E" using d(7) v(2) by (auto simp: p_def)
      then show "dom (A(v \<mapsto> val)) \<inter> E = {}" using d(6) by simp
      show "pp_clean (rs_prep t) u \<noteq> 0" if "u \<in> dom (A(v \<mapsto> val)) \<union> E" for u
        using that d(7) [of u] by (auto simp: f s1p)
      show "u \<notin> used_vars (rs_prep t)" if "u \<in> dom (A(v \<mapsto> val)) \<union> E" for u
        using that d(8) [of u] used vu by auto
      show "models (rs_prep t) b \<longleftrightarrow> models p0 (chosen (A(v \<mapsto> val)) b)" for b
        unfolding mod ch using d(9) by simp
      show "models p0 (chosen (A(v \<mapsto> val)) b)" if "models p0 b" for b
        unfolding ch using raise that d(9,10) by blast
    qed
    moreover have "potential n t \<le> potential n s" using t s1(2) by (simp add: lit_done_def)
    ultimately show ?thesis using Some by auto
  qed
qed

end
