(* ===== verification/Prep_Res_Props.thy ===== *)
theory Prep_Res_Props
  imports Prep_Res_Main
begin

text \<open>
  \<open>preprocess_resolution\<close> returns, refutes only rows without a model, and otherwise leaves a state
  whose models extend to models of the rows.
\<close>

section \<open>The loop over the candidates\<close>

lemma enqueue_initial_frame:
  "rs_prep (enqueue_initial v s) = rs_prep s" "rs_pos_count (enqueue_initial v s) = rs_pos_count s"
  "rs_neg_count (enqueue_initial v s) = rs_neg_count s" "lit_count (enqueue_initial v s) l = lit_count s l"
  "set (rs_pure_queue (enqueue_initial v s)) \<subseteq> insert v (set (rs_pure_queue s))"
  by (auto simp: enqueue_initial_def enqueue_pure_candidate_def lit_count_def)

lemma enqueue_initial_inv:
  assumes "rows_inv n s" and "v \<in> {1..n}"
  shows "rows_inv n (enqueue_initial v s)"
proof (rule rows_invI, unfold enqueue_initial_frame)
  show "set (rs_pure_queue (enqueue_initial v s)) \<subseteq> {1..n}"
    using enqueue_initial_frame(5) [of v s] rows_invD(7) [OF assms(1)] assms(2) by blast
qed (use rows_invD [OF assms(1)] in simp_all)

lemma enqueue_initial_fold:
  assumes "rows_inv n s" and "set vs \<subseteq> {1..n}"
  shows "rows_inv n (fold enqueue_initial vs s) \<and> rs_prep (fold enqueue_initial vs s) = rs_prep s"
  using assms by (induction vs arbitrary: s) (simp_all add: enqueue_initial_inv enqueue_initial_frame)

definition only_clean :: "preproc \<Rightarrow> preproc \<Rightarrow> bool" where
  "only_clean p q \<longleftrightarrow> q = p\<lparr>pp_clean := pp_clean q\<rparr>"

lemma only_clean_upd: "only_clean p q \<Longrightarrow> only_clean p (q\<lparr>pp_clean := c\<rparr>)"
  by (cases p; cases q; simp add: only_clean_def)

definition pure_loop_inv :: "nat \<Rightarrow> nat set \<Rightarrow> preproc \<Rightarrow> nat \<times> bool \<times> res_state option \<Rightarrow> bool" where
  "pure_loop_inv n E p0 = (\<lambda>(head, changed, r). case r of
       None \<Rightarrow> \<forall>b. \<not> models p0 b
     | Some s \<Rightarrow> (\<exists>A. pure_inv n E p0 A s)
         \<and> (\<not> changed \<longrightarrow> E = {} \<and> only_clean p0 (rs_prep s)))"

definition pure_measure :: "nat \<Rightarrow> nat \<times> bool \<times> res_state option \<Rightarrow> nat" where
  "pure_measure n = (\<lambda>(head, changed, r). case r of None \<Rightarrow> 0 | Some s \<Rightarrow> nat (potential n s - int head))"

lemma potential_queue:
  assumes "rows_inv n s"
  shows "int (length (rs_pure_queue s)) \<le> potential n s"
proof -
  have "0 \<le> rs_pos_count s v + rs_neg_count s v" if "v \<in> {1..n}" for v
  proof -
    have l: "int v \<noteq> 0" "- int v \<noteq> 0" "lit_var (int v) = v" "lit_var (- int v) = v" using that by (simp_all add: lit_var_def)
    have "lit_count s (int v) = rs_pos_count s v" "lit_count s (- int v) = rs_neg_count s v"
      using that by (simp_all add: lit_count_def l)
    then show ?thesis using rows_invD(6) [OF assms l(1)] rows_invD(6) [OF assms l(2)] that l by simp
  qed
  then have "0 \<le> (\<Sum>v\<in>{1..n}. rs_pos_count s v + rs_neg_count s v)" by (rule sum_nonneg)
  then show ?thesis by (simp add: potential_def)
qed

text \<open>A round removes one candidate and writes flags only, unless it assigns the variable.\<close>

lemma pure_inv_flags:
  assumes "pure_inv n E p0 A s" and "rs_prep t = (rs_prep s)\<lparr>pp_clean := c\<rparr>" and "\<And>v. pp_clean (rs_prep s) v \<noteq> 0 \<Longrightarrow> c v \<noteq> 0"
    and "rs_pos_count t = rs_pos_count s" "rs_neg_count t = rs_neg_count s" "rs_pure_queue t = rs_pure_queue s"
  shows "pure_inv n E p0 A t"
proof -
  note d = pure_invD [OF assms(1)]
  have "lit_count t l = lit_count s l" for l using assms by (simp add: lit_count_def)
  then have "rows_inv n t" using rows_invD [OF d(1)] assms by (intro rows_invI) simp_all
  moreover have "occ_sub n (rs_prep t)" using d(2) assms(2) by (simp add: occ_sub_def)
  moreover have "pure_maps p0 A (rs_prep t)" using d(3) by (simp add: assms(2) pure_maps_def)
  moreover have "pp_clean (rs_prep t) v \<noteq> 0" if "v \<in> dom A \<union> E" for v using assms(3) d(7) [OF that] by (simp add: assms(2))
  moreover have "v \<notin> used_vars (rs_prep t)" if "v \<in> dom A \<union> E" for v using d(8) [OF that] by (simp add: assms(2))
  moreover have "models (rs_prep t) b \<longleftrightarrow> models p0 (chosen A b)" for b using d(9) by (simp add: assms(2))
  ultimately show ?thesis using d(4-6,10) by (intro pure_invI)
qed

lemma pure_round_ok:
  assumes inv: "pure_loop_inv n E p0 x" and more: "pure_more x" and inj: "inj_on (pp_mapfrom p0) {1..n}"
  shows "pure_loop_inv n E p0 (pure_round x)" and "pure_measure n (pure_round x) < pure_measure n x"
proof -
  obtain head changed s where x: "x = (head, changed, Some s)" and head: "head < length (rs_pure_queue s)"
    using more by (cases x) (auto simp: pure_more_def split: option.splits)
  obtain A where A: "pure_inv n E p0 A s" using inv by (auto simp: x pure_loop_inv_def)
  have oc: "\<not> changed \<longrightarrow> E = {} \<and> only_clean p0 (rs_prep s)" using inv by (simp add: x pure_loop_inv_def)
  note d = pure_invD [OF A]
  define v where "v = rs_pure_queue s ! head"
  define s1 where "s1 = s\<lparr>rs_in_pure_queue := (rs_in_pure_queue s)(v := False)\<rparr>"
  have v: "v \<in> {1..n}" using rows_invD(7) [OF d(1)] nth_mem [OF head] unfolding v_def by blast
  have s1: "rs_prep s1 = rs_prep s" "rs_pos_count s1 = rs_pos_count s" "rs_neg_count s1 = rs_neg_count s"
    "rs_pure_queue s1 = rs_pure_queue s" by (simp_all add: s1_def)
  have A1: "pure_inv n E p0 A s1" by (rule pure_inv_flags [OF A, where c = "pp_clean (rs_prep s)"]) (simp_all add: s1)
  have pot: "potential n s1 = potential n s" by (simp add: potential_def s1)
  have pq: "int (length (rs_pure_queue t)) \<le> potential n t" if "pure_inv n E p0 B t" for B t
    by (rule potential_queue [OF pure_invD(1) [OF that]])
  have lt: "nat (potential n t - int (head + 1)) < nat (potential n s - int head)" if "potential n t \<le> potential n s" for t
    using that pq [OF A] head by linarith
  have round: "pure_round x = (if pp_clean (rs_prep s) v \<noteq> 0 \<or> rs_pos_count s v \<noteq> 0 \<and> rs_neg_count s v \<noteq> 0
            then (head + 1, changed, Some s1)
            else if rs_pos_count s v = 0 \<and> rs_neg_count s v = 0
            then (head + 1, changed, Some (s1\<lparr>rs_prep := (rs_prep s1)\<lparr>pp_clean := (pp_clean (rs_prep s1))(v := 1)\<rparr>\<rparr>))
            else (head + 1, True, assign_pure v s1))"
    by (simp add: pure_round_def x v_def [symmetric] s1_def [symmetric] s1 Let_def)
  have "pure_loop_inv n E p0 (pure_round x) \<and> pure_measure n (pure_round x) < pure_measure n x"
  proof (cases "pp_clean (rs_prep s) v \<noteq> 0 \<or> rs_pos_count s v \<noteq> 0 \<and> rs_neg_count s v \<noteq> 0")
    case True
    then have r: "pure_round x = (head + 1, changed, Some s1)" using round by simp
    show ?thesis unfolding r using A1 oc head lt [of s1] pot
      by (auto simp: pure_loop_inv_def pure_measure_def x s1)
  next
    case c: False
    show ?thesis
    proof (cases "rs_pos_count s v = 0 \<and> rs_neg_count s v = 0")
      case True
      define t where "t = s1\<lparr>rs_prep := (rs_prep s1)\<lparr>pp_clean := (pp_clean (rs_prep s1))(v := 1)\<rparr>\<rparr>"
      have r: "pure_round x = (head + 1, changed, Some t)" using round c True by (simp add: t_def)
      have tp: "rs_prep t = (rs_prep s)\<lparr>pp_clean := (pp_clean (rs_prep s))(v := 1)\<rparr>" by (simp add: t_def s1)
      have tf: "rs_pos_count t = rs_pos_count s" "rs_neg_count t = rs_neg_count s" "rs_pure_queue t = rs_pure_queue s"
        by (simp_all add: t_def s1)
      have "pure_inv n E p0 A t" by (rule pure_inv_flags [OF A tp]) (simp_all add: tf)
      moreover have "potential n t = potential n s" by (simp add: potential_def tf)
      moreover have "only_clean p0 (rs_prep t)" if "only_clean p0 (rs_prep s)"
        using that unfolding tp by (rule only_clean_upd)
      ultimately show ?thesis unfolding r using oc head lt [of t]
        by (auto simp: pure_loop_inv_def pure_measure_def x tf)
    next
      case False
      then have r: "pure_round x = (head + 1, True, assign_pure v s1)" unfolding round by (simp only: c False if_False)
      have st: "case assign_pure v s1 of None \<Rightarrow> \<forall>b. \<not> models p0 b
        | Some t \<Rightarrow> (\<exists>A'. pure_inv n E p0 A' t) \<and> potential n t \<le> potential n s1"
        by (rule assign_pure_step [OF A1 v _ _ inj]) (use c in \<open>simp_all add: s1\<close>)
      show ?thesis
      proof (cases "assign_pure v s1")
        case None
        then show ?thesis unfolding r using st pq [OF A] head
          by (simp add: pure_loop_inv_def pure_measure_def x)
      next
        case (Some t)
        then obtain B where B: "pure_inv n E p0 B t" "potential n t \<le> potential n s" using st pot by auto
        then show ?thesis unfolding r Some using B lt [of t]
          by (auto simp: pure_loop_inv_def pure_measure_def x)
      qed
    qed
  qed
  then show "pure_loop_inv n E p0 (pure_round x)" "pure_measure n (pure_round x) < pure_measure n x" by blast+
qed

lemma pure_loop_end:
  assumes "pure_loop_inv n E p0 x" and "inj_on (pp_mapfrom p0) {1..n}"
  shows "\<exists>y. while_option pure_more pure_round x = Some y \<and> pure_loop_inv n E p0 y"
proof -
  have "\<exists>y. while_option pure_more pure_round x = Some y"
    by (rule measure_while_option_Some [where P = "pure_loop_inv n E p0" and f = "pure_measure n"])
       (use pure_round_ok [OF _ _ assms(2)] assms(1) in blast)+
  then obtain y where y: "while_option pure_more pure_round x = Some y" by blast
  have "pure_loop_inv n E p0 y"
    by (rule while_option_rule [where P = "pure_loop_inv n E p0", OF _ y assms(1)]) (use pure_round_ok(1) [OF _ _ assms(2)] in blast)
  then show ?thesis using y by blast
qed

section \<open>The function as a whole\<close>

text \<open>Without an elimination the loop over the variables has changed nothing.\<close>

lemma eliminate_same:
  assumes "eliminate_var v (elim, s) = Some (elim', s')"
  shows "elim' = elim \<and> s' = s \<or> elim' = elim @ [v]"
  using assms unfolding eliminate_var_def Let_def prod.case
  by (auto split: if_splits option.splits)

lemma eliminate_none:
  assumes "ofold eliminate_var vs (elim, s) = Some (elim', s')"
  shows "length elim \<le> length elim' \<and> (length elim' = length elim \<longrightarrow> s' = s)"
  using assms
proof (induction vs arbitrary: elim s)
  case (Cons v vs)
  obtain e t where e: "eliminate_var v (elim, s) = Some (e, t)" using Cons.prems by (auto split: option.splits)
  then have o: "ofold eliminate_var vs (e, t) = Some (elim', s')" using Cons.prems by simp
  have "length e \<le> length elim'" "length elim' = length e \<longrightarrow> s' = t" using Cons.IH [OF o] by simp_all
  then show ?case using eliminate_same [OF e] by auto
qed simp

text \<open>The result in terms of the two stages: \<open>s1\<close> after the eliminations of the groups \<open>rg\<close>, and
  \<open>p2\<close> after the choices \<open>A\<close> of pure literals.\<close>

definition res_stages :: "preproc \<Rightarrow> row_group list \<Rightarrow> preproc \<Rightarrow> choices \<Rightarrow> res_state \<Rightarrow> bool" where
  "res_stages p rg p1 A s2 \<longleftrightarrow>
     (\<exists>s1. rs_prep s1 = p1 \<and> elim_inv (pp_vars p) (rs_prep (res_start p)) rg (map fst (rev rg), s1))
     \<and> pure_inv (pp_vars p) (fst ` set rg) p1 A s2"

lemma preprocess_resolution_cases:
  assumes ok: "res_input_ok p" and inj: "inj_on (pp_mapfrom p) {1..pp_vars p}"
  shows "preprocess_resolution p = Some None \<and> (\<forall>b. \<not> rows_sat b (pp_rows p))
    \<or> (\<exists>rg p1 A s2. res_stages p rg p1 A s2
        \<and> (preprocess_resolution p = Some (Some (res_finish (map fst (rev rg)) (rs_prep s2)))
           \<or> preprocess_resolution p = Some (Some (rs_prep s2)) \<and> rg = []
               \<and> only_clean (rs_prep (res_start p)) (rs_prep s2)))"
proof -
  define s where "s = res_start p"
  define n where "n = pp_vars p"
  note st = res_start_ok [OF ok, folded s_def n_def]
  have vars: "pp_vars (rs_prep s) = n" using rows_invD(1) [OF elim_invD(1) [OF st(1)]] by simp
  have el: "elim_state n (rs_prep s) n (ofold eliminate_var [1..<Suc n] ([], s))"
    by (rule eliminate_loop [OF st(1,2)]) simp
  have mods: "models (rs_prep s) b \<longleftrightarrow> rows_sat b (pp_rows p)" for b
    unfolding s_def by (rule res_start_models [OF ok])
  have alt: "preprocess_resolution p = (case ofold eliminate_var [1..<Suc n] ([], s) of
           None \<Rightarrow> Some None
         | Some (elim, s) \<Rightarrow>
             let s = fold enqueue_initial [1..<Suc (pp_vars (rs_prep s))] s
             in (case while_option pure_more pure_round (0, elim \<noteq> [], Some s) of
                   None \<Rightarrow> None
                 | Some (_, _, None) \<Rightarrow> Some None
                 | Some (_, changed, Some s) \<Rightarrow>
                     Some (Some (if changed then res_finish elim (rs_prep s) else rs_prep s))))"
    unfolding preprocess_resolution_def Let_def s_def [symmetric] vars ..
  show ?thesis
  proof (cases "ofold eliminate_var [1..<Suc n] ([], s)")
    case None
    then have "preprocess_resolution p = Some None" unfolding alt by simp
    moreover have "\<forall>b. \<not> rows_sat b (pp_rows p)" using el mods unfolding None elim_state_def option.case by simp
    ultimately show ?thesis by blast
  next
    case (Some x)
    obtain elim s1 where x: "x = (elim, s1)" by fastforce
    obtain rg where rg: "elim_inv n (rs_prep s) rg (elim, s1)" using el unfolding Some x elim_state_def option.case by blast
    note d = elim_invD [OF rg]
    define p1 where "p1 = rs_prep s1"
    define s1' where "s1' = fold enqueue_initial [1..<Suc (pp_vars (rs_prep s1))] s1"
    have v1: "pp_vars (rs_prep s1) = n" using rows_invD(1) [OF d(1)] by simp
    have sub: "set [1..<Suc n] \<subseteq> {1..n}" by auto
    have f: "rows_inv n s1'" "rs_prep s1' = p1"
      using enqueue_initial_fold [OF d(1) sub] by (simp_all add: s1'_def v1 p1_def del: upt_Suc)
    have E: "set elim = fst ` set rg" using d(4) by simp
    have Es: "set elim \<subseteq> {1..n}" using el unfolding Some x elim_state_def option.case by simp
    have mf: "pp_mapfrom p1 = pp_mapfrom p"
      using d(3) st(4) by (simp add: elim_frame_def res_core_def p1_def)
    have inj1: "inj_on (pp_mapfrom p1) {1..n}" using inj by (simp add: mf n_def)
    have "pure_maps p1 (\<lambda>_. None) p1" by (simp add: pure_maps_def)
    moreover have "pp_clean p1 v \<noteq> 0 \<and> v \<notin> used_vars p1" if "v \<in> set elim" for v
      using that Es d(7) d(8) unfolding p1_def by blast
    ultimately have i0: "pure_inv n (set elim) p1 (\<lambda>_. None) s1'"
      using f occ_inv_sub [OF d(2)] by (intro pure_invI) (auto simp: p1_def)
    have same: "elim = [] \<Longrightarrow> s1 = s" using eliminate_none [OF Some [unfolded x]] by simp
    have "pure_loop_inv n (set elim) p1 (0, elim \<noteq> [], Some s1')"
      using i0 f by (auto simp: pure_loop_inv_def only_clean_def)
    from pure_loop_end [OF this inj1] obtain y where
      y: "while_option pure_more pure_round (0, elim \<noteq> [], Some s1') = Some y" "pure_loop_inv n (set elim) p1 y" by blast
    obtain h changed r where yr: "y = (h, changed, r)" by (cases y) auto
    have res: "preprocess_resolution p = (case r of None \<Rightarrow> Some None
        | Some s \<Rightarrow> Some (Some (if changed then res_finish elim (rs_prep s) else rs_prep s)))"
      unfolding alt Some x option.case prod.case Let_def s1'_def [symmetric] y(1) yr by (simp split: option.split)
    show ?thesis
    proof (cases r)
      case None
      then have "\<not> models p1 b" for b using y(2) by (simp add: yr pure_loop_inv_def)
      then have "\<not> rows_sat b (pp_rows p)" for b using d(10) mods unfolding p1_def by blast
      then show ?thesis using res None by simp
    next
      case r: (Some s2)
      obtain A where A: "pure_inv n (set elim) p1 A s2" using y(2) by (auto simp: yr r pure_loop_inv_def)
      have e: "elim = map fst (rev rg)" by (rule d(4))
      have stages: "res_stages p rg p1 A s2"
        unfolding res_stages_def n_def [symmetric] s_def [symmetric] using rg A unfolding E [symmetric] e [symmetric] p1_def by blast
      show ?thesis
      proof (cases changed)
        case True
        then show ?thesis using stages res r e by auto
      next
        case False
        then have oc: "set elim = {}" "only_clean p1 (rs_prep s2)" using y(2) by (simp_all add: yr r pure_loop_inv_def)
        then have "only_clean (rs_prep s) (rs_prep s2)" using same by (simp add: p1_def)
        then show ?thesis using stages res r oc(1) e False unfolding s_def by auto
      qed
    qed
  qed
qed

end
