(* ===== verification/Prep_Res_Maps.thy ===== *)
theory Prep_Res_Maps
  imports Prep_Res_Props
begin

text \<open>
  The end of \<open>preprocess_resolution\<close>: the record of the eliminated variables, the relabelling and
  the new maps; and what the state as a whole says about the variables of the file.
\<close>

section \<open>The maps\<close>

text \<open>The value that a state gives to an original variable, as \<open>Solver::run\<close> computes it.\<close>

definition sgn_of :: "bool \<Rightarrow> int" where
  "sgn_of b = (if b then 1 else -1)"

definition orig_val :: "preproc \<Rightarrow> (nat \<Rightarrow> bool) \<Rightarrow> nat \<Rightarrow> int" where
  "orig_val p b i = (if pp_mapto p i \<noteq> 0 then sgn_of (b (nat \<bar>pp_mapto p i\<bar>)) * pnsign (pp_mapto p i) else pp_mapval p i)"

text \<open>The maps as \<open>preprocess_up\<close> leaves them.\<close>

definition maps_ok :: "preproc \<Rightarrow> bool" where
  "maps_ok p \<longleftrightarrow> (\<forall>i\<in>{1..pp_orivars p}. if pp_mapto p i = 0 then pp_mapval p i = 1 \<or> pp_mapval p i = -1
        else pp_mapval p i = 0 \<and> nat (pp_mapto p i) \<in> {1..pp_vars p} \<and> pp_mapto p i = int (nat (pp_mapto p i))
          \<and> pp_mapfrom p (nat (pp_mapto p i)) = i)
     \<and> (\<forall>v\<in>{1..pp_vars p}. pp_mapfrom p v \<in> {1..pp_orivars p} \<and> pp_mapto p (pp_mapfrom p v) = int v)"

lemma maps_inj: "maps_ok p \<Longrightarrow> inj_on (pp_mapfrom p) {1..pp_vars p}"
  unfolding maps_ok_def inj_on_def by (metis of_nat_eq_iff)

section \<open>The last steps\<close>

definition maps_frame :: "preproc \<Rightarrow> preproc \<Rightarrow> bool" where
  "maps_frame p q \<longleftrightarrow> q = p\<lparr>pp_resolution := pp_resolution q, pp_mapto := pp_mapto q, pp_mapval := pp_mapval q\<rparr>"

lemma maps_frame_refl: "maps_frame p p"
  by (simp add: maps_frame_def)

lemma maps_frame_trans: "maps_frame p q \<Longrightarrow> maps_frame q r \<Longrightarrow> maps_frame p r"
  by (cases p; cases q; cases r; simp add: maps_frame_def)

lemma maps_frame_fields:
  assumes "maps_frame p q"
  shows "pp_clauses q = pp_clauses p" "pp_vars q = pp_vars p" "pp_mapfrom q = pp_mapfrom p" "pp_orivars q = pp_orivars p"
    "pp_clause q = pp_clause p" "pp_degree q = pp_degree p" "pp_clause_delete q = pp_clause_delete p" "pp_color q = pp_color p"
    "pp_res_clauses q = pp_res_clauses p" "pp_res_clause q = pp_res_clause p" "pp_res_degree q = pp_res_degree p"
    "pp_res_owner q = pp_res_owner p" "pp_resolutions q = pp_resolutions p"
proof -
  have q: "q = p\<lparr>pp_resolution := pp_resolution q, pp_mapto := pp_mapto q, pp_mapval := pp_mapval q\<rparr>"
    using assms by (simp add: maps_frame_def)
  show "pp_clauses q = pp_clauses p" "pp_vars q = pp_vars p" "pp_mapfrom q = pp_mapfrom p" "pp_orivars q = pp_orivars p"
    "pp_clause q = pp_clause p" "pp_degree q = pp_degree p" "pp_clause_delete q = pp_clause_delete p" "pp_color q = pp_color p"
    "pp_res_clauses q = pp_res_clauses p" "pp_res_clause q = pp_res_clause p" "pp_res_degree q = pp_res_degree p"
    "pp_res_owner q = pp_res_owner p" "pp_resolutions q = pp_resolutions p"
    by (subst q, simp)+
qed

lemma record_resolution_step:
  "maps_frame p (record_resolution v p)" "pp_resolution (record_resolution v p) = pp_resolution p @ [pp_mapfrom p v]"
  "pp_mapto (record_resolution v p) u = (if u = pp_mapfrom p v then 0 else pp_mapto p u)"
  "pp_mapval (record_resolution v p) u = (if u = pp_mapfrom p v then -10 else pp_mapval p u)"
  by (simp_all add: record_resolution_def Let_def maps_frame_def)

lemma fold_record_resolution:
  fixes vs p
  defines "q \<equiv> fold record_resolution vs p"
  shows "maps_frame p q" and "pp_resolution q = pp_resolution p @ map (pp_mapfrom p) vs"
    and "pp_mapto q u = (if u \<in> pp_mapfrom p ` set vs then 0 else pp_mapto p u)"
    and "pp_mapval q u = (if u \<in> pp_mapfrom p ` set vs then -10 else pp_mapval p u)"
proof -
  have "maps_frame p q \<and> pp_resolution q = pp_resolution p @ map (pp_mapfrom p) vs
    \<and> (\<forall>u. pp_mapto q u = (if u \<in> pp_mapfrom p ` set vs then 0 else pp_mapto p u))
    \<and> (\<forall>u. pp_mapval q u = (if u \<in> pp_mapfrom p ` set vs then -10 else pp_mapval p u))"
    unfolding q_def
  proof (induction vs arbitrary: p)
    case Nil
    then show ?case by (simp add: maps_frame_refl)
  next
    case (Cons v vs)
    define r where "r = record_resolution v p"
    note st = record_resolution_step [where p = p and v = v, folded r_def]
    have mf: "pp_mapfrom r = pp_mapfrom p" by (rule maps_frame_fields(3) [OF st(1)])
    note ih = Cons.IH [of r, unfolded mf]
    have "fold record_resolution (v # vs) p = fold record_resolution vs r" by (simp add: r_def)
    then show ?case using ih st maps_frame_trans [OF st(1)] by simp
  qed
  then show "maps_frame p q" and "pp_resolution q = pp_resolution p @ map (pp_mapfrom p) vs"
    and "pp_mapto q u = (if u \<in> pp_mapfrom p ` set vs then 0 else pp_mapto p u)"
    and "pp_mapval q u = (if u \<in> pp_mapfrom p ` set vs then -10 else pp_mapval p u)" by blast+
qed

definition res_mapped :: "preproc \<Rightarrow> nat \<Rightarrow> int \<times> int" where
  "res_mapped p i =
     (let t = (if pp_mapto p i \<noteq> 0 then int (pp_color p (nat (pp_mapto p i))) else 0)
      in (t, if t = 0 \<and> pp_mapval p i = 0 then 1 else pp_mapval p i))"

lemma res_map_var_step:
  "maps_frame p (res_map_var i p)" "pp_resolution (res_map_var i p) = pp_resolution p"
  "pp_mapto (res_map_var i p) u = (if u = i then fst (res_mapped p i) else pp_mapto p u)"
  "pp_mapval (res_map_var i p) u = (if u = i then snd (res_mapped p i) else pp_mapval p u)"
  by (simp_all add: res_map_var_def Let_def maps_frame_def res_mapped_def)

lemma fold_res_map:
  fixes vs p
  assumes "distinct vs"
  defines "q \<equiv> fold res_map_var vs p"
  shows "maps_frame p q" and "pp_resolution q = pp_resolution p"
    and "pp_mapto q u = (if u \<in> set vs then fst (res_mapped p u) else pp_mapto p u)"
    and "pp_mapval q u = (if u \<in> set vs then snd (res_mapped p u) else pp_mapval p u)"
proof -
  have "maps_frame p q \<and> pp_resolution q = pp_resolution p
    \<and> (\<forall>u. pp_mapto q u = (if u \<in> set vs then fst (res_mapped p u) else pp_mapto p u))
    \<and> (\<forall>u. pp_mapval q u = (if u \<in> set vs then snd (res_mapped p u) else pp_mapval p u))"
    unfolding q_def using assms(1)
  proof (induction vs arbitrary: p)
    case Nil
    then show ?case by (simp add: maps_frame_refl)
  next
    case (Cons v vs)
    define r where "r = res_map_var v p"
    note st = res_map_var_step [where p = p and i = v, folded r_def]
    have "pp_color r = pp_color p" by (rule maps_frame_fields(8) [OF st(1)])
    then have same: "res_mapped r u = res_mapped p u" if "u \<noteq> v" for u using that st by (simp add: res_mapped_def)
    have vn: "v \<notin> set vs" "distinct vs" using Cons.prems by simp_all
    note ih = Cons.IH [OF vn(2), of r]
    have u: "res_mapped r u = res_mapped p u" if "u \<in> set vs" for u by (rule same) (use that vn(1) in auto)
    have "fold res_map_var (v # vs) p = fold res_map_var vs r" by (simp add: r_def)
    then show ?case using ih st(2-) u vn(1) maps_frame_trans [OF st(1)] by auto
  qed
  then show "maps_frame p q" and "pp_resolution q = pp_resolution p"
    and "pp_mapto q u = (if u \<in> set vs then fst (res_mapped p u) else pp_mapto p u)"
    and "pp_mapval q u = (if u \<in> set vs then snd (res_mapped p u) else pp_mapval p u)" by blast+
qed

section \<open>What a state says about the variables of the file\<close>

definition var_val :: "preproc \<Rightarrow> nat \<Rightarrow> (nat \<Rightarrow> nat) \<Rightarrow> (nat \<Rightarrow> bool) \<Rightarrow> nat \<Rightarrow> bool" where
  "var_val q n mf b u \<longleftrightarrow> u \<in> {1..n} \<and> orig_val q b (mf u) = 1"

text \<open>Every model of the rows, read through the maps, satisfies \<open>S\<close>.\<close>

definition decodes :: "((nat \<Rightarrow> bool) \<Rightarrow> bool) \<Rightarrow> preproc \<Rightarrow> bool" where
  "decodes S p \<longleftrightarrow> (\<forall>b a. rows_sat b (pp_rows p) \<longrightarrow> (\<forall>i\<in>{1..pp_orivars p}. a i \<longleftrightarrow> orig_val p b i = 1) \<longrightarrow> S a)"

text \<open>The arrays for the reconstruction hold the groups \<open>rg\<close>, in the variables \<open>mf\<close> of the file.\<close>

definition keeps_groups :: "(nat \<Rightarrow> nat) \<Rightarrow> row_group list \<Rightarrow> preproc \<Rightarrow> bool" where
  "keeps_groups mf rg q \<longleftrightarrow> pp_res_clauses q = length (group_rows rg)
     \<and> pp_res_clause q = [] # map (\<lambda>r. map (\<lambda>l. pnsign l * int (mf (lit_var l))) (fst r)) (group_rows rg)
     \<and> pp_res_degree q = 0 # map snd (group_rows rg)
     \<and> pp_res_owner q = 0 # concat (map (\<lambda>g. replicate (length (snd g)) (mf (fst g))) (rev rg))
     \<and> pp_resolution q = 0 # map (\<lambda>g. mf (fst g)) (rev rg) \<and> pp_resolutions q = length rg"

definition shape_ok :: "preproc \<Rightarrow> bool" where
  "shape_ok q \<longleftrightarrow> rows_ok q \<and> length (pp_clause q) = Suc (pp_clauses q) \<and> length (pp_degree q) = Suc (pp_clauses q)
     \<and> Suc (pp_clauses q) \<le> length (pp_clause_delete q)"

text \<open>The eliminated variables are those with the value -10, all others are mapped or have a value;
  every model of the rows recovers the groups and so satisfies \<open>S\<close>.\<close>

definition maps_range :: "nat set \<Rightarrow> preproc \<Rightarrow> bool" where
  "maps_range E q \<longleftrightarrow> (\<forall>i\<in>{1..pp_orivars q}. if i \<in> E then pp_mapto q i = 0 \<and> pp_mapval q i = -10
     else if pp_mapto q i = 0 then pp_mapval q i = 1 \<or> pp_mapval q i = -1
     else nat \<bar>pp_mapto q i\<bar> \<in> {1..pp_vars q})"

definition recovers_all :: "((nat \<Rightarrow> bool) \<Rightarrow> bool) \<Rightarrow> nat \<Rightarrow> (nat \<Rightarrow> nat) \<Rightarrow> row_group list \<Rightarrow> preproc \<Rightarrow> bool" where
  "recovers_all S n mf rg q \<longleftrightarrow> (\<forall>b. rows_sat b (pp_rows q) \<longrightarrow> recovers rg (var_val q n mf b)
     \<and> (\<forall>a. (\<forall>u\<in>{1..n}. a (mf u) \<longleftrightarrow> fold recover_step rg (var_val q n mf b) u) \<longrightarrow>
          (\<forall>i\<in>{1..pp_orivars q}. i \<notin> mf ` {1..n} \<longrightarrow> (a i \<longleftrightarrow> orig_val q b i = 1)) \<longrightarrow> S a))"

definition groups_at :: "nat \<Rightarrow> (nat \<Rightarrow> nat) \<Rightarrow> row_group list \<Rightarrow> preproc \<Rightarrow> bool" where
  "groups_at n mf rg q \<longleftrightarrow> inj_on mf {1..n} \<and> mf ` {1..n} \<subseteq> {1..pp_orivars q} \<and> groups_wf n rg \<and> keeps_groups mf rg q
     \<and> maps_range (mf ` fst ` set rg) q"

definition recoverable :: "((nat \<Rightarrow> bool) \<Rightarrow> bool) \<Rightarrow> preproc \<Rightarrow> bool" where
  "recoverable S q \<longleftrightarrow> shape_ok q \<and> (\<exists>n mf rg. groups_at n mf rg q \<and> recovers_all S n mf rg q)"

lemma recovers_allD:
  assumes "recovers_all S n mf rg q" and "rows_sat b (pp_rows q)"
    and "\<forall>u\<in>{1..n}. a (mf u) \<longleftrightarrow> fold recover_step rg (var_val q n mf b) u"
    and "\<forall>i\<in>{1..pp_orivars q}. i \<notin> mf ` {1..n} \<longrightarrow> (a i \<longleftrightarrow> orig_val q b i = 1)"
  shows "S a"
  using assms(1) [unfolded recovers_all_def, rule_format, OF assms(2), THEN conjunct2] assms(3,4) by blast

lemma groups_vars: "groups_wf n rg \<Longrightarrow> fst ` set rg \<subseteq> {1..n}"
  by (induction rg) auto

section \<open>The finished state\<close>

definition finish_core :: "nat list \<Rightarrow> preproc \<Rightarrow> preproc" where
  "finish_core elim p = fold record_resolution elim (p\<lparr>pp_resolutions := length elim\<rparr>)"

lemma finish_core_fields:
  fixes elim p
  defines "q \<equiv> finish_core elim p"
  shows "pp_clauses q = pp_clauses p" "pp_vars q = pp_vars p" "pp_mapfrom q = pp_mapfrom p" "pp_orivars q = pp_orivars p"
    "pp_clause q = pp_clause p" "pp_degree q = pp_degree p" "pp_clause_delete q = pp_clause_delete p"
    "pp_res_clauses q = pp_res_clauses p" "pp_res_clause q = pp_res_clause p" "pp_res_degree q = pp_res_degree p"
    "pp_res_owner q = pp_res_owner p" "pp_resolutions q = length elim"
    "pp_resolution q = pp_resolution p @ map (pp_mapfrom p) elim"
    "pp_mapto q u = (if u \<in> pp_mapfrom p ` set elim then 0 else pp_mapto p u)"
    "pp_mapval q u = (if u \<in> pp_mapfrom p ` set elim then -10 else pp_mapval p u)"
    "active_rows q = active_rows p" "used_vars q = used_vars p"
proof -
  note r = fold_record_resolution [where vs = elim and p = "p\<lparr>pp_resolutions := length elim\<rparr>", folded finish_core_def q_def]
  note f = maps_frame_fields [OF r(1)]
  show g: "pp_clauses q = pp_clauses p" "pp_vars q = pp_vars p" "pp_mapfrom q = pp_mapfrom p" "pp_orivars q = pp_orivars p"
    "pp_clause q = pp_clause p" "pp_degree q = pp_degree p" "pp_clause_delete q = pp_clause_delete p"
    "pp_res_clauses q = pp_res_clauses p" "pp_res_clause q = pp_res_clause p" "pp_res_degree q = pp_res_degree p"
    "pp_res_owner q = pp_res_owner p" "pp_resolutions q = length elim"
    "pp_resolution q = pp_resolution p @ map (pp_mapfrom p) elim"
    "pp_mapto q u = (if u \<in> pp_mapfrom p ` set elim then 0 else pp_mapto p u)"
    "pp_mapval q u = (if u \<in> pp_mapfrom p ` set elim then -10 else pp_mapval p u)"
    by (simp_all add: f r(2-))
  show a: "active_rows q = active_rows p" by (simp add: active_rows_def g)
  show "used_vars q = used_vars p" by (simp add: used_vars_def a g)
qed

lemma rows_inv_active_ok: "rows_inv n s \<Longrightarrow> active_ok (rs_prep s)"
  using rows_invD [of n s] unfolding active_ok_def good_row_def by auto

lemma active_ok_frame:
  assumes "active_ok p" "pp_clauses q = pp_clauses p" "pp_vars q = pp_vars p" "pp_clause q = pp_clause p" "pp_degree q = pp_degree p"
    "active_rows q = active_rows p"
  shows "active_ok q"
  using assms by (simp add: active_ok_def)

text \<open>The finished state in terms of the state \<open>p\<close> before: the relabelling of the used variables
  and the maps.\<close>

lemma res_finish_ok:
  fixes elim p
  assumes ok: "active_ok p" and cd: "length (pp_clause_delete p) = Suc (pp_clauses p)"
    and mt: "\<forall>i\<in>{1..pp_orivars p}. pp_mapto p i = int (nat (pp_mapto p i)) \<and> nat (pp_mapto p i) \<le> pp_vars p"
  defines "q \<equiv> res_finish elim p" and "num \<equiv> var_number (used_vars p)"
  shows "shape_ok q" and "pp_orivars q = pp_orivars p" and "pp_vars q = card (used_vars p)"
    and "\<And>a b. \<forall>v\<in>used_vars p. a v = b (num v) \<Longrightarrow> rows_sat b (pp_rows q) \<longleftrightarrow> models p a"
    and "pp_res_clauses q = pp_res_clauses p" "pp_res_clause q = pp_res_clause p" "pp_res_degree q = pp_res_degree p"
    "pp_res_owner q = pp_res_owner p" "pp_resolutions q = length elim"
    "pp_resolution q = pp_resolution p @ map (pp_mapfrom p) elim"
    and "\<And>i. i \<in> {1..pp_orivars p} \<Longrightarrow> pp_mapto q i = (if i \<in> pp_mapfrom p ` set elim \<or> pp_mapto p i = 0 then 0 else int (num (nat (pp_mapto p i))))"
    and "\<And>i. i \<in> {1..pp_orivars p} \<Longrightarrow> pp_mapval q i = (if i \<in> pp_mapfrom p ` set elim then -10
        else if pp_mapto q i = 0 \<and> pp_mapval p i = 0 then 1 else pp_mapval p i)"
proof -
  define p4 where "p4 = finish_core elim p"
  define p5 where "p5 = update_var_clause_label p4"
  note c = finish_core_fields [where elim = elim and p = p, folded p4_def]
  have q: "q = fold res_map_var [1..<Suc (pp_orivars p5)] p5"
    by (simp only: q_def res_finish_def Let_def p5_def p4_def finish_core_def)
  have ok4: "active_ok p4" by (rule active_ok_frame [OF ok c(1,2,5,6,16)])
  note rl = relabel_ok [OF ok4, folded p5_def]
  have p5: "pp_orivars p5 = pp_orivars p4" "pp_mapto p5 = pp_mapto p4" "pp_mapval p5 = pp_mapval p4" "pp_clause_delete p5 = pp_clause_delete p4"
    "pp_res_clauses p5 = pp_res_clauses p4" "pp_res_clause p5 = pp_res_clause p4" "pp_res_degree p5 = pp_res_degree p4"
    "pp_res_owner p5 = pp_res_owner p4" "pp_resolutions p5 = pp_resolutions p4" "pp_resolution p5 = pp_resolution p4"
    by (subst rl(7), simp)+
  have vs: "distinct [1..<Suc (pp_orivars p5)]" by simp
  note m = fold_res_map [OF vs, where p = p5, folded q]
  note f = maps_frame_fields [OF m(1)]
  have rows: "pp_rows q = pp_rows p5" by (simp add: pp_rows_def f)
  show "pp_orivars q = pp_orivars p" "pp_vars q = card (used_vars p)" by (simp_all add: f p5 c rl(2))
  show "pp_res_clauses q = pp_res_clauses p" "pp_res_clause q = pp_res_clause p" "pp_res_degree q = pp_res_degree p"
    "pp_res_owner q = pp_res_owner p" "pp_resolutions q = length elim" by (simp_all add: f p5 c)
  show "pp_resolution q = pp_resolution p @ map (pp_mapfrom p) elim" by (simp add: m(2) p5 c)
  have cl: "pp_clauses p5 \<le> pp_clauses p4"
  proof -
    have "pp_clauses p5 = length (pp_rows p5)" by (simp add: pp_rows_def)
    also have "\<dots> = length (active_rows p4)" by (simp add: rl(4))
    also have "\<dots> \<le> pp_clauses p4" using length_filter_le [of _ "[1..<Suc (pp_clauses p4)]"] by (simp add: active_rows_def del: upt_Suc)
    finally show ?thesis .
  qed
  show "shape_ok q"
    using rl(1,5,6) cl cd by (simp add: shape_ok_def rows_ok_def f p5 c)
  show "rows_sat b (pp_rows q) \<longleftrightarrow> models p a" if ab: "\<forall>v\<in>used_vars p. a v = b (num v)" for a b
  proof -
    have "rows_sat b (pp_rows p5) \<longleftrightarrow> (\<forall>i\<in>set (active_rows p4). row_sat a (pp_row p4 i) (pp_deg p4 i))"
      unfolding p5_def by (rule relabel_models [OF ok4]) (use ab in \<open>simp add: c num_def\<close>)
    then show ?thesis by (simp add: rows models_iff c)
  qed
  have col: "pp_color p5 v = num v" if "v \<in> {1..pp_vars p}" for v
    using rl(3) that by (simp add: c num_def)
  have in_set: "i \<in> set [1..<Suc (pp_orivars p5)]" if "i \<in> {1..pp_orivars p}" for i using that by (auto simp: p5 c)
  show mto: "pp_mapto q i = (if i \<in> pp_mapfrom p ` set elim \<or> pp_mapto p i = 0 then 0 else int (num (nat (pp_mapto p i))))"
    if i: "i \<in> {1..pp_orivars p}" for i
  proof -
    have "pp_mapto q i = fst (res_mapped p5 i)" using m(3) in_set [OF i] by simp
    moreover have "nat (pp_mapto p i) \<in> {1..pp_vars p}" if "pp_mapto p i \<noteq> 0" using mt [rule_format, OF i] that by (cases "nat (pp_mapto p i)") auto
    ultimately show ?thesis using col by (auto simp: res_mapped_def Let_def p5 c)
  qed
  show "pp_mapval q i = (if i \<in> pp_mapfrom p ` set elim then -10
        else if pp_mapto q i = 0 \<and> pp_mapval p i = 0 then 1 else pp_mapval p i)" if i: "i \<in> {1..pp_orivars p}" for i
    using m(3,4) in_set [OF i] by (simp add: res_mapped_def Let_def p5 c)
qed

end
