(* ===== verification/Prep_Res_Correct.thy ===== *)
theory Prep_Res_Correct
  imports Prep_Res_Maps
begin

text \<open>The contract of \<open>preprocess_resolution\<close>, from the maps of unit propagation to the state that a
  model is recovered from.\<close>

text \<open>The map of the pure stage, on an original variable.\<close>

lemma stage_facts:
  assumes ok: "res_input_ok p" and st: "res_stages p rg p1 A s2"
  defines "n \<equiv> pp_vars p" and "s \<equiv> rs_prep (res_start p)" and "p2 \<equiv> rs_prep s2"
  shows "pure_inv n (fst ` set rg) p1 A s2" and "groups_wf n rg" and "stores p1 rg" and "fst ` set rg \<inter> used_vars p2 = {}"
    and "\<And>b. models p1 b \<Longrightarrow> recovers rg b \<and> rows_sat (fold recover_step rg b) (pp_rows p)"
    and "\<And>b. rows_sat b (pp_rows p) \<Longrightarrow> models p1 b"
    and "pp_mapfrom p2 = pp_mapfrom p" and "pp_orivars p2 = pp_orivars p" and "pp_vars p2 = n"
    and "\<And>u. pp_mapto p2 u = (if u \<in> pp_mapfrom p ` dom A then 0 else pp_mapto p u)"
    and "\<And>u. u \<notin> pp_mapfrom p ` dom A \<Longrightarrow> pp_mapval p2 u = pp_mapval p u"
    and "\<And>v x. A v = Some x \<Longrightarrow> pp_mapval p2 (pp_mapfrom p v) = x"
    and "stores p2 rg" and "pp_resolution p2 = [0]"
proof -
  obtain s1 where s1: "rs_prep s1 = p1" "elim_inv n s rg (map fst (rev rg), s1)" and pure: "pure_inv n (fst ` set rg) p1 A s2"
    using st by (auto simp: res_stages_def n_def s_def)
  note d = elim_invD [OF s1(2), unfolded s1(1)]
  note e = pure_invD [OF pure, folded p2_def]
  note c = res_start_ok [OF ok, folded s_def]
  note pm = e(3) [unfolded pure_maps_def]
  have mf: "pp_mapfrom p1 = pp_mapfrom p" "pp_mapto p1 = pp_mapto p" "pp_mapval p1 = pp_mapval p" "pp_orivars p1 = pp_orivars p"
    using d(3) c(4) by (simp_all add: elim_frame_def res_core_def)
  show "pure_inv n (fst ` set rg) p1 A s2" by (rule pure)
  show "groups_wf n rg" "stores p1 rg" by (rule d)+
  show "fst ` set rg \<inter> used_vars p2 = {}" using e(8) by blast
  show "recovers rg b \<and> rows_sat (fold recover_step rg b) (pp_rows p)" if "models p1 b" for b
    using d(9) [OF that] res_start_models [OF ok] by (simp add: s_def)
  show "models p1 b" if "rows_sat b (pp_rows p)" for b
    using d(10) that res_start_models [OF ok] by (simp add: s_def)
  show m2: "pp_mapfrom p2 = pp_mapfrom p" and "pp_orivars p2 = pp_orivars p" and "pp_vars p2 = n"
    using pm mf rows_invD(1) [OF e(1)] by (simp_all add: p2_def)
  show "pp_mapto p2 u = (if u \<in> pp_mapfrom p ` dom A then 0 else pp_mapto p u)" for u using pm mf by simp
  show "pp_mapval p2 u = pp_mapval p u" if "u \<notin> pp_mapfrom p ` dom A" for u using pm mf that by simp
  show "pp_mapval p2 (pp_mapfrom p v) = x" if "A v = Some x" for v x using pm mf that by simp
  show "stores p2 rg" using d(6) pm stored_frame [OF m2 [folded mf(1)]] by (simp add: stores_def)
  have "pp_resolution s = [0]" by (rule c(7))
  then show "pp_resolution p2 = [0]" using pm d(3) by (simp add: elim_frame_def)
qed

lemma stores_keeps:
  assumes "stores p rg" and "pp_res_clauses q = pp_res_clauses p" "pp_res_clause q = pp_res_clause p"
    "pp_res_degree q = pp_res_degree p" "pp_res_owner q = pp_res_owner p" "pp_resolutions q = length rg"
    "pp_resolution q = 0 # map (pp_mapfrom p) (map fst (rev rg))"
  shows "keeps_groups (pp_mapfrom p) rg q"
  using assms by (simp add: stores_def keeps_groups_def stored_row_def comp_def)

text \<open>An original variable is either the image of a variable, or it had a value before.\<close>

lemma maps_cases:
  assumes "maps_ok p" and "i \<in> {1..pp_orivars p}"
  obtains (var) v where "v \<in> {1..pp_vars p}" "i = pp_mapfrom p v" "pp_mapto p i = int v" "pp_mapval p i = 0"
  | (val) "pp_mapto p i = 0" "i \<notin> pp_mapfrom p ` {1..pp_vars p}" "pp_mapval p i = 1 \<or> pp_mapval p i = -1"
proof (cases "pp_mapto p i = 0")
  case True
  have "i \<notin> pp_mapfrom p ` {1..pp_vars p}"
  proof
    assume "i \<in> pp_mapfrom p ` {1..pp_vars p}"
    then obtain v where "v \<in> {1..pp_vars p}" "i = pp_mapfrom p v" by blast
    then have "pp_mapto p i = int v" "0 < v" using assms(1) by (simp_all add: maps_ok_def)
    then show False using True by simp
  qed
  then show ?thesis using val True assms by (simp add: maps_ok_def)
next
  case False
  then have "nat (pp_mapto p i) \<in> {1..pp_vars p}" "pp_mapfrom p (nat (pp_mapto p i)) = i" "pp_mapval p i = 0"
    "pp_mapto p i = int (nat (pp_mapto p i))"
    using assms unfolding maps_ok_def by meson+
  then show ?thesis using var [of "nat (pp_mapto p i)"] by simp
qed

lemma var_maps:
  assumes "maps_ok p" and "v \<in> {1..pp_vars p}"
  shows "pp_mapfrom p v \<in> {1..pp_orivars p}" and "pp_mapto p (pp_mapfrom p v) = int v"
  using assms by (auto simp: maps_ok_def)

lemma orig_val_var:
  assumes "maps_ok p" and "v \<in> {1..pp_vars p}"
  shows "orig_val p b (pp_mapfrom p v) = sgn_of (b v)"
  using var_maps(2) [OF assms] assms(2) by (simp add: orig_val_def pnsign_def)

lemma mapfrom_image:
  assumes "maps_ok p" and "S \<subseteq> {1..pp_vars p}" and "v \<in> {1..pp_vars p}"
  shows "pp_mapfrom p v \<in> pp_mapfrom p ` S \<longleftrightarrow> v \<in> S"
  using inj_on_image_mem_iff [OF maps_inj [OF assms(1)] assms(3,2)] .

lemma sgn_of_1 [simp]: "sgn_of b = 1 \<longleftrightarrow> b"
  by (simp add: sgn_of_def)

text \<open>The finished state: what it says about each original variable.\<close>

lemma finished_maps:
  assumes ok: "res_input_ok p" and maps: "maps_ok p" and st: "res_stages p rg p1 A s2"
  defines "p2 \<equiv> rs_prep s2" and "n \<equiv> pp_vars p" and "N \<equiv> pp_orivars p"
  defines "q \<equiv> res_finish (map fst (rev rg)) p2" and "U \<equiv> used_vars p2"
  shows "shape_ok q" and "pp_orivars q = N" and "keeps_groups (pp_mapfrom p) rg q"
    and "\<And>a b. \<forall>v\<in>U. a v = b (var_number U v) \<Longrightarrow> rows_sat b (pp_rows q) \<longleftrightarrow> models p2 a"
    and "maps_range (pp_mapfrom p ` fst ` set rg) q"
    and "\<And>i b. i \<in> {1..N} \<Longrightarrow> i \<notin> pp_mapfrom p ` {1..n} \<Longrightarrow> orig_val q b i = pp_mapval p i"
    and "\<And>v x b. A v = Some x \<Longrightarrow> orig_val q b (pp_mapfrom p v) = x"
    and "\<And>v b. v \<in> U \<Longrightarrow> orig_val q b (pp_mapfrom p v) = sgn_of (b (var_number U v))"
    and "pp_vars q \<le> n"
proof -
  note f = stage_facts [OF ok st, folded p2_def n_def]
  note e = pure_invD [OF f(1), folded p2_def]
  define mf where "mf = pp_mapfrom p"
  define E where "E = mf ` fst ` set rg"
  have act: "active_ok p2" using rows_inv_active_ok [OF e(1)] by (simp add: p2_def)
  have Un: "U \<subseteq> {1..n}" using active_ok_used [OF act] f(9) by (simp add: U_def)
  have fin: "finite U" using Un finite_subset by blast
  have rgn: "fst ` set rg \<subseteq> {1..n}" by (rule groups_vars [OF f(2)])
  have mem: "mf v \<in> mf ` S \<longleftrightarrow> v \<in> S" if "S \<subseteq> {1..n}" "v \<in> {1..n}" for S v
    using mapfrom_image [OF maps] that by (simp add: mf_def n_def)
  have mfN: "mf v \<in> {1..N}" "pp_mapto p (mf v) = int v" if "v \<in> {1..n}" for v
    using var_maps [OF maps] that by (simp_all add: mf_def n_def N_def)
  have mt: "pp_mapto p2 i = int (nat (pp_mapto p2 i)) \<and> nat (pp_mapto p2 i) \<le> pp_vars p2" if "i \<in> {1..pp_orivars p2}" for i
    by (rule maps_cases [OF maps, of i]) (use that f(8-10) in \<open>auto simp: N_def n_def\<close>)
  have cd: "length (pp_clause_delete p2) = Suc (pp_clauses p2)" using rows_invD(4) [OF e(1)] by (simp add: p2_def)
  have mt': "\<forall>i\<in>{1..pp_orivars p2}. pp_mapto p2 i = int (nat (pp_mapto p2 i)) \<and> nat (pp_mapto p2 i) \<le> pp_vars p2" using mt by blast
  note r = res_finish_ok [OF act cd mt', where elim = "map fst (rev rg)", folded q_def U_def]
  show "shape_ok q" by (rule r(1))
  show "pp_vars q \<le> n" using r(3) card_mono [OF _ Un] by simp
  show N: "pp_orivars q = N" using r(2) f(8) by (simp add: N_def)
  show "keeps_groups (pp_mapfrom p) rg q"
    using stores_keeps [OF f(13), of q] r(5-10) f(7,14) by simp
  show "rows_sat b (pp_rows q) \<longleftrightarrow> models p2 a" if "\<forall>v\<in>U. a v = b (var_number U v)" for a b
    by (rule r(4) [OF that])
  have E_elim: "pp_mapfrom p2 ` set (map fst (rev rg)) = E" by (simp add: f(7) E_def mf_def)
  have to: "pp_mapto q i = (if i \<in> E \<or> i \<in> mf ` dom A \<or> pp_mapto p i = 0 then 0 else int (var_number U (nat (pp_mapto p i))))"
    if "i \<in> {1..N}" for i
    using r(11) [of i] that f(8) unfolding E_elim by (simp add: f(10) mf_def N_def)
  have val: "pp_mapval q i = (if i \<in> E then -10 else if pp_mapto q i = 0 \<and> pp_mapval p2 i = 0 then 1 else pp_mapval p2 i)"
    if "i \<in> {1..N}" for i
    using r(12) [of i] that f(8) unfolding E_elim by (simp add: N_def)
  have unE: "i \<notin> E" "i \<notin> mf ` dom A" if "i \<notin> mf ` {1..n}" for i
    using that rgn e(4) by (auto simp: E_def)
  have A1: "mf v \<notin> E" "v \<in> {1..n}" "mf v \<in> mf ` dom A" if "A v = Some x" for v x
  proof -
    have v: "v \<in> dom A" using that by auto
    then show vn: "v \<in> {1..n}" using e(4) by blast
    show "mf v \<in> mf ` dom A" using v by blast
    show "mf v \<notin> E" unfolding E_def using mem [OF rgn vn] e(6) v by blast
  qed
  have Ax: "x = 1 \<or> x = -1" if "A v = Some x" for v x using e(5) that by (auto simp: ran_def)
  have p2v: "pp_mapval p2 (mf v) = x" if "A v = Some x" for v x using f(12) [OF that] by (simp add: mf_def)
  show old: "orig_val q b i = pp_mapval p i" if i: "i \<in> {1..N}" "i \<notin> pp_mapfrom p ` {1..n}" for i b
  proof -
    have u: "i \<notin> E" "i \<notin> mf ` dom A" using unE i(2) by (simp_all add: mf_def)
    have p: "pp_mapto p i = 0" "pp_mapval p i \<noteq> 0"
      by (rule maps_cases [OF maps, of i]; use i in \<open>auto simp: N_def n_def\<close>)+
    have "pp_mapval p2 i = pp_mapval p i" using f(11) u(2) by (simp add: mf_def)
    then show ?thesis using to [OF i(1)] val [OF i(1)] u p by (simp add: orig_val_def)
  qed
  show chosen: "orig_val q b (pp_mapfrom p v) = x" if a: "A v = Some x" for v x b
    using to [OF mfN(1) [OF A1(2) [OF a]]] val [OF mfN(1) [OF A1(2) [OF a]]] A1 [OF a] Ax [OF a] p2v [OF a]
    by (auto simp: orig_val_def mf_def)
  have un: "v \<notin> fst ` set rg" "v \<notin> dom A" "v \<in> {1..n}" if "v \<in> U" for v
    using that e(8) [of v] Un by (auto simp: U_def p2_def)
  have usedto: "pp_mapto q (mf v) = int (var_number U v)" if v: "v \<in> U" for v
    using to [OF mfN(1) [OF un(3) [OF v]]] mfN(2) [OF un(3) [OF v]] mem [OF rgn un(3) [OF v]] mem [OF e(4) un(3) [OF v]] un [OF v]
    by (simp add: E_def)
  show "orig_val q b (pp_mapfrom p v) = sgn_of (b (var_number U v))" if v: "v \<in> U" for v b
    using usedto [OF v] var_number_pos(1) [OF fin v] by (simp add: orig_val_def mf_def pnsign_def)
  show "maps_range (pp_mapfrom p ` fst ` set rg) q"
    unfolding maps_range_def E_def [symmetric, unfolded mf_def] N
  proof
    fix i assume i: "i \<in> {1..N}"
    show "if i \<in> E then pp_mapto q i = 0 \<and> pp_mapval q i = -10
       else if pp_mapto q i = 0 then pp_mapval q i = 1 \<or> pp_mapval q i = -1 else nat \<bar>pp_mapto q i\<bar> \<in> {1..pp_vars q}"
    proof (cases "i \<in> E")
      case True
      then show ?thesis using to [OF i] val [OF i] by simp
    next
      case nE: False
      show ?thesis
      proof (cases "i \<in> mf ` dom A")
        case True
        then obtain v x where v: "A v = Some x" "i = mf v" by auto
        then show ?thesis using chosen [OF v(1), of "\<lambda>_. True"] to [OF i] nE True Ax [OF v(1)]
          by (simp add: orig_val_def mf_def)
      next
        case nA: False
        show ?thesis
        proof (rule maps_cases [OF maps, of i])
          show "i \<in> {1..pp_orivars p}" using i by (simp add: N_def)
        next
          fix v assume v: "v \<in> {1..pp_vars p}" "i = pp_mapfrom p v" "pp_mapto p i = int v" "pp_mapval p i = 0"
          have t: "pp_mapto q i = int (var_number U v)" using to [OF i] nE nA v by auto
          have z: "pp_mapval p2 i = 0" using f(11) nA v(4) by (simp add: mf_def)
          show ?thesis
          proof (cases "v \<in> U")
            case True
            then show ?thesis using t nE var_number_pos [OF fin True] r(3) by simp
          next
            case False
            then have "var_number U v = 0" by (simp add: var_number_def)
            then show ?thesis using t nE val [OF i] z by simp
          qed
        next
          assume v: "pp_mapto p i = 0" "i \<notin> pp_mapfrom p ` {1..pp_vars p}" "pp_mapval p i = 1 \<or> pp_mapval p i = -1"
          have "pp_mapval p2 i = pp_mapval p i" using f(11) nA by (simp add: mf_def)
          then show ?thesis using to [OF i] val [OF i] nE v by auto
        qed
      qed
    qed
  qed
qed

lemma var_number_used_models:
  assumes "finite U" and "v \<in> U"
  shows "(\<exists>u\<in>U. var_number U u = var_number U v \<and> a u) \<longleftrightarrow> a v"
  using inj_onD [OF var_number_inj [OF assms(1)] _ _ assms(2)] assms(2) by blast

text \<open>The changed case of the result.\<close>

lemma res_changed:
  assumes ok: "res_input_ok p" and maps: "maps_ok p" and st: "res_stages p rg p1 A s2" and dec: "decodes S p"
  defines "q \<equiv> res_finish (map fst (rev rg)) (rs_prep s2)"
  shows "recoverable S q" and "(\<exists>b. rows_sat b (pp_rows p)) \<longrightarrow> (\<exists>b. rows_sat b (pp_rows q))" and "pp_orivars q = pp_orivars p"
    and "pp_vars q \<le> pp_vars p"
proof -
  define mf where "mf = pp_mapfrom p"
  define n where "n = pp_vars p"
  define U where "U = used_vars (rs_prep s2)"
  note f = stage_facts [OF ok st, folded n_def U_def]
  note e = pure_invD [OF f(1), folded U_def]
  note g = finished_maps [OF ok maps st, folded q_def n_def U_def mf_def]
  show N: "pp_orivars q = pp_orivars p" by (rule g(2))
  show "pp_vars q \<le> pp_vars p" using g(9) by (simp add: n_def)
  have fin: "finite U" using finite_used [OF rows_inv_active_ok [OF e(1)]] by (simp add: U_def)
  have inj: "inj_on mf {1..n}" using maps_inj [OF maps] by (simp add: mf_def n_def)
  have img: "mf ` {1..n} \<subseteq> {1..pp_orivars q}" using var_maps(1) [OF maps] by (auto simp: mf_def n_def N)
  have at: "groups_at n mf rg q" unfolding groups_at_def using inj img f(2) g(3,5) by simp
  have "recovers_all S n mf rg q"
    unfolding recovers_all_def
  proof (intro allI impI conjI)
    fix b assume b: "rows_sat b (pp_rows q)"
    define b2 where "b2 = var_val q n mf b"
    have Un: "U \<subseteq> {1..n}"
      using active_ok_used [OF rows_inv_active_ok [OF e(1)]] f(9) by (simp add: U_def)
    have b2U: "\<forall>v\<in>U. b2 v = b (var_number U v)" using g(8) Un by (auto simp: b2_def var_val_def)
    have "models (rs_prep s2) b2" using g(4) [OF b2U] b by simp
    then have m1: "models p1 (chosen A b2)" using e(9) by simp
    have "b2 v = (x = 1)" if "A v = Some x" for v x
    proof -
      have "v \<in> {1..n}" using e(4) that by blast
      then show ?thesis using g(7) [OF that] by (simp add: b2_def var_val_def)
    qed
    then have "chosen A b2 = b2" by (auto simp: chosen_def fun_eq_iff split: option.split)
    then have r: "recovers rg b2" "rows_sat (fold recover_step rg b2) (pp_rows p)" using m1 f(5) by simp_all
    show "recovers rg (var_val q n mf b)" using r(1) by (simp add: b2_def)
    fix a
    assume a: "\<forall>u\<in>{1..n}. a (mf u) \<longleftrightarrow> fold recover_step rg (var_val q n mf b) u"
      and a': "\<forall>i\<in>{1..pp_orivars q}. i \<notin> mf ` {1..n} \<longrightarrow> (a i \<longleftrightarrow> orig_val q b i = 1)"
    have "a i \<longleftrightarrow> orig_val p (fold recover_step rg b2) i = 1" if i: "i \<in> {1..pp_orivars p}" for i
    proof (cases "i \<in> mf ` {1..n}")
      case True
      then obtain v where v: "v \<in> {1..n}" "i = mf v" by blast
      then show ?thesis using a orig_val_var [OF maps, of v] by (simp add: mf_def n_def b2_def)
    next
      case False
      have "a i \<longleftrightarrow> pp_mapval p i = 1" using a' i False g(6) N by simp
      moreover have "orig_val p c i = pp_mapval p i" for c
        by (rule maps_cases [OF maps i]) (use False in \<open>auto simp: mf_def n_def orig_val_def\<close>)
      ultimately show ?thesis by simp
    qed
    then show "S a" using dec r(2) unfolding decodes_def by blast
  qed
  then show "recoverable S q" unfolding recoverable_def using g(1) at by blast
  show "(\<exists>b. rows_sat b (pp_rows p)) \<longrightarrow> (\<exists>b. rows_sat b (pp_rows q))"
  proof (intro impI, elim exE)
    fix b assume "rows_sat b (pp_rows p)"
    then have "models p1 b" by (rule f(6))
    then have m2: "models (rs_prep s2) b" using e(9,10) by blast
    define c where "c = (\<lambda>w. \<exists>u\<in>U. var_number U u = w \<and> b u)"
    have "\<forall>v\<in>U. b v = c (var_number U v)" using var_number_used_models [OF fin, of _ b] by (simp add: c_def)
    then have "rows_sat c (pp_rows q)" using g(4) m2 by blast
    then show "\<exists>b. rows_sat b (pp_rows q)" by blast
  qed
qed

lemma maps_ok_range:
  assumes "maps_ok q"
  shows "maps_range {} q"
proof -
  have "if pp_mapto q i = 0 then pp_mapval q i = 1 \<or> pp_mapval q i = -1 else nat \<bar>pp_mapto q i\<bar> \<in> {1..pp_vars q}"
    if "i \<in> {1..pp_orivars q}" for i
    by (rule maps_cases [OF assms that]) auto
  then show ?thesis unfolding maps_range_def empty_iff if_False by blast
qed

lemma decodes_recoverable:
  assumes "decodes S q" and "maps_ok q" and "shape_ok q" and "keeps_groups (pp_mapfrom q) [] q"
  shows "recoverable S q"
proof -
  let ?n = "pp_vars q" and ?mf = "pp_mapfrom q"
  have at: "groups_at ?n ?mf [] q"
    using assms(4) maps_inj [OF assms(2)] var_maps(1) [OF assms(2)] maps_ok_range [OF assms(2)]
    by (auto simp: groups_at_def)
  have "recovers_all S ?n ?mf [] q"
    unfolding recovers_all_def
  proof (intro allI impI conjI)
    fix b a
    assume b: "rows_sat b (pp_rows q)" and a: "\<forall>u\<in>{1..?n}. a (?mf u) \<longleftrightarrow> fold recover_step [] (var_val q ?n ?mf b) u"
      and a': "\<forall>i\<in>{1..pp_orivars q}. i \<notin> ?mf ` {1..?n} \<longrightarrow> (a i \<longleftrightarrow> orig_val q b i = 1)"
    have "a i \<longleftrightarrow> orig_val q b i = 1" if "i \<in> {1..pp_orivars q}" for i
      using a a' that by (cases "i \<in> ?mf ` {1..?n}") (auto simp: var_val_def)
    then show "S a" using assms(1) b unfolding decodes_def by blast
  qed simp
  then show ?thesis unfolding recoverable_def using assms(3) at by blast
qed

lemma res_unchanged:
  assumes ok: "res_input_ok p" and maps: "maps_ok p" and st: "res_stages p [] p1 A s2" and dec: "decodes S p"
    and oc: "only_clean (rs_prep (res_start p)) (rs_prep s2)"
  defines "q \<equiv> rs_prep s2"
  shows "recoverable S q" and "pp_rows q = pp_rows p" and "pp_orivars q = pp_orivars p" and "pp_vars q = pp_vars p"
proof -
  let ?s = "rs_prep (res_start p)"
  note c = res_start_ok [OF ok]
  have q: "q = ?s\<lparr>pp_clean := pp_clean q\<rparr>" using oc by (simp add: only_clean_def q_def)
  have core: "pp_clause q = pp_clause p" "pp_degree q = pp_degree p" "pp_clauses q = pp_clauses p" "pp_vars q = pp_vars p"
    "pp_mapfrom q = pp_mapfrom p" "pp_mapto q = pp_mapto p" "pp_mapval q = pp_mapval p" "pp_orivars q = pp_orivars p"
    using c(4) by (subst q, simp add: res_core_def)+
  show rows: "pp_rows q = pp_rows p" "pp_orivars q = pp_orivars p" and "pp_vars q = pp_vars p"
    by (simp_all add: pp_rows_def core)
  have inv: "rows_inv (pp_vars p) (res_start p)" by (rule elim_invD(1) [OF c(1)])
  have "stores q []" using elim_invD(6) [OF c(1)] by (subst q) simp
  moreover have "pp_resolution q = [0]" by (subst q) (simp add: c(7))
  moreover have "pp_resolutions q = 0" by (subst q) (simp add: c(8))
  ultimately have "keeps_groups (pp_mapfrom q) [] q" by (simp add: stores_def keeps_groups_def group_rows_def)
  moreover have "decodes S q" using dec by (simp add: decodes_def rows orig_val_def core)
  moreover have "maps_ok q" using maps unfolding maps_ok_def core .
  moreover have "pp_clause_delete q = pp_clause_delete ?s" by (subst q) simp
  then have "shape_ok q" using ok rows_invD(4) [OF inv] c(4)
    by (simp add: shape_ok_def res_input_ok_def rows_ok_def core res_core_def)
  ultimately show "recoverable S q" by (intro decodes_recoverable)
qed

theorem preprocess_resolution_contract:
  assumes "res_input_ok p" and "maps_ok p" and "decodes S p"
  shows "\<exists>r. preprocess_resolution p = Some r \<and> (case r of None \<Rightarrow> \<forall>b. \<not> rows_sat b (pp_rows p)
    | Some q \<Rightarrow> recoverable S q \<and> pp_orivars q = pp_orivars p \<and> pp_vars q \<le> pp_vars p
        \<and> ((\<exists>b. rows_sat b (pp_rows p)) \<longrightarrow> (\<exists>b. rows_sat b (pp_rows q))))"
  using preprocess_resolution_cases [OF assms(1) maps_inj [OF assms(2)]]
proof (elim disjE exE conjE)
  fix rg p1 A s2
  assume st: "res_stages p rg p1 A s2" and r: "preprocess_resolution p = Some (Some (res_finish (map fst (rev rg)) (rs_prep s2)))"
  note c = res_changed [OF assms(1,2) st assms(3)]
  show ?thesis unfolding r using c by (intro exI [of _ "Some (res_finish (map fst (rev rg)) (rs_prep s2))"]) simp
next
  fix rg p1 A s2
  assume st: "res_stages p rg p1 A s2" and r: "preprocess_resolution p = Some (Some (rs_prep s2))" and rg: "rg = []"
    and oc: "only_clean (rs_prep (res_start p)) (rs_prep s2)"
  note c = res_unchanged [OF assms(1,2) st [unfolded rg] assms(3) oc]
  show ?thesis unfolding r using c by (intro exI [of _ "Some (rs_prep s2)"]) simp
qed simp

end
