(* ===== verification/Prep_Up_Link.thy ===== *)
theory Prep_Up_Link
  imports Prep_Up_Props Prep_Res_Correct
begin

text \<open>
  What unit propagation hands to the later phases: rows in shape, consistent maps, and models that
  decode to models of the file.
\<close>

lemma up_finish_delete:
  assumes "active_ok p"
  shows "pp_clause_delete (up_finish queue p) = pp_clause_delete p"
proof -
  have "pp_clause_delete (update_var_clause_label p) = pp_clause_delete p"
    by (subst relabel_ok(7) [OF assms]) simp
  moreover have "pp_clause_delete (fold up_map_var xs q) = pp_clause_delete q" for xs q
    by (rule fold_unchanged [where g = pp_clause_delete]) (simp add: up_map_var_def)
  moreover have "pp_clause_delete (fold clear_from xs q) = pp_clause_delete q" for xs q
    by (rule fold_unchanged [where g = pp_clause_delete]) (simp add: clear_from_def)
  moreover have "pp_clause_delete (fold take_value xs q) = pp_clause_delete q" for xs q
    by (rule fold_unchanged [where g = pp_clause_delete]) (simp add: take_value_def)
  ultimately show ?thesis unfolding up_finish_def Let_def by simp
qed

lemma up_finish_shape:
  assumes "up_exit p queue p'"
  defines "q \<equiv> up_finish queue p'"
  shows "shape_ok q" and "maps_ok q" and "pp_orivars q = pp_vars p"
proof -
  have a: "active_ok p'" "queue_ok p' queue" "pp_orivars p' = pp_vars p'" "\<forall>v\<in>{1..pp_vars p'}. pp_mapval p' v = 0"
    "\<forall>v\<in>used_vars p'. pp_varval p' v = 0" "pp_vars p' = pp_vars p" "length (pp_clause_delete p') = Suc (pp_clauses p')"
    using assms unfolding up_exit_def by blast+
  note u = up_finish_ok [OF a(1-5), folded q_def]
  let ?U = "used_vars p'" and ?num = "var_number (used_vars p')"
  have fin: "finite ?U" by (rule finite_used [OF a(1)])
  have sub: "?U \<subseteq> {1..pp_vars p'}" by (rule active_ok_used [OF a(1)])
  show N: "pp_orivars q = pp_vars p" using u(3) a(3,6) by simp
  have "length (pp_rows q) = length (active_rows p')" using u(2) relabel_ok(4) [OF a(1)] by simp
  then have "pp_clauses q \<le> pp_clauses p'"
    using length_filter_le [of _ "[1..<Suc (pp_clauses p')]"] by (simp add: pp_rows_def active_rows_def del: upt_Suc)
  then show "shape_ok q"
    using u(1,7,8) up_finish_delete [OF a(1), of queue] a(7) by (simp add: shape_ok_def q_def)
  have used: "?num v \<noteq> 0 \<longleftrightarrow> v \<in> ?U" for v
    using var_number_pos(1) [OF fin, of v] by (auto simp: var_number_def)
  have var: "pp_mapfrom q v \<in> {1..pp_orivars q} \<and> pp_mapto q (pp_mapfrom q v) = int v" if v: "v \<in> {1..pp_vars q}" for v
  proof -
    have "v \<in> ?num ` ?U" using v var_number_image [OF fin] u(9) by simp
    then obtain x where x: "x \<in> ?U" "v = ?num x" by blast
    have xn: "x \<in> {1..pp_vars p'}" using x(1) sub by blast
    have "pp_mapfrom q v = x" using u(6) [OF xn x(1)] u(4) [OF xn] x(2) by simp
    then show ?thesis using u(4) [OF xn] x(2) xn N a(6) by simp
  qed
  have orig: "if pp_mapto q i = 0 then pp_mapval q i = 1 \<or> pp_mapval q i = -1
        else pp_mapval q i = 0 \<and> nat (pp_mapto q i) \<in> {1..pp_vars q} \<and> pp_mapto q i = int (nat (pp_mapto q i))
          \<and> pp_mapfrom q (nat (pp_mapto q i)) = i" if i: "i \<in> {1..pp_orivars q}" for i
  proof -
    have iv: "i \<in> {1..pp_vars p'}" using i N a(6) by simp
    note m = u(4,5) [OF iv]
    show ?thesis
    proof (cases "i \<in> ?U")
      case True
      have "?num i \<in> {1..pp_vars q}" using var_number_pos [OF fin True] u(9) by simp
      then show ?thesis using m True u(6) [OF iv True] used [of i] by simp
    next
      case False
      have "pp_varval p' i \<in> {-1, 0, 1}" using a(2) iv unfolding queue_ok_def by blast
      then show ?thesis using m False used [of i] by auto
    qed
  qed
  show "maps_ok q" unfolding maps_ok_def using orig var by blast
qed

lemma input_sat_cong:
  assumes "scannable p" and "\<forall>v\<in>{1..pp_vars p}. a v = b v"
  shows "input_sat p a = input_sat p b"
proof -
  have "row_sat a (remdups (pp_row p i)) d = row_sat b (remdups (pp_row p i)) d" if "i \<in> {1..pp_clauses p}" for i d
  proof -
    have "lit_sat a l = lit_sat b l" if l: "l \<in> set (remdups (pp_row p i))" for l
    proof -
      have "lit_var l \<in> {1..pp_vars p}" using assms(1) \<open>i \<in> {1..pp_clauses p}\<close> l by (simp add: scannable_def in_range_def)
      then show ?thesis using assms(2) by (simp add: lit_sat_def)
    qed
    then show ?thesis unfolding row_sat_def using row_count_cong by metis
  qed
  then show ?thesis by (simp add: input_sat_def set_sat_def)
qed

theorem preprocess_up_contract:
  assumes "up_input_ok p"
  shows "\<exists>r. preprocess_up p = Some r \<and> (case r of None \<Rightarrow> \<forall>a. \<not> input_sat p a
    | Some q \<Rightarrow> res_input_ok q \<and> maps_ok q \<and> decodes (input_sat p) q \<and> pp_orivars q = pp_vars p
        \<and> ((\<exists>a. input_sat p a) \<longrightarrow> (\<exists>b. rows_sat b (pp_rows q))))"
  using preprocess_up_exit [OF assms]
proof (elim disjE exE conjE)
  fix queue p'
  assume e: "preprocess_up p = Some (Some (up_finish queue p'))" and x: "up_exit p queue p'"
  define q where "q = up_finish queue p'"
  note s = up_finish_shape [OF x, folded q_def]
  have r: "up_result_ok p (Some q)" using preprocess_up_cases [OF assms] e by (simp add: q_def)
  have sc: "scannable p" using assms by (simp add: up_input_ok_def)
  have "decodes (input_sat p) q"
    unfolding decodes_def
  proof (intro allI impI)
    fix b a assume b: "rows_sat b (pp_rows q)" and a: "\<forall>i\<in>{1..pp_orivars q}. a i \<longleftrightarrow> orig_val q b i = 1"
    have "a i = up_decode q b i" if i: "i \<in> {1..pp_vars p}" for i
    proof (cases "pp_mapto q i = 0")
      case True
      then show ?thesis using a i s(3) by (simp add: orig_val_def up_decode_def)
    next
      case False
      then have "pp_mapto q i = int (nat (pp_mapto q i))" using s(2,3) i unfolding maps_ok_def by metis
      then have "0 < pp_mapto q i" using False by linarith
      then show ?thesis using a i s(3) by (simp add: orig_val_def up_decode_def pnsign_def)
    qed
    then have "input_sat p a = input_sat p (up_decode q b)" by (intro input_sat_cong [OF sc]) simp
    then show "input_sat p a" using r b by (simp add: up_result_ok_def)
  qed
  moreover have "(\<exists>a. input_sat p a) \<longrightarrow> (\<exists>b. rows_sat b (pp_rows q))"
    using r unfolding up_result_ok_def option.case by blast
  moreover have "res_input_ok q" using s(1) by (simp add: shape_ok_def res_input_ok_def)
  ultimately show ?thesis using e s(2,3) by (intro exI [of _ "Some q"]) (simp add: q_def)
qed simp

end
