(* ===== verification/Recover.thy ===== *)
theory Recover
  imports Solver Prep_Up_Link
begin

text \<open>
  The reconstruction of a model (\<open>get_complete_model\<close> and the loop in \<open>Solver::run\<close>): from a
  model of the remaining rows it computes a model of the file.
\<close>

section \<open>The stored groups\<close>

definition stored :: "(nat \<Rightarrow> nat) \<Rightarrow> int list \<Rightarrow> int list" where
  "stored mf c = map (\<lambda>l. pnsign l * int (mf (lit_var l))) c"

definition owners :: "(nat \<Rightarrow> nat) \<Rightarrow> row_group list \<Rightarrow> nat list" where
  "owners mf rg = concat (map (\<lambda>g. replicate (length (snd g)) (mf (fst g))) (rev rg))"

definition arrays_hold :: "(nat \<Rightarrow> nat) \<Rightarrow> row_group list \<Rightarrow> preproc \<Rightarrow> bool" where
  "arrays_hold mf rg p \<longleftrightarrow> (\<exists>X Y Z. pp_res_owner p = 0 # owners mf rg @ X
     \<and> pp_res_clause p = [] # map (\<lambda>r. stored mf (fst r)) (group_rows rg) @ Y
     \<and> pp_res_degree p = 0 # map snd (group_rows rg) @ Z)"

lemma length_owners: "length (owners mf rg) = length (group_rows rg)"
  by (induction rg) (simp_all add: owners_def group_rows_def)

lemma owners_Cons: "owners mf (g # rg) = owners mf rg @ replicate (length (snd g)) (mf (fst g))"
  by (simp add: owners_def)

lemma arrays_tail:
  assumes "arrays_hold mf (g # rg) p"
  shows "arrays_hold mf rg p"
proof -
  obtain X Y Z where "pp_res_owner p = 0 # owners mf (g # rg) @ X"
    "pp_res_clause p = [] # map (\<lambda>r. stored mf (fst r)) (group_rows (g # rg)) @ Y"
    "pp_res_degree p = 0 # map snd (group_rows (g # rg)) @ Z" using assms unfolding arrays_hold_def by blast
  then have "pp_res_owner p = 0 # owners mf rg @ (replicate (length (snd g)) (mf (fst g)) @ X)"
    "pp_res_clause p = [] # map (\<lambda>r. stored mf (fst r)) (group_rows rg) @ (map (\<lambda>r. stored mf (fst r)) (snd g) @ Y)"
    "pp_res_degree p = 0 # map snd (group_rows rg) @ (map snd (snd g) @ Z)"
    by (simp_all add: owners_Cons group_rows_Cons)
  then show ?thesis unfolding arrays_hold_def by blast
qed

lemma skip_owned_run:
  assumes "\<forall>j\<in>{1..k}. owner ! (m + j) = v" and "m = 0 \<or> owner ! m \<noteq> v"
  shows "skip_owned owner v (m + k) = m"
  using assms(1)
proof (induction k)
  case 0
  show ?case using assms(2) by (cases m) auto
next
  case (Suc k)
  have "owner ! (m + Suc k) = v" using Suc.prems [rule_format, of "Suc k"] by simp
  then show ?case using Suc by simp
qed

lemma skip_group:
  assumes h: "arrays_hold mf ((v, rows) # rg) p" and inj: "inj_on mf {1..n}" and wf: "groups_wf n ((v, rows) # rg)"
  shows "skip_owned (pp_res_owner p) (mf v) (length (group_rows ((v, rows) # rg))) = length (group_rows rg)"
proof -
  let ?m = "length (group_rows rg)" and ?k = "length rows"
  obtain X where o: "pp_res_owner p = 0 # (owners mf rg @ replicate ?k (mf v)) @ X"
    using h by (auto simp: arrays_hold_def owners_Cons)
  have run: "pp_res_owner p ! (?m + j) = mf v" if "j \<in> {1..?k}" for j
  proof -
    define j' where "j' = j - 1"
    have j: "j = Suc j'" "j' < ?k" using that by (auto simp: j'_def)
    have "pp_res_owner p ! (?m + j) = (owners mf rg @ replicate ?k (mf v)) ! (?m + j')"
      using j by (simp add: o nth_append length_owners del: append_assoc)
    then show ?thesis using j by (simp add: nth_append length_owners)
  qed
  have stop: "pp_res_owner p ! ?m \<noteq> mf v" if nz: "?m \<noteq> 0"
  proof -
    obtain m' where m: "?m = Suc m'" using not0_implies_Suc [OF nz] by blast
    have m': "m' < length (owners mf rg)" using m length_owners [of mf rg] by linarith
    then have "pp_res_owner p ! Suc m' = owners mf rg ! m'" by (simp add: o nth_append)
    then have "pp_res_owner p ! ?m \<in> set (owners mf rg)" using m' unfolding m by simp
    then obtain g where g: "g \<in> set rg" "pp_res_owner p ! ?m = mf (fst g)" by (auto simp: owners_def)
    have "fst g \<in> {1..n}" "v \<in> {1..n}" "fst g \<noteq> v" using wf groups_vars [of n rg] g(1) by auto
    then show ?thesis using g(2) inj by (metis inj_onD)
  qed
  show ?thesis
    using skip_owned_run [of ?k "pp_res_owner p" ?m "mf v"] run stop by (auto simp: group_rows_Cons)
qed

section \<open>Checking a group\<close>

text \<open>The values \<open>mv\<close> of the file's variables agree with the assignment \<open>b\<close>.\<close>

definition values_of :: "(nat \<Rightarrow> nat) \<Rightarrow> (nat \<Rightarrow> int) \<Rightarrow> (nat \<Rightarrow> bool) \<Rightarrow> nat set \<Rightarrow> bool" where
  "values_of mf mv b V \<longleftrightarrow> (\<forall>u\<in>V. mv (mf u) = sgn_of (b u))"

lemma stored_lit:
  assumes "l \<noteq> 0" and "0 < mf (lit_var l)"
  shows "lit_var (pnsign l * int (mf (lit_var l))) = mf (lit_var l)" and "pnsign (pnsign l * int (mf (lit_var l))) = pnsign l"
  using assms by (auto simp: lit_var_def pnsign_def)

lemma stored_sat:
  assumes inj: "inj_on mf {1..n}" and pos: "\<forall>u\<in>{1..n}. 0 < mf u" and v: "v \<in> {1..n}" and c: "lits_in n c"
    and vals: "values_of mf mv b (lit_var ` set c - {v})"
  shows "int (length (filter (\<lambda>l. (if lit_var l = mf v then sgn_of x else mv (lit_var l)) = pnsign l) (stored mf c)))
     = row_count (b(v := x)) c"
proof -
  have lit: "((if mf (lit_var l) = mf v then sgn_of x else mv (mf (lit_var l))) = pnsign l) = lit_sat (b(v := x)) l"
    if l: "l \<in> set c" for l
  proof -
    have ln: "l \<noteq> 0" "lit_var l \<in> {1..n}" using c l lit_var_pos [of l] by (auto simp: lits_in_def Suc_le_eq)
    show ?thesis
    proof (cases "lit_var l = v")
      case True
      then show ?thesis using ln by (auto simp: lit_sat_def sgn_of_def pnsign_def)
    next
      case False
      then have "mf (lit_var l) \<noteq> mf v" using inj ln(2) v by (metis inj_onD)
      moreover have "mv (mf (lit_var l)) = sgn_of (b (lit_var l))" using vals l False by (simp add: values_of_def)
      ultimately show ?thesis using False ln by (auto simp: lit_sat_def sgn_of_def pnsign_def)
    qed
  qed
  let ?P = "\<lambda>l. (if lit_var l = mf v then sgn_of x else mv (lit_var l)) = pnsign l"
  have "filter ?P (stored mf c) = map (\<lambda>l. pnsign l * int (mf (lit_var l))) (filter (\<lambda>l. ?P (pnsign l * int (mf (lit_var l)))) c)"
    by (simp add: stored_def filter_map comp_def)
  also have "filter (\<lambda>l. ?P (pnsign l * int (mf (lit_var l)))) c = filter (lit_sat (b(v := x))) c"
  proof (rule filter_cong [OF refl])
    fix l assume l: "l \<in> set c"
    have ln: "l \<noteq> 0" "0 < mf (lit_var l)" using c l lit_var_pos [of l] pos by (auto simp: lits_in_def Suc_le_eq)
    show "?P (pnsign l * int (mf (lit_var l))) = lit_sat (b(v := x)) l"
      unfolding stored_lit [where mf = mf, OF ln] by (rule lit [OF l])
  qed
  finally show ?thesis by (simp add: row_count_def)
qed

lemma group_check:
  assumes h: "arrays_hold mf ((v, rows) # rg) p" and inj: "inj_on mf {1..n}" and pos: "\<forall>u\<in>{1..n}. 0 < mf u"
    and v: "v \<in> {1..n}" and rows: "\<forall>r\<in>set rows. lits_in n (fst r)"
    and vals: "\<forall>r\<in>set rows. values_of mf (pp_mapval p) b (lit_var ` set (fst r) - {v})"
  shows "clauses_with_pivot_satisfied p (mf v) (sgn_of x) (Suc (length (group_rows rg))) (length (group_rows ((v, rows) # rg)))
     \<longleftrightarrow> rows_sat (b(v := x)) rows"
proof -
  let ?m = "length (group_rows rg)"
  obtain Y Z where cl: "pp_res_clause p = [] # map (\<lambda>r. stored mf (fst r)) (group_rows rg @ rows) @ Y"
    and dg: "pp_res_degree p = 0 # map snd (group_rows rg @ rows) @ Z"
    using h unfolding arrays_hold_def group_rows_Cons snd_conv by blast
  have row: "satisfied_with p (Suc ?m + j) (mf v) (sgn_of x) \<longleftrightarrow> row_sat (b(v := x)) (fst (rows ! j)) (snd (rows ! j))"
    if j: "j < length rows" for j
  proof -
    have r: "rows ! j \<in> set rows" using j by simp
    have "pp_res_clause p ! (Suc ?m + j) = stored mf (fst (rows ! j))" "pp_res_degree p ! (Suc ?m + j) = snd (rows ! j)"
      using j by (simp_all add: cl dg nth_append)
    moreover have "lits_in n (fst (rows ! j))" "values_of mf (pp_mapval p) b (lit_var ` set (fst (rows ! j)) - {v})"
      using rows vals r by blast+
    ultimately show ?thesis
      using stored_sat [OF inj pos v, of "fst (rows ! j)" "pp_mapval p" b x] by (simp add: satisfied_with_def row_sat_def)
  qed
  have len: "length (group_rows ((v, rows) # rg)) = ?m + length rows" by (simp add: group_rows_Cons)
  have "clauses_with_pivot_satisfied p (mf v) (sgn_of x) (Suc ?m) (?m + length rows)
      \<longleftrightarrow> (\<forall>j<length rows. satisfied_with p (Suc ?m + j) (mf v) (sgn_of x))"
  proof -
    have "(\<forall>i\<in>{Suc ?m..<Suc (?m + length rows)}. Q i) \<longleftrightarrow> (\<forall>j<length rows. Q (Suc ?m + j))" for Q
    proof
      assume q: "\<forall>j<length rows. Q (Suc ?m + j)"
      show "\<forall>i\<in>{Suc ?m..<Suc (?m + length rows)}. Q i"
      proof
        fix i assume "i \<in> {Suc ?m..<Suc (?m + length rows)}"
        then have "i - Suc ?m < length rows" "Suc ?m + (i - Suc ?m) = i" by auto
        then show "Q i" using q by metis
      qed
    qed auto
    then show ?thesis by (simp only: clauses_with_pivot_satisfied_def list_all_iff set_upt)
  qed
  then show ?thesis unfolding len using row by (auto simp: rows_sat_def all_set_conv_all_nth case_prod_beta)
qed

section \<open>The loop over the eliminated variables\<close>

lemma values_upd:
  assumes "values_of mf mv b V" and "inj_on mf {1..n}" and "v \<in> {1..n}" and "V \<subseteq> {1..n}"
  shows "values_of mf (mv(mf v := sgn_of x)) (b(v := x)) (insert v V)"
  using assms unfolding values_of_def by (auto dest: inj_onD)

lemma recover_vars_ok:
  assumes "arrays_hold mf rg p" and "groups_wf n rg" and inj: "inj_on mf {1..n}" and pos: "\<forall>u\<in>{1..n}. 0 < mf u"
    and "recovers rg b" and "values_of mf (pp_mapval p) b ({1..n} - fst ` set rg)"
  shows "\<exists>mv. recover_vars (map (\<lambda>g. mf (fst g)) rg) (length (group_rows rg)) p = Some (0, p\<lparr>pp_mapval := mv\<rparr>)
    \<and> values_of mf mv (fold recover_step rg b) {1..n} \<and> (\<forall>i. i \<notin> mf ` fst ` set rg \<longrightarrow> mv i = pp_mapval p i)"
  using assms(1,2,5,6)
proof (induction rg arbitrary: b p)
  case Nil
  have "group_rows [] = []" by (simp add: group_rows_def)
  then show ?case using Nil by (intro exI [of _ "pp_mapval p"]) simp
next
  case (Cons g rg)
  obtain v rows where g: "g = (v, rows)" by fastforce
  let ?m = "length (group_rows rg)" and ?l = "length (group_rows (g # rg))"
  define V where "V = {1..n} - fst ` set (g # rg)"
  have wf: "v \<in> {1..n}" "rows \<noteq> []" "\<forall>r\<in>set rows. lits_in n (fst r)" "v \<notin> fst ` set rg" "groups_wf n rg"
    and other: "\<forall>r\<in>set rows. \<forall>u\<in>fst ` set rg. u \<notin> lit_var ` set (fst r)"
    using Cons.prems(2) by (auto simp: g)
  have rowV: "lit_var ` set (fst r) - {v} \<subseteq> V" if r: "r \<in> set rows" for r
  proof -
    have "lit_var ` set (fst r) \<subseteq> {1..n}" using wf(3) r lit_var_pos by (fastforce simp: lits_in_def Suc_le_eq)
    moreover have "lit_var ` set (fst r) \<inter> fst ` set rg = {}" using other r by blast
    ultimately show ?thesis unfolding V_def g by auto
  qed
  have vals: "values_of mf (pp_mapval p) b (lit_var ` set (fst r) - {v})" if "r \<in> set rows" for r
    using Cons.prems(4) rowV [OF that] unfolding values_of_def V_def by blast
  have check: "clauses_with_pivot_satisfied p (mf v) (sgn_of x) (Suc ?m) ?l \<longleftrightarrow> rows_sat (b(v := x)) rows" for x
    using group_check [OF Cons.prems(1) [unfolded g] inj pos wf(1,3)] vals by (simp add: g)
  have skip: "skip_owned (pp_res_owner p) (mf v) ?l = ?m"
    using skip_group [OF Cons.prems(1) [unfolded g] inj Cons.prems(2) [unfolded g]] by (simp add: g)
  have lt: "\<not> Suc ?m > ?l" using wf(2) by (cases rows) (simp_all add: g group_rows_Cons)
  have rv: "recover_vars (map (\<lambda>g. mf (fst g)) (g # rg)) ?l p
     = (if rows_sat (b(v := True)) rows then recover_vars (map (\<lambda>g. mf (fst g)) rg) ?m (p\<lparr>pp_mapval := (pp_mapval p)(mf v := sgn_of True)\<rparr>)
        else if rows_sat (b(v := False)) rows then recover_vars (map (\<lambda>g. mf (fst g)) rg) ?m (p\<lparr>pp_mapval := (pp_mapval p)(mf v := sgn_of False)\<rparr>)
        else None)"
  proof -
    have s: "sgn_of True = 1" "sgn_of False = -1" by (simp_all add: sgn_of_def)
    show ?thesis
      using lt check [of True] check [of False] skip unfolding s by (simp add: g Let_def)
  qed
  define x where "x = rows_sat (b(v := True)) rows"
  have step: "recover_step g b = b(v := x)" by (simp add: recover_step_def g x_def)
  have sat: "rows_sat (b(v := x)) rows" and rec: "recovers rg (b(v := x))"
    using Cons.prems(3) by (simp_all add: step [symmetric], simp add: g)
  define q where "q = p\<lparr>pp_mapval := (pp_mapval p)(mf v := sgn_of x)\<rparr>"
  have rv': "recover_vars (map (\<lambda>g. mf (fst g)) (g # rg)) ?l p = recover_vars (map (\<lambda>g. mf (fst g)) rg) ?m q"
    unfolding rv q_def using sat by (cases x) (simp_all add: x_def)
  have hold: "arrays_hold mf rg q" using arrays_tail [OF Cons.prems(1)] by (simp add: arrays_hold_def q_def)
  have "{1..n} - fst ` set rg = insert v V" using wf(1,4) by (auto simp: V_def g)
  then have vq: "values_of mf (pp_mapval q) (b(v := x)) ({1..n} - fst ` set rg)"
    using values_upd [OF Cons.prems(4) inj wf(1), of x] by (simp add: q_def V_def)
  from Cons.IH [OF hold wf(5) rec vq] obtain mv where
    mv: "recover_vars (map (\<lambda>g. mf (fst g)) rg) ?m q = Some (0, q\<lparr>pp_mapval := mv\<rparr>)"
      "values_of mf mv (fold recover_step rg (b(v := x))) {1..n}" "\<forall>i. i \<notin> mf ` fst ` set rg \<longrightarrow> mv i = pp_mapval q i" by blast
  have "\<forall>i. i \<notin> mf ` fst ` set (g # rg) \<longrightarrow> mv i = pp_mapval p i" using mv(3) by (simp add: q_def g)
  moreover have "q\<lparr>pp_mapval := mv\<rparr> = p\<lparr>pp_mapval := mv\<rparr>" by (simp add: q_def)
  moreover have "fold recover_step (g # rg) b = fold recover_step rg (b(v := x))" by (simp add: step)
  ultimately show ?case using mv(1,2) unfolding rv' by (intro exI [of _ mv]) simp
qed

section \<open>The complete model\<close>

lemma keeps_arrays: "keeps_groups mf rg q \<Longrightarrow> arrays_hold mf rg q"
  unfolding keeps_groups_def arrays_hold_def owners_def stored_def by auto

lemma fold_clear_mapval:
  "fold (\<lambda>i p. p\<lparr>pp_mapval := (pp_mapval p)(i := 0)\<rparr>) is p
     = p\<lparr>pp_mapval := (\<lambda>i. if i \<in> set is then 0 else pp_mapval p i)\<rparr>"
proof (induction "is" arbitrary: p)
  case (Cons i "is")
  have e: "(\<lambda>x. if x \<in> set is then 0 else ((pp_mapval p)(i := 0)) x) = (\<lambda>x. if x \<in> set (i # is) then 0 else pp_mapval p x)"
    by auto
  show ?case by (simp only: fold_Cons comp_def Cons.IH e [symmetric]) (simp cong: if_cong)
qed simp

definition same_arrays :: "preproc \<Rightarrow> preproc \<Rightarrow> bool" where
  "same_arrays q p \<longleftrightarrow> p = q\<lparr>pp_mapval := pp_mapval p\<rparr>"

lemma same_arrays_fields:
  assumes "same_arrays q p"
  shows "pp_orivars p = pp_orivars q" "pp_mapto p = pp_mapto q" "pp_res_owner p = pp_res_owner q" "pp_res_clause p = pp_res_clause q"
    "pp_res_degree p = pp_res_degree q" "pp_res_clauses p = pp_res_clauses q" "pp_resolution p = pp_resolution q"
    "pp_resolutions p = pp_resolutions q"
proof -
  have p: "p = q\<lparr>pp_mapval := pp_mapval p\<rparr>" using assms by (simp add: same_arrays_def)
  show "pp_orivars p = pp_orivars q" "pp_mapto p = pp_mapto q" "pp_res_owner p = pp_res_owner q" "pp_res_clause p = pp_res_clause q"
    "pp_res_degree p = pp_res_degree q" "pp_res_clauses p = pp_res_clauses q" "pp_resolution p = pp_resolution q"
    "pp_resolutions p = pp_resolutions q" by (subst p, simp)+
qed

lemma orig_val_range:
  assumes "maps_range E q" and "i \<in> {1..pp_orivars q}" and "i \<notin> E"
  shows "orig_val q b i = sgn_of (orig_val q b i = 1)"
proof -
  have "if i \<in> E then pp_mapto q i = 0 \<and> pp_mapval q i = -10
     else if pp_mapto q i = 0 then pp_mapval q i = 1 \<or> pp_mapval q i = -1 else nat \<bar>pp_mapto q i\<bar> \<in> {1..pp_vars q}"
    using assms(1,2) unfolding maps_range_def by blast
  then have "if pp_mapto q i = 0 then pp_mapval q i = 1 \<or> pp_mapval q i = -1 else nat \<bar>pp_mapto q i\<bar> \<in> {1..pp_vars q}"
    unfolding if_not_P [OF assms(3)] .
  then show ?thesis by (auto simp: orig_val_def sgn_of_def pnsign_def split: if_splits)
qed

lemma get_complete_model_ok:
  assumes at: "groups_at n mf rg q" and p: "same_arrays q p" "\<forall>i\<in>{1..pp_orivars q}. pp_mapval p i = orig_val q b i"
    and rec: "recovers rg (var_val q n mf b)"
  shows "\<exists>p'. get_complete_model p = (True, p') \<and> (\<forall>u\<in>{1..n}. pp_mapval p' (mf u) = sgn_of (fold recover_step rg (var_val q n mf b) u))
    \<and> (\<forall>i\<in>{1..pp_orivars q}. i \<notin> mf ` {1..n} \<longrightarrow> pp_mapval p' i = orig_val q b i) \<and> pp_orivars p' = pp_orivars q"
proof -
  let ?N = "pp_orivars q" and ?E = "mf ` fst ` set rg"
  have a: "inj_on mf {1..n}" "mf ` {1..n} \<subseteq> {1..?N}" "groups_wf n rg" "keeps_groups mf rg q" "maps_range ?E q"
    using at by (simp_all add: groups_at_def)
  have rgn: "fst ` set rg \<subseteq> {1..n}" by (rule groups_vars [OF a(3)])
  have E: "?E \<subseteq> {1..?N}" using rgn a(2) by blast
  have f: "pp_orivars p = ?N" "pp_mapto p = pp_mapto q" "pp_res_owner p = pp_res_owner q" "pp_res_clause p = pp_res_clause q"
    "pp_res_degree p = pp_res_degree q" "pp_res_clauses p = pp_res_clauses q" "pp_resolution p = pp_resolution q"
    "pp_resolutions p = pp_resolutions q" using same_arrays_fields [OF p(1)] by blast+
  have bad: "bad_value p i \<longleftrightarrow> i \<in> ?E" if i: "i \<in> {1..?N}" for i
  proof (cases "i \<in> ?E")
    case True
    then have "pp_mapto q i = 0" "pp_mapval q i = -10" using a(5) i by (auto simp: maps_range_def)
    then show ?thesis using True p(2) i f(2) by (simp add: bad_value_def orig_val_def)
  next
    case False
    have "orig_val q b i = sgn_of (orig_val q b i = 1)" by (rule orig_val_range [OF a(5) i False])
    then have "\<bar>pp_mapval p i\<bar> = 1" using p(2) i by (auto simp: sgn_of_def split: if_splits)
    then show ?thesis using False by (simp add: bad_value_def)
  qed
  define bads where "bads = filter (bad_value p) [1..<Suc (pp_orivars p)]"
  have "set bads = {i\<in>{1..?N}. bad_value p i}" by (auto simp: bads_def f)
  then have bads: "set bads = ?E" using bad E by blast
  define p1 where "p1 = fold (\<lambda>i p. p\<lparr>pp_mapval := (pp_mapval p)(i := 0)\<rparr>) bads p"
  have p1: "p1 = p\<lparr>pp_mapval := (\<lambda>i. if i \<in> ?E then 0 else pp_mapval p i)\<rparr>"
    unfolding p1_def fold_clear_mapval bads ..
  have keep: "pp_mapval p1 i = orig_val q b i" if "i \<in> {1..?N}" "i \<notin> ?E" for i using that p(2) by (simp add: p1)
  show ?thesis
  proof (cases "rg = []")
    case True
    then have e: "bads = []" using bads by simp
    have g: "get_complete_model p = (True, p1)"
      unfolding get_complete_model_def Let_def bads_def [symmetric] p1_def [symmetric] using e by simp
    have "pp_mapval p1 (mf u) = sgn_of (var_val q n mf b u)" if "u \<in> {1..n}" for u
    proof -
      have "mf u \<in> {1..?N}" using that a(2) by blast
      then show ?thesis using keep [of "mf u"] orig_val_range [OF a(5), of "mf u" b] True that by (simp add: var_val_def)
    qed
    moreover have "pp_orivars p1 = ?N" by (simp add: p1 f)
    ultimately show ?thesis using g keep True by (intro exI [of _ p1]) simp
  next
    case False
    then have ne: "bads \<noteq> []" using bads by auto
    have pf: "pp_res_owner p1 = pp_res_owner q" "pp_res_clause p1 = pp_res_clause q" "pp_res_degree p1 = pp_res_degree q"
      "pp_res_clauses p1 = pp_res_clauses q" "pp_resolution p1 = pp_resolution q" "pp_resolutions p1 = pp_resolutions q"
      "pp_orivars p1 = ?N" by (simp_all add: p1 f)
    have hold: "arrays_hold mf rg p1" using keeps_arrays [OF a(4)] by (simp add: arrays_hold_def pf)
    have k: "pp_res_clauses q = length (group_rows rg)" "pp_resolution q = 0 # map (\<lambda>g. mf (fst g)) (rev rg)" "pp_resolutions q = length rg"
      "length (pp_res_owner q) = length (group_rows rg) + 1"
      using a(4) length_owners [of mf rg] by (simp_all add: keeps_groups_def owners_def)
    have pos: "\<forall>u\<in>{1..n}. 0 < mf u" using a(2) by (auto simp: image_subset_iff Suc_le_eq)
    have vals: "values_of mf (pp_mapval p1) (var_val q n mf b) ({1..n} - fst ` set rg)"
      unfolding values_of_def
    proof
      fix u assume u: "u \<in> {1..n} - fst ` set rg"
      have uN: "mf u \<in> {1..?N}" using u a(2) by blast
      have uE: "mf u \<notin> ?E" using inj_on_image_mem_iff [OF a(1) _ rgn, of u] u by blast
      show "pp_mapval p1 (mf u) = sgn_of (var_val q n mf b u)"
        using keep [OF uN uE] orig_val_range [OF a(5) uN uE, of b] u by (simp add: var_val_def)
    qed
    obtain mv where mv: "recover_vars (map (\<lambda>g. mf (fst g)) rg) (length (group_rows rg)) p1 = Some (0, p1\<lparr>pp_mapval := mv\<rparr>)"
      "values_of mf mv (fold recover_step rg (var_val q n mf b)) {1..n}" "\<forall>i. i \<notin> ?E \<longrightarrow> mv i = pp_mapval p1 i"
      using recover_vars_ok [OF hold a(3,1) pos rec vals] by blast
    have rv: "rev (tl (pp_resolution p1)) = map (\<lambda>g. mf (fst g)) rg" by (simp add: pf k rev_map)
    define p' where "p' = p1\<lparr>pp_mapval := mv, pp_res_clause := [], pp_res_degree := [], pp_resolution := [], pp_res_owner := []\<rparr>"
    have g: "get_complete_model p = (True, p')"
      unfolding get_complete_model_def Let_def bads_def [symmetric] p1_def [symmetric] rv
      using ne mv(1) by (simp add: pf k p'_def)
    have "pp_mapval p' i = orig_val q b i" if i: "i \<in> {1..?N}" "i \<notin> mf ` {1..n}" for i
    proof -
      have "i \<notin> ?E" using i(2) rgn by blast
      then show ?thesis using mv(3) keep [OF i(1)] by (simp add: p'_def)
    qed
    moreover have "pp_mapval p' (mf u) = sgn_of (fold recover_step rg (var_val q n mf b) u)" if "u \<in> {1..n}" for u
      using mv(2) that by (simp add: values_of_def p'_def)
    moreover have "pp_orivars p' = ?N" by (simp add: p'_def pf)
    ultimately show ?thesis using g by blast
  qed
qed

section \<open>The model that run returns\<close>

lemma take_back_step:
  "same_arrays q p \<Longrightarrow> same_arrays q (take_back value i p)"
  "pp_mapval (take_back value i p) j = (if j = i \<and> pp_mapto p i \<noteq> 0
     then sign_of (value (nat \<bar>pp_mapto p i\<bar>)) * sign_of (pp_mapto p i) else pp_mapval p j)"
  by (cases q; cases p; simp add: same_arrays_def take_back_def) (simp add: take_back_def)

lemma sign_of_eqs: "sign_of x = sgn_of (0 < x)" "pnsign y = sgn_of (0 < y)"
  by (auto simp: sign_of_def sgn_of_def pnsign_def)

lemma fold_take_back:
  "same_arrays q (fold (take_back value) [1..<Suc k] q)
    \<and> (\<forall>i. pp_mapval (fold (take_back value) [1..<Suc k] q) i
         = (if i \<in> {1..k} then orig_val q (\<lambda>v. 0 < value v) i else pp_mapval q i))"
proof (induction k)
  case 0
  then show ?case by (simp add: same_arrays_def)
next
  case (Suc k)
  let ?p = "fold (take_back value) [1..<Suc k] q"
  have e: "fold (take_back value) [1..<Suc (Suc k)] q = take_back value (Suc k) ?p" by simp
  have sa: "same_arrays q ?p" and iv: "\<forall>i. pp_mapval ?p i = (if i \<in> {1..k} then orig_val q (\<lambda>v. 0 < value v) i else pp_mapval q i)"
    using Suc by (blast, blast)
  have mt: "pp_mapto ?p = pp_mapto q" by (rule same_arrays_fields(2) [OF sa])
  show ?case
    unfolding e
  proof (intro conjI allI)
    show "same_arrays q (take_back value (Suc k) ?p)" by (rule take_back_step(1) [OF sa])
    fix i
    show "pp_mapval (take_back value (Suc k) ?p) i
        = (if i \<in> {1..Suc k} then orig_val q (\<lambda>v. 0 < value v) i else pp_mapval q i)"
      unfolding take_back_step(2) mt iv [rule_format, of i]
      by (auto simp: orig_val_def sign_of_eqs le_Suc_eq)
  qed
qed

lemma write_model:
  assumes "\<forall>i\<in>{1..k}. \<bar>mv i\<bar> = 1" and "k < length m"
  shows "\<exists>m'. ofold (\<lambda>i m. if \<bar>mv i\<bar> \<noteq> 1 then None else Some (m[i := mv i])) [1..<Suc k] m = Some m'
    \<and> length m' = length m \<and> (\<forall>i\<in>{1..k}. m' ! i = mv i)"
  using assms
proof (induction k)
  case 0
  then show ?case by simp
next
  case (Suc k)
  then obtain m' where m: "ofold (\<lambda>i m. if \<bar>mv i\<bar> \<noteq> 1 then None else Some (m[i := mv i])) [1..<Suc k] m = Some m'"
    "length m' = length m" "\<forall>i\<in>{1..k}. m' ! i = mv i" by auto
  have e: "[1..<Suc (Suc k)] = [1..<Suc k] @ [Suc k]" by simp
  have "ofold (\<lambda>i m. if \<bar>mv i\<bar> \<noteq> 1 then None else Some (m[i := mv i])) [1..<Suc (Suc k)] m = Some (m'[Suc k := mv (Suc k)])"
    unfolding e ofold_append m(1) using Suc.prems(1) by simp
  moreover have "\<forall>i\<in>{1..Suc k}. m'[Suc k := mv (Suc k)] ! i = mv i"
    using m Suc.prems(2) by (auto simp: nth_list_update le_Suc_eq)
  ultimately show ?case using m(2) by auto
qed

text \<open>From the values of a model of the remaining rows the reconstruction computes values of all
  variables of the file that satisfy \<open>S\<close>.\<close>

lemma build_model_ok:
  assumes at: "groups_at n mf rg q" and all: "recovers_all S n mf rg q" and sat: "rows_sat (\<lambda>v. 0 < value v) (pp_rows q)"
  shows "\<exists>m. build_model True value q = (True, m) \<and> length m = pp_orivars q + 1
    \<and> (\<forall>i\<in>{1..pp_orivars q}. m ! i = 1 \<or> m ! i = -1) \<and> S (\<lambda>i. m ! i = 1)"
proof -
  let ?N = "pp_orivars q"
  define b where "b = (\<lambda>v. 0 < value v)"
  define p where "p = fold (take_back value) [1..<Suc ?N] q"
  have p: "same_arrays q p" "\<forall>i\<in>{1..?N}. pp_mapval p i = orig_val q b i"
    using fold_take_back [of q "value" ?N] by (simp_all add: p_def b_def del: upt_Suc)
  have r: "recovers rg (var_val q n mf b)" using all sat by (simp add: recovers_all_def b_def)
  obtain p' where p': "get_complete_model p = (True, p')" "\<forall>u\<in>{1..n}. pp_mapval p' (mf u) = sgn_of (fold recover_step rg (var_val q n mf b) u)"
    "\<forall>i\<in>{1..?N}. i \<notin> mf ` {1..n} \<longrightarrow> pp_mapval p' i = orig_val q b i" "pp_orivars p' = ?N"
    using get_complete_model_ok [OF at p r] by blast
  have rng: "maps_range (mf ` fst ` set rg) q" and sub: "fst ` set rg \<subseteq> {1..n}"
    using at groups_vars by (auto simp: groups_at_def)
  have one: "pp_mapval p' i = 1 \<or> pp_mapval p' i = -1" if i: "i \<in> {1..?N}" for i
  proof (cases "i \<in> mf ` {1..n}")
    case True
    then obtain u where "u \<in> {1..n}" "i = mf u" by blast
    then have "pp_mapval p' i = sgn_of (fold recover_step rg (var_val q n mf b) u)" using p'(2) by blast
    then show ?thesis unfolding sgn_of_def by presburger
  next
    case False
    then have "i \<notin> mf ` fst ` set rg" using sub by blast
    then show ?thesis using orig_val_range [OF rng i, of b] p'(3) i False by (auto simp: sgn_of_def)
  qed
  let ?m0 = "replicate (?N + 1) (0 :: int)"
  obtain m where m: "ofold (\<lambda>i m. if \<bar>pp_mapval p' i\<bar> \<noteq> 1 then None else Some (m[i := pp_mapval p' i])) [1..<Suc ?N] ?m0 = Some m"
    "length m = length ?m0" "\<forall>i\<in>{1..?N}. m ! i = pp_mapval p' i"
    using write_model [of ?N "pp_mapval p'" ?m0] one by fastforce
  have bm: "build_model True value q = (True, m)"
    unfolding build_model_def Let_def p_def [symmetric] p'(1) p'(4) using m(1) p'(4) by (simp del: upt_Suc replicate_Suc replicate.simps)
  have "S (\<lambda>i. m ! i = 1)"
  proof -
    have img: "mf u \<in> {1..?N}" if "u \<in> {1..n}" for u using at that unfolding groups_at_def by blast
    have "\<forall>u\<in>{1..n}. (m ! mf u = 1) = fold recover_step rg (var_val q n mf b) u" using m(3) p'(2) img by simp
    moreover have "\<forall>i\<in>{1..?N}. i \<notin> mf ` {1..n} \<longrightarrow> (m ! i = 1) = (orig_val q b i = 1)" using m(3) p'(3) by simp
    ultimately show ?thesis by (rule recovers_allD [OF all sat [folded b_def]])
  qed
  then show ?thesis using bm m one by auto
qed

end
