(* ===== verification/Prep_Bin_Find.thy ===== *)
theory Prep_Bin_Find
  imports Prep_Bin Prep_Res_Maps
begin

text \<open>
  The signed union-find forest of \<open>preprocess_binary\<close>.  A forest stands for a root \<open>R v\<close> and a sign
  \<open>S v\<close> of every variable; \<open>find\<close> returns the root and writes the sign beside the variable, without
  changing what the forest stands for; \<open>unite\<close> and the fixing of a value add one equation.
\<close>

section \<open>What a forest stands for\<close>

definition edge_ok :: "nat \<Rightarrow> (nat \<Rightarrow> nat) \<Rightarrow> (nat \<Rightarrow> nat) \<Rightarrow> (nat \<Rightarrow> int) \<Rightarrow> preproc \<Rightarrow> nat \<Rightarrow> bool" where
  "edge_ok n r R S p v \<longleftrightarrow> pp_f p v \<in> {1..n} \<and> R v \<in> {1..n} \<and> pp_f p (R v) = R v \<and> (S v = 1 \<or> S v = -1)
     \<and> (if pp_f p v = v then R v = v \<and> S v = 1 \<and> pp_val p v = 1
        else r v < r (pp_f p v) \<and> r v < r (R v) \<and> R (pp_f p v) = R v \<and> S v = pp_val p v * S (pp_f p v)
          \<and> (pp_val p v = 1 \<or> pp_val p v = -1))"

definition ranked :: "nat \<Rightarrow> (nat \<Rightarrow> nat) \<Rightarrow> (nat \<Rightarrow> nat) \<Rightarrow> (nat \<Rightarrow> int) \<Rightarrow> preproc \<Rightarrow> bool" where
  "ranked n r R S p \<longleftrightarrow> (\<forall>v\<in>{1..n}. edge_ok n r R S p v)"

definition forest :: "nat \<Rightarrow> (nat \<Rightarrow> nat) \<Rightarrow> (nat \<Rightarrow> int) \<Rightarrow> preproc \<Rightarrow> bool" where
  "forest n R S p \<longleftrightarrow> (\<exists>r. ranked n r R S p)"

text \<open>\<open>find\<close> writes parents and signs only.\<close>

definition find_frame :: "preproc \<Rightarrow> preproc \<Rightarrow> bool" where
  "find_frame p q \<longleftrightarrow> q = p\<lparr>pp_f := pp_f q, pp_val := pp_val q\<rparr>"

lemma find_frame_refl: "find_frame p p"
  by (simp add: find_frame_def)

lemma find_frame_trans: "find_frame p q \<Longrightarrow> find_frame q t \<Longrightarrow> find_frame p t"
  by (cases p; cases q; cases t; simp add: find_frame_def)

lemma find_fields:
  assumes "find_frame p q"
  shows "pp_clauses q = pp_clauses p" "pp_vars q = pp_vars p" "pp_clause q = pp_clause p" "pp_degree q = pp_degree p"
    "pp_clause_delete q = pp_clause_delete p" "pp_varval q = pp_varval p" "pp_resseen q = pp_resseen p" "pp_mapto q = pp_mapto p"
    "pp_mapval q = pp_mapval p" "pp_orivars q = pp_orivars p" "pp_color q = pp_color p" "pp_in_cardinality q = pp_in_cardinality p"
    "pp_res_clauses q = pp_res_clauses p" "pp_res_clause q = pp_res_clause p" "pp_res_degree q = pp_res_degree p"
    "pp_res_owner q = pp_res_owner p" "pp_resolution q = pp_resolution p" "pp_resolutions q = pp_resolutions p"
proof -
  have q: "q = p\<lparr>pp_f := pp_f q, pp_val := pp_val q\<rparr>" using assms by (simp add: find_frame_def)
  show "pp_clauses q = pp_clauses p" "pp_vars q = pp_vars p" "pp_clause q = pp_clause p" "pp_degree q = pp_degree p"
    "pp_clause_delete q = pp_clause_delete p" "pp_varval q = pp_varval p" "pp_resseen q = pp_resseen p" "pp_mapto q = pp_mapto p"
    "pp_mapval q = pp_mapval p" "pp_orivars q = pp_orivars p" "pp_color q = pp_color p" "pp_in_cardinality q = pp_in_cardinality p"
    "pp_res_clauses q = pp_res_clauses p" "pp_res_clause q = pp_res_clause p" "pp_res_degree q = pp_res_degree p"
    "pp_res_owner q = pp_res_owner p" "pp_resolution q = pp_resolution p" "pp_resolutions q = pp_resolutions p"
    by (subst q, simp)+
qed

lemma rankedD:
  assumes "ranked n r R S p" and "v \<in> {1..n}"
  shows "pp_f p v \<in> {1..n}" "R v \<in> {1..n}" "pp_f p (R v) = R v" "S v = 1 \<or> S v = -1"
    and "pp_f p v = v \<Longrightarrow> R v = v \<and> S v = 1 \<and> pp_val p v = 1"
    and "pp_f p v \<noteq> v \<Longrightarrow> r v < r (pp_f p v)" and "pp_f p v \<noteq> v \<Longrightarrow> r v < r (R v)"
    and "pp_f p v \<noteq> v \<Longrightarrow> R (pp_f p v) = R v" and "pp_f p v \<noteq> v \<Longrightarrow> S v = pp_val p v * S (pp_f p v)"
    and "pp_f p v \<noteq> v \<Longrightarrow> pp_val p v = 1 \<or> pp_val p v = -1"
  using assms by (auto simp: ranked_def edge_ok_def)

lemma root_iff: "ranked n r R S p \<Longrightarrow> v \<in> {1..n} \<Longrightarrow> pp_f p v = v \<longleftrightarrow> R v = v"
  using rankedD(3,5) by metis

lemma ranked_cong: "pp_f p = pp_f q \<Longrightarrow> pp_val p = pp_val q \<Longrightarrow> ranked n r R S p = ranked n r R S q"
  by (simp add: ranked_def edge_ok_def)

lemma rank_bound: "\<exists>B. \<forall>v\<in>{1..n}. (r :: nat \<Rightarrow> nat) v \<le> B"
  by (meson finite_atLeastAtMost finite_imageI finite_nat_set_iff_bounded_le image_eqI)

section \<open>find\<close>

lemma find_root_ok:
  assumes rk: "ranked n r R S p" and x: "x \<in> {1..n}"
  shows "find_root x p = Some (R x, S x)"
proof -
  obtain B where B: "\<forall>v\<in>{1..n}. r v \<le> B" using rank_bound by blast
  define P where "P = (\<lambda>(root, orientation). root \<in> {1..n} \<and> R root = R x \<and> orientation * S root = S x \<and> (orientation = 1 \<or> orientation = (-1 :: int)))"
  let ?b = "\<lambda>(root, orientation :: int). pp_f p root \<noteq> root"
  let ?c = "\<lambda>(root, orientation). (pp_f p root, orientation * pp_val p root)"
  have start: "P (x, 1)" using x by (simp add: P_def)
  have step: "P (?c s) \<and> B - r (fst (?c s)) < B - r (fst s)" if s: "P s" "?b s" for s
  proof -
    obtain v o' where v: "s = (v, o')" by fastforce
    have vn: "v \<in> {1..n}" "R v = R x" "o' * S v = S x" "o' = 1 \<or> o' = -1" using s(1) by (simp_all add: v P_def)
    have ne: "pp_f p v \<noteq> v" using s(2) by (simp add: v)
    note d = rankedD [OF rk vn(1)]
    have "r (pp_f p v) \<le> B" using B d(1) by blast
    moreover have "o' * pp_val p v * S (pp_f p v) = S x" using d(9) [OF ne] vn(3) by simp
    moreover have "o' * pp_val p v = 1 \<or> o' * pp_val p v = -1" using d(10) [OF ne] vn(4) by auto
    ultimately show ?thesis using d(1) d(6) [OF ne] d(8) [OF ne] vn(2) by (simp add: v P_def)
  qed
  have "\<exists>t. while_option ?b ?c (x, 1) = Some t"
    by (rule measure_while_option_Some [where P = P and f = "\<lambda>s. B - r (fst s)"]) (use step start in blast)+
  then obtain t where t: "while_option ?b ?c (x, 1) = Some t" by blast
  have "P t" by (rule while_option_rule [where P = P, OF _ t start]) (use step in blast)
  moreover have "\<not> ?b t" by (rule while_option_stop [OF t])
  ultimately have "t = (R x, S x)"
    using rankedD(5) [OF rk] by (auto simp: P_def split: prod.splits)
  then show ?thesis using t by (simp add: find_root_def)
qed

lemma compress_edge:
  assumes rk: "ranked n r R S p" and v: "v \<in> {1..n}" "pp_f p v \<noteq> v"
  shows "ranked n r R S (p\<lparr>pp_f := (pp_f p)(v := R v), pp_val := (pp_val p)(v := S v)\<rparr>)"
  unfolding ranked_def
proof
  fix u assume u: "u \<in> {1..n}"
  note d = rankedD [OF rk v(1)] and e = rankedD [OF rk u]
  have Rv: "R (R v) = R v" "S (R v) = 1" using rankedD(5) [OF rk d(2) d(3)] by simp_all
  have ne: "R v \<noteq> v" using root_iff [OF rk v(1)] v(2) by simp
  have Ru: "R u \<noteq> v" using e(3) v(2) by auto
  show "edge_ok n r R S (p\<lparr>pp_f := (pp_f p)(v := R v), pp_val := (pp_val p)(v := S v)\<rparr>) u"
  proof (cases "u = v")
    case True
    then show ?thesis using d Rv ne v(2) by (simp add: edge_ok_def)
  next
    case False
    then show ?thesis using rk u Ru by (simp add: edge_ok_def ranked_def)
  qed
qed

lemma find_var_ok:
  assumes rk: "ranked n r R S p" and x: "x \<in> {1..n}"
  shows "\<exists>q. find_var x p = Some (R x, q) \<and> ranked n r R S q \<and> find_frame p q \<and> pp_val q x = S x
    \<and> (\<forall>u\<in>{1..n}. pp_val p u = S u \<longrightarrow> pp_val q u = S u)"
proof -
  obtain B where B: "\<forall>v\<in>{1..n}. r v \<le> B" using rank_bound by blast
  define P where "P = (\<lambda>(current, prefix, q). current \<in> {1..n} \<and> R current = R x \<and> prefix * S current = S x
      \<and> (prefix = 1 \<or> prefix = (-1 :: int)) \<and> ranked n r R S q \<and> find_frame p q
      \<and> (\<forall>u. pp_val p u = S u \<longrightarrow> pp_val q u = S u)
      \<and> (current = x \<and> q = p \<and> prefix = 1 \<or> pp_val q x = S x \<and> r x < r current))"
  let ?b = "\<lambda>(current, prefix :: int, p). pp_f p current \<noteq> current"
  let ?c = "compress_step (R x) (S x)"
  have start: "P (x, 1, p)" using x rk by (simp add: P_def find_frame_refl)
  have step: "P (?c s) \<and> B - r (fst (?c s)) < B - r (fst s)" if s: "P s" "?b s" for s
  proof -
    obtain v k q where v: "s = (v, k, q)" by (metis prod_cases3)
    have vn: "v \<in> {1..n}" "R v = R x" "k * S v = S x" "k = 1 \<or> k = -1" "ranked n r R S q" "find_frame p q"
      and ks: "\<forall>u. pp_val p u = S u \<longrightarrow> pp_val q u = S u"
      and cur: "v = x \<and> q = p \<and> k = 1 \<or> pp_val q x = S x \<and> r x < r v"
      using s(1) by (simp_all add: v P_def)
    have ne: "pp_f q v \<noteq> v" using s(2) by (simp add: v)
    note d = rankedD [OF vn(5,1)]
    define q' where "q' = q\<lparr>pp_f := (pp_f q)(v := R v), pp_val := (pp_val q)(v := S v)\<rparr>"
    have sv: "S x * k = S v" using vn(3,4) by auto
    have c: "?c s = (pp_f q v, k * pp_val q v, q')" by (simp add: compress_step_def v Let_def sv vn(2) q'_def)
    have rk': "ranked n r R S q'" unfolding q'_def by (rule compress_edge [OF vn(5,1) ne])
    have fr: "find_frame p q'"
      by (rule find_frame_trans [OF vn(6)]) (simp add: find_frame_def q'_def)
    have sx: "pp_val q' x = S x \<and> r x < r (pp_f q v)"
      using cur d(6) [OF ne] by (auto simp: q'_def)
    have ks': "\<forall>u. pp_val p u = S u \<longrightarrow> pp_val q' u = S u" using ks by (simp add: q'_def)
    have "r (pp_f q v) \<le> B" using B d(1) by blast
    moreover have "k * pp_val q v * S (pp_f q v) = S x" using d(9) [OF ne] vn(3) by simp
    moreover have "k * pp_val q v = 1 \<or> k * pp_val q v = -1" using d(10) [OF ne] vn(4) by auto
    ultimately show ?thesis unfolding c using d(1) d(6) [OF ne] d(8) [OF ne] vn(2) rk' fr sx ks' by (simp add: v P_def)
  qed
  have "\<exists>t. while_option ?b ?c (x, 1, p) = Some t"
    by (rule measure_while_option_Some [where P = P and f = "\<lambda>s. B - r (fst s)"]) (use step start in blast)+
  then obtain t where t: "while_option ?b ?c (x, 1, p) = Some t" by blast
  have pt: "P t" by (rule while_option_rule [where P = P, OF _ t start]) (use step in blast)
  obtain v k q where v: "t = (v, k, q)" by (metis prod_cases3)
  have stop: "pp_f q v = v" using while_option_stop [OF t] by (simp add: v)
  have q: "ranked n r R S q" "find_frame p q" "v = x \<and> q = p \<and> k = 1 \<or> pp_val q x = S x \<and> r x < r v"
    using pt by (simp_all add: v P_def)
  have ks: "\<forall>u. pp_val p u = S u \<longrightarrow> pp_val q u = S u" using pt by (simp add: v P_def)
  have "pp_val q x = S x" using q(3) stop rankedD(5) [OF q(1) x] by auto
  moreover have "find_var x p = Some (R x, q)"
    using t by (simp add: find_var_def find_root_ok [OF rk x] v)
  ultimately show ?thesis using q ks by blast
qed

section \<open>The equations of a forest\<close>

definition sg :: "(nat \<Rightarrow> bool) \<Rightarrow> nat \<Rightarrow> int" where
  "sg b v = sgn_of (b v)"

lemma sg_cases: "sg b v = 1 \<or> sg b v = -1"
  by (simp add: sg_def sgn_of_def)

definition class_sat :: "nat \<Rightarrow> (nat \<Rightarrow> nat) \<Rightarrow> (nat \<Rightarrow> int) \<Rightarrow> (nat \<Rightarrow> int) \<Rightarrow> (nat \<Rightarrow> bool) \<Rightarrow> bool" where
  "class_sat n R S F b \<longleftrightarrow> (\<forall>v\<in>{1..n}. sg b v = S v * sg b (R v) \<and> (F (R v) \<noteq> 0 \<longrightarrow> sg b (R v) = F (R v)))"

text \<open>The variables of \<open>C\<close> are alone in their class and have no value.\<close>

definition untouched :: "nat \<Rightarrow> nat set \<Rightarrow> (nat \<Rightarrow> nat) \<Rightarrow> (nat \<Rightarrow> int) \<Rightarrow> bool" where
  "untouched n C R F \<longleftrightarrow> (\<forall>v\<in>{1..n}. R v \<in> C \<longrightarrow> R v = v \<and> F v = 0) \<and> (\<forall>v\<in>C \<inter> {1..n}. R v = v)"

definition bin_ok :: "nat \<Rightarrow> nat set \<Rightarrow> (nat \<Rightarrow> nat) \<Rightarrow> (nat \<Rightarrow> int) \<Rightarrow> preproc \<Rightarrow> bool" where
  "bin_ok n C R S p \<longleftrightarrow> forest n R S p \<and> untouched n C R (pp_varval p) \<and> (\<forall>v\<in>{1..n}. pp_varval p v = 0 \<or> pp_varval p v = 1 \<or> pp_varval p v = -1)"

end
