(* ===== verification/Prep_Bin_Unite.thy ===== *)
theory Prep_Bin_Unite
  imports Prep_Bin_Find
begin

text \<open>Uniting two classes and fixing a value add one equation to what the forest says.\<close>

section \<open>Linking two roots\<close>

definition link_R :: "(nat \<Rightarrow> nat) \<Rightarrow> nat \<Rightarrow> nat \<Rightarrow> nat \<Rightarrow> nat" where
  "link_R R c d v = (if R v = c then d else R v)"

definition link_S :: "(nat \<Rightarrow> nat) \<Rightarrow> (nat \<Rightarrow> int) \<Rightarrow> nat \<Rightarrow> int \<Rightarrow> nat \<Rightarrow> int" where
  "link_S R S c e v = (if R v = c then S v * e else S v)"

definition link_F :: "(nat \<Rightarrow> int) \<Rightarrow> nat \<Rightarrow> nat \<Rightarrow> int \<Rightarrow> nat \<Rightarrow> int" where
  "link_F F c d e = (if F c \<noteq> 0 \<and> F d = 0 then F(d := e * F c) else F)(c := 0)"

lemma link_ranked:
  assumes rk: "ranked n r R S p" and c: "c \<in> {1..n}" "R c = c" and d: "d \<in> {1..n}" "R d = d" and ne: "c \<noteq> d" and e: "e = 1 \<or> e = -1"
  shows "ranked n (r(d := max (r d) (Suc (r c)))) (link_R R c d) (link_S R S c e) (p\<lparr>pp_f := (pp_f p)(c := d), pp_val := (pp_val p)(c := e)\<rparr>)"
  unfolding ranked_def
proof
  let ?r = "r(d := max (r d) (Suc (r c)))" and ?p = "p\<lparr>pp_f := (pp_f p)(c := d), pp_val := (pp_val p)(c := e)\<rparr>"
  fix v assume v: "v \<in> {1..n}"
  note k = rankedD [OF rk v] and kc = rankedD [OF rk c(1)] and kd = rankedD [OF rk d(1)]
  have root: "pp_f p c = c" "pp_f p d = d" "S c = 1" "S d = 1"
    using root_iff [OF rk c(1)] root_iff [OF rk d(1)] c(2) d(2) kc(5) kd(5) by simp_all
  have mono: "r u \<le> ?r u" for u by simp
  have rd: "r c < ?r d" "?r c = r c" using ne by simp_all
  show "edge_ok n ?r (link_R R c d) (link_S R S c e) ?p v"
  proof (cases "v = c")
    case True
    then show ?thesis using c d ne e root rd by (simp add: edge_ok_def link_R_def link_S_def)
  next
    case vc: False
    have Rf: "pp_f ?p (link_R R c d v) = link_R R c d v"
      using k(3) root ne c by (auto simp: link_R_def)
    have Rn: "link_R R c d v \<in> {1..n}" using k(2) d by (simp add: link_R_def)
    have Ss: "link_S R S c e v = 1 \<or> link_S R S c e v = -1" using k(4) e by (auto simp: link_S_def)
    show ?thesis
    proof (cases "pp_f p v = v")
      case True
      then have "R v = v" "S v = 1" "pp_val p v = 1" using k(5) by simp_all
      then show ?thesis using vc True Rf Rn Ss v by (simp add: edge_ok_def link_R_def link_S_def)
    next
      case False
      have vd: "v \<noteq> d" using False root by auto
      have lt: "?r v < ?r (pp_f p v)" using k(6) [OF False] mono [of "pp_f p v"] vd by simp
      have ltR: "?r v < ?r (link_R R c d v)"
        using k(7) [OF False] rd mono [of "R v"] vd by (auto simp: link_R_def)
      have "link_R R c d (pp_f p v) = link_R R c d v" using k(8) [OF False] by (simp add: link_R_def)
      moreover have "link_S R S c e v = pp_val p v * link_S R S c e (pp_f p v)" using k(8,9) [OF False] by (simp add: link_S_def)
      ultimately show ?thesis using vc False Rf Rn Ss k(1,10) lt ltR by (simp add: edge_ok_def del: fun_upd_apply) (simp add: vc)
    qed
  qed
qed

lemma link_sat:
  assumes rk: "ranked n r R S p" and c: "c \<in> {1..n}" "R c = c" and d: "d \<in> {1..n}" "R d = d" and ne: "c \<noteq> d" and e: "e = 1 \<or> e = -1"
    and fx: "F c \<noteq> 0 \<and> F d \<noteq> 0 \<longrightarrow> F c = e * F d"
  shows "class_sat n (link_R R c d) (link_S R S c e) (link_F F c d e) b \<longleftrightarrow> class_sat n R S F b \<and> sg b c = e * sg b d"
proof -
  let ?R = "link_R R c d" and ?S = "link_S R S c e" and ?F = "link_F F c d e"
  have ee: "e * e = 1" using e by auto
  have Sc: "S c = 1" "S d = 1" using rankedD(5) [OF rk c(1)] rankedD(5) [OF rk d(1)] root_iff [OF rk c(1)] root_iff [OF rk d(1)] c d by simp_all
  have Fd: "?F d = (if F c \<noteq> 0 \<and> F d = 0 then e * F c else F d)" and Fo: "\<And>w. w \<noteq> c \<Longrightarrow> w \<noteq> d \<Longrightarrow> ?F w = F w"
    using ne by (auto simp: link_F_def)
  show ?thesis
  proof
    assume s: "class_sat n ?R ?S ?F b"
    have at: "sg b v = ?S v * sg b (?R v)" "?F (?R v) \<noteq> 0 \<longrightarrow> sg b (?R v) = ?F (?R v)" if "v \<in> {1..n}" for v
      using s that by (simp_all add: class_sat_def)
    have eq: "sg b c = e * sg b d" using at(1) [OF c(1)] c(2) Sc by (simp add: link_R_def link_S_def)
    have dF: "?F d \<noteq> 0 \<longrightarrow> sg b d = ?F d" using at(2) [OF d(1)] d(2) ne by (simp add: link_R_def)
    have cF: "F c \<noteq> 0 \<longrightarrow> sg b c = F c" using dF fx eq ee e Fd by (auto split: if_splits)
    have "sg b v = S v * sg b (R v) \<and> (F (R v) \<noteq> 0 \<longrightarrow> sg b (R v) = F (R v))" if v: "v \<in> {1..n}" for v
    proof (cases "R v = c")
      case True
      then have "sg b v = S v * e * sg b d" using at(1) [OF v] by (simp add: link_R_def link_S_def)
      then show ?thesis using True eq cF by simp
    next
      case False
      then have "sg b v = S v * sg b (R v)" using at(1) [OF v] by (simp add: link_R_def link_S_def)
      moreover have "F (R v) \<noteq> 0 \<longrightarrow> sg b (R v) = F (R v)"
        using at(2) [OF v] False Fo [of "R v"] dF Fd by (cases "R v = d") (auto simp: link_R_def)
      ultimately show ?thesis by blast
    qed
    then show "class_sat n R S F b \<and> sg b c = e * sg b d" using eq by (simp add: class_sat_def)
  next
    assume a: "class_sat n R S F b \<and> sg b c = e * sg b d"
    then have at: "sg b v = S v * sg b (R v)" "F (R v) \<noteq> 0 \<longrightarrow> sg b (R v) = F (R v)" if "v \<in> {1..n}" for v
      using that by (simp_all add: class_sat_def)
    have eq: "sg b c = e * sg b d" "sg b d = e * sg b c" using a e by auto
    have dF: "?F d \<noteq> 0 \<longrightarrow> sg b d = ?F d" 
    proof (cases "F c \<noteq> 0 \<and> F d = 0")
      case True
      then have "sg b c = F c" using at(2) [OF c(1)] c(2) by simp
      then show ?thesis unfolding eq(2) Fd using True by simp
    next
      case False
      then show ?thesis using at(2) [OF d(1)] unfolding d(2) Fd if_not_P [OF False] by blast
    qed
    have "sg b v = ?S v * sg b (?R v) \<and> (?F (?R v) \<noteq> 0 \<longrightarrow> sg b (?R v) = ?F (?R v))" if v: "v \<in> {1..n}" for v
    proof (cases "R v = c")
      case True
      then have "sg b v = S v * (e * sg b d)" using at(1) [OF v] eq(1) by simp
      then show ?thesis using True dF by (simp add: link_R_def link_S_def)
    next
      case False
      then have e1: "?S v = S v" "?R v = R v" by (simp_all add: link_R_def link_S_def)
      have "?F (R v) \<noteq> 0 \<longrightarrow> sg b (R v) = ?F (R v)"
      proof (cases "R v = d")
        case True
        show ?thesis unfolding True by (rule dF)
      next
        case nd: False
        show ?thesis unfolding Fo [OF False nd] by (rule at(2) [OF v])
      qed
      then show ?thesis unfolding e1 using at(1) [OF v] by blast
    qed
    then show "class_sat n ?R ?S ?F b" by (simp add: class_sat_def)
  qed
qed

section \<open>Actions\<close>

definition act_ok :: "nat \<Rightarrow> nat set \<Rightarrow> action \<Rightarrow> bool" where
  "act_ok n C a \<longleftrightarrow> nat (act_first a) \<in> {1..n} - C \<and> (act_value a = 1 \<or> act_value a = -1)
     \<and> (act_kind a = Relation \<longrightarrow> nat (act_second a) \<in> {1..n} - C)"

definition act_sat :: "action \<Rightarrow> (nat \<Rightarrow> bool) \<Rightarrow> bool" where
  "act_sat a b \<longleftrightarrow> (if act_kind a = Relation then sg b (nat (act_first a)) = act_value a * sg b (nat (act_second a))
     else sg b (nat (act_first a)) = act_value a)"

text \<open>The part of the state that an action may write.\<close>

definition act_frame :: "preproc \<Rightarrow> preproc \<Rightarrow> bool" where
  "act_frame p q \<longleftrightarrow> q = p\<lparr>pp_f := pp_f q, pp_val := pp_val q, pp_varval := pp_varval q\<rparr>"

lemma act_frame_trans: "act_frame p q \<Longrightarrow> act_frame q t \<Longrightarrow> act_frame p t"
  by (cases p; cases q; cases t; simp add: act_frame_def)

lemma act_frame_refl: "act_frame p p"
  by (simp add: act_frame_def)

lemma find_act_frame: "find_frame p q \<Longrightarrow> act_frame p q"
  by (cases p; cases q; simp add: act_frame_def find_frame_def)

lemma act_frame_upd: "act_frame p q \<Longrightarrow> act_frame p (q\<lparr>pp_varval := x\<rparr>)" "act_frame p q \<Longrightarrow> act_frame p (q\<lparr>pp_f := f, pp_val := g, pp_varval := x\<rparr>)"
  by (cases p; cases q; simp add: act_frame_def)+

lemma act_fields:
  assumes "act_frame p q"
  shows "pp_clauses q = pp_clauses p" "pp_vars q = pp_vars p" "pp_clause q = pp_clause p" "pp_degree q = pp_degree p"
    "pp_clause_delete q = pp_clause_delete p" "pp_resseen q = pp_resseen p" "pp_mapto q = pp_mapto p"
    "pp_mapval q = pp_mapval p" "pp_orivars q = pp_orivars p" "pp_in_cardinality q = pp_in_cardinality p"
    "pp_res_clauses q = pp_res_clauses p" "pp_res_clause q = pp_res_clause p" "pp_res_degree q = pp_res_degree p"
    "pp_res_owner q = pp_res_owner p" "pp_resolution q = pp_resolution p" "pp_resolutions q = pp_resolutions p"
proof -
  have q: "q = p\<lparr>pp_f := pp_f q, pp_val := pp_val q, pp_varval := pp_varval q\<rparr>" using assms by (simp add: act_frame_def)
  show "pp_clauses q = pp_clauses p" "pp_vars q = pp_vars p" "pp_clause q = pp_clause p" "pp_degree q = pp_degree p"
    "pp_clause_delete q = pp_clause_delete p" "pp_resseen q = pp_resseen p" "pp_mapto q = pp_mapto p"
    "pp_mapval q = pp_mapval p" "pp_orivars q = pp_orivars p" "pp_in_cardinality q = pp_in_cardinality p"
    "pp_res_clauses q = pp_res_clauses p" "pp_res_clause q = pp_res_clause p" "pp_res_degree q = pp_res_degree p"
    "pp_res_owner q = pp_res_owner p" "pp_resolution q = pp_resolution p" "pp_resolutions q = pp_resolutions p"
    by (subst q, simp)+
qed

text \<open>The result of an action: inconsistent, or the equation has been added; unchanged means that the
  forest stands for the same.\<close>

definition act_result :: "nat \<Rightarrow> nat set \<Rightarrow> (nat \<Rightarrow> nat) \<Rightarrow> (nat \<Rightarrow> int) \<Rightarrow> preproc \<Rightarrow> ((nat \<Rightarrow> bool) \<Rightarrow> bool)
    \<Rightarrow> (bool \<times> bool \<times> bin_state) option \<Rightarrow> bool" where
  "act_result n C R S p Q res \<longleftrightarrow> (\<exists>consistent changed t. res = Some (consistent, changed, t) \<and>
     (if consistent then act_frame p (bs_prep t) \<and> (\<exists>R' S'. bin_ok n C R' S' (bs_prep t)
          \<and> (\<forall>b. class_sat n R' S' (pp_varval (bs_prep t)) b \<longleftrightarrow> class_sat n R S (pp_varval p) b \<and> Q b))
      else (\<forall>b. class_sat n R S (pp_varval p) b \<longrightarrow> \<not> Q b)))"

lemma act_resultI:
  assumes "act_frame p (bs_prep t)" and "bin_ok n C R' S' (bs_prep t)"
    and "\<And>b. class_sat n R' S' (pp_varval (bs_prep t)) b \<longleftrightarrow> class_sat n R S (pp_varval p) b \<and> Q b"
  shows "act_result n C R S p Q (Some (True, changed, t))"
  unfolding act_result_def using assms by (intro exI [of _ True] exI [of _ changed] exI [of _ t]) auto

lemma act_resultE:
  assumes "\<And>b. class_sat n R S (pp_varval p) b \<Longrightarrow> \<not> Q b"
  shows "act_result n C R S p Q (Some (False, changed, t))"
  unfolding act_result_def using assms by (intro exI [of _ False] exI [of _ changed] exI [of _ t]) simp

lemma bin_okD:
  assumes "bin_ok n C R S p"
  shows "\<exists>r. ranked n r R S p" and "untouched n C R (pp_varval p)"
    and "v \<in> {1..n} \<Longrightarrow> pp_varval p v = 0 \<or> pp_varval p v = 1 \<or> pp_varval p v = -1"
  using assms by (auto simp: bin_ok_def forest_def)

lemma root_not_C:
  assumes "untouched n C R F" and "v \<in> {1..n} - C"
  shows "R v \<notin> C"
proof
  assume "R v \<in> C"
  then have "R v = v" using assms by (simp add: untouched_def)
  then show False using \<open>R v \<in> C\<close> assms(2) by simp
qed

lemma find_bin_ok:
  assumes "bin_ok n C R S p" and "x \<in> {1..n}"
  shows "\<exists>q. find_var x p = Some (R x, q) \<and> bin_ok n C R S q \<and> find_frame p q \<and> pp_val q x = S x
    \<and> (\<forall>u\<in>{1..n}. pp_val p u = S u \<longrightarrow> pp_val q u = S u)"
proof -
  obtain r where r: "ranked n r R S p" using bin_okD(1) [OF assms(1)] by blast
  obtain q where q: "find_var x p = Some (R x, q)" "ranked n r R S q" "find_frame p q" "pp_val q x = S x"
      "\<forall>u\<in>{1..n}. pp_val p u = S u \<longrightarrow> pp_val q u = S u"
    using find_var_ok [OF r assms(2)] by blast
  have "pp_varval q = pp_varval p" by (rule find_fields(6) [OF q(3)])
  then have "bin_ok n C R S q" unfolding bin_ok_def forest_def using q(2) bin_okD(2,3) [OF assms(1)] by auto
  then show ?thesis using q by blast
qed

lemma class_satD:
  assumes "class_sat n R S F b" and "v \<in> {1..n}"
  shows "sg b v = S v * sg b (R v)" and "F (R v) \<noteq> 0 \<Longrightarrow> sg b (R v) = F (R v)"
  using assms by (auto simp: class_sat_def)

lemma assign_value_ok:
  assumes ok: "bin_ok n C R S (bs_prep s)" and x: "x \<in> {1..n} - C" and w: "w = 1 \<or> w = -1"
  shows "act_result n C R S (bs_prep s) (\<lambda>b. sg b x = w) (assign_value x w s)"
proof -
  let ?p = "bs_prep s"
  obtain q where q: "find_var x ?p = Some (R x, q)" "bin_ok n C R S q" "find_frame ?p q" "pp_val q x = S x"
    using find_bin_ok [OF ok] x by blast
  have fv: "pp_varval q = pp_varval ?p" by (rule find_fields(6) [OF q(3)])
  obtain r where r1: "ranked n r R S q" using bin_okD(1) [OF q(2)] by blast
  note r = r1 bin_okD(2,3) [OF q(2)]
  note k = rankedD [OF r(1), of x]
  have Rx: "R x \<in> {1..n}" "S x = 1 \<or> S x = -1" using k(2,4) x by auto
  let ?rv = "w * S x"
  have eqv: "sg b x = w \<longleftrightarrow> sg b (R x) = ?rv" if "class_sat n R S (pp_varval ?p) b" for b
    using class_satD(1) [OF that, of x] x Rx(2) w by auto
  have res: "assign_value x w s = (if pp_varval q (R x) \<noteq> 0 then Some (pp_varval q (R x) = ?rv, False, s\<lparr>bs_prep := q\<rparr>)
     else Some (True, True, s\<lparr>bs_prep := q\<lparr>pp_varval := (pp_varval q)(R x := ?rv)\<rparr>\<rparr>))"
    by (simp add: assign_value_def q(1,4) Let_def)
  show ?thesis
  proof (cases "pp_varval q (R x) = 0")
    case False
    have fx: "sg b (R x) = pp_varval q (R x)" if "class_sat n R S (pp_varval ?p) b" for b
      using class_satD(2) [OF that, of x] x False fv by auto
    show ?thesis
    proof (cases "pp_varval q (R x) = ?rv")
      case True
      then have r': "assign_value x w s = Some (True, False, s\<lparr>bs_prep := q\<rparr>)" using res False by simp
      show ?thesis unfolding r'
        by (rule act_resultI [where R' = R and S' = S]) (use q find_act_frame [OF q(3)] eqv fx True fv in auto)
    next
      case ne: False
      then have r': "assign_value x w s = Some (False, False, s\<lparr>bs_prep := q\<rparr>)" using res False by simp
      show ?thesis unfolding r'
      proof (rule act_resultE)
        fix b assume b: "class_sat n R S (pp_varval ?p) b"
        show "\<not> sg b x = w" using eqv [OF b] fx [OF b] ne by simp
      qed
    qed
  next
    case True
    define t where "t = s\<lparr>bs_prep := q\<lparr>pp_varval := (pp_varval q)(R x := ?rv)\<rparr>\<rparr>"
    have r': "assign_value x w s = Some (True, True, t)" using res True by (simp add: t_def)
    have nC: "R x \<notin> C" by (rule root_not_C [OF r(2) x])
    have tv: "pp_varval (bs_prep t) = (pp_varval q)(R x := ?rv)" by (simp add: t_def)
    have "ranked n r R S (bs_prep t)" using r(1) by (simp add: t_def ranked_def edge_ok_def)
    moreover have "untouched n C R (pp_varval (bs_prep t))" using r(2) nC by (auto simp: untouched_def tv)
    moreover have "pp_varval (bs_prep t) v = 0 \<or> pp_varval (bs_prep t) v = 1 \<or> pp_varval (bs_prep t) v = -1" if "v \<in> {1..n}" for v
      using r(3) [OF that] Rx(2) w by (auto simp: tv)
    ultimately have bt: "bin_ok n C R S (bs_prep t)" unfolding bin_ok_def forest_def by blast
    have "class_sat n R S (pp_varval (bs_prep t)) b \<longleftrightarrow> class_sat n R S (pp_varval ?p) b \<and> sg b (R x) = ?rv" for b
    proof -
      have rv: "?rv \<noteq> 0" using w Rx(2) by auto
      have "(pp_varval (bs_prep t) (R v) \<noteq> 0 \<longrightarrow> sg b (R v) = pp_varval (bs_prep t) (R v))
          \<longleftrightarrow> (pp_varval q (R v) \<noteq> 0 \<longrightarrow> sg b (R v) = pp_varval q (R v)) \<and> (R v = R x \<longrightarrow> sg b (R x) = ?rv)" for v
        using True rv by (auto simp: tv)
      then show ?thesis unfolding class_sat_def fv [symmetric] using x by auto
    qed
    then have "class_sat n R S (pp_varval (bs_prep t)) b \<longleftrightarrow> class_sat n R S (pp_varval ?p) b \<and> sg b x = w" for b
      using eqv by blast
    moreover have "act_frame ?p (bs_prep t)" using act_frame_upd(1) [OF find_act_frame [OF q(3)]] by (simp add: t_def)
    ultimately show ?thesis unfolding r' using bt by (intro act_resultI [where R' = R and S' = S])
  qed
qed

text \<open>Linking two roots outside \<open>C\<close>, in either direction.\<close>

lemma link_roots_ok:
  assumes ok: "bin_ok n C R S (bs_prep s)" and c: "c \<in> {1..n} - C" "R c = c" and d: "d \<in> {1..n} - C" "R d = d"
    and ne: "c \<noteq> d" and e: "e = 1 \<or> e = -1"
    and fx: "pp_varval (bs_prep s) c \<noteq> 0 \<and> pp_varval (bs_prep s) d \<noteq> 0 \<longrightarrow> pp_varval (bs_prep s) c = e * pp_varval (bs_prep s) d"
  defines "t \<equiv> link_roots c d e s"
  shows "act_frame (bs_prep s) (bs_prep t) \<and> bin_ok n C (link_R R c d) (link_S R S c e) (bs_prep t)
    \<and> (\<forall>b. class_sat n (link_R R c d) (link_S R S c e) (pp_varval (bs_prep t)) b
        \<longleftrightarrow> class_sat n R S (pp_varval (bs_prep s)) b \<and> sg b c = e * sg b d)"
proof -
  let ?p = "bs_prep s" and ?F = "pp_varval (bs_prep s)"
  obtain r where r: "ranked n r R S ?p" using bin_okD(1) [OF ok] by blast
  note un = bin_okD(2) [OF ok] and rng = bin_okD(3) [OF ok]
  have t: "bs_prep t = ?p\<lparr>pp_f := (pp_f ?p)(c := d), pp_val := (pp_val ?p)(c := e), pp_varval := link_F ?F c d e\<rparr>"
    by (simp add: t_def link_roots_def Let_def link_F_def)
  define q where "q = ?p\<lparr>pp_f := (pp_f ?p)(c := d), pp_val := (pp_val ?p)(c := e)\<rparr>"
  have q: "ranked n (r(d := max (r d) (Suc (r c)))) (link_R R c d) (link_S R S c e) q"
    unfolding q_def by (rule link_ranked [OF r]) (use c d ne e in auto)
  then have rt: "ranked n (r(d := max (r d) (Suc (r c)))) (link_R R c d) (link_S R S c e) (bs_prep t)"
    by (rule ranked_cong [THEN iffD1, rotated -1]) (simp_all add: t q_def)
  have tv: "pp_varval (bs_prep t) = link_F ?F c d e" by (simp add: t)
  have u: "untouched n C (link_R R c d) (link_F ?F c d e)"
    unfolding untouched_def
  proof (intro conjI ballI impI)
    fix v assume v: "v \<in> {1..n}" "link_R R c d v \<in> C"
    then have o: "R v \<noteq> c" "link_R R c d v = R v" using d by (auto simp: link_R_def split: if_splits)
    then have rv: "R v = v" "?F v = 0" "v \<in> C" using un v unfolding untouched_def by (metis, metis, metis)
    then show "link_R R c d v = v" using o by simp
    show "link_F ?F c d e v = 0" using rv c d by (auto simp: link_F_def)
  next
    fix v assume v: "v \<in> C \<inter> {1..n}"
    then have "R v = v" using un by (simp add: untouched_def)
    then show "link_R R c d v = v" using v c by (auto simp: link_R_def)
  qed
  have g: "link_F ?F c d e v = 0 \<or> link_F ?F c d e v = 1 \<or> link_F ?F c d e v = -1" if "v \<in> {1..n}" for v
    using rng [OF that] rng [of c] c e by (auto simp: link_F_def)
  have "bin_ok n C (link_R R c d) (link_S R S c e) (bs_prep t)"
    unfolding bin_ok_def forest_def tv using rt u g by blast
  moreover have "act_frame ?p (bs_prep t)" by (simp add: act_frame_def t)
  moreover have "\<forall>b. class_sat n (link_R R c d) (link_S R S c e) (pp_varval (bs_prep t)) b
        \<longleftrightarrow> class_sat n R S ?F b \<and> sg b c = e * sg b d"
    unfolding tv using link_sat [OF r _ c(2) _ d(2) ne e fx] c d by blast
  ultimately show ?thesis by blast
qed

lemma unite_ok:
  assumes ok: "bin_ok n C R S (bs_prep s)" and x: "x \<in> {1..n} - C" and y: "y \<in> {1..n} - C" and w: "w = 1 \<or> w = -1"
  shows "act_result n C R S (bs_prep s) (\<lambda>b. sg b x = w * sg b y) (unite x y w s)"
proof -
  let ?p = "bs_prep s"
  obtain q1 where q1: "find_var x ?p = Some (R x, q1)" "bin_ok n C R S q1" "find_frame ?p q1" "pp_val q1 x = S x"
    using find_bin_ok [OF ok] x by blast
  obtain q where q: "find_var y q1 = Some (R y, q)" "bin_ok n C R S q" "find_frame q1 q" "pp_val q y = S y"
      "\<forall>u\<in>{1..n}. pp_val q1 u = S u \<longrightarrow> pp_val q u = S u"
    using find_bin_ok [OF q1(2)] y by blast
  have fr: "find_frame ?p q" by (rule find_frame_trans [OF q1(3) q(3)])
  have fv: "pp_varval q = pp_varval ?p" by (rule find_fields(6) [OF fr])
  obtain r where r: "ranked n r R S q" using bin_okD(1) [OF q(2)] by blast
  note un = bin_okD(2) [OF q(2)]
  have vx: "pp_val q x = S x" using q(5) q1(4) x by blast
  define e where "e = w * S x * S y"
  have Sxy: "S x = 1 \<or> S x = -1" "S y = 1 \<or> S y = -1" "R x \<in> {1..n}" "R y \<in> {1..n}" "R (R x) = R x" "R (R y) = R y"
    using rankedD(2,3,4) [OF r, of x] rankedD(2,3,4) [OF r, of y] root_iff [OF r] x y by auto
  have e: "e = 1 \<or> e = -1" using w Sxy by (auto simp: e_def)
  have nC: "R x \<in> {1..n} - C" "R y \<in> {1..n} - C" using root_not_C [OF un] x y Sxy(3,4) by auto
  have eqv: "sg b x = w * sg b y \<longleftrightarrow> sg b (R x) = e * sg b (R y)" if "class_sat n R S (pp_varval ?p) b" for b
    using class_satD(1) [OF that, of x] class_satD(1) [OF that, of y] x y w Sxy(1,2) by (auto simp: e_def)
  define u where "u = s\<lparr>bs_prep := q\<rparr>"
  have u: "bs_prep u = q" "bin_ok n C R S (bs_prep u)" using q(2) by (simp_all add: u_def)
  have res: "unite x y w s = (if R x = R y then Some (S x = w * S y, False, u)
      else if pp_varval q (R x) \<noteq> 0 \<and> pp_varval q (R y) \<noteq> 0 \<and> pp_varval q (R x) \<noteq> e * pp_varval q (R y)
      then Some (False, False, u)
      else if bs_size u (R x) \<le> bs_size u (R y) then Some (True, True, link_roots (R x) (R y) e u)
      else Some (True, True, link_roots (R y) (R x) e u))"
    by (simp add: unite_def q1(1) q(1,4) vx Let_def u_def e_def)
  show ?thesis
  proof (cases "R x = R y")
    case True
    have ee: "sg b x = w * sg b y \<longleftrightarrow> S x = w * S y" if "class_sat n R S (pp_varval ?p) b" for b
      using eqv [OF that] True sg_cases [of b "R y"] Sxy(1,2) w by (auto simp: e_def)
    show ?thesis
    proof (cases "S x = w * S y")
      case s: True
      have r': "unite x y w s = Some (True, False, u)" using res True s by simp
      show ?thesis unfolding r'
        by (rule act_resultI [where R' = R and S' = S]) (use u find_act_frame [OF fr] ee s fv in auto)
    next
      case False
      have r': "unite x y w s = Some (False, False, u)" using res True False by simp
      show ?thesis unfolding r' using ee False by (intro act_resultE) blast
    qed
  next
    case ne: False
    show ?thesis
    proof (cases "pp_varval q (R x) \<noteq> 0 \<and> pp_varval q (R y) \<noteq> 0 \<and> pp_varval q (R x) \<noteq> e * pp_varval q (R y)")
      case True
      have r': "unite x y w s = Some (False, False, u)" using res ne True by simp
      have "\<not> sg b x = w * sg b y" if b: "class_sat n R S (pp_varval ?p) b" for b
      proof -
        have "sg b (R x) = pp_varval q (R x)" "sg b (R y) = pp_varval q (R y)"
          using class_satD(2) [OF b] x y True fv by auto
        then show ?thesis using eqv [OF b] True by simp
      qed
      then show ?thesis unfolding r' by (intro act_resultE)
    next
      case False
      have fx: "pp_varval (bs_prep u) (R x) \<noteq> 0 \<and> pp_varval (bs_prep u) (R y) \<noteq> 0 \<longrightarrow> pp_varval (bs_prep u) (R x) = e * pp_varval (bs_prep u) (R y)"
        using False unfolding u(1) by blast
      have fy: "pp_varval (bs_prep u) (R y) \<noteq> 0 \<and> pp_varval (bs_prep u) (R x) \<noteq> 0 \<longrightarrow> pp_varval (bs_prep u) (R y) = e * pp_varval (bs_prep u) (R x)"
        using fx e by auto
      have fru: "act_frame ?p (bs_prep u)" using find_act_frame [OF fr] by (simp add: u)
      show ?thesis
      proof (cases "bs_size u (R x) \<le> bs_size u (R y)")
        case True
        have r': "unite x y w s = Some (True, True, link_roots (R x) (R y) e u)" using res ne False True by simp
        note l = link_roots_ok [OF u(2) nC(1) Sxy(5) nC(2) Sxy(6) ne e fx]
        show ?thesis unfolding r'
          by (rule act_resultI [where R' = "link_R R (R x) (R y)" and S' = "link_S R S (R x) e"])
             (use l act_frame_trans [OF fru] eqv fv u(1) in auto)
      next
        case lt: False
        have r': "unite x y w s = Some (True, True, link_roots (R y) (R x) e u)" using res ne False lt by simp
        note l = link_roots_ok [OF u(2) nC(2) Sxy(6) nC(1) Sxy(5) ne [symmetric] e fy]
        have sym: "sg b (R y) = e * sg b (R x) \<longleftrightarrow> sg b (R x) = e * sg b (R y)" for b using e by auto
        show ?thesis unfolding r'
          by (rule act_resultI [where R' = "link_R R (R y) (R x)" and S' = "link_S R S (R y) e"])
             (use l act_frame_trans [OF fru] eqv fv u(1) sym in auto)
      qed
    qed
  qed
qed

end
