(* ===== verification/Prep_Bin_Scan.thy ===== *)
theory Prep_Bin_Scan
  imports Prep_Bin_Unite
begin

unbundle bit_operations_syntax

text \<open>
  The patterns of two binary rows: every recorded action follows from the rows, and the recorded
  actions imply every row that is marked for deletion.
\<close>

section \<open>Keys\<close>

lemma pack_inj:
  fixes a b c d :: "32 word"
  assumes "(push_bit 32 (ucast a) OR ucast b :: 64 word) = push_bit 32 (ucast c) OR ucast d"
  shows "a = c \<and> b = d"
proof
  have bits: "bit (push_bit 32 (ucast a) OR ucast b :: 64 word) k = bit (push_bit 32 (ucast c) OR ucast d :: 64 word) k" for k
    using assms by simp
  show "b = d"
  proof (rule bit_word_eqI)
    fix k assume k: "k < LENGTH(32)"
    then show "bit b k \<longleftrightarrow> bit d k" using bits [of k] by (simp add: bit_or_iff bit_push_bit_iff bit_ucast_iff)
  qed
  show "a = c"
  proof (rule bit_word_eqI)
    fix k assume k: "k < LENGTH(32)"
    have "\<not> bit b (k + 32)" "\<not> bit d (k + 32)" by (auto dest: bit_imp_le_length)
    then show "bit a k \<longleftrightarrow> bit c k" using bits [of "k + 32"] k by (simp add: bit_or_iff bit_push_bit_iff bit_ucast_iff)
  qed
qed

lemma word_lit_inj:
  assumes "\<bar>x\<bar> < 2 ^ 31" "\<bar>y\<bar> < 2 ^ 31" and "(word_of_int x :: 32 word) = word_of_int y"
  shows "x = y"
proof -
  have "x mod 2 ^ 32 = y mod 2 ^ 32" using assms(3) by (simp add: word_of_int_eq_iff take_bit_eq_mod)
  then have "(2 ^ 32 :: int) dvd x - y" by (simp add: mod_eq_dvd_iff)
  moreover have "\<bar>x - y\<bar> < 2 ^ 32" using assms(1,2) by (simp add: abs_if split: if_splits)
  ultimately show ?thesis using dvd_imp_le_int [of "x - y" "2 ^ 32"] by fastforce
qed

lemma binary_key_inj:
  assumes "binary_key x y = binary_key x' y'" and "\<bar>x\<bar> < 2 ^ 31" "\<bar>y\<bar> < 2 ^ 31" "\<bar>x'\<bar> < 2 ^ 31" "\<bar>y'\<bar> < 2 ^ 31"
  shows "x = x' \<and> y = y' \<or> x = y' \<and> y = x'"
proof -
  define f s f' s' where "f = (if y < x then y else x)" and "s = (if y < x then x else y)"
    and "f' = (if y' < x' then y' else x')" and "s' = (if y' < x' then x' else y')"
  have "(word_of_int f :: 32 word) = word_of_int f' \<and> (word_of_int s :: 32 word) = word_of_int s'"
    by (rule pack_inj) (use assms(1) in \<open>simp add: binary_key_def Let_def f_def s_def f'_def s'_def\<close>)
  then have "f = f'" "s = s'" using word_lit_inj [of f f'] word_lit_inj [of s s'] assms(2-5)
    by (auto simp: f_def s_def f'_def s'_def split: if_splits)
  then show ?thesis by (auto simp: f_def s_def f'_def s'_def split: if_splits)
qed

section \<open>The index\<close>

definition bin_rows :: "nat \<Rightarrow> preproc \<Rightarrow> bool" where
  "bin_rows n p \<longleftrightarrow> int n < 2 ^ 31 \<and> (\<forall>i\<in>set (active_rows p). good_row n (row_of p i))"

lemma binary_row_active:
  assumes "bin_rows n p" and "binary_row p i" and "i \<in> {1..pp_clauses p}"
  shows "\<exists>x y. pp_row p i = [x, y] \<and> pp_deg p i = 1 \<and> i \<in> set (active_rows p) \<and> x \<noteq> 0 \<and> y \<noteq> 0 \<and> lit_var x \<noteq> lit_var y
    \<and> lit_var x \<in> {1..n} \<and> lit_var y \<in> {1..n}"
proof -
  have i: "i \<in> set (active_rows p)" "pp_deg p i = 1" "length (pp_row p i) = 2"
    using assms(2,3) by (simp_all add: binary_row_def active_mem)
  obtain x y where r: "pp_row p i = [x, y]" using i(3) by (auto simp: numeral_2_eq_2 length_Suc_conv)
  have g: "good_row n (row_of p i)" using assms(1) i(1) by (simp add: bin_rows_def)
  then show ?thesis using i r lit_var_pos [of x] lit_var_pos [of y] by (auto simp: good_row_def Suc_le_eq)
qed

definition index_ok :: "preproc \<Rightarrow> (64 word \<rightharpoonup> nat) \<Rightarrow> bool" where
  "index_ok p m \<longleftrightarrow> (\<forall>k i. m k = Some i \<longrightarrow> i \<in> {1..pp_clauses p} \<and> binary_row p i \<and> k = binary_key (pp_row p i ! 0) (pp_row p i ! 1))"

lemma index_fold:
  assumes "set ids \<subseteq> {1..pp_clauses p}" and "index_ok p m"
  shows "index_ok p (fold (index_binary p) ids m)"
  using assms
proof (induction ids arbitrary: m)
  case (Cons i ids)
  have "index_ok p (index_binary p i m)"
    using Cons.prems by (auto simp: index_ok_def index_binary_def Let_def)
  then show ?case using Cons by simp
qed simp

lemma small_lit: "int n < 2 ^ 31 \<Longrightarrow> lit_var l \<le> n \<Longrightarrow> \<bar>l\<bar> < 2 ^ 31"
  by (simp add: lit_var_def)

lemma lookup_ok:
  assumes ix: "index_ok p m" and rows: "bin_rows n p" and w: "lookup_binary m x y = w" "w \<noteq> 0" and lits: "lit_var x \<le> n" "lit_var y \<le> n"
  shows "w \<in> set (active_rows p) \<and> pp_deg p w = 1 \<and> (pp_row p w = [x, y] \<or> pp_row p w = [y, x])"
proof -
  have m: "m (binary_key x y) = Some w" using w by (auto simp: lookup_binary_def split: option.splits)
  then have r: "w \<in> {1..pp_clauses p}" "binary_row p w" "binary_key x y = binary_key (pp_row p w ! 0) (pp_row p w ! 1)"
    using ix unfolding index_ok_def by blast+
  obtain u v where uv: "pp_row p w = [u, v]" "pp_deg p w = 1" "w \<in> set (active_rows p)" "lit_var u \<in> {1..n}" "lit_var v \<in> {1..n}"
    using binary_row_active [OF rows r(2,1)] by blast
  have n: "int n < 2 ^ 31" using rows by (simp add: bin_rows_def)
  have "x = u \<and> y = v \<or> x = v \<and> y = u"
    by (rule binary_key_inj) (use r(3) uv small_lit [OF n] lits in auto)
  then show ?thesis using uv by auto
qed

section \<open>The meaning of the actions\<close>

lemma lit_sg: "l \<noteq> 0 \<Longrightarrow> lit_sat b l \<longleftrightarrow> sg b (lit_var l) = pnsign l"
  by (auto simp: lit_sat_def sg_def sgn_of_def pnsign_def)

lemma pair_row_sat: "row_sat b [x, y] 1 \<longleftrightarrow> lit_sat b x \<or> lit_sat b y"
  by (auto simp: row_sat_def)

lemma abs_lit: "nat \<bar>l\<bar> = lit_var l"
  by (simp add: lit_var_def)

lemma relation_sides:
  "nat (act_first (relation_action x y)) = min (lit_var x) (lit_var y)"
  "nat (act_second (relation_action x y)) = max (lit_var x) (lit_var y)"
  "act_value (relation_action x y) = - pnsign x * pnsign y" "act_kind (relation_action x y) = Relation"
  by (auto simp: relation_action_def lit_var_def min_def max_def)

lemma sign_product:
  assumes "s = 1 \<or> s = (-1 :: int)" "t = 1 \<or> t = -1" "e = 1 \<or> e = -1" "f = 1 \<or> f = -1"
  shows "s = - e * f * t \<longleftrightarrow> (s = e) \<noteq> (t = f)"
  using assms by (elim disjE) simp_all

lemma relation_sat:
  assumes "x \<noteq> 0" "y \<noteq> 0"
  shows "act_sat (relation_action x y) b \<longleftrightarrow> (lit_sat b x \<longleftrightarrow> \<not> lit_sat b y)"
proof -
  note c = sg_cases [of b "lit_var x"] sg_cases [of b "lit_var y"] pnsign_cases [of x] pnsign_cases [of y]
  have 1: "sg b (lit_var x) = - pnsign x * pnsign y * sg b (lit_var y) \<longleftrightarrow> (sg b (lit_var x) = pnsign x) \<noteq> (sg b (lit_var y) = pnsign y)"
    by (rule sign_product [OF c])
  have 2: "sg b (lit_var y) = - pnsign y * pnsign x * sg b (lit_var x) \<longleftrightarrow> (sg b (lit_var y) = pnsign y) \<noteq> (sg b (lit_var x) = pnsign x)"
    by (rule sign_product [OF c(2,1,4,3)])
  have s: "- pnsign x * pnsign y = - pnsign y * pnsign x" by simp
  show ?thesis
  proof (cases "lit_var x \<le> lit_var y")
    case True
    then have "act_sat (relation_action x y) b \<longleftrightarrow> sg b (lit_var x) = - pnsign x * pnsign y * sg b (lit_var y)"
      by (simp add: act_sat_def relation_sides)
    then show ?thesis using 1 unfolding lit_sg [OF assms(1)] lit_sg [OF assms(2)] by blast
  next
    case False
    then have "act_sat (relation_action x y) b \<longleftrightarrow> sg b (lit_var y) = - pnsign x * pnsign y * sg b (lit_var x)"
      by (simp add: act_sat_def relation_sides)
    then show ?thesis using 2 unfolding lit_sg [OF assms(1)] lit_sg [OF assms(2)] s by blast
  qed
qed

lemma fixed_sat: "x \<noteq> 0 \<Longrightarrow> act_sat (fixed_action x) b \<longleftrightarrow> lit_sat b x"
  by (simp add: act_sat_def fixed_action_def lit_sg lit_var_def)

definition card_vars :: "nat \<Rightarrow> preproc \<Rightarrow> nat set" where
  "card_vars n p = {v\<in>{1..n}. pp_in_cardinality p ! v \<noteq> 0}"

lemma relation_ok:
  assumes "is_safe p (relation_action x y)" and "lit_var x \<in> {1..n}" "lit_var y \<in> {1..n}"
  shows "act_ok n (card_vars n p) (relation_action x y)"
proof -
  have v: "- pnsign x * pnsign y = 1 \<or> - pnsign x * pnsign y = -1" by (simp add: pnsign_def)
  have s: "pp_in_cardinality p ! min (lit_var x) (lit_var y) = 0" "pp_in_cardinality p ! max (lit_var x) (lit_var y) = 0"
    using assms(1) by (simp_all add: is_safe_def relation_sides)
  show ?thesis unfolding act_ok_def relation_sides using v s assms(2,3) by (simp add: card_vars_def min_def max_def)
qed

lemma fixed_ok:
  assumes "is_safe p (fixed_action x)" and "lit_var x \<in> {1..n}"
  shows "act_ok n (card_vars n p) (fixed_action x)"
  using assms pnsign_cases [of x] by (auto simp: act_ok_def fixed_action_def is_safe_def card_vars_def lit_var_def)

section \<open>The scan\<close>

definition scan_inv :: "nat \<Rightarrow> preproc \<Rightarrow> nat set \<times> action list \<Rightarrow> bool" where
  "scan_inv n p = (\<lambda>(W, acts). (\<forall>a\<in>set acts. act_ok n (card_vars n p) a \<and> (\<forall>b. models p b \<longrightarrow> act_sat a b))
     \<and> (\<forall>i\<in>W. \<forall>b. (\<forall>a\<in>set acts. act_sat a b) \<longrightarrow> row_sat b (pp_row p i) (pp_deg p i)))"

lemma record_ok:
  assumes inv: "scan_inv n p (W, acts)" and ok: "is_safe p a \<Longrightarrow> act_ok n (card_vars n p) a"
    and sat: "\<And>b. models p b \<Longrightarrow> act_sat a b"
    and wit: "\<And>b. act_sat a b \<Longrightarrow> row_sat b (pp_row p i) (pp_deg p i) \<and> row_sat b (pp_row p j) (pp_deg p j)"
  shows "scan_inv n p (record_action p a i j (W, acts))"
proof (cases "i = j \<or> \<not> is_safe p a")
  case True
  then show ?thesis using inv by (auto simp: record_action_def)
next
  case False
  then have r: "record_action p a i j (W, acts) = (insert i (insert j W), if a \<in> set acts then acts else acts @ [a])"
    by (simp add: record_action_def)
  show ?thesis unfolding r using inv ok sat wit False by (auto simp: scan_inv_def)
qed

lemma scan_binary_ok:
  assumes rows: "bin_rows n p" and ix: "index_ok p m" and i: "i \<in> {1..pp_clauses p}" and inv: "scan_inv n p r"
  shows "scan_inv n p (scan_binary p m i r)"
proof (cases "binary_row p i")
  case False
  then show ?thesis using inv by (simp add: scan_binary_def)
next
  case True
  obtain x y where xy: "pp_row p i = [x, y]" "pp_deg p i = 1" "i \<in> set (active_rows p)" "x \<noteq> 0" "y \<noteq> 0"
    "lit_var x \<in> {1..n}" "lit_var y \<in> {1..n}" using binary_row_active [OF rows True i] by blast
  have look: "w \<in> set (active_rows p)" "row_sat b (pp_row p w) (pp_deg p w) \<longleftrightarrow> lit_sat b u \<or> lit_sat b v"
    if "lookup_binary m u v = w" "w \<noteq> 0" "lit_var u \<le> n" "lit_var v \<le> n" for u v w b
    using lookup_ok [OF ix rows that] pair_row_sat by auto
  have rec: "scan_inv n p (if w \<noteq> 0 then record_action p a i w r' else r')"
    if inv': "scan_inv n p r'" and w: "lookup_binary m u v = w" "lit_var u \<le> n" "lit_var v \<le> n"
      and ok: "is_safe p a \<Longrightarrow> act_ok n (card_vars n p) a"
      and imp: "\<And>b. act_sat a b \<longleftrightarrow> (lit_sat b x \<or> lit_sat b y) \<and> (lit_sat b u \<or> lit_sat b v)" for r' u v w a
  proof (cases "w = 0")
    case False
    obtain W acts where r': "r' = (W, acts)" by fastforce
    have ri: "row_sat b (pp_row p i) (pp_deg p i) \<longleftrightarrow> lit_sat b x \<or> lit_sat b y" for b
      unfolding xy(1,2) by (rule pair_row_sat)
    note lw = look [OF w(1) False w(2,3)]
    have "scan_inv n p (record_action p a i w (W, acts))"
    proof (rule record_ok [OF inv' [unfolded r'] ok])
      show "act_sat a b" if "models p b" for b
        using that xy(3) lw(1) ri lw(2) imp unfolding models_iff by blast
      show "row_sat b (pp_row p i) (pp_deg p i) \<and> row_sat b (pp_row p w) (pp_deg p w)" if "act_sat a b" for b
        using that ri lw(2) imp by blast
    qed
    then show ?thesis using False r' by simp
  qed (use inv' in simp)
  have le: "lit_var x \<le> n" "lit_var y \<le> n" "lit_var (- x) \<le> n" "lit_var (- y) \<le> n" using xy by auto
  have nx: "lit_sat b (- x) \<longleftrightarrow> \<not> lit_sat b x" "lit_sat b (- y) \<longleftrightarrow> \<not> lit_sat b y" for b
    using xy(4,5) by (simp_all add: lit_sat_uminus)
  define r1 where "r1 = (if lookup_binary m (- x) (- y) \<noteq> 0 then record_action p (relation_action x y) i (lookup_binary m (- x) (- y)) r else r)"
  define r2 where "r2 = (if lookup_binary m x (- y) \<noteq> 0 then record_action p (fixed_action x) i (lookup_binary m x (- y)) r1 else r1)"
  have 1: "scan_inv n p r1" unfolding r1_def
    by (rule rec [OF inv refl le(3,4)]) (use relation_ok xy relation_sat nx in auto)
  have 2: "scan_inv n p r2" unfolding r2_def
    by (rule rec [OF 1 refl le(1,4)]) (use fixed_ok xy fixed_sat nx in auto)
  have 3: "scan_inv n p (if lookup_binary m (- x) y \<noteq> 0 then record_action p (fixed_action y) i (lookup_binary m (- x) y) r2 else r2)"
    by (rule rec [OF 2 refl le(3,2)]) (use fixed_ok xy fixed_sat nx in auto)
  have "scan_binary p m i r = (if lookup_binary m (- x) y \<noteq> 0 then record_action p (fixed_action y) i (lookup_binary m (- x) y) r2 else r2)"
    using True by (simp add: scan_binary_def xy(1) Let_def r1_def r2_def)
  then show ?thesis using 3 by simp
qed

lemma scan_fold_ok:
  assumes "bin_rows n p" and "index_ok p m" and "set ids \<subseteq> {1..pp_clauses p}" and "scan_inv n p r"
  shows "scan_inv n p (fold (scan_binary p m) ids r)"
  using assms(3,4) by (induction ids arbitrary: r) (simp_all add: scan_binary_ok [OF assms(1,2)])

lemma set_insert_action: "set (insert_action a as) = insert a (set as)"
  by (induction a as rule: insert_action.induct) auto

lemma set_sort_actions: "set (sort_actions as) = set as"
proof -
  have "set (fold insert_action as bs) = set as \<union> set bs" for bs
    by (induction as arbitrary: bs) (auto simp: set_insert_action)
  then show ?thesis by (simp add: sort_actions_def)
qed

end
