(* ===== verification/Prep_Bin_Turn.thy ===== *)
theory Prep_Bin_Turn
  imports Prep_Bin_Scan
begin

text \<open>
  One turn: the actions are added to the forest, the rows they came from are deleted, and the
  remaining rows are rewritten over the roots.
\<close>

section \<open>Applying the actions\<close>

definition acts_result :: "nat \<Rightarrow> nat set \<Rightarrow> (nat \<Rightarrow> nat) \<Rightarrow> (nat \<Rightarrow> int) \<Rightarrow> preproc \<Rightarrow> ((nat \<Rightarrow> bool) \<Rightarrow> bool)
    \<Rightarrow> (bool \<times> bin_state) option option \<Rightarrow> bool" where
  "acts_result n C R S p Q res \<longleftrightarrow> (\<exists>r. res = Some r \<and> (case r of
       None \<Rightarrow> \<forall>b. class_sat n R S (pp_varval p) b \<longrightarrow> \<not> Q b
     | Some (_, t) \<Rightarrow> act_frame p (bs_prep t) \<and> (\<exists>R' S'. bin_ok n C R' S' (bs_prep t)
         \<and> (\<forall>b. class_sat n R' S' (pp_varval (bs_prep t)) b \<longleftrightarrow> class_sat n R S (pp_varval p) b \<and> Q b))))"


lemma apply_action_ok:
  assumes ok: "bin_ok n C R S (bs_prep s)" and a: "act_ok n C a"
  shows "acts_result n C R S (bs_prep s) (act_sat a) (apply_action a (tc, s))"
proof -
  have v: "nat (act_first a) \<in> {1..n} - C" "act_value a = 1 \<or> act_value a = -1" using a by (simp_all add: act_ok_def)
  have "act_result n C R S (bs_prep s) (act_sat a)
      (if act_kind a = Relation then unite (nat (act_first a)) (nat (act_second a)) (act_value a) s
       else assign_value (nat (act_first a)) (act_value a) s)"
  proof (cases "act_kind a = Relation")
    case True
    have w: "nat (act_second a) \<in> {1..n} - C" using a True by (simp add: act_ok_def)
    have e: "act_sat a = (\<lambda>b. sg b (nat (act_first a)) = act_value a * sg b (nat (act_second a)))"
      using True by (simp add: act_sat_def fun_eq_iff)
    show ?thesis unfolding if_P [OF True] e by (rule unite_ok [OF ok v(1) w v(2)])
  next
    case False
    have e: "act_sat a = (\<lambda>b. sg b (nat (act_first a)) = act_value a)"
      using False by (simp add: act_sat_def fun_eq_iff)
    show ?thesis unfolding if_not_P [OF False] e by (rule assign_value_ok [OF ok v])
  qed
  then obtain c ch t where r: "(if act_kind a = Relation then unite (nat (act_first a)) (nat (act_second a)) (act_value a) s
       else assign_value (nat (act_first a)) (act_value a) s) = Some (c, ch, t)"
    and c: "if c then act_frame (bs_prep s) (bs_prep t) \<and> (\<exists>R' S'. bin_ok n C R' S' (bs_prep t)
          \<and> (\<forall>b. class_sat n R' S' (pp_varval (bs_prep t)) b \<longleftrightarrow> class_sat n R S (pp_varval (bs_prep s)) b \<and> act_sat a b))
      else (\<forall>b. class_sat n R S (pp_varval (bs_prep s)) b \<longrightarrow> \<not> act_sat a b)" unfolding act_result_def by blast
  have e: "apply_action a (tc, s) = Some (if c then Some (tc \<or> ch, t) else None)"
    unfolding apply_action_def prod.case r option.case by simp
  show ?thesis unfolding e acts_result_def using c by (cases c) simp_all
qed

lemma apply_actions_ok:
  assumes "bin_ok n C R S (bs_prep s)" and "\<forall>a\<in>set acts. act_ok n C a"
  shows "acts_result n C R S (bs_prep s) (\<lambda>b. \<forall>a\<in>set acts. act_sat a b) (apply_actions acts (tc, s))"
  using assms
proof (induction acts arbitrary: R S s tc)
  case Nil
  then show ?case by (auto simp: acts_result_def act_frame_refl)
next
  case (Cons a acts)
  from apply_action_ok [OF Cons.prems(1), of a tc] Cons.prems(2)
  obtain r where r: "apply_action a (tc, s) = Some r" "case r of
       None \<Rightarrow> \<forall>b. class_sat n R S (pp_varval (bs_prep s)) b \<longrightarrow> \<not> act_sat a b
     | Some (_, t) \<Rightarrow> act_frame (bs_prep s) (bs_prep t) \<and> (\<exists>R' S'. bin_ok n C R' S' (bs_prep t)
         \<and> (\<forall>b. class_sat n R' S' (pp_varval (bs_prep t)) b \<longleftrightarrow> class_sat n R S (pp_varval (bs_prep s)) b \<and> act_sat a b))"
    unfolding acts_result_def by (auto simp only: list.set insert_iff)
  show ?case
  proof (cases r)
    case None
    then show ?thesis using r by (simp add: acts_result_def)
  next
    case (Some x)
    obtain tc' t where x: "x = (tc', t)" by fastforce
    obtain R' S' where t: "act_frame (bs_prep s) (bs_prep t)" "bin_ok n C R' S' (bs_prep t)"
      "\<forall>b. class_sat n R' S' (pp_varval (bs_prep t)) b \<longleftrightarrow> class_sat n R S (pp_varval (bs_prep s)) b \<and> act_sat a b"
      using r(2) unfolding Some x option.case prod.case by blast
    have e: "apply_actions (a # acts) (tc, s) = apply_actions acts (tc', t)" using r(1) by (simp add: Some x)
    have "acts_result n C R' S' (bs_prep t) (\<lambda>b. \<forall>a\<in>set acts. act_sat a b) (apply_actions acts (tc', t))"
      by (rule Cons.IH [OF t(2)]) (use Cons.prems(2) in simp)
    then obtain r' where r': "apply_actions acts (tc', t) = Some r'" "case r' of
       None \<Rightarrow> \<forall>b. class_sat n R' S' (pp_varval (bs_prep t)) b \<longrightarrow> \<not> (\<forall>a\<in>set acts. act_sat a b)
     | Some (_, u) \<Rightarrow> act_frame (bs_prep t) (bs_prep u) \<and> (\<exists>R'' S''. bin_ok n C R'' S'' (bs_prep u)
         \<and> (\<forall>b. class_sat n R'' S'' (pp_varval (bs_prep u)) b \<longleftrightarrow> class_sat n R' S' (pp_varval (bs_prep t)) b \<and> (\<forall>a\<in>set acts. act_sat a b)))"
      unfolding acts_result_def by blast
    show ?thesis
    proof (cases r')
      case None
      show ?thesis unfolding e r'(1) None acts_result_def using r'(2) None t(3) by auto
    next
      case (Some y)
      obtain tc'' u where y: "y = (tc'', u)" by fastforce
      obtain R'' S'' where u: "act_frame (bs_prep t) (bs_prep u)" "bin_ok n C R'' S'' (bs_prep u)"
        "\<forall>b. class_sat n R'' S'' (pp_varval (bs_prep u)) b \<longleftrightarrow> class_sat n R' S' (pp_varval (bs_prep t)) b \<and> (\<forall>a\<in>set acts. act_sat a b)"
        using r'(2) unfolding Some y option.case prod.case by blast
      have "\<forall>b. class_sat n R'' S'' (pp_varval (bs_prep u)) b \<longleftrightarrow> class_sat n R S (pp_varval (bs_prep s)) b \<and> (\<forall>a\<in>set (a # acts). act_sat a b)"
        using u(3) t(3) by simp
      then show ?thesis unfolding e r'(1) Some y acts_result_def
        using act_frame_trans [OF t(1) u(1)] u(2) by auto
    qed
  qed
qed

section \<open>Deleting the rows of the actions\<close>

definition del_frame :: "preproc \<Rightarrow> preproc \<Rightarrow> bool" where
  "del_frame p q \<longleftrightarrow> q = p\<lparr>pp_clause_delete := pp_clause_delete q\<rparr>"

lemma del_frame_refl: "del_frame p p"
  by (simp add: del_frame_def)

lemma del_frame_upd: "del_frame p q \<Longrightarrow> del_frame p (q\<lparr>pp_clause_delete := x\<rparr>)"
  by (cases p; cases q; simp add: del_frame_def)

lemma delete_witnesses_fold:
  assumes "fold (delete_witnesses W) ids (tc, s) = (tc', s')" and "length (pp_clause_delete (bs_prep s)) > Max (insert 0 (set ids))"
  shows "del_frame (bs_prep s) (bs_prep s') \<and> length (pp_clause_delete (bs_prep s')) = length (pp_clause_delete (bs_prep s))
    \<and> (\<forall>i. deleted (bs_prep s') i \<longleftrightarrow> deleted (bs_prep s) i \<or> i \<in> set ids \<inter> W)
    \<and> (\<not> tc' \<longrightarrow> \<not> tc \<and> bs_prep s' = bs_prep s)"
  using assms
proof (induction ids arbitrary: tc s)
  case Nil
  then show ?case by (simp add: del_frame_refl)
next
  case (Cons i ids)
  obtain tc1 s1 where 1: "delete_witnesses W i (tc, s) = (tc1, s1)" by fastforce
  have len: "i < length (pp_clause_delete (bs_prep s))" "length (pp_clause_delete (bs_prep s)) > Max (insert 0 (set ids))"
    using Cons.prems(2) by auto
  have step: "del_frame (bs_prep s) (bs_prep s1)" "length (pp_clause_delete (bs_prep s1)) = length (pp_clause_delete (bs_prep s))"
    "\<forall>j. deleted (bs_prep s1) j \<longleftrightarrow> deleted (bs_prep s) j \<or> j = i \<and> i \<in> W" "\<not> tc1 \<longrightarrow> \<not> tc \<and> bs_prep s1 = bs_prep s"
    using 1 len(1) by (auto simp: delete_witnesses_def del_frame_def nth_list_update split: if_splits)
  have "fold (delete_witnesses W) ids (tc1, s1) = (tc', s')" using Cons.prems(1) by (simp add: 1)
  from Cons.IH [OF this] have ih: "del_frame (bs_prep s1) (bs_prep s')" "length (pp_clause_delete (bs_prep s')) = length (pp_clause_delete (bs_prep s1))"
    "\<forall>j. deleted (bs_prep s') j \<longleftrightarrow> deleted (bs_prep s1) j \<or> j \<in> set ids \<inter> W" "\<not> tc' \<longrightarrow> \<not> tc1 \<and> bs_prep s' = bs_prep s1"
    using len(2) step(2) by simp_all
  have fr: "del_frame (bs_prep s) (bs_prep s')" using step(1) ih(1)
    by (cases "bs_prep s"; cases "bs_prep s1"; cases "bs_prep s'"; simp add: del_frame_def)
  show ?case using fr ih(2-4) step(2-4) by auto
qed

end
