(* ===== verification/Prep_Bin_Rewrite.thy ===== *)
theory Prep_Bin_Rewrite
  imports Prep_Bin_Turn
begin

text \<open>Rewriting a row over the roots keeps its meaning under the equations of the forest.\<close>

section \<open>The literals of a row\<close>

definition rw_frame :: "preproc \<Rightarrow> preproc \<Rightarrow> bool" where
  "rw_frame p q \<longleftrightarrow> q = p\<lparr>pp_f := pp_f q, pp_val := pp_val q, pp_resseen := pp_resseen q\<rparr>"

lemma rw_frame_refl: "rw_frame p p"
  by (simp add: rw_frame_def)

lemma rw_frame_trans: "rw_frame p q \<Longrightarrow> rw_frame q t \<Longrightarrow> rw_frame p t"
  by (cases p; cases q; cases t; simp add: rw_frame_def)

lemma find_rw_frame: "find_frame p q \<Longrightarrow> rw_frame p q"
  by (cases p; cases q; simp add: find_frame_def rw_frame_def)

lemma rw_frame_upd: "rw_frame p q \<Longrightarrow> rw_frame p (q\<lparr>pp_resseen := x\<rparr>)"
  by (cases p; cases q; simp add: rw_frame_def)

lemma rw_varval: "rw_frame p q \<Longrightarrow> pp_varval q = pp_varval p"
  by (cases p; cases q; simp add: rw_frame_def)

text \<open>\<open>resseen\<close> marks the literals of \<open>r\<close>.\<close>

definition lit_marks :: "nat \<Rightarrow> preproc \<Rightarrow> int list \<Rightarrow> bool" where
  "lit_marks n p r \<longleftrightarrow> (\<forall>l. l \<noteq> 0 \<longrightarrow> lit_var l \<le> n \<longrightarrow> (pp_resseen p (nat (tolit l)) \<noteq> 0 \<longleftrightarrow> l \<in> set r))"

definition root_row :: "nat \<Rightarrow> (nat \<Rightarrow> nat) \<Rightarrow> (nat \<Rightarrow> int) \<Rightarrow> int list \<Rightarrow> bool" where
  "root_row n R F r \<longleftrightarrow> distinct (map lit_var r)
     \<and> (\<forall>l\<in>set r. l \<noteq> 0 \<and> lit_var l \<in> {1..n} \<and> R (lit_var l) = lit_var l \<and> F (lit_var l) = 0)"

definition some_sat :: "(nat \<Rightarrow> bool) \<Rightarrow> int list \<Rightarrow> bool" where
  "some_sat b r \<longleftrightarrow> (\<exists>l\<in>set r. lit_sat b l)"

lemma code_inj: "l \<noteq> 0 \<Longrightarrow> m \<noteq> 0 \<Longrightarrow> nat (tolit l) = nat (tolit m) \<longleftrightarrow> l = m"
proof -
  assume "l \<noteq> 0" "m \<noteq> 0"
  then have "0 \<le> tolit l" "0 \<le> tolit m" by (simp_all add: tolit_arith)
  then show ?thesis using tolit_eq_iff [OF \<open>l \<noteq> 0\<close> \<open>m \<noteq> 0\<close>] by (simp add: eq_nat_nat_iff)
qed

lemma lit_marks_add: "lit_marks n p r \<Longrightarrow> m \<noteq> 0 \<Longrightarrow> lit_marks n (p\<lparr>pp_resseen := (pp_resseen p)(nat (tolit m) := 1)\<rparr>) (r @ [m])"
  by (auto simp: lit_marks_def code_inj)

lemma lit_marks_cong: "pp_resseen q = pp_resseen p \<Longrightarrow> lit_marks n q r = lit_marks n p r"
  by (simp add: lit_marks_def)

lemma bin_ok_cong:
  assumes "pp_f q = pp_f p" and "pp_val q = pp_val p" and "pp_varval q = pp_varval p"
  shows "bin_ok n C R S q = bin_ok n C R S p"
  by (simp only: bin_ok_def forest_def ranked_cong [OF assms(1,2)] assms(3))

lemma mapped_lit:
  assumes "s = 1 \<or> s = -1" and "0 < root"
  shows "s * int root \<noteq> 0" "lit_var (s * int root) = root" "pnsign (s * int root) = s"
  using assms by (auto simp: lit_var_def pnsign_def)

lemma mapped_sat:
  assumes b: "class_sat n R S F b" and l: "l \<noteq> 0" "lit_var l \<in> {1..n}" and s: "S (lit_var l) = 1 \<or> S (lit_var l) = -1"
  shows "lit_sat b l \<longleftrightarrow> sg b (R (lit_var l)) = pnsign l * S (lit_var l)"
proof -
  have "sg b (lit_var l) = pnsign l \<longleftrightarrow> sg b (R (lit_var l)) = pnsign l * S (lit_var l)"
    unfolding class_satD(1) [OF b l(2)] using s by (elim disjE) auto
  then show ?thesis using lit_sg [OF l(1)] by simp
qed

lemma rewrite_lits_ok:
  assumes "bin_ok n C R S p" and "\<forall>l\<in>set ls. l \<noteq> 0 \<and> lit_var l \<in> {1..n}" and "lit_marks n p r" and "root_row n R (pp_varval p) r"
  shows "\<exists>d r' p'. rewrite_lits ls r p = Some (d, r', p') \<and> rw_frame p p' \<and> bin_ok n C R S p' \<and> lit_marks n p' r'
    \<and> root_row n R (pp_varval p) r'
    \<and> (\<forall>b. class_sat n R S (pp_varval p) b \<longrightarrow> (if d then some_sat b (r @ ls) else some_sat b r' \<longleftrightarrow> some_sat b (r @ ls)))"
  using assms
proof (induction ls arbitrary: r p)
  case Nil
  then show ?case by (auto simp: rw_frame_refl)
next
  case (Cons l ls)
  let ?x = "lit_var l"
  have l: "l \<noteq> 0" "?x \<in> {1..n}" and ls: "\<forall>l\<in>set ls. l \<noteq> 0 \<and> lit_var l \<in> {1..n}" using Cons.prems(2) by simp_all
  obtain q where q: "find_var ?x p = Some (R ?x, q)" "bin_ok n C R S q" "find_frame p q" "pp_val q ?x = S ?x"
    using find_bin_ok [OF Cons.prems(1) l(2)] by blast
  note ff = find_fields [OF q(3)]
  obtain rk where rk: "ranked n rk R S q" using bin_okD(1) [OF q(2)] by blast
  note k = rankedD [OF rk l(2)]
  define s where "s = pnsign l * S ?x"
  have s1: "s = 1 \<or> s = -1" using k(4) pnsign_cases [of l] by (auto simp: s_def)
  have root: "R ?x \<in> {1..n}" "0 < R ?x" "R (R ?x) = R ?x" using k(2,3) root_iff [OF rk k(2)] by simp_all
  define m where "m = s * int (R ?x)"
  note ml = mapped_lit [OF s1 root(2), folded m_def]
  have sat: "lit_sat b l \<longleftrightarrow> sg b (R ?x) = s" if "class_sat n R S (pp_varval p) b" for b
    using mapped_sat [OF that l k(4)] by (simp add: s_def)
  have satm: "lit_sat b l \<longleftrightarrow> lit_sat b m" if "class_sat n R S (pp_varval p) b" for b
    using sat [OF that] lit_sg [OF ml(1), of b] ml(2,3) by simp
  have mk: "lit_marks n q r" using Cons.prems(3) by (simp add: lit_marks_cong [OF ff(7)])
  have rr: "root_row n R (pp_varval q) r" using Cons.prems(4) by (simp add: ff(6))
  have e: "rewrite_lits (l # ls) r p = (if pp_varval p (R ?x) \<noteq> 0
       then (if pp_varval p (R ?x) = s then Some (True, r, q) else rewrite_lits ls r q)
       else if pp_resseen q (nat (tolit m)) \<noteq> 0 then rewrite_lits ls r q
       else if pp_resseen q (nat (tolit (- m))) \<noteq> 0 then Some (True, r, q)
       else rewrite_lits ls (r @ [m]) (q\<lparr>pp_resseen := (pp_resseen q)(nat (tolit m) := 1)\<rparr>))"
    by (simp add: q(1,4) Let_def s_def [symmetric] m_def [symmetric] negative_tolit [OF ml(1)] ff(6))
  have finish: ?case if res: "rewrite_lits (l # ls) r p = Some (True, r, q)"
    and true: "\<And>b. class_sat n R S (pp_varval p) b \<Longrightarrow> some_sat b (r @ l # ls)"
    using res true find_rw_frame [OF q(3)] q(2) mk Cons.prems(4) by auto
  have continue: ?case if res: "rewrite_lits (l # ls) r p = rewrite_lits ls r1 q1"
    and q1: "rw_frame p q1" "bin_ok n C R S q1" "lit_marks n q1 r1" "root_row n R (pp_varval p) r1"
    and same: "\<And>b. class_sat n R S (pp_varval p) b \<Longrightarrow> some_sat b (r1 @ ls) \<longleftrightarrow> some_sat b (r @ l # ls)" for r1 q1
  proof -
    have v: "pp_varval q1 = pp_varval p" by (rule rw_varval [OF q1(1)])
    from Cons.IH [OF q1(2) ls q1(3), unfolded v, OF q1(4)] obtain d r' p' where
      t: "rewrite_lits ls r1 q1 = Some (d, r', p')" "rw_frame q1 p'" "bin_ok n C R S p'" "lit_marks n p' r'" "root_row n R (pp_varval p) r'"
        "\<forall>b. class_sat n R S (pp_varval p) b \<longrightarrow> (if d then some_sat b (r1 @ ls) else some_sat b r' \<longleftrightarrow> some_sat b (r1 @ ls))"
      by blast
    have "\<forall>b. class_sat n R S (pp_varval p) b \<longrightarrow> (if d then some_sat b (r @ l # ls) else some_sat b r' \<longleftrightarrow> some_sat b (r @ l # ls))"
    proof (intro allI impI)
      fix b assume b: "class_sat n R S (pp_varval p) b"
      show "if d then some_sat b (r @ l # ls) else some_sat b r' \<longleftrightarrow> some_sat b (r @ l # ls)"
        using t(6) [rule_format, OF b] unfolding same [OF b] .
    qed
    then show ?thesis unfolding res using t(1,3-5) rw_frame_trans [OF q1(1) t(2)] by blast
  qed
  show ?case
  proof (cases "pp_varval p (R ?x) \<noteq> 0")
    case True
    have sgR: "sg b (R ?x) = pp_varval p (R ?x)" if "class_sat n R S (pp_varval p) b" for b
      using class_satD(2) [OF that l(2)] True by simp
    show ?thesis
    proof (cases "pp_varval p (R ?x) = s")
      case T: True
      show ?thesis by (rule finish) (use e True T sat sgR in \<open>auto simp: some_sat_def\<close>)
    next
      case False
      show ?thesis
      proof (rule continue [of r q])
        show "rewrite_lits (l # ls) r p = rewrite_lits ls r q" using e True False by simp
        show "some_sat b (r @ ls) \<longleftrightarrow> some_sat b (r @ l # ls)" if b: "class_sat n R S (pp_varval p) b" for b
        proof -
          have "\<not> lit_sat b l" using sat [OF b] sgR [OF b] False by simp
          then show ?thesis by (auto simp: some_sat_def)
        qed
      qed (rule find_rw_frame [OF q(3)], rule q(2), rule mk, rule Cons.prems(4))
    qed
  next
    case zero: False
    have mn: "lit_var m \<le> n" "lit_var (- m) \<le> n" "- m \<noteq> 0" using ml root(1) by simp_all
    have seen: "pp_resseen q (nat (tolit m)) \<noteq> 0 \<longleftrightarrow> m \<in> set r" "pp_resseen q (nat (tolit (- m))) \<noteq> 0 \<longleftrightarrow> - m \<in> set r"
      using mk ml(1) mn unfolding lit_marks_def by blast+
    consider (dup) "m \<in> set r" | (opp) "m \<notin> set r" "- m \<in> set r" | (new) "m \<notin> set r" "- m \<notin> set r" by blast
    then show ?thesis
    proof cases
      case dup
      show ?thesis
      proof (rule continue [of r q])
        show "rewrite_lits (l # ls) r p = rewrite_lits ls r q" using e zero dup seen by simp
        show "some_sat b (r @ ls) \<longleftrightarrow> some_sat b (r @ l # ls)" if b: "class_sat n R S (pp_varval p) b" for b
          using satm [OF b] dup by (auto simp: some_sat_def)
      qed (rule find_rw_frame [OF q(3)], rule q(2), rule mk, rule Cons.prems(4))
    next
      case opp
      show ?thesis
      proof (rule finish)
        show "rewrite_lits (l # ls) r p = Some (True, r, q)" using e zero opp seen by simp
        show "some_sat b (r @ l # ls)" if b: "class_sat n R S (pp_varval p) b" for b
          using satm [OF b] lit_sat_uminus [OF ml(1), of b] opp(2) by (auto simp: some_sat_def)
      qed
    next
      case new
      let ?q = "q\<lparr>pp_resseen := (pp_resseen q)(nat (tolit m) := 1)\<rparr>"
      show ?thesis
      proof (rule continue [of "r @ [m]" ?q])
        show "rewrite_lits (l # ls) r p = rewrite_lits ls (r @ [m]) ?q" using e zero new seen by simp
        show "rw_frame p ?q" by (rule rw_frame_upd [OF find_rw_frame [OF q(3)]])
        show "bin_ok n C R S ?q" using q(2) by (subst bin_ok_cong [of _ q]) simp_all
        show "lit_marks n ?q (r @ [m])" by (rule lit_marks_add [OF mk ml(1)])
        have "lit_var m \<notin> lit_var ` set r"
        proof
          assume "lit_var m \<in> lit_var ` set r"
          then obtain u where u: "u \<in> set r" "lit_var u = lit_var m" by auto
          then have "u = m \<or> u = - m" by (auto simp: lit_var_def)
          then show False using u new by blast
        qed
        then show "root_row n R (pp_varval p) (r @ [m])"
          using Cons.prems(4) ml root zero by (simp add: root_row_def)
        show "some_sat b ((r @ [m]) @ ls) \<longleftrightarrow> some_sat b (r @ l # ls)" if b: "class_sat n R S (pp_varval p) b" for b
          using satm [OF b] by (auto simp: some_sat_def)
      qed
    qed
  qed
qed

lemma unmark_fold:
  "rw_frame p (fold unmark_lit r p) \<and> pp_f (fold unmark_lit r p) = pp_f p \<and> pp_val (fold unmark_lit r p) = pp_val p
    \<and> pp_resseen (fold unmark_lit r p) c = (if c \<in> (\<lambda>l. nat (tolit l)) ` set r then 0 else pp_resseen p c)"
proof (induction r arbitrary: p)
  case Nil
  then show ?case by (simp add: rw_frame_refl)
next
  case (Cons l r)
  have 1: "rw_frame p (unmark_lit l p)" "pp_f (unmark_lit l p) = pp_f p" "pp_val (unmark_lit l p) = pp_val p"
    "pp_resseen (unmark_lit l p) c = (if c = nat (tolit l) then 0 else pp_resseen p c)"
    by (simp_all add: unmark_lit_def rw_frame_def)
  show ?case using Cons [of "unmark_lit l p"] 1 rw_frame_trans [OF 1(1)] by auto
qed

lemma unmark_ok:
  assumes "bin_ok n C R S p" and "lit_marks n p r"
  shows "bin_ok n C R S (fold unmark_lit r p)" and "lit_marks n (fold unmark_lit r p) []" and "rw_frame p (fold unmark_lit r p)"
proof -
  let ?q = "fold unmark_lit r p"
  have q: "rw_frame p ?q" "pp_f ?q = pp_f p" "pp_val ?q = pp_val p"
    "\<And>c. pp_resseen ?q c = (if c \<in> (\<lambda>l. nat (tolit l)) ` set r then 0 else pp_resseen p c)" using unmark_fold by blast+
  show "rw_frame p ?q" by (rule q(1))
  show "bin_ok n C R S ?q" by (subst bin_ok_cong [OF q(2,3) rw_varval [OF q(1)]]) (rule assms(1))
  show "lit_marks n ?q []" using assms(2) unfolding lit_marks_def q(4) by auto
qed

end
