(* ===== verification/Prep_Bin_Row.thy ===== *)
theory Prep_Bin_Row
  imports Prep_Bin_Rewrite
begin

text \<open>The loop that rewrites the rows.\<close>

definition row_frame :: "preproc \<Rightarrow> preproc \<Rightarrow> bool" where
  "row_frame p q \<longleftrightarrow> q = p\<lparr>pp_f := pp_f q, pp_val := pp_val q, pp_resseen := pp_resseen q, pp_clause := pp_clause q,
     pp_clause_delete := pp_clause_delete q\<rparr>"

lemma row_frame_refl: "row_frame p p"
  by (simp add: row_frame_def)

lemma row_frame_trans: "row_frame p q \<Longrightarrow> row_frame q t \<Longrightarrow> row_frame p t"
  by (cases p; cases q; cases t; simp add: row_frame_def)

lemma rw_row_frame: "rw_frame p q \<Longrightarrow> row_frame p q"
  by (cases p; cases q; simp add: rw_frame_def row_frame_def)

lemma row_frame_upd: "row_frame p q \<Longrightarrow> row_frame p (q\<lparr>pp_clause := x\<rparr>)" "row_frame p q \<Longrightarrow> row_frame p (q\<lparr>pp_clause_delete := y\<rparr>)"
  by (cases p; cases q; simp add: row_frame_def)+

lemma row_fields:
  assumes "row_frame p q"
  shows "pp_clauses q = pp_clauses p" "pp_vars q = pp_vars p" "pp_degree q = pp_degree p" "pp_varval q = pp_varval p"
    "pp_in_cardinality q = pp_in_cardinality p" "pp_mapto q = pp_mapto p" "pp_mapval q = pp_mapval p" "pp_orivars q = pp_orivars p"
    "pp_res_clauses q = pp_res_clauses p" "pp_res_clause q = pp_res_clause p" "pp_res_degree q = pp_res_degree p"
    "pp_res_owner q = pp_res_owner p" "pp_resolution q = pp_resolution p" "pp_resolutions q = pp_resolutions p"
proof -
  have q: "q = p\<lparr>pp_f := pp_f q, pp_val := pp_val q, pp_resseen := pp_resseen q, pp_clause := pp_clause q,
     pp_clause_delete := pp_clause_delete q\<rparr>" using assms by (simp add: row_frame_def)
  show "pp_clauses q = pp_clauses p" "pp_vars q = pp_vars p" "pp_degree q = pp_degree p" "pp_varval q = pp_varval p"
    "pp_in_cardinality q = pp_in_cardinality p" "pp_mapto q = pp_mapto p" "pp_mapval q = pp_mapval p" "pp_orivars q = pp_orivars p"
    "pp_res_clauses q = pp_res_clauses p" "pp_res_clause q = pp_res_clause p" "pp_res_degree q = pp_res_degree p"
    "pp_res_owner q = pp_res_owner p" "pp_resolution q = pp_resolution p" "pp_resolutions q = pp_resolutions p"
    by (subst q, simp)+
qed

lemma rw_fields:
  assumes "rw_frame p q"
  shows "pp_clause q = pp_clause p" "pp_clause_delete q = pp_clause_delete p"
  using assms by (cases p; cases q; simp add: rw_frame_def)+

text \<open>What a row says, and the shape of a row before and after the rewriting.\<close>

definition holds :: "preproc \<Rightarrow> (nat \<Rightarrow> bool) \<Rightarrow> nat \<Rightarrow> bool" where
  "holds p b i \<longleftrightarrow> deleted p i \<or> row_sat b (pp_row p i) (pp_deg p i)"

lemma models_holds: "models p b \<longleftrightarrow> (\<forall>i\<in>{1..pp_clauses p}. holds p b i)"
  by (auto simp: models_iff active_mem holds_def)

definition shaped :: "nat \<Rightarrow> preproc \<Rightarrow> nat \<Rightarrow> bool" where
  "shaped n p i \<longleftrightarrow> deleted p i \<or> good_row n (row_of p i)"

definition over_roots :: "nat \<Rightarrow> (nat \<Rightarrow> nat) \<Rightarrow> preproc \<Rightarrow> nat \<Rightarrow> bool" where
  "over_roots n R p i \<longleftrightarrow> deleted p i \<or> pp_deg p i > 1 \<or> root_row n R (pp_varval p) (pp_row p i)"

definition same_row :: "preproc \<Rightarrow> preproc \<Rightarrow> nat \<Rightarrow> bool" where
  "same_row p q i \<longleftrightarrow> pp_row q i = pp_row p i \<and> deleted q i = deleted p i"

definition rows_step :: "nat \<Rightarrow> nat set \<Rightarrow> (nat \<Rightarrow> nat) \<Rightarrow> (nat \<Rightarrow> int) \<Rightarrow> nat set \<Rightarrow> bool \<times> preproc \<Rightarrow> bool \<times> preproc \<Rightarrow> bool" where
  "rows_step n C R S I = (\<lambda>(tc, p) (tc', q). row_frame p q \<and> bin_ok n C R S q \<and> lit_marks n q []
     \<and> length (pp_clause q) = length (pp_clause p) \<and> length (pp_clause_delete q) = length (pp_clause_delete p)
     \<and> (\<forall>b j. class_sat n R S (pp_varval p) b \<longrightarrow> holds q b j = holds p b j)
     \<and> (\<forall>j. j \<notin> I \<or> pp_deg p j > 1 \<longrightarrow> same_row p q j)
     \<and> (\<forall>j\<in>I. shaped n q j \<and> over_roots n R q j)
     \<and> (\<not> tc' \<longrightarrow> \<not> tc \<and> pp_clause q = pp_clause p \<and> pp_clause_delete q = pp_clause_delete p))"

lemma same_row_trans: "same_row p q j \<Longrightarrow> same_row q t j \<Longrightarrow> same_row p t j"
  by (simp add: same_row_def)

lemma pair_holds: "row_sat b ls 1 \<longleftrightarrow> some_sat b ls"
  by (simp add: row_sat_def some_sat_def row_count_pos)

lemma rewrite_row_ok:
  assumes ok: "bin_ok n C R S p" and mk: "lit_marks n p []" and sh: "shaped n p i"
    and i: "i < length (pp_clause p)" "i < length (pp_clause_delete p)"
  shows "\<exists>r. rewrite_row i (tc, p) = Some r \<and> (case r of
      None \<Rightarrow> \<forall>b. class_sat n R S (pp_varval p) b \<longrightarrow> \<not> holds p b i
    | Some r' \<Rightarrow> rows_step n C R S {i} (tc, p) r')"
proof (cases "deleted p i \<or> pp_deg p i > 1")
  case True
  then have e: "rewrite_row i (tc, p) = Some (Some (tc, p))" by (simp add: rewrite_row_def)
  show ?thesis unfolding e using True ok mk sh
    by (simp add: rows_step_def row_frame_refl same_row_def over_roots_def)
next
  case False
  have g: "good_row n (row_of p i)" using sh False by (simp add: shaped_def)
  then have deg: "pp_deg p i = 1" and ls: "\<forall>l\<in>set (pp_row p i). l \<noteq> 0 \<and> lit_var l \<in> {1..n}"
    using False lit_var_pos by (fastforce simp: good_row_def Suc_le_eq)+
  have rr: "root_row n R (pp_varval p) []" by (simp add: root_row_def)
  obtain d r q where q: "rewrite_lits (pp_row p i) [] p = Some (d, r, q)" "rw_frame p q" "bin_ok n C R S q" "lit_marks n q r"
    "root_row n R (pp_varval p) r"
    "\<forall>b. class_sat n R S (pp_varval p) b \<longrightarrow> (if d then some_sat b ([] @ pp_row p i) else some_sat b r \<longleftrightarrow> some_sat b ([] @ pp_row p i))"
    using rewrite_lits_ok [OF ok ls mk rr] by blast
  define t where "t = fold unmark_lit r q"
  have t: "bin_ok n C R S t" "lit_marks n t []" "rw_frame p t"
    using unmark_ok [OF q(3,4)] rw_frame_trans [OF q(2)] by (simp_all add: t_def)
  note tf = rw_fields [OF t(3)] and rf = row_fields [OF rw_row_frame [OF t(3)]]
  have e: "rewrite_row i (tc, p) = (if d then Some (Some (True, t\<lparr>pp_clause_delete := (pp_clause_delete t)[i := 1]\<rparr>))
      else if r = [] then Some None
      else if pp_row p i = r then Some (Some (tc, t))
      else Some (Some (True, t\<lparr>pp_clause := (pp_clause t)[i := r]\<rparr>)))"
    using False by (simp add: rewrite_row_def q(1) Let_def t_def [symmetric] tf(1))
  have nd: "\<not> deleted p i" using False by simp
  have hp: "holds p b i \<longleftrightarrow> some_sat b (pp_row p i)" for b using nd deg by (simp add: holds_def pair_holds)
  have ht: "holds t b j = holds p b j" "same_row p t j" for b j by (simp_all add: holds_def same_row_def tf rf(3))
  have bu: "bin_ok n C R S (t\<lparr>pp_clause_delete := x\<rparr>)" "bin_ok n C R S (t\<lparr>pp_clause := y\<rparr>)" for x y
    using t(1) by (subst bin_ok_cong [of _ t]; simp)+
  have mu: "lit_marks n (t\<lparr>pp_clause_delete := x\<rparr>) []" "lit_marks n (t\<lparr>pp_clause := y\<rparr>) []" for x y
    using t(2) by (simp_all add: lit_marks_def)
  note fu = row_frame_upd [OF rw_row_frame [OF t(3)]]
  consider (sat) d | (empty) "\<not> d" "r = []" | (same) "\<not> d" "r \<noteq> []" "pp_row p i = r" | (new) "\<not> d" "r \<noteq> []" "pp_row p i \<noteq> r" by blast
  then show ?thesis
  proof cases
    case sat
    let ?u = "t\<lparr>pp_clause_delete := (pp_clause_delete t)[i := 1]\<rparr>"
    have h: "holds ?u b j = holds p b j" if b: "class_sat n R S (pp_varval p) b" for b j
    proof (cases "j = i")
      case True
      have "some_sat b (pp_row p i)" using q(6) [rule_format, OF b] sat by simp
      then show ?thesis using True hp i(2) tf by (simp add: holds_def)
    next
      case False
      then show ?thesis using ht(1) [of b j] by (simp add: holds_def)
    qed
    have "rows_step n C R S {i} (tc, p) (True, ?u)"
      using fu(2) bu(1) mu(1) h tf i(2) deg by (simp add: rows_step_def same_row_def shaped_def over_roots_def)
    then show ?thesis unfolding e if_P [OF sat] by simp
  next
    case empty
    have "\<not> holds p b i" if b: "class_sat n R S (pp_varval p) b" for b
      using q(6) [rule_format, OF b] empty unfolding hp by (simp add: some_sat_def)
    then show ?thesis unfolding e using empty by simp
  next
    case same
    have "rows_step n C R S {i} (tc, p) (tc, t)"
      using rw_row_frame [OF t(3)] t(1,2) tf ht q(5) same sh rf by (simp add: rows_step_def shaped_def over_roots_def)
    then show ?thesis unfolding e using same by simp
  next
    case new
    let ?u = "t\<lparr>pp_clause := (pp_clause t)[i := r]\<rparr>"
    have ri: "pp_row ?u i = r" "pp_deg ?u i = 1" using i(1) tf rf deg by simp_all
    have h: "holds ?u b j = holds p b j" if b: "class_sat n R S (pp_varval p) b" for b j
    proof (cases "j = i")
      case True
      have "some_sat b r \<longleftrightarrow> some_sat b (pp_row p i)" using q(6) [rule_format, OF b] new(1) by simp
      then show ?thesis using True hp nd ri tf by (simp add: holds_def pair_holds)
    next
      case False
      then show ?thesis using ht(1) [of b j] by (simp add: holds_def)
    qed
    have "good_row n (row_of ?u i)" using q(5) new(2) ri by (simp add: good_row_def root_row_def)
    then have "rows_step n C R S {i} (tc, p) (True, ?u)"
      using fu(1) bu(2) mu(2) h tf i deg q(5) ri rf by (simp add: rows_step_def same_row_def shaped_def over_roots_def)
    then show ?thesis unfolding e using new by simp
  qed
qed

lemma rows_step_trans:
  assumes 1: "rows_step n C R S I (tc, p) (tc1, q)" and 2: "rows_step n C R S J (tc1, q) (tc2, t)" and IJ: "I \<inter> J = {}"
  shows "rows_step n C R S (I \<union> J) (tc, p) (tc2, t)"
proof -
  have f: "row_frame p q" "row_frame q t" using 1 2 by (simp_all add: rows_step_def)
  note fp = row_fields [OF f(1)] and fq = row_fields [OF f(2)]
  have kept: "shaped n t j \<and> over_roots n R t j" if j: "j \<in> I" for j
  proof -
    have s: "same_row q t j" using 2 j IJ by (auto simp: rows_step_def)
    have "shaped n q j \<and> over_roots n R q j" using 1 j by (simp add: rows_step_def)
    then show ?thesis using s fq by (simp add: shaped_def over_roots_def same_row_def)
  qed
  have same: "same_row p t j" if "j \<notin> I \<union> J \<or> pp_deg p j > 1" for j
  proof (rule same_row_trans)
    show "same_row p q j" using 1 that by (auto simp: rows_step_def)
    show "same_row q t j" using 2 that fp(3) by (auto simp: rows_step_def)
  qed
  show ?thesis
    unfolding rows_step_def prod.case
  proof (intro conjI)
    show "row_frame p t" by (rule row_frame_trans [OF f])
    show "bin_ok n C R S t" "lit_marks n t []" using 2 by (simp_all add: rows_step_def)
    show "length (pp_clause t) = length (pp_clause p)" "length (pp_clause_delete t) = length (pp_clause_delete p)"
      using 1 2 by (simp_all add: rows_step_def)
    show "\<forall>b j. class_sat n R S (pp_varval p) b \<longrightarrow> holds t b j = holds p b j"
      using 1 2 fp(4) by (simp add: rows_step_def)
    show "\<forall>j. j \<notin> I \<union> J \<or> pp_deg p j > 1 \<longrightarrow> same_row p t j" using same by blast
    show "\<forall>j\<in>I \<union> J. shaped n t j \<and> over_roots n R t j" using kept 2 by (auto simp: rows_step_def)
    show "\<not> tc2 \<longrightarrow> \<not> tc \<and> pp_clause t = pp_clause p \<and> pp_clause_delete t = pp_clause_delete p"
      using 1 2 by (simp add: rows_step_def)
  qed
qed

lemma rewrite_rows_ok:
  assumes "bin_ok n C R S p" and "lit_marks n p []" and "\<forall>i\<in>set ids. shaped n p i" and "distinct ids"
    and "\<forall>i\<in>set ids. i < length (pp_clause p) \<and> i < length (pp_clause_delete p)"
  shows "\<exists>r. rewrite_rows ids (tc, p) = Some r \<and> (case r of
      None \<Rightarrow> \<forall>b. class_sat n R S (pp_varval p) b \<longrightarrow> \<not> (\<forall>i\<in>set ids. holds p b i)
    | Some r' \<Rightarrow> rows_step n C R S (set ids) (tc, p) r')"
  using assms
proof (induction ids arbitrary: p tc)
  case Nil
  then show ?case by (simp add: rows_step_def row_frame_refl same_row_def)
next
  case (Cons i ids)
  obtain r where r: "rewrite_row i (tc, p) = Some r" "case r of
      None \<Rightarrow> \<forall>b. class_sat n R S (pp_varval p) b \<longrightarrow> \<not> holds p b i
    | Some r' \<Rightarrow> rows_step n C R S {i} (tc, p) r'"
    using rewrite_row_ok [OF Cons.prems(1,2), of i tc] Cons.prems(3,5) by auto
  show ?case
  proof (cases r)
    case None
    then show ?thesis using r by auto
  next
    case (Some r1)
    obtain tc1 q where r1: "r1 = (tc1, q)" by fastforce
    have st: "rows_step n C R S {i} (tc, p) (tc1, q)" using r(2) by (simp add: Some r1)
    have q: "bin_ok n C R S q" "lit_marks n q []" "length (pp_clause q) = length (pp_clause p)"
      "length (pp_clause_delete q) = length (pp_clause_delete p)" "row_frame p q"
      using st by (simp_all add: rows_step_def)
    have sh: "\<forall>j\<in>set ids. shaped n q j"
    proof
      fix j assume j: "j \<in> set ids"
      then have "same_row p q j" using st Cons.prems(4) by (auto simp: rows_step_def)
      then show "shaped n q j" using Cons.prems(3) j row_fields(3) [OF q(5)] by (simp add: shaped_def same_row_def)
    qed
    have h: "holds q b j = holds p b j" if "class_sat n R S (pp_varval p) b" for b j using st that by (simp add: rows_step_def)
    have e: "rewrite_rows (i # ids) (tc, p) = rewrite_rows ids (tc1, q)" using r(1) by (simp add: Some r1)
    have ds: "distinct ids" using Cons.prems(4) by simp
    have ln: "\<forall>i\<in>set ids. i < length (pp_clause q) \<and> i < length (pp_clause_delete q)" using Cons.prems(5) q(3,4) by simp
    obtain r' where r': "rewrite_rows ids (tc1, q) = Some r'" "case r' of
        None \<Rightarrow> \<forall>b. class_sat n R S (pp_varval q) b \<longrightarrow> \<not> (\<forall>i\<in>set ids. holds q b i)
      | Some r'' \<Rightarrow> rows_step n C R S (set ids) (tc1, q) r''"
      using Cons.IH [OF q(1,2) sh ds ln, of tc1] by blast
    show ?thesis
    proof (cases r')
      case None
      have "\<not> (\<forall>i\<in>set (i # ids). holds p b i)" if b: "class_sat n R S (pp_varval p) b" for b
        using r'(2) None h [OF b] b row_fields(4) [OF q(5)] by auto
      then show ?thesis unfolding e r'(1) None by simp
    next
      case (Some r2)
      obtain tc2 t where r2: "r2 = (tc2, t)" by fastforce
      have "rows_step n C R S ({i} \<union> set ids) (tc, p) (tc2, t)"
        by (rule rows_step_trans [OF st]) (use r'(2) Some r2 Cons.prems(4) in auto)
      then show ?thesis unfolding e r'(1) Some r2 by simp
    qed
  qed
qed

end
