(* ===== verification/Prep_Bin_Main.thy ===== *)
theory Prep_Bin_Main
  imports Prep_Bin_Row
begin

text \<open>The turns of \<open>preprocess_binary\<close>.\<close>

section \<open>One turn\<close>

definition main_frame :: "preproc \<Rightarrow> preproc \<Rightarrow> bool" where
  "main_frame p q \<longleftrightarrow> q = p\<lparr>pp_f := pp_f q, pp_val := pp_val q, pp_varval := pp_varval q, pp_resseen := pp_resseen q,
     pp_clause := pp_clause q, pp_clause_delete := pp_clause_delete q\<rparr>"

lemma main_frame_refl: "main_frame p p"
  by (simp add: main_frame_def)

lemma main_frame_trans: "main_frame p q \<Longrightarrow> main_frame q t \<Longrightarrow> main_frame p t"
  by (cases p; cases q; cases t; simp add: main_frame_def)

lemma main_frames: "act_frame p q \<Longrightarrow> main_frame p q" "del_frame p q \<Longrightarrow> main_frame p q" "row_frame p q \<Longrightarrow> main_frame p q"
  by (cases p; cases q; simp add: main_frame_def act_frame_def del_frame_def row_frame_def)+

lemma main_fields:
  assumes "main_frame p q"
  shows "pp_clauses q = pp_clauses p" "pp_vars q = pp_vars p" "pp_degree q = pp_degree p"
    "pp_in_cardinality q = pp_in_cardinality p" "pp_mapto q = pp_mapto p" "pp_mapval q = pp_mapval p" "pp_orivars q = pp_orivars p"
    "pp_res_clauses q = pp_res_clauses p" "pp_res_clause q = pp_res_clause p" "pp_res_degree q = pp_res_degree p"
    "pp_res_owner q = pp_res_owner p" "pp_resolution q = pp_resolution p" "pp_resolutions q = pp_resolutions p"
proof -
  have q: "q = p\<lparr>pp_f := pp_f q, pp_val := pp_val q, pp_varval := pp_varval q, pp_resseen := pp_resseen q,
     pp_clause := pp_clause q, pp_clause_delete := pp_clause_delete q\<rparr>" using assms by (simp add: main_frame_def)
  show "pp_clauses q = pp_clauses p" "pp_vars q = pp_vars p" "pp_degree q = pp_degree p"
    "pp_in_cardinality q = pp_in_cardinality p" "pp_mapto q = pp_mapto p" "pp_mapval q = pp_mapval p" "pp_orivars q = pp_orivars p"
    "pp_res_clauses q = pp_res_clauses p" "pp_res_clause q = pp_res_clause p" "pp_res_degree q = pp_res_degree p"
    "pp_res_owner q = pp_res_owner p" "pp_resolution q = pp_resolution p" "pp_resolutions q = pp_resolutions p"
    by (subst q, simp)+
qed

definition card_row_ok :: "nat \<Rightarrow> preproc \<Rightarrow> nat \<Rightarrow> bool" where
  "card_row_ok n p i \<longleftrightarrow> deleted p i \<or> pp_deg p i \<le> 1 \<or> lit_var ` set (pp_row p i) \<subseteq> card_vars n p"

definition turn_inv :: "nat \<Rightarrow> preproc \<Rightarrow> (nat \<Rightarrow> nat) \<Rightarrow> (nat \<Rightarrow> int) \<Rightarrow> preproc \<Rightarrow> bool" where
  "turn_inv n p0 R S p \<longleftrightarrow> int n < 2 ^ 31 \<and> main_frame p0 p \<and> bin_ok n (card_vars n p) R S p \<and> lit_marks n p []
     \<and> pp_clauses p < length (pp_clause p) \<and> pp_clauses p < length (pp_clause_delete p)
     \<and> (\<forall>j\<in>{1..pp_clauses p}. shaped n p j \<and> over_roots n R p j \<and> card_row_ok n p j)
     \<and> (\<forall>b. models p0 b \<longleftrightarrow> models p b \<and> class_sat n R S (pp_varval p) b)"

lemma turn_invD:
  assumes "turn_inv n p0 R S p"
  shows "int n < 2 ^ 31" "main_frame p0 p" "bin_ok n (card_vars n p) R S p" "lit_marks n p []"
    "pp_clauses p < length (pp_clause p)" "pp_clauses p < length (pp_clause_delete p)"
    "j \<in> {1..pp_clauses p} \<Longrightarrow> shaped n p j \<and> over_roots n R p j \<and> card_row_ok n p j"
    "models p0 b \<longleftrightarrow> models p b \<and> class_sat n R S (pp_varval p) b"
  using assms by (simp_all add: turn_inv_def)

definition turn_result :: "nat \<Rightarrow> preproc \<Rightarrow> bin_state \<Rightarrow> (bool \<times> bin_state) option option \<Rightarrow> bool" where
  "turn_result n p0 s res \<longleftrightarrow> (\<exists>r. res = Some r \<and> (case r of
      None \<Rightarrow> \<forall>b. \<not> models p0 b
    | Some (tc, t) \<Rightarrow> (\<exists>R S. turn_inv n p0 R S (bs_prep t))
        \<and> (\<not> tc \<longrightarrow> pp_clause (bs_prep t) = pp_clause (bs_prep s) \<and> pp_clause_delete (bs_prep t) = pp_clause_delete (bs_prep s))))"

lemma scan_all:
  assumes "bin_rows n p"
  shows "scan_inv n p (fold (scan_binary p (fold (index_binary p) [1..<Suc (pp_clauses p)] (\<lambda>_. None))) [1..<Suc (pp_clauses p)] ({}, []))"
proof (rule scan_fold_ok [OF assms])
  show "index_ok p (fold (index_binary p) [1..<Suc (pp_clauses p)] (\<lambda>_. None))"
    by (rule index_fold) (auto simp: index_ok_def)
qed (auto simp: scan_inv_def)

lemma Max_rows: "Max (insert 0 (set [1..<Suc m])) \<le> m"
  by (auto intro: Max.boundedI)

lemma bin_turn_ok:
  assumes inv: "turn_inv n p0 R S (bs_prep s)"
  shows "turn_result n p0 s (bin_turn s)"
proof -
  define p where "p = bs_prep s"
  define ids where "ids = [1..<Suc (pp_clauses p)]"
  note d = turn_invD [OF inv, folded p_def]
  have dist: "distinct ids" by (simp add: ids_def)
  have sid: "set ids = {1..pp_clauses p}" by (auto simp: ids_def)
  have rows: "bin_rows n p" using d(1,7) by (auto simp: bin_rows_def active_mem shaped_def)
  obtain W acts where wa: "fold (scan_binary p (fold (index_binary p) ids (\<lambda>_. None))) ids ({}, []) = (W, acts)" by fastforce
  have sc: "\<forall>a\<in>set acts. act_ok n (card_vars n p) a \<and> (\<forall>b. models p b \<longrightarrow> act_sat a b)"
      "\<forall>i\<in>W. \<forall>b. (\<forall>a\<in>set acts. act_sat a b) \<longrightarrow> row_sat b (pp_row p i) (pp_deg p i)"
    using scan_all [OF rows, folded ids_def, unfolded wa] by (simp_all add: scan_inv_def)
  let ?acts = "sort_actions acts"
  have sa: "set ?acts = set acts" by (rule set_sort_actions)
  have e: "bin_turn s = (case apply_actions ?acts (False, s) of
           None \<Rightarrow> None
         | Some None \<Rightarrow> Some None
         | Some (Some r) \<Rightarrow>
             let (turn_changed, s) = fold (delete_witnesses W) ids r
             in (case rewrite_rows ids (turn_changed, bs_prep s) of
                   None \<Rightarrow> None
                 | Some None \<Rightarrow> Some None
                 | Some (Some (turn_changed, p)) \<Rightarrow> Some (Some (turn_changed, s\<lparr>bs_prep := p\<rparr>))))"
    unfolding bin_turn_def Let_def p_def [symmetric] ids_def [symmetric] wa prod.case by (rule refl)
  obtain r where r: "apply_actions ?acts (False, s) = Some r" "case r of
       None \<Rightarrow> \<forall>b. class_sat n R S (pp_varval p) b \<longrightarrow> \<not> (\<forall>a\<in>set acts. act_sat a b)
     | Some (_, t) \<Rightarrow> act_frame p (bs_prep t) \<and> (\<exists>R' S'. bin_ok n (card_vars n p) R' S' (bs_prep t)
         \<and> (\<forall>b. class_sat n R' S' (pp_varval (bs_prep t)) b \<longleftrightarrow> class_sat n R S (pp_varval p) b \<and> (\<forall>a\<in>set acts. act_sat a b)))"
    using apply_actions_ok [OF d(3) [unfolded p_def], of ?acts False] sc(1)
    unfolding sa acts_result_def p_def [symmetric] by blast
  show ?thesis
  proof (cases r)
    case None
    have "\<not> models p0 b" for b using r(2) d(8) [of b] sc(1) unfolding None option.case by blast
    then show ?thesis unfolding e r(1) None by (simp add: turn_result_def)
  next
    case (Some x)
    obtain tc t where x: "x = (tc, t)" by fastforce
    obtain R' S' where t: "act_frame p (bs_prep t)" "bin_ok n (card_vars n p) R' S' (bs_prep t)"
      "\<And>b. class_sat n R' S' (pp_varval (bs_prep t)) b \<longleftrightarrow> class_sat n R S (pp_varval p) b \<and> (\<forall>a\<in>set acts. act_sat a b)"
      using r(2) unfolding Some x option.case prod.case by blast
    note tf = act_fields [OF t(1)]
    obtain tc1 u where u: "fold (delete_witnesses W) ids (tc, t) = (tc1, u)" by fastforce
    have len: "length (pp_clause_delete (bs_prep t)) > Max (insert 0 (set ids))"
      using d(6) Max_rows [of "pp_clauses p"] unfolding tf(5) ids_def by (rule le_less_trans [rotated])
    from delete_witnesses_fold [OF u len]
    have du: "del_frame (bs_prep t) (bs_prep u)" "length (pp_clause_delete (bs_prep u)) = length (pp_clause_delete p)"
      "\<And>i. deleted (bs_prep u) i \<longleftrightarrow> deleted p i \<or> i \<in> set ids \<inter> W" "\<not> tc1 \<Longrightarrow> bs_prep u = bs_prep t"
      unfolding tf(5) by blast+
    define q where "q = bs_prep u"
    have uf: "pp_clause q = pp_clause p" "pp_degree q = pp_degree p" "pp_varval q = pp_varval (bs_prep t)" "pp_f q = pp_f (bs_prep t)"
      "pp_val q = pp_val (bs_prep t)" "pp_resseen q = pp_resseen p" "pp_clauses q = pp_clauses p" "pp_in_cardinality q = pp_in_cardinality p"
    proof -
      have q': "q = (bs_prep t)\<lparr>pp_clause_delete := pp_clause_delete q\<rparr>" using du(1) by (simp add: del_frame_def q_def)
      show "pp_clause q = pp_clause p" "pp_degree q = pp_degree p" "pp_varval q = pp_varval (bs_prep t)" "pp_f q = pp_f (bs_prep t)"
        "pp_val q = pp_val (bs_prep t)" "pp_resseen q = pp_resseen p" "pp_clauses q = pp_clauses p" "pp_in_cardinality q = pp_in_cardinality p"
        by (subst q', simp add: tf)+
    qed
    have bq: "bin_ok n (card_vars n p) R' S' q" by (subst bin_ok_cong [OF uf(4,5,3)]) (rule t(2))
    have mq: "lit_marks n q []" using d(4) by (simp add: lit_marks_cong [OF uf(6)])
    have shq: "\<forall>i\<in>set ids. shaped n q i" using d(7) du(3) uf(1,2) by (simp add: shaped_def sid q_def)
    have lenq: "\<forall>i\<in>set ids. i < length (pp_clause q) \<and> i < length (pp_clause_delete q)"
      using d(5,6) du(2) uf(1) by (auto simp: sid q_def)
    have hq: "holds q b i \<longleftrightarrow> holds p b i" if b: "class_sat n R' S' (pp_varval q) b" and i: "i \<in> set ids" for b i
    proof -
      have "\<forall>a\<in>set acts. act_sat a b" using b t(3) uf(3) by simp
      then have "i \<in> W \<Longrightarrow> row_sat b (pp_row p i) (pp_deg p i)" using sc(2) by blast
      then show ?thesis using du(3) [of i, folded q_def] i uf(1,2) by (auto simp: holds_def)
    qed
    have m0: "models p0 b \<longleftrightarrow> (\<forall>i\<in>set ids. holds q b i) \<and> class_sat n R' S' (pp_varval q) b" for b
    proof -
      have "models p0 b \<longleftrightarrow> models p b \<and> class_sat n R' S' (pp_varval q) b"
        using d(8) [of b] t(3) [of b] sc(1) uf(3) by auto
      then show ?thesis using hq [of b] by (auto simp: models_holds sid)
    qed
    obtain r' where r': "rewrite_rows ids (tc1, q) = Some r'" "case r' of
        None \<Rightarrow> \<forall>b. class_sat n R' S' (pp_varval q) b \<longrightarrow> \<not> (\<forall>i\<in>set ids. holds q b i)
      | Some r'' \<Rightarrow> rows_step n (card_vars n p) R' S' (set ids) (tc1, q) r''"
      using rewrite_rows_ok [OF bq mq shq dist lenq, of tc1] by blast
    have e2: "bin_turn s = (case rewrite_rows ids (tc1, q) of
                   None \<Rightarrow> None
                 | Some None \<Rightarrow> Some None
                 | Some (Some (turn_changed, p)) \<Rightarrow> Some (Some (turn_changed, u\<lparr>bs_prep := p\<rparr>)))"
      unfolding e r(1) Some x option.case u Let_def prod.case q_def by (rule refl)
    show ?thesis
    proof (cases r')
      case None
      have "\<not> models p0 b" for b using r'(2) m0 [of b] unfolding None option.case by blast
      then show ?thesis unfolding e2 r'(1) None by (simp add: turn_result_def)
    next
      case (Some y)
      obtain tc2 w where y: "y = (tc2, w)" by fastforce
      have st: "rows_step n (card_vars n p) R' S' (set ids) (tc1, q) (tc2, w)" using r'(2) by (simp add: Some y)
      have w: "row_frame q w" "bin_ok n (card_vars n p) R' S' w" "lit_marks n w []" "length (pp_clause w) = length (pp_clause q)"
        "length (pp_clause_delete w) = length (pp_clause_delete q)"
        "\<And>b j. class_sat n R' S' (pp_varval q) b \<Longrightarrow> holds w b j = holds q b j"
        "\<And>j. pp_deg q j > 1 \<Longrightarrow> same_row q w j" "\<And>j. j \<in> set ids \<Longrightarrow> shaped n w j \<and> over_roots n R' w j"
        "\<not> tc2 \<Longrightarrow> \<not> tc1 \<and> pp_clause w = pp_clause q \<and> pp_clause_delete w = pp_clause_delete q"
        using st by (simp_all add: rows_step_def)
      note wf = row_fields [OF w(1)]
      have cv: "card_vars n w = card_vars n p" by (simp add: card_vars_def wf(5) uf(8))
      have fr: "main_frame p0 w"
        using main_frame_trans [OF d(2) main_frame_trans [OF main_frames(1) [OF t(1)] main_frame_trans [OF main_frames(2) [OF du(1), folded q_def] main_frames(3) [OF w(1)]]]] .
      have card: "card_row_ok n w j" if j: "j \<in> set ids" for j
      proof (cases "pp_deg p j > 1")
        case True
        then have "same_row q w j" using w(7) uf(2) by simp
        moreover have "deleted p j \<Longrightarrow> deleted q j" using du(3) q_def by simp
        moreover have "card_row_ok n p j" using d(7) j sid by simp
        ultimately show ?thesis using uf(1,2) wf(3) by (auto simp: card_row_ok_def cv same_row_def)
      next
        case False
        then show ?thesis using uf(2) wf(3) by (simp add: card_row_ok_def)
      qed
      have mw: "models p0 b \<longleftrightarrow> models w b \<and> class_sat n R' S' (pp_varval w) b" for b
        using m0 [of b] w(6) [of b] by (auto simp: models_holds sid wf(1,4) uf(7))
      have ti: "turn_inv n p0 R' S' w"
        unfolding turn_inv_def cv wf(1) uf(7)
        using d(1) fr w(2,3,4,5,8) uf(1) du(2) d(5,6) card mw by (simp add: sid q_def)
      have same: "pp_clause w = pp_clause p \<and> pp_clause_delete w = pp_clause_delete p" if "\<not> tc2"
      proof -
        have "\<not> tc1" "pp_clause w = pp_clause q" "pp_clause_delete w = pp_clause_delete q" using w(9) that by simp_all
        moreover have "pp_clause_delete q = pp_clause_delete p" using du(4) \<open>\<not> tc1\<close> tf(5) by (simp add: q_def)
        ultimately show ?thesis using uf(1) by simp
      qed
      have e3: "bin_turn s = Some (Some (tc2, u\<lparr>bs_prep := w\<rparr>))" unfolding e2 r'(1) Some y option.case prod.case by (rule refl)
      show ?thesis unfolding e3 turn_result_def using ti same by (auto simp: p_def)
    qed
  qed
qed

section \<open>All turns\<close>

lemma bin_turns_ok:
  assumes "turn_inv n p0 R S (bs_prep s)" and "\<not> ac \<Longrightarrow> pp_clause (bs_prep s) = cl \<and> pp_clause_delete (bs_prep s) = cd"
  shows "\<exists>r. bin_turns k (ac, s) = Some r \<and> (case r of
      None \<Rightarrow> \<forall>b. \<not> models p0 b
    | Some (ac', t) \<Rightarrow> (\<exists>R S. turn_inv n p0 R S (bs_prep t))
        \<and> (\<not> ac' \<longrightarrow> pp_clause (bs_prep t) = cl \<and> pp_clause_delete (bs_prep t) = cd))"
  using assms
proof (induction k arbitrary: ac s R S)
  case 0
  then show ?case by auto
next
  case (Suc k)
  show ?case
  proof (cases "int (kMaximumTurns - Suc k + 1) * int (pp_clauses (bs_prep s)) > kMaximumClauseRounds")
    case True
    then show ?thesis using Suc.prems by auto
  next
    case False
    obtain r where r: "bin_turn s = Some r" "case r of
      None \<Rightarrow> \<forall>b. \<not> models p0 b
    | Some (tc, t) \<Rightarrow> (\<exists>R S. turn_inv n p0 R S (bs_prep t))
        \<and> (\<not> tc \<longrightarrow> pp_clause (bs_prep t) = pp_clause (bs_prep s) \<and> pp_clause_delete (bs_prep t) = pp_clause_delete (bs_prep s))"
      using bin_turn_ok [OF Suc.prems(1)] unfolding turn_result_def by blast
    show ?thesis
    proof (cases r)
      case None
      then show ?thesis using r False by simp
    next
      case (Some x)
      obtain tc t where x: "x = (tc, t)" by fastforce
      obtain R' S' where t: "turn_inv n p0 R' S' (bs_prep t)"
        "\<not> tc \<Longrightarrow> pp_clause (bs_prep t) = pp_clause (bs_prep s) \<and> pp_clause_delete (bs_prep t) = pp_clause_delete (bs_prep s)"
        using r(2) unfolding Some x option.case prod.case by blast
      have e: "bin_turns (Suc k) (ac, s) = (if tc then bin_turns k (True, t) else Some (Some (ac, t)))"
        using False r(1) by (simp add: Some x)
      show ?thesis
      proof (cases tc)
        case True
        show ?thesis unfolding e if_P [OF True] by (rule Suc.IH [OF t(1)]) simp
      next
        case False
        then show ?thesis unfolding e using t Suc.prems(2) by auto
      qed
    qed
  qed
qed

end
