(* ===== verification/Prep_Bin_Start.thy ===== *)
theory Prep_Bin_Start
  imports Prep_Bin_Main Prep_Res_Start
begin

text \<open>The set-up of \<open>preprocess_binary\<close> establishes the invariant of the turns.\<close>

definition bin_frame :: "preproc \<Rightarrow> preproc \<Rightarrow> bool" where
  "bin_frame p q \<longleftrightarrow> q = p\<lparr>pp_f := pp_f q, pp_val := pp_val q, pp_varval := pp_varval q, pp_resseen := pp_resseen q,
     pp_in_cardinality := pp_in_cardinality q, pp_clause_delete := pp_clause_delete q\<rparr>"

lemma bin_frame_refl: "bin_frame p p"
  by (simp add: bin_frame_def)

lemma bin_frame_trans: "bin_frame p q \<Longrightarrow> bin_frame q t \<Longrightarrow> bin_frame p t"
  by (cases p; cases q; cases t; simp add: bin_frame_def)

lemma bin_frame_fields:
  assumes "bin_frame p q"
  shows "pp_clauses q = pp_clauses p" "pp_vars q = pp_vars p" "pp_clause q = pp_clause p" "pp_degree q = pp_degree p"
    "pp_mapto q = pp_mapto p" "pp_mapval q = pp_mapval p" "pp_orivars q = pp_orivars p"
    "pp_res_clauses q = pp_res_clauses p" "pp_res_clause q = pp_res_clause p" "pp_res_degree q = pp_res_degree p"
    "pp_res_owner q = pp_res_owner p" "pp_resolution q = pp_resolution p" "pp_resolutions q = pp_resolutions p"
proof -
  have q: "q = p\<lparr>pp_f := pp_f q, pp_val := pp_val q, pp_varval := pp_varval q, pp_resseen := pp_resseen q,
     pp_in_cardinality := pp_in_cardinality q, pp_clause_delete := pp_clause_delete q\<rparr>" using assms by (simp add: bin_frame_def)
  show "pp_clauses q = pp_clauses p" "pp_vars q = pp_vars p" "pp_clause q = pp_clause p" "pp_degree q = pp_degree p"
    "pp_mapto q = pp_mapto p" "pp_mapval q = pp_mapval p" "pp_orivars q = pp_orivars p"
    "pp_res_clauses q = pp_res_clauses p" "pp_res_clause q = pp_res_clause p" "pp_res_degree q = pp_res_degree p"
    "pp_res_owner q = pp_res_owner p" "pp_resolution q = pp_resolution p" "pp_resolutions q = pp_resolutions p"
    by (subst q, simp)+
qed

lemma bin_reset_rows:
  "bin_frame p (fold bin_reset_row is p) \<and> length (pp_clause_delete (fold bin_reset_row is p)) = length (pp_clause_delete p)
    \<and> pp_in_cardinality (fold bin_reset_row is p) = pp_in_cardinality p
    \<and> (\<forall>i\<in>set is. i < length (pp_clause_delete p) \<longrightarrow> \<not> deleted (fold bin_reset_row is p) i)"
proof (induction "is" rule: rev_induct)
  case Nil
  then show ?case by (simp add: bin_frame_refl)
next
  case (snoc i "is")
  let ?q = "fold bin_reset_row is p"
  have st: "bin_frame ?q (bin_reset_row i ?q)" "pp_clause_delete (bin_reset_row i ?q) = (pp_clause_delete ?q)[i := 0]"
    "pp_in_cardinality (bin_reset_row i ?q) = pp_in_cardinality ?q"
    by (simp_all add: bin_reset_row_def bin_frame_def)
  have "bin_frame p (bin_reset_row i ?q)" using snoc st(1) bin_frame_trans by blast
  moreover have "\<not> deleted (bin_reset_row i ?q) j" if j: "j \<in> set (is @ [i])" "j < length (pp_clause_delete p)" for j
  proof (cases "j = i")
    case True
    then show ?thesis using snoc j(2) by (simp add: st(2))
  next
    case False
    then show ?thesis using snoc j by (simp add: st(2))
  qed
  ultimately show ?case using snoc st(2,3) by simp
qed

definition card_only :: "preproc \<Rightarrow> preproc \<Rightarrow> bool" where
  "card_only p q \<longleftrightarrow> q = p\<lparr>pp_in_cardinality := pp_in_cardinality q\<rparr> \<and> length (pp_in_cardinality q) = length (pp_in_cardinality p)
     \<and> (\<forall>v. pp_in_cardinality p ! v \<noteq> 0 \<longrightarrow> pp_in_cardinality q ! v \<noteq> 0)"

lemma card_only_trans: "card_only p q \<Longrightarrow> card_only q t \<Longrightarrow> card_only p t"
  by (cases p; cases q; cases t; simp add: card_only_def)

lemma card_only_refl: "card_only p p"
  by (simp add: card_only_def)

lemma card_only_fields:
  assumes "card_only p q"
  shows "bin_frame p q" "pp_clause_delete q = pp_clause_delete p"
  using assms by (cases p; cases q; simp add: card_only_def bin_frame_def)+

lemma mark_lits:
  "card_only p (fold (\<lambda>l p. p\<lparr>pp_in_cardinality := (pp_in_cardinality p)[lit_var l := 1]\<rparr>) ls p)
   \<and> (\<forall>l\<in>set ls. lit_var l < length (pp_in_cardinality p) \<longrightarrow>
        pp_in_cardinality (fold (\<lambda>l p. p\<lparr>pp_in_cardinality := (pp_in_cardinality p)[lit_var l := 1]\<rparr>) ls p) ! lit_var l \<noteq> 0)"
proof (induction ls arbitrary: p)
  case Nil
  then show ?case by (simp add: card_only_refl)
next
  case (Cons l ls)
  let ?q = "p\<lparr>pp_in_cardinality := (pp_in_cardinality p)[lit_var l := 1]\<rparr>"
  let ?r = "fold (\<lambda>l p. p\<lparr>pp_in_cardinality := (pp_in_cardinality p)[lit_var l := 1]\<rparr>) ls ?q"
  have "(pp_in_cardinality p)[lit_var l := 1] ! v \<noteq> 0" if "pp_in_cardinality p ! v \<noteq> 0" for v
    using that by (cases "lit_var l < length (pp_in_cardinality p)") (simp_all add: nth_list_update list_update_beyond)
  then have 1: "card_only p ?q" by (simp add: card_only_def)
  have 2: "card_only ?q ?r" "\<forall>m\<in>set ls. lit_var m < length (pp_in_cardinality ?q) \<longrightarrow> pp_in_cardinality ?r ! lit_var m \<noteq> 0"
    using Cons.IH [of ?q] by blast+
  have 3: "pp_in_cardinality ?r ! lit_var l \<noteq> 0" if "lit_var l < length (pp_in_cardinality p)"
  proof -
    have "pp_in_cardinality ?q ! lit_var l \<noteq> 0" using that by simp
    then show ?thesis using 2(1) unfolding card_only_def by blast
  qed
  show ?case using card_only_trans [OF 1 2(1)] 2(2) 3 by simp
qed

lemma bin_mark_rows:
  assumes "\<forall>i\<in>set is. \<forall>l\<in>set (pp_row p i). lit_var l < length (pp_in_cardinality p)"
  shows "card_only p (fold bin_mark_row is p)
    \<and> (\<forall>i\<in>set is. pp_deg p i > 1 \<longrightarrow> (\<forall>l\<in>set (pp_row p i). pp_in_cardinality (fold bin_mark_row is p) ! lit_var l \<noteq> 0))"
  using assms
proof (induction "is" arbitrary: p)
  case Nil
  then show ?case by (simp add: card_only_refl)
next
  case (Cons i "is")
  let ?q = "bin_mark_row i p" and ?r = "fold bin_mark_row is (bin_mark_row i p)"
  have 1: "card_only p ?q" "pp_deg p i > 1 \<Longrightarrow> \<forall>l\<in>set (pp_row p i). pp_in_cardinality ?q ! lit_var l \<noteq> 0"
    using mark_lits [where ls = "pp_row p i" and p = p] Cons.prems by (auto simp: bin_mark_row_def card_only_refl)
  have l: "length (pp_in_cardinality ?q) = length (pp_in_cardinality p)" using 1(1) by (simp add: card_only_def)
  note f = bin_frame_fields [OF card_only_fields(1) [OF 1(1)]]
  have 2: "card_only ?q ?r" "\<forall>i\<in>set is. pp_deg p i > 1 \<longrightarrow> (\<forall>l\<in>set (pp_row p i). pp_in_cardinality ?r ! lit_var l \<noteq> 0)"
    using Cons.IH [of ?q] Cons.prems l f(3,4) by auto
  have 3: "pp_deg p i > 1 \<Longrightarrow> \<forall>l\<in>set (pp_row p i). pp_in_cardinality ?r ! lit_var l \<noteq> 0"
    using 1(2) 2(1) unfolding card_only_def by blast
  show ?case using card_only_trans [OF 1(1) 2(1)] 2(2) 3 by simp
qed

lemma bin_reset_vars:
  "bin_frame p (fold bin_reset_var vs p) \<and> pp_clause_delete (fold bin_reset_var vs p) = pp_clause_delete p
    \<and> pp_in_cardinality (fold bin_reset_var vs p) = pp_in_cardinality p
    \<and> (\<forall>v\<in>set vs. pp_f (fold bin_reset_var vs p) v = v \<and> pp_val (fold bin_reset_var vs p) v = 1
        \<and> pp_varval (fold bin_reset_var vs p) v = 0 \<and> pp_resseen (fold bin_reset_var vs p) (nat (tolit (int v))) = 0
        \<and> pp_resseen (fold bin_reset_var vs p) (nat (tolit (- int v))) = 0)"
proof (induction vs rule: rev_induct)
  case Nil
  then show ?case by (simp add: bin_frame_refl)
next
  case (snoc v vs)
  let ?q = "fold bin_reset_var vs p"
  have st: "bin_frame ?q (bin_reset_var v ?q)" "pp_clause_delete (bin_reset_var v ?q) = pp_clause_delete ?q"
    "pp_in_cardinality (bin_reset_var v ?q) = pp_in_cardinality ?q"
    "pp_f (bin_reset_var v ?q) = (pp_f ?q)(v := v)" "pp_val (bin_reset_var v ?q) = (pp_val ?q)(v := 1)"
    "pp_varval (bin_reset_var v ?q) = (pp_varval ?q)(v := 0)"
    "pp_resseen (bin_reset_var v ?q) = (pp_resseen ?q)(nat (tolit (int v)) := 0, nat (tolit (- int v)) := 0)"
    by (simp_all add: bin_reset_var_def bin_frame_def)
  have "bin_frame p (bin_reset_var v ?q)" using snoc st(1) bin_frame_trans by blast
  then show ?case using snoc st(2-) by auto
qed

text \<open>What the set-up leaves.\<close>

lemma bin_start_ok:
  assumes ok: "res_input_ok p"
  defines "q \<equiv> bin_start p"
  shows "bin_frame p q" and "length (pp_clause_delete q) = Suc (pp_clauses p)" and "\<forall>i\<in>{1..pp_clauses p}. \<not> deleted q i"
    and "\<forall>i\<in>{1..pp_clauses p}. pp_deg p i > 1 \<longrightarrow> lit_var ` set (pp_row p i) \<subseteq> card_vars (pp_vars p) q"
    and "\<forall>v\<in>{1..pp_vars p}. pp_f q v = v \<and> pp_val q v = 1 \<and> pp_varval q v = 0" and "lit_marks (pp_vars p) q []"
proof -
  let ?ids = "[1..<Suc (pp_clauses p)]" and ?m = "pp_clauses p" and ?n = "pp_vars p"
  have d: "Suc ?m \<le> length (pp_clause_delete p)" using ok by (simp add: res_input_ok_def)
  define p1 where "p1 = p\<lparr>pp_clause_delete := take (?m + 1) (pp_clause_delete p)\<rparr>"
  define p2 where "p2 = fold bin_reset_row ?ids p1"
  define p3 where "p3 = p2\<lparr>pp_in_cardinality := replicate (?n + 1) 0\<rparr>"
  define p4 where "p4 = fold bin_mark_row ?ids p3"
  have f1: "bin_frame p p1" by (simp add: p1_def bin_frame_def)
  have l1: "length (pp_clause_delete p1) = Suc ?m" using d by (simp add: p1_def)
  have r2: "bin_frame p1 p2" "length (pp_clause_delete p2) = Suc ?m" "\<forall>i\<in>{1..?m}. \<not> deleted p2 i"
    using bin_reset_rows [of p1 ?ids] l1 by (auto simp: p2_def simp del: upt_Suc)
  have f2: "bin_frame p p2" by (rule bin_frame_trans [OF f1 r2(1)])
  have f3: "bin_frame p p3" by (rule bin_frame_trans [OF f2]) (simp add: p3_def bin_frame_def)
  note e3 = bin_frame_fields [OF f3]
  have lits: "lit_var l \<in> {1..?n}" if "i \<in> {1..?m}" "l \<in> set (pp_row p i)" for i l
    using res_input_good [OF ok that(1)] that(2) lit_var_pos by (fastforce simp: good_row_def Suc_le_eq)
  have small: "\<forall>i\<in>set ?ids. \<forall>l\<in>set (pp_row p3 i). lit_var l < length (pp_in_cardinality p3)"
  proof (intro ballI)
    fix i l assume "i \<in> set ?ids" "l \<in> set (pp_row p3 i)"
    then have "lit_var l \<in> {1..?n}" using lits [of i l] e3(3) by auto
    then show "lit_var l < length (pp_in_cardinality p3)" by (simp add: p3_def)
  qed
  from bin_mark_rows [OF small, folded p4_def]
  have r4: "card_only p3 p4" "\<forall>i\<in>{1..?m}. pp_deg p i > 1 \<longrightarrow> (\<forall>l\<in>set (pp_row p i). pp_in_cardinality p4 ! lit_var l \<noteq> 0)"
    unfolding e3(3,4) by (auto simp del: upt_Suc)
  have f4: "bin_frame p p4" by (rule bin_frame_trans [OF f3 card_only_fields(1) [OF r4(1)]])
  note e4 = bin_frame_fields [OF f4]
  have cd4: "pp_clause_delete p4 = pp_clause_delete p2" using card_only_fields(2) [OF r4(1)] by (simp add: p3_def)
  have e2: "pp_clauses p1 = ?m" "pp_clauses p3 = ?m" "pp_vars p2 = ?n"
    using bin_frame_fields(1) [OF f1] e3(1) bin_frame_fields(2) [OF f2] by simp_all
  have q: "q = fold bin_reset_var [1..<Suc ?n] p4"
  proof -
    have "q = fold bin_reset_var [1..<Suc (pp_vars p4)]
       (fold bin_mark_row [1..<Suc (pp_clauses p3)] (p2\<lparr>pp_in_cardinality := replicate (pp_vars p2 + 1) 0\<rparr>))"
      unfolding q_def bin_start_def Let_def p1_def [symmetric] e2(1) p2_def [symmetric] e2(3) p3_def [symmetric] e2(2) p4_def [symmetric]
      by (rule refl)
    then show ?thesis unfolding e2 e4(2) p3_def [symmetric] p4_def [symmetric] .
  qed
  note r5 = bin_reset_vars [where vs = "[1..<Suc ?n]" and p = p4, folded q]
  have s5: "bin_frame p4 q" "pp_clause_delete q = pp_clause_delete p4" "pp_in_cardinality q = pp_in_cardinality p4"
    and v5: "\<forall>v\<in>{1..?n}. pp_f q v = v \<and> pp_val q v = 1 \<and> pp_varval q v = 0 \<and> pp_resseen q (nat (tolit (int v))) = 0
        \<and> pp_resseen q (nat (tolit (- int v))) = 0" using r5 by (auto simp del: upt_Suc)
  show "bin_frame p q" by (rule bin_frame_trans [OF f4 s5(1)])
  show "length (pp_clause_delete q) = Suc ?m" "\<forall>i\<in>{1..?m}. \<not> deleted q i" using r2(2,3) cd4 s5(2) by simp_all
  show "\<forall>v\<in>{1..?n}. pp_f q v = v \<and> pp_val q v = 1 \<and> pp_varval q v = 0" using v5 by blast
  show "\<forall>i\<in>{1..?m}. pp_deg p i > 1 \<longrightarrow> lit_var ` set (pp_row p i) \<subseteq> card_vars ?n q"
    using r4(2) lits s5(3) by (auto simp: card_vars_def)
  show "lit_marks ?n q []"
    unfolding lit_marks_def
  proof (intro allI impI)
    fix l :: int assume l: "l \<noteq> 0" "lit_var l \<le> ?n"
    have "lit_var l \<in> {1..?n}" using l lit_var_pos [OF l(1)] by simp
    then have z: "pp_resseen q (nat (tolit (int (lit_var l)))) = 0" "pp_resseen q (nat (tolit (- int (lit_var l)))) = 0" using v5 by blast+
    have "l = int (lit_var l) \<or> l = - int (lit_var l)" by (auto simp: lit_var_def)
    then have "pp_resseen q (nat (tolit l)) = 0" using z by metis
    then show "(pp_resseen q (nat (tolit l)) \<noteq> 0) = (l \<in> set [])" by simp
  qed
qed

lemma bin_start_inv:
  assumes ok: "res_input_ok p" and n: "int (pp_vars p) < 2 ^ 31"
  shows "turn_inv (pp_vars p) (bin_start p) (\<lambda>v. v) (\<lambda>_. 1) (bin_start p)"
    and "models (bin_start p) b = rows_sat b (pp_rows p)"
proof -
  define q where "q = bin_start p"
  note s = bin_start_ok [OF ok, folded q_def]
  note f = bin_frame_fields [OF s(1)]
  let ?n = "pp_vars p" and ?m = "pp_clauses p"
  have g: "good_row ?n (row_of q i)" if "i \<in> {1..?m}" for i using res_input_good [OF ok that] f(3,4) by simp
  have len: "?m < length (pp_clause p)" using ok by (simp add: res_input_ok_def)
  have bo: "bin_ok ?n (card_vars ?n q) (\<lambda>v. v) (\<lambda>_. 1) q"
    using s(5) by (auto simp: bin_ok_def forest_def ranked_def edge_ok_def untouched_def card_vars_def)
  have each: "shaped ?n q j \<and> over_roots ?n (\<lambda>v. v) q j \<and> card_row_ok ?n q j" if j: "j \<in> {1..?m}" for j
  proof (intro conjI)
    note gj = g [OF j]
    show "shaped ?n q j" using gj by (simp add: shaped_def)
    have "lit_var l \<in> {1..?n}" if "l \<in> set (pp_row q j)" for l
      using gj that lit_var_pos [of l] by (auto simp: good_row_def Suc_le_eq)
    then show "over_roots ?n (\<lambda>v. v) q j" using gj s(5) by (auto simp: over_roots_def root_row_def good_row_def)
    show "card_row_ok ?n q j" using s(4) [rule_format, OF j] f(3,4) by (cases "pp_deg p j > 1") (simp_all add: card_row_ok_def)
  qed
  have cs: "class_sat ?n (\<lambda>v. v) (\<lambda>_. 1) (pp_varval q) b" for b using s(5) by (simp add: class_sat_def)
  show "turn_inv ?n (bin_start p) (\<lambda>v. v) (\<lambda>_. 1) (bin_start p)"
    using n main_frame_refl bo s(2,6) len f(1,3) each cs by (simp add: turn_inv_def q_def)
  have ar: "active_rows q = [1..<Suc ?m]" using s(3) f(1) by (auto simp: active_rows_def filter_id_conv)
  show "models (bin_start p) b = rows_sat b (pp_rows p)"
    unfolding q_def [symmetric] models_def act_rows_def ar pp_rows_def f(3,4) ..
qed

end
