(* ===== verification/Prep_Bin_Correct.thy ===== *)
theory Prep_Bin_Correct
  imports Prep_Bin_Start Prep_Res_Correct
begin

text \<open>
  The contract of \<open>preprocess_binary\<close>: from a state a model is recovered from to such a state.
\<close>

section \<open>Recoverability depends on the rows, the maps and the stored groups\<close>

lemma recoverable_cong:
  assumes "pp_rows q = pp_rows p" "pp_mapto q = pp_mapto p" "pp_mapval q = pp_mapval p" "pp_orivars q = pp_orivars p" "pp_vars q = pp_vars p"
    and "pp_res_clauses q = pp_res_clauses p" "pp_res_clause q = pp_res_clause p" "pp_res_degree q = pp_res_degree p"
    "pp_res_owner q = pp_res_owner p" "pp_resolution q = pp_resolution p" "pp_resolutions q = pp_resolutions p"
    and "shape_ok q" and "recoverable S p"
  shows "recoverable S q"
proof -
  have ov: "orig_val q = orig_val p" by (simp add: orig_val_def fun_eq_iff assms(2,3))
  have vv: "var_val q = var_val p" by (simp add: var_val_def fun_eq_iff ov)
  have kg: "keeps_groups mf rg q = keeps_groups mf rg p" for mf rg by (simp add: keeps_groups_def assms(6-11))
  have mr: "maps_range E q = maps_range E p" for E by (simp add: maps_range_def assms(2-5))
  have ga: "groups_at n mf rg q = groups_at n mf rg p" for n mf rg by (simp add: groups_at_def kg mr assms(4))
  have ra: "recovers_all S n mf rg q = recovers_all S n mf rg p" for n mf rg by (simp add: recovers_all_def assms(1,4) ov vv)
  show ?thesis using assms(12,13) unfolding recoverable_def ga ra by blast
qed

section \<open>The maps\<close>

definition bin_mapped :: "(nat \<Rightarrow> nat) \<Rightarrow> (nat \<Rightarrow> int) \<Rightarrow> (nat \<Rightarrow> int) \<Rightarrow> (nat \<Rightarrow> nat) \<Rightarrow> int \<Rightarrow> int \<Rightarrow> int \<times> int" where
  "bin_mapped R S F color t v =
     (let c = nat \<bar>t\<bar>; e = pnsign t * S c
      in if t = 0 then (0, v)
         else if F (R c) \<noteq> 0 then (0, e * F (R c))
         else if color (R c) \<noteq> 0 then (e * int (color (R c)), 0)
         else (0, e))"

definition binmap_frame :: "preproc \<Rightarrow> preproc \<Rightarrow> bool" where
  "binmap_frame p q \<longleftrightarrow> q = p\<lparr>pp_f := pp_f q, pp_val := pp_val q, pp_mapto := pp_mapto q, pp_mapval := pp_mapval q\<rparr>"

lemma binmap_frame_refl: "binmap_frame p p"
  by (simp add: binmap_frame_def)

lemma binmap_frame_trans: "binmap_frame p q \<Longrightarrow> binmap_frame q t \<Longrightarrow> binmap_frame p t"
  by (cases p; cases q; cases t; simp add: binmap_frame_def)

lemma find_binmap_frame: "find_frame p q \<Longrightarrow> binmap_frame p q"
  by (cases p; cases q; simp add: find_frame_def binmap_frame_def)

lemma binmap_frame_upd: "binmap_frame p q \<Longrightarrow> binmap_frame p (q\<lparr>pp_mapto := x, pp_mapval := y\<rparr>)"
  by (cases p; cases q; simp add: binmap_frame_def)

lemma binmap_frame_fields:
  assumes "binmap_frame p q"
  shows "pp_clauses q = pp_clauses p" "pp_vars q = pp_vars p" "pp_clause q = pp_clause p" "pp_degree q = pp_degree p"
    "pp_clause_delete q = pp_clause_delete p" "pp_orivars q = pp_orivars p" "pp_color q = pp_color p" "pp_varval q = pp_varval p"
    "pp_res_clauses q = pp_res_clauses p" "pp_res_clause q = pp_res_clause p" "pp_res_degree q = pp_res_degree p"
    "pp_res_owner q = pp_res_owner p" "pp_resolution q = pp_resolution p" "pp_resolutions q = pp_resolutions p"
proof -
  have q: "q = p\<lparr>pp_f := pp_f q, pp_val := pp_val q, pp_mapto := pp_mapto q, pp_mapval := pp_mapval q\<rparr>"
    using assms by (simp add: binmap_frame_def)
  show "pp_clauses q = pp_clauses p" "pp_vars q = pp_vars p" "pp_clause q = pp_clause p" "pp_degree q = pp_degree p"
    "pp_clause_delete q = pp_clause_delete p" "pp_orivars q = pp_orivars p" "pp_color q = pp_color p" "pp_varval q = pp_varval p"
    "pp_res_clauses q = pp_res_clauses p" "pp_res_clause q = pp_res_clause p" "pp_res_degree q = pp_res_degree p"
    "pp_res_owner q = pp_res_owner p" "pp_resolution q = pp_resolution p" "pp_resolutions q = pp_resolutions p"
    by (subst q, simp)+
qed

lemma find_maps:
  assumes "find_frame p q"
  shows "pp_mapto q = pp_mapto p" "pp_mapval q = pp_mapval p" "pp_color q = pp_color p" "pp_varval q = pp_varval p"
  using find_fields [OF assms] by simp_all

lemma bin_map_var_ok:
  assumes ok: "bin_ok n C R S p" and i: "pp_mapto p i \<noteq> 0 \<Longrightarrow> nat \<bar>pp_mapto p i\<bar> \<in> {1..n}"
  shows "\<exists>q. bin_map_var i p = Some q \<and> binmap_frame p q \<and> bin_ok n C R S q
    \<and> (\<forall>j. (pp_mapto q j, pp_mapval q j) = (if j = i then bin_mapped R S (pp_varval p) (pp_color p) (pp_mapto p i) (pp_mapval p i)
         else (pp_mapto p j, pp_mapval p j)))"
proof (cases "pp_mapto p i = 0")
  case True
  then show ?thesis using ok by (simp add: bin_map_var_def binmap_frame_refl bin_mapped_def)
next
  case False
  define t where "t = pp_mapto p i"
  define c where "c = nat \<bar>t\<bar>"
  have cn: "c \<in> {1..n}" using i False by (simp add: t_def c_def)
  obtain q where q: "find_var c p = Some (R c, q)" "bin_ok n C R S q" "find_frame p q" "pp_val q c = S c"
    using find_bin_ok [OF ok cn] by blast
  note m = find_maps [OF q(3)]
  define x where "x = bin_mapped R S (pp_varval p) (pp_color p) t (pp_mapval p i)"
  have e: "bin_map_var i p = Some (q\<lparr>pp_mapto := (pp_mapto q)(i := fst x), pp_mapval := (pp_mapval q)(i := snd x)\<rparr>)"
    using False by (simp add: bin_map_var_def t_def [symmetric] c_def [symmetric] q(1,4) m x_def bin_mapped_def Let_def)
  have ok': "bin_ok n C R S (q\<lparr>pp_mapto := (pp_mapto q)(i := fst x), pp_mapval := (pp_mapval q)(i := snd x)\<rparr>)"
    using q(2) by (subst bin_ok_cong [of _ q]) simp_all
  show ?thesis unfolding e using binmap_frame_upd [OF find_binmap_frame [OF q(3)]] ok'
    by (simp add: m x_def t_def [symmetric])
qed

lemma bin_maps_ok:
  assumes "bin_ok n C R S p" and "distinct is" and "\<forall>i\<in>set is. pp_mapto p i \<noteq> 0 \<longrightarrow> nat \<bar>pp_mapto p i\<bar> \<in> {1..n}"
  shows "\<exists>q. ofold bin_map_var is p = Some q \<and> binmap_frame p q
    \<and> (\<forall>j. (pp_mapto q j, pp_mapval q j) = (if j \<in> set is then bin_mapped R S (pp_varval p) (pp_color p) (pp_mapto p j) (pp_mapval p j)
         else (pp_mapto p j, pp_mapval p j)))"
  using assms
proof (induction "is" arbitrary: p)
  case Nil
  then show ?case by (simp add: binmap_frame_refl)
next
  case (Cons i "is")
  obtain q where q: "bin_map_var i p = Some q" "binmap_frame p q" "bin_ok n C R S q"
    "\<forall>j. (pp_mapto q j, pp_mapval q j) = (if j = i then bin_mapped R S (pp_varval p) (pp_color p) (pp_mapto p i) (pp_mapval p i)
         else (pp_mapto p j, pp_mapval p j))"
    using bin_map_var_ok [OF Cons.prems(1), of i] Cons.prems(3) by auto
  note mf = binmap_frame_fields [OF q(2)]
  have other: "pp_mapto q j = pp_mapto p j" "pp_mapval q j = pp_mapval p j" if "j \<noteq> i" for j
    using q(4) [rule_format, of j] that by simp_all
  have ni: "i \<notin> set is" using Cons.prems(2) by simp
  have rng: "\<forall>j\<in>set is. pp_mapto q j \<noteq> 0 \<longrightarrow> nat \<bar>pp_mapto q j\<bar> \<in> {1..n}"
  proof
    fix j assume j: "j \<in> set is"
    then have "j \<noteq> i" using ni by blast
    then show "pp_mapto q j \<noteq> 0 \<longrightarrow> nat \<bar>pp_mapto q j\<bar> \<in> {1..n}" using other(1) Cons.prems(3) j by simp
  qed
  have ds: "distinct is" using Cons.prems(2) by simp
  obtain t where t: "ofold bin_map_var is q = Some t" "binmap_frame q t"
    "\<forall>j. (pp_mapto t j, pp_mapval t j) = (if j \<in> set is then bin_mapped R S (pp_varval q) (pp_color q) (pp_mapto q j) (pp_mapval q j)
         else (pp_mapto q j, pp_mapval q j))"
    using Cons.IH [OF q(3) ds rng] by blast
  have "(pp_mapto t j, pp_mapval t j) = (if j \<in> set (i # is) then bin_mapped R S (pp_varval p) (pp_color p) (pp_mapto p j) (pp_mapval p j)
         else (pp_mapto p j, pp_mapval p j))" for j
  proof (cases "j = i")
    case True
    then show ?thesis using t(3) [rule_format, of i] q(4) [rule_format, of i] ni by simp
  next
    case False
    then show ?thesis using t(3) [rule_format, of j] other [OF False] mf(7,8) by simp
  qed
  then show ?case using q(1) t(1) binmap_frame_trans [OF q(2) t(2)] by (intro exI [of _ t]) simp
qed

section \<open>Reading a model of the relabelled rows\<close>

definition root_sign :: "(nat \<Rightarrow> int) \<Rightarrow> (nat \<Rightarrow> nat) \<Rightarrow> (nat \<Rightarrow> bool) \<Rightarrow> nat \<Rightarrow> int" where
  "root_sign F color b r = (if F r \<noteq> 0 then F r else if color r \<noteq> 0 then sgn_of (b (color r)) else 1)"

definition class_val :: "(nat \<Rightarrow> nat) \<Rightarrow> (nat \<Rightarrow> int) \<Rightarrow> (nat \<Rightarrow> int) \<Rightarrow> (nat \<Rightarrow> nat) \<Rightarrow> (nat \<Rightarrow> bool) \<Rightarrow> nat \<Rightarrow> bool" where
  "class_val R S F color b v \<longleftrightarrow> S v * root_sign F color b (R v) = 1"

lemma root_sign_cases:
  assumes "F r = 0 \<or> F r = 1 \<or> F r = -1"
  shows "root_sign F color b r = 1 \<or> root_sign F color b r = -1"
  using assms by (auto simp: root_sign_def sgn_of_def)

lemma sg_class_val:
  assumes "S v = 1 \<or> S v = -1" and "F (R v) = 0 \<or> F (R v) = 1 \<or> F (R v) = -1"
  shows "sg (class_val R S F color b) v = S v * root_sign F color b (R v)"
  using assms(1) root_sign_cases [where F = F and r = "R v", OF assms(2), of color b] by (auto simp: sg_def sgn_of_def class_val_def)

lemma class_val_sat:
  assumes ok: "bin_ok n C R S p"
  shows "class_sat n R S (pp_varval p) (class_val R S (pp_varval p) color b)"
  unfolding class_sat_def
proof
  fix v assume v: "v \<in> {1..n}"
  obtain r where r: "ranked n r R S p" using bin_okD(1) [OF ok] by blast
  note k = rankedD [OF r v] 
  have kr: "R (R v) = R v" "S (R v) = 1" using rankedD(5) [OF r k(2,3)] by simp_all
  note F = bin_okD(3) [OF ok k(2)]
  have s: "sg (class_val R S (pp_varval p) color b) v = S v * root_sign (pp_varval p) color b (R v)"
    "sg (class_val R S (pp_varval p) color b) (R v) = root_sign (pp_varval p) color b (R v)"
    using sg_class_val [of S v "pp_varval p" R] sg_class_val [of S "R v" "pp_varval p" R] k(4) F kr by simp_all
  show "sg (class_val R S (pp_varval p) color b) v = S v * sg (class_val R S (pp_varval p) color b) (R v)
      \<and> (pp_varval p (R v) \<noteq> 0 \<longrightarrow> sg (class_val R S (pp_varval p) color b) (R v) = pp_varval p (R v))"
    unfolding s by (simp add: root_sign_def)
qed

text \<open>An original variable has the same value under the old and the new maps.\<close>

lemma sign_scaled:
  assumes "e = 1 \<or> e = (-1 :: int)" and "0 < k"
  shows "nat \<bar>e * int k\<bar> = k" "pnsign (e * int k) = e" "e * int k \<noteq> 0"
  using assms by (auto simp: pnsign_def)

lemma bin_mapped_val:
  assumes c: "t \<noteq> 0 \<Longrightarrow> S (nat \<bar>t\<bar>) = 1 \<or> S (nat \<bar>t\<bar>) = -1"
    and F: "t \<noteq> 0 \<Longrightarrow> F (R (nat \<bar>t\<bar>)) = 0 \<or> F (R (nat \<bar>t\<bar>)) = 1 \<or> F (R (nat \<bar>t\<bar>)) = -1"
    and new: "(pp_mapto q i, pp_mapval q i) = bin_mapped R S F color (pp_mapto p i) (pp_mapval p i)" and t: "t = pp_mapto p i"
  shows "orig_val q b i = orig_val p (class_val R S F color b) i"
proof (cases "t = 0")
  case True
  then show ?thesis using new t by (simp add: bin_mapped_def Let_def orig_val_def)
next
  case False
  define e where "e = pnsign t * S (nat \<bar>t\<bar>)"
  define r where "r = R (nat \<bar>t\<bar>)"
  have e: "e = 1 \<or> e = -1" using c [OF False] pnsign_cases [of t] by (auto simp: e_def)
  have "orig_val p (class_val R S F color b) i = sg (class_val R S F color b) (nat \<bar>t\<bar>) * pnsign t"
    using False t by (simp add: orig_val_def sg_def)
  also have "\<dots> = e * root_sign F color b r"
    using sg_class_val [of S "nat \<bar>t\<bar>" F R, OF c [OF False] F [OF False]] by (simp add: e_def r_def)
  finally have old: "orig_val p (class_val R S F color b) i = e * root_sign F color b r" .
  have m: "(pp_mapto q i, pp_mapval q i) = (if F r \<noteq> 0 then (0, e * F r) else if color r \<noteq> 0 then (e * int (color r), 0) else (0, e))"
    unfolding new t [symmetric] by (simp add: bin_mapped_def Let_def False e_def r_def)
  show ?thesis
  proof (cases "F r = 0 \<and> color r \<noteq> 0")
    case True
    then have "pp_mapto q i = e * int (color r)" using m by simp
    then show ?thesis unfolding old using True sign_scaled [OF e, of "color r"] by (simp add: orig_val_def root_sign_def)
  next
    case False
    then show ?thesis unfolding old using m by (auto simp: orig_val_def root_sign_def split: if_splits)
  qed
qed

section \<open>The changed result\<close>

lemma bin_changed:
  assumes ok: "res_input_ok p" and n: "n = pp_vars p" and inv: "turn_inv n (bin_start p) R S t" and rec: "recoverable Q p"
  defines "u \<equiv> update_var_clause_label t"
  shows "\<exists>q. ofold bin_map_var [1..<Suc (pp_orivars u)] u = Some q \<and> recoverable Q q \<and> pp_orivars q = pp_orivars p
    \<and> ((\<exists>b. rows_sat b (pp_rows p)) \<longrightarrow> (\<exists>b. rows_sat b (pp_rows q)))"
proof -
  let ?F = "pp_varval t" and ?N = "pp_orivars p"
  define U where "U = used_vars t"
  note d = turn_invD [OF inv]
  note bf = bin_frame_fields [OF bin_start_ok(1) [OF ok]] and mf = main_fields [OF d(2)]
  have pm: "models (bin_start p) b = rows_sat b (pp_rows p)" for b
    by (rule bin_start_inv(2) [OF ok]) (use d(1) n in simp)
  have tv: "pp_vars t = n" "pp_orivars t = ?N" "pp_mapto t = pp_mapto p" "pp_mapval t = pp_mapval p"
    using bf mf n by simp_all
  have act: "active_ok t"
  proof -
    have "pp_clauses t < length (pp_degree t)" using ok bf(1,4) mf(1,3) by (simp add: res_input_ok_def)
    moreover have "good_row n (row_of t i)" if "i \<in> set (active_rows t)" for i
      using d(7) [of i] that by (auto simp: active_mem shaped_def)
    ultimately show ?thesis using d(5) tv(1) by (simp add: active_ok_def good_row_def)
  qed
  note r = relabel_ok [OF act, folded u_def U_def]
  have fin: "finite U" using finite_used [OF act] by (simp add: U_def)
  have Un: "U \<subseteq> {1..n}" using active_ok_used [OF act] tv(1) by (simp add: U_def)
  have uf: "pp_f u = pp_f t" "pp_val u = pp_val t" "pp_varval u = ?F" "pp_mapto u = pp_mapto p" "pp_mapval u = pp_mapval p"
    "pp_orivars u = ?N" "pp_clause_delete u = pp_clause_delete t"
    by (subst r(7), simp add: tv)+
  have ur: "pp_res_clauses u = pp_res_clauses p" "pp_res_clause u = pp_res_clause p" "pp_res_degree u = pp_res_degree p"
    "pp_res_owner u = pp_res_owner p" "pp_resolution u = pp_resolution p" "pp_resolutions u = pp_resolutions p"
    by (subst r(7), simp add: bf mf)+
  let ?C = "card_vars n t"
  have bu: "bin_ok n ?C R S u" by (subst bin_ok_cong [OF uf(1-3)]) (rule d(3))
  obtain rk where rk: "ranked n rk R S t" using bin_okD(1) [OF d(3)] by blast
  have Rn: "R v \<in> {1..n}" "S v = 1 \<or> S v = -1" "?F (R v) = 0 \<or> ?F (R v) = 1 \<or> ?F (R v) = -1" if v: "v \<in> {1..n}" for v
    using rankedD(2,4) [OF rk v] bin_okD(3) [OF d(3) rankedD(2) [OF rk v]] by simp_all
  obtain k gf rg where at: "groups_at k gf rg p" and all: "recovers_all Q k gf rg p" and sh: "shape_ok p"
    using rec by (auto simp: recoverable_def)
  let ?E = "gf ` fst ` set rg"
  have mr: "maps_range ?E p" using at by (simp add: groups_at_def)
  have to: "nat \<bar>pp_mapto p i\<bar> \<in> {1..n}" if "i \<in> {1..?N}" "pp_mapto p i \<noteq> 0" for i
    using mr that n unfolding maps_range_def by metis
  have "\<exists>q. ofold bin_map_var [1..<Suc ?N] u = Some q \<and> binmap_frame u q
    \<and> (\<forall>j. (pp_mapto q j, pp_mapval q j) = (if j \<in> set [1..<Suc ?N] then bin_mapped R S (pp_varval u) (pp_color u) (pp_mapto u j) (pp_mapval u j)
         else (pp_mapto u j, pp_mapval u j)))"
    by (rule bin_maps_ok [OF bu]) (use to uf(4) in auto)
  then obtain q where q: "ofold bin_map_var [1..<Suc ?N] u = Some q" "binmap_frame u q"
    and qm0: "\<And>j. (pp_mapto q j, pp_mapval q j) = (if j \<in> set [1..<Suc ?N] then bin_mapped R S (pp_varval u) (pp_color u) (pp_mapto u j) (pp_mapval u j)
         else (pp_mapto u j, pp_mapval u j))" by blast
  have qm: "(pp_mapto q j, pp_mapval q j) = bin_mapped R S ?F (pp_color u) (pp_mapto p j) (pp_mapval p j)" if j: "j \<in> {1..?N}" for j
  proof -
    have "j \<in> set [1..<Suc ?N]" using j by auto
    then show ?thesis using qm0 [of j] unfolding uf(3-5) by (simp only: if_True)
  qed
  note qf = binmap_frame_fields [OF q(2)]
  have rows: "pp_rows q = pp_rows u" by (simp add: pp_rows_def qf)
  have ov: "orig_val q b i = orig_val p (class_val R S ?F (pp_color u) b) i" if i: "i \<in> {1..?N}" for i b
    by (rule bin_mapped_val [where t = "pp_mapto p i", OF _ _ qm [OF i] refl]) (use Rn to [OF i] in blast)+
  have usedv: "R v = v \<and> ?F v = 0" if v: "v \<in> U" for v
  proof -
    obtain j l where j: "j \<in> set (active_rows t)" "l \<in> set (pp_row t j)" "v = lit_var l" using v by (auto simp: U_def used_vars_def)
    have j1: "j \<in> {1..pp_clauses t}" "\<not> deleted t j" using j(1) by (auto simp: active_mem)
    note dj = d(7) [OF j1(1)]
    show ?thesis
    proof (cases "pp_deg t j > 1")
      case True
      then have "v \<in> ?C" using dj j1(2) j by (auto simp: card_row_ok_def)
      then have v': "v \<in> ?C" "v \<in> ?C \<inter> {1..n}" "v \<in> {1..n}" using Un v by auto
      have un: "untouched n ?C R ?F" by (rule bin_okD(2) [OF d(3)])
      then have Rv: "R v = v" using v'(2) unfolding untouched_def by blast
      then show ?thesis using un v' unfolding untouched_def by metis
    next
      case False
      then show ?thesis using dj j1(2) j(2,3) by (simp add: over_roots_def root_row_def)
    qed
  qed
  have col: "pp_color u v = var_number U v" if "v \<in> {1..n}" for v using r(3) that tv(1) by simp
  have dec: "rows_sat (class_val R S ?F (pp_color u) b) (pp_rows p)" if b: "rows_sat b (pp_rows q)" for b
  proof -
    let ?a = "class_val R S ?F (pp_color u) b"
    have "\<forall>v\<in>U. ?a v = b (var_number U v)"
    proof
      fix v assume v: "v \<in> U"
      then have vn: "v \<in> {1..n}" using Un by blast
      have "S v = 1" using rankedD(5) [OF rk vn] root_iff [OF rk vn] usedv [OF v] by simp
      then show "?a v = b (var_number U v)"
        using usedv [OF v] col [OF vn] var_number_pos(1) [OF fin v] by (simp add: class_val_def root_sign_def)
    qed
    then have "models t ?a" using relabel_models [OF act, folded u_def U_def, of ?a b] b rows by (simp add: models_iff)
    then show ?thesis using d(8) [of ?a] class_val_sat [OF d(3)] pm by blast
  qed
  have sq: "shape_ok q"
  proof -
    have "length (pp_rows u) = length (active_rows t)" using r(4) by simp
    then have "pp_clauses u \<le> pp_clauses t"
      using length_filter_le [of _ "[1..<Suc (pp_clauses t)]"] by (simp add: pp_rows_def active_rows_def del: upt_Suc)
    then show ?thesis using r(1,5,6) d(6) by (simp add: shape_ok_def rows_ok_def qf uf(7))
  qed
  have rng: "maps_range ?E q"
    unfolding maps_range_def qf(2,6) uf(6)
  proof
    fix i assume i: "i \<in> {1..?N}"
    note m = qm [OF i]
    have old: "if i \<in> ?E then pp_mapto p i = 0 \<and> pp_mapval p i = -10
        else if pp_mapto p i = 0 then pp_mapval p i = 1 \<or> pp_mapval p i = -1 else nat \<bar>pp_mapto p i\<bar> \<in> {1..pp_vars p}"
      using mr i unfolding maps_range_def by blast
    show "if i \<in> ?E then pp_mapto q i = 0 \<and> pp_mapval q i = -10
        else if pp_mapto q i = 0 then pp_mapval q i = 1 \<or> pp_mapval q i = -1 else nat \<bar>pp_mapto q i\<bar> \<in> {1..pp_vars u}"
    proof (cases "pp_mapto p i = 0")
      case True
      then have "pp_mapto q i = 0" "pp_mapval q i = pp_mapval p i" using m by (simp_all add: bin_mapped_def Let_def)
      then show ?thesis using old True by simp
    next
      case False
      define t0 where "t0 = pp_mapto p i"
      define c where "c = nat \<bar>t0\<bar>"
      have cn: "c \<in> {1..n}" using to [OF i False] by (simp add: c_def t0_def)
      have nE: "i \<notin> ?E" using old False by meson
      define e where "e = pnsign t0 * S c"
      have e: "e = 1 \<or> e = -1" using Rn(2) [OF cn] pnsign_cases [of t0] by (auto simp: e_def)
      have m': "(pp_mapto q i, pp_mapval q i) = (if ?F (R c) \<noteq> 0 then (0, e * ?F (R c))
          else if pp_color u (R c) \<noteq> 0 then (e * int (pp_color u (R c)), 0) else (0, e))"
        unfolding m using False by (simp add: bin_mapped_def Let_def t0_def [symmetric] c_def [symmetric] e_def [symmetric])
      consider "?F (R c) \<noteq> 0" | "?F (R c) = 0" "pp_color u (R c) \<noteq> 0" | "?F (R c) = 0" "pp_color u (R c) = 0" by blast
      then show ?thesis
      proof cases
        case 1
        then have "e * ?F (R c) = 1 \<or> e * ?F (R c) = -1" using Rn(3) [OF cn] e by auto
        then show ?thesis using 1 m' nE by simp
      next
        case 2
        have nz: "var_number U (R c) \<noteq> 0" using 2 col [OF Rn(1) [OF cn]] by simp
        then have "R c \<in> U" by (auto simp: var_number_def split: if_splits)
        then have "var_number U (R c) \<in> {1..pp_vars u}" using var_number_pos [OF fin] r(2) by simp
        then show ?thesis using 2 m' nE sign_scaled [OF e, of "pp_color u (R c)"] col [OF Rn(1) [OF cn]] by simp
      next
        case 3
        then show ?thesis using m' nE e by simp
      qed
    qed
  qed
  have atq: "groups_at k gf rg q"
    using at rng by (simp add: groups_at_def keeps_groups_def qf uf(6) ur)
  have img: "gf x \<in> {1..?N}" if "x \<in> {1..k}" for x using at that unfolding groups_at_def by blast
  have vv: "var_val q k gf b = var_val p k gf (class_val R S ?F (pp_color u) b)" for b
    by (rule ext) (use ov img in \<open>auto simp: var_val_def\<close>)
  have "recovers_all Q k gf rg q"
    unfolding recovers_all_def vv qf(6) uf(6)
  proof (intro allI impI conjI)
    fix b assume b: "rows_sat b (pp_rows q)"
    let ?a = "class_val R S ?F (pp_color u) b"
    note m = all [unfolded recovers_all_def, rule_format, OF dec [OF b]]
    show "recovers rg (var_val p k gf ?a)" using m by blast
    fix a assume a: "\<forall>x\<in>{1..k}. a (gf x) \<longleftrightarrow> fold recover_step rg (var_val p k gf ?a) x"
      and a': "\<forall>i\<in>{1..?N}. i \<notin> gf ` {1..k} \<longrightarrow> (a i \<longleftrightarrow> orig_val q b i = 1)"
    have "\<forall>i\<in>{1..?N}. i \<notin> gf ` {1..k} \<longrightarrow> (a i \<longleftrightarrow> orig_val p ?a i = 1)" using a' ov by simp
    then show "Q a" by (rule recovers_allD [OF all dec [OF b] a])
  qed
  then have rq: "recoverable Q q" unfolding recoverable_def using sq atq by blast
  have ex: "\<exists>b. rows_sat b (pp_rows q)" if "rows_sat b (pp_rows p)" for b
  proof -
    have mt: "models t b" using d(8) [of b] pm that by blast
    define c where "c = (\<lambda>w. \<exists>v\<in>U. var_number U v = w \<and> b v)"
    have "\<forall>v\<in>U. b v = c (var_number U v)" using var_number_used_models [OF fin, of _ b] by (simp add: c_def)
    then have "rows_sat c (pp_rows u)" using relabel_models [OF act, folded u_def U_def, of b c] mt by (simp add: models_iff)
    then show ?thesis unfolding rows by blast
  qed
  show ?thesis using q(1) rq ex qf(6) uf(6) by auto
qed

theorem preprocess_binary_contract:
  assumes ok: "int (pp_vars p) < 2 ^ 31" and rec: "recoverable Q p"
  shows "\<exists>r. preprocess_binary p = Some r \<and> (case r of None \<Rightarrow> \<forall>b. \<not> rows_sat b (pp_rows p)
    | Some q \<Rightarrow> recoverable Q q \<and> pp_orivars q = pp_orivars p
        \<and> ((\<exists>b. rows_sat b (pp_rows p)) \<longrightarrow> (\<exists>b. rows_sat b (pp_rows q))))"
proof (cases "int (pp_clauses p) > kMaximumClauses")
  case True
  then show ?thesis using rec by (simp add: preprocess_binary_def)
next
  case False
  have rin: "res_input_ok p" using rec by (simp add: recoverable_def shape_ok_def res_input_ok_def)
  let ?s = "\<lparr>bs_prep = bin_start p, bs_size = (\<lambda>_. 1)\<rparr>" and ?p0 = "bin_start p"
  note i = bin_start_inv [OF rin ok]
  have pm: "models ?p0 b = rows_sat b (pp_rows p)" for b by (rule i(2))
  obtain r where r: "bin_turns kMaximumTurns (False, ?s) = Some r" "case r of
      None \<Rightarrow> \<forall>b. \<not> models ?p0 b
    | Some (ac, t) \<Rightarrow> (\<exists>R S. turn_inv (pp_vars p) ?p0 R S (bs_prep t))
        \<and> (\<not> ac \<longrightarrow> pp_clause (bs_prep t) = pp_clause ?p0 \<and> pp_clause_delete (bs_prep t) = pp_clause_delete ?p0)"
    using bin_turns_ok [of "pp_vars p" ?p0 "\<lambda>v. v" "\<lambda>_. 1" ?s False "pp_clause ?p0" "pp_clause_delete ?p0" kMaximumTurns] i(1)
    by auto
  show ?thesis
  proof (cases r)
    case None
    then show ?thesis using r False pm by (simp add: preprocess_binary_def)
  next
    case (Some x)
    obtain ac s where x: "x = (ac, s)" by fastforce
    obtain R S where inv: "turn_inv (pp_vars p) ?p0 R S (bs_prep s)"
      and same: "\<not> ac \<Longrightarrow> pp_clause (bs_prep s) = pp_clause ?p0 \<and> pp_clause_delete (bs_prep s) = pp_clause_delete ?p0"
      using r(2) unfolding Some x option.case prod.case by blast
    have e: "preprocess_binary p = (if \<not> ac then Some (Some (bs_prep s))
         else (case ofold bin_map_var [1..<Suc (pp_orivars (update_var_clause_label (bs_prep s)))]
                 (update_var_clause_label (bs_prep s)) of None \<Rightarrow> None | Some p \<Rightarrow> Some (Some p)))"
      using False r(1) by (simp add: preprocess_binary_def Some x Let_def del: upt_Suc)
    note bs = bin_start_ok [OF rin]
    note bf = bin_frame_fields [OF bs(1)] and mf = main_fields [OF turn_invD(2) [OF inv]]
    show ?thesis
    proof (cases ac)
      case True
      note c = bin_changed [OF rin refl inv rec]
      show ?thesis using e c True by auto
    next
      case nc: False
      have rows: "pp_rows (bs_prep s) = pp_rows p" using same [OF nc] bf mf by (simp add: pp_rows_def)
      have sh: "shape_ok (bs_prep s)"
        using rin same [OF nc] bf mf bs(2) by (simp add: shape_ok_def res_input_ok_def rows_ok_def)
      have rs: "recoverable Q (bs_prep s)"
        by (rule recoverable_cong [of "bs_prep s" p]) (simp_all add: rows bf mf rec sh)
      have "preprocess_binary p = Some (Some (bs_prep s))" using e nc by simp
      then show ?thesis using rs rows bf(7) mf(7) by (intro exI [of _ "Some (bs_prep s)"]) simp
    qed
  qed
qed

end
