(* ===== verification/Parse_Props.thy ===== *)
theory Parse_Props
  imports Parse Prep_Up_Props
begin

text \<open>
  Properties of the reader and the writer: what is written is read back, when the reader
  returns and when it loops forever, and the agreement of the two writers.
\<close>

section \<open>Numbers\<close>

lemma of_char_of_nat: "n < 256 \<Longrightarrow> of_char (char_of (n :: nat) :: char) = n"
  by (simp add: of_char_of take_bit_eq_mod)

lemma of_char_of_int: "n < 256 \<Longrightarrow> of_char (char_of (n :: nat) :: char) = int n"
  using of_char_of_nat [of n] by (metis of_nat_of_char)

definition no_digit :: "string \<Rightarrow> bool" where
  "no_digit s \<longleftrightarrow> \<not> (48 \<le> cur s \<and> cur s \<le> 57)"

lemma read_digits_stop: "no_digit s \<Longrightarrow> read_digits s i = Some (i, s)"
  by (cases s) (auto simp: no_digit_def cur_def)

lemma read_digit:
  assumes "d < 10" and "i * 10 + 48 + int d \<le> int_max"
  shows "read_digits (char_of (48 + d) # s) i = read_digits s (i * 10 + int d)"
  using assms by (simp add: of_char_of_nat of_char_of_int algebra_simps)

lemma read_digits_show:
  assumes "int n + 48 \<le> int_max"
  shows "read_digits (show_nat n @ s) 0 = read_digits s (int n)"
  using assms
proof (induction n arbitrary: s rule: show_nat.induct)
  case (1 n)
  show ?case
  proof (cases "n < 10")
    case True
    then show ?thesis using 1(2) by (subst show_nat.simps) (simp add: read_digit del: read_digits.simps)
  next
    case False
    have "read_digits (show_nat n @ s) 0 = read_digits (show_nat (n div 10) @ char_of (48 + n mod 10) # s) 0"
      using False by (subst show_nat.simps) simp
    also have "\<dots> = read_digits (char_of (48 + n mod 10) # s) (int (n div 10))"
      using False 1(2) by (intro 1(1)) auto
    also have "\<dots> = read_digits s (int (n div 10) * 10 + int (n mod 10))"
    proof (rule read_digit)
      have "int (n div 10) * 10 + int (n mod 10) = int n" by presburger
      then show "int (n div 10) * 10 + 48 + int (n mod 10) \<le> int_max" using 1(2) by linarith
    qed simp
    also have "int (n div 10) * 10 + int (n mod 10) = int n" by presburger
    finally show ?thesis .
  qed
qed

lemma show_nat_Cons: "\<exists>(d :: nat) s. show_nat n = char_of (48 + d) # s \<and> d < 10"
proof (induction n rule: show_nat.induct)
  case (1 n)
  show ?case
  proof (cases "n < 10")
    case True
    then have "show_nat n = char_of (48 + n) # []" by (subst show_nat.simps) simp
    then show ?thesis using True by blast
  next
    case False
    then obtain d s where "show_nat (n div 10) = char_of (48 + d) # s" "d < (10 :: nat)" using 1 by blast
    then have "show_nat n = char_of (48 + d) # (s @ [char_of (48 + n mod 10)])"
      using False by (subst show_nat.simps) simp
    then show ?thesis using \<open>d < 10\<close> by blast
  qed
qed

lemma cur_show_nat: "48 \<le> cur (show_nat n @ s) \<and> cur (show_nat n @ s) \<le> 57"
  using show_nat_Cons [of n] by (auto simp: cur_def of_char_of_nat)

lemma read_whitespace_id: "\<not> (9 \<le> cur s \<and> cur s \<le> 13) \<and> cur s \<noteq> 32 \<Longrightarrow> read_whitespace s = s"
  by (cases s) (auto simp: cur_def read_whitespace_def is_space_def)

lemma read_whitespace_show [simp]: "read_whitespace (show_int i @ s) = show_int i @ s"
proof (rule read_whitespace_id)
  show "\<not> (9 \<le> cur (show_int i @ s) \<and> cur (show_int i @ s) \<le> 13) \<and> cur (show_int i @ s) \<noteq> 32"
    using cur_show_nat [of "nat i" s] by (auto simp: show_int_def cur_def)
qed

lemma read_whitespace_space: "is_space c \<Longrightarrow> read_whitespace (c # s) = read_whitespace s"
  by (simp add: read_whitespace_def)

definition printable :: "int \<Rightarrow> bool" where
  "printable i \<longleftrightarrow> \<bar>i\<bar> + 48 \<le> int_max"

lemma read_int_show:
  assumes "printable i" and "no_digit s" and "read_whitespace t = show_int i @ s"
  shows "read_int t = Some (i, s)"
proof (cases "i < 0")
  case True
  then have e: "show_int i @ s = CHR ''-'' # (show_nat (nat (- i)) @ s)" by (simp add: show_int_def)
  have "read_digits (show_nat (nat (- i)) @ s) 0 = Some (- i, s)"
    using assms(1,2) True by (subst read_digits_show) (auto simp: printable_def read_digits_stop)
  then show ?thesis unfolding read_int_def assms(3) e by (simp add: cur_def)
next
  case False
  have "read_digits (show_nat (nat i) @ s) 0 = Some (i, s)"
    using assms(1,2) False by (subst read_digits_show) (auto simp: printable_def read_digits_stop)
  moreover have "cur (show_nat (nat i) @ s) \<noteq> 45" using cur_show_nat [of "nat i" s] by auto
  ultimately show ?thesis unfolding read_int_def assms(3) using False by (simp add: show_int_def)
qed

section \<open>Runs of the parser\<close>

lemma parse_run_step:
  assumes "cur (ps_rest st) \<noteq> 0" and "parse_step st = Inr st'"
  shows "parse_run st = parse_run st'"
  using assms unfolding parse_run_def
  by (subst while_option_unfold) (simp add: parse_more_def parse_next_def)

lemma parse_run_stop: "cur (ps_rest st) = 0 \<Longrightarrow> parse_run st = Some (Inr st)"
  unfolding parse_run_def by (subst while_option_unfold) (simp add: parse_more_def)

lemma cur_show_int: "cur (show_int i @ s) \<in> {45} \<union> {48..57}"
  using cur_show_nat [of "nat i" s] by (auto simp: show_int_def cur_def)

lemma cur_nonzero: "cur (read_whitespace s) \<noteq> 0 \<Longrightarrow> cur s \<noteq> 0"
  by (cases s) (auto simp: read_whitespace_def cur_def is_space_def split: if_splits)

lemma show_int_0: "show_int 0 = ''0''"
proof -
  have "char_of (48 :: nat) = CHR ''0''" by code_simp
  then show ?thesis by (simp add: show_int_def show_nat.simps)
qed

lemma parse_lit:
  assumes "printable i" and "i \<noteq> 0" and "cur s = 32" and "read_whitespace (ps_rest st) = show_int i @ s"
    and "\<not> ps_cardinality st"
  shows "parse_run st = parse_run (st\<lparr>ps_rest := s, ps_clause :=
      (ps_clause st)[ps_num_clauses st := ps_clause st ! ps_num_clauses st @ [i]]\<rparr>)"
proof (rule parse_run_step)
  note c = cur_show_int [of i s]
  show "cur (ps_rest st) \<noteq> 0" using cur_nonzero [of "ps_rest st"] assms(4) c by auto
  have "read_int (show_int i @ s) = Some (i, s)"
    by (rule read_int_show [OF assms(1)]) (use assms(3) in \<open>auto simp: no_digit_def\<close>)
  then show "parse_step st = Inr (st\<lparr>ps_rest := s, ps_clause :=
      (ps_clause st)[ps_num_clauses st := ps_clause st ! ps_num_clauses st @ [i]]\<rparr>)"
    using c assms(2,3,5) unfolding parse_step_def assms(4) by (auto simp: parse_number_def Let_def)
qed

definition gap :: "string \<Rightarrow> bool" where
  "gap s \<longleftrightarrow> s = [] \<or> s = '' '' \<or> s = newline"

lemma space_newline: "is_space (char_of (10 :: nat))" "is_space (CHR '' '')"
  by (simp_all add: is_space_def)

lemma read_whitespace_gap: "gap w \<Longrightarrow> read_whitespace (w @ s) = read_whitespace s"
  by (auto simp: gap_def newline_def read_whitespace_space space_newline)

lemma parse_lits:
  assumes "\<forall>l\<in>set row. printable l \<and> l \<noteq> 0" and "\<not> ps_cardinality st"
    and "ps_num_clauses st < length (ps_clause st)" and "ps_rest st = s0 @ concat (map (\<lambda>l. show_int l @ '' '') row) @ s"
    and "gap s0"
  shows "\<exists>s1. parse_run st = parse_run (st\<lparr>ps_rest := s1 @ s, ps_clause :=
      (ps_clause st)[ps_num_clauses st := ps_clause st ! ps_num_clauses st @ row]\<rparr>) \<and> gap s1"
  using assms
proof (induction row arbitrary: st s0)
  case Nil
  have "st\<lparr>ps_rest := s0 @ s, ps_clause := (ps_clause st)[ps_num_clauses st := ps_clause st ! ps_num_clauses st @ []]\<rparr> = st"
    using Nil.prems(4) by (cases st) simp
  then show ?case using Nil.prems(5) by metis
next
  case (Cons l row)
  let ?t = "concat (map (\<lambda>l. show_int l @ '' '') row) @ s"
  have r: "read_whitespace (ps_rest st) = show_int l @ '' '' @ ?t"
    using Cons.prems(4) read_whitespace_gap [OF Cons.prems(5)] by simp
  let ?st = "st\<lparr>ps_rest := '' '' @ ?t, ps_clause := (ps_clause st)[ps_num_clauses st := ps_clause st ! ps_num_clauses st @ [l]]\<rparr>"
  have 1: "parse_run st = parse_run ?st"
    using Cons.prems(1,2) by (intro parse_lit r) (auto simp: cur_def)
  have "\<exists>s1. parse_run ?st = parse_run (?st\<lparr>ps_rest := s1 @ s, ps_clause :=
      (ps_clause ?st)[ps_num_clauses ?st := ps_clause ?st ! ps_num_clauses ?st @ row]\<rparr>) \<and> gap s1"
    by (rule Cons.IH [where ?s0.0 = "'' ''"]) (use Cons.prems(1-3) in \<open>auto simp: gap_def\<close>)
  then show ?case using 1 Cons.prems(3) by (simp del: list_update_overwrite) (simp add: list_update_overwrite)
qed

lemma parse_zero:
  assumes "ps_rest st = s1 @ ''0'' @ newline @ s" and "gap s1"
  shows "parse_run st = parse_run (st\<lparr>ps_rest := newline @ s, ps_num_clauses := ps_num_clauses st + 1,
      ps_clause := ps_clause st @ [[]]\<rparr>)"
proof (rule parse_run_step)
  have w: "read_whitespace (ps_rest st) = show_int 0 @ newline @ s"
    using read_whitespace_gap [OF assms(2)] by (simp add: assms(1) show_int_0 read_whitespace_def is_space_def)
  then show "cur (ps_rest st) \<noteq> 0"
    using cur_nonzero [of "ps_rest st"] cur_show_int [of 0 "newline @ s"] by auto
  have n: "cur (newline @ s) = 10" by (simp add: newline_def cur_def of_char_of_nat)
  have "read_int (show_int 0 @ newline @ s) = Some (0, newline @ s)"
    by (rule read_int_show) (simp_all add: printable_def int_max_def no_digit_def n)
  then show "parse_step st = Inr (st\<lparr>ps_rest := newline @ s, ps_num_clauses := ps_num_clauses st + 1,
      ps_clause := ps_clause st @ [[]]\<rparr>)"
    using cur_show_int [of 0 "newline @ s"] n unfolding parse_step_def w by (auto simp: parse_number_def Let_def)
qed


lemma parse_k:
  assumes "ps_rest st = w @ ''k '' @ show_int d @ '' '' @ s" and "gap w" and "printable d" "0 < d"
    and "ps_num_clauses st < length (ps_degree st)"
  shows "parse_run st = parse_run (st\<lparr>ps_rest := '' '' @ s, ps_cardinality := False,
      ps_degree := (ps_degree st)[ps_num_clauses st := d]\<rparr>)"
proof -
  let ?t = "'' '' @ show_int d @ '' '' @ s"
  have w: "read_whitespace (ps_rest st) = CHR ''k'' # ?t"
    using read_whitespace_gap [OF assms(2)] by (simp add: assms(1) read_whitespace_def is_space_def)
  have k: "cur (CHR ''k'' # ?t) = 107" by (simp add: cur_def)
  have 1: "parse_run st = parse_run (st\<lparr>ps_cardinality := True, ps_rest := ?t\<rparr>)"
  proof (rule parse_run_step)
    show "cur (ps_rest st) \<noteq> 0" using cur_nonzero [of "ps_rest st"] k w by auto
    show "parse_step st = Inr (st\<lparr>ps_cardinality := True, ps_rest := ?t\<rparr>)"
      unfolding parse_step_def w using k by (simp add: Let_def)
  qed
  have w2: "read_whitespace ?t = show_int d @ '' '' @ s"
    by (simp add: read_whitespace_space is_space_def)
  have "read_int (show_int d @ '' '' @ s) = Some (d, '' '' @ s)"
    by (rule read_int_show [OF assms(3)]) (simp_all add: no_digit_def cur_def)
  then have "parse_step (st\<lparr>ps_cardinality := True, ps_rest := ?t\<rparr>) = Inr (st\<lparr>ps_rest := '' '' @ s, ps_cardinality := False,
      ps_degree := (ps_degree st)[ps_num_clauses st := d]\<rparr>)"
    using cur_show_int [of d "'' '' @ s"] w2 assms(4,5)
    unfolding parse_step_def by (auto simp: parse_number_def Let_def cur_def)
  then have "parse_run (st\<lparr>ps_cardinality := True, ps_rest := ?t\<rparr>) = parse_run (st\<lparr>ps_rest := '' '' @ s, ps_cardinality := False,
      ps_degree := (ps_degree st)[ps_num_clauses st := d]\<rparr>)"
    by (intro parse_run_step) (simp_all add: cur_def)
  then show ?thesis using 1 by simp
qed

text \<open>One written row is read back; the state is given by its parts.\<close>

definition at_row :: "string \<Rightarrow> int list list \<Rightarrow> int list \<Rightarrow> parser \<Rightarrow> parser" where
  "at_row s C D st = st\<lparr>ps_rest := s, ps_num_clauses := length C, ps_cardinality := False,
     ps_clause := C @ [[]], ps_degree := D\<rparr>"

definition written_degree :: "int \<Rightarrow> int" where
  "written_degree d = (if d > 1 then d else 0)"

lemma parse_row:
  assumes row: "\<forall>l\<in>set row. printable l \<and> l \<noteq> 0" and d: "printable d" and w: "gap w"
    and D: "length D = length C"
  shows "parse_run (at_row (w @ write_row row d @ s) C (D @ 0 # ds) st)
    = parse_run (at_row (newline @ s) (C @ [row]) (D @ written_degree d # ds) st)"
proof -
  let ?L = "concat (map (\<lambda>l. show_int l @ '' '') row)"
  obtain w' where k: "gap w'" "parse_run (at_row (w @ write_row row d @ s) C (D @ 0 # ds) st)
      = parse_run (at_row (w' @ ?L @ ''0'' @ newline @ s) C (D @ written_degree d # ds) st)"
  proof (cases "d > 1")
    case True
    let ?st = "at_row (w @ write_row row d @ s) C (D @ 0 # ds) st"
    have "ps_rest ?st = w @ ''k '' @ show_int d @ '' '' @ ?L @ ''0'' @ newline @ s"
      using True by (simp add: at_row_def write_row_def)
    moreover have "ps_num_clauses ?st < length (ps_degree ?st)" using D by (simp add: at_row_def)
    ultimately have "parse_run ?st = parse_run (?st\<lparr>ps_rest := '' '' @ ?L @ ''0'' @ newline @ s, ps_cardinality := False,
      ps_degree := (ps_degree ?st)[ps_num_clauses ?st := d]\<rparr>)"
      using True w d by (intro parse_k) auto
    also have "?st\<lparr>ps_rest := '' '' @ ?L @ ''0'' @ newline @ s, ps_cardinality := False,
      ps_degree := (ps_degree ?st)[ps_num_clauses ?st := d]\<rparr>
        = at_row ('' '' @ ?L @ ''0'' @ newline @ s) C (D @ written_degree d # ds) st"
      using True D by (simp add: at_row_def written_degree_def list_update_append)
    finally show ?thesis using that [of "'' ''"] by (simp add: gap_def)
  next
    case False
    then show ?thesis using that [OF w] by (simp add: write_row_def written_degree_def)
  qed
  let ?st = "at_row (w' @ ?L @ ''0'' @ newline @ s) C (D @ written_degree d # ds) st"
  obtain s1 where s1: "parse_run ?st = parse_run (?st\<lparr>ps_rest := s1 @ ''0'' @ newline @ s, ps_clause :=
      (ps_clause ?st)[ps_num_clauses ?st := ps_clause ?st ! ps_num_clauses ?st @ row]\<rparr>)" "gap s1"
    using parse_lits [OF row, of ?st w' "''0'' @ newline @ s"] k(1) by (auto simp: at_row_def)
  let ?st2 = "?st\<lparr>ps_rest := s1 @ ''0'' @ newline @ s, ps_clause :=
      (ps_clause ?st)[ps_num_clauses ?st := ps_clause ?st ! ps_num_clauses ?st @ row]\<rparr>"
  have "parse_run ?st2 = parse_run (?st2\<lparr>ps_rest := newline @ s, ps_num_clauses := ps_num_clauses ?st2 + 1,
      ps_clause := ps_clause ?st2 @ [[]]\<rparr>)"
    by (rule parse_zero [OF _ s1(2)]) simp
  also have "?st2\<lparr>ps_rest := newline @ s, ps_num_clauses := ps_num_clauses ?st2 + 1,
      ps_clause := ps_clause ?st2 @ [[]]\<rparr> = at_row (newline @ s) (C @ [row]) (D @ written_degree d # ds) st"
    by (simp add: at_row_def)
  finally show ?thesis using k(2) s1(1) by simp
qed

lemma parse_rows:
  assumes "\<forall>(row, d)\<in>set rows. (\<forall>l\<in>set row. printable l \<and> l \<noteq> 0) \<and> printable d" and "gap w"
    and "length D = length C"
  shows "\<exists>w'. gap w' \<and> parse_run (at_row (w @ concat (map (\<lambda>(row, d). write_row row d) rows) @ s) C (D @ replicate (length rows) 0 @ ds) st)
    = parse_run (at_row (w' @ s) (C @ map fst rows) (D @ map (written_degree \<circ> snd) rows @ ds) st)"
  using assms
proof (induction rows arbitrary: w C D)
  case Nil
  then show ?case by auto
next
  case (Cons r rows)
  obtain row d where r: "r = (row, d)" by fastforce
  have 1: "\<forall>l\<in>set row. printable l \<and> l \<noteq> 0" "printable d" using Cons.prems(1) by (auto simp: r)
  note step = parse_row [OF 1 Cons.prems(2,3), of "concat (map (\<lambda>(row, d). write_row row d) rows) @ s"
      "replicate (length rows) 0 @ ds" st]
  have "\<exists>w'. gap w' \<and> parse_run (at_row (newline @ concat (map (\<lambda>(row, d). write_row row d) rows) @ s) (C @ [row])
        ((D @ [written_degree d]) @ replicate (length rows) 0 @ ds) st)
    = parse_run (at_row (w' @ s) ((C @ [row]) @ map fst rows) ((D @ [written_degree d]) @ map (written_degree \<circ> snd) rows @ ds) st)"
    using Cons.prems by (intro Cons.IH) (auto simp: gap_def)
  then show ?case using step by (simp add: r o_def)
qed

lemma parse_end:
  assumes "ps_rest st = w" and "gap w"
  shows "parse_run st = Some (Inr (st\<lparr>ps_rest := []\<rparr>))"
proof (cases "w = []")
  case True
  have "st\<lparr>ps_rest := []\<rparr> = st" using assms True by (cases st) simp
  moreover have "cur (ps_rest st) = 0" using assms True by (simp add: cur_def)
  ultimately show ?thesis by (simp add: parse_run_stop)
next
  case False
  have w: "read_whitespace (ps_rest st) = []" using read_whitespace_gap [OF assms(2), of "[]"] assms(1)
    by (simp add: read_whitespace_def)
  have "cur (ps_rest st) \<noteq> 0" using assms False by (auto simp: gap_def cur_def newline_def)
  then have "parse_run st = parse_run (st\<lparr>ps_rest := []\<rparr>)"
    by (rule parse_run_step) (simp add: parse_step_def w cur_def)
  then show ?thesis by (simp add: parse_run_stop cur_def)
qed


section \<open>The whole file\<close>

definition writable :: "preproc \<Rightarrow> bool" where
  "writable p \<longleftrightarrow> printable (int (pp_vars p)) \<and> printable (int (pp_clauses p))
     \<and> (\<forall>(row, d)\<in>set (pp_rows p). 1 \<le> d \<and> printable d \<and> (\<forall>l\<in>set row. l \<noteq> 0 \<and> printable l))"

lemma write_to_file_rows:
  "write_to_file p = write_header (pp_vars p) (pp_clauses p) @ concat (map (\<lambda>(row, d). write_row row d) (pp_rows p))"
  by (simp add: write_to_file_def pp_rows_def o_def del: upt_Suc)

lemma parse_header_ok:
  assumes "printable (int v)" and "printable (int c)"
  shows "parse_run (parse_start i j [] [] (write_header v c @ s))
    = parse_run (at_row (newline @ s) [[]] (0 # replicate c 0) (parse_start (int v) (int c) [] [] s))"
proof (rule parse_run_step)
  let ?st = "parse_start i j [] [] (write_header v c @ s)"
  let ?t = "show_nat v @ '' '' @ show_nat c @ newline @ s"
  have r: "ps_rest ?st = ''p knf '' @ ?t" by (simp add: parse_start_def write_header_def)
  then show "cur (ps_rest ?st) \<noteq> 0" by (simp add: cur_def)
  have w: "read_whitespace (ps_rest ?st) = ''p knf '' @ ?t" unfolding r by (simp add: read_whitespace_def is_space_def)
  have sh: "show_nat n = show_int (int n)" for n by (simp add: show_int_def)
  have 1: "read_int (CHR '' '' # ?t) = Some (int v, '' '' @ show_nat c @ newline @ s)"
    by (rule read_int_show [OF assms(1)])
       (simp_all add: no_digit_def cur_def sh read_whitespace_space is_space_def del: show_int_def)
  have n: "cur (newline @ s) = 10" by (simp add: newline_def cur_def of_char_of_nat)
  have 2: "read_int ('' '' @ show_nat c @ newline @ s) = Some (int c, newline @ s)"
    by (rule read_int_show [OF assms(2)])
       (simp_all add: no_digit_def n sh read_whitespace_space is_space_def)
  have "\<not> int c + 1 > int_max" using assms(2) by (simp add: printable_def)
  moreover have "nat (1 + int c) = Suc c" by simp
  ultimately show "parse_step ?st = Inr (at_row (newline @ s) [[]] (0 # replicate c 0) (parse_start (int v) (int c) [] [] s))"
    unfolding parse_step_def w
    by (simp add: cur_def parse_header_def 1 [simplified] 2 [simplified] at_row_def parse_start_def grow_to_def algebra_simps)
qed

lemma readfile_written:
  assumes "writable p"
  shows "readfile (write_to_file p) i j [] [] = Some (Inr (at_row [] ([] # map fst (pp_rows p))
      (0 # map (written_degree \<circ> snd) (pp_rows p)) (parse_start (int (pp_vars p)) (int (pp_clauses p)) [] [] [])))"
proof -
  let ?R = "concat (map (\<lambda>(row, d). write_row row d) (pp_rows p))"
  let ?st = "parse_start (int (pp_vars p)) (int (pp_clauses p)) [] []"
  have len: "length (pp_rows p) = pp_clauses p" by (simp add: pp_rows_def del: upt_Suc)
  have pr: "printable (int (pp_vars p))" "printable (int (pp_clauses p))" using assms by (simp_all add: writable_def)
  have "\<forall>(row, d)\<in>set (pp_rows p). (\<forall>l\<in>set row. printable l \<and> l \<noteq> 0) \<and> printable d"
    using assms by (auto simp: writable_def)
  from parse_rows [OF this, of newline "[0]" "[[]]" "[]" "[]" "?st ?R"]
  obtain w' where w': "gap w'" "parse_run (at_row (newline @ ?R) [[]] ([0] @ replicate (length (pp_rows p)) 0) (?st ?R))
      = parse_run (at_row w' ([[]] @ map fst (pp_rows p)) ([0] @ map (written_degree \<circ> snd) (pp_rows p)) (?st ?R))"
    by (auto simp: gap_def)
  then have "parse_run (parse_start i j [] [] (write_to_file p))
      = parse_run (at_row w' ([] # map fst (pp_rows p)) (0 # map (written_degree \<circ> snd) (pp_rows p)) (?st ?R))"
    unfolding write_to_file_rows parse_header_ok [OF pr] by (simp add: len)
  also have "\<dots> = Some (Inr ((at_row w' ([] # map fst (pp_rows p)) (0 # map (written_degree \<circ> snd) (pp_rows p)) (?st ?R))\<lparr>ps_rest := []\<rparr>))"
    by (rule parse_end [OF _ w'(1)]) (simp add: at_row_def)
  also have "(at_row w' ([] # map fst (pp_rows p)) (0 # map (written_degree \<circ> snd) (pp_rows p)) (?st ?R))\<lparr>ps_rest := []\<rparr>
      = at_row [] ([] # map fst (pp_rows p)) (0 # map (written_degree \<circ> snd) (pp_rows p)) (?st [])"
    by (simp add: at_row_def parse_start_def)
  finally show ?thesis by (simp add: readfile_def at_row_def parse_start_def len)
qed

lemma default_degree_step:
  "init_frame p (default_degree i p) \<and> pp_degree (default_degree i p) = (if pp_deg p i = 0 then (pp_degree p)[i := 1] else pp_degree p)"
  by (simp add: default_degree_def Let_def init_frame_def)

lemma fold_default_degree:
  assumes "n < length (pp_degree p)"
  shows "init_frame p (fold default_degree [1..<Suc n] p)
    \<and> (\<forall>i<length (pp_degree p). pp_deg (fold default_degree [1..<Suc n] p) i
         = (if i \<in> {1..n} \<and> pp_deg p i = 0 then 1 else pp_deg p i))"
  using assms
proof (induction n)
  case 0
  then show ?case by (simp add: init_frame_def)
next
  case (Suc n)
  define r where "r = fold default_degree [1..<Suc n] p"
  have IH: "init_frame p r" "\<forall>i<length (pp_degree p). pp_deg r i = (if i \<in> {1..n} \<and> pp_deg p i = 0 then 1 else pp_deg p i)"
    using Suc by (simp_all add: r_def)
  have e: "fold default_degree [1..<Suc (Suc n)] p = default_degree (Suc n) r" by (simp add: r_def)
  have "length (pp_degree r) = length (pp_degree p)" using IH(1) by (simp add: init_frame_def)
  moreover have "pp_deg r (Suc n) = pp_deg p (Suc n)" using IH(2) Suc.prems by simp
  ultimately show ?case
    using default_degree_step [of r "Suc n"] IH Suc.prems unfolding e
    by (auto simp: init_frame_def nth_list_update le_Suc_eq)
qed


lemma pp_rows_nth: "i \<in> {1..pp_clauses p} \<Longrightarrow> pp_rows p ! (i - 1) = (pp_row p i, pp_deg p i)"
  by (cases i) (simp_all add: pp_rows_def del: upt_Suc)

section \<open>Returning and not returning\<close>

text \<open>A character no token can start with.\<close>

definition alien :: "nat \<Rightarrow> bool" where
  "alien c \<longleftrightarrow> \<not> (9 \<le> c \<and> c \<le> 13 \<or> c = 32) \<and> \<not> (48 \<le> c \<and> c \<le> 57) \<and> c \<notin> {0, 45, 99, 107, 112}"

lemma cur_whitespace: "cur (read_whitespace s) = 0 \<or> \<not> (9 \<le> cur (read_whitespace s) \<and> cur (read_whitespace s) \<le> 13
    \<or> cur (read_whitespace s) = 32)"
proof (cases "read_whitespace s")
  case Nil
  then show ?thesis by (simp add: cur_def)
next
  case (Cons c t)
  then have "\<not> is_space c" unfolding read_whitespace_def by (metis dropWhile_eq_Cons_conv)
  then show ?thesis unfolding Cons by (simp add: cur_def is_space_def)
qed

lemma alien_step:
  assumes "alien (cur (read_whitespace (ps_rest st)))"
  shows "parse_step st = Inr (st\<lparr>ps_rest := read_whitespace (ps_rest st),
      ps_num_clauses := ps_num_clauses st + 1, ps_clause := ps_clause st @ [[]]\<rparr>)"
proof -
  let ?s = "read_whitespace (ps_rest st)"
  have w: "read_whitespace ?s = ?s" using assms by (intro read_whitespace_id) (auto simp: alien_def)
  have "read_int ?s = Some (0, ?s)"
    using assms read_digits_stop [of ?s 0] unfolding read_int_def w by (auto simp: alien_def no_digit_def)
  then show ?thesis using assms by (simp add: parse_step_def alien_def parse_number_def Let_def)
qed

lemma alien_run:
  assumes "alien (cur (read_whitespace (ps_rest st)))"
  shows "parse_run st = None"
proof (rule ccontr)
  assume "parse_run st \<noteq> None"
  then obtain r where r: "while_option parse_more parse_next (Inr st) = Some r"
    by (auto simp: parse_run_def)
  let ?P = "\<lambda>r. case r of Inl _ \<Rightarrow> False | Inr st \<Rightarrow> alien (cur (read_whitespace (ps_rest st)))"
  have "?P r"
  proof (rule while_option_rule [where P = ?P, OF _ r])
    fix s :: "stop + parser" assume "?P s" "parse_more s"
    then obtain t where t: "s = Inr t" "alien (cur (read_whitespace (ps_rest t)))" by (cases s) auto
    have "read_whitespace (read_whitespace (ps_rest t)) = read_whitespace (ps_rest t)"
      using t(2) by (intro read_whitespace_id) (auto simp: alien_def)
    then show "?P (parse_next s)" using t by (simp add: parse_next_def alien_step)
  next
    show "?P (Inr st)" using assms by simp
  qed
  then obtain t where t: "r = Inr t" "alien (cur (read_whitespace (ps_rest t)))" by (cases r) auto
  have "cur (ps_rest t) \<noteq> 0" using cur_nonzero [of "ps_rest t"] t(2) by (auto simp: alien_def)
  moreover have "\<not> parse_more r" by (rule while_option_stop [OF r])
  ultimately show False by (simp add: t(1) parse_more_def)
qed

text \<open>The rounds from a state whose next token is alien, and the same state reached from another one.\<close>

lemma alien_steps:
  assumes "alien (cur (read_whitespace (ps_rest st)))"
  shows "(parse_next ^^ Suc m) (Inr st) = Inr (st\<lparr>ps_rest := read_whitespace (ps_rest st),
      ps_num_clauses := ps_num_clauses st + Suc m, ps_clause := ps_clause st @ replicate (Suc m) []\<rparr>)"
proof (induction m)
  case 0
  then show ?case by (simp add: parse_next_def alien_step [OF assms])
next
  case (Suc m)
  let ?s = "read_whitespace (ps_rest st)"
  have w: "read_whitespace ?s = ?s" using assms by (intro read_whitespace_id) (auto simp: alien_def)
  have e: "(parse_next ^^ Suc (Suc m)) (Inr st) = parse_next ((parse_next ^^ Suc m) (Inr st))" by simp
  show ?case unfolding e Suc.IH using assms
    by (simp add: parse_next_def alien_step w replicate_append_same [symmetric])
qed

definition parse_ended :: "stop + parser \<Rightarrow> bool" where
  "parse_ended r \<longleftrightarrow> (case r of Inl _ \<Rightarrow> True | Inr st \<Rightarrow> cur (ps_rest st) = 0)"

lemma parse_ended_step: "parse_ended r \<Longrightarrow> parse_ended (parse_next r)"
proof (cases r)
  case (Inr st)
  assume "parse_ended r"
  then have z: "cur (ps_rest st) = 0" using Inr by (simp add: parse_ended_def)
  then have "read_whitespace (ps_rest st) = ps_rest st" by (intro read_whitespace_id) simp_all
  then show ?thesis using z Inr by (simp add: parse_ended_def parse_next_def parse_step_def)
qed (simp add: parse_ended_def parse_next_def)

lemma alien_reached:
  assumes "(parse_next ^^ n) (Inr s) = Inr st" and "alien (cur (read_whitespace (ps_rest st)))"
  shows "parse_run s = None"
  using assms
proof (induction n arbitrary: s)
  case 0
  then show ?case by (simp add: alien_run)
next
  case (Suc n)
  have it: "(parse_next ^^ n) (parse_next (Inr s)) = Inr st" using Suc.prems(1) by (simp add: funpow_swap1)
  have "\<not> parse_ended (Inr s)"
  proof
    assume "parse_ended (Inr s)"
    then have "parse_ended ((parse_next ^^ k) (Inr s))" for k
      by (induction k) (simp_all add: parse_ended_step)
    from this [of "Suc n"] have "cur (ps_rest st) = 0" using Suc.prems(1) by (simp add: parse_ended_def)
    then have "read_whitespace (ps_rest st) = ps_rest st" by (intro read_whitespace_id) simp_all
    then show False using Suc.prems(2) \<open>cur (ps_rest st) = 0\<close> by (simp add: alien_def)
  qed
  then have more: "parse_more (Inr s)" by (simp add: parse_ended_def parse_more_def)
  show ?case
  proof (cases "parse_next (Inr s)")
    case (Inl e)
    have "(parse_next ^^ k) (Inl e) = Inl e" for k by (induction k) (simp_all add: parse_next_def)
    then show ?thesis using it Inl by simp
  next
    case (Inr s')
    then show ?thesis using Suc.IH [of s'] it Suc.prems(2) more
      by (simp add: parse_run_def while_option_unfold [of parse_more parse_next "Inr s"])
  qed
qed

text \<open>The text is lexed when every alien character stands in a comment or in the five characters
  skipped for a header line.\<close>

lemma read_until_length: "read_until_new_line s = Some t \<Longrightarrow> length t < length s"
  by (induction s rule: read_until_new_line.induct) (auto split: if_splits)

function lexed :: "string \<Rightarrow> bool" where
  "lexed [] = True"
| "lexed (c # s) =
     (if (of_char c :: nat) = 0 then True
      else if (of_char c :: nat) = 99 then (case read_until_new_line s of None \<Rightarrow> True | Some t \<Rightarrow> lexed t)
      else if (of_char c :: nat) = 112 then lexed (drop 4 s)
      else \<not> alien (of_char c) \<and> lexed s)"
  by pat_completeness auto
termination by (relation "measure length") (auto dest: read_until_length)

definition numeric :: "char \<Rightarrow> bool" where
  "numeric c \<longleftrightarrow> is_space c \<or> 48 \<le> (of_char c :: nat) \<and> (of_char c :: nat) \<le> 57 \<or> (of_char c :: nat) = 45"

definition consumes :: "string \<Rightarrow> string \<Rightarrow> bool" where
  "consumes s t \<longleftrightarrow> (\<exists>u. s = u @ t \<and> (\<forall>c\<in>set u. numeric c))"

lemma consumes_refl: "consumes s s"
  by (auto simp: consumes_def)

lemma consumes_Cons: "consumes s t \<Longrightarrow> numeric c \<Longrightarrow> consumes (c # s) t"
  unfolding consumes_def by (metis append_Cons set_ConsD)

lemma consumes_trans: "consumes s t \<Longrightarrow> consumes t u \<Longrightarrow> consumes s u"
  unfolding consumes_def by (metis Un_iff append.assoc set_append)

lemma consumes_length: "consumes s t \<Longrightarrow> length t \<le> length s"
  by (auto simp: consumes_def)

lemma numeric_lexed: "numeric c \<Longrightarrow> lexed (c # s) \<Longrightarrow> lexed s"
  by (auto simp: numeric_def is_space_def split: if_splits)

lemma consumes_lexed: "consumes s t \<Longrightarrow> lexed s \<Longrightarrow> lexed t"
proof -
  assume "consumes s t" and l: "lexed s"
  then obtain u where "s = u @ t" "\<forall>c\<in>set u. numeric c" by (auto simp: consumes_def)
  then show "lexed t" using l
  proof (induction u arbitrary: s)
    case (Cons c u)
    have "lexed (c # (u @ t))" using Cons.prems(1,3) by (simp only: append_Cons)
    moreover have "numeric c" using Cons.prems(2) by simp
    ultimately have "lexed (u @ t)" by (rule numeric_lexed [rotated])
    moreover have "\<forall>c\<in>set u. numeric c" using Cons.prems(2) by simp
    ultimately show ?case using Cons.IH by blast
  qed simp
qed

lemma consumes_digits: "read_digits s i = Some (j, t) \<Longrightarrow> consumes s t"
proof (induction s arbitrary: i)
  case (Cons c s)
  then show ?case by (auto split: if_splits intro: consumes_Cons consumes_refl simp: numeric_def)
qed (simp add: consumes_refl)

lemma consumes_whitespace: "consumes s (read_whitespace s)"
  unfolding read_whitespace_def
  by (induction s) (auto intro: consumes_Cons consumes_refl simp: numeric_def)

lemma consumes_minus: "cur s = 45 \<Longrightarrow> consumes s (tl s)"
  by (cases s) (auto intro!: consumes_Cons consumes_refl simp: cur_def numeric_def)

lemma read_digits_less:
  "read_digits s i = Some (j, t) \<Longrightarrow> 48 \<le> cur s \<Longrightarrow> cur s \<le> 57 \<Longrightarrow> length t < length s"
proof (cases s)
  case (Cons c s')
  assume "read_digits s i = Some (j, t)" "48 \<le> cur s" "cur s \<le> 57"
  then show ?thesis using consumes_length [OF consumes_digits] by (auto simp: Cons cur_def less_Suc_eq_le split: if_splits)
qed (simp add: cur_def)

lemma read_int_consumes:
  assumes "read_int s = Some (i, t)"
  shows "consumes s t"
    and "read_whitespace s = s \<Longrightarrow> 48 \<le> cur s \<and> cur s \<le> 57 \<or> cur s = 45 \<Longrightarrow> length t < length s"
proof -
  let ?w = "read_whitespace s" let ?v = "if cur ?w \<noteq> 45 then ?w else tl ?w"
  obtain j where j: "read_digits ?v 0 = Some (j, t)"
    using assms by (auto simp: read_int_def Let_def split: option.splits prod.splits if_splits)
  have v: "consumes ?w ?v" using consumes_minus consumes_refl by auto
  then show "consumes s t" using consumes_trans consumes_whitespace consumes_digits [OF j] by blast
  assume w: "read_whitespace s = s" and c: "48 \<le> cur s \<and> cur s \<le> 57 \<or> cur s = 45"
  show "length t < length s"
  proof (cases "cur s = 45")
    case True
    then have "s \<noteq> []" "length t \<le> length (tl s)"
      using consumes_length [OF consumes_digits [OF j]] by (auto simp: w cur_def)
    then show ?thesis by (cases s) auto
  next
    case False
    then show ?thesis using read_digits_less [OF j] c by (simp add: w)
  qed
qed

definition rest_size :: "stop + parser \<Rightarrow> nat" where
  "rest_size r = (case r of Inl _ \<Rightarrow> 0 | Inr st \<Rightarrow> if cur (ps_rest st) = 0 then 0 else Suc (length (ps_rest st)))"

definition lexed_state :: "stop + parser \<Rightarrow> bool" where
  "lexed_state r = (case r of Inl _ \<Rightarrow> True | Inr st \<Rightarrow> lexed (ps_rest st))"

lemma rest_size_less:
  "length (ps_rest t) < length (ps_rest st) \<Longrightarrow> cur (ps_rest st) \<noteq> 0 \<Longrightarrow> rest_size (Inr t) < rest_size (Inr st)"
  by (simp add: rest_size_def)

lemma parse_header_rest:
  assumes "parse_header s st = Inr t"
  shows "consumes (drop 5 s) (ps_rest t)" and "length (ps_rest t) < length s"
proof -
  from assms obtain v s1 c where 1: "5 \<le> length s" "read_int (drop 5 s) = Some (v, s1)" "read_int s1 = Some (c, ps_rest t)"
    by (auto simp: parse_header_def split: if_splits option.splits)
  show "consumes (drop 5 s) (ps_rest t)"
    using consumes_trans read_int_consumes(1) [OF 1(2)] read_int_consumes(1) [OF 1(3)] by blast
  from consumes_length [OF this] show "length (ps_rest t) < length s" using 1(1) by simp
qed

lemma parse_number_rest:
  assumes "parse_number s st = Inr t"
  shows "\<exists>i. read_int s = Some (i, ps_rest t)"
  using assms by (auto simp: parse_number_def Let_def split: option.splits if_splits)

lemma cur_Cons: "cur s \<noteq> 0 \<Longrightarrow> \<exists>c t. s = c # t \<and> of_char c = cur s"
  by (cases s) (auto simp: cur_def)

lemma lexed_token:
  assumes "parse_step st = Inr t" and l: "lexed (read_whitespace (ps_rest st))" and nz: "cur (read_whitespace (ps_rest st)) \<noteq> 0"
  shows "lexed (ps_rest t) \<and> length (ps_rest t) < length (read_whitespace (ps_rest st))"
proof -
  let ?s = "read_whitespace (ps_rest st)"
  obtain c s' where c: "?s = c # s'" "of_char c = cur ?s" using cur_Cons [OF nz] by blast
  have ws: "read_whitespace ?s = ?s" by (simp add: read_whitespace_def)
  consider "cur ?s = 99" | "cur ?s = 112" | "cur ?s = 107" | "cur ?s \<notin> {99, 107, 112}" by auto
  then show ?thesis
  proof cases
    case 1
    then have r: "read_until_new_line ?s = Some (ps_rest t)"
      using assms(1) by (auto simp: parse_step_def Let_def split: option.splits)
    then have "read_until_new_line s' = Some (ps_rest t)" using 1 c by simp
    then show ?thesis using l 1 c read_until_length [OF r] by simp
  next
    case 2
    then have "parse_header ?s st = Inr t" using assms(1) by (simp add: parse_step_def Let_def)
    note p = parse_header_rest [OF this]
    have "lexed (drop 5 ?s)" using l 2 c by simp
    then show ?thesis using consumes_lexed [OF p(1)] p(2) by simp
  next
    case 3
    then have "ps_rest t = s'" using assms(1) c(1) by (auto simp: parse_step_def Let_def)
    then show ?thesis using l 3 c by simp
  next
    case 4
    then have "\<not> alien (cur ?s)" using l nz c by simp
    then have k: "48 \<le> cur ?s \<and> cur ?s \<le> 57 \<or> cur ?s = 45"
      using 4 nz cur_whitespace [of "ps_rest st"] by (auto simp: alien_def)
    have "parse_number ?s st = Inr t" using assms(1) 4 nz by (auto simp: parse_step_def Let_def)
    then obtain i where "read_int ?s = Some (i, ps_rest t)" using parse_number_rest by blast
    note r = read_int_consumes [OF this]
    show ?thesis using consumes_lexed [OF r(1) l] r(2) [OF ws k] by blast
  qed
qed

lemma lexed_step:
  assumes "lexed (ps_rest st)" and "cur (ps_rest st) \<noteq> 0"
  shows "lexed_state (parse_step st) \<and> rest_size (parse_step st) < rest_size (Inr st)"
proof (cases "parse_step st")
  case (Inl e)
  then show ?thesis using assms(2) by (simp add: lexed_state_def rest_size_def)
next
  case (Inr t)
  let ?s = "read_whitespace (ps_rest st)"
  have l: "lexed ?s" by (rule consumes_lexed [OF consumes_whitespace assms(1)])
  show ?thesis
  proof (cases "cur ?s = 0")
    case True
    then have "parse_step st = Inr (st\<lparr>ps_rest := ?s\<rparr>)" by (simp add: parse_step_def Let_def)
    then show ?thesis using True l assms(2) by (simp add: lexed_state_def rest_size_def)
  next
    case False
    note t = lexed_token [OF Inr l False]
    have "length (ps_rest t) < length (ps_rest st)"
      using t consumes_length [OF consumes_whitespace, of "ps_rest st"] by simp
    then show ?thesis using t Inr rest_size_less [of t st] assms(2) by (simp add: lexed_state_def)
  qed
qed

lemma lexed_run:
  assumes "lexed (ps_rest st)"
  shows "parse_run st \<noteq> None"
proof -
  have "\<exists>t. while_option parse_more parse_next (Inr st) = Some t"
  proof (rule measure_while_option_Some [where P = lexed_state and f = rest_size])
    fix s assume s: "lexed_state s" "parse_more s"
    then obtain t where "s = Inr t" "lexed (ps_rest t)" "cur (ps_rest t) \<noteq> 0"
      by (auto simp: parse_more_def lexed_state_def split: sum.splits)
    then show "lexed_state (parse_next s) \<and> rest_size (parse_next s) < rest_size s"
      using lexed_step by (simp add: parse_next_def)
  qed (use assms in \<open>simp add: lexed_state_def\<close>)
  then show ?thesis by (simp add: parse_run_def)
qed


lemma written_read_back:
  assumes "writable p"
  shows "\<exists>p'. read_file (write_to_file p) q = Some (Inr p') \<and> pp_vars p' = pp_vars p \<and> pp_clauses p' = pp_clauses p
    \<and> pp_rows p' = pp_rows p \<and> pp_orivars p' = pp_vars p \<and> pp_clauses p' < length (pp_clause p')
    \<and> pp_clauses p' < length (pp_degree p')"
proof -
  let ?q = "clear_problem q" and ?R = "pp_rows p"
  have len: "length ?R = pp_clauses p" by (simp add: pp_rows_def del: upt_Suc)
  define p1 where "p1 = ?q\<lparr>pp_vars := pp_vars p, pp_clauses := pp_clauses p, pp_clause := [[]] @ map fst ?R @ [[]],
      pp_degree := 0 # map (written_degree \<circ> snd) ?R, pp_orivars := pp_vars p, pp_oriclauses := pp_clauses p\<rparr>"
  define p' where "p' = fold default_degree [1..<Suc (pp_clauses p1)] p1"
  have q0: "pp_vars ?q = 0" "pp_clauses ?q = 0" "pp_clause ?q = []" "pp_degree ?q = []" by (simp_all add: clear_problem_def)
  have rf: "read_file (write_to_file p) q = Some (Inr p')"
    unfolding read_file_def Let_def q0 readfile_written [OF assms]
    by (simp add: at_row_def parse_start_def p'_def p1_def len del: upt_Suc)
  have f: "init_frame p1 p'" "\<forall>i<length (pp_degree p1). pp_deg p' i = (if i \<in> {1..pp_clauses p1} \<and> pp_deg p1 i = 0 then 1 else pp_deg p1 i)"
    using fold_default_degree [of "pp_clauses p1" p1] by (simp_all add: p'_def p1_def len)
  have g: "pp_vars p' = pp_vars p" "pp_clauses p' = pp_clauses p" "pp_clause p' = [[]] @ map fst ?R @ [[]]"
    "pp_orivars p' = pp_vars p" "length (pp_degree p') = Suc (pp_clauses p)"
    using f(1) by (simp_all add: init_frame_def p1_def len)
  have deg: "pp_deg p' i = pp_deg p i" if i: "i \<in> {1..pp_clauses p}" for i
  proof -
    have r: "?R ! (i - 1) = (pp_row p i, pp_deg p i)" using i by (rule pp_rows_nth)
    then have "pp_deg p1 i = written_degree (pp_deg p i)"
      using i len by (cases i) (simp_all add: p1_def)
    moreover have "(pp_row p i, pp_deg p i) \<in> set ?R"
      using i r len nth_mem [of "i - 1" ?R] by fastforce
    then have "1 \<le> pp_deg p i" using assms by (auto simp: writable_def)
    ultimately show ?thesis using f(2) i len by (auto simp: p1_def written_degree_def)
  qed
  have row: "pp_row p' i = pp_row p i" if i: "i \<in> {1..pp_clauses p}" for i
  proof -
    have "?R ! (i - 1) = (pp_row p i, pp_deg p i)" using i by (rule pp_rows_nth)
    then show ?thesis using i len by (cases i) (simp_all add: g(3) nth_append)
  qed
  have "pp_rows p' = ?R" unfolding pp_rows_def g(2)
    by (rule map_cong [OF refl]) (use deg row in auto)
  then show ?thesis using rf g len by auto
qed

section \<open>Properties\<close>

text \<open>C27. A problem that is written to a file and read again comes back with the same rows, the
  same degrees and the same numbers of variables and rows, provided all its numbers are at most
  \<open>2 ^ 31 - 49\<close> (the digit loop adds the character code before it subtracts \<open>'0'\<close>).\<close>

theorem write_read_roundtrip:
  assumes "writable p"
  shows "\<exists>p'. read_file (write_to_file p) q = Some (Inr p') \<and> pp_vars p' = pp_vars p \<and> pp_clauses p' = pp_clauses p
    \<and> pp_rows p' = pp_rows p \<and> pp_orivars p' = pp_vars p \<and> pp_clauses p' < length (pp_clause p')
    \<and> pp_clauses p' < length (pp_degree p')"
  by (rule written_read_back [OF assms])

text \<open>The reader returns, or leaves through \<open>exit\<close> or a fault, on every text whose alien
  characters stand in comments or in the words skipped for the header: each round of its loop consumes text.\<close>

theorem readfile_returns:
  assumes "lexed data"
  shows "readfile data vars clauses clause degree \<noteq> None"
proof -
  have "parse_run (parse_start vars clauses clause degree data) \<noteq> None"
    by (rule lexed_run) (simp add: parse_start_def assms)
  then show ?thesis by (auto simp: readfile_def split: sum.split)
qed

text \<open>C28. Wherever it stands in the text, a token that starts with a character other than a digit, a
  minus sign or one of \<open>c\<close>, \<open>p\<close>, \<open>k\<close> is never consumed: once the reader, after any number
  \<open>n\<close> of rounds without exit or fault, has such a token next, every further round appends one empty
  row and nothing else, and \<open>readfile\<close> does not return.\<close>

theorem readfile_loops_on_alien:
  assumes "(parse_next ^^ n) (Inr (parse_start vars clauses clause degree data)) = Inr st"
    and "alien (cur (read_whitespace (ps_rest st)))"
  shows "readfile data vars clauses clause degree = None
    \<and> (\<forall>m. (parse_next ^^ (Suc m + n)) (Inr (parse_start vars clauses clause degree data))
          = Inr (st\<lparr>ps_rest := read_whitespace (ps_rest st), ps_num_clauses := ps_num_clauses st + Suc m,
                    ps_clause := ps_clause st @ replicate (Suc m) []\<rparr>))"
proof -
  have "parse_run (parse_start vars clauses clause degree data) = None"
    by (rule alien_reached [OF assms])
  then have "readfile data vars clauses clause degree = None" by (simp add: readfile_def)
  moreover have "(parse_next ^^ (Suc m + n)) (Inr (parse_start vars clauses clause degree data))
      = Inr (st\<lparr>ps_rest := read_whitespace (ps_rest st), ps_num_clauses := ps_num_clauses st + Suc m,
                ps_clause := ps_clause st @ replicate (Suc m) []\<rparr>)" for m
    unfolding funpow_add comp_def assms(1) by (rule alien_steps [OF assms(2)])
  ultimately show ?thesis by blast
qed

text \<open>C29. The two writers agree: the text the local search prints for the instance it has built
  from a preprocessed problem is the text the preprocessor writes for that problem.\<close>

theorem write_instance_agrees:
  assumes "rows_ok p"
  shows "write_instance (parse_from_preprocess p) = write_to_file p"
proof -
  note f = parse_from_preprocess_fields [where p = p]
  have lit: "write_lit (make_lit c l) = show_int l @ '' ''" if "l \<noteq> 0" for c l
    using that by (auto simp: write_lit_def make_lit_def lit_var_def)
  have row: "write_clause (parse_from_preprocess p) c = write_row (pp_row p (Suc c)) (pp_deg p (Suc c))"
    if c: "c < pp_clauses p" for c
  proof -
    have "\<forall>l\<in>set (pp_row p (Suc c)). l \<noteq> 0" using assms c by (auto simp: rows_ok_def)
    then have "map (write_lit \<circ> make_lit c) (pp_row p (Suc c)) = map (\<lambda>l. show_int l @ '' '') (pp_row p (Suc c))"
      using lit by simp
    note e = arg_cong [OF this, of concat]
    show ?thesis by (simp add: write_clause_def c f write_row_def e)
  qed
  have "map (\<lambda>i. write_row (pp_row p i) (pp_deg p i)) [1..<Suc (pp_clauses p)]
      = map (\<lambda>c. write_row (pp_row p (Suc c)) (pp_deg p (Suc c))) [0..<pp_clauses p]"
    by (simp add: map_Suc_upt [symmetric] o_def del: upt_Suc)
  moreover have "map (write_clause (parse_from_preprocess p)) [0..<pp_clauses p]
      = map (\<lambda>c. write_row (pp_row p (Suc c)) (pp_deg p (Suc c))) [0..<pp_clauses p]"
    using row by simp
  ultimately show ?thesis by (simp only: write_instance_def write_to_file_def f)
qed

section \<open>Witnesses\<close>

definition demo_text :: string where
  "demo_text = ''p knf 3 2'' @ newline @ ''k 2 1 -2 3 0'' @ newline @ ''-3 0'' @ newline"

definition demo_written :: preproc where
  "demo_written = fresh_preproc\<lparr>pp_vars := 3, pp_orivars := 3, pp_clauses := 2, pp_oriclauses := 2,
     pp_clause := [[], [1, -2, 3], [-3]], pp_degree := [0, 2, 1]\<rparr>"

theorem write_read_roundtrip_witness:
  "\<exists>p'. read_file (write_to_file demo_written) fresh_preproc = Some (Inr p') \<and> pp_rows p' = [([1, -2, 3], 2), ([-3], 1)]"
proof -
  have w: "writable demo_written" by code_simp
  have r: "pp_rows demo_written = [([1, -2, 3], 2), ([-3], 1)]" by code_simp
  show ?thesis using write_read_roundtrip [OF w, of fresh_preproc] unfolding r by blast
qed

theorem readfile_returns_witness: "readfile demo_text 0 0 [] [] \<noteq> None"
proof -
  have "lexed demo_text" by code_simp
  then show ?thesis by (rule readfile_returns)
qed

theorem readfile_loops_on_alien_witness: "readfile (''p knf 1 1'' @ newline @ ''1 x 0'') 0 0 [] [] = None"
proof -
  let ?r = "(parse_next ^^ 2) (Inr (parse_start 0 0 [] [] (''p knf 1 1'' @ newline @ ''1 x 0'')))"
  have "case ?r of Inl _ \<Rightarrow> False | Inr st \<Rightarrow> alien (cur (read_whitespace (ps_rest st)))" by code_simp
  then obtain st where "?r = Inr st" "alien (cur (read_whitespace (ps_rest st)))" by (auto split: sum.splits)
  from readfile_loops_on_alien [OF this] show ?thesis by blast
qed

theorem write_instance_agrees_witness:
  "write_instance (parse_from_preprocess demo_written) = write_to_file demo_written"
proof -
  have "rows_ok demo_written" by code_simp
  then show ?thesis by (rule write_instance_agrees)
qed

end
