(* ===== verification/Parse_Types.thy ===== *)
theory Parse_Types
  imports Parse_Props
begin

text \<open>
  What the reader guarantees of the problem it loads, whatever the text is: every number fits the
  32-bit type it is stored in and the vectors reach as far as the counters say.
\<close>

lemma read_digits_range:
  assumes "read_digits s i = Some (j, t)" and "0 \<le> i" "i \<le> int_max"
  shows "0 \<le> j \<and> j \<le> int_max"
  using assms
proof (induction s arbitrary: i)
  case (Cons c s)
  show ?case
  proof (cases "48 \<le> (of_char c :: nat) \<and> (of_char c :: nat) \<le> 57")
    case True
    let ?k = "i * 10 + of_char c"
    have c: "(48 :: int) \<le> of_char c" using True by (metis of_nat_numeral of_nat_mono of_nat_of_char)
    have k: "\<not> ?k > int_max" "read_digits s (?k - 48) = Some (j, t)" using Cons.prems(1) True by (auto split: if_splits)
    show ?thesis by (rule Cons.IH [OF k(2)]) (use c k(1) Cons.prems(2) in linarith)+
  next
    case False
    then have "j = i" using Cons.prems(1) by auto
    then show ?thesis using Cons.prems by simp
  qed
qed simp

lemma read_int_range:
  assumes "read_int s = Some (i, t)"
  shows "\<bar>i\<bar> \<le> int_max"
proof -
  obtain u j where u: "read_digits u 0 = Some (j, t)" "i = j \<or> i = - j"
    using assms by (auto simp: read_int_def Let_def split: option.splits if_splits)
  have "0 \<le> j \<and> j \<le> int_max" by (rule read_digits_range [OF u(1)]) (simp_all add: int_max_def)
  then show ?thesis using u(2) by auto
qed

definition typed_lits :: "int list \<Rightarrow> bool" where
  "typed_lits row \<longleftrightarrow> (\<forall>l\<in>set row. l \<noteq> 0 \<and> \<bar>l\<bar> \<le> int_max)"

definition typed :: "parser \<Rightarrow> bool" where
  "typed st \<longleftrightarrow> 1 \<le> ps_num_clauses st \<and> length (ps_clause st) = Suc (ps_num_clauses st) \<and> ps_clause st ! 0 = []
     \<and> (\<forall>row\<in>set (ps_clause st). typed_lits row) \<and> (\<forall>d\<in>set (ps_degree st). \<bar>d\<bar> \<le> int_max) \<and> \<bar>ps_vars st\<bar> \<le> int_max"

lemma parse_header_typed: "typed st \<Longrightarrow> parse_header s st = Inr t \<Longrightarrow> typed t"
  using read_int_range by (auto simp: typed_def parse_header_def grow_to_def int_max_def split: if_splits option.splits)

lemma parse_number_typed:
  assumes st: "typed st" and t: "parse_number s st = Inr t"
  shows "typed t"
proof -
  obtain i s' where i: "read_int s = Some (i, s')" using t by (auto simp: parse_number_def split: option.splits)
  have r: "\<bar>i\<bar> \<le> int_max" by (rule read_int_range [OF i])
  let ?n = "ps_num_clauses st"
  consider (zero) "i = 0" "t = st\<lparr>ps_rest := s', ps_num_clauses := ?n + 1, ps_clause := ps_clause st @ [[]]\<rparr>"
    | (deg) "t = st\<lparr>ps_rest := s', ps_degree := (ps_degree st)[?n := i], ps_cardinality := False\<rparr>"
    | (lit) "i \<noteq> 0" "t = st\<lparr>ps_rest := s', ps_clause := (ps_clause st)[?n := ps_clause st ! ?n @ [i]]\<rparr>"
    using t by (auto simp: parse_number_def i Let_def split: if_splits)
  then show ?thesis
  proof cases
    case zero
    have "(ps_clause st @ [[]]) ! 0 = []" using st by (simp add: typed_def nth_append)
    then show ?thesis using st by (auto simp: typed_def zero(2) typed_lits_def)
  next
    case deg
    have "\<bar>d\<bar> \<le> int_max" if "d \<in> set ((ps_degree st)[?n := i])" for d
      using that set_update_subset_insert [of "ps_degree st" ?n i] st r by (auto simp: typed_def)
    then show ?thesis using st by (simp add: typed_def deg)
  next
    case lit
    have n: "?n < length (ps_clause st)" "?n \<noteq> 0" using st by (auto simp: typed_def)
    have old: "typed_lits (ps_clause st ! ?n)" using st n(1) by (simp add: typed_def)
    have "typed_lits row" if "row \<in> set ((ps_clause st)[?n := ps_clause st ! ?n @ [i]])" for row
      using that set_update_subset_insert [of "ps_clause st" ?n] st old r lit(1) by (fastforce simp: typed_def typed_lits_def)
    then show ?thesis using st n(2) by (simp add: typed_def lit(2))
  qed
qed

lemma typed_rest: "typed (st\<lparr>ps_rest := s\<rparr>) = typed st" "typed (st\<lparr>ps_cardinality := k\<rparr>) = typed st"
  by (simp_all add: typed_def)

lemma parse_step_typed:
  assumes st: "typed st" and t: "parse_step st = Inr t"
  shows "typed t"
proof -
  define s where "s = read_whitespace (ps_rest st)"
  have e: "parse_step st = (if cur s = 0 then Inr (st\<lparr>ps_rest := s\<rparr>)
         else if cur s = 99 then (case read_until_new_line s of None \<Rightarrow> Inl Exit0 | Some s \<Rightarrow> Inr (st\<lparr>ps_rest := s\<rparr>))
         else if cur s = 112 then parse_header s st
         else if cur s = 107 then Inr (st\<lparr>ps_cardinality := True, ps_rest := tl s\<rparr>)
         else parse_number s st)"
    by (simp add: parse_step_def s_def Let_def)
  consider "parse_header s st = Inr t" | "parse_number s st = Inr t" | u where "t = st\<lparr>ps_rest := u\<rparr>"
    | u where "t = st\<lparr>ps_cardinality := True, ps_rest := u\<rparr>"
    using t unfolding e by (cases "read_until_new_line s") (auto split: if_splits)
  then show ?thesis using st parse_header_typed [OF st] parse_number_typed [OF st] by cases (simp_all add: typed_rest)
qed

lemma readfile_typed:
  assumes "readfile data v c [] [] = Some (Inr st)" and "\<bar>v\<bar> \<le> int_max"
  shows "typed st \<and> ps_clauses st = int (ps_num_clauses st) - 1"
proof -
  obtain t where t: "while_option parse_more parse_next (Inr (parse_start v c [] [] data)) = Some (Inr t)"
    "st = (if int (ps_num_clauses t) \<noteq> ps_clauses t + 1 then t\<lparr>ps_clauses := int (ps_num_clauses t) - 1\<rparr> else t)"
    using assms(1) by (auto simp: readfile_def parse_run_def split: option.splits sum.splits)
  define P where "P = (\<lambda>r :: stop + parser. case r of Inl e \<Rightarrow> True | Inr st \<Rightarrow> typed st)"
  have nxt: "P (parse_next r)" if "P r" for r
    using that parse_step_typed by (auto simp: P_def parse_next_def split: sum.splits)
  have start: "P (Inr (parse_start v c [] [] data))"
    using assms(2) by (simp add: P_def typed_def parse_start_def typed_lits_def)
  have "P (Inr t)" by (rule while_option_rule [where P = P, OF _ t(1) start]) (rule nxt)
  then have "typed t" by (simp add: P_def)
  then show ?thesis using t(2) by (auto simp: typed_def)
qed

section \<open>The loaded problem\<close>

definition problem_typed :: "preproc \<Rightarrow> bool" where
  "problem_typed p \<longleftrightarrow> pp_orivars p = pp_vars p \<and> int (pp_vars p) \<le> int_max
     \<and> pp_clauses p < length (pp_clause p) \<and> pp_clauses p < length (pp_degree p) \<and> pp_row p 0 = []
     \<and> (\<forall>i\<in>{1..pp_clauses p}. pp_deg p i \<noteq> 0 \<and> \<bar>pp_deg p i\<bar> \<le> int_max \<and> typed_lits (pp_row p i))"

lemma read_file_typed:
  assumes "read_file data q = Some (Inr p)"
  shows "problem_typed p"
proof -
  obtain st where st: "readfile data 0 0 [] [] = Some (Inr st)" "\<not> ps_vars st < 0" "nat (ps_clauses st) < length (ps_degree st)"
    and p: "p = (let p = (clear_problem q)\<lparr>pp_vars := nat (ps_vars st), pp_clauses := nat (ps_clauses st),
                         pp_clause := ps_clause st, pp_degree := ps_degree st\<rparr>;
                   p = p\<lparr>pp_orivars := pp_vars p, pp_oriclauses := pp_clauses p\<rparr>
               in fold default_degree [1..<Suc (pp_clauses p)] p)"
    using assms by (auto simp: read_file_def clear_problem_def Let_def split: option.splits sum.splits if_splits)
  define u where "u = (clear_problem q)\<lparr>pp_vars := nat (ps_vars st), pp_clauses := nat (ps_clauses st),
     pp_clause := ps_clause st, pp_degree := ps_degree st, pp_orivars := nat (ps_vars st), pp_oriclauses := nat (ps_clauses st)\<rparr>"
  have pu: "p = fold default_degree [1..<Suc (pp_clauses u)] u" by (simp add: p u_def Let_def)
  have t: "typed st" "ps_clauses st = int (ps_num_clauses st) - 1" using readfile_typed [OF st(1)] by (simp_all add: int_max_def)
  have ul: "pp_clauses u < length (pp_degree u)" using st(3) by (simp add: u_def)
  from fold_default_degree [OF ul, folded pu] have f: "init_frame u p"
    "\<forall>i<length (pp_degree u). pp_deg p i = (if i \<in> {1..pp_clauses u} \<and> pp_deg u i = 0 then 1 else pp_deg u i)" by blast+
  note fr = f(1) [unfolded init_frame_def]
  have len: "pp_clauses p < length (pp_clause p)" using fr t by (auto simp: u_def typed_def)
  have row: "typed_lits (pp_row p i)" if "i \<le> pp_clauses p" for i
  proof -
    have "pp_row p i \<in> set (ps_clause st)" using fr len that by (simp add: u_def)
    then show ?thesis using t(1) by (simp add: typed_def)
  qed
  have deg: "pp_deg p i \<noteq> 0 \<and> \<bar>pp_deg p i\<bar> \<le> int_max" if i: "i \<in> {1..pp_clauses p}" for i
  proof -
    have l: "i < length (pp_degree u)" "i \<in> {1..pp_clauses u}" using i fr ul by auto
    then have "pp_deg u i \<in> set (ps_degree st)" by (simp add: u_def)
    then have "\<bar>pp_deg u i\<bar> \<le> int_max" using t(1) by (simp add: typed_def)
    then show ?thesis using f(2) l by (simp add: int_max_def)
  qed
  show ?thesis
    using fr st(2) t(1) len row deg ul by (simp add: problem_typed_def u_def typed_def)
qed

text \<open>A last row that lacks its closing 0 is not counted: without an error the problem has no row.\<close>

lemma unterminated_row_dropped:
  "case read_file (''p knf 2 1'' @ newline @ ''1 2'' @ newline) fresh_preproc of
     Some (Inr p) \<Rightarrow> pp_clauses p = 0 \<and> pp_row p 1 = [1, 2] | _ \<Rightarrow> False"
  by code_simp

text \<open>C5. The problem that \<open>read_file\<close> loads is well typed, whatever the text is: the declared
  number of variables fits an \<open>int\<close> and is recorded as the number of original variables; row 0 is
  the unused row; the vectors of rows and degrees reach past the last row; no degree is 0 and no
  literal is 0, and every one of them fits an \<open>int\<close>.\<close>

theorem read_file_types:
  assumes "read_file data q = Some (Inr p)"
  shows "problem_typed p"
  by (rule read_file_typed [OF assms])

theorem read_file_types_witness:
  "\<exists>p. read_file (write_to_file demo_written) fresh_preproc = Some (Inr p) \<and> problem_typed p"
proof -
  have w: "writable demo_written" by code_simp
  have "read_file (write_to_file demo_written) fresh_preproc \<noteq> None
    \<and> (case read_file (write_to_file demo_written) fresh_preproc of Some (Inr p) \<Rightarrow> True | _ \<Rightarrow> False)"
    by code_simp
  then obtain p where p: "read_file (write_to_file demo_written) fresh_preproc = Some (Inr p)"
    by (auto split: option.splits sum.splits)
  show ?thesis using p read_file_types [OF p] by blast
qed

end
