(* ===== verification/Ls_Properties.thy ===== *)
theory Ls_Properties
  imports Ls_Search
begin

text \<open>
  The properties of the local search, with a small instance on which each of them is
  exercised: three variables, the clause \<open>1 \<or> -2\<close> and the cardinality row "at least two of
  1, 2, 3".
\<close>

section \<open>A small instance\<close>

definition demo_pre :: preproc where
  "demo_pre = fresh_preproc\<lparr>pp_vars := 3, pp_clauses := 2,
     pp_clause := [[], [1, -2], [1, 2, 3]], pp_degree := [0, 1, 2]\<rparr>"

definition demo_inst :: inst where
  "demo_inst = parse_from_preprocess demo_pre"

definition demo_garbage :: ls where
  "demo_garbage =
     \<lparr>score = (\<lambda>_. 7), time_stamp = (\<lambda>_. 7), var_neighbor = (\<lambda>_. [7]), neighbor_flag = (\<lambda>_. 7),
      unit_weight = (\<lambda>_. 7), weight_delta_score = (\<lambda>_. 7), weight_is_touched = (\<lambda>_. True),
      delta_total_weight = 7, ave_weight = 7, sat_count = (\<lambda>_. 7), sat_var = None,
      hardunsat = \<lparr>items = [], index = (\<lambda>_. 7)\<rparr>, cardsat = \<lparr>items = [], index = (\<lambda>_. 7)\<rparr>,
      goodvar = \<lparr>items = [], index = (\<lambda>_. 7)\<rparr>, cur_soln = (\<lambda>_. 7), hard_unsat_nb = 7,
      minimum_hard_unsat_nb = 7, total_step = 7, ls_step = 7, tries = 1, m_prng_state = 7,
      rand_calls = 0, materialized_neighbor_mode = False\<rparr>"

definition demo_par :: ls_par where
  "demo_par =
     \<lparr>max_tries = 10, max_flips = 100, max_non_improve_flip = 50, swap_non_improve_flip = 10,
      hd_count_threshold = 20, h_inc = 1, swap_bms_cap = 2, rwprob_threshold = 0, rdprob_threshold = 0,
      swapprob = 0, swapprob_threshold = 0, backbone_threshold = 0, enable_swap = True, init_mode = 1,
      neighbor_entry_budget = 100, threshold_weight = 300, p_scale = 0, q_scale = 0, q_init = 1,
      scale_ave = 0, libc_rand = (\<lambda>_. 0)\<rparr>"

definition demo_state :: ls where
  "demo_state = init_local_search demo_inst (init_assignment demo_inst demo_par (allocate_memory demo_garbage))"

lemma demo_rows: "rows_ok demo_pre"
proof -
  have "{1..pp_clauses demo_pre} = {1, 2}" by (auto simp: demo_pre_def)
  then show ?thesis by (simp add: rows_ok_def demo_pre_def fresh_preproc_def lit_var_def)
qed

lemma demo_wf: "wf_inst demo_inst"
  unfolding demo_inst_def by (rule parse_from_preprocess_wf [OF demo_rows])

lemma demo_size: "num_vars demo_inst = 3" "num_clauses demo_inst = 2"
  by (simp_all add: demo_inst_def parse_from_preprocess_fields demo_pre_def)

lemma demo_fresh:
  "tries (allocate_memory demo_garbage) = 1" "scratch_ok (allocate_memory demo_garbage)"
  "neighbors_ok demo_inst (allocate_memory demo_garbage)" "h_inc demo_par = 1"
  by (simp_all add: allocate_memory_def demo_garbage_def scratch_ok_def neighbors_ok_def demo_par_def)

lemma demo_inv: "ls_inv demo_inst demo_state"
  unfolding demo_state_def using demo_fresh by (intro start_try_inv [OF demo_wf]) simp_all

lemma demo_values:
  "hard_unsat_nb demo_state = 1" "items (goodvar demo_state) = [1, 3]" "items (cardsat demo_state) = []"
  by code_simp+


section \<open>Scores and flips\<close>

text \<open>C7. In every state that satisfies the search invariant, the cached score of a variable is
  exactly the amount by which flipping it lowers the weighted violation, and the flip, in the
  materialised and in the on-the-fly mode alike, toggles that variable alone and restores the
  whole invariant: counters, stacks, scores, good variables, scratch arrays.\<close>

theorem flip_exact:
  assumes "wf_inst I" and "ls_inv I st" and "v \<in> {1..num_vars I}"
  shows "ls_inv I (flip I v st)
    \<and> cur_soln (flip I v st) = flip_soln v (cur_soln st)
    \<and> violation I (unit_weight st) (cur_soln (flip I v st))
        = violation I (unit_weight st) (cur_soln st) - score st v"
proof -
  have b: "cur_soln st v = 0 \<or> cur_soln st v = 1" and sc: "score_at I st v" and cnt: "counts_ok I st"
    using assms(2,3) by (auto simp: ls_inv_def soln_ok_def scores_ok_def)
  have cur: "cur_soln (flip I v st) = flip_soln v (cur_soln st)" by (simp add: flip_frame)
  have "score_spec I (cur_soln st) (sat_count st) (unit_weight st) v
      = violation I (unit_weight st) (cur_soln st) - violation I (unit_weight st) (flip_soln v (cur_soln st))"
    using cnt by (intro score_spec_violation [where a = "cur_soln st" and v = v, OF assms(1) b]) (simp add: counts_ok_def)
  with sc cur flip_inv [OF assms(1) _ _ assms(2)] assms(3) show ?thesis by (simp add: score_at_def)
qed

theorem flip_exact_witness:
  "ls_inv demo_inst (flip demo_inst 1 demo_state)
    \<and> cur_soln (flip demo_inst 1 demo_state) = flip_soln 1 (cur_soln demo_state)
    \<and> violation demo_inst (unit_weight demo_state) (cur_soln (flip demo_inst 1 demo_state))
        = violation demo_inst (unit_weight demo_state) (cur_soln demo_state) - score demo_state 1"
  by (rule flip_exact [OF demo_wf demo_inv]) (simp add: demo_size)

text \<open>The search may trust its counter of unsatisfied clauses: in every state that satisfies
  the invariant the counter is zero exactly when the assignment meets every clause and
  cardinality row, and the unsatisfied stack lists exactly the rows that fail, once each.\<close>

theorem unsat_counter_exact:
  assumes "ls_inv I st"
  shows "(hard_unsat_nb st = 0 \<longleftrightarrow> is_solution I (cur_soln st))
    \<and> hard_unsat_nb st = int (card {c. c < num_clauses I \<and> \<not> clause_holds I (cur_soln st) c})
    \<and> distinct (items (hardunsat st))
    \<and> set (items (hardunsat st)) = {c. c < num_clauses I \<and> \<not> clause_holds I (cur_soln st) c}"
proof -
  have s: "counts_ok I st" "stacks_ok I st" using assms by (simp_all add: ls_inv_def)
  have d: "distinct (items (hardunsat st))" "hard_unsat_nb st = int (fill_pointer (hardunsat st))"
    "set (items (hardunsat st)) = {c. c < num_clauses I \<and> \<not> clause_holds I (cur_soln st) c}"
    using s(2) unsat_clauses_counts [OF s(1)] by (simp_all add: stacks_ok_def stack_ok_def)
  then have "hard_unsat_nb st = int (card {c. c < num_clauses I \<and> \<not> clause_holds I (cur_soln st) c})"
    using distinct_card by metis
  with d solution_iff_no_unsat [OF s] show ?thesis by blast
qed

theorem unsat_counter_exact_witness:
  "(hard_unsat_nb demo_state = 0 \<longleftrightarrow> is_solution demo_inst (cur_soln demo_state))
    \<and> hard_unsat_nb demo_state
        = int (card {c. c < num_clauses demo_inst \<and> \<not> clause_holds demo_inst (cur_soln demo_state) c})
    \<and> distinct (items (hardunsat demo_state))
    \<and> set (items (hardunsat demo_state))
        = {c. c < num_clauses demo_inst \<and> \<not> clause_holds demo_inst (cur_soln demo_state) c}"
  by (rule unsat_counter_exact [OF demo_inv])

text \<open>C14. A try starts in the invariant, whatever the arrays contained before: after the initial
  assignment and \<open>init_local_search\<close> the counters, scores and stacks describe the assignment,
  all weights are 1, and the stack of good variables holds every variable of positive score.\<close>

theorem init_local_search_establishes:
  assumes "wf_inst I" and "tries st = 1 \<or> soln_ok I st" and "scratch_ok st" and "neighbors_ok I st"
  shows "ls_inv I (init_local_search I (init_assignment I P st))
    \<and> cur_soln (init_local_search I (init_assignment I P st)) = cur_soln (init_assignment I P st)
    \<and> set (items (goodvar (init_local_search I (init_assignment I P st))))
        = {v \<in> {1..num_vars I}. score (init_local_search I (init_assignment I P st)) v > 0}"
proof -
  let ?s = "init_assignment I P st"
  note f = init_restD [OF init_assignment_frame]
  have "scratch_ok ?s" "neighbors_ok I ?s"
    using assms(3,4) by (simp_all add: scratch_ok_def neighbors_ok_def f)
  from init_local_search_inv [OF assms(1) init_assignment_soln_ok [OF assms(2)] this] show ?thesis by auto
qed

theorem init_local_search_establishes_witness:
  "ls_inv demo_inst (init_local_search demo_inst (init_assignment demo_inst demo_par (allocate_memory demo_garbage)))
    \<and> cur_soln (init_local_search demo_inst (init_assignment demo_inst demo_par (allocate_memory demo_garbage)))
        = cur_soln (init_assignment demo_inst demo_par (allocate_memory demo_garbage))
    \<and> set (items (goodvar (init_local_search demo_inst
        (init_assignment demo_inst demo_par (allocate_memory demo_garbage)))))
        = {v \<in> {1..num_vars demo_inst}. score (init_local_search demo_inst
            (init_assignment demo_inst demo_par (allocate_memory demo_garbage))) v > 0}"
  by (rule init_local_search_establishes [OF demo_wf disjI1 demo_fresh(2,3)]) (rule demo_fresh(1))

section \<open>Weights\<close>

text \<open>C15. Raising the weights of the unsatisfied clauses keeps the invariant and the assignment:
  the scores are corrected by what the heavier clauses add, the good variables follow, the
  scratch arrays are clean again, and every clause on the unsatisfied stack weighs \<open>h_inc\<close>
  more.\<close>

theorem increase_weights_keeps_invariant:
  assumes "wf_inst I" and "ls_inv I st" and "0 \<le> h_inc P"
  shows "ls_inv I (update_clause_weights I P st)
    \<and> cur_soln (update_clause_weights I P st) = cur_soln st
    \<and> hardunsat (update_clause_weights I P st) = hardunsat st
    \<and> (\<forall>c. unit_weight (update_clause_weights I P st) c
           = unit_weight st c + (if c \<in> unsat_clauses I st then h_inc P else 0))"
  using increase_weights_inv [OF assms] by (simp add: update_clause_weights_def)

theorem increase_weights_keeps_invariant_witness:
  "ls_inv demo_inst (update_clause_weights demo_inst demo_par demo_state)
    \<and> cur_soln (update_clause_weights demo_inst demo_par demo_state) = cur_soln demo_state
    \<and> hardunsat (update_clause_weights demo_inst demo_par demo_state) = hardunsat demo_state
    \<and> (\<forall>c. unit_weight (update_clause_weights demo_inst demo_par demo_state) c
           = unit_weight demo_state c + (if c \<in> unsat_clauses demo_inst demo_state then h_inc demo_par else 0))"
  by (rule increase_weights_keeps_invariant [OF demo_wf demo_inv]) (simp add: demo_fresh)


text \<open>C22. \<open>smooth_weights\<close>, whatever the rounding of the new weights gives, moves the scores
  by the change of every literal's contribution: counters, stacks and good variables stay right,
  and the scores are again the exact contributions under the new weights.\<close>

theorem smooth_weights_keeps_scores:
  assumes "wf_inst I" and "ls_inv I st"
  shows "scores_ok I (smooth_weights I P st) \<and> counts_ok I (smooth_weights I P st)
    \<and> stacks_ok I (smooth_weights I P st) \<and> good_ok I (smooth_weights I P st)
    \<and> cur_soln (smooth_weights I P st) = cur_soln st"
  using assms smooth_weights_keeps [of I st P] by (simp add: wf_inst_def ls_inv_def)

theorem smooth_weights_keeps_scores_witness:
  "scores_ok demo_inst (smooth_weights demo_inst demo_par demo_state)
    \<and> counts_ok demo_inst (smooth_weights demo_inst demo_par demo_state)
    \<and> stacks_ok demo_inst (smooth_weights demo_inst demo_par demo_state)
    \<and> good_ok demo_inst (smooth_weights demo_inst demo_par demo_state)
    \<and> cur_soln (smooth_weights demo_inst demo_par demo_state) = cur_soln demo_state"
  by (rule smooth_weights_keeps_scores [OF demo_wf demo_inv])

section \<open>Choosing a variable\<close>


lemma demo_pick: "pick_var demo_inst demo_par demo_state
    = (fst (pick_var demo_inst demo_par demo_state), snd (pick_var demo_inst demo_par demo_state))"
  by simp


text \<open>C18. The greedy scan of \<open>pick_var\<close>: when the random descent does not fire and the stack of
  good variables is shorter than the sampling threshold, the variable returned has the highest
  score of all good variables, and the oldest time stamp among those that tie.\<close>

theorem pick_var_greedy:
  assumes "items (goodvar st) \<noteq> []" and "\<not> fst (rand_hits (rdprob_threshold P) st)"
    and "fill_pointer (goodvar st) < hd_count_threshold P" and "pick_var I P st = (v, st')"
  shows "v \<in> set (items (goodvar st))
    \<and> (\<forall>u\<in>set (items (goodvar st)). score st u \<le> score st v)
    \<and> (\<forall>u\<in>set (items (goodvar st)). score st u = score st v \<longrightarrow> time_stamp st v \<le> time_stamp st u)"
proof -
  have g: "0 < fill_pointer (goodvar st)" using assms(1) by simp
  show ?thesis
    using pick_var_good(1) [OF g assms(4)] pick_var_good(2) [OF g assms(4,2,3)] by fastforce
qed

theorem pick_var_greedy_witness:
  "fst (pick_var demo_inst demo_par demo_state) \<in> {1, 3}"
proof -
  have "fst (pick_var demo_inst demo_par demo_state) \<in> set (items (goodvar demo_state))"
    by (rule pick_var_greedy [OF _ _ _ demo_pick, THEN conjunct1])
      (simp_all add: demo_values demo_par_def rand_hits_def split_beta)
  then show ?thesis by (simp add: demo_values)
qed

section \<open>The swap move\<close>

text \<open>C9. The fast path of \<open>flip_pair_atomic\<close>, which reads shared clauses once and delays what
  the second flip owes, computes exactly the state of the two single flips in order: every
  counter, score, stack and scratch array is the same.  Variables out of range or equal leave
  the state unchanged.\<close>

theorem flip_pair_atomic_is_two_flips:
  assumes "wf_inst I" and "scratch_ok st"
  shows "flip_pair_atomic I a b st
    = (if a \<in> {1..num_vars I} \<and> b \<in> {1..num_vars I} \<and> a \<noteq> b then flip I b (flip I a st) else st)"
  by (rule flip_pair_atomic_eq [OF assms])

theorem flip_pair_atomic_is_two_flips_witness:
  "flip_pair_atomic demo_inst 1 3 demo_state
    = (if (1::nat) \<in> {1..num_vars demo_inst} \<and> (3::nat) \<in> {1..num_vars demo_inst} \<and> (1::nat) \<noteq> 3
       then flip demo_inst 3 (flip demo_inst 1 demo_state) else demo_state)"
  using demo_inv by (intro flip_pair_atomic_is_two_flips [OF demo_wf]) (simp add: ls_inv_def)

text \<open>C24. The walk over a row of \<open>n\<close> literals probes without replacement: with either stride the
  probed positions lie in the row and are pairwise distinct, and their number is the cap or half
  the row, whichever is smaller.\<close>

theorem swap_probes_distinct:
  fixes n stride start :: nat and cap :: int
  assumes "0 < n" and "stride = 1 \<or> 1 < n \<and> stride = n - 1"
  defines "k \<equiv> nat (swap_bms_sample_count (int n) cap)"
  shows "distinct (swap_probes n k start stride) \<and> set (swap_probes n k start stride) \<subseteq> {..<n}
    \<and> length (swap_probes n k start stride) = min ((n - 1) div 2 + 1) (nat cap)"
proof -
  have k: "k = min ((n - 1) div 2 + 1) (nat cap)"
    unfolding k_def swap_bms_sample_count_value [OF assms(1)] by (simp add: min_def) linarith
  moreover have "(n - 1) div 2 + 1 \<le> n" using assms(1) by linarith
  ultimately have "k \<le> n" by (simp only: min.coboundedI1)
  then show ?thesis using swap_probes_ok [OF assms(1,2)] k by simp
qed

theorem swap_probes_distinct_witness:
  "distinct (swap_probes 5 (nat (swap_bms_sample_count (int 5) 2)) 3 4)
    \<and> set (swap_probes 5 (nat (swap_bms_sample_count (int 5) 2)) 3 4) \<subseteq> {..<5}
    \<and> length (swap_probes 5 (nat (swap_bms_sample_count (int 5) 2)) 3 4) = min ((5 - 1) div 2 + 1) (nat 2)"
  by (rule swap_probes_distinct) simp_all



section \<open>Neighbour lists and memory\<close>

text \<open>C19. \<open>build_neighbor_relation\<close>: when it succeeds, the list of every variable holds exactly
  the variables that share a clause with it, without repetition, and all lists together keep
  within the budget; when it gives up, every list is empty.  The flags are clean either way and
  nothing else changes.\<close>

theorem build_neighbor_relation_exact:
  assumes "indexed_inst I" and "neighbor_flag st = (\<lambda>_. 0)" and "var_neighbor st = (\<lambda>_. [])"
    and "build_neighbor_relation I budget alloc st = (ok, t)"
  shows "neighbor_flag t = (\<lambda>_. 0) \<and> t = st\<lparr>var_neighbor := var_neighbor t\<rparr>
    \<and> (if ok then (\<forall>v\<in>{1..num_vars I}. distinct (var_neighbor t v) \<and> set (var_neighbor t v) = neighbors_of I v)
            \<and> (\<Sum>v\<leftarrow>[1..<Suc (num_vars I)]. length (var_neighbor t v)) \<le> budget
       else \<forall>v\<ge>1. var_neighbor t v = [])"
proof -
  have "build_neighbors I budget alloc [1..<1 + num_vars I] 0 st = (ok, t)"
    using assms(4) by (simp add: build_neighbor_relation_def)
  from build_neighbors_correct [OF assms(1,2) _ _ _ _ _ this] show ?thesis
    by (auto simp: assms(3) simp del: upt_Suc)
qed

theorem build_neighbor_relation_exact_witness:
  "var_neighbor (snd (build_neighbor_relation demo_inst 6 (\<lambda>_. True) (allocate_memory demo_garbage))) 1 = [2, 3]
    \<and> neighbor_flag (snd (build_neighbor_relation demo_inst 6 (\<lambda>_. True) (allocate_memory demo_garbage))) = (\<lambda>_. 0)"
proof -
  let ?s = "allocate_memory demo_garbage"
  let ?r = "build_neighbor_relation demo_inst 6 (\<lambda>_. True) ?s"
  have "indexed_inst demo_inst" "neighbor_flag ?s = (\<lambda>_. 0)" "var_neighbor ?s = (\<lambda>_. [])"
    using demo_wf by (simp_all add: wf_inst_def allocate_memory_def)
  then have "neighbor_flag (snd ?r) = (\<lambda>_. 0)"
    using build_neighbor_relation_exact [of demo_inst ?s 6 "\<lambda>_. True" "fst ?r" "snd ?r"] by simp
  moreover have "var_neighbor (snd ?r) 1 = [2, 3]" by code_simp
  ultimately show ?thesis by simp
qed


text \<open>C25. The memory budget: a request of \<open>g\<close> GiB is refused exactly when its bytes do not fit
  64 bits, and otherwise gives \<open>g\<close> times \<open>2 ^ 28\<close> list entries of four bytes without wrap-around;
  every value the option table allows is accepted.\<close>

theorem neighbor_budget_exact:
  "(checked_neighbor_entry_budget g = None \<longleftrightarrow> 2 ^ 64 \<le> unat g * 2 ^ 30)
    \<and> map_option unat (checked_neighbor_entry_budget g)
        = (if unat g * 2 ^ 30 < 2 ^ 64 then Some (unat g * 2 ^ 30 div 4) else None)"
proof -
  have "unat (word_of_nat (unat g * 2 ^ 28) :: 64 word) = unat g * 2 ^ 28" if "unat g < 2 ^ 34"
    unfolding unat_of_nat using that by simp
  then show ?thesis by (auto simp: checked_budget_value)
qed

text \<open>C20. \<open>settings\<close> prepares a fresh object for the search: whatever mode it chooses, the scratch
  arrays are zero, and in the materialised mode the neighbour lists are exact and hold at most
  as many entries as the budget allows; in the other mode \<open>sat_var\<close> is released.\<close>

theorem settings_prepares_search:
  assumes "indexed_inst I" and "settings I opt alloc P0 (allocate_memory garbage) = Some (P, st)"
  shows "scratch_ok st \<and> h_inc P = 1 \<and> max_tries P = 2000000000
    \<and> (if materialized_neighbor_mode st
       then (\<forall>v\<in>{1..num_vars I}. distinct (var_neighbor st v) \<and> set (var_neighbor st v) = neighbors_of I v)
          \<and> (\<Sum>v\<leftarrow>[1..<Suc (num_vars I)]. length (var_neighbor st v)) \<le> neighbor_entry_budget P
       else sat_var st = None)"
  using settings_ok [OF assms] settings_mode [OF assms]
  by (simp add: neighbors_ok_def del: upt_Suc split: if_splits)


lemma demo_settings:
  obtains P st where "settings demo_inst default_options (\<lambda>_. True) (configure default_options (\<lambda>_. 0))
      (allocate_memory demo_garbage) = Some (P, st)"
proof -
  have "checked_neighbor_entry_budget (word_of_int (opt_ls_neighbor_budget_gib default_options)) \<noteq> None"
    by (simp add: checked_budget_value default_options_def)
  then show ?thesis using that by (auto simp: settings_def Let_def)
qed

theorem settings_prepares_search_witness:
  "\<exists>P st. settings demo_inst default_options (\<lambda>_. True) (configure default_options (\<lambda>_. 0))
      (allocate_memory demo_garbage) = Some (P, st) \<and> scratch_ok st \<and> h_inc P = 1 \<and> max_tries P = 2000000000"
proof -
  obtain P st where s: "settings demo_inst default_options (\<lambda>_. True) (configure default_options (\<lambda>_. 0))
      (allocate_memory demo_garbage) = Some (P, st)" by (rule demo_settings)
  have "indexed_inst demo_inst" using demo_wf by (simp add: wf_inst_def)
  from settings_prepares_search [OF this s] s show ?thesis by blast
qed



section \<open>The search\<close>



text \<open>C8. \<open>solve\<close> on a well-formed instance: it answers 10 exactly when the final assignment
  satisfies every clause and cardinality row, and 0 otherwise; the final assignment is Boolean on
  every variable, whatever the uninitialised arrays held, the allocator did and the random numbers
  were.\<close>

theorem solve_sound:
  assumes "wf_inst I" and "solve I opt libc alloc garbage = Some (r, t)"
  shows "(r = 10 \<longleftrightarrow> is_solution I (cur_soln t)) \<and> (r = 10 \<or> r = 0)
    \<and> (\<forall>v\<in>{1..num_vars I}. cur_soln t v = 0 \<or> cur_soln t v = 1)"
  using solve_inv [OF assms] by (auto simp: ls_inv_def soln_ok_def)

theorem solve_sound_witness:
  "\<exists>r t. solve demo_inst default_options (\<lambda>_. 0) (\<lambda>_. True) demo_garbage = Some (r, t)
    \<and> (r = 10 \<longleftrightarrow> is_solution demo_inst (cur_soln t))"
proof -
  obtain P st where "settings demo_inst default_options (\<lambda>_. True) (configure default_options (\<lambda>_. 0))
      (allocate_memory demo_garbage) = Some (P, st)" by (rule demo_settings)
  then have "solve demo_inst default_options (\<lambda>_. 0) (\<lambda>_. True) demo_garbage
      = Some (verify_sol demo_inst (local_search demo_inst P st), local_search demo_inst P st)"
    by (simp add: solve_def Let_def)
  with solve_sound [OF demo_wf this] show ?thesis by blast
qed

section \<open>The instance\<close>

text \<open>C21. The instance that \<open>parse_from_preprocess\<close> builds from rows with degree at least 1, no
  variable twice and variables in range: it is well formed, clause \<open>c\<close> holds the literals of row
  \<open>c + 1\<close> with their signs and degree, every occurrence list lists the literals of its variable in
  clause order, and an assignment solves the instance exactly when it satisfies the rows.\<close>

theorem parse_from_preprocess_faithful:
  assumes "rows_ok p"
  shows "wf_inst (parse_from_preprocess p)
    \<and> num_clauses (parse_from_preprocess p) = pp_clauses p
    \<and> (\<forall>v. sorted_wrt (<) (map clause_num (var_lit (parse_from_preprocess p) v)))
    \<and> (is_solution (parse_from_preprocess p) (\<lambda>v. of_bool (a v)) \<longleftrightarrow> rows_sat a (pp_rows p))"
proof -
  let ?I = "parse_from_preprocess p"
  note f = parse_from_preprocess_fields [where p = p]
  have wf: "wf_inst ?I" by (rule parse_from_preprocess_wf [OF assms])
  show ?thesis using wf var_lit_sorted [OF wf] parse_solution_rows [OF assms] by (simp add: f)
qed

theorem parse_from_preprocess_faithful_witness:
  "wf_inst (parse_from_preprocess demo_pre)
    \<and> num_clauses (parse_from_preprocess demo_pre) = pp_clauses demo_pre
    \<and> (\<forall>v. sorted_wrt (<) (map clause_num (var_lit (parse_from_preprocess demo_pre) v)))
    \<and> (is_solution (parse_from_preprocess demo_pre) (\<lambda>v. of_bool (v = 1)) \<longleftrightarrow> rows_sat (\<lambda>v. v = 1) (pp_rows demo_pre))"
  by (rule parse_from_preprocess_faithful [OF demo_rows])

end
