(* ===== verification/Run_Props.thy ===== *)
theory Run_Props
  imports Recover Prep_Bin_Correct Parse_Types Ls_Properties
begin

text \<open>
  The whole program: the phases of the preprocessing composed, the search on what they leave, and
  the model that \<open>run\<close> returns.
\<close>

section \<open>The phases\<close>

lemma maps_ok_vars:
  assumes "maps_ok q"
  shows "pp_vars q \<le> pp_orivars q"
proof -
  have "pp_mapfrom q ` {1..pp_vars q} \<subseteq> {1..pp_orivars q}" using var_maps(1) [OF assms] by blast
  then have "card (pp_mapfrom q ` {1..pp_vars q}) \<le> card {1..pp_orivars q}" by (intro card_mono) simp_all
  then show ?thesis unfolding card_image [OF maps_inj [OF assms]] by simp
qed

text \<open>What the phases promise of the problem they return.\<close>

definition phases_ok :: "((nat \<Rightarrow> bool) \<Rightarrow> bool) \<Rightarrow> nat \<Rightarrow> int \<times> preproc \<Rightarrow> bool" where
  "phases_ok Q n r \<longleftrightarrow> (case r of (res, q) \<Rightarrow>
     res = 20 \<and> (\<forall>a. \<not> Q a)
   \<or> res = 0 \<and> rows_ok q \<and> pp_orivars q = n \<and> (\<exists>k mf rg. groups_at k mf rg q \<and> recovers_all Q k mf rg q)
       \<and> ((\<exists>a. Q a) \<longleftrightarrow> (\<exists>b. rows_sat b (pp_rows q))))"

lemma release_fields:
  "pp_rows (release q) = pp_rows q" "rows_ok (release q) = rows_ok q" "pp_orivars (release q) = pp_orivars q"
  "groups_at k mf rg (release q) = groups_at k mf rg q" "recovers_all Q k mf rg (release q) = recovers_all Q k mf rg q"
proof -
  show r: "pp_rows (release q) = pp_rows q" "pp_orivars (release q) = pp_orivars q"
    by (simp_all add: release_def pp_rows_def)
  show "rows_ok (release q) = rows_ok q" by (simp add: release_def rows_ok_def)
  show "groups_at k mf rg (release q) = groups_at k mf rg q"
    by (simp add: release_def groups_at_def keeps_groups_def maps_range_def)
  have ov: "orig_val (release q) = orig_val q" by (simp add: release_def orig_val_def fun_eq_iff)
  have "var_val (release q) = var_val q" by (simp add: var_val_def ov fun_eq_iff)
  then show "recovers_all Q k mf rg (release q) = recovers_all Q k mf rg q" by (simp add: recovers_all_def r ov)
qed

lemma recovers_exists:
  assumes "recovers_all Q k mf rg q" and "groups_at k mf rg q" and b: "rows_sat b (pp_rows q)"
  shows "\<exists>a. Q a"
proof -
  let ?c = "fold recover_step rg (var_val q k mf b)"
  have inj: "inj_on mf {1..k}" using assms(2) by (simp add: groups_at_def)
  define a where "a = (\<lambda>i. if i \<in> mf ` {1..k} then ?c (the_inv_into {1..k} mf i) else orig_val q b i = 1)"
  have "Q a"
    by (rule recovers_allD [OF assms(1) b]) (use the_inv_into_f_f [OF inj] in \<open>simp_all add: a_def del: atLeastAtMost_iff\<close>)
  then show ?thesis by blast
qed

lemma run_phases_ok:
  assumes up: "up_input_ok p" and n: "int (pp_vars p) < 2 ^ 31"
  shows "\<exists>r. run_phases p = Some (Inr r) \<and> phases_ok (input_sat p) (pp_vars p) r"
proof -
  let ?Q = "input_sat p"
  obtain r1 where r1: "preprocess_up p = Some r1" "case r1 of None \<Rightarrow> \<forall>a. \<not> ?Q a
    | Some q \<Rightarrow> res_input_ok q \<and> maps_ok q \<and> decodes ?Q q \<and> pp_orivars q = pp_vars p
        \<and> ((\<exists>a. ?Q a) \<longrightarrow> (\<exists>b. rows_sat b (pp_rows q)))"
    using preprocess_up_contract [OF up] by blast
  show ?thesis
  proof (cases r1)
    case None
    then show ?thesis using r1 by (simp add: run_phases_def prep_fail_def phases_ok_def)
  next
    case (Some q1)
    have q1: "res_input_ok q1" "maps_ok q1" "decodes ?Q q1" "pp_orivars q1 = pp_vars p"
      "(\<exists>a. ?Q a) \<longrightarrow> (\<exists>b. rows_sat b (pp_rows q1))" using r1(2) unfolding Some option.case by blast+
    have n1: "pp_vars q1 \<le> pp_vars p" using maps_ok_vars [OF q1(2)] q1(4) by simp
    obtain r2 where r2: "preprocess_resolution q1 = Some r2" "case r2 of None \<Rightarrow> \<forall>b. \<not> rows_sat b (pp_rows q1)
      | Some q \<Rightarrow> recoverable ?Q q \<and> pp_orivars q = pp_orivars q1 \<and> pp_vars q \<le> pp_vars q1
          \<and> ((\<exists>b. rows_sat b (pp_rows q1)) \<longrightarrow> (\<exists>b. rows_sat b (pp_rows q)))"
      using preprocess_resolution_contract [OF q1(1-3)] by blast
    show ?thesis
    proof (cases r2)
      case None
      then have "\<forall>a. \<not> ?Q a" using r2(2) q1(5) unfolding None option.case by blast
      then show ?thesis using r1(1) r2(1) Some None by (simp add: run_phases_def prep_fail_def phases_ok_def)
    next
      case s2: (Some q2)
      have q2: "recoverable ?Q q2" "pp_orivars q2 = pp_orivars q1" "pp_vars q2 \<le> pp_vars q1"
        "(\<exists>b. rows_sat b (pp_rows q1)) \<longrightarrow> (\<exists>b. rows_sat b (pp_rows q2))" using r2(2) unfolding s2 option.case by blast+
      have n2: "int (pp_vars q2) < 2 ^ 31" using n1 q2(3) n by linarith
      obtain r3 where r3: "preprocess_binary q2 = Some r3" "case r3 of None \<Rightarrow> \<forall>b. \<not> rows_sat b (pp_rows q2)
        | Some q \<Rightarrow> recoverable ?Q q \<and> pp_orivars q = pp_orivars q2
            \<and> ((\<exists>b. rows_sat b (pp_rows q2)) \<longrightarrow> (\<exists>b. rows_sat b (pp_rows q)))"
        using preprocess_binary_contract [OF n2 q2(1)] by blast
      show ?thesis
      proof (cases r3)
        case None
        then have "\<forall>a. \<not> ?Q a" using r3(2) q1(5) q2(4) unfolding None option.case by blast
        then show ?thesis using r1(1) r2(1) r3(1) Some s2 None by (simp add: run_phases_def prep_fail_def phases_ok_def)
      next
        case s3: (Some q3)
        have q3: "recoverable ?Q q3" "pp_orivars q3 = pp_orivars q2"
          "(\<exists>b. rows_sat b (pp_rows q2)) \<longrightarrow> (\<exists>b. rows_sat b (pp_rows q3))" using r3(2) unfolding s3 option.case by blast+
        obtain k mf rg where at: "groups_at k mf rg q3" "recovers_all ?Q k mf rg q3" and sh: "shape_ok q3"
          using q3(1) by (auto simp: recoverable_def)
        have e: "run_phases p = Some (Inr (0, release q3))"
          using r1(1) r2(1) r3(1) by (simp add: run_phases_def Some s2 s3)
        have ex: "(\<exists>a. ?Q a) \<longleftrightarrow> (\<exists>b. rows_sat b (pp_rows q3))"
          using q1(5) q2(4) q3(3) recovers_exists [OF at(2,1)] by blast
        have "phases_ok ?Q (pp_vars p) (0, release q3)"
          using at sh ex q3(2) q2(2) q1(4) unfolding phases_ok_def prod.case release_fields by (auto simp: shape_ok_def)
        then show ?thesis using e by blast
      qed
    qed
  qed
qed

section \<open>The problem that is searched\<close>

text \<open>The file keeps its promise: degrees are not negative and variables are in the declared range.\<close>

definition in_bounds :: "preproc \<Rightarrow> bool" where
  "in_bounds p \<longleftrightarrow> (\<forall>i\<in>{1..pp_clauses p}. 0 \<le> pp_deg p i \<and> (\<forall>l\<in>set (pp_row p i). lit_var l \<le> pp_vars p))"

lemma typed_loaded:
  assumes "problem_typed p" and "in_bounds p"
  shows "loaded_ok p"
  using assms lit_var_pos by (fastforce simp: problem_typed_def in_bounds_def loaded_ok_def typed_lits_def Suc_le_eq)

lemma init_input_sat_vars: 
  assumes "loaded_ok p"
  shows "up_input_ok (preprocess_init p)" "pp_vars (preprocess_init p) = pp_vars p"
proof -
  have "pp_clauses p < length (pp_degree p)" using assms by (simp add: loaded_ok_def)
  from preprocess_init_fields(1) [OF this] show "pp_vars (preprocess_init p) = pp_vars p" .
  show "up_input_ok (preprocess_init p)" by (rule preprocess_init_ok [OF assms])
qed

text \<open>What is assumed of the conflict-driven solver: its answer 10 comes with a model of the rows,
  its answer 20 means that they have none.\<close>

definition ccdcl_correct :: "environment \<Rightarrow> bool" where
  "ccdcl_correct env \<longleftrightarrow> (\<forall>q. (fst (env_ccdcl env q) = 10 \<longrightarrow> rows_sat (\<lambda>v. 0 < snd (env_ccdcl env q) v) (pp_rows q))
     \<and> (fst (env_ccdcl env q) = 20 \<longrightarrow> (\<forall>b. \<not> rows_sat b (pp_rows q))))"

lemma search_problem_ok:
  assumes rows: "rows_ok q" and s: "search_problem opt env q = Some (res, val)" and cc: "opt_mode opt = 0 \<or> ccdcl_correct env"
  shows "(res = 10 \<longrightarrow> rows_sat (\<lambda>v. 0 < val v) (pp_rows q)) \<and> (res = 20 \<longrightarrow> (\<forall>b. \<not> rows_sat b (pp_rows q)))"
proof (cases "opt_mode opt = 0")
  case False
  then have "env_ccdcl env q = (res, val)" using s by (simp add: search_problem_def)
  then show ?thesis using cc False unfolding ccdcl_correct_def by (metis fst_conv snd_conv)
next
  case True
  let ?I = "parse_from_preprocess q"
  obtain st where st: "solve ?I opt (env_rand env) (env_alloc env) (env_garbage env) = Some (res, st)" "val = cur_soln st"
    using s True by (auto simp: search_problem_def split: option.splits)
  have wf: "wf_inst ?I" by (rule parse_from_preprocess_wf [OF rows])
  note inv = solve_inv [OF wf st(1)]
  have ix: "indexed_inst ?I" using wf by (simp add: wf_inst_def)
  have b: "cur_soln st v = of_bool (0 < cur_soln st v)" if "1 \<le> v" "v \<le> num_vars ?I" for v
  proof -
    have "cur_soln st v = 0 \<or> cur_soln st v = 1" using inv(1) that by (simp add: ls_inv_def soln_ok_def)
    then show ?thesis by (elim disjE) simp_all
  qed
  have "is_solution ?I (cur_soln st) = is_solution ?I (\<lambda>v. of_bool (0 < cur_soln st v))"
    by (rule is_solution_cong [OF ix]) (rule b)
  also have "\<dots> = rows_sat (\<lambda>v. 0 < cur_soln st v) (pp_rows q)" by (rule parse_solution_rows [OF rows])
  finally show ?thesis using inv(2) st(2) by (simp split: if_splits)
qed

section \<open>The model without preprocessing\<close>

lemma plain_model:
  "build_model False val p = (True, map (\<lambda>i. if i = 0 then 0 else sign_of (val i)) [0..<Suc (pp_orivars p)])"
proof -
  have "fold (\<lambda>i model. model[i := sign_of (val i)]) [1..<Suc k] (replicate (Suc n) 0)
      = map (\<lambda>i. if i \<in> {1..k} then sign_of (val i) else 0) [0..<Suc n]" if "k \<le> n" for k n
    using that
  proof (induction k)
    case 0
    show ?case by (rule nth_equalityI) (simp_all del: upt_Suc replicate_Suc)
  next
    case (Suc k)
    have e: "[1..<Suc (Suc k)] = [1..<Suc k] @ [Suc k]" by simp
    have ih: "fold (\<lambda>i model. model[i := sign_of (val i)]) [1..<Suc k] (replicate (Suc n) 0)
      = map (\<lambda>i. if i \<in> {1..k} then sign_of (val i) else 0) [0..<Suc n]" using Suc by simp
    show ?case unfolding e fold_append comp_def ih
      by (rule nth_equalityI) (auto simp: nth_list_update le_Suc_eq simp del: upt_Suc)
  qed
  from this [of "pp_orivars p" "pp_orivars p"] show ?thesis
    by (auto simp: build_model_def intro!: map_cong simp del: upt_Suc replicate_Suc)
qed

lemma rows_sat_cong:
  assumes "rows_ok p" and "\<And>v. v \<in> {1..pp_vars p} \<Longrightarrow> a v = b v"
  shows "rows_sat a (pp_rows p) = rows_sat b (pp_rows p)"
proof -
  have "row_sat a (pp_clause p ! i) (pp_degree p ! i) = row_sat b (pp_clause p ! i) (pp_degree p ! i)" if i: "i \<in> {1..pp_clauses p}" for i
  proof -
    have "lit_sat a l = lit_sat b l" if "l \<in> set (pp_clause p ! i)" for l
    proof -
      have "lit_var l \<in> {1..pp_vars p}" using assms(1) i that lit_var_pos [of l] by (auto simp: rows_ok_def)
      then show ?thesis using assms(2) by (simp add: lit_sat_def)
    qed
    then show ?thesis unfolding row_sat_def using row_count_cong by metis
  qed
  then show ?thesis unfolding rows_sat_def pp_rows_def by (auto simp del: upt_Suc)
qed

section \<open>What a phase hands on\<close>

text \<open>The rows of \<open>q\<close> are satisfiable exactly when the file is, and from the values of any model
  of them \<open>build_model\<close> computes values of all variables of the file that satisfy it.\<close>

definition reconstructs :: "((nat \<Rightarrow> bool) \<Rightarrow> bool) \<Rightarrow> nat \<Rightarrow> preproc \<Rightarrow> bool" where
  "reconstructs Q n q \<longleftrightarrow> rows_ok q \<and> ((\<exists>a. Q a) \<longleftrightarrow> (\<exists>b. rows_sat b (pp_rows q)))
     \<and> (\<forall>val. rows_sat (\<lambda>v. 0 < val v) (pp_rows q) \<longrightarrow> (\<exists>m. build_model True val q = (True, m) \<and> length m = n + 1
          \<and> (\<forall>i\<in>{1..n}. m ! i = 1 \<or> m ! i = -1) \<and> Q (\<lambda>i. m ! i = 1)))"

lemma reconstructsI:
  assumes "groups_at k mf rg q" and "recovers_all Q k mf rg q" and "rows_ok q" and n: "pp_orivars q = n"
    and "(\<exists>a. Q a) \<longrightarrow> (\<exists>b. rows_sat b (pp_rows q))"
  shows "reconstructs Q n q"
  unfolding reconstructs_def
proof (intro conjI allI impI)
  show "(\<exists>a. Q a) \<longleftrightarrow> (\<exists>b. rows_sat b (pp_rows q))" using assms(5) recovers_exists [OF assms(2,1)] by blast
  show "\<exists>m. build_model True val q = (True, m) \<and> length m = n + 1
      \<and> (\<forall>i\<in>{1..n}. m ! i = 1 \<or> m ! i = -1) \<and> Q (\<lambda>i. m ! i = 1)"
    if "rows_sat (\<lambda>v. 0 < val v) (pp_rows q)" for val
    using build_model_ok [OF assms(1,2) that] unfolding n .
qed (rule assms(3))

lemma recoverable_reconstructs:
  assumes "recoverable Q q" and "pp_orivars q = n" and "(\<exists>a. Q a) \<longrightarrow> (\<exists>b. rows_sat b (pp_rows q))"
  shows "reconstructs Q n q"
proof -
  obtain k mf rg where g: "groups_at k mf rg q" "recovers_all Q k mf rg q" and r: "rows_ok q"
    using assms(1) by (auto simp: recoverable_def shape_ok_def)
  show ?thesis by (rule reconstructsI [OF g r assms(2,3)])
qed

lemma up_then_resolution:
  assumes p: "loaded_ok p" and up: "preprocess_up (preprocess_init p) = Some (Some q)"
  defines "Q \<equiv> input_sat (preprocess_init p)"
  shows "\<exists>r. preprocess_resolution q = Some r \<and> (case r of
      None \<Rightarrow> \<forall>a. \<not> Q a
    | Some q' \<Rightarrow> recoverable Q q' \<and> pp_orivars q' = pp_vars p \<and> pp_vars q' \<le> pp_vars p
        \<and> ((\<exists>a. Q a) \<longrightarrow> (\<exists>b. rows_sat b (pp_rows q'))))"
proof -
  note i = init_input_sat_vars [OF p]
  have q: "res_input_ok q" "maps_ok q" "decodes Q q" "pp_orivars q = pp_vars p" "(\<exists>a. Q a) \<longrightarrow> (\<exists>b. rows_sat b (pp_rows q))"
    using preprocess_up_contract [OF i(1)] up i(2) by (auto simp: Q_def)
  have n: "pp_vars q \<le> pp_vars p" using maps_ok_vars [OF q(2)] q(4) by simp
  obtain r where r: "preprocess_resolution q = Some r" "case r of None \<Rightarrow> \<forall>b. \<not> rows_sat b (pp_rows q)
    | Some q' \<Rightarrow> recoverable Q q' \<and> pp_orivars q' = pp_orivars q \<and> pp_vars q' \<le> pp_vars q
        \<and> ((\<exists>b. rows_sat b (pp_rows q)) \<longrightarrow> (\<exists>b. rows_sat b (pp_rows q')))"
    using preprocess_resolution_contract [OF q(1-3)] by blast
  show ?thesis
  proof (cases r)
    case None
    then show ?thesis using r q(5) unfolding None option.case by (intro exI [of _ None]) auto
  next
    case (Some q')
    have "recoverable Q q'" "pp_orivars q' = pp_vars p" "pp_vars q' \<le> pp_vars p"
      "(\<exists>a. Q a) \<longrightarrow> (\<exists>b. rows_sat b (pp_rows q'))"
      using r(2) q(4,5) n unfolding Some option.case by auto
    then show ?thesis using r(1) Some by simp
  qed
qed

section \<open>Properties\<close>

text \<open>C2. Resolution and pure literals on what unit propagation leaves of a loaded problem: the
  phase returns; if it answers no, the file has no model; otherwise the rows it leaves are ready for
  the search, they are satisfiable exactly when the file is, and from the values of every model of
  them the reconstruction computes a value for every variable of the file, the eliminated ones
  included, that together satisfy the file.\<close>

theorem preprocess_resolution_sound:
  assumes "loaded_ok p" and "preprocess_up (preprocess_init p) = Some (Some q)"
  shows "\<exists>r. preprocess_resolution q = Some r \<and> (case r of
      None \<Rightarrow> \<forall>a. \<not> input_sat (preprocess_init p) a
    | Some q' \<Rightarrow> reconstructs (input_sat (preprocess_init p)) (pp_vars p) q')"
proof -
  obtain r where r: "preprocess_resolution q = Some r" "case r of None \<Rightarrow> \<forall>a. \<not> input_sat (preprocess_init p) a
    | Some q' \<Rightarrow> recoverable (input_sat (preprocess_init p)) q' \<and> pp_orivars q' = pp_vars p \<and> pp_vars q' \<le> pp_vars p
        \<and> ((\<exists>a. input_sat (preprocess_init p) a) \<longrightarrow> (\<exists>b. rows_sat b (pp_rows q')))"
    using up_then_resolution [OF assms] by blast
  show ?thesis
  proof (cases r)
    case None
    then show ?thesis using r by simp
  next
    case (Some q')
    have "reconstructs (input_sat (preprocess_init p)) (pp_vars p) q'"
      by (rule recoverable_reconstructs) (use r(2) in \<open>simp_all add: Some\<close>)
    then show ?thesis using r(1) Some by simp
  qed
qed

text \<open>C3. Equivalent and fixed variables, after resolution on a problem whose variables fit an
  \<open>int\<close>: the turns end and the phase returns; if it answers no, the file has no model; otherwise the
  rows over the roots of the union-find forest are ready for the search, satisfiable exactly when
  the file is, and every model of them is taken back to a model of the file, through the signs of
  the forest, the fixed values and the eliminated variables.\<close>

theorem preprocess_binary_sound:
  assumes "loaded_ok p" and "int (pp_vars p) < 2 ^ 31" and "preprocess_up (preprocess_init p) = Some (Some q)"
    and "preprocess_resolution q = Some (Some t)"
  shows "\<exists>r. preprocess_binary t = Some r \<and> (case r of
      None \<Rightarrow> \<forall>a. \<not> input_sat (preprocess_init p) a
    | Some q' \<Rightarrow> reconstructs (input_sat (preprocess_init p)) (pp_vars p) q')"
proof -
  let ?Q = "input_sat (preprocess_init p)"
  have t: "recoverable ?Q t" "pp_orivars t = pp_vars p" "pp_vars t \<le> pp_vars p" "(\<exists>a. ?Q a) \<longrightarrow> (\<exists>b. rows_sat b (pp_rows t))"
    using up_then_resolution [OF assms(1,3)] assms(4) by auto
  have n: "int (pp_vars t) < 2 ^ 31" using t(3) assms(2) by linarith
  obtain r where r: "preprocess_binary t = Some r" "case r of None \<Rightarrow> \<forall>b. \<not> rows_sat b (pp_rows t)
    | Some q' \<Rightarrow> recoverable ?Q q' \<and> pp_orivars q' = pp_orivars t
        \<and> ((\<exists>b. rows_sat b (pp_rows t)) \<longrightarrow> (\<exists>b. rows_sat b (pp_rows q')))"
    using preprocess_binary_contract [OF n t(1)] by blast
  show ?thesis
  proof (cases r)
    case None
    then show ?thesis using r t(4) unfolding None option.case by (intro exI [of _ None]) auto
  next
    case (Some q')
    have "reconstructs ?Q (pp_vars p) q'"
      by (rule recoverable_reconstructs) (use r(2) t(2,4) in \<open>auto simp: Some\<close>)
    then show ?thesis using r(1) Some by simp
  qed
qed

text \<open>What the file asks for: with preprocessing the rows are read as sets of literals.\<close>

definition file_sat :: "opts \<Rightarrow> preproc \<Rightarrow> (nat \<Rightarrow> bool) \<Rightarrow> bool" where
  "file_sat opt p a \<longleftrightarrow> (if opt_preprocessing opt \<noteq> 0 then input_sat (preprocess_init p) a else rows_sat a (pp_rows p))"

lemma load_problem_ok:
  assumes rd: "read_file data fresh_preproc = Some (Inr p)" and b: "in_bounds p" and ok: "opt_preprocessing opt = 0 \<Longrightarrow> rows_ok p"
  shows "\<exists>res q. load_problem opt data = Some (Inr (res, q)) \<and> (res = 20 \<and> (\<forall>a. \<not> file_sat opt p a)
    \<or> res = 0 \<and> rows_ok q \<and> ((\<exists>a. file_sat opt p a) \<longleftrightarrow> (\<exists>b. rows_sat b (pp_rows q)))
        \<and> (\<forall>val. rows_sat (\<lambda>v. 0 < val v) (pp_rows q) \<longrightarrow> (\<exists>m. build_model (opt_preprocessing opt \<noteq> 0) val q = (True, m)
             \<and> length m = pp_vars p + 1 \<and> (\<forall>i\<in>{1..pp_vars p}. m ! i = 1 \<or> m ! i = -1) \<and> file_sat opt p (\<lambda>i. m ! i = 1))))"
proof (cases "opt_preprocessing opt = 0")
  case True
  have ty: "problem_typed p" by (rule read_file_typed [OF rd])
  have rok: "rows_ok p" by (rule ok [OF True])
  have m: "build_model False val p = (True, map (\<lambda>i. if i = 0 then 0 else sign_of (val i)) [0..<Suc (pp_vars p)])" for val
    using plain_model [of val p] ty by (simp add: problem_typed_def del: upt_Suc)
  have fs: "file_sat opt p = (\<lambda>a. rows_sat a (pp_rows p))" using True by (simp add: file_sat_def fun_eq_iff)
  have "\<exists>m. build_model False val p = (True, m) \<and> length m = pp_vars p + 1 \<and> (\<forall>i\<in>{1..pp_vars p}. m ! i = 1 \<or> m ! i = -1)
      \<and> rows_sat (\<lambda>i. m ! i = 1) (pp_rows p)" if v: "rows_sat (\<lambda>v. 0 < val v) (pp_rows p)" for val
  proof -
    let ?m = "map (\<lambda>i. if i = 0 then 0 else sign_of (val i)) [0..<Suc (pp_vars p)]"
    have at: "?m ! i = sign_of (val i)" if "i \<in> {1..pp_vars p}" for i using that by (simp del: upt_Suc)
    have pm: "sign_of x = 1 \<or> sign_of x = -1" for x by (simp add: sign_of_def)
    have "rows_sat (\<lambda>i. ?m ! i = 1) (pp_rows p) = rows_sat (\<lambda>v. 0 < val v) (pp_rows p)"
      by (rule rows_sat_cong [OF rok]) (simp only: at, simp add: sign_of_def)
    then show ?thesis using m [of val] v at pm by (intro exI [of _ ?m]) (simp del: upt_Suc)
  qed
  then show ?thesis using True rd rok by (simp add: load_problem_def fs)
next
  case False
  have ty: "problem_typed p" by (rule read_file_typed [OF rd])
  have ld: "loaded_ok p" by (rule typed_loaded [OF ty b])
  note i = init_input_sat_vars [OF ld]
  have n: "int (pp_vars (preprocess_init p)) < 2 ^ 31" using ty i(2) by (simp add: problem_typed_def int_max_def)
  obtain r where r: "run_phases (preprocess_init p) = Some (Inr r)"
    "phases_ok (input_sat (preprocess_init p)) (pp_vars (preprocess_init p)) r"
    using run_phases_ok [OF i(1) n] by blast
  obtain res q where rq: "r = (res, q)" by fastforce
  have lp: "load_problem opt data = Some (Inr (res, q))" using False rd r(1) rq by (simp add: load_problem_def do_preprocess_def)
  have fs: "file_sat opt p = input_sat (preprocess_init p)" using False by (simp add: file_sat_def fun_eq_iff)
  show ?thesis
  proof (cases "res = 20 \<and> (\<forall>a. \<not> input_sat (preprocess_init p) a)")
    case True
    then show ?thesis using lp by (simp add: fs)
  next
    case not20: False
    then obtain k mf rg where q: "res = 0" "rows_ok q" "pp_orivars q = pp_vars p" "groups_at k mf rg q"
      "recovers_all (input_sat (preprocess_init p)) k mf rg q"
      "(\<exists>a. input_sat (preprocess_init p) a) \<longleftrightarrow> (\<exists>b. rows_sat b (pp_rows q))"
      using r(2) i(2) unfolding phases_ok_def rq prod.case by auto
    have "reconstructs (input_sat (preprocess_init p)) (pp_vars p) q"
      by (rule reconstructsI [OF q(4,5,2,3)]) (use q(6) in blast)
    then show ?thesis using lp False q(1) unfolding reconstructs_def by (intro exI [of _ res] exI [of _ q]) (simp add: fs)
  qed
qed

text \<open>C1. The whole program, from the text of the file to its answer, in both modes and with or
  without preprocessing, whatever the random numbers, the allocator and the uninitialised memory
  are: if the file is loaded with its variables in the declared range, an answer 10 comes with one
  value 1 or -1 for every variable, and these values satisfy the file; an answer 20 means that the
  file has no model.  In mode 1 the same is assumed of the conflict-driven solver on the rows it is
  given; without preprocessing the rows must be in the shape the search expects.\<close>

theorem run_sound:
  assumes "read_file data fresh_preproc = Some (Inr p)" and "in_bounds p" and "opt_preprocessing opt = 0 \<Longrightarrow> rows_ok p"
    and "opt_mode opt = 0 \<or> ccdcl_correct env" and "run opt env data = Some (Inr (res, m))"
  shows "(res = 10 \<longrightarrow> length m = pp_vars p + 1 \<and> (\<forall>i\<in>{1..pp_vars p}. m ! i = 1 \<or> m ! i = -1) \<and> file_sat opt p (\<lambda>i. m ! i = 1))
    \<and> (res = 20 \<longrightarrow> (\<forall>a. \<not> file_sat opt p a))"
proof -
  obtain r0 q where l: "load_problem opt data = Some (Inr (r0, q))"
    and c: "r0 = 20 \<and> (\<forall>a. \<not> file_sat opt p a)
      \<or> r0 = 0 \<and> rows_ok q \<and> ((\<exists>a. file_sat opt p a) \<longleftrightarrow> (\<exists>b. rows_sat b (pp_rows q)))
        \<and> (\<forall>val. rows_sat (\<lambda>v. 0 < val v) (pp_rows q) \<longrightarrow> (\<exists>m. build_model (opt_preprocessing opt \<noteq> 0) val q = (True, m)
             \<and> length m = pp_vars p + 1 \<and> (\<forall>i\<in>{1..pp_vars p}. m ! i = 1 \<or> m ! i = -1) \<and> file_sat opt p (\<lambda>i. m ! i = 1)))"
    using load_problem_ok [OF assms(1-3)] by blast
  from c show ?thesis
  proof (elim disjE conjE)
    assume "r0 = 20" "\<forall>a. \<not> file_sat opt p a"
    then show ?thesis using assms(5) l by (simp add: run_def)
  next
    assume r: "r0 = 0" "rows_ok q" and ex: "(\<exists>a. file_sat opt p a) = (\<exists>b. rows_sat b (pp_rows q))"
      and bm: "\<forall>val. rows_sat (\<lambda>v. 0 < val v) (pp_rows q) \<longrightarrow> (\<exists>m. build_model (opt_preprocessing opt \<noteq> 0) val q = (True, m)
             \<and> length m = pp_vars p + 1 \<and> (\<forall>i\<in>{1..pp_vars p}. m ! i = 1 \<or> m ! i = -1) \<and> file_sat opt p (\<lambda>i. m ! i = 1))"
    obtain rs val where s: "search_problem opt env q = Some (rs, val)"
      using assms(5) l r(1) by (auto simp: run_def split: option.splits)
    note so = search_problem_ok [OF r(2) s assms(4)]
    obtain d m' where bd: "build_model (opt_preprocessing opt \<noteq> 0) val q = (d, m')" by fastforce
    have e: "(res, m) = (if rs \<noteq> 10 then (rs, []) else (if d then 10 else 0, m'))"
      using assms(5) l r(1) s bd by (simp add: run_def split: if_splits)
    show ?thesis
    proof (cases "rs = 10")
      case False
      then have "res = rs" using e by simp
      moreover have "rs = 20 \<longrightarrow> (\<forall>a. \<not> file_sat opt p a)" using so ex by blast
      ultimately show ?thesis using False by simp
    next
      case True
      then obtain m'' where m'': "build_model (opt_preprocessing opt \<noteq> 0) val q = (True, m'')" "length m'' = pp_vars p + 1"
        "\<forall>i\<in>{1..pp_vars p}. m'' ! i = 1 \<or> m'' ! i = -1" "file_sat opt p (\<lambda>i. m'' ! i = 1)" using bm so by blast
      then have "res = 10" "m = m''" using bd e True by simp_all
      then show ?thesis using m'' by simp
    qed
  qed
qed

text \<open>C4. The program always comes to an end and answers: on every text whose characters are those
  of the format, if what is loaded keeps its variables in the declared range, the reader, the
  phases of the preprocessing and the search all return, and with the local search the answer is
  0, 10 or 20 unless the reader or the memory budget stops the process.\<close>

theorem run_terminates:
  assumes "lexed data" and "\<And>p. read_file data fresh_preproc = Some (Inr p) \<Longrightarrow> in_bounds p \<and> (opt_preprocessing opt = 0 \<longrightarrow> rows_ok p)"
  shows "\<exists>r. run opt env data = Some r \<and> (opt_mode opt = 0 \<longrightarrow> (case r of Inl e \<Rightarrow> True | Inr (res, m) \<Rightarrow> res \<in> {0, 10, 20}))"
proof -
  have rd: "read_file data fresh_preproc \<noteq> None"
  proof -
    have "parse_run (parse_start v c cl dg data) \<noteq> None" for v c cl dg by (rule lexed_run) (simp add: parse_start_def assms(1))
    then show ?thesis by (auto simp: read_file_def readfile_def Let_def split: option.splits sum.splits)
  qed
  show ?thesis
  proof (cases "\<exists>p. read_file data fresh_preproc = Some (Inr p)")
    case False
    then obtain e where "read_file data fresh_preproc = Some (Inl e)" using rd by (metis not_None_eq old.sum.exhaust)
    then show ?thesis by (simp add: run_def load_problem_def do_preprocess_def)
  next
    case True
    then obtain p where p: "read_file data fresh_preproc = Some (Inr p)" by blast
    obtain r0 q where l: "load_problem opt data = Some (Inr (r0, q))" "r0 = 20 \<or> r0 = 0 \<and> rows_ok q"
      using load_problem_ok [OF p, of opt] assms(2) [OF p] by blast
    show ?thesis
    proof (cases "r0 = 20")
      case True
      then show ?thesis using l by (simp add: run_def)
    next
      case False
      then have z: "r0 = 0" "rows_ok q" using l(2) by simp_all
      show ?thesis
      proof (cases "search_problem opt env q")
        case None
        then show ?thesis using l z by (simp add: run_def)
      next
        case (Some x)
        obtain rs val where x: "x = (rs, val)" by fastforce
        obtain d m where bm: "build_model (opt_preprocessing opt \<noteq> 0) val q = (d, m)" by fastforce
        have e: "run opt env data = Some (Inr (if rs \<noteq> 10 then (rs, []) else (if d then 10 else 0, m)))"
          using l z Some bm by (simp add: run_def x)
        have "rs \<in> {0, 10}" if m0: "opt_mode opt = 0"
        proof -
          obtain st where "solve (parse_from_preprocess q) opt (env_rand env) (env_alloc env) (env_garbage env) = Some (rs, st)"
            using Some m0 by (auto simp: search_problem_def x split: option.splits)
          from solve_inv(2) [OF parse_from_preprocess_wf [OF z(2)] this] show ?thesis by simp
        qed
        then show ?thesis unfolding e by auto
      qed
    qed
  qed
qed

section \<open>Witnesses\<close>

lemma demo_sat: "input_sat (preprocess_init demo_loaded) (\<lambda>v. v \<noteq> 4)"
  by code_simp

text \<open>The satisfiable problem passes all phases.\<close>

lemma demo_resolved:
  obtains q t where "preprocess_up (preprocess_init demo_loaded) = Some (Some q)" "preprocess_resolution q = Some (Some t)"
proof -
  obtain q where q: "preprocess_up (preprocess_init demo_loaded) = Some (Some q)" using demo_up_rows by auto
  obtain r where r: "preprocess_resolution q = Some r" "r = None \<longrightarrow> (\<forall>a. \<not> input_sat (preprocess_init demo_loaded) a)"
    using up_then_resolution [OF demo_loaded_ok q] by (auto split: option.splits)
  then obtain t where "r = Some t" using demo_sat by blast
  then show thesis using that q r(1) by simp
qed

theorem preprocess_resolution_sound_witness:
  "\<exists>q t. preprocess_up (preprocess_init demo_loaded) = Some (Some q) \<and> preprocess_resolution q = Some (Some t)
     \<and> reconstructs (input_sat (preprocess_init demo_loaded)) (pp_vars demo_loaded) t"
proof -
  obtain q t where p: "preprocess_up (preprocess_init demo_loaded) = Some (Some q)" "preprocess_resolution q = Some (Some t)"
    by (rule demo_resolved)
  then show ?thesis using preprocess_resolution_sound [OF demo_loaded_ok p(1)] by auto
qed

theorem preprocess_binary_sound_witness:
  "\<exists>q t u. preprocess_resolution q = Some (Some t) \<and> preprocess_binary t = Some (Some u)
     \<and> reconstructs (input_sat (preprocess_init demo_loaded)) (pp_vars demo_loaded) u"
proof -
  obtain q t where p: "preprocess_up (preprocess_init demo_loaded) = Some (Some q)" "preprocess_resolution q = Some (Some t)"
    by (rule demo_resolved)
  have n: "int (pp_vars demo_loaded) < 2 ^ 31" by (simp add: demo_loaded_def)
  obtain r where r: "preprocess_binary t = Some r" "case r of
      None \<Rightarrow> \<forall>a. \<not> input_sat (preprocess_init demo_loaded) a
    | Some u \<Rightarrow> reconstructs (input_sat (preprocess_init demo_loaded)) (pp_vars demo_loaded) u"
    using preprocess_binary_sound [OF demo_loaded_ok n p] by blast
  then obtain u where "r = Some u" using demo_sat by (cases r) auto
  then show ?thesis using p(2) r by auto
qed

definition demo_env :: environment where
  "demo_env = \<lparr>env_rand = (\<lambda>_. 0), env_alloc = (\<lambda>_. True), env_garbage = demo_garbage,
     env_ccdcl = (\<lambda>q. if rows_sat (\<lambda>_. True) (pp_rows q) then (10, \<lambda>_. 1) else (0, \<lambda>_. 0))\<rparr>"

lemma demo_run:
  "case run (default_options\<lparr>opt_mode := 1\<rparr>) demo_env demo_text of
     Some (Inr (res, m)) \<Rightarrow> res = 10 \<and> m = [0, 1, -1, -1] | _ \<Rightarrow> False"
  by code_simp

lemma demo_read:
  "case read_file demo_text fresh_preproc of Some (Inr p) \<Rightarrow> in_bounds p \<and> pp_vars p = 3 | _ \<Rightarrow> False"
  by code_simp

theorem run_sound_witness:
  "\<exists>p. read_file demo_text fresh_preproc = Some (Inr p)
     \<and> run (default_options\<lparr>opt_mode := 1\<rparr>) demo_env demo_text = Some (Inr (10, [0, 1, -1, -1]))
     \<and> file_sat (default_options\<lparr>opt_mode := 1\<rparr>) p (\<lambda>i. [0, 1, -1, -1] ! i = (1 :: int))"
proof -
  obtain p where p: "read_file demo_text fresh_preproc = Some (Inr p)" "in_bounds p" using demo_read by (auto split: option.splits sum.splits)
  have r: "run (default_options\<lparr>opt_mode := 1\<rparr>) demo_env demo_text = Some (Inr (10, [0, 1, -1, -1]))"
    using demo_run by (auto split: option.splits sum.splits)
  have c: "ccdcl_correct demo_env" by (simp add: ccdcl_correct_def demo_env_def)
  show ?thesis using run_sound [OF p _ _ r] c p r by (simp add: default_options_def)
qed

theorem run_terminates_witness: "\<exists>r. run default_options demo_env demo_text = Some r"
proof -
  have l: "lexed demo_text" by code_simp
  have b: "in_bounds p \<and> (opt_preprocessing default_options = 0 \<longrightarrow> rows_ok p)"
    if "read_file demo_text fresh_preproc = Some (Inr p)" for p
    using demo_read that by (simp add: default_options_def)
  show ?thesis using run_terminates [OF l b, of demo_env] by blast
qed

end
