(* ===== verification/Ls_Progress.thy ===== *)
theory Ls_Progress
  imports Ls_Properties
begin

text \<open>
  Progress of the search: while a good variable is on the stack every move without a swap lowers
  the weighted violation, so the greedy phase ends, in a solution or where the weights go up.
\<close>

lemma violation_nonneg:
  assumes "weights_ok I st"
  shows "0 \<le> violation I (unit_weight st) a"
proof -
  have "0 \<le> unit_weight st c" if "c < num_clauses I" for c using assms that by (force simp: weights_ok_def)
  then show ?thesis unfolding violation_def by (intro sum_nonneg mult_nonneg_nonneg) simp_all
qed

lemma flip_violation:
  assumes wf: "wf_inst I" and inv: "ls_inv I st" and v: "v \<in> {1..num_vars I}"
  shows "violation I (unit_weight st) (cur_soln (flip I v st)) = violation I (unit_weight st) (cur_soln st) - score st v"
    and "unit_weight (flip I v st) = unit_weight st"
proof -
  have b: "cur_soln st v = 0 \<or> cur_soln st v = 1" and sc: "score_at I st v" and cnt: "counts_ok I st"
    using inv v by (auto simp: ls_inv_def soln_ok_def scores_ok_def)
  have cur: "cur_soln (flip I v st) = flip_soln v (cur_soln st)" by (simp add: flip_frame)
  have "score_spec I (cur_soln st) (sat_count st) (unit_weight st) v
      = violation I (unit_weight st) (cur_soln st) - violation I (unit_weight st) (flip_soln v (cur_soln st))"
    using cnt by (intro score_spec_violation [where a = "cur_soln st" and v = v, OF wf b]) (simp add: counts_ok_def)
  with sc cur show "violation I (unit_weight st) (cur_soln (flip I v st)) = violation I (unit_weight st) (cur_soln st) - score st v"
    by (simp add: score_at_def)
  show "unit_weight (flip I v st) = unit_weight st" using ls_restD [OF flip_rest [of I v st]] by simp
qed

definition no_swap :: "ls_par \<Rightarrow> nat \<Rightarrow> bool" where
  "no_swap P k \<longleftrightarrow> \<not> enable_swap P \<or> k < swap_non_improve_flip P"

lemma greedy_move:
  assumes wf: "wf_inst I" and inv: "ls_inv I st" and k: "no_swap P k" and good: "0 < fill_pointer (goodvar st)"
  shows "ls_inv I (search_move I P k st)" and "unit_weight (search_move I P k st) = unit_weight st"
    and "violation I (unit_weight st) (cur_soln (search_move I P k st)) < violation I (unit_weight st) (cur_soln st)"
proof -
  let ?st = "st\<lparr>total_step := total_step st + 1\<rparr>"
  have sw: "swap_now P k ?st = (False, ?st)" using k by (auto simp: swap_now_def no_swap_def)
  obtain v s where pv: "pick_var I P ?st = (v, s)" by fastforce
  have g: "v \<in> set (items (goodvar ?st))" "\<exists>p. s = ?st\<lparr>m_prng_state := p\<rparr>"
    using pick_var_good(1) [OF _ pv] good by simp_all
  then obtain x where s: "s = ?st\<lparr>m_prng_state := x\<rparr>" by blast
  have v: "v \<in> {1..num_vars I}" "0 < score st v" using g(1) inv by (auto simp: ls_inv_def good_ok_def)
  have si: "ls_inv I s" using inv by (simp add: s)
  have m: "search_move I P k st = (flip I v s)\<lparr>time_stamp := (time_stamp (flip I v s))(v := int (ls_step (flip I v s)))\<rparr>"
    unfolding search_move_def Let_def sw prod.case if_False pv by (rule refl)
  note fv = flip_violation [OF wf si v(1)]
  have "ls_inv I (flip I v s)" by (rule flip_inv [OF wf _ _ si]) (use v in simp_all)
  then show "ls_inv I (search_move I P k st)" unfolding m by simp
  show "unit_weight (search_move I P k st) = unit_weight st" unfolding m using fv(2) by (simp add: s)
  have "unit_weight s = unit_weight st" "score s = score st" "cur_soln s = cur_soln st" by (simp_all add: s)
  then show "violation I (unit_weight st) (cur_soln (search_move I P k st)) < violation I (unit_weight st) (cur_soln st)"
    unfolding m using fv(1) v(2) by simp
qed

text \<open>C6. The greedy phase of the search makes progress: from every state that satisfies the
  invariant, and for every sequence of moves in which no swap is due, after at most as many moves
  as the weighted violation counts the search stands in a solution or has no good variable left,
  and then the next move raises weights.  The state reached satisfies the invariant, and no weight
  has changed on the way.\<close>

theorem greedy_phase_ends:
  assumes "wf_inst I" and "ls_inv I st" and "list_all (no_swap P) ks"
    and "nat (violation I (unit_weight st) (cur_soln st)) \<le> length ks"
  shows "\<exists>n t. n \<le> nat (violation I (unit_weight st) (cur_soln st)) \<and> t = fold (search_move I P) (take n ks) st
    \<and> ls_inv I t \<and> unit_weight t = unit_weight st \<and> (is_solution I (cur_soln t) \<or> fill_pointer (goodvar t) = 0)"
  using assms(2-4)
proof (induction ks arbitrary: st)
  case Nil
  let ?w = "unit_weight st"
  have "fill_pointer (goodvar st) = 0"
  proof (rule ccontr)
    assume "fill_pointer (goodvar st) \<noteq> 0"
    then obtain k where g: "0 < fill_pointer (goodvar st)" by blast
    obtain v where v: "v \<in> set (items (goodvar st))" using g by (cases "items (goodvar st)") auto
    then have "v \<in> {1..num_vars I}" "0 < score st v" using Nil.prems(1) by (auto simp: ls_inv_def good_ok_def)
    then have "violation I ?w (cur_soln (flip I v st)) < violation I ?w (cur_soln st)"
      using flip_violation(1) [OF assms(1) Nil.prems(1)] by simp
    moreover have "0 \<le> violation I ?w (cur_soln (flip I v st))"
      using Nil.prems(1) by (intro violation_nonneg) (simp add: ls_inv_def)
    ultimately show False using Nil.prems(3) by simp
  qed
  then show ?case using Nil.prems(1) by (intro exI [of _ 0]) simp
next
  case (Cons k ks)
  show ?case
  proof (cases "is_solution I (cur_soln st) \<or> fill_pointer (goodvar st) = 0")
    case True
    then show ?thesis using Cons.prems(1) by (intro exI [of _ 0]) simp
  next
    case False
    let ?t = "search_move I P k st"
    have kk: "no_swap P k" "list_all (no_swap P) ks" using Cons.prems(2) by simp_all
    note m = greedy_move [OF assms(1) Cons.prems(1) kk(1)]
    have g: "0 < fill_pointer (goodvar st)" using False by simp
    have nn: "0 \<le> violation I (unit_weight st) (cur_soln ?t)"
      using Cons.prems(1) by (intro violation_nonneg) (simp add: ls_inv_def)
    have less: "Suc (nat (violation I (unit_weight ?t) (cur_soln ?t))) \<le> nat (violation I (unit_weight st) (cur_soln st))"
      using m(2,3) [OF g] nn by simp
    then have "nat (violation I (unit_weight ?t) (cur_soln ?t)) \<le> length ks" using Cons.prems(3) by simp
    from Cons.IH [OF m(1) [OF g] kk(2) this] obtain n t where
      n: "n \<le> nat (violation I (unit_weight ?t) (cur_soln ?t))" "t = fold (search_move I P) (take n ks) ?t"
        "ls_inv I t" "unit_weight t = unit_weight ?t" "is_solution I (cur_soln t) \<or> fill_pointer (goodvar t) = 0" by blast
    then show ?thesis using less m(2) [OF g]
      by (intro exI [of _ "Suc n"]) simp
  qed
qed

lemma demo_violation: "violation demo_inst (unit_weight demo_state) (cur_soln demo_state) = 2"
  by code_simp

theorem greedy_phase_ends_witness:
  "\<exists>n t. n \<le> 2 \<and> t = fold (search_move demo_inst demo_par) (take n [0, 1]) demo_state \<and> ls_inv demo_inst t
    \<and> unit_weight t = unit_weight demo_state \<and> (is_solution demo_inst (cur_soln t) \<or> fill_pointer (goodvar t) = 0)"
proof -
  have "list_all (no_swap demo_par) [0, 1]" by code_simp
  moreover have "nat (violation demo_inst (unit_weight demo_state) (cur_soln demo_state)) \<le> length [0 :: nat, 1]"
    by (simp add: demo_violation)
  ultimately show ?thesis using greedy_phase_ends [OF demo_wf demo_inv, of demo_par "[0, 1]"]
    unfolding demo_violation by simp
qed

end
