(* ===== verification/Prep_Card.thy ===== *)
theory Prep_Card
  imports Preprocess "HOL-Library.While_Combinator"
begin

text \<open>
  Recovering cardinality rows from binary clauses (\<open>preprocess_card\<close>,
  src/PreProcess/card.cpp): every pair of literals of a clique forms a binary clause, so at most
  one literal of the clique is false.  The search records a plan; the plan is verified again
  before it is committed.  Vertices are the packed codes of literals.
\<close>

definition card_max_variables :: int where "card_max_variables = 100000"
definition card_max_clauses :: int where "card_max_clauses = 1000000"
definition kMaximumPairProbes :: int where "kMaximumPairProbes = 50000000"

record clique =
  cl_literals :: "int list"
  cl_edge_ids :: "nat list"
  cl_duplicate_ids :: "nat list"

definition edge_key :: "int \<Rightarrow> int \<Rightarrow> 64 word" where
  "edge_key x y =
     (let first = (if x > y then y else x); second = (if x > y then x else y)
      in push_bit 32 (ucast (word_of_int first :: 32 word)) OR ucast (word_of_int second :: 32 word))"

section \<open>Verification of a clique\<close>

definition row_matches_edge :: "preproc \<Rightarrow> nat \<Rightarrow> int \<Rightarrow> int \<Rightarrow> bool" where
  "row_matches_edge p i x y =
     (if i < 1 \<or> i > pp_clauses p \<or> pp_deg p i \<noteq> 1 \<or> length (pp_row p i) \<noteq> 2 then False
      else
        let first = toeidx x; second = toeidx y; row_first = pp_row p i ! 0; row_second = pp_row p i ! 1
        in row_first = first \<and> row_second = second \<or> row_first = second \<and> row_second = first)"

definition edge_pairs :: "nat \<Rightarrow> (nat \<times> nat) list" where
  "edge_pairs sz = concat (map (\<lambda>right. map (\<lambda>left. (right, left)) [0..<right]) [1..<sz])"

definition duplicate_ok :: "preproc \<Rightarrow> int list \<Rightarrow> nat \<Rightarrow> bool" where
  "duplicate_ok p lits i =
     (if i < 1 \<or> i > pp_clauses p \<or> pp_deg p i \<noteq> 1 \<or> length (pp_row p i) \<noteq> 2 then False
      else pp_row p i ! 0 \<noteq> pp_row p i ! 1 \<and> pp_row p i ! 0 \<in> set lits \<and> pp_row p i ! 1 \<in> set lits)"

definition verify_clique :: "preproc \<Rightarrow> clique \<Rightarrow> bool" where
  "verify_clique p c =
     (let lits = cl_literals c; sz = length lits
      in \<not> (sz < 3 \<or> int (length (cl_edge_ids c)) \<noteq> int sz * (int sz - 1) div 2)
       \<and> successively (\<noteq>) (sort (map (\<lambda>l. \<bar>l\<bar>) lits))
       \<and> list_all (\<lambda>(i, right, left). row_matches_edge p i (tolit (lits ! right)) (tolit (lits ! left)))
                  (zip (cl_edge_ids c) (edge_pairs sz))
       \<and> list_all (duplicate_ok p (sort lits)) (cl_duplicate_ids c))"

definition is_pure_triangle :: "preproc \<Rightarrow> clique \<Rightarrow> bool" where
  "is_pure_triangle p c =
     (if length (cl_literals c) \<noteq> 3 \<or> length (cl_edge_ids c) \<noteq> 3 \<or> cl_duplicate_ids c \<noteq> [] then False
      else successively (\<noteq>) (sort (cl_edge_ids c)) \<and> verify_clique p c)"

section \<open>The search\<close>

definition card_binary :: "preproc \<Rightarrow> nat \<Rightarrow> bool" where
  "card_binary p i \<longleftrightarrow> pp_deg p i = 1 \<and> length (pp_row p i) = 2"

record edges =
  ed_active :: "64 word \<rightharpoonup> nat"
  ed_duplicate :: "64 word \<Rightarrow> nat list"
  ed_occurrence :: "int \<Rightarrow> int list"

definition add_edge :: "preproc \<Rightarrow> nat \<Rightarrow> edges \<Rightarrow> edges" where
  "add_edge p i e =
     (if \<not> card_binary p i then e
      else
        let first = tolit (pp_row p i ! 0); second = tolit (pp_row p i ! 1)
        in if first = second \<or> \<bar>toeidx first\<bar> = \<bar>toeidx second\<bar> then e
           else
             let key = edge_key first second
             in if ed_active e key \<noteq> None
                then e\<lparr>ed_duplicate := (ed_duplicate e)(key := ed_duplicate e key @ [i])\<rparr>
                else
                  let occ = ed_occurrence e;
                      occ = occ(first := occ first @ [second]);
                      occ = occ(second := occ second @ [first])
                  in e\<lparr>ed_active := (ed_active e)(key \<mapsto> i), ed_occurrence := occ\<rparr>)"

definition sort_unique :: "int list \<Rightarrow> int list" where
  "sort_unique xs = remdups_adj (sort xs)"

text \<open>The inner loop over the members: \<open>None\<close> when the probes run out (the search returns
  false), otherwise the probes made and the ids and keys if every edge was found.\<close>

fun probe_members :: "(64 word \<rightharpoonup> nat) \<Rightarrow> int \<Rightarrow> int list \<Rightarrow> int \<Rightarrow> nat list \<Rightarrow> 64 word list
    \<Rightarrow> (int \<times> (nat list \<times> 64 word list) option) option" where
  "probe_members active candidate [] probes ids keys = Some (probes, Some (ids, keys))"
| "probe_members active candidate (m # ms) probes ids keys =
     (if probes + 1 > kMaximumPairProbes then None
      else
        let key = edge_key candidate m
        in case active key of
             None \<Rightarrow> Some (probes + 1, None)
           | Some i \<Rightarrow> probe_members active candidate ms (probes + 1) (ids @ [i]) (keys @ [key]))"

record growth =
  gr_vertices :: "int list"
  gr_edge_ids :: "nat list"
  gr_duplicate_ids :: "nat list"
  gr_consumed :: "64 word list"

definition grow_clique :: "edges \<Rightarrow> int \<Rightarrow> int \<times> growth \<Rightarrow> (int \<times> growth) option" where
  "grow_clique e candidate = (\<lambda>(probes, g).
     if list_ex (\<lambda>m. \<bar>toeidx m\<bar> = \<bar>toeidx candidate\<bar>) (gr_vertices g) then Some (probes, g)
     else case probe_members (ed_active e) candidate (gr_vertices g) probes [] [] of
       None \<Rightarrow> None
     | Some (probes, None) \<Rightarrow> Some (probes, g)
     | Some (probes, Some (ids, keys)) \<Rightarrow>
         Some (probes, g\<lparr>gr_edge_ids := gr_edge_ids g @ ids, gr_consumed := gr_consumed g @ keys,
            gr_duplicate_ids := gr_duplicate_ids g @ concat (map (ed_duplicate e) keys),
            gr_vertices := gr_vertices g @ [candidate]\<rparr>))"

record search =
  se_edges :: edges
  se_probes :: int
  se_planned :: "clique list"

definition consume_keys :: "64 word list \<Rightarrow> edges \<Rightarrow> edges" where
  "consume_keys keys e = e\<lparr>ed_active := fold (\<lambda>k m. m(k := None)) keys (ed_active e)\<rparr>"

text \<open>One round of the endless loop: whether it goes on, and the state (\<open>None\<close>: the search
  returns false).\<close>

definition clique_round :: "preproc \<Rightarrow> int \<Rightarrow> int list \<Rightarrow> search \<Rightarrow> bool \<times> search option" where
  "clique_round p start neighbors s =
     (case ofold (grow_clique (se_edges s)) neighbors
             (se_probes s, \<lparr>gr_vertices = [start], gr_edge_ids = [], gr_duplicate_ids = [], gr_consumed = []\<rparr>) of
        None \<Rightarrow> (False, None)
      | Some (probes, g) \<Rightarrow>
          let s = s\<lparr>se_probes := probes\<rparr>
          in if length (gr_vertices g) = 1 then (False, Some s)
             else
               let s = s\<lparr>se_edges := consume_keys (gr_consumed g) (se_edges s)\<rparr>
               in if length (gr_vertices g) = 2 then (True, Some s)
                  else
                    let c = \<lparr>cl_literals = map toeidx (gr_vertices g), cl_edge_ids = gr_edge_ids g,
                             cl_duplicate_ids = gr_duplicate_ids g\<rparr>
                    in if \<not> verify_clique p c then (False, None)
                       else (True, Some (s\<lparr>se_planned := se_planned s @ [c]\<rparr>)))"

definition clique_loop :: "preproc \<Rightarrow> int \<Rightarrow> int list \<Rightarrow> search \<Rightarrow> (bool \<times> search option) option" where
  "clique_loop p start neighbors s =
     while_option fst (\<lambda>(more, s). case s of None \<Rightarrow> (False, None) | Some s \<Rightarrow> clique_round p start neighbors s)
       (True, Some s)"

text \<open>One start vertex with the flags \<open>seen\<close>; the outer result is \<open>None\<close> when a loop does not
  end.\<close>

definition search_start :: "preproc \<Rightarrow> int \<Rightarrow> int set \<times> search \<Rightarrow> (int set \<times> search) option option" where
  "search_start p start = (\<lambda>(seen, s).
     let occ = ed_occurrence (se_edges s)
     in if start \<in> seen \<or> occ start = [] then Some (Some (seen, s))
        else
          let seen = insert start seen
          in if length (occ start) < 2 then Some (Some (seen, s))
             else
               let neighbors = filter (\<lambda>n. n \<notin> seen \<and> length (occ n) \<ge> 2) (occ start)
               in if length neighbors < 2 then Some (Some (seen, s))
                  else case clique_loop p start neighbors s of
                    None \<Rightarrow> None
                  | Some (_, None) \<Rightarrow> Some None
                  | Some (_, Some s) \<Rightarrow> Some (Some (seen, s)))"

fun search_starts :: "preproc \<Rightarrow> nat list \<Rightarrow> int set \<times> search \<Rightarrow> (int set \<times> search) option option" where
  "search_starts p [] r = Some (Some r)"
| "search_starts p (v # vs) r =
     (case search_start p (int v) r of
        None \<Rightarrow> None
      | Some None \<Rightarrow> Some None
      | Some (Some r) \<Rightarrow> search_starts p vs r)"

definition search_almost_one :: "preproc \<Rightarrow> clique list option option" where
  "search_almost_one p =
     (let ids = [1..<Suc (pp_clauses p)]
      in if length (filter (card_binary p) ids) < 3 then Some (Some [])
         else
           let e = fold (add_edge p) ids \<lparr>ed_active = (\<lambda>_. None), ed_duplicate = (\<lambda>_. []), ed_occurrence = (\<lambda>_. [])\<rparr>;
               e = e\<lparr>ed_occurrence := (\<lambda>v. sort_unique (ed_occurrence e v))\<rparr>
           in case search_starts p [0..<2 * pp_vars p] ({}, \<lparr>se_edges = e, se_probes = 0, se_planned = []\<rparr>) of
                None \<Rightarrow> None
              | Some None \<Rightarrow> Some None
              | Some (Some (_, s)) \<Rightarrow> Some (Some (se_planned s)))"

section \<open>Committing the plan\<close>

text \<open>A repeated id makes the function return without a change (\<open>None\<close>).\<close>

definition mark_delete :: "nat \<Rightarrow> nat set \<Rightarrow> nat set option" where
  "mark_delete i del = (if i \<in> del then None else Some (insert i del))"

definition plan_clique :: "preproc \<Rightarrow> clique \<Rightarrow> nat set \<times> (int list \<times> int) list \<times> nat
    \<Rightarrow> (nat set \<times> (int list \<times> int) list \<times> nat) option" where
  "plan_clique p c = (\<lambda>(del, prepared, maxlen).
     if \<not> verify_clique p c then None
     else case ofold mark_delete (cl_edge_ids c) del of
       None \<Rightarrow> None
     | Some del \<Rightarrow>
         (case ofold mark_delete (cl_duplicate_ids c) del of
            None \<Rightarrow> None
          | Some del \<Rightarrow>
              Some (del, prepared @ [(cl_literals c, int (length (cl_literals c)) - 1)],
                    max maxlen (length (cl_literals c)))))"

definition keep_row :: "nat set \<Rightarrow> nat \<Rightarrow> nat \<times> int list list \<times> int list \<Rightarrow> nat \<times> int list list \<times> int list" where
  "keep_row del i = (\<lambda>(output, C, D).
     if i \<in> del then (output, C, D)
     else
       let output = output + 1
       in if output = i then (output, C, D)
          else (output, C[output := C ! i, i := []], D[output := D ! i]))"

definition place_row :: "int list \<times> int \<Rightarrow> nat \<times> int list list \<times> int list \<Rightarrow> nat \<times> int list list \<times> int list" where
  "place_row r = (\<lambda>(output, C, D).
     let output = output + 1 in (output, C[output := fst r], D[output := snd r]))"

definition commit_rows :: "nat set \<Rightarrow> (int list \<times> int) list \<Rightarrow> preproc \<Rightarrow> preproc" where
  "commit_rows del prepared p =
     (let (output, C, D) = fold (keep_row del) [1..<Suc (pp_clauses p)] (0, pp_clause p, pp_degree p);
          (output, C, D) = fold place_row prepared (output, C, D)
      in p\<lparr>pp_clause := take (output + 1) C, pp_degree := take (output + 1) D, pp_clauses := output,
           pp_clause_delete := replicate (output + 1) 0\<rparr>)"

definition preprocess_card :: "preproc \<Rightarrow> preproc option" where
  "preprocess_card p =
     (if int (pp_vars p) > card_max_variables \<or> int (pp_clauses p) > card_max_clauses then Some p
      else case search_almost_one p of
        None \<Rightarrow> None
      | Some None \<Rightarrow> Some p
      | Some (Some planned) \<Rightarrow>
          if planned = [] \<or> \<not> list_all (is_pure_triangle p) planned then Some p
          else case ofold (plan_clique p) planned ({}, [], pp_maxlen p) of
            None \<Rightarrow> Some p
          | Some (del, prepared, maxlen) \<Rightarrow> Some ((commit_rows del prepared p)\<lparr>pp_maxlen := maxlen\<rparr>))"

end
