(* ===== verification/Prep_Card_Props.thy ===== *)
theory Prep_Card_Props
  imports Prep_Card
begin

text \<open>
  Correctness of \<open>preprocess_card\<close>: it returns, and the rows it leaves have exactly the models of
  the rows it was given.
\<close>

section \<open>Committing rows\<close>

definition kept_upto :: "nat set \<Rightarrow> nat \<Rightarrow> nat list" where
  "kept_upto del k = filter (\<lambda>i. i \<notin> del) [1..<Suc k]"

definition kept_inv :: "preproc \<Rightarrow> nat set \<Rightarrow> nat \<Rightarrow> nat \<times> int list list \<times> int list \<Rightarrow> bool" where
  "kept_inv p del k = (\<lambda>(n, C, D). n = length (kept_upto del k)
     \<and> length C = length (pp_clause p) \<and> length D = length (pp_degree p)
     \<and> C ! 0 = pp_row p 0 \<and> D ! 0 = pp_deg p 0
     \<and> (\<forall>j<n. C ! Suc j = pp_row p (kept_upto del k ! j) \<and> D ! Suc j = pp_deg p (kept_upto del k ! j))
     \<and> (\<forall>j>k. C ! j = pp_row p j \<and> D ! j = pp_deg p j))"

lemma length_kept_upto: "length (kept_upto del k) \<le> k"
  using length_filter_le [of "\<lambda>i. i \<notin> del" "[1..<Suc k]"] by (simp add: kept_upto_def del: upt_Suc)

lemma keep_row_inv:
  assumes inv: "kept_inv p del k (n, C, D)" and k: "Suc k < length (pp_clause p)" "Suc k < length (pp_degree p)"
  shows "kept_inv p del (Suc k) (keep_row del (Suc k) (n, C, D))"
proof (cases "Suc k \<in> del")
  case True
  then have "kept_upto del (Suc k) = kept_upto del k" by (simp add: kept_upto_def)
  then show ?thesis using inv True by (simp add: kept_inv_def keep_row_def)
next
  case False
  then have a: "kept_upto del (Suc k) = kept_upto del k @ [Suc k]" by (simp add: kept_upto_def)
  have n: "n \<le> k" "n = length (kept_upto del k)" using inv length_kept_upto [of del k] by (simp_all add: kept_inv_def)
  have r: "C ! Suc k = pp_row p (Suc k)" "D ! Suc k = pp_deg p (Suc k)" "length C = length (pp_clause p)" "length D = length (pp_degree p)"
    using inv by (simp_all add: kept_inv_def)
  have old: "\<forall>j<n. C ! Suc j = pp_row p (kept_upto del k ! j) \<and> D ! Suc j = pp_deg p (kept_upto del k ! j)"
    "\<forall>j>k. C ! j = pp_row p j \<and> D ! j = pp_deg p j" "C ! 0 = pp_row p 0" "D ! 0 = pp_deg p 0"
    using inv by (simp_all add: kept_inv_def)
  show ?thesis
  proof (cases "n = k")
    case True
    then have "keep_row del (Suc k) (n, C, D) = (Suc n, C, D)" using False by (simp add: keep_row_def)
    then show ?thesis using old r n True by (auto simp: kept_inv_def a nth_append less_Suc_eq)
  next
    case other: False
    then have e: "keep_row del (Suc k) (n, C, D) = (Suc n, C[Suc n := C ! Suc k, Suc k := []], D[Suc n := D ! Suc k])"
      using False by (simp add: keep_row_def)
    have "n < k" using n(1) other by simp
    then show ?thesis using old r n k unfolding e kept_inv_def a
      by (auto simp: nth_append nth_list_update less_Suc_eq)
  qed
qed

lemma fold_keep_rows:
  assumes "k < length (pp_clause p)" and "k < length (pp_degree p)"
  shows "kept_inv p del k (fold (keep_row del) [1..<Suc k] (0, pp_clause p, pp_degree p))"
  using assms
proof (induction k)
  case 0
  then show ?case by (simp add: kept_inv_def kept_upto_def)
next
  case (Suc k)
  obtain n C D where r: "fold (keep_row del) [1..<Suc k] (0, pp_clause p, pp_degree p) = (n, C, D)"
    using prod_cases3 by blast
  have "kept_inv p del k (n, C, D)" using Suc unfolding r by simp
  from keep_row_inv [OF this Suc.prems] r show ?case by simp
qed

lemma fold_place_rows:
  assumes "n + length rows < length C" and "n + length rows < length D"
  shows "\<exists>C' D'. fold place_row rows (n, C, D) = (n + length rows, C', D')
    \<and> length C' = length C \<and> length D' = length D
    \<and> take (n + length rows + 1) C' = take (n + 1) C @ map fst rows
    \<and> take (n + length rows + 1) D' = take (n + 1) D @ map snd rows"
  using assms
proof (induction rows arbitrary: n C D)
  case Nil
  then show ?case by simp
next
  case (Cons r rows)
  have "Suc n + length rows < length (C[Suc n := fst r])" "Suc n + length rows < length (D[Suc n := snd r])"
    using Cons.prems by simp_all
  from Cons.IH [OF this] obtain C' D' where 1: "fold place_row rows (Suc n, C[Suc n := fst r], D[Suc n := snd r]) = (Suc n + length rows, C', D')"
    "length C' = length C" "length D' = length D"
    "take (Suc n + length rows + 1) C' = take (Suc n + 1) (C[Suc n := fst r]) @ map fst rows"
    "take (Suc n + length rows + 1) D' = take (Suc n + 1) (D[Suc n := snd r]) @ map snd rows" by auto
  have "take (Suc n + 1) (C[Suc n := fst r]) = take (n + 1) C @ [fst r]" "take (Suc n + 1) (D[Suc n := snd r]) = take (n + 1) D @ [snd r]"
    using Cons.prems by (simp_all add: take_Suc_conv_app_nth)
  moreover have "fold place_row (r # rows) (n, C, D) = fold place_row rows (Suc n, C[Suc n := fst r], D[Suc n := snd r])"
    by (simp add: place_row_def [of r])
  ultimately show ?case using 1 by simp
qed

lemma commit_rows_ok:
  assumes len: "length (pp_clause p) = Suc (pp_clauses p)" "length (pp_degree p) = Suc (pp_clauses p)"
    and fit: "length (kept_upto del (pp_clauses p)) + length prepared \<le> pp_clauses p"
  defines "q \<equiv> commit_rows del prepared p"
  shows "pp_rows q = map (\<lambda>i. (pp_row p i, pp_deg p i)) (kept_upto del (pp_clauses p)) @ prepared"
    and "length (pp_clause q) = Suc (pp_clauses q)" and "length (pp_degree q) = Suc (pp_clauses q)"
    and "pp_vars q = pp_vars p" and "pp_mapto q = pp_mapto p" and "pp_mapval q = pp_mapval p"
proof -
  let ?K = "kept_upto del (pp_clauses p)"
  obtain n C D where 1: "fold (keep_row del) [1..<Suc (pp_clauses p)] (0, pp_clause p, pp_degree p) = (n, C, D)"
    using prod_cases3 by blast
  have inv: "kept_inv p del (pp_clauses p) (n, C, D)"
    using fold_keep_rows [of "pp_clauses p" p del] len unfolding 1 by simp
  then have n: "n = length ?K" "length C = Suc (pp_clauses p)" "length D = Suc (pp_clauses p)"
    by (simp_all add: kept_inv_def len)
  have "n + length prepared < length C" "n + length prepared < length D" using fit n by simp_all
  from fold_place_rows [OF this] obtain C' D' where 2: "fold place_row prepared (n, C, D) = (n + length prepared, C', D')"
    "length C' = length C" "length D' = length D"
    "take (n + length prepared + 1) C' = take (n + 1) C @ map fst prepared"
    "take (n + length prepared + 1) D' = take (n + 1) D @ map snd prepared" by auto
  have q: "q = p\<lparr>pp_clause := take (n + length prepared + 1) C', pp_degree := take (n + length prepared + 1) D',
      pp_clauses := n + length prepared, pp_clause_delete := replicate (n + length prepared + 1) 0\<rparr>"
    unfolding q_def commit_rows_def 1 Let_def prod.case 2(1) ..
  have Kc: "take (n + 1) C = pp_row p 0 # map (pp_row p) ?K" "take (n + 1) D = pp_deg p 0 # map (pp_deg p) ?K"
    using inv n fit by (auto simp: kept_inv_def nth_Cons split: nat.split intro!: nth_equalityI)
  have c: "pp_clause q = pp_row p 0 # map fst (map (\<lambda>i. (pp_row p i, pp_deg p i)) ?K @ prepared)"
    "pp_degree q = pp_deg p 0 # map snd (map (\<lambda>i. (pp_row p i, pp_deg p i)) ?K @ prepared)"
    "pp_clauses q = length (map (\<lambda>i. (pp_row p i, pp_deg p i)) ?K @ prepared)"
    by (simp_all only: q preproc.simps 2(4,5) Kc) (simp_all add: n(1) o_def)
  from pp_rows_relabelled [OF c] show "pp_rows q = map (\<lambda>i. (pp_row p i, pp_deg p i)) ?K @ prepared"
    by simp
  show "length (pp_clause q) = Suc (pp_clauses q)" "length (pp_degree q) = Suc (pp_clauses q)"
    unfolding c by simp_all
  show "pp_vars q = pp_vars p" "pp_mapto q = pp_mapto p" "pp_mapval q = pp_mapval p" by (simp_all add: q)
qed

section \<open>A triangle is a cardinality row\<close>

lemma toeidx_tolit: "toeidx (tolit x) = x"
proof (cases "x = 0")
  case True
  have "toeidx (tolit 0) = 0" by code_simp
  then show ?thesis using True by simp
next
  case False
  then show ?thesis by (auto simp: toeidx_arith tolit_arith)
qed

lemma matches_edge:
  assumes "row_matches_edge p i (tolit x) (tolit y)"
  shows "i \<in> {1..pp_clauses p}" and "pp_deg p i = 1" and "pp_row p i = [x, y] \<or> pp_row p i = [y, x]"
proof -
  show "i \<in> {1..pp_clauses p}" "pp_deg p i = 1"
    using assms by (auto simp: row_matches_edge_def split: if_splits)
  have "length (pp_row p i) = 2" using assms by (auto simp: row_matches_edge_def split: if_splits)
  then obtain a b where "pp_row p i = [a, b]" by (auto simp: numeral_2_eq_2 length_Suc_conv)
  then show "pp_row p i = [x, y] \<or> pp_row p i = [y, x]"
    using assms by (auto simp: row_matches_edge_def Let_def toeidx_tolit split: if_splits)
qed

lemma sorted_successively_distinct: "sorted (xs :: 'a :: linorder list) \<Longrightarrow> successively (\<noteq>) xs \<Longrightarrow> distinct xs"
proof (induction xs)
  case (Cons x xs)
  then show ?case by (cases xs) (auto simp: less_le_not_le)
qed simp

lemma successively_sort_distinct: "successively (\<noteq>) (sort xs) \<Longrightarrow> distinct (xs :: 'a :: linorder list)"
  using sorted_successively_distinct [of "sort xs"] by simp

lemma triangle_shape:
  assumes "is_pure_triangle p c"
  shows "\<exists>x y z i j k. cl_literals c = [x, y, z] \<and> cl_edge_ids c = [i, j, k] \<and> cl_duplicate_ids c = []
    \<and> distinct [i, j, k] \<and> distinct (map lit_var [x, y, z])
    \<and> row_matches_edge p i (tolit y) (tolit x) \<and> row_matches_edge p j (tolit z) (tolit x)
    \<and> row_matches_edge p k (tolit z) (tolit y)"
proof -
  have l: "length (cl_literals c) = 3" "length (cl_edge_ids c) = 3" "cl_duplicate_ids c = []"
    "successively (\<noteq>) (sort (cl_edge_ids c))" "verify_clique p c"
    using assms by (auto simp: is_pure_triangle_def split: if_splits)
  obtain x y z where x: "cl_literals c = [x, y, z]" using l(1) by (auto simp: numeral_3_eq_3 length_Suc_conv)
  obtain i j k where i: "cl_edge_ids c = [i, j, k]" using l(2) by (auto simp: numeral_3_eq_3 length_Suc_conv)
  have e: "edge_pairs 3 = [(1, 0), (2, 0), (2, 1)]" by code_simp
  have v: "successively (\<noteq>) (sort (map (\<lambda>l. \<bar>l\<bar>) [x, y, z]))"
    "list_all (\<lambda>(i, right, left). row_matches_edge p i (tolit ([x, y, z] ! right)) (tolit ([x, y, z] ! left)))
                  (zip [i, j, k] (edge_pairs 3))"
    using l(5) unfolding verify_clique_def Let_def x i by (simp_all del: list.map add: eval_nat_numeral)
  have "distinct (map (\<lambda>l. \<bar>l\<bar>) [x, y, z])" by (rule successively_sort_distinct [OF v(1)])
  then have "distinct (map lit_var [x, y, z])" by (auto simp: lit_var_def)
  moreover have "distinct [i, j, k]" using successively_sort_distinct [OF l(4)] i by simp
  ultimately show ?thesis using v(2) l(3) x i unfolding e by auto
qed

lemma triangle_sat:
  assumes "x \<noteq> 0" "y \<noteq> 0" "z \<noteq> 0"
  shows "2 \<le> row_count a [x, y, z]
    \<longleftrightarrow> 1 \<le> row_count a [x, y] \<and> 1 \<le> row_count a [x, z] \<and> 1 \<le> row_count a [y, z]"
  by auto

definition edge_rows :: "clique list \<Rightarrow> nat set" where
  "edge_rows cs = (\<Union>c\<in>set cs. set (cl_edge_ids c))"

lemma triangle_rows:
  assumes "is_pure_triangle p c"
  shows "set (cl_edge_ids c) \<subseteq> {1..pp_clauses p}"
    and "(\<forall>i\<in>set (cl_edge_ids c). row_sat a (pp_row p i) (pp_deg p i))
      \<longleftrightarrow> row_sat a (cl_literals c) (int (length (cl_literals c)) - 1)"
    and "set (cl_literals c) \<subseteq> (\<Union>i\<in>set (cl_edge_ids c). set (pp_row p i))"
    and "distinct (map lit_var (cl_literals c))" and "length (cl_literals c) = 3"
proof -
  obtain x y z i j k where t: "cl_literals c = [x, y, z]" "cl_edge_ids c = [i, j, k]"
    "distinct (map lit_var [x, y, z])"
    "row_matches_edge p i (tolit y) (tolit x)" "row_matches_edge p j (tolit z) (tolit x)"
    "row_matches_edge p k (tolit z) (tolit y)"
    using triangle_shape [OF assms] by blast
  note m = matches_edge [OF t(4)] matches_edge [OF t(5)] matches_edge [OF t(6)]
  show "set (cl_edge_ids c) \<subseteq> {1..pp_clauses p}" using m by (simp add: t(2))
  show "set (cl_literals c) \<subseteq> (\<Union>i\<in>set (cl_edge_ids c). set (pp_row p i))" using m by (auto simp: t(1,2))
  show "distinct (map lit_var (cl_literals c))" "length (cl_literals c) = 3" using t(1,3) by simp_all
  have "row_sat a (pp_row p i) (pp_deg p i) \<longleftrightarrow> 1 \<le> row_count a [x, y]"
    "row_sat a (pp_row p j) (pp_deg p j) \<longleftrightarrow> 1 \<le> row_count a [x, z]"
    "row_sat a (pp_row p k) (pp_deg p k) \<longleftrightarrow> 1 \<le> row_count a [y, z]"
    using m by (auto simp: row_sat_def)
  then show "(\<forall>i\<in>set (cl_edge_ids c). row_sat a (pp_row p i) (pp_deg p i))
      \<longleftrightarrow> row_sat a (cl_literals c) (int (length (cl_literals c)) - 1)"
    by (auto simp: t(1,2) row_sat_def)
qed

section \<open>The plan\<close>

lemma mark_deletes:
  "ofold mark_delete ids del = Some del' \<Longrightarrow> finite del \<Longrightarrow>
    del' = del \<union> set ids \<and> card del' = card del + length ids \<and> finite del'"
proof (induction ids arbitrary: del)
  case (Cons i ids)
  then show ?case by (force simp: mark_delete_def split: if_splits)
qed simp

lemma plan_cliques:
  assumes "ofold (plan_clique p) cs (del, prep, ml) = Some (del', prep', ml')"
    and "\<forall>c\<in>set cs. is_pure_triangle p c" and "finite del"
  shows "del' = del \<union> edge_rows cs \<and> card del' = card del + 3 * length cs
    \<and> prep' = prep @ map (\<lambda>c. (cl_literals c, int (length (cl_literals c)) - 1)) cs"
  using assms
proof (induction cs arbitrary: del prep ml)
  case Nil
  then show ?case by (simp add: edge_rows_def)
next
  case (Cons c cs)
  have tri: "is_pure_triangle p c" using Cons.prems(2) by simp
  then have dup: "cl_duplicate_ids c = []" "length (cl_edge_ids c) = 3" using triangle_shape by fastforce+
  obtain d1 where d1: "ofold mark_delete (cl_edge_ids c) del = Some d1"
    "ofold (plan_clique p) cs (d1, prep @ [(cl_literals c, int (length (cl_literals c)) - 1)], max ml (length (cl_literals c)))
      = Some (del', prep', ml')"
    using Cons.prems(1) dup(1) by (auto simp: plan_clique_def [of p c] split: option.splits if_splits)
  note m = mark_deletes [OF d1(1) Cons.prems(3)]
  have "\<forall>c\<in>set cs. is_pure_triangle p c" "finite d1" using Cons.prems(2,3) m by simp_all
  from Cons.IH [OF d1(2) this] show ?case using m dup(2) by (auto simp: edge_rows_def)
qed


lemma card_kept:
  assumes "del \<subseteq> {1..n}"
  shows "length (kept_upto del n) + card del = n"
proof -
  have "distinct (kept_upto del n)" by (simp add: kept_upto_def del: upt_Suc)
  then have "length (kept_upto del n) = card (set (kept_upto del n))" by (simp only: distinct_card)
  moreover have "set (kept_upto del n) = {1..n} - del" by (auto simp: kept_upto_def simp del: upt_Suc)
  moreover have "card ({1..n} - del) + card del = n"
    using assms card_Diff_subset [of del "{1..n}"] card_mono [of "{1..n}" del] finite_subset [OF assms] by simp
  ultimately show ?thesis by simp
qed

lemma committed_plan:
  assumes ok: "rows_ok p" "length (pp_clause p) = Suc (pp_clauses p)" "length (pp_degree p) = Suc (pp_clauses p)"
    and tri: "\<forall>c\<in>set cs. is_pure_triangle p c"
    and plan: "ofold (plan_clique p) cs ({}, [], ml) = Some (del, prepared, ml')"
  defines "q \<equiv> commit_rows del prepared p"
  shows "rows_ok q" and "rows_sat a (pp_rows q) \<longleftrightarrow> rows_sat a (pp_rows p)"
    and "length (pp_clause q) = Suc (pp_clauses q)" and "length (pp_degree q) = Suc (pp_clauses q)"
    and "pp_vars q = pp_vars p" and "pp_mapto q = pp_mapto p" and "pp_mapval q = pp_mapval p"
proof -
  let ?K = "kept_upto del (pp_clauses p)" and ?new = "\<lambda>c. (cl_literals c, int (length (cl_literals c)) - 1)"
  have pl: "del = edge_rows cs" "card del = 3 * length cs" "prepared = map ?new cs"
    using plan_cliques [OF plan tri] by auto
  note tr = triangle_rows [OF bspec [OF tri]]
  have sub: "del \<subseteq> {1..pp_clauses p}" using tr(1) by (auto simp: pl(1) edge_rows_def)
  have fit: "length ?K + length prepared \<le> pp_clauses p" using card_kept [OF sub] pl by simp
  note cr = commit_rows_ok [OF ok(2,3) fit, folded q_def]
  show "length (pp_clause q) = Suc (pp_clauses q)" "length (pp_degree q) = Suc (pp_clauses q)"
    "pp_vars q = pp_vars p" "pp_mapto q = pp_mapto p" "pp_mapval q = pp_mapval p" by (rule cr)+
  have K: "set ?K = {1..pp_clauses p} - del" by (auto simp: kept_upto_def simp del: upt_Suc)
  have row: "1 \<le> pp_deg p i" "pp_row p i \<noteq> []" "distinct (map lit_var (pp_row p i))"
    "\<And>l. l \<in> set (pp_row p i) \<Longrightarrow> l \<noteq> 0 \<and> lit_var l \<le> pp_vars p" if "i \<in> {1..pp_clauses p}" for i
    using ok(1) that by (auto simp: rows_ok_def)
  have lits: "l \<noteq> 0 \<and> lit_var l \<le> pp_vars p" if c: "c \<in> set cs" "l \<in> set (cl_literals c)" for c l
  proof -
    obtain i where "i \<in> set (cl_edge_ids c)" "l \<in> set (pp_row p i)" using tr(3) [OF c(1)] c(2) by blast
    then show ?thesis using tr(1) [OF c(1)] row(4) by blast
  qed
  have "\<forall>(r, d)\<in>set (pp_rows q). 1 \<le> d \<and> r \<noteq> [] \<and> distinct (map lit_var r)
      \<and> (\<forall>l\<in>set r. l \<noteq> 0 \<and> lit_var l \<le> pp_vars q)"
  proof -
    have "1 \<le> snd (?new c) \<and> fst (?new c) \<noteq> [] \<and> distinct (map lit_var (fst (?new c)))
      \<and> (\<forall>l\<in>set (fst (?new c)). l \<noteq> 0 \<and> lit_var l \<le> pp_vars p)" if "c \<in> set cs" for c
      using tr(4,5) [OF that] lits [OF that] by auto
    moreover have "\<forall>i\<in>set ?K. 1 \<le> pp_deg p i \<and> pp_row p i \<noteq> [] \<and> distinct (map lit_var (pp_row p i))
        \<and> (\<forall>l\<in>set (pp_row p i). l \<noteq> 0 \<and> lit_var l \<le> pp_vars p)" using row unfolding K by blast
    ultimately show ?thesis unfolding cr(1,4) pl(3) set_append ball_Un set_map ball_simps prod.case by simp
  qed
  then show "rows_ok q" by (auto simp: rows_ok_def pp_rows_def less_Suc_eq_le)
  have "rows_sat a (pp_rows p) \<longleftrightarrow> (\<forall>i\<in>{1..pp_clauses p}. row_sat a (pp_row p i) (pp_deg p i))"
    by (auto simp: rows_sat_def pp_rows_def less_Suc_eq_le simp del: upt_Suc)
  also have "\<dots> \<longleftrightarrow> (\<forall>i\<in>set ?K. row_sat a (pp_row p i) (pp_deg p i)) \<and> (\<forall>i\<in>del. row_sat a (pp_row p i) (pp_deg p i))"
    using sub unfolding K by blast
  also have "(\<forall>i\<in>del. row_sat a (pp_row p i) (pp_deg p i)) \<longleftrightarrow> (\<forall>c\<in>set cs. row_sat a (fst (?new c)) (snd (?new c)))"
    using tr(2) by (auto simp: pl(1) edge_rows_def)
  also have "(\<forall>i\<in>set ?K. row_sat a (pp_row p i) (pp_deg p i)) \<and> (\<forall>c\<in>set cs. row_sat a (fst (?new c)) (snd (?new c)))
      \<longleftrightarrow> rows_sat a (pp_rows q)"
    unfolding cr(1) pl(3) by (auto simp: rows_sat_def)
  finally show "rows_sat a (pp_rows q) \<longleftrightarrow> rows_sat a (pp_rows p)" ..
qed

section \<open>The search ends\<close>

lemma probe_keys:
  assumes "probe_members active cand ms probes ids keys = Some (probes', Some (ids', keys'))"
  shows "\<exists>new. keys' = keys @ new \<and> length new = length ms \<and> (\<forall>k\<in>set new. active k \<noteq> None)"
  using assms
proof (induction ms arbitrary: probes ids keys)
  case Nil
  then show ?case by simp
next
  case (Cons m ms)
  then obtain i where i: "active (edge_key cand m) = Some i"
    "probe_members active cand ms (probes + 1) (ids @ [i]) (keys @ [edge_key cand m]) = Some (probes', Some (ids', keys'))"
    by (auto simp: Let_def split: if_splits option.splits)
  from Cons.IH [OF i(2)] obtain new where n: "keys' = keys @ edge_key cand m # new" "length new = length ms"
    "\<forall>k\<in>set new. active k \<noteq> None" by auto
  show ?case by (rule exI [of _ "edge_key cand m # new"]) (use n i(1) in simp)
qed

definition grow_ok :: "edges \<Rightarrow> int \<times> growth \<Rightarrow> bool" where
  "grow_ok e = (\<lambda>(_, g). gr_vertices g \<noteq> [] \<and> (\<forall>k\<in>set (gr_consumed g). ed_active e k \<noteq> None)
     \<and> (length (gr_vertices g) > 1 \<longrightarrow> gr_consumed g \<noteq> []))"

lemma grow_clique_ok:
  assumes "grow_ok e s" and "grow_clique e c s = Some s'"
  shows "grow_ok e s'"
proof -
  obtain probes g where s: "s = (probes, g)" by fastforce
  show ?thesis
  proof (cases "probe_members (ed_active e) c (gr_vertices g) probes [] []")
    case None
    then show ?thesis using assms by (auto simp: s grow_clique_def split: if_splits)
  next
    case (Some r)
    obtain probes' f where r: "r = (probes', f)" by fastforce
    show ?thesis
    proof (cases f)
      case None
      then show ?thesis using assms Some r by (auto simp: s grow_clique_def grow_ok_def split: if_splits)
    next
      case (Some ik)
      obtain ids keys where ik: "ik = (ids, keys)" by fastforce
      have "probe_members (ed_active e) c (gr_vertices g) probes [] [] = Some (probes', Some (ids, keys))"
        using \<open>probe_members _ _ _ _ _ _ = Some r\<close> r Some ik by simp
      note p = this probe_keys [OF this]
      then have "keys \<noteq> []" "\<forall>k\<in>set keys. ed_active e k \<noteq> None"
        using assms(1) by (auto simp: s grow_ok_def)
      then show ?thesis using assms p(1) by (auto simp: s grow_clique_def grow_ok_def split: if_splits)
    qed
  qed
qed

definition edge_finite :: "search \<Rightarrow> bool" where
  "edge_finite s \<longleftrightarrow> finite (dom (ed_active (se_edges s)))"

lemma fold_erase: "fold (\<lambda>k m. m(k := None)) keys m = m |` (- set keys)"
  by (induction keys arbitrary: m) (auto simp: restrict_map_def fun_eq_iff)

lemma clique_round_less:
  assumes fin: "edge_finite s" and r: "clique_round p start neighbors s = (go, Some s')"
  shows "edge_finite s' \<and> (go \<longrightarrow> card (dom (ed_active (se_edges s'))) < card (dom (ed_active (se_edges s))))"
proof -
  let ?e = "se_edges s"
  let ?g0 = "\<lparr>gr_vertices = [start], gr_edge_ids = [], gr_duplicate_ids = [], gr_consumed = []\<rparr>"
  obtain probes g where g: "ofold (grow_clique ?e) neighbors (se_probes s, ?g0) = Some (probes, g)"
    using r by (auto simp: clique_round_def split: option.splits)
  have "grow_ok ?e (se_probes s, ?g0)" by (simp add: grow_ok_def)
  from ofold_invariant [where P = "grow_ok ?e", OF g this grow_clique_ok]
  have ok: "gr_vertices g \<noteq> []" "\<forall>k\<in>set (gr_consumed g). ed_active ?e k \<noteq> None"
    "length (gr_vertices g) > 1 \<longrightarrow> gr_consumed g \<noteq> []" by (auto simp: grow_ok_def)
  show ?thesis
  proof (cases "length (gr_vertices g) = 1")
    case True
    then show ?thesis using r g fin by (auto simp: clique_round_def edge_finite_def)
  next
    case False
    then have "length (gr_vertices g) > 1" using ok(1) by (cases "gr_vertices g") auto
    then obtain k where k: "k \<in> set (gr_consumed g)" "k \<in> dom (ed_active ?e)" using ok(2,3) by (cases "gr_consumed g") auto
    have e: "se_edges s' = consume_keys (gr_consumed g) ?e"
      using r g False by (auto simp: clique_round_def Let_def split: if_splits)
    have d: "dom (ed_active (se_edges s')) = dom (ed_active ?e) - set (gr_consumed g)"
      unfolding e consume_keys_def by (auto simp: fold_erase)
    then have "dom (ed_active (se_edges s')) \<subset> dom (ed_active ?e)" using k by auto
    then have "card (dom (ed_active (se_edges s'))) < card (dom (ed_active ?e))"
      using fin unfolding edge_finite_def by (intro psubset_card_mono)
    moreover have "finite (dom (ed_active (se_edges s')))" using fin unfolding d edge_finite_def by simp
    ultimately show ?thesis unfolding edge_finite_def by blast
  qed
qed

lemma clique_loop_ends:
  assumes "edge_finite s"
  shows "\<exists>go s'. clique_loop p start neighbors s = Some (go, s') \<and> (\<forall>t. s' = Some t \<longrightarrow> edge_finite t)"
proof -
  let ?P = "\<lambda>(go, s'). \<forall>t. s' = Some t \<longrightarrow> edge_finite t"
  let ?f = "\<lambda>(go, s'). case s' of None \<Rightarrow> of_bool go | Some t \<Rightarrow> if go then card (dom (ed_active (se_edges t))) + 2 else 0"
  let ?c = "\<lambda>(go, s). case s of None \<Rightarrow> (False, None) | Some s \<Rightarrow> clique_round p start neighbors s"
  have step: "?P (?c x) \<and> ?f (?c x) < (?f x :: nat)" if P: "?P x" and go: "fst x" for x
  proof -
    obtain s' where x: "x = (True, s')" using go by (cases x) auto
    show ?thesis
    proof (cases s')
      case None
      then show ?thesis by (simp add: x)
    next
      case (Some t)
      obtain go u where cr: "clique_round p start neighbors t = (go, u)" by fastforce
      have "edge_finite t" using P by (simp add: x Some)
      then show ?thesis using clique_round_less [of t p start neighbors go] cr
        by (cases u) (auto simp: x Some)
    qed
  qed
  have init: "?P (True, Some s)" using assms by simp
  have "\<exists>t. while_option fst ?c (True, Some s) = Some t"
  proof (rule measure_while_option_Some [where P = ?P and f = ?f])
    show "?P (?c x) \<and> ?f (?c x) < ?f x" if "?P x" "fst x" for x using step [OF that] .
  qed (rule init)
  then obtain t where t: "while_option fst ?c (True, Some s) = Some t" by blast
  have "?P t"
  proof (rule while_option_rule [where P = ?P, OF _ t init])
    show "?P (?c x)" if "?P x" "fst x" for x using step [OF that] by (rule conjunct1)
  qed
  then show ?thesis using t by (cases t) (auto simp: clique_loop_def)
qed

lemma search_starts_end:
  assumes "edge_finite s"
  shows "\<exists>r. search_starts p vs (seen, s) = Some r"
  using assms
proof (induction vs arbitrary: seen s)
  case Nil
  then show ?case by simp
next
  case (Cons v vs)
  have "\<exists>r. search_start p (int v) (seen, s) = Some r \<and> (\<forall>seen' t. r = Some (seen', t) \<longrightarrow> edge_finite t)"
  proof -
    define occ where "occ = ed_occurrence (se_edges s)"
    define nb where "nb = filter (\<lambda>n. n \<notin> insert (int v) seen \<and> length (occ n) \<ge> 2) (occ (int v))"
    obtain go s' where l: "clique_loop p (int v) nb s = Some (go, s')" "\<forall>t. s' = Some t \<longrightarrow> edge_finite t"
      using clique_loop_ends [OF Cons.prems] by blast
    have e: "search_start p (int v) (seen, s) = (if int v \<in> seen \<or> occ (int v) = [] then Some (Some (seen, s))
        else if length (occ (int v)) < 2 then Some (Some (insert (int v) seen, s))
        else if length nb < 2 then Some (Some (insert (int v) seen, s))
        else case s' of None \<Rightarrow> Some None | Some s \<Rightarrow> Some (Some (insert (int v) seen, s)))"
      unfolding search_start_def prod.case Let_def occ_def [symmetric] nb_def [symmetric] l(1) option.case by (rule refl)
    show ?thesis unfolding e using Cons.prems l(2) by (cases s') simp_all
  qed
  then obtain r where r: "search_start p (int v) (seen, s) = Some r" "\<forall>seen' t. r = Some (seen', t) \<longrightarrow> edge_finite t"
    by blast
  then show ?case using Cons.IH by (cases r) auto
qed

lemma add_edge_finite: "finite (dom (ed_active e)) \<Longrightarrow> finite (dom (ed_active (add_edge p i e)))"
  by (simp add: add_edge_def Let_def)

lemma search_almost_one_ends: "\<exists>r. search_almost_one p = Some r"
proof -
  define e where "e = fold (add_edge p) [1..<Suc (pp_clauses p)] \<lparr>ed_active = (\<lambda>_. None), ed_duplicate = (\<lambda>_. []), ed_occurrence = (\<lambda>_. [])\<rparr>"
  have "finite (dom (ed_active e))" unfolding e_def
    by (rule fold_invariant_mem [where P = "\<lambda>e. finite (dom (ed_active e))"]) (simp_all add: add_edge_finite)
  then have "edge_finite \<lparr>se_edges = e\<lparr>ed_occurrence := (\<lambda>v. sort_unique (ed_occurrence e v))\<rparr>, se_probes = 0, se_planned = []\<rparr>"
    by (simp add: edge_finite_def)
  from search_starts_end [OF this, of p "[0..<2 * pp_vars p]" "{}"]
  show ?thesis unfolding search_almost_one_def Let_def e_def by (auto split: option.splits)
qed

section \<open>Properties\<close>

text \<open>C12. Recovering cardinality rows from triangles of binary clauses always returns, and the rows
  it leaves are ready for the search and have exactly the models of the rows it was given; the
  number of variables and the mapping of the original variables stay as they are.\<close>

theorem preprocess_card_keeps_models:
  assumes "rows_ok p" and "length (pp_clause p) = Suc (pp_clauses p)" and "length (pp_degree p) = Suc (pp_clauses p)"
  shows "\<exists>q. preprocess_card p = Some q \<and> rows_ok q \<and> (\<forall>a. rows_sat a (pp_rows q) \<longleftrightarrow> rows_sat a (pp_rows p))
    \<and> pp_vars q = pp_vars p \<and> pp_mapto q = pp_mapto p \<and> pp_mapval q = pp_mapval p"
proof -
  obtain r where r: "search_almost_one p = Some r" using search_almost_one_ends by blast
  have same: "\<exists>q. Some p = Some q \<and> rows_ok q \<and> (\<forall>a. rows_sat a (pp_rows q) \<longleftrightarrow> rows_sat a (pp_rows p))
    \<and> pp_vars q = pp_vars p \<and> pp_mapto q = pp_mapto p \<and> pp_mapval q = pp_mapval p"
    using assms(1) by simp
  show ?thesis
  proof (cases "\<exists>cs plan. r = Some cs \<and> list_all (is_pure_triangle p) cs
      \<and> ofold (plan_clique p) cs ({}, [], pp_maxlen p) = Some plan \<and> preprocess_card p \<noteq> Some p")
    case False
    then have "preprocess_card p = Some p"
      unfolding preprocess_card_def r by (auto split: option.splits)
    then show ?thesis using same by simp
  next
    case True
    then obtain cs del prepared ml where c: "r = Some cs" "\<forall>c\<in>set cs. is_pure_triangle p c"
      "ofold (plan_clique p) cs ({}, [], pp_maxlen p) = Some (del, prepared, ml)" "preprocess_card p \<noteq> Some p"
      by (auto simp: list_all_iff)
    note cp = committed_plan [OF assms c(2,3)]
    have "preprocess_card p = Some ((commit_rows del prepared p)\<lparr>pp_maxlen := ml\<rparr>)"
      using c(2,4) by (auto simp: preprocess_card_def r c(1,3) list_all_iff split: if_splits)
    moreover have "rows_ok (q\<lparr>pp_maxlen := ml\<rparr>) = rows_ok q" "pp_rows (q\<lparr>pp_maxlen := ml\<rparr>) = pp_rows q" for q
      by (simp_all add: rows_ok_def pp_rows_def)
    ultimately show ?thesis using cp by simp
  qed
qed

definition demo_triangle :: preproc where
  "demo_triangle = fresh_preproc\<lparr>pp_vars := 4, pp_orivars := 4, pp_clauses := 4, pp_oriclauses := 4,
     pp_clause := [[], [1, 2], [1, 3], [4, -1, 2], [3, 2]], pp_degree := [0, 1, 1, 2, 1]\<rparr>"

theorem preprocess_card_keeps_models_witness:
  "\<exists>q. preprocess_card demo_triangle = Some q \<and> rows_ok q \<and> pp_rows q = [([4, -1, 2], 2), ([1, 2, 3], 2)]"
proof -
  have "rows_ok demo_triangle" "length (pp_clause demo_triangle) = Suc (pp_clauses demo_triangle)"
    "length (pp_degree demo_triangle) = Suc (pp_clauses demo_triangle)" by code_simp+
  note k = preprocess_card_keeps_models [OF this]
  have "map_option pp_rows (preprocess_card demo_triangle) = Some [([4, -1, 2], 2), ([1, 2, 3], 2)]"
    by code_simp
  then show ?thesis using k by auto
qed

end
