(* ===== verification/Ccdcl.thy ===== *)
theory Ccdcl
  imports Ls_Properties
begin

text \<open>
  The bridge between the conflict-driven solver and the local search (class \<open>CCDCLSolver\<close>,
  include/ccdcl.hpp; \<open>card_walk_round\<close>, src/lib/ccdcl/src/cardwalk.cpp; the literal stream of
  \<open>CARadd\<close>, src/lib/ccdcl/src/internal.cpp).  The solver hands its clauses to the local search
  through the callbacks modelled here, and reads the phases back.  The rest of the solver is
  vendored code: which clauses it holds and which redundant clauses it deems worth keeping are
  parameters.  A write outside an allocated array has no result (\<open>None\<close>).
\<close>

section \<open>State\<close>

text \<open>\<open>cc_var_count\<close> is \<open>var_lit_count\<close> while clauses are added, before the occurrence lists
  exist; afterwards the count is the length of the list, as in \<open>Ls_Instance\<close>.\<close>

record ccdcl =
  cc_inst :: inst
  cc_var_count :: "nat \<Rightarrow> nat"
  cc_par :: ls_par
  cc_ls :: ls
  cc_c :: nat
  cc_actual_num_vars :: nat
  cc_actual_num_clauses :: nat
  cc_callback_count :: int

section \<open>The callbacks\<close>

definition CCDCLSolver_new :: "opts \<Rightarrow> (nat \<Rightarrow> int) \<Rightarrow> ls \<Rightarrow> ccdcl" where
  "CCDCLSolver_new opt libc garbage =
     \<lparr>cc_inst = \<lparr>num_vars = 0, num_clauses = 0, max_clause_length = 0, clause_lit = (\<lambda>_. []),
                 var_lit = (\<lambda>_. []), clause_true_lit_thres = (\<lambda>_. 0)\<rparr>,
      cc_var_count = (\<lambda>_. 0), cc_par = (configure opt libc)\<lparr>q_init := 0\<rparr>, cc_ls = garbage,
      cc_c = 0, cc_actual_num_vars = 0, cc_actual_num_clauses = 0, cc_callback_count = 0\<rparr>"

definition cc_allocate_memory :: "nat \<Rightarrow> nat \<Rightarrow> ccdcl \<Rightarrow> ccdcl" where
  "cc_allocate_memory nv nc s =
     s\<lparr>cc_actual_num_vars := nv, cc_actual_num_clauses := nc,
       cc_inst := \<lparr>num_vars = nv + 10, num_clauses = nc + 10, max_clause_length = 0,
                   clause_lit = (\<lambda>_. []), var_lit = (\<lambda>_. []), clause_true_lit_thres = (\<lambda>_. 0)\<rparr>,
       cc_var_count := (\<lambda>_. 0), cc_ls := allocate_memory (cc_ls s), cc_c := 0\<rparr>"

text \<open>\<open>allocate_memory\<close> of the local search makes the arrays ten cells longer than the counts.\<close>

definition cc_count_lit :: "int \<Rightarrow> (nat \<Rightarrow> nat) \<Rightarrow> nat \<Rightarrow> nat" where
  "cc_count_lit l n = n(lit_var l := n (lit_var l) + 1)"

definition cc_add_clause :: "int list \<Rightarrow> int \<Rightarrow> ccdcl \<Rightarrow> ccdcl option" where
  "cc_add_clause clause degree s =
     (let I = cc_inst s; c = cc_c s
      in if c < num_clauses I + 10 \<and> list_all (\<lambda>l. lit_var l < num_vars I + 10) clause
         then Some (s\<lparr>cc_inst := I\<lparr>clause_lit := (clause_lit I)(c := map (make_lit c) clause),
                                  clause_true_lit_thres := (clause_true_lit_thres I)(c := degree),
                                  max_clause_length := max (max_clause_length I) (length clause)\<rparr>,
                      cc_var_count := fold cc_count_lit clause (cc_var_count s),
                      cc_c := c + 1\<rparr>)
         else None)"

definition put_phase :: "int list \<Rightarrow> nat \<Rightarrow> ls \<Rightarrow> ls" where
  "put_phase assignment i st =
     st\<lparr>cur_soln := (cur_soln st)(i + 1 := (if assignment ! i > 0 then 1 else 0)),
        time_stamp := (time_stamp st)(i + 1 := 0)\<rparr>"

definition cc_init_assignment :: "int list \<Rightarrow> ccdcl \<Rightarrow> ccdcl" where
  "cc_init_assignment assignment s =
     s\<lparr>cc_ls := fold (put_phase assignment) [0..<length assignment] (cc_ls s)\<rparr>"

definition get_phase :: "ccdcl \<Rightarrow> int list \<Rightarrow> int list" where
  "get_phase s phases =
     fold (\<lambda>i phases. phases[i := (if cur_soln (cc_ls s) i > 0 then 1 else - 1)]) [1..<length phases] phases"

text \<open>An occurrence goes into the array of its variable, which has \<open>cap v\<close> cells; only the
  variables of the instance have one.\<close>

definition cc_add_occurrence :: "(nat \<Rightarrow> nat) \<Rightarrow> lit \<Rightarrow> inst \<Rightarrow> inst option" where
  "cc_add_occurrence cap l I =
     (if 1 \<le> var_num l \<and> var_num l \<le> num_vars I \<and> var_lit_count I (var_num l) < cap (var_num l)
      then Some (add_occurrence l I) else None)"

definition cc_occurrences_of :: "(nat \<Rightarrow> nat) \<Rightarrow> nat \<Rightarrow> inst \<Rightarrow> inst option" where
  "cc_occurrences_of cap c I = ofold (cc_add_occurrence cap) (clause_lit I c) I"

definition cc_index :: "ccdcl \<Rightarrow> inst option" where
  "cc_index s =
     (let I = (cc_inst s)\<lparr>num_vars := cc_actual_num_vars s, num_clauses := cc_c s\<rparr>
      in ofold (cc_occurrences_of (\<lambda>v. cc_var_count s v + 1)) [0..<cc_c s] I)"

definition cc_configure :: "opts \<Rightarrow> ls_par \<Rightarrow> ls_par" where
  "cc_configure opt P =
     P\<lparr>init_mode := opt_init_mode opt, enable_swap := (opt_enable_swap opt = 1),
       max_flips := nat (opt_ls_max_flips opt), max_non_improve_flip := nat (opt_ls_max_non_improve_flip opt),
       swap_non_improve_flip := nat (opt_ls_swap_non_improve_flip opt), swapprob := opt_ls_swapprob opt,
       backbone_threshold := opt_ls_backbone_threshold opt\<rparr>"

text \<open>\<open>None\<close> is an access out of bounds or the exit of \<open>settings\<close> on an invalid budget.\<close>

definition start_cardsat_ls :: "opts \<Rightarrow> (nat \<Rightarrow> bool) \<Rightarrow> ccdcl \<Rightarrow> (int \<times> ccdcl) option" where
  "start_cardsat_ls opt alloc s =
     (let s = s\<lparr>cc_callback_count := cc_callback_count s + 1\<rparr>
      in case cc_index s of
        None \<Rightarrow> None
      | Some I \<Rightarrow>
          (case settings I opt alloc (cc_configure opt (cc_par s)) ((cc_ls s)\<lparr>rand_calls := 0\<rparr>) of
             None \<Rightarrow> None
           | Some (P, st) \<Rightarrow>
               let st = st\<lparr>tries := 1\<rparr>;
                   st = init_assignment I P st;
                   st = init_local_search I st;
                   (res, st) = local_search_flip I P st
               in Some (res, s\<lparr>cc_inst := I, cc_par := P, cc_ls := st\<rparr>)))"

section \<open>The walk of the solver\<close>

record cclause =
  cl_literals :: "int list"
  cl_bound :: int
  cl_garbage :: bool
  cl_redundant :: bool

definition walk_keeps :: "bool \<Rightarrow> (cclause \<Rightarrow> bool) \<Rightarrow> cclause \<Rightarrow> bool" where
  "walk_keeps walkredundant likely_to_be_kept c =
     (if cl_garbage c then False
      else if cl_redundant c then walkredundant \<and> likely_to_be_kept c
      else True)"

definition walk_add :: "(cclause \<Rightarrow> bool) \<Rightarrow> (cclause \<Rightarrow> int) \<Rightarrow> cclause \<Rightarrow> ccdcl \<Rightarrow> ccdcl option" where
  "walk_add keeps bound c s = (if keeps c then cc_add_clause (cl_literals c) (bound c) s else Some s)"

definition card_walk_load :: "bool \<Rightarrow> (cclause \<Rightarrow> bool) \<Rightarrow> nat \<Rightarrow> cclause list \<Rightarrow> cclause list \<Rightarrow> ccdcl \<Rightarrow> ccdcl option" where
  "card_walk_load walkredundant likely max_var clauses CARclauses s =
     (let keeps = walk_keeps walkredundant likely;
          clause_num = length (filter keeps clauses) + length (filter keeps CARclauses);
          s = cc_allocate_memory max_var clause_num s
      in case ofold (walk_add keeps (\<lambda>_. 1)) clauses s of
           None \<Rightarrow> None
         | Some s \<Rightarrow> ofold (walk_add keeps cl_bound) CARclauses s)"

section \<open>The literal stream\<close>

text \<open>\<open>CARadd_original_lit\<close>: the first number of a constraint is its bound, then come its
  literals, then a zero hands the constraint on.\<close>

record car_state =
  car_cardinality :: int
  car_original :: "int list"
  car_out :: "(int list \<times> int) list"

definition CARadd_original_lit :: "int \<Rightarrow> car_state \<Rightarrow> car_state" where
  "CARadd_original_lit l s =
     (if car_cardinality s = 0 then s\<lparr>car_cardinality := l\<rparr>
      else if l \<noteq> 0 then s\<lparr>car_original := car_original s @ [l]\<rparr>
      else s\<lparr>car_out := car_out s @ [(car_original s, car_cardinality s)], car_original := [], car_cardinality := 0\<rparr>)"

definition cc_stream_row :: "preproc \<Rightarrow> nat \<Rightarrow> car_state \<Rightarrow> car_state" where
  "cc_stream_row p i s =
     (let s = CARadd_original_lit (pp_degree p ! i) s;
          s = fold CARadd_original_lit (pp_clause p ! i) s
      in CARadd_original_lit 0 s)"

definition cc_parse_from_preprocess :: "preproc \<Rightarrow> car_state \<Rightarrow> car_state" where
  "cc_parse_from_preprocess p s = fold (cc_stream_row p) [1..<Suc (pp_clauses p)] s"

definition car_empty :: car_state where
  "car_empty = \<lparr>car_cardinality = 0, car_original = [], car_out = []\<rparr>"

section \<open>The stream carries the rows\<close>

lemma stream_lits:
  assumes "car_cardinality s \<noteq> 0" and "0 \<notin> set ls"
  shows "fold CARadd_original_lit ls s = s\<lparr>car_original := car_original s @ ls\<rparr>"
  using assms
proof (induction ls arbitrary: s)
  case (Cons l ls)
  then show ?case by (simp add: CARadd_original_lit_def)
qed simp

lemma stream_row:
  assumes "car_cardinality s = 0" and "car_original s = []" and "pp_degree p ! i \<noteq> 0" and "0 \<notin> set (pp_clause p ! i)"
  shows "cc_stream_row p i s = s\<lparr>car_out := car_out s @ [(pp_clause p ! i, pp_degree p ! i)]\<rparr>"
proof -
  have e: "CARadd_original_lit (pp_degree p ! i) s = s\<lparr>car_cardinality := pp_degree p ! i\<rparr>"
    using assms(1) by (simp add: CARadd_original_lit_def)
  have "fold CARadd_original_lit (pp_clause p ! i) (s\<lparr>car_cardinality := pp_degree p ! i\<rparr>)
      = s\<lparr>car_cardinality := pp_degree p ! i, car_original := pp_clause p ! i\<rparr>"
    using assms by (subst stream_lits) simp_all
  then show ?thesis using assms unfolding cc_stream_row_def Let_def e
    by (cases s) (simp add: CARadd_original_lit_def)
qed

lemma stream_rows:
  assumes "\<forall>i\<in>set is. pp_degree p ! i \<noteq> 0 \<and> 0 \<notin> set (pp_clause p ! i)" and "car_cardinality s = 0" and "car_original s = []"
  shows "fold (cc_stream_row p) is s = s\<lparr>car_out := car_out s @ map (\<lambda>i. (pp_clause p ! i, pp_degree p ! i)) is\<rparr>"
  using assms
proof (induction "is" arbitrary: s)
  case (Cons i "is")
  then show ?case by (simp add: stream_row)
qed simp

section \<open>Loading gives the instance of the reader\<close>

text \<open>The problem that consists of given rows, and the instance the reader would build from it.\<close>

definition rows_problem :: "nat \<Rightarrow> (int list \<times> int) list \<Rightarrow> preproc" where
  "rows_problem n rows = fresh_preproc\<lparr>pp_vars := n, pp_clauses := length rows,
     pp_clause := [] # map fst rows, pp_degree := 0 # map snd rows\<rparr>"

definition add_row :: "int list \<times> int \<Rightarrow> ccdcl \<Rightarrow> ccdcl option" where
  "add_row r s = cc_add_clause (fst r) (snd r) s"

lemma fold_count_lit: "fold cc_count_lit ls n v = n v + length (filter (\<lambda>l. lit_var l = v) ls)"
  by (induction ls arbitrary: n) (auto simp: cc_count_lit_def)

definition loaded_inst :: "nat \<Rightarrow> nat \<Rightarrow> (int list \<times> int) list \<Rightarrow> inst" where
  "loaded_inst nv nc rows =
     \<lparr>num_vars = nv, num_clauses = nc, max_clause_length = fold (\<lambda>r m. max m (length (fst r))) rows 0,
      clause_lit = (\<lambda>c. if c < length rows then map (make_lit c) (fst (rows ! c)) else []),
      var_lit = (\<lambda>_. []),
      clause_true_lit_thres = (\<lambda>c. if c < length rows then snd (rows ! c) else 0)\<rparr>"

lemma loaded_inst_snoc:
  "loaded_inst nv nc (rows @ [r]) =
     (let I = loaded_inst nv nc rows; c = length rows
      in I\<lparr>clause_lit := (clause_lit I)(c := map (make_lit c) (fst r)),
           clause_true_lit_thres := (clause_true_lit_thres I)(c := snd r),
           max_clause_length := max (max_clause_length I) (length (fst r))\<rparr>)"
  by (auto simp: loaded_inst_def Let_def fun_eq_iff nth_append less_Suc_eq)

lemma read_rows_problem:
  assumes "k \<le> length rows"
  shows "fold (read_row (rows_problem n rows)) [1..<Suc k]
      \<lparr>num_vars = n, num_clauses = length rows, max_clause_length = 0, clause_lit = (\<lambda>_. []),
       var_lit = (\<lambda>_. []), clause_true_lit_thres = (\<lambda>_. 0)\<rparr> = loaded_inst n (length rows) (take k rows)"
  using assms
proof (induction k)
  case 0
  then show ?case by (simp add: loaded_inst_def)
next
  case (Suc k)
  have r: "read_row (rows_problem n rows) (Suc k) I =
      I\<lparr>clause_lit := (clause_lit I)(k := map (make_lit k) (fst (rows ! k))),
        clause_true_lit_thres := (clause_true_lit_thres I)(k := snd (rows ! k)),
        max_clause_length := max (max_clause_length I) (length (fst (rows ! k)))\<rparr>" for I
    using Suc.prems by (simp add: read_row_def rows_problem_def Let_def)
  have l: "length (take k rows) = k" using Suc.prems by simp
  have "[1..<Suc (Suc k)] = [1..<Suc k] @ [Suc k]" by simp
  then show ?case using Suc.IH Suc.prems
    by (simp only: fold_append fold.simps comp_def r take_Suc_conv_app_nth loaded_inst_snoc Let_def l) (simp add: r)
qed

lemma parse_rows_problem:
  "parse_from_preprocess (rows_problem n rows) =
     fold (\<lambda>c. fold add_occurrence (clause_lit (loaded_inst n (length rows) rows) c)) [0..<length rows]
       (loaded_inst n (length rows) rows)"
  using read_rows_problem [OF order_refl, of n rows]
  by (simp add: parse_from_preprocess_def rows_problem_def Let_def) (simp add: loaded_inst_def)

lemma add_rows_load:
  assumes "length rows \<le> nc" and "\<forall>r\<in>set rows. \<forall>l\<in>set (fst r). lit_var l \<le> nv"
  shows "ofold add_row rows (cc_allocate_memory nv nc s) =
    Some (s\<lparr>cc_actual_num_vars := nv, cc_actual_num_clauses := nc,
            cc_inst := loaded_inst (nv + 10) (nc + 10) rows,
            cc_var_count := (\<lambda>v. length (filter (\<lambda>l. lit_var l = v) (concat (map fst rows)))),
            cc_ls := allocate_memory (cc_ls s), cc_c := length rows\<rparr>)"
  using assms
proof (induction rows rule: rev_induct)
  case Nil
  then show ?case by (simp add: cc_allocate_memory_def loaded_inst_def)
next
  case (snoc r rows)
  have "list_all (\<lambda>l. lit_var l < 20 + nv) (fst r)" using snoc.prems(2) by (fastforce simp: list_all_iff)
  then show ?case using snoc
    by (simp add: ofold_append add_row_def cc_add_clause_def loaded_inst_snoc Let_def)
      (simp add: loaded_inst_def fold_count_lit fun_eq_iff)
qed

lemma add_occurrences_ok:
  assumes "\<forall>l\<in>set ls. 1 \<le> var_num l \<and> var_num l \<le> num_vars I"
    and "\<forall>v. var_lit_count I v + length (filter (\<lambda>l. var_num l = v) ls) < cap v"
  shows "ofold (cc_add_occurrence cap) ls I = Some (fold add_occurrence ls I)"
  using assms
proof (induction ls arbitrary: I)
  case (Cons l ls)
  have "var_lit_count I (var_num l) < cap (var_num l)" using Cons.prems(2) [rule_format, of "var_num l"] by simp
  then have "cc_add_occurrence cap l I = Some (add_occurrence l I)" using Cons.prems(1) by (simp add: cc_add_occurrence_def)
  moreover have "ofold (cc_add_occurrence cap) ls (add_occurrence l I) = Some (fold add_occurrence ls (add_occurrence l I))"
  proof (rule Cons.IH)
    show "\<forall>l'\<in>set ls. 1 \<le> var_num l' \<and> var_num l' \<le> num_vars (add_occurrence l I)"
      using Cons.prems(1) by (simp add: add_occurrence_def)
    show "\<forall>v. var_lit_count (add_occurrence l I) v + length (filter (\<lambda>l. var_num l = v) ls) < cap v"
    proof
      fix v
      show "var_lit_count (add_occurrence l I) v + length (filter (\<lambda>l. var_num l = v) ls) < cap v"
        using Cons.prems(2) [rule_format, of v] by (cases "var_num l = v") (auto simp: add_occurrence_def)
    qed
  qed
  ultimately show ?case by simp
qed simp

lemma index_clauses_ok:
  assumes "\<forall>c\<in>set cs. \<forall>l\<in>set (clause_lit I c). 1 \<le> var_num l \<and> var_num l \<le> num_vars I"
    and "\<forall>v. var_lit_count I v + length (filter (\<lambda>l. var_num l = v) (concat (map (clause_lit I) cs))) < cap v"
  shows "ofold (cc_occurrences_of cap) cs I = Some (fold (\<lambda>c. fold add_occurrence (clause_lit I c)) cs I)"
  using assms
proof (induction cs arbitrary: I)
  case (Cons c cs)
  let ?J = "fold add_occurrence (clause_lit I c) I"
  have J: "?J = I\<lparr>var_lit := (\<lambda>v. var_lit I v @ filter (\<lambda>l. var_num l = v) (clause_lit I c))\<rparr>"
    by (rule fold_add_occurrence)
  have cap: "var_lit_count I v + length (filter (\<lambda>l. var_num l = v) (clause_lit I c)) < cap v" for v
    using Cons.prems(2) [rule_format, of v] by simp
  have "cc_occurrences_of cap c I = Some ?J"
    unfolding cc_occurrences_of_def using Cons.prems(1) cap by (intro add_occurrences_ok) auto
  moreover have "ofold (cc_occurrences_of cap) cs ?J = Some (fold (\<lambda>c. fold add_occurrence (clause_lit ?J c)) cs ?J)"
    by (rule Cons.IH) (use Cons.prems in \<open>auto simp: J add.assoc\<close>)
  moreover have "clause_lit ?J = clause_lit I" by (simp add: J)
  ultimately show ?case by simp
qed simp

lemma map_nth_rows: "map (\<lambda>c. f (rows ! c)) [0..<length rows] = map f rows"
  by (rule nth_equalityI) simp_all

lemma loaded_count:
  "length (filter (\<lambda>l. var_num l = v) (concat (map (clause_lit (loaded_inst nv nc rows)) [0..<length rows])))
     = length (filter (\<lambda>l. lit_var l = v) (concat (map fst rows)))"
proof -
  have "map (\<lambda>c. length (filter (\<lambda>l. var_num l = v) (clause_lit (loaded_inst nv nc rows) c))) [0..<length rows]
      = map (\<lambda>c. length (filter (\<lambda>l. lit_var l = v) (fst (rows ! c)))) [0..<length rows]"
    by (rule map_cong) (auto simp: loaded_inst_def filter_map comp_def make_lit_def)
  then show ?thesis
    by (simp add: filter_concat length_concat comp_def map_nth_rows [where f = "\<lambda>r. length (filter (\<lambda>l. lit_var l = v) (fst r))"])
qed

lemma cc_index_ok:
  assumes "\<forall>r\<in>set rows. \<forall>l\<in>set (fst r). l \<noteq> 0 \<and> lit_var l \<le> nv"
    and "cc_inst s = loaded_inst a b rows" and "cc_actual_num_vars s = nv" and "cc_c s = length rows"
    and "cc_var_count s = (\<lambda>v. length (filter (\<lambda>l. lit_var l = v) (concat (map fst rows))))"
  shows "cc_index s = Some (parse_from_preprocess (rows_problem nv rows))"
proof -
  let ?I = "loaded_inst nv (length rows) rows"
  have I: "(cc_inst s)\<lparr>num_vars := cc_actual_num_vars s, num_clauses := cc_c s\<rparr> = ?I"
    using assms(2-4) by (simp add: loaded_inst_def)
  have "ofold (cc_occurrences_of (\<lambda>v. cc_var_count s v + 1)) [0..<length rows] ?I
      = Some (fold (\<lambda>c. fold add_occurrence (clause_lit ?I c)) [0..<length rows] ?I)"
  proof (rule index_clauses_ok)
    have "1 \<le> lit_var l \<and> lit_var l \<le> nv" if "c < length rows" "l \<in> set (fst (rows ! c))" for c l
    proof -
      have "l \<noteq> 0 \<and> lit_var l \<le> nv" using assms(1) that nth_mem by blast
      then show ?thesis using lit_var_pos [of l] by simp
    qed
    then show "\<forall>c\<in>set [0..<length rows]. \<forall>l\<in>set (clause_lit ?I c). 1 \<le> var_num l \<and> var_num l \<le> num_vars ?I"
      by (auto simp: loaded_inst_def make_lit_def)
    show "\<forall>v. var_lit_count ?I v + length (filter (\<lambda>l. var_num l = v) (concat (map (clause_lit ?I) [0..<length rows])))
        < cc_var_count s v + 1"
      unfolding loaded_count assms(5) by (simp add: loaded_inst_def)
  qed
  then show ?thesis by (simp only: cc_index_def Let_def I parse_rows_problem) (simp only: assms(4))
qed

section \<open>The search the solver starts\<close>

definition walk_rows :: "(cclause \<Rightarrow> bool) \<Rightarrow> cclause list \<Rightarrow> cclause list \<Rightarrow> (int list \<times> int) list" where
  "walk_rows keeps clauses CARclauses =
     map (\<lambda>c. (cl_literals c, 1)) (filter keeps clauses) @ map (\<lambda>c. (cl_literals c, cl_bound c)) (filter keeps CARclauses)"

definition walk_row_ok :: "nat \<Rightarrow> int list \<times> int \<Rightarrow> bool" where
  "walk_row_ok nv r \<longleftrightarrow> fst r \<noteq> [] \<and> distinct (map lit_var (fst r)) \<and> list_all (\<lambda>l. l \<noteq> 0 \<and> lit_var l \<le> nv) (fst r) \<and> 1 \<le> snd r"

lemma walk_add_rows:
  "ofold (walk_add keeps b) cs s = ofold add_row (map (\<lambda>c. (cl_literals c, b c)) (filter keeps cs)) s"
  by (induction cs arbitrary: s) (auto simp: walk_add_def add_row_def split: option.splits)

lemma card_walk_load_rows:
  "card_walk_load walkredundant likely nv clauses CARclauses s =
     ofold add_row (walk_rows (walk_keeps walkredundant likely) clauses CARclauses)
       (cc_allocate_memory nv (length (walk_rows (walk_keeps walkredundant likely) clauses CARclauses)) s)"
  by (simp add: card_walk_load_def walk_add_rows walk_rows_def ofold_append Let_def split: option.splits)

lemma rows_problem_ok:
  assumes "\<forall>r\<in>set rows. walk_row_ok nv r"
  shows "rows_ok (rows_problem nv rows)"
proof -
  have "1 \<le> pp_degree (rows_problem nv rows) ! i \<and> pp_clause (rows_problem nv rows) ! i \<noteq> []
      \<and> distinct (map lit_var (pp_clause (rows_problem nv rows) ! i))
      \<and> (\<forall>l\<in>set (pp_clause (rows_problem nv rows) ! i). l \<noteq> 0 \<and> lit_var l \<le> nv)"
    if i: "i \<in> {1..length rows}" for i
  proof -
    have "walk_row_ok nv (rows ! (i - 1))" using assms i nth_mem [of "i - 1" rows] by auto
    moreover have "pp_degree (rows_problem nv rows) ! i = snd (rows ! (i - 1))"
      "pp_clause (rows_problem nv rows) ! i = fst (rows ! (i - 1))"
      using i by (auto simp: rows_problem_def nth_Cons')
    ultimately show ?thesis by (simp add: walk_row_ok_def list_all_iff)
  qed
  then show ?thesis unfolding rows_ok_def by (auto simp: rows_problem_def)
qed

lemma rows_problem_rows: "pp_rows (rows_problem nv rows) = rows"
  by (rule nth_equalityI) (auto simp: pp_rows_def rows_problem_def simp del: upt_Suc)

lemma fold_list_update:
  assumes "\<forall>i\<in>set is. i < length xs" and "distinct is"
  shows "fold (\<lambda>i xs. xs[i := f i]) is xs ! j = (if j \<in> set is then f j else xs ! j)"
  using assms by (induction "is" arbitrary: xs) auto

lemma get_phase_nth:
  assumes "1 \<le> v" and "v < length phases"
  shows "get_phase s phases ! v = (if cur_soln (cc_ls s) v > 0 then 1 else - 1)"
  using assms fold_list_update [of "[1..<length phases]" phases "\<lambda>i. if cur_soln (cc_ls s) i > 0 then 1 else - 1" v]
  by (simp add: get_phase_def)

lemma start_ok:
  assumes rows: "\<forall>r\<in>set rows. walk_row_ok nv r" and ix: "cc_index s = Some (parse_from_preprocess (rows_problem nv rows))"
    and ls: "cc_ls s = allocate_memory garbage"
    and st: "start_cardsat_ls opt alloc s = Some (res, t)"
  shows "cc_inst t = parse_from_preprocess (rows_problem nv rows) \<and> ls_inv (cc_inst t) (cc_ls t)
    \<and> (res = 10 \<and> is_solution (cc_inst t) (cur_soln (cc_ls t)) \<or> res = 0)"
proof -
  define I where "I = parse_from_preprocess (rows_problem nv rows)"
  have wf: "wf_inst I" unfolding I_def by (rule parse_from_preprocess_wf [OF rows_problem_ok [OF rows]])
  then have ind: "indexed_inst I" by (simp add: wf_inst_def)
  have ix': "cc_index (s\<lparr>cc_callback_count := n\<rparr>) = Some I" for n
    using ix by (simp add: cc_index_def I_def)
  have a: "(allocate_memory garbage)\<lparr>rand_calls := 0\<rparr> = allocate_memory (garbage\<lparr>rand_calls := 0\<rparr>)"
    by (simp add: allocate_memory_def)
  obtain P st0 where P: "settings I opt alloc (cc_configure opt (cc_par s)) (allocate_memory (garbage\<lparr>rand_calls := 0\<rparr>)) = Some (P, st0)"
    using st by (auto simp: start_cardsat_ls_def Let_def ix' ls a split: option.splits)
  define st1 where "st1 = init_local_search I (init_assignment I P (st0\<lparr>tries := 1\<rparr>))"
  obtain r u where u: "local_search_flip I P st1 = (r, u)" by fastforce
  have t: "res = r" "t = s\<lparr>cc_callback_count := cc_callback_count s + 1, cc_inst := I, cc_par := P, cc_ls := u\<rparr>"
    using st by (simp_all add: start_cardsat_ls_def Let_def ix' ls a P st1_def [symmetric] u del: One_nat_def)
  note ok = settings_ok [OF ind P]
  have "ls_inv I st1" unfolding st1_def using ok(1,2)
    by (intro start_try_inv [OF wf]) (simp_all add: scratch_ok_def neighbors_ok_def)
  from local_search_flip_ok [OF wf this _ u] ok(3) show ?thesis by (simp add: t I_def)
qed

section \<open>The phases handed in are not used\<close>

definition upd_soln :: "(nat \<Rightarrow> int) \<Rightarrow> (nat \<Rightarrow> int) \<Rightarrow> ls \<Rightarrow> ls" where
  "upd_soln x y st = st\<lparr>cur_soln := x, time_stamp := y\<rparr>"

lemma fold_commutes:
  assumes "\<And>x s. f x (h s) = h (f x s)"
  shows "fold f xs (h s) = h (fold f xs s)"
  using assms by (induction xs arbitrary: s) auto

lemma clear_flags_soln: "clear_flags vs (upd_soln x y st) = upd_soln x y (clear_flags vs st)"
  unfolding clear_flags_def by (rule fold_commutes) (simp add: upd_soln_def)

lemma clear_neighbors_soln:
  "clear_materialized_neighbors n (upd_soln x y st) = upd_soln x y (clear_materialized_neighbors n st)"
  unfolding clear_materialized_neighbors_def by (rule fold_commutes) (simp add: upd_soln_def)

lemma upd_soln_fields:
  "neighbor_flag (upd_soln x y st) = neighbor_flag st" "var_neighbor (upd_soln x y st) = var_neighbor st"
  "sat_var (upd_soln x y st) = sat_var st"
  "(upd_soln x y st)\<lparr>neighbor_flag := a\<rparr> = upd_soln x y (st\<lparr>neighbor_flag := a\<rparr>)"
  "(upd_soln x y st)\<lparr>var_neighbor := b\<rparr> = upd_soln x y (st\<lparr>var_neighbor := b\<rparr>)"
  "(upd_soln x y st)\<lparr>materialized_neighbor_mode := c\<rparr> = upd_soln x y (st\<lparr>materialized_neighbor_mode := c\<rparr>)"
  by (simp_all add: upd_soln_def)

lemma build_neighbors_upd:
  "build_neighbors I budget alloc vs n (upd_soln x y st)
     = (fst (build_neighbors I budget alloc vs n st), upd_soln x y (snd (build_neighbors I budget alloc vs n st)))"
proof (induction vs arbitrary: n st)
  case (Cons v vs)
  obtain temp flag where c: "collect_neighbors I v (neighbor_flag st) = (temp, flag)" by fastforce
  show ?case
    by (simp add: upd_soln_fields c Let_def clear_flags_soln clear_neighbors_soln Cons.IH)
qed simp

lemma release_upd: "release_on_the_fly_memory (upd_soln x y st) = upd_soln x y (release_on_the_fly_memory st)"
  by (simp add: release_on_the_fly_memory_def upd_soln_def)

lemma choose_mode_upd: "choose_mode I P alloc (upd_soln x y st) = upd_soln x y (choose_mode I P alloc st)"
  by (simp add: choose_mode_def build_neighbor_relation_def build_neighbors_upd Let_def release_upd upd_soln_fields
      split_beta del: upt_Suc)

lemma settings_upd:
  "settings I opt alloc P (upd_soln x y st) = map_option (\<lambda>(P, st). (P, upd_soln x y st)) (settings I opt alloc P st)"
proof -
  have "(upd_soln x y st)\<lparr>total_step := a, minimum_hard_unsat_nb := b, delta_total_weight := c, ave_weight := d, m_prng_state := e\<rparr>
      = upd_soln x y (st\<lparr>total_step := a, minimum_hard_unsat_nb := b, delta_total_weight := c, ave_weight := d, m_prng_state := e\<rparr>)"
    for a b c d e by (simp add: upd_soln_def)
  then show ?thesis by (simp add: settings_def choose_mode_upd Let_def split: option.splits)
qed

definition agree_outside :: "nat set \<Rightarrow> (nat \<Rightarrow> int) \<Rightarrow> (nat \<Rightarrow> int) \<Rightarrow> ls \<Rightarrow> bool" where
  "agree_outside V x y st \<longleftrightarrow> (\<forall>v. v \<notin> V \<longrightarrow> x v = cur_soln st v \<and> y v = time_stamp st v)"

lemma set_vars_upd:
  assumes "agree_outside (set vs) x y st"
  shows "fold (set_var a) vs (upd_soln x y st) = fold (set_var a) vs st"
  using assms
proof (induction vs arbitrary: x y st)
  case Nil
  then have "x = cur_soln st" "y = time_stamp st" by (auto simp: agree_outside_def)
  then show ?case by (simp add: upd_soln_def)
next
  case (Cons v vs)
  have "set_var a v (upd_soln x y st) = upd_soln (x(v := a)) (y(v := 0)) (set_var a v st)"
    by (simp add: set_var_def upd_soln_def)
  moreover have "agree_outside (set vs) (x(v := a)) (y(v := 0)) (set_var a v st)"
    using Cons.prems by (auto simp: agree_outside_def set_var_def)
  ultimately show ?case using Cons.IH by simp
qed

lemma set_vars_random_upd:
  assumes "agree_outside (set vs) x y st"
  shows "fold (set_var_random P) vs (upd_soln x y st) = fold (set_var_random P) vs st"
  using assms
proof (induction vs arbitrary: x y st)
  case Nil
  then have "x = cur_soln st" "y = time_stamp st" by (auto simp: agree_outside_def)
  then show ?case by (simp add: upd_soln_def)
next
  case (Cons v vs)
  define a :: int where "a = (if libc_rand P (rand_calls st) mod 2 \<noteq> 0 then 1 else 0)"
  have "set_var_random P v (upd_soln x y st) = upd_soln (x(v := a)) (y(v := 0)) (set_var_random P v st)"
    by (simp add: set_var_random_def set_var_def upd_soln_def Let_def a_def)
  moreover have "agree_outside (set vs) (x(v := a)) (y(v := 0)) (set_var_random P v st)"
    using Cons.prems by (auto simp: agree_outside_def set_var_random_def set_var_def Let_def a_def)
  ultimately show ?case using Cons.IH by simp
qed

lemma init_assignment_upd:
  assumes "tries st = 1" and "agree_outside {1..num_vars I} x y st"
  shows "init_assignment I P (upd_soln x y st) = init_assignment I P st"
proof -
  have "set [1..<Suc (num_vars I)] = {1..num_vars I}" by auto
  then have a: "agree_outside (set [1..<Suc (num_vars I)]) x y st" using assms(2) by simp
  have "tries (upd_soln x y st) = 1" using assms(1) by (simp add: upd_soln_def)
  then show ?thesis using assms(1) set_vars_upd [OF a] set_vars_random_upd [OF a]
    by (simp add: init_assignment_def init_assignment_with_random_def init_assignment_with_backbone_def
        init_assignment_with_best_def init_assignment_with_false_def init_assignment_with_true_def
        init_assignment_with_value_def del: upt_Suc)
qed

lemma put_phases:
  "\<exists>x y. fold (put_phase a) is st = upd_soln x y st \<and> agree_outside (Suc ` set is) x y st"
proof (induction "is" arbitrary: st)
  case Nil
  have "st = upd_soln (cur_soln st) (time_stamp st) st" "agree_outside {} (cur_soln st) (time_stamp st) st"
    by (simp_all add: upd_soln_def agree_outside_def)
  then show ?case by auto
next
  case (Cons i "is")
  obtain x y where "fold (put_phase a) is (put_phase a i st) = upd_soln x y (put_phase a i st)"
    "agree_outside (Suc ` set is) x y (put_phase a i st)" using Cons.IH by blast
  moreover have "upd_soln x y (put_phase a i st) = upd_soln x y st" by (simp add: upd_soln_def put_phase_def)
  moreover have "agree_outside (Suc ` set (i # is)) x y st"
    using calculation(2) by (auto simp: agree_outside_def put_phase_def)
  ultimately show ?case by auto
qed

lemma settings_time: "settings I opt alloc P st = Some (P', st') \<Longrightarrow> cur_soln st' = cur_soln st \<and> time_stamp st' = time_stamp st"
proof -
  assume "settings I opt alloc P st = Some (P', st')"
  moreover have "st = upd_soln (cur_soln st) (time_stamp st) st" by (simp add: upd_soln_def)
  ultimately have "\<exists>u. st' = upd_soln (cur_soln st) (time_stamp st) u"
    using settings_upd [of I opt alloc P "cur_soln st" "time_stamp st" st] by auto
  then show ?thesis by (auto simp: upd_soln_def)
qed

lemma ofold_same_vars:
  assumes "\<And>c I J. f c I = Some J \<Longrightarrow> num_vars J = num_vars I" and "ofold f cs I = Some J"
  shows "num_vars J = num_vars I"
  using ofold_invariant [where P = "\<lambda>J. num_vars J = num_vars I", OF assms(2)] assms(1) by (metis)

lemma cc_index_num_vars:
  assumes "cc_index s = Some I"
  shows "num_vars I = cc_actual_num_vars s"
proof -
  have a: "num_vars J = num_vars I" if "cc_add_occurrence cap l I = Some J" for cap l I J
    using that by (auto simp: cc_add_occurrence_def add_occurrence_def split: if_splits)
  have "num_vars J = num_vars I" if "cc_occurrences_of cap c I = Some J" for cap c I J
    using ofold_same_vars [OF a that [unfolded cc_occurrences_of_def]] .
  from ofold_same_vars [OF this assms [unfolded cc_index_def Let_def]] show ?thesis by simp
qed

section \<open>Properties\<close>

text \<open>C31. The stream carries the problem: when no row has degree zero and no literal is zero, the
  solver reads back from the numbers it is fed exactly the rows of the preprocessor with their
  degrees, in order, and is ready for the next constraint.\<close>

theorem car_stream_roundtrip:
  assumes "\<forall>i\<in>{1..pp_clauses p}. pp_degree p ! i \<noteq> 0 \<and> 0 \<notin> set (pp_clause p ! i)"
  shows "cc_parse_from_preprocess p car_empty = car_empty\<lparr>car_out := pp_rows p\<rparr>"
proof -
  have "\<forall>i\<in>set [1..<Suc (pp_clauses p)]. pp_degree p ! i \<noteq> 0 \<and> 0 \<notin> set (pp_clause p ! i)" using assms by auto
  then show ?thesis
    unfolding cc_parse_from_preprocess_def by (subst stream_rows) (simp_all add: car_empty_def pp_rows_def del: upt_Suc)
qed

text \<open>A walk of the solver: when the kept clauses have distinct variables within range, no empty
  clause and positive bounds, loading them and building the occurrence lists never leaves an array;
  the search runs on exactly the instance the reader would build from these rows; it fails only on
  an invalid memory budget; it answers 10 or 0, and with 10 the phases handed back satisfy every
  clause and cardinality constraint the solver passed in.\<close>

theorem ccdcl_walk_sound:
  assumes "\<forall>r\<in>set (walk_rows (walk_keeps walkredundant likely) clauses CARclauses). walk_row_ok max_var r"
    and "length phases = Suc max_var"
  shows "\<exists>s1. card_walk_load walkredundant likely max_var clauses CARclauses s = Some s1
    \<and> cc_index s1 = Some (parse_from_preprocess (rows_problem max_var
        (walk_rows (walk_keeps walkredundant likely) clauses CARclauses)))
    \<and> (case start_cardsat_ls opt alloc s1 of
          None \<Rightarrow> checked_neighbor_entry_budget (word_of_int (opt_ls_neighbor_budget_gib opt)) = None
        | Some (res, t) \<Rightarrow> (res = 10 \<or> res = 0)
            \<and> (res = 10 \<longrightarrow> rows_sat (\<lambda>v. get_phase t phases ! v > 0)
                  (walk_rows (walk_keeps walkredundant likely) clauses CARclauses)))"
proof -
  define rows where "rows = walk_rows (walk_keeps walkredundant likely) clauses CARclauses"
  have ok: "\<forall>r\<in>set rows. walk_row_ok max_var r" using assms(1) by (simp add: rows_def)
  then have lits: "\<forall>r\<in>set rows. \<forall>l\<in>set (fst r). l \<noteq> 0 \<and> lit_var l \<le> max_var"
    by (auto simp: walk_row_ok_def list_all_iff)
  define s1 where "s1 = s\<lparr>cc_actual_num_vars := max_var, cc_actual_num_clauses := length rows,
      cc_inst := loaded_inst (max_var + 10) (length rows + 10) rows,
      cc_var_count := (\<lambda>v. length (filter (\<lambda>l. lit_var l = v) (concat (map fst rows)))),
      cc_ls := allocate_memory (cc_ls s), cc_c := length rows\<rparr>"
  have load: "card_walk_load walkredundant likely max_var clauses CARclauses s = Some s1"
    using add_rows_load [of rows "length rows" max_var s] lits
    by (simp add: card_walk_load_rows rows_def [symmetric] s1_def)
  have ix: "cc_index s1 = Some (parse_from_preprocess (rows_problem max_var rows))"
    by (rule cc_index_ok [OF lits]) (simp_all add: s1_def)
  have ls: "cc_ls s1 = allocate_memory (cc_ls s)" by (simp add: s1_def)
  have ro: "rows_ok (rows_problem max_var rows)" by (rule rows_problem_ok [OF ok])
  have "case start_cardsat_ls opt alloc s1 of
      None \<Rightarrow> checked_neighbor_entry_budget (word_of_int (opt_ls_neighbor_budget_gib opt)) = None
    | Some (res, t) \<Rightarrow> (res = 10 \<or> res = 0) \<and> (res = 10 \<longrightarrow> rows_sat (\<lambda>v. get_phase t phases ! v > 0) rows)"
  proof (cases "start_cardsat_ls opt alloc s1")
    case None
    have "cc_index (s1\<lparr>cc_callback_count := n\<rparr>) = cc_index s1" for n by (simp add: cc_index_def)
    then show ?thesis using None ix
      by (auto simp: start_cardsat_ls_def settings_def Let_def split: option.splits prod.splits)
  next
    case (Some p)
    obtain res t where p: "p = (res, t)" by fastforce
    let ?I = "parse_from_preprocess (rows_problem max_var rows)"
    have r: "cc_inst t = ?I" "ls_inv ?I (cc_ls t)" "res = 10 \<and> is_solution ?I (cur_soln (cc_ls t)) \<or> res = 0"
      using start_ok [OF ok ix ls Some [unfolded p]] by auto
    have "rows_sat (\<lambda>v. get_phase t phases ! v > 0) rows" if "res = 10"
    proof -
      have nv: "num_vars ?I = max_var" by (simp add: parse_from_preprocess_fields rows_problem_def)
      have "is_solution ?I (cur_soln (cc_ls t)) = is_solution ?I (\<lambda>v. of_bool (get_phase t phases ! v > 0))"
      proof (rule is_solution_cong)
        show "indexed_inst ?I" using parse_from_preprocess_wf [OF ro] by (simp add: wf_inst_def)
        fix v assume v: "1 \<le> v" "v \<le> num_vars ?I"
        then have "cur_soln (cc_ls t) v = 0 \<or> cur_soln (cc_ls t) v = 1" using r(2) by (auto simp: ls_inv_def soln_ok_def)
        then show "cur_soln (cc_ls t) v = of_bool (get_phase t phases ! v > 0)"
          using get_phase_nth [of v phases t] v nv assms(2) by auto
      qed
      then show ?thesis using r(3) that parse_solution_rows [OF ro] by (simp add: rows_problem_rows)
    qed
    then show ?thesis using r(3) by (auto simp: Some p)
  qed
  then show ?thesis using load ix unfolding rows_def by blast
qed

text \<open>C32. The phases the solver hands in never matter: whatever assignment the callback
  \<open>init_assignment\<close> stores before the search starts, the search overwrites it, because it
  always begins a first try, and a first try sets every variable anew in every initialisation mode.\<close>

theorem ccdcl_phases_overwritten:
  assumes "length assignment \<le> cc_actual_num_vars s"
  shows "start_cardsat_ls opt alloc (cc_init_assignment assignment s) = start_cardsat_ls opt alloc s"
proof -
  obtain x y where f: "fold (put_phase assignment) [0..<length assignment] (cc_ls s) = upd_soln x y (cc_ls s)"
    and ag: "agree_outside (Suc ` set [0..<length assignment]) x y (cc_ls s)" using put_phases by blast
  have i: "cc_index (cc_init_assignment assignment s\<lparr>cc_callback_count := n\<rparr>) = cc_index (s\<lparr>cc_callback_count := n\<rparr>)" for n
    by (simp add: cc_index_def cc_init_assignment_def)
  have r: "(upd_soln x y (cc_ls s))\<lparr>rand_calls := 0\<rparr> = upd_soln x y ((cc_ls s)\<lparr>rand_calls := 0\<rparr>)" by (simp add: upd_soln_def)
  show ?thesis
  proof (cases "cc_index (s\<lparr>cc_callback_count := cc_callback_count s + 1\<rparr>)")
    case None
    then show ?thesis by (simp add: start_cardsat_ls_def Let_def cc_init_assignment_def cc_index_def)
  next
    case (Some I)
    have nv: "num_vars I = cc_actual_num_vars s" using cc_index_num_vars [OF Some] by simp
    show ?thesis
    proof (cases "settings I opt alloc (cc_configure opt (cc_par s)) ((cc_ls s)\<lparr>rand_calls := 0\<rparr>)")
      case None
      then show ?thesis using i Some
        by (simp add: start_cardsat_ls_def Let_def) (simp add: cc_init_assignment_def f r settings_upd)
    next
      case set: (Some q)
      obtain P st where q: "q = (P, st)" by fastforce
      have st: "cur_soln st = cur_soln (cc_ls s)" "time_stamp st = time_stamp (cc_ls s)"
        using settings_time [OF set [unfolded q]] by simp_all
      have "agree_outside {1..num_vars I} x y (st\<lparr>tries := 1\<rparr>)"
        using ag assms nv by (auto simp: agree_outside_def st)
      note this' = init_assignment_upd [OF _ this]
      have tr: "(upd_soln x y st)\<lparr>tries := 1\<rparr> = upd_soln x y (st\<lparr>tries := 1\<rparr>)" by (simp add: upd_soln_def)
      have "init_assignment I P ((upd_soln x y st)\<lparr>tries := 1\<rparr>) = init_assignment I P (st\<lparr>tries := 1\<rparr>)"
        unfolding tr by (rule this') simp
      then show ?thesis using i Some set
        by (simp add: start_cardsat_ls_def Let_def q) (simp add: cc_init_assignment_def f r settings_upd)
    qed
  qed
qed

section \<open>Witnesses\<close>

definition demo_rows_list :: "(int list \<times> int) list" where
  "demo_rows_list = [([1, -2], 1), ([1, 2, 3], 2)]"

definition demo_bridge :: ccdcl where
  "demo_bridge = CCDCLSolver_new default_options (\<lambda>_. 0) demo_garbage"

definition demo_clause :: "int list \<Rightarrow> int \<Rightarrow> cclause" where
  "demo_clause ls b = \<lparr>cl_literals = ls, cl_bound = b, cl_garbage = False, cl_redundant = False\<rparr>"

theorem car_stream_roundtrip_witness:
  "cc_parse_from_preprocess (rows_problem 3 demo_rows_list) car_empty = car_empty\<lparr>car_out := demo_rows_list\<rparr>"
proof -
  have "{1..pp_clauses (rows_problem 3 demo_rows_list)} = {1, 2}" by (auto simp: rows_problem_def demo_rows_list_def)
  then have "\<forall>i\<in>{1..pp_clauses (rows_problem 3 demo_rows_list)}. pp_degree (rows_problem 3 demo_rows_list) ! i \<noteq> 0
      \<and> 0 \<notin> set (pp_clause (rows_problem 3 demo_rows_list) ! i)" by (simp add: rows_problem_def demo_rows_list_def)
  from car_stream_roundtrip [OF this] show ?thesis by (simp add: rows_problem_rows)
qed

lemma demo_walk_rows:
  "walk_rows (walk_keeps False (\<lambda>_. False)) [demo_clause [1, -2] 0] [demo_clause [1, 2, 3] 2] = demo_rows_list"
  by (simp add: walk_rows_def walk_keeps_def demo_clause_def demo_rows_list_def)

theorem ccdcl_walk_sound_witness:
  "\<exists>s1. card_walk_load False (\<lambda>_. False) 3 [demo_clause [1, -2] 0] [demo_clause [1, 2, 3] 2] demo_bridge = Some s1
    \<and> cc_index s1 = Some (parse_from_preprocess (rows_problem 3 demo_rows_list))"
proof -
  have "\<forall>r\<in>set demo_rows_list. walk_row_ok 3 r" by (simp add: demo_rows_list_def walk_row_ok_def lit_var_def)
  show ?thesis
    using ccdcl_walk_sound [where phases = "[0, 0, 0, 0]" and max_var = 3 and walkredundant = False and likely = "\<lambda>_. False"
        and clauses = "[demo_clause [1, -2] 0]" and CARclauses = "[demo_clause [1, 2, 3] 2]" and s = demo_bridge,
        unfolded demo_walk_rows, OF \<open>\<forall>r\<in>set demo_rows_list. _\<close>] by auto
qed

theorem ccdcl_phases_overwritten_witness:
  "start_cardsat_ls default_options (\<lambda>_. True) (cc_init_assignment [1, -1] (cc_allocate_memory 2 0 demo_bridge))
    = start_cardsat_ls default_options (\<lambda>_. True) (cc_allocate_memory 2 0 demo_bridge)"
  by (rule ccdcl_phases_overwritten) (simp add: cc_allocate_memory_def)

end
