(* ===== verification/Ccdcl_Walk.thy ===== *)
theory Ccdcl_Walk
  imports Ccdcl
begin

text \<open>
  The walk as the conflict-driven solver runs it: \<open>card_walk_round\<close> and \<open>card_walk_save_minimum\<close>
  (src/lib/ccdcl/src/cardwalk.cpp), \<open>local_search_round\<close> and \<open>local_search\<close> (internal.cpp),
  \<open>copy_phases\<close> (phases.cpp).  What the vendored solver holds when a round starts, after its
  backtracking, propagation and garbage collection, is the record \<open>walk_env\<close>; watch lists,
  statistics and messages are left out, and so are the debug assertions.
\<close>

section \<open>State\<close>

record walk_env =
  wn_conflict :: bool
  wn_assumptions :: "int list"
  wn_active :: "nat \<Rightarrow> bool"
  wn_clauses :: "cclause list"
  wn_CARclauses :: "cclause list"

record walker =
  wk_vals :: "int \<Rightarrow> int"
  wk_var_level :: "nat \<Rightarrow> nat"
  wk_level :: nat
  wk_saved :: "int list"
  wk_min :: "int list"
  wk_ls :: "int list"
  wk_prev :: "int list"
  wk_search :: ccdcl

record walk_opts =
  wo_opts :: opts
  wo_alloc :: "nat \<Rightarrow> bool"
  wo_walk :: bool
  wo_walkredundant :: bool
  wo_likely :: "cclause \<Rightarrow> bool"
  wo_max_var :: nat
  wo_rounds :: nat

definition likely_to_be_kept_clause :: "int \<Rightarrow> int \<Rightarrow> (cclause \<Rightarrow> bool) \<Rightarrow> (cclause \<Rightarrow> int) \<Rightarrow> cclause \<Rightarrow> bool" where
  "likely_to_be_kept_clause keptglue keptsize keep glue c =
     (if \<not> cl_redundant c then True
      else if keep c then True
      else if glue c > keptglue then False
      else if int (length (cl_literals c)) > keptsize then False
      else True)"

section \<open>One round\<close>

definition lit_sign :: "int \<Rightarrow> int" where
  "lit_sign l = of_bool (l > 0) - of_bool (l < 0)"

text \<open>The loop over the assumptions, with the flag \<open>failed\<close>.\<close>

fun assign_assumptions :: "(nat \<Rightarrow> bool) \<Rightarrow> int list \<Rightarrow> walker \<Rightarrow> bool \<times> walker" where
  "assign_assumptions active [] w = (False, w)"
| "assign_assumptions active (l # ls) w =
     (let tmp = wk_vals w l
      in if tmp > 0 then assign_assumptions active ls w
         else if tmp < 0 then (True, w)
         else if \<not> active (lit_var l) then assign_assumptions active ls w
         else
           let tmp = lit_sign l; idx = lit_var l
           in assign_assumptions active ls
                (w\<lparr>wk_vals := (wk_vals w)(int idx := tmp, - int idx := - tmp),
                   wk_var_level := (wk_var_level w)(idx := 1)\<rparr>))"

definition save_var :: "(nat \<Rightarrow> bool) \<Rightarrow> nat \<Rightarrow> walker \<Rightarrow> walker" where
  "save_var active i w =
     (if \<not> active i then w
      else if wk_vals w (int i) \<noteq> 0 then w
      else w\<lparr>wk_saved := (wk_saved w)[i := wk_ls w ! i], wk_min := (wk_min w)[i := wk_ls w ! i]\<rparr>)"

definition card_walk_save_minimum :: "nat \<Rightarrow> (nat \<Rightarrow> bool) \<Rightarrow> walker \<Rightarrow> walker" where
  "card_walk_save_minimum max_var active w =
     (let w = w\<lparr>wk_ls := get_phase (wk_search w) (wk_ls w)\<rparr>
      in fold (save_var active) [1..<Suc max_var] w)"

definition copy_phases :: "nat \<Rightarrow> walker \<Rightarrow> walker" where
  "copy_phases max_var w = fold (\<lambda>i w. w\<lparr>wk_prev := (wk_prev w)[i := wk_saved w ! i]\<rparr>) [1..<Suc max_var] w"

definition clear_val :: "(nat \<Rightarrow> bool) \<Rightarrow> nat \<Rightarrow> walker \<Rightarrow> walker" where
  "clear_val active i w =
     (if active i then w\<lparr>wk_vals := (wk_vals w)(int i := 0, - int i := 0)\<rparr> else w)"

text \<open>\<open>None\<close> is an access outside an array, or the exit on an invalid memory budget.  When an
  assumption fails, the phases are read from arrays of the search that have not been allocated in this
  round, and these arrays are released.\<close>

definition card_walk_round :: "walk_opts \<Rightarrow> walk_env \<Rightarrow> walker \<Rightarrow> (int \<times> walker) option" where
  "card_walk_round O' env w =
     (if wn_conflict env then Some (20, w)
      else
        let (failed, w) = assign_assumptions (wn_active env) (wn_assumptions env) (w\<lparr>wk_level := 1\<rparr>);
            w = w\<lparr>wk_level := 2\<rparr>
        in if failed then None
           else
             case card_walk_load (wo_walkredundant O') (wo_likely O') (wo_max_var O') (wn_clauses env) (wn_CARclauses env)
                    (wk_search w) of
               None \<Rightarrow> None
             | Some s \<Rightarrow>
                 (case start_cardsat_ls (wo_opts O') (wo_alloc O') s of
                    None \<Rightarrow> None
                  | Some (res, s) \<Rightarrow>
                      let w = card_walk_save_minimum (wo_max_var O') (wn_active env) (w\<lparr>wk_search := s\<rparr>);
                          w = copy_phases (wo_max_var O') w;
                          w = fold (clear_val (wn_active env)) [1..<Suc (wo_max_var O')] w
                      in Some (res, w\<lparr>wk_level := 0\<rparr>)))"

section \<open>The rounds\<close>

definition local_search_round :: "walk_opts \<Rightarrow> bool \<Rightarrow> walk_env \<Rightarrow> walker \<Rightarrow> (int \<times> walker) option" where
  "local_search_round O' is_unsat env w =
     (if is_unsat then Some (0, w)
      else if wo_max_var O' = 0 then Some (0, w)
      else card_walk_round O' env w)"

fun local_search_rounds :: "walk_opts \<Rightarrow> bool \<Rightarrow> (nat \<Rightarrow> walk_env) \<Rightarrow> nat list \<Rightarrow> int \<times> walker \<Rightarrow> (int \<times> walker) option" where
  "local_search_rounds O' is_unsat env [] rw = Some rw"
| "local_search_rounds O' is_unsat env (i # is) rw =
     (if fst rw \<noteq> 0 then Some rw
      else case local_search_round O' is_unsat (env i) (snd rw) of
        None \<Rightarrow> None
      | Some rw \<Rightarrow> local_search_rounds O' is_unsat env is rw)"

text \<open>\<open>satisfy\<close> stands for \<open>try_to_satisfy_formula_by_saved_phases\<close>, a part of the vendored solver.\<close>

definition internal_local_search ::
    "walk_opts \<Rightarrow> bool \<Rightarrow> int list \<Rightarrow> (walker \<Rightarrow> int \<times> walker) \<Rightarrow> (nat \<Rightarrow> walk_env) \<Rightarrow> walker \<Rightarrow> (int \<times> walker) option" where
  "internal_local_search O' is_unsat constraint satisfy env w =
     (if is_unsat \<or> wo_max_var O' = 0 \<or> \<not> wo_walk O' \<or> constraint \<noteq> [] then Some (0, w)
      else case local_search_rounds O' is_unsat env [1..<Suc (wo_rounds O')] (0, w) of
        None \<Rightarrow> None
      | Some (res, w) \<Rightarrow> if res = 10 then Some (satisfy w) else Some (res, w))"

section \<open>What a round leaves\<close>

definition put :: "(nat \<Rightarrow> bool) \<Rightarrow> int list \<Rightarrow> nat \<Rightarrow> int list \<Rightarrow> int list" where
  "put P ph i xs = (if P i then xs[i := ph ! i] else xs)"

lemma fold_put_length [simp]: "length (fold (put P ph) vs xs) = length xs"
  by (induction vs arbitrary: xs) (simp_all add: put_def)

lemma fold_put_nth:
  "v < length xs \<Longrightarrow> fold (put P ph) vs xs ! v = (if v \<in> set vs \<and> P v then ph ! v else xs ! v)"
proof (induction vs arbitrary: xs)
  case (Cons i vs)
  have "put P ph i xs ! v = (if v = i \<and> P v then ph ! v else xs ! v)" "v < length (put P ph i xs)"
    using Cons.prems by (auto simp: put_def nth_list_update)
  then show ?case using Cons.IH [of "put P ph i xs"] by auto
qed simp

lemma save_vars_eq:
  "fold (save_var active) vs w = (let f = fold (put (\<lambda>i. active i \<and> wk_vals w (int i) = 0) (wk_ls w)) vs
     in w\<lparr>wk_saved := f (wk_saved w), wk_min := f (wk_min w)\<rparr>)"
proof (induction vs arbitrary: w)
  case Nil
  then show ?case by (cases w) simp
next
  case (Cons i vs)
  show ?case
  proof (cases "active i \<and> wk_vals w (int i) = 0")
    case True
    let ?w = "w\<lparr>wk_saved := (wk_saved w)[i := wk_ls w ! i], wk_min := (wk_min w)[i := wk_ls w ! i]\<rparr>"
    have "save_var active i w = ?w" using True by (simp add: save_var_def)
    moreover have "put (\<lambda>i. active i \<and> wk_vals w (int i) = 0) (wk_ls w) i xs = xs[i := wk_ls w ! i]" for xs
      using True by (simp add: put_def)
    ultimately show ?thesis using Cons.IH [of ?w] by (simp add: Let_def)
  next
    case False
    then have "save_var active i w = w" by (auto simp: save_var_def)
    moreover have "put (\<lambda>i. active i \<and> wk_vals w (int i) = 0) (wk_ls w) i xs = xs" for xs
      using False by (auto simp: put_def)
    ultimately show ?thesis using Cons.IH [of w] by (simp add: Let_def)
  qed
qed

lemma save_vars:
  fixes vs w active
  defines "t \<equiv> fold (save_var active) vs w"
  shows "wk_vals t = wk_vals w" "wk_prev t = wk_prev w" "wk_search t = wk_search w" "length (wk_saved t) = length (wk_saved w)"
    "wk_ls t = wk_ls w" "wk_var_level t = wk_var_level w"
    "v < length (wk_saved w) \<Longrightarrow> wk_saved t ! v =
       (if v \<in> set vs \<and> active v \<and> wk_vals w (int v) = 0 then wk_ls w ! v else wk_saved w ! v)"
    "v < length (wk_min w) \<Longrightarrow> wk_min t ! v =
       (if v \<in> set vs \<and> active v \<and> wk_vals w (int v) = 0 then wk_ls w ! v else wk_min w ! v)"
  by (simp_all add: t_def save_vars_eq Let_def fold_put_nth)

lemma copy_phases_fields:
  fixes n w
  defines "t \<equiv> copy_phases n w"
  shows "wk_vals t = wk_vals w \<and> wk_saved t = wk_saved w \<and> wk_min t = wk_min w \<and> wk_search t = wk_search w
    \<and> wk_ls t = wk_ls w \<and> wk_var_level t = wk_var_level w \<and> length (wk_prev t) = length (wk_prev w)
    \<and> (\<forall>v. v < length (wk_prev w) \<longrightarrow> wk_prev t ! v = (if 1 \<le> v \<and> v \<le> n then wk_saved w ! v else wk_prev w ! v))"
proof -
  have "wk_vals t = wk_vals w \<and> wk_saved t = wk_saved w \<and> wk_min t = wk_min w \<and> wk_search t = wk_search w
    \<and> wk_ls t = wk_ls w \<and> wk_var_level t = wk_var_level w \<and> length (wk_prev t) = length (wk_prev w)
    \<and> (\<forall>v. v < length (wk_prev w) \<longrightarrow> wk_prev t ! v = (if v \<in> set vs then wk_saved w ! v else wk_prev w ! v))"
    if "t = fold (\<lambda>i w. w\<lparr>wk_prev := (wk_prev w)[i := wk_saved w ! i]\<rparr>) vs w" for t vs
    using that by (induction vs arbitrary: w) (simp_all add: nth_list_update)
  from this [of t "[1..<Suc n]"] show ?thesis by (auto simp: t_def copy_phases_def less_Suc_eq_le simp del: upt_Suc)
qed

lemma lit_var_eq: "lit_var l = i \<longleftrightarrow> l = int i \<or> l = - int i"
  by (simp add: lit_var_def) linarith

lemma clear_vals:
  "fold (clear_val active) vs w
     = w\<lparr>wk_vals := (\<lambda>l. if active (lit_var l) \<and> lit_var l \<in> set vs then 0 else wk_vals w l)\<rparr>"
proof (induction vs arbitrary: w)
  case Nil
  then show ?case by simp
next
  case (Cons i vs)
  have "clear_val active i w = w\<lparr>wk_vals := (\<lambda>l. if active (lit_var l) \<and> lit_var l = i then 0 else wk_vals w l)\<rparr>"
  proof (cases "active i")
    case True
    then have "(wk_vals w)(int i := 0, - int i := 0) = (\<lambda>l. if active (lit_var l) \<and> lit_var l = i then 0 else wk_vals w l)"
      by (auto simp: fun_eq_iff lit_var_eq) (auto simp: lit_var_def)
    then show ?thesis using True by (simp add: clear_val_def)
  next
    case False
    then have "(\<lambda>l. if active (lit_var l) \<and> lit_var l = i then 0 else wk_vals w l) = wk_vals w"
      by (auto simp: fun_eq_iff)
    then show ?thesis using False by (simp add: clear_val_def)
  qed
  then show ?case by (simp add: Cons.IH fun_eq_iff) (rule arg_cong [where f = "\<lambda>f. w\<lparr>wk_vals := f\<rparr>"], auto)
qed

text \<open>The values of opposite literals are opposite; the assumptions keep that.\<close>

definition vals_signed :: "walker \<Rightarrow> bool" where
  "vals_signed w \<longleftrightarrow> (\<forall>l. wk_vals w (- l) = - wk_vals w l)"

text \<open>What the assumptions leave when none fails: each of their active variables that had no value has
  the sign of its literal now, at level 1; nothing else has changed.\<close>

definition assumed :: "(nat \<Rightarrow> bool) \<Rightarrow> int list \<Rightarrow> walker \<Rightarrow> nat \<Rightarrow> bool" where
  "assumed active ls w v \<longleftrightarrow> active v \<and> wk_vals w (int v) = 0 \<and> v \<in> lit_var ` set ls"

lemma assign_assumptions_ok:
  assumes "assign_assumptions active ls w = (False, t)" and "vals_signed w" and "0 \<notin> set ls"
  shows "t = w\<lparr>wk_vals := wk_vals t, wk_var_level := (\<lambda>v. if assumed active ls w v then 1 else wk_var_level w v)\<rparr>
    \<and> (\<forall>l. \<not> assumed active ls w (lit_var l) \<longrightarrow> wk_vals t l = wk_vals w l)
    \<and> (\<forall>l. assumed active ls w (lit_var l) \<longrightarrow> wk_vals t l \<noteq> 0)
    \<and> (\<forall>l\<in>set ls. active (lit_var l) \<longrightarrow> 0 < wk_vals t l)"
  using assms
proof (induction ls arbitrary: w)
  case Nil
  then show ?case by (simp add: assumed_def)
next
  case (Cons l ls)
  have nz: "l \<noteq> 0" "0 \<notin> set ls" using Cons.prems(3) by auto
  have il: "l = int (lit_var l) \<or> l = - int (lit_var l)" by (auto simp: lit_var_def)
  have v0: "wk_vals w l = 0 \<longleftrightarrow> wk_vals w (int (lit_var l)) = 0"
    using il Cons.prems(2) unfolding vals_signed_def by (metis neg_equal_0_iff_equal)
  have pos: "\<not> wk_vals w l < 0" using Cons.prems(1) by (auto simp: Let_def)
  show ?case
  proof (cases "wk_vals w l = 0 \<and> active (lit_var l)")
    case False
    then have run: "assign_assumptions active ls w = (False, t)" using Cons.prems(1) pos by (auto simp: Let_def split: if_splits)
    have same: "assumed active (l # ls) w = assumed active ls w" using False v0 by (auto simp: assumed_def fun_eq_iff)
    note IH = Cons.IH [OF run Cons.prems(2) nz(2)]
    have "0 < wk_vals t l" if "active (lit_var l)"
    proof -
      have "0 < wk_vals w l" using False that pos by simp
      moreover have "\<not> assumed active ls w (lit_var l)" using \<open>0 < wk_vals w l\<close> v0 by (auto simp: assumed_def)
      ultimately show ?thesis using IH by auto
    qed
    then show ?thesis unfolding same using IH by auto
  next
    case True
    define w' where "w' = w\<lparr>wk_vals := (wk_vals w)(int (lit_var l) := lit_sign l, - int (lit_var l) := - lit_sign l),
      wk_var_level := (wk_var_level w)(lit_var l := 1)\<rparr>"
    have run: "assign_assumptions active ls w' = (False, t)" using Cons.prems(1) True by (simp add: Let_def w'_def)
    have vl: "lit_var l \<noteq> 0" using nz(1) lit_var_pos [of l] by simp
    have at: "wk_vals w' m = (if lit_var m = lit_var l then (if m = l then 1 else -1) else wk_vals w m)" for m
      using vl by (auto simp: w'_def lit_var_def lit_sign_def split: if_splits)
    have "vals_signed w'"
      using Cons.prems(2) nz(1) vl by (auto simp: vals_signed_def at) (auto simp: lit_var_def split: if_splits)
    note IH = Cons.IH [OF run this nz(2)]
    have as: "assumed active (l # ls) w v \<longleftrightarrow> v = lit_var l \<or> assumed active ls w' v" for v
      using True v0 at [of "int v"] by (auto simp: assumed_def lit_var_def)
    have na: "\<not> assumed active ls w' (lit_var l)" using at [of "int (lit_var l)"] by (auto simp: assumed_def lit_var_def split: if_splits)
    show ?thesis unfolding as using IH na at nz(1)
      by (cases t; cases w) (auto simp: w'_def fun_eq_iff)
  qed
qed

text \<open>The rows of a round, and when they are in the shape the search expects.\<close>

definition round_rows :: "walk_opts \<Rightarrow> walk_env \<Rightarrow> (int list \<times> int) list" where
  "round_rows O' env = walk_rows (walk_keeps (wo_walkredundant O') (wo_likely O')) (wn_clauses env) (wn_CARclauses env)"

text \<open>A round that reaches the search: no conflict at the root, assumptions that do not contradict the
  values or each other, rows in shape, and arrays that cover the variables.  Values may be set already,
  for active and inactive variables alike.\<close>

definition round_ok :: "walk_opts \<Rightarrow> walk_env \<Rightarrow> walker \<Rightarrow> bool" where
  "round_ok O' env w \<longleftrightarrow> \<not> wn_conflict env \<and> vals_signed w \<and> 0 \<notin> set (wn_assumptions env)
     \<and> \<not> fst (assign_assumptions (wn_active env) (wn_assumptions env) (w\<lparr>wk_level := 1\<rparr>))
     \<and> (\<forall>r\<in>set (round_rows O' env). walk_row_ok (wo_max_var O') r)
     \<and> (\<forall>v. wn_active env v \<longrightarrow> v \<in> {1..wo_max_var O'})
     \<and> length (wk_saved w) = Suc (wo_max_var O') \<and> length (wk_min w) = Suc (wo_max_var O')
     \<and> length (wk_ls w) = Suc (wo_max_var O') \<and> length (wk_prev w) = Suc (wo_max_var O')"

text \<open>A variable is free in a round when it is active, has no value and is not assumed.\<close>

definition round_free :: "walk_env \<Rightarrow> walker \<Rightarrow> nat \<Rightarrow> bool" where
  "round_free env w v \<longleftrightarrow> wn_active env v \<and> wk_vals w (int v) = 0 \<and> v \<notin> lit_var ` set (wn_assumptions env)"

lemma rows_sat_agree:
  assumes "\<forall>r\<in>set rows. \<forall>l\<in>set (fst r). a (lit_var l) = b (lit_var l)"
  shows "rows_sat a rows = rows_sat b rows"
proof -
  have "row_sat a (fst r) d = row_sat b (fst r) d" if "r \<in> set rows" for r d
  proof -
    have "filter (lit_sat a) (fst r) = filter (lit_sat b) (fst r)"
      using assms that by (intro filter_cong) (auto simp: lit_sat_def)
    then show ?thesis by (simp add: row_sat_def row_count_def)
  qed
  then show ?thesis by (fastforce simp: rows_sat_def)
qed

section \<open>Properties\<close>


section \<open>Witness\<close>

definition demo_walk_opts :: walk_opts where
  "demo_walk_opts = \<lparr>wo_opts = default_options, wo_alloc = (\<lambda>_. True), wo_walk = True, wo_walkredundant = False,
     wo_likely = (\<lambda>_. False), wo_max_var = 4, wo_rounds = 1\<rparr>"

definition demo_walk_env :: walk_env where
  "demo_walk_env = \<lparr>wn_conflict = False, wn_assumptions = [3], wn_active = (\<lambda>v. 1 \<le> v \<and> v \<le> 3),
     wn_clauses = [demo_clause [1, -2] 0], wn_CARclauses = [demo_clause [1, 2, 3] 2]\<rparr>"

text \<open>Variable 4 is fixed; variable 3 is assumed.\<close>

definition demo_walker :: walker where
  "demo_walker = \<lparr>wk_vals = (\<lambda>l. if l = 4 then 1 else if l = -4 then -1 else 0), wk_var_level = (\<lambda>_. 0), wk_level = 0,
     wk_saved = [0, 1, 1, 1, 1], wk_min = [0, 0, 0, 0, 0], wk_ls = [0, 0, 0, 0, 0], wk_prev = [0, 0, 0, 0, 0],
     wk_search = demo_bridge\<rparr>"

lemma demo_round_ok: "round_ok demo_walk_opts demo_walk_env demo_walker"
proof -
  have r: "round_rows demo_walk_opts demo_walk_env = demo_rows_list"
    using demo_walk_rows by (simp add: round_rows_def demo_walk_opts_def demo_walk_env_def)
  show ?thesis unfolding round_ok_def r
    by (simp add: demo_walk_opts_def demo_walk_env_def demo_walker_def demo_rows_list_def walk_row_ok_def lit_var_def
        vals_signed_def Let_def)
qed


end
