(* ===== verification/Vec.thy ===== *)
theory Vec
  imports Main "HOL-Library.Word"
begin

unbundle bit_operations_syntax

text \<open>
  The growing arrays of include/vec.hpp.  A vector has a memory block of \<open>cap\<close> cells, of which the
  first \<open>sz\<close> are in use; \<open>cap\<close> and \<open>sz\<close> are 32-bit integers, kept here as \<open>int\<close> with the overflow
  tests of the code written out.  What the element type and the allocator contribute (the size of an
  element, its default value, whether \<open>realloc\<close> succeeds, the contents of fresh cells) is a parameter.
\<close>

section \<open>Data\<close>

record 'a vec =
  vdata :: "'a list"
  vsz :: int
  vcap :: int

record 'a memory =
  sizeof_T :: int
  realloc_ok :: "int \<Rightarrow> bool"
  fresh_cell :: "nat \<Rightarrow> 'a"
  default_T :: 'a

datatype vec_error = OutOfMemoryException | Assertion_failed | Out_of_block

type_synonym 'a vec_result = "vec_error + 'a vec"

definition vec_max :: int where "vec_max = 2 ^ 31 - 1"
definition size_max :: int where "size_max = 2 ^ 64 - 1"

definition vec_new :: "'a vec" where
  "vec_new = \<lparr>vdata = [], vsz = 0, vcap = 0\<rparr>"

definition in_block :: "int \<Rightarrow> 'a vec \<Rightarrow> bool" where
  "in_block i v \<longleftrightarrow> 0 \<le> i \<and> nat i < length (vdata v)"

definition vec_write :: "int \<Rightarrow> 'a \<Rightarrow> 'a vec \<Rightarrow> 'a vec_result" where
  "vec_write i x v = (if in_block i v then Inr (v\<lparr>vdata := (vdata v)[nat i := x]\<rparr>) else Inl Out_of_block)"

definition vec_read :: "int \<Rightarrow> 'a vec \<Rightarrow> vec_error + 'a" where
  "vec_read i v = (if in_block i v then Inr (vdata v ! nat i) else Inl Out_of_block)"

definition bind_vec :: "vec_error + 'a \<Rightarrow> ('a \<Rightarrow> vec_error + 'b) \<Rightarrow> vec_error + 'b" where
  "bind_vec r f = (case r of Inl e \<Rightarrow> Inl e | Inr v \<Rightarrow> f v)"

section \<open>Operations\<close>

definition clear :: "bool \<Rightarrow> 'a vec \<Rightarrow> 'a vec" where
  "clear dealloc v =
     (if vdata v \<noteq> []
      then (if dealloc then v\<lparr>vsz := 0, vdata := [], vcap := 0\<rparr> else v\<lparr>vsz := 0\<rparr>)
      else v)"

text \<open>The increment: at least what is asked for, at least half the capacity, and even.\<close>

definition cap_add :: "int \<Rightarrow> int \<Rightarrow> int" where
  "cap_add to_cap cap =
     (let add = to_cap - cap; geometric_add = (drop_bit 1 cap + 2) AND NOT 1;
          add = (if add < geometric_add then geometric_add else add)
      in if add AND 1 \<noteq> 0 then add + 1 else add)"

definition realloc :: "'a memory \<Rightarrow> int \<Rightarrow> 'a list \<Rightarrow> 'a list" where
  "realloc mem new_cap xs = take (nat new_cap) xs @ List.map (fresh_cell mem) [length xs..<nat new_cap]"

definition capInc :: "'a memory \<Rightarrow> int \<Rightarrow> 'a vec \<Rightarrow> 'a vec_result" where
  "capInc mem to_cap v =
     (if to_cap \<le> vcap v then Inr v
      else let add = cap_add to_cap (vcap v) in
        if vec_max - vcap v < add then Inl OutOfMemoryException
        else let new_cap = vcap v + add in
          if size_max div sizeof_T mem < new_cap then Inl OutOfMemoryException
          else if \<not> realloc_ok mem (new_cap * sizeof_T mem) then Inl OutOfMemoryException
          else Inr (v\<lparr>vdata := realloc mem new_cap (vdata v), vcap := new_cap\<rparr>))"

definition push :: "'a memory \<Rightarrow> 'a \<Rightarrow> 'a vec \<Rightarrow> 'a vec_result" where
  "push mem elem v =
     bind_vec (if vsz v = vcap v then capInc mem (vsz v + 1) v else Inr v) (\<lambda>v.
     bind_vec (vec_write (vsz v) elem v) (\<lambda>v. Inr (v\<lparr>vsz := vsz v + 1\<rparr>)))"

definition push_default :: "'a memory \<Rightarrow> 'a vec \<Rightarrow> 'a vec_result" where
  "push_default mem v = push mem (default_T mem) v"

definition push_unchecked :: "'a \<Rightarrow> 'a vec \<Rightarrow> 'a vec_result" where
  "push_unchecked elem v =
     (if vsz v < vcap v
      then bind_vec (vec_write (vsz v) elem v) (\<lambda>v. Inr (v\<lparr>vsz := vsz v + 1\<rparr>))
      else Inl Assertion_failed)"

definition pop :: "'a vec \<Rightarrow> 'a vec_result" where
  "pop v = (if 0 < vsz v then Inr (v\<lparr>vsz := vsz v - 1\<rparr>) else Inl Assertion_failed)"

definition setsize :: "int \<Rightarrow> 'a vec \<Rightarrow> 'a vec" where
  "setsize n v = v\<lparr>vsz := n\<rparr>"

definition vec_last :: "'a vec \<Rightarrow> vec_error + 'a" where
  "vec_last v = vec_read (vsz v - 1) v"

fun fill :: "'a \<Rightarrow> int list \<Rightarrow> 'a vec \<Rightarrow> 'a vec_result" where
  "fill pad [] v = Inr v"
| "fill pad (i # is) v = bind_vec (vec_write i pad v) (fill pad is)"

definition growTo :: "'a memory \<Rightarrow> int \<Rightarrow> 'a \<Rightarrow> 'a vec \<Rightarrow> 'a vec_result" where
  "growTo mem n pad v =
     (if n \<le> vsz v then Inr v
      else bind_vec (capInc mem n v) (\<lambda>v.
           bind_vec (fill pad [vsz v..n - 1] v) (\<lambda>v. Inr (v\<lparr>vsz := n\<rparr>))))"

fun copy_cells :: "'a vec \<Rightarrow> int list \<Rightarrow> 'a vec \<Rightarrow> 'a vec_result" where
  "copy_cells v [] copy = Inr copy"
| "copy_cells v (i # is) copy =
     bind_vec (vec_read i v) (\<lambda>x. bind_vec (vec_write i x copy) (copy_cells v is))"

definition copyTo :: "'a memory \<Rightarrow> 'a vec \<Rightarrow> 'a vec \<Rightarrow> 'a vec_result" where
  "copyTo mem v copy =
     bind_vec (growTo mem (vsz v) (default_T mem) (clear False copy)) (copy_cells v [0..vsz v - 1])"

section \<open>The contract\<close>

text \<open>A well-formed vector has its elements in its block, and an even capacity.\<close>

definition vec_ok :: "'a vec \<Rightarrow> bool" where
  "vec_ok v \<longleftrightarrow> length (vdata v) = nat (vcap v) \<and> 0 \<le> vsz v \<and> vsz v \<le> vcap v
     \<and> vcap v \<le> vec_max \<and> even (vcap v)"

text \<open>What a vector stands for.\<close>

definition elems :: "'a vec \<Rightarrow> 'a list" where
  "elems v = take (nat (vsz v)) (vdata v)"

definition mem_ok :: "'a memory \<Rightarrow> bool" where
  "mem_ok mem \<longleftrightarrow> 0 < sizeof_T mem"

lemma bind_vec_simps [simp]: "bind_vec (Inr v) f = f v" "bind_vec (Inl e) f = Inl e"
  by (simp_all add: bind_vec_def)

lemma cap_add_even:
  assumes "even cap" "0 \<le> cap" "cap < to_cap"
  shows "even (cap_add to_cap cap)" and "to_cap - cap \<le> cap_add to_cap cap" and "cap div 2 < cap_add to_cap cap"
    and "cap_add to_cap cap \<le> max (to_cap - cap + 1) (cap div 2 + 2)"
proof -
  have g: "(x AND NOT 1) = x - x mod 2" for x :: int
    using unset_bit_0 [of x] by (simp add: unset_bit_eq_and_not minus_mod_eq_mult_div)
  define a where "a = max (to_cap - cap) (cap div 2 + 2 - (cap div 2 + 2) mod 2)"
  have c: "cap_add to_cap cap = a + a mod 2"
    unfolding cap_add_def Let_def g a_def and_one_eq drop_bit_Suc drop_bit_0 One_nat_def by (auto simp: max_def)
  have b: "(cap div 2 + 2) mod 2 \<le> 1" "0 \<le> (cap div 2 + 2) mod 2" "a mod 2 \<le> 1" "0 \<le> a mod 2" by auto
  have m: "even (cap div 2 + 2 - (cap div 2 + 2) mod 2)" by simp
  show "even (cap_add to_cap cap)" unfolding c by simp
  show "to_cap - cap \<le> cap_add to_cap cap" "cap div 2 < cap_add to_cap cap"
    unfolding c using b unfolding a_def by linarith+
  show "cap_add to_cap cap \<le> max (to_cap - cap + 1) (cap div 2 + 2)"
  proof (cases "to_cap - cap \<le> cap div 2 + 2 - (cap div 2 + 2) mod 2")
    case True
    then have "a = cap div 2 + 2 - (cap div 2 + 2) mod 2" by (simp add: a_def)
    moreover from this have "a mod 2 = 0" using m by (simp add: even_iff_mod_2_eq_zero)
    ultimately show ?thesis unfolding c using b by linarith
  next
    case False
    then have "a = to_cap - cap" by (simp add: a_def)
    then show ?thesis unfolding c using b by simp
  qed
qed

lemma elems_same_block:
  assumes "vec_ok v" and "take (nat (vsz v)) (vdata w) = take (nat (vsz v)) (vdata v)" and "vsz w = vsz v"
  shows "elems w = elems v"
  using assms by (simp add: elems_def)

lemma length_realloc [simp]: "length xs \<le> nat n \<Longrightarrow> length (realloc mem n xs) = nat n"
  by (simp add: realloc_def)

lemma capInc_ok:
  assumes "vec_ok v" and "capInc mem to_cap v = Inr w"
  shows "vec_ok w" "elems w = elems v" "vsz w = vsz v" "to_cap \<le> vcap w" "vcap v \<le> vcap w"
proof -
  let ?new = "vcap v + cap_add to_cap (vcap v)"
  have "vec_ok w \<and> elems w = elems v \<and> vsz w = vsz v \<and> to_cap \<le> vcap w \<and> vcap v \<le> vcap w"
  proof (cases "to_cap \<le> vcap v")
    case True
    then show ?thesis using assms by (simp add: capInc_def)
  next
    case False
    have c: "even (cap_add to_cap (vcap v))" "to_cap - vcap v \<le> cap_add to_cap (vcap v)"
      using cap_add_even(1,2) [of "vcap v" to_cap] assms(1) False by (auto simp: vec_ok_def)
    have w: "w = v\<lparr>vdata := realloc mem ?new (vdata v), vcap := ?new\<rparr>" "?new \<le> vec_max"
      using assms(2) False by (auto simp: capInc_def Let_def split: if_splits)
    have l: "length (vdata v) \<le> nat ?new" "nat (vsz v) \<le> length (vdata v)"
      using assms(1) c False by (auto simp: vec_ok_def)
    then have "elems w = elems v" unfolding w(1) elems_def realloc_def by simp
    moreover have "vec_ok w" unfolding w(1) using assms(1) l w(2) c False by (auto simp: vec_ok_def)
    ultimately show ?thesis using c(2) False unfolding w(1) by simp
  qed
  then show "vec_ok w" "elems w = elems v" "vsz w = vsz v" "to_cap \<le> vcap w" "vcap v \<le> vcap w" by simp_all
qed

lemma capInc_error: "capInc mem to_cap v = Inl e \<Longrightarrow> e = OutOfMemoryException"
  by (auto simp: capInc_def Let_def split: if_splits)

lemma write_end:
  assumes "vec_ok v" and "vsz v < vcap v"
  obtains w where "vec_write (vsz v) x v = Inr w" "vec_ok (w\<lparr>vsz := vsz v + 1\<rparr>)"
    "elems (w\<lparr>vsz := vsz v + 1\<rparr>) = elems v @ [x]" "vsz w = vsz v" "vcap w = vcap v"
proof
  let ?w = "v\<lparr>vdata := (vdata v)[nat (vsz v) := x]\<rparr>"
  have i: "nat (vsz v) < length (vdata v)" "0 \<le> vsz v" using assms by (auto simp: vec_ok_def)
  show "vec_write (vsz v) x v = Inr ?w" using i by (simp add: vec_write_def in_block_def)
  show "vec_ok (?w\<lparr>vsz := vsz v + 1\<rparr>)" using assms by (simp add: vec_ok_def)
  show "elems (?w\<lparr>vsz := vsz v + 1\<rparr>) = elems v @ [x]"
    using i by (simp add: elems_def nat_add_distrib take_Suc_conv_app_nth)
qed simp_all

lemma push_ok:
  assumes "vec_ok v"
  shows "case push mem x v of Inr w \<Rightarrow> vec_ok w \<and> elems w = elems v @ [x] \<and> vsz w = vsz v + 1
    | Inl e \<Rightarrow> e = OutOfMemoryException"
proof (cases "if vsz v = vcap v then capInc mem (vsz v + 1) v else Inr v")
  case (Inl e)
  then have "e = OutOfMemoryException" by (auto dest: capInc_error split: if_splits)
  then show ?thesis by (simp add: push_def Inl)
next
  case (Inr u)
  have u: "vec_ok u" "elems u = elems v" "vsz u = vsz v" "vsz u < vcap u"
  proof -
    have "vec_ok u \<and> elems u = elems v \<and> vsz u = vsz v \<and> vsz u < vcap u"
    proof (cases "vsz v = vcap v")
      case True
      then have "capInc mem (vsz v + 1) v = Inr u" using Inr by simp
      from capInc_ok [OF assms this] show ?thesis by simp
    next
      case False
      then show ?thesis using Inr assms by (auto simp: vec_ok_def)
    qed
    then show "vec_ok u" "elems u = elems v" "vsz u = vsz v" "vsz u < vcap u" by simp_all
  qed
  obtain w where "vec_write (vsz u) x u = Inr w" "vec_ok (w\<lparr>vsz := vsz u + 1\<rparr>)"
    "elems (w\<lparr>vsz := vsz u + 1\<rparr>) = elems u @ [x]" "vsz w = vsz u" using write_end [OF u(1,4)] by metis
  then show ?thesis using u by (simp add: push_def Inr)
qed

lemma push_argument_fits: "vec_ok v \<Longrightarrow> vsz v = vcap v \<Longrightarrow> vsz v + 1 \<le> vec_max"
  by (cases "vsz v = vec_max") (auto simp: vec_ok_def vec_max_def)

lemma vec_ok_new: "vec_ok vec_new" "elems vec_new = []"
  by (simp_all add: vec_ok_def vec_new_def elems_def vec_max_def)

lemma pop_ok:
  assumes "vec_ok v"
  shows "case pop v of Inr w \<Rightarrow> vec_ok w \<and> elems w = butlast (elems v) \<and> elems v \<noteq> []
    | Inl e \<Rightarrow> e = Assertion_failed \<and> elems v = []"
proof (cases "0 < vsz v")
  case True
  have l: "nat (vsz v) \<le> length (vdata v)" using assms by (auto simp: vec_ok_def)
  then have "elems (v\<lparr>vsz := vsz v - 1\<rparr>) = butlast (elems v)"
    using True by (simp add: elems_def butlast_take nat_diff_distrib)
  moreover have "elems v \<noteq> []" using l True by (auto simp: elems_def)
  ultimately show ?thesis using True assms by (simp add: pop_def vec_ok_def)
next
  case False
  then show ?thesis using assms by (simp add: pop_def elems_def vec_ok_def)
qed

lemma clear_ok: "vec_ok v \<Longrightarrow> vec_ok (clear dealloc v) \<and> elems (clear dealloc v) = []"
  by (auto simp: clear_def vec_ok_def elems_def vec_max_def)

text \<open>Pushing a list, element by element.\<close>

fun push_all :: "'a memory \<Rightarrow> 'a list \<Rightarrow> 'a vec \<Rightarrow> 'a vec_result" where
  "push_all mem [] v = Inr v"
| "push_all mem (x # xs) v = bind_vec (push mem x v) (push_all mem xs)"

lemma push_all_ok:
  "vec_ok v \<Longrightarrow> case push_all mem xs v of Inr w \<Rightarrow> vec_ok w \<and> elems w = elems v @ xs | Inl e \<Rightarrow> e = OutOfMemoryException"
proof (induction xs arbitrary: v)
  case Nil
  then show ?case by simp
next
  case (Cons x xs)
  from push_ok [OF Cons.prems, where mem = mem and x = x] show ?case
  proof (cases "push mem x v")
    case (Inr b)
    then have "vec_ok b" "elems b = elems v @ [x]" using push_ok [OF Cons.prems, where mem = mem and x = x] by simp_all
    with Cons.IH [of b] Inr show ?thesis by (simp split: sum.splits)
  qed simp
qed

lemma length_elems: "vec_ok v \<Longrightarrow> length (elems v) = nat (vsz v)"
  by (auto simp: elems_def vec_ok_def)

lemma less_eq_div_iff:
  assumes "0 < (k :: int)"
  shows "n \<le> a div k \<longleftrightarrow> n * k \<le> a"
proof
  assume "n \<le> a div k"
  then have "n * k \<le> (a div k) * k" using assms by simp
  also have "\<dots> \<le> a" using assms by (simp add: minus_mod_eq_div_mult [symmetric])
  finally show "n * k \<le> a" .
next
  assume "n * k \<le> a"
  then have "n * k div k \<le> a div k" using assms by (rule zdiv_mono1)
  then show "n \<le> a div k" using assms by simp
qed

section \<open>Properties\<close>

text \<open>C33. A vector is a list: pushes append (or memory runs out; no cell outside the block is ever
  written and the requested capacity never overflows), \<open>pop\<close> removes the last element and fails
  exactly on the empty vector, \<open>clear\<close> empties it, and the last cell reads the last element pushed.\<close>

theorem vec_is_list:
  assumes "vec_ok v"
  shows "(case push_all mem xs v of
        Inl e \<Rightarrow> e = OutOfMemoryException
      | Inr w \<Rightarrow> vec_ok w \<and> elems w = elems v @ xs \<and> (elems w = [] \<or> vec_last w = Inr (last (elems w))))
    \<and> (case pop v of Inl e \<Rightarrow> e = Assertion_failed \<and> elems v = []
        | Inr w \<Rightarrow> vec_ok w \<and> elems w = butlast (elems v) \<and> elems v \<noteq> [])
    \<and> vec_ok (clear dealloc v) \<and> elems (clear dealloc v) = []
    \<and> (vsz v \<noteq> vcap v \<or> vsz v + 1 \<le> vec_max)"
proof -
  have last: "elems w = [] \<or> vec_last w = Inr (last (elems w))" if "vec_ok w" for w :: "'a vec"
  proof (cases "vsz w = 0")
    case False
    then have p: "0 < vsz w" "nat (vsz w) \<le> length (vdata w)" using that by (auto simp: vec_ok_def)
    then have "last (elems w) = vdata w ! nat (vsz w - 1)"
      by (subst last_conv_nth) (auto simp: elems_def nat_diff_distrib)
    then show ?thesis using p by (auto simp: vec_last_def vec_read_def in_block_def)
  qed (simp add: elems_def)
  have "case push_all mem xs v of Inl e \<Rightarrow> e = OutOfMemoryException
    | Inr w \<Rightarrow> vec_ok w \<and> elems w = elems v @ xs \<and> (elems w = [] \<or> vec_last w = Inr (last (elems w)))"
  proof (cases "push_all mem xs v")
    case (Inr w)
    then have "vec_ok w" "elems w = elems v @ xs"
      using push_all_ok [OF assms, where mem = mem and xs = xs] by simp_all
    with last [of w] show ?thesis by (simp add: Inr)
  qed (use push_all_ok [OF assms, where mem = mem and xs = xs] in simp)
  moreover have "vsz v \<noteq> vcap v \<or> vsz v + 1 \<le> vec_max" using push_argument_fits [OF assms] by blast
  ultimately show ?thesis using pop_ok [OF assms] clear_ok [OF assms, of dealloc] by blast
qed

text \<open>C34. The capacity grows geometrically, stays even and never passes the largest 32-bit integer:
  a successful request for more than the capacity gives at least the cells asked for and more than
  one and a half times the old capacity, at most the larger of the request plus one and three halves
  of the old capacity plus two; the request is refused exactly when that passes the 32-bit or the
  byte range, or when \<open>realloc\<close> refuses it.\<close>

theorem vec_growth_bounds:
  assumes "vec_ok v" and "vcap v < to_cap" and "0 < sizeof_T mem"
  shows "case capInc mem to_cap v of
      Inr w \<Rightarrow> to_cap \<le> vcap w \<and> 3 * vcap v < 2 * vcap w + 2 \<and> even (vcap w) \<and> vcap w \<le> vec_max
        \<and> vcap w \<le> max (to_cap + 1) (vcap v + vcap v div 2 + 2) \<and> vcap w * sizeof_T mem \<le> size_max
    | Inl e \<Rightarrow> e = OutOfMemoryException \<and>
        (let n = vcap v + cap_add to_cap (vcap v)
         in vec_max < n \<or> size_max < n * sizeof_T mem \<or> \<not> realloc_ok mem (n * sizeof_T mem))"
proof -
  let ?n = "vcap v + cap_add to_cap (vcap v)"
  have c: "even (vcap v)" "0 \<le> vcap v" using assms(1) by (auto simp: vec_ok_def)
  note a = cap_add_even [OF c assms(2)]
  have d: "size_max div sizeof_T mem < ?n \<longleftrightarrow> size_max < ?n * sizeof_T mem"
    using less_eq_div_iff [OF assms(3), of ?n size_max] by linarith
  show ?thesis
  proof (cases "capInc mem to_cap v")
    case (Inl e)
    then show ?thesis using assms(2) d by (auto simp: capInc_def Let_def split: if_splits)
  next
    case (Inr w)
    then have "vcap w = ?n" "?n \<le> vec_max" "?n * sizeof_T mem \<le> size_max"
      using assms(2) d by (auto simp: capInc_def Let_def not_less split: if_splits)
    then show ?thesis using a c by (simp add: Inr) linarith
  qed
qed

section \<open>Growing and copying\<close>

lemma fill_ok:
  assumes "length (vdata v) = nat (vcap v)" and "0 \<le> i" and "i \<le> n" and "n \<le> vcap v"
  shows "fill pad [i..n - 1] v = Inr (v\<lparr>vdata := take (nat i) (vdata v) @ replicate (nat (n - i)) pad @ drop (nat n) (vdata v)\<rparr>)"
  using assms
proof (induction "nat (n - i)" arbitrary: i v)
  case 0
  then show ?case by simp
next
  case (Suc k)
  have lt: "i < n" "nat i < length (vdata v)" using Suc.hyps(2) Suc.prems by auto
  let ?v = "v\<lparr>vdata := (vdata v)[nat i := pad]\<rparr>"
  have "fill pad [i..n - 1] v = fill pad [i + 1..n - 1] ?v"
    using lt Suc.prems by (simp add: upto_rec1 vec_write_def in_block_def)
  also have "\<dots> = Inr (?v\<lparr>vdata := take (nat (i + 1)) (vdata ?v) @ replicate (nat (n - (i + 1))) pad @ drop (nat n) (vdata ?v)\<rparr>)"
    by (rule Suc.hyps(1)) (use Suc.hyps(2) Suc.prems lt in auto)
  also have "take (nat (i + 1)) (vdata ?v) = take (nat i) (vdata v) @ [pad]"
    using lt Suc.prems by (simp add: nat_add_distrib take_Suc_conv_app_nth)
  also have "drop (nat n) (vdata ?v) = drop (nat n) (vdata v)"
    using lt Suc.prems(2) by (simp add: nat_less_eq_zless)
  also have "(take (nat i) (vdata v) @ [pad]) @ replicate (nat (n - (i + 1))) pad @ drop (nat n) (vdata v)
      = take (nat i) (vdata v) @ replicate (nat (n - i)) pad @ drop (nat n) (vdata v)"
  proof -
    have "nat (n - i) = Suc (nat (n - (i + 1)))" using lt by simp
    then show ?thesis by simp
  qed
  finally show ?case by simp
qed

lemma growTo_ok:
  assumes "vec_ok v"
  shows "case growTo mem n pad v of Inl e \<Rightarrow> e = OutOfMemoryException
    | Inr w \<Rightarrow> vec_ok w \<and> elems w = elems v @ replicate (nat (n - vsz v)) pad"
proof (cases "n \<le> vsz v")
  case True
  then show ?thesis using assms by (simp add: growTo_def)
next
  case False
  show ?thesis
  proof (cases "capInc mem n v")
    case (Inl e)
    then show ?thesis using False by (auto simp: growTo_def dest: capInc_error)
  next
    case (Inr u)
    note u = capInc_ok [OF assms Inr]
    have l: "length (vdata u) = nat (vcap u)" "0 \<le> vsz u" "vsz u \<le> n" "n \<le> vcap u"
      using u False by (auto simp: vec_ok_def)
    define D where "D = take (nat (vsz u)) (vdata u) @ replicate (nat (n - vsz u)) pad @ drop (nat n) (vdata u)"
    have m: "nat (vsz u) \<le> length (vdata u)" "nat (vsz u) + nat (n - vsz u) = nat n" "nat n \<le> nat (vcap u)"
      using l by simp_all
    then have "length D = nat (vcap u)" using m l(1) unfolding D_def length_append length_replicate length_drop length_take by arith
    moreover have "take (nat n) D = elems u @ replicate (nat (n - vsz u)) pad" using m(1) unfolding D_def m(2) [symmetric] by (simp add: elems_def)
    moreover have "growTo mem n pad v = Inr (u\<lparr>vdata := D, vsz := n\<rparr>)"
      using False fill_ok [OF l, of pad] by (simp add: growTo_def Inr D_def)
    ultimately show ?thesis using u l unfolding vec_ok_def elems_def by simp
  qed
qed

lemma copy_cells_ok:
  assumes "vec_ok v" and "length (vdata c) = nat (vcap c)" and "0 \<le> i" and "i \<le> vsz v" and "vsz v \<le> vcap c"
  shows "copy_cells v [i..vsz v - 1] c = Inr (c\<lparr>vdata := take (nat i) (vdata c) @ drop (nat i) (elems v) @ drop (nat (vsz v)) (vdata c)\<rparr>)"
  using assms
proof (induction "nat (vsz v - i)" arbitrary: i c)
  case 0
  then show ?case by (simp add: elems_def)
next
  case (Suc k)
  have lt: "i < vsz v" "nat i < length (vdata v)" "nat i < length (vdata c)" "nat i < length (elems v)"
    using Suc.hyps(2) Suc.prems by (auto simp: vec_ok_def elems_def)
  let ?c = "c\<lparr>vdata := (vdata c)[nat i := vdata v ! nat i]\<rparr>"
  have "copy_cells v [i..vsz v - 1] c = copy_cells v [i + 1..vsz v - 1] ?c"
    using lt Suc.prems by (simp add: upto_rec1 vec_write_def vec_read_def in_block_def)
  also have "\<dots> = Inr (?c\<lparr>vdata := take (nat (i + 1)) (vdata ?c) @ drop (nat (i + 1)) (elems v) @ drop (nat (vsz v)) (vdata ?c)\<rparr>)"
    by (rule Suc.hyps(1)) (use Suc.hyps(2) Suc.prems lt in auto)
  also have "take (nat (i + 1)) (vdata ?c) = take (nat i) (vdata c) @ [elems v ! nat i]"
    using lt Suc.prems by (simp add: nat_add_distrib take_Suc_conv_app_nth elems_def)
  also have "drop (nat (vsz v)) (vdata ?c) = drop (nat (vsz v)) (vdata c)"
    using lt Suc.prems(3) by (simp add: nat_less_eq_zless)
  also have "(take (nat i) (vdata c) @ [elems v ! nat i]) @ drop (nat (i + 1)) (elems v) @ drop (nat (vsz v)) (vdata c)
      = take (nat i) (vdata c) @ drop (nat i) (elems v) @ drop (nat (vsz v)) (vdata c)"
    using lt Suc.prems by (simp add: nat_add_distrib Cons_nth_drop_Suc)
  finally show ?case by simp
qed

text \<open>Copying gives a vector with the same elements.\<close>

lemma copyTo_ok:
  assumes "vec_ok v" and "vec_ok copy"
  shows "case copyTo mem v copy of Inl e \<Rightarrow> e = OutOfMemoryException | Inr w \<Rightarrow> vec_ok w \<and> elems w = elems v"
proof (cases "growTo mem (vsz v) (default_T mem) (clear False copy)")
  case (Inl e)
  then show ?thesis using growTo_ok [of "clear False copy", where mem = mem and n = "vsz v" and pad = "default_T mem"] clear_ok [OF assms(2), of False]
    by (simp add: copyTo_def)
next
  case (Inr c)
  have cl: "vec_ok (clear False copy)" "elems (clear False copy) = []" using clear_ok [OF assms(2), of False] by auto
  then have z: "vsz (clear False copy) = 0" using length_elems [OF cl(1)] by (auto simp: vec_ok_def)
  have c: "vec_ok c" "elems c = replicate (nat (vsz v)) (default_T mem)"
    using growTo_ok [OF cl(1), where mem = mem and n = "vsz v" and pad = "default_T mem"] cl(2) z Inr by simp_all
  then have s: "vsz c = vsz v" using length_elems [OF c(1)] assms(1) by (auto simp: vec_ok_def)
  define D where "D = elems v @ drop (nat (vsz v)) (vdata c)"
  have "copy_cells v [0..vsz v - 1] c = Inr (c\<lparr>vdata := D\<rparr>)"
    using copy_cells_ok [OF assms(1), of c 0] c(1) s assms(1) by (simp add: vec_ok_def D_def)
  then have e: "copyTo mem v copy = Inr (c\<lparr>vdata := D\<rparr>)" by (simp add: copyTo_def Inr)
  have n: "length (elems v) = nat (vsz v)" by (rule length_elems [OF assms(1)])
  have "nat (vsz v) \<le> length (vdata c)" using c(1) s by (auto simp: vec_ok_def)
  then have "length D = length (vdata c)" using n by (simp add: D_def)
  moreover have "take (nat (vsz v)) D = elems v" using n by (simp add: D_def)
  ultimately show ?thesis unfolding e using c(1) s by (simp add: vec_ok_def elems_def)
qed

section \<open>Witnesses\<close>

definition small_memory :: "int memory" where
  "small_memory = \<lparr>sizeof_T = 4, realloc_ok = (\<lambda>n. n \<le> 100), fresh_cell = (\<lambda>_. 0), default_T = 0\<rparr>"

theorem vec_is_list_witness:
  "(case push_all small_memory [3, 4, 5] vec_new of
      Inl e \<Rightarrow> e = OutOfMemoryException
    | Inr w \<Rightarrow> vec_ok w \<and> elems w = [3, 4, 5] \<and> vec_last w = Inr 5)
   \<and> pop (vec_new :: int vec) = Inl Assertion_failed"
proof -
  note w = vec_is_list [OF vec_ok_new(1), where mem = small_memory and xs = "[3, 4, 5]" and dealloc = False]
  then have "case push_all small_memory [3, 4, 5] vec_new of Inl e \<Rightarrow> e = OutOfMemoryException
    | Inr w \<Rightarrow> vec_ok w \<and> elems w = elems vec_new @ [3, 4, 5] \<and> (elems w = [] \<or> vec_last w = Inr (last (elems w)))"
    by (rule conjunct1)
  moreover have "(case r of Inl e \<Rightarrow> e = OutOfMemoryException
      | Inr w \<Rightarrow> vec_ok w \<and> elems w = [3, 4, 5] \<and> vec_last w = Inr 5)"
    if "case r of Inl e \<Rightarrow> e = OutOfMemoryException
      | Inr w \<Rightarrow> vec_ok w \<and> elems w = elems vec_new @ [3, 4, 5] \<and> (elems w = [] \<or> vec_last w = Inr (last (elems w)))"
    for r :: "vec_error + int vec"
    using that by (cases r) (auto simp: vec_ok_new)
  ultimately have "case push_all small_memory [3, 4, 5] vec_new of Inl e \<Rightarrow> e = OutOfMemoryException
      | Inr w \<Rightarrow> vec_ok w \<and> elems w = [3, 4, 5] \<and> vec_last w = Inr 5" by blast
  moreover have "pop (vec_new :: int vec) = Inl Assertion_failed" by (simp add: pop_def vec_new_def)
  ultimately show ?thesis by blast
qed

theorem vec_growth_bounds_witness:
  "case capInc small_memory 3 vec_new of Inl e \<Rightarrow> False | Inr w \<Rightarrow> vcap w = 4"
proof -
  have "vec_ok (vec_new :: int vec)" by (rule vec_ok_new)
  note w = vec_growth_bounds [OF this, of 3 small_memory]
  have "cap_add 3 0 = 4" by code_simp
  then show ?thesis using w by (auto simp: vec_new_def small_memory_def capInc_def vec_max_def size_max_def Let_def)
qed

end
