(* ===== verification/HashMap.thy ===== *)
theory HashMap
  imports Main
begin

text \<open>
  The chained hash table of src/utils/hashmap.cpp.  A bucket is the list of the key-value pairs of
  its chain.  Keys are 64-bit and values 32-bit integers that are only compared and copied.  The
  bucket of a key is \<open>key % size\<close>, which C++ truncates towards zero: a negative key can give a
  negative position, an access outside the table (\<open>None\<close> here).
\<close>

section \<open>The interface\<close>

text \<open>What a map with defaults promises: the value last inserted under a key is found, erasing
  forgets it, and other keys are not disturbed.\<close>

locale finite_map =
  fixes valid :: "'k \<Rightarrow> 'm \<Rightarrow> bool"
    and get :: "'k \<Rightarrow> 'v \<Rightarrow> 'm \<Rightarrow> 'v option"
    and insert :: "'k \<Rightarrow> 'v \<Rightarrow> 'm \<Rightarrow> 'm option"
    and erase :: "'k \<Rightarrow> 'm \<Rightarrow> 'm option"
    and inv :: "'m \<Rightarrow> bool"
  assumes insert_ok: "inv m \<Longrightarrow> valid k m \<Longrightarrow> \<exists>m'. insert k x m = Some m' \<and> inv m' \<and> (\<forall>j. valid j m' = valid j m)
      \<and> (\<forall>j d. valid j m \<longrightarrow> get j d m' = (if j = k then Some x else get j d m))"
    and erase_ok: "inv m \<Longrightarrow> valid k m \<Longrightarrow> \<exists>m'. erase k m = Some m' \<and> inv m' \<and> (\<forall>j. valid j m' = valid j m)
      \<and> (\<forall>j d. valid j m \<longrightarrow> get j d m' = (if j = k then Some d else get j d m))"
    and get_ok: "inv m \<Longrightarrow> valid k m \<Longrightarrow> \<exists>x. get k d m = Some x"
begin

lemma insert_twice:
  assumes "inv m" and "valid k m" and "insert k x m = Some m1" and "insert k y m1 = Some m2"
    and "insert k y m = Some m'" and "valid j m"
  shows "get j d m2 = get j d m'"
proof -
  have 1: "inv m1" "\<forall>j. valid j m1 = valid j m" "\<forall>j d. valid j m \<longrightarrow> get j d m1 = (if j = k then Some x else get j d m)"
    using insert_ok [OF assms(1,2), of x] assms(3) by auto
  then have "valid k m1" using assms(2) by simp
  from insert_ok [OF 1(1) this, of y] assms(4)
  have 2: "\<forall>j d. valid j m1 \<longrightarrow> get j d m2 = (if j = k then Some y else get j d m1)" by auto
  have "\<forall>j d. valid j m \<longrightarrow> get j d m' = (if j = k then Some y else get j d m)"
    using insert_ok [OF assms(1,2), of y] assms(5) by auto
  then show ?thesis using 1 2 assms(6) by simp
qed

lemma insert_erase:
  assumes "inv m" and "valid k m" and "insert k x m = Some m1" and "erase k m1 = Some m2" and "valid j m" "j \<noteq> k"
  shows "get j d m2 = get j d m" and "get k d m2 = Some d"
proof -
  have 1: "inv m1" "\<forall>j. valid j m1 = valid j m" "\<forall>j d. valid j m \<longrightarrow> get j d m1 = (if j = k then Some x else get j d m)"
    using insert_ok [OF assms(1,2), of x] assms(3) by auto
  then have "valid k m1" using assms(2) by simp
  from erase_ok [OF 1(1) this] assms(4)
  have "\<forall>j d. valid j m1 \<longrightarrow> get j d m2 = (if j = k then Some d else get j d m1)" by auto
  then show "get j d m2 = get j d m" "get k d m2 = Some d" using 1 assms(2,5,6) by simp_all
qed

end

section \<open>The table\<close>

record hash_table =
  ht_size :: int
  ht_table :: "nat \<Rightarrow> (int \<times> int) list"

definition HashMap_new :: "int \<Rightarrow> hash_table" where
  "HashMap_new sz = \<lparr>ht_size = sz, ht_table = (\<lambda>_. [])\<rparr>"

text \<open>Truncating remainder, as C++ has it.\<close>

definition trunc_rem :: "int \<Rightarrow> int \<Rightarrow> int" where
  "trunc_rem a b = (if a < 0 then - ((- a) mod b) else a mod b)"

definition hash_pos :: "int \<Rightarrow> hash_table \<Rightarrow> nat option" where
  "hash_pos key h =
     (let pos = trunc_rem key (ht_size h)
      in if ht_size h \<le> 0 \<or> pos < 0 then None else Some (nat pos))"

fun chain_get :: "int \<Rightarrow> int \<Rightarrow> (int \<times> int) list \<Rightarrow> int" where
  "chain_get key vsign [] = vsign"
| "chain_get key vsign ((k, v) # chain) = (if k = key then v else chain_get key vsign chain)"

fun chain_erase :: "int \<Rightarrow> (int \<times> int) list \<Rightarrow> (int \<times> int) list" where
  "chain_erase key [] = []"
| "chain_erase key ((k, v) # chain) = (if k = key then chain else (k, v) # chain_erase key chain)"

fun chain_insert :: "int \<Rightarrow> int \<Rightarrow> (int \<times> int) list \<Rightarrow> (int \<times> int) list" where
  "chain_insert key value [] = [(key, value)]"
| "chain_insert key value ((k, v) # chain) =
     (if k = key then (k, value) # chain else (k, v) # chain_insert key value chain)"

definition HashMap_get :: "int \<Rightarrow> int \<Rightarrow> hash_table \<Rightarrow> int option" where
  "HashMap_get key vsign h =
     (case hash_pos key h of None \<Rightarrow> None | Some pos \<Rightarrow> Some (chain_get key vsign (ht_table h pos)))"

definition HashMap_erase :: "int \<Rightarrow> hash_table \<Rightarrow> hash_table option" where
  "HashMap_erase key h =
     (case hash_pos key h of
        None \<Rightarrow> None
      | Some pos \<Rightarrow> Some (h\<lparr>ht_table := (ht_table h)(pos := chain_erase key (ht_table h pos))\<rparr>))"

definition HashMap_insert :: "int \<Rightarrow> int \<Rightarrow> hash_table \<Rightarrow> hash_table option" where
  "HashMap_insert key value h =
     (case hash_pos key h of
        None \<Rightarrow> None
      | Some pos \<Rightarrow> Some (h\<lparr>ht_table := (ht_table h)(pos := chain_insert key value (ht_table h pos))\<rparr>))"

section \<open>The table is a map\<close>

text \<open>Every chain holds each key once, and only keys of its own position.\<close>

definition table_ok :: "hash_table \<Rightarrow> bool" where
  "table_ok h \<longleftrightarrow> (\<forall>pos. distinct (map fst (ht_table h pos))
     \<and> (\<forall>k\<in>set (map fst (ht_table h pos)). hash_pos k h = Some pos))"

definition key_valid :: "int \<Rightarrow> hash_table \<Rightarrow> bool" where
  "key_valid k h \<longleftrightarrow> hash_pos k h \<noteq> None"

lemma chain_get_insert: "chain_get j d (chain_insert k x c) = (if j = k then x else chain_get j d c)"
  by (induction k x c rule: chain_insert.induct) auto

lemma chain_get_absent: "k \<notin> fst ` set c \<Longrightarrow> chain_get k d c = d"
  by (induction c) auto

lemma chain_get_erase:
  "distinct (map fst c) \<Longrightarrow> chain_get j d (chain_erase k c) = (if j = k then d else chain_get j d c)"
  by (induction k c rule: chain_erase.induct) (auto simp: chain_get_absent)

lemma set_chain_insert: "fst ` set (chain_insert k x c) = insert k (fst ` set c)"
  by (induction k x c rule: chain_insert.induct) auto

lemma distinct_chain_insert: "distinct (map fst c) \<Longrightarrow> distinct (map fst (chain_insert k x c))"
  by (induction k x c rule: chain_insert.induct) (auto simp: set_chain_insert)

lemma set_chain_erase: "fst ` set (chain_erase k c) \<subseteq> fst ` set c"
  by (induction k c rule: chain_erase.induct) auto

lemma distinct_chain_erase: "distinct (map fst c) \<Longrightarrow> distinct (map fst (chain_erase k c))"
  using set_chain_erase by (induction k c rule: chain_erase.induct) fastforce+

lemma hash_pos_table [simp]: "hash_pos k (h\<lparr>ht_table := t\<rparr>) = hash_pos k h"
  by (simp add: hash_pos_def)

lemma table_insert_ok:
  assumes "table_ok h" and "key_valid k h"
  shows "\<exists>h'. HashMap_insert k x h = Some h' \<and> table_ok h' \<and> (\<forall>j. key_valid j h' = key_valid j h)
    \<and> (\<forall>j d. key_valid j h \<longrightarrow> HashMap_get j d h' = (if j = k then Some x else HashMap_get j d h))"
proof -
  obtain pos where pos: "hash_pos k h = Some pos" using assms(2) by (auto simp: key_valid_def)
  let ?h = "h\<lparr>ht_table := (ht_table h)(pos := chain_insert k x (ht_table h pos))\<rparr>"
  have e: "HashMap_insert k x h = Some ?h" by (simp add: HashMap_insert_def pos)
  have "\<forall>j\<in>set (map fst (chain_insert k x (ht_table h pos))). hash_pos j h = Some pos"
    using assms(1) pos unfolding table_ok_def set_map set_chain_insert by blast
  then have ok: "table_ok ?h" using assms(1)
    by (auto simp: table_ok_def distinct_chain_insert)
  have "HashMap_get j d ?h = (if j = k then Some x else HashMap_get j d h)" if "key_valid j h" for j d
    using that pos by (auto simp: HashMap_get_def key_valid_def chain_get_insert)
  then show ?thesis using e ok by (auto simp: key_valid_def)
qed

lemma table_erase_ok:
  assumes "table_ok h" and "key_valid k h"
  shows "\<exists>h'. HashMap_erase k h = Some h' \<and> table_ok h' \<and> (\<forall>j. key_valid j h' = key_valid j h)
    \<and> (\<forall>j d. key_valid j h \<longrightarrow> HashMap_get j d h' = (if j = k then Some d else HashMap_get j d h))"
proof -
  obtain pos where pos: "hash_pos k h = Some pos" using assms(2) by (auto simp: key_valid_def)
  let ?h = "h\<lparr>ht_table := (ht_table h)(pos := chain_erase k (ht_table h pos))\<rparr>"
  have e: "HashMap_erase k h = Some ?h" by (simp add: HashMap_erase_def pos)
  have d: "distinct (map fst (ht_table h pos))" using assms(1) by (simp add: table_ok_def)
  have "\<forall>j\<in>fst ` set (chain_erase k (ht_table h pos)). hash_pos j h = Some pos"
    using assms(1) set_chain_erase [of k "ht_table h pos"] unfolding table_ok_def set_map by blast
  then have ok: "table_ok ?h" using assms(1) d
    by (auto simp: table_ok_def distinct_chain_erase)
  have "HashMap_get j y ?h = (if j = k then Some y else HashMap_get j y h)" if "key_valid j h" for j y
    using that pos d by (auto simp: HashMap_get_def key_valid_def chain_get_erase)
  then show ?thesis using e ok by (auto simp: key_valid_def)
qed

interpretation hm: finite_map key_valid HashMap_get HashMap_insert HashMap_erase table_ok
proof unfold_locales
  fix m k x assume "table_ok m" "key_valid k m"
  then show "\<exists>m'. HashMap_insert k x m = Some m' \<and> table_ok m' \<and> (\<forall>j. key_valid j m' = key_valid j m)
    \<and> (\<forall>j d. key_valid j m \<longrightarrow> HashMap_get j d m' = (if j = k then Some x else HashMap_get j d m))"
    by (rule table_insert_ok)
next
  fix m k assume "table_ok m" "key_valid k m"
  then show "\<exists>m'. HashMap_erase k m = Some m' \<and> table_ok m' \<and> (\<forall>j. key_valid j m' = key_valid j m)
    \<and> (\<forall>j d. key_valid j m \<longrightarrow> HashMap_get j d m' = (if j = k then Some d else HashMap_get j d m))"
    by (rule table_erase_ok)
next
  fix m k d assume "table_ok m" "key_valid k m"
  then show "\<exists>x. HashMap_get k d m = Some x" by (auto simp: key_valid_def HashMap_get_def)
qed

lemma key_valid_nonneg: "0 \<le> k \<Longrightarrow> 0 < ht_size h \<Longrightarrow> key_valid k h"
  by (simp add: key_valid_def hash_pos_def trunc_rem_def Let_def not_less)

section \<open>Properties\<close>

text \<open>C35. The hash table implements a map with defaults: after an insertion the key has the new
  value, after an erasure the default, and no other key changes; insertions and erasures keep every
  chain free of repeated keys and with the keys of its own position.\<close>

theorem hash_table_is_map:
  assumes "table_ok h" and "key_valid k h" and "key_valid j h"
  shows "\<exists>h1 h2. HashMap_insert k x h = Some h1 \<and> HashMap_erase k h = Some h2 \<and> table_ok h1 \<and> table_ok h2
    \<and> HashMap_get j d h1 = (if j = k then Some x else HashMap_get j d h)
    \<and> HashMap_get j d h2 = (if j = k then Some d else HashMap_get j d h)"
  using hm.insert_ok [OF assms(1,2), of x] hm.erase_ok [OF assms(1,2)] assms(3) by blast

text \<open>C36. A negative key whose remainder is not zero addresses a position before the table: every
  operation on it is an access out of bounds.\<close>

theorem hash_negative_key:
  assumes "k < 0" and "0 < ht_size h" and "\<not> ht_size h dvd k"
  shows "HashMap_get k d h = None \<and> HashMap_insert k x h = None \<and> HashMap_erase k h = None"
proof -
  have "0 < (- k) mod ht_size h"
    using assms by (metis dvd_minus_iff mod_0_imp_dvd order_le_neq_trans pos_mod_sign)
  then have "hash_pos k h = None" using assms(1) by (simp add: hash_pos_def trunc_rem_def)
  then show ?thesis by (simp add: HashMap_get_def HashMap_insert_def HashMap_erase_def)
qed

theorem hash_table_is_map_witness:
  "\<exists>h1 h2. HashMap_insert 12 5 (HashMap_new 10) = Some h1 \<and> HashMap_erase 12 (HashMap_new 10) = Some h2
    \<and> table_ok h1 \<and> table_ok h2 \<and> HashMap_get 12 0 h1 = Some 5 \<and> HashMap_get 12 7 h2 = Some 7"
proof -
  have "table_ok (HashMap_new 10)" "key_valid 12 (HashMap_new 10)"
    by (simp_all add: table_ok_def HashMap_new_def key_valid_nonneg)
  note w = hash_table_is_map [OF this this(2)]
  obtain h1 h2 where "HashMap_insert 12 5 (HashMap_new 10) = Some h1" "HashMap_erase 12 (HashMap_new 10) = Some h2"
    "table_ok h1" "table_ok h2" "HashMap_get 12 0 h1 = Some 5" using w [of 5 0] by auto
  moreover have "HashMap_get 12 7 h2 = Some 7" using w [of 5 7] calculation(2) by auto
  ultimately show ?thesis by blast
qed

theorem hash_negative_key_witness:
  "HashMap_get (-3) 0 (HashMap_new 10) = None \<and> HashMap_insert (-3) 1 (HashMap_new 10) = None
    \<and> HashMap_erase (-3) (HashMap_new 10) = None"
  by (rule hash_negative_key) (simp_all add: HashMap_new_def)

end
