(* ===== verification/Bitset.thy ===== *)
theory Bitset
  imports "HOL-Library.Word"
begin

unbundle bit_operations_syntax

text \<open>
  The bit sets of src/utils/bitset.cpp and include/bitset.hpp: an array of 64-bit words.  A bit set
  is reached through a reference, and the destination of \<open>ands\<close> and \<open>xors\<close> may be one of their
  operands, so the operations work on a store of bit sets and copy word by word as the code does.
  An index outside an array is undefined behaviour: the operation then has no result (\<open>None\<close>).
  The contents of a fresh array and the generator's words are parameters.
\<close>

type_synonym ull = "64 word"

record Bitset =
  bs_array :: "ull list"
  bs_m_size :: nat
  bs_n :: nat
  bs_hashval :: ull

type_synonym bitsets = "nat \<Rightarrow> Bitset"

section \<open>Operations\<close>

definition bits :: nat where
  "bits = 64"

text \<open>\<open>fresh\<close> is what \<open>aligned_alloc\<close> returns: words of unknown value.\<close>

definition bs_allocate :: "(nat \<Rightarrow> ull) \<Rightarrow> nat \<Rightarrow> Bitset \<Rightarrow> Bitset" where
  "bs_allocate fresh sz b =
     b\<lparr>bs_n := sz, bs_m_size := sz div bits, bs_array := List.map fresh [0..<sz div bits]\<rparr>"

text \<open>One assignment \<open>array[i] = f(array[i], u.array[i])\<close>, and the loop over the words.\<close>

definition word_step :: "(ull \<Rightarrow> ull \<Rightarrow> ull) \<Rightarrow> nat \<Rightarrow> nat \<Rightarrow> nat \<Rightarrow> bitsets \<Rightarrow> bitsets option" where
  "word_step f d u i st =
     (if i < length (bs_array (st d)) \<and> i < length (bs_array (st u))
      then Some (st(d := (st d)\<lparr>bs_array := (bs_array (st d))[i := f (bs_array (st d) ! i) (bs_array (st u) ! i)]\<rparr>))
      else None)"

primrec each_word :: "(ull \<Rightarrow> ull \<Rightarrow> ull) \<Rightarrow> nat \<Rightarrow> nat \<Rightarrow> nat \<Rightarrow> bitsets \<Rightarrow> bitsets option" where
  "each_word f d u 0 st = Some st"
| "each_word f d u (Suc i) st = Option.bind (each_word f d u i st) (word_step f d u i)"

definition sel :: "int \<Rightarrow> ull \<Rightarrow> ull" where
  "sel s w = (if 0 < s then w else NOT w)"

definition w_copy :: "int \<Rightarrow> ull \<Rightarrow> ull \<Rightarrow> ull" where "w_copy s x y = sel s y"
definition w_and :: "int \<Rightarrow> ull \<Rightarrow> ull \<Rightarrow> ull" where "w_and s x y = x AND sel s y"
definition w_xor :: "int \<Rightarrow> ull \<Rightarrow> ull \<Rightarrow> ull" where "w_xor s x y = x XOR sel s y"
definition w_not :: "ull \<Rightarrow> ull \<Rightarrow> ull" where "w_not x y = NOT x"

definition bs_eqs :: "nat \<Rightarrow> nat \<Rightarrow> int \<Rightarrow> bitsets \<Rightarrow> bitsets option" where
  "bs_eqs d u s st = each_word (w_copy s) d u (bs_m_size (st d)) st"

definition bs_flip :: "nat \<Rightarrow> bitsets \<Rightarrow> bitsets option" where
  "bs_flip d st = each_word w_not d d (bs_m_size (st d)) st"

definition bs_ands :: "nat \<Rightarrow> nat \<Rightarrow> nat \<Rightarrow> int \<Rightarrow> int \<Rightarrow> int \<Rightarrow> bitsets \<Rightarrow> bitsets option" where
  "bs_ands d u v s s1 s2 st =
     (let m = bs_m_size (st d)
      in Option.bind (each_word (w_copy s1) d u m st) (\<lambda>st1.
         Option.bind (each_word (w_and s2) d v m st1) (\<lambda>st2.
         if s < 0 then each_word w_not d d m st2 else Some st2)))"

definition bs_xors :: "nat \<Rightarrow> nat \<Rightarrow> nat \<Rightarrow> int \<Rightarrow> int \<Rightarrow> int \<Rightarrow> bitsets \<Rightarrow> bitsets option" where
  "bs_xors d u v s s1 s2 st =
     (let m = bs_m_size (st d)
      in Option.bind (each_word (w_copy s1) d u m st) (\<lambda>st1.
         Option.bind (each_word (w_xor s2) d v m st1) (\<lambda>st2.
         if s < 0 then each_word w_not d d m st2 else Some st2)))"

text \<open>\<open>operator=\<close> copies the words only: size and hash value stay the destination's.\<close>

definition bs_assign :: "nat \<Rightarrow> nat \<Rightarrow> bitsets \<Rightarrow> bitsets option" where
  "bs_assign d u st = each_word (w_copy 1) d u (bs_m_size (st d)) st"

text \<open>\<open>operator~\<close> fills a fresh bit set at \<open>d\<close>.\<close>

definition bs_compl :: "(nat \<Rightarrow> ull) \<Rightarrow> nat \<Rightarrow> nat \<Rightarrow> bitsets \<Rightarrow> bitsets option" where
  "bs_compl fresh d u st =
     each_word (w_copy 0) d u (bs_m_size (st u))
       (st(d := bs_allocate fresh (bs_n (st u)) (st d)))"

fun equal_words :: "nat \<Rightarrow> ull list \<Rightarrow> ull list \<Rightarrow> bool option" where
  "equal_words 0 xs ys = Some True"
| "equal_words (Suc m) (x # xs) (y # ys) = (if x \<noteq> y then Some False else equal_words m xs ys)"
| "equal_words (Suc m) xs ys = None"

definition bs_equal :: "Bitset \<Rightarrow> Bitset \<Rightarrow> bool option" where
  "bs_equal a b = equal_words (bs_m_size a) (bs_array a) (bs_array b)"

text \<open>\<open>hash\<close>: the first word, then each word times its index, in 64-bit arithmetic.  Without a
  first word the code reads past the array.\<close>

definition bs_hash :: "Bitset \<Rightarrow> Bitset option" where
  "bs_hash b =
     (case bs_array b of
        [] \<Rightarrow> None
      | w # _ \<Rightarrow> (if length (bs_array b) < bs_m_size b then None
                  else Some (b\<lparr>bs_hashval := fold (\<lambda>i h. h + of_nat i * bs_array b ! i) [1..<bs_m_size b] w\<rparr>)))"

definition set_words :: "nat \<Rightarrow> (ull \<Rightarrow> ull) \<Rightarrow> Bitset \<Rightarrow> Bitset option" where
  "set_words m f b =
     (if length (bs_array b) < m then None
      else Some (b\<lparr>bs_array := List.map f (take m (bs_array b)) @ drop m (bs_array b)\<rparr>))"

definition bs_random :: "(nat \<Rightarrow> ull) \<Rightarrow> Bitset \<Rightarrow> Bitset option" where
  "bs_random eng b =
     (if length (bs_array b) < bs_m_size b then None
      else Some (b\<lparr>bs_array := List.map eng [0..<bs_m_size b] @ drop (bs_m_size b) (bs_array b)\<rparr>))"

definition bs_set_all :: "Bitset \<Rightarrow> Bitset option" where
  "bs_set_all b = set_words (bs_m_size b) (\<lambda>w. w OR NOT 0) b"

definition bs_reset_all :: "Bitset \<Rightarrow> Bitset option" where
  "bs_reset_all b = set_words (bs_m_size b) (\<lambda>w. w AND 0) b"

definition bs_get :: "Bitset \<Rightarrow> nat \<Rightarrow> bool option" where
  "bs_get b position =
     (let index = position div bits; pos = position - index * bits
      in if index < length (bs_array b) then Some (bs_array b ! index AND push_bit pos 1 \<noteq> 0) else None)"

definition bs_set :: "nat \<Rightarrow> Bitset \<Rightarrow> Bitset option" where
  "bs_set position b =
     (let index = position div bits; pos = position - index * bits
      in if index < length (bs_array b)
         then Some (b\<lparr>bs_array := (bs_array b)[index := bs_array b ! index OR push_bit pos 1]\<rparr>) else None)"

definition bs_reset :: "nat \<Rightarrow> Bitset \<Rightarrow> Bitset option" where
  "bs_reset position b =
     (let index = position div bits; pos = position - index * bits
      in if index < length (bs_array b)
         then Some (b\<lparr>bs_array := (bs_array b)[index := bs_array b ! index AND NOT (push_bit pos 1)]\<rparr>) else None)"

section \<open>Bits\<close>

definition bs_ok :: "Bitset \<Rightarrow> bool" where
  "bs_ok b \<longleftrightarrow> length (bs_array b) = bs_m_size b \<and> bs_m_size b = bs_n b div bits"

lemma bs_get_bit:
  "bs_get b p = (if p div 64 < length (bs_array b) then Some (bit (bs_array b ! (p div 64)) (p mod 64)) else None)"
  by (simp add: bs_get_def bits_def Let_def minus_div_mult_eq_mod and_exp_eq_0_iff_not_bit)

lemma each_word_map:
  assumes "m \<le> length (bs_array (st d))" and "m \<le> length (bs_array (st u))"
  shows "each_word f d u m st = Some (st(d := (st d)\<lparr>bs_array :=
    List.map (\<lambda>i. f (bs_array (st d) ! i) (bs_array (st u) ! i)) [0..<m] @ drop m (bs_array (st d))\<rparr>))"
  using assms
proof (induction m)
  case 0
  then show ?case by simp
next
  case (Suc m)
  define st' where "st' = st(d := (st d)\<lparr>bs_array :=
    List.map (\<lambda>i. f (bs_array (st d) ! i) (bs_array (st u) ! i)) [0..<m] @ drop m (bs_array (st d))\<rparr>)"
  have ih: "each_word f d u m st = Some st'" unfolding st'_def by (rule Suc.IH; use Suc.prems in simp)
  have a: "bs_array (st' d) ! m = bs_array (st d) ! m" "length (bs_array (st' d)) = length (bs_array (st d))"
    using Suc.prems by (simp_all add: st'_def nth_append)
  have b: "bs_array (st' u) ! m = bs_array (st u) ! m" "m < length (bs_array (st' u))"
    using Suc.prems a by (cases "u = d"; simp add: st'_def)+
  have c: "(bs_array (st' d))[m := x] =
      List.map (\<lambda>i. f (bs_array (st d) ! i) (bs_array (st u) ! i)) [0..<m] @ x # drop (Suc m) (bs_array (st d))" for x
    using Suc.prems by (simp add: st'_def list_update_append Cons_nth_drop_Suc [symmetric])
  have e: "each_word f d u (Suc m) st = Some (st'(d := (st' d)\<lparr>bs_array :=
      (bs_array (st' d))[m := f (bs_array (st d) ! m) (bs_array (st u) ! m)]\<rparr>))"
    using a b Suc.prems by (simp add: ih word_step_def)
  have "st'(d := (st' d)\<lparr>bs_array := xs\<rparr>) = st(d := (st d)\<lparr>bs_array := xs\<rparr>)" for xs
    by (simp add: st'_def)
  note e [unfolded this c]
  moreover have "List.map g [0..<Suc m] @ ys = List.map g [0..<m] @ g m # ys" for g :: "nat \<Rightarrow> ull" and ys by simp
  ultimately show ?case by (simp only:)
qed

text \<open>On bit sets of the same size every loop runs, and maps the words.\<close>

definition fits :: "nat \<Rightarrow> nat \<Rightarrow> bitsets \<Rightarrow> bool" where
  "fits d u st \<longleftrightarrow> bs_ok (st d) \<and> bs_ok (st u) \<and> bs_m_size (st d) = bs_m_size (st u)"

definition map_words :: "(ull \<Rightarrow> ull \<Rightarrow> ull) \<Rightarrow> nat \<Rightarrow> nat \<Rightarrow> bitsets \<Rightarrow> bitsets" where
  "map_words f d u st = st(d := (st d)\<lparr>bs_array := map2 f (bs_array (st d)) (bs_array (st u))\<rparr>)"

lemma each_word_fits:
  assumes "fits d u st"
  shows "each_word f d u (bs_m_size (st d)) st = Some (map_words f d u st)"
proof -
  have "List.map (\<lambda>i. f (bs_array (st d) ! i) (bs_array (st u) ! i)) [0..<bs_m_size (st d)]
      = map2 f (bs_array (st d)) (bs_array (st u))"
    using assms by (intro nth_equalityI) (auto simp: fits_def bs_ok_def)
  moreover have "drop (bs_m_size (st d)) (bs_array (st d)) = []" using assms by (simp add: fits_def bs_ok_def)
  ultimately show ?thesis using assms
    by (subst each_word_map) (simp_all add: fits_def bs_ok_def map_words_def)
qed

lemma map_words_other [simp]: "x \<noteq> d \<Longrightarrow> map_words f d u st x = st x"
  by (simp add: map_words_def)

lemma map_words_sizes [simp]:
  "bs_m_size (map_words f d u st x) = bs_m_size (st x)" "bs_n (map_words f d u st x) = bs_n (st x)"
  by (simp_all add: map_words_def)

lemma map_words_ok [simp]: "fits d u st \<Longrightarrow> fits x y (map_words f d u st) = fits x y st"
  by (auto simp: fits_def bs_ok_def map_words_def)

text \<open>The bit at a position, and what the loops do to it.\<close>

definition bit_at :: "Bitset \<Rightarrow> nat \<Rightarrow> bool" where
  "bit_at b p = bit (bs_array b ! (p div 64)) (p mod 64)"

definition in_words :: "Bitset \<Rightarrow> nat \<Rightarrow> bool" where
  "in_words b p \<longleftrightarrow> p div 64 < bs_m_size b"

lemma in_words_map [simp]: "in_words (map_words f d u st x) p = in_words (st x) p"
  by (simp add: in_words_def)

lemma bit_at_map_words:
  assumes "fits d u st" and "in_words (st d) p"
  shows "bit_at (map_words f d u st d) p = bit (f (bs_array (st d) ! (p div 64)) (bs_array (st u) ! (p div 64))) (p mod 64)"
  using assms by (simp add: bit_at_def map_words_def fits_def bs_ok_def in_words_def)

lemma bit_word_ops:
  assumes "q < 64"
  shows "bit (w_copy s x y) q = (bit y q = (0 < s))" "bit (w_and s x y) q = (bit x q \<and> bit y q = (0 < s))"
    "bit (w_xor s x y) q = (bit x q \<noteq> (bit y q = (0 < s)))" "bit (w_not x y) q = (\<not> bit x q)"
  using assms by (auto simp: w_copy_def w_and_def w_xor_def w_not_def sel_def bit_simps)

lemmas bit_loops = bit_at_map_words bit_word_ops bit_at_def [symmetric]

section \<open>Properties\<close>

text \<open>C39. The three-operand operations compute, word by word, the signed conjunction and the signed
  exclusive-or of their operands at every position of the destination, also when the destination is
  the first operand; no other bit set changes.\<close>

theorem bitset_gates_exact:
  assumes "fits d u st" and "fits d v st" and "d \<noteq> v" and "in_words (st d) p"
  shows "\<exists>a x. bs_ands d u v s s1 s2 st = Some a \<and> bs_xors d u v s s1 s2 st = Some x
    \<and> bit_at (a d) p = (((bit_at (st u) p = (0 < s1)) \<and> (bit_at (st v) p = (0 < s2))) = (0 \<le> s))
    \<and> bit_at (x d) p = (((bit_at (st u) p = (0 < s1)) \<noteq> (bit_at (st v) p = (0 < s2))) = (0 \<le> s))
    \<and> (\<forall>y. y = d \<or> a y = st y \<and> x y = st y)"
proof -
  define st1 where "st1 = map_words (w_copy s1) d u st"
  define a where "a = map_words (w_and s2) d v st1"
  define x where "x = map_words (w_xor s2) d v st1"
  define a' where "a' = (if s < 0 then map_words w_not d d a else a)"
  define x' where "x' = (if s < 0 then map_words w_not d d x else x)"
  have f: "fits d v st1" "fits d d st1" "fits d d a" "fits d d x"
    using assms by (auto simp: st1_def a_def x_def) (auto simp: fits_def)
  have m: "bs_m_size (st d) = bs_m_size (st1 d)" "bs_m_size (st1 d) = bs_m_size (a d)" "bs_m_size (st1 d) = bs_m_size (x d)"
    by (simp_all add: st1_def a_def x_def)
  have e1: "each_word (w_copy s1) d u (bs_m_size (st d)) st = Some st1" unfolding st1_def by (rule each_word_fits [OF assms(1)])
  have e2: "each_word (w_and s2) d v (bs_m_size (st d)) st1 = Some a" "each_word (w_xor s2) d v (bs_m_size (st d)) st1 = Some x"
    unfolding a_def x_def m(1) by (rule each_word_fits [OF f(1)])+
  have e3: "each_word w_not d d (bs_m_size (st d)) a = Some (map_words w_not d d a)"
    "each_word w_not d d (bs_m_size (st d)) x = Some (map_words w_not d d x)"
    using each_word_fits [OF f(3)] each_word_fits [OF f(4)] m by simp_all
  have r: "bs_ands d u v s s1 s2 st = Some a'" "bs_xors d u v s s1 s2 st = Some x'"
    by (simp_all add: bs_ands_def bs_xors_def Let_def e1 e2 e3 a'_def x'_def)
  have q: "p mod 64 < 64" by simp
  have b1: "bit_at (st1 d) p = (bit_at (st u) p = (0 < s1))"
    using assms(1,4) by (simp add: st1_def bit_loops)
  have v: "bit_at (st1 v) p = bit_at (st v) p" using assms(3) by (simp add: st1_def)
  have i: "in_words (st1 d) p" "in_words (a d) p" "in_words (x d) p" using assms(4) by (simp_all add: st1_def a_def x_def)
  have b2: "bit_at (a d) p = (bit_at (st1 d) p \<and> bit_at (st1 v) p = (0 < s2))"
    "bit_at (x d) p = (bit_at (st1 d) p \<noteq> (bit_at (st1 v) p = (0 < s2)))"
    using f(1) i(1) by (simp_all add: a_def x_def bit_loops)
  have b3: "bit_at (map_words w_not d d a d) p = (\<not> bit_at (a d) p)" "bit_at (map_words w_not d d x d) p = (\<not> bit_at (x d) p)"
    using f(3,4) i by (simp_all add: bit_loops)
  have "y = d \<or> a' y = st y \<and> x' y = st y" for y
    by (cases "y = d") (simp_all add: a'_def x'_def a_def x_def st1_def)
  then show ?thesis using r b1 b2 b3 v by (auto simp: a'_def x'_def)
qed

lemma bs_ok_allocate: "bs_ok (bs_allocate fresh sz b)"
  by (simp add: bs_ok_def bs_allocate_def bits_def)

lemma div_word: "p div 64 < sz div 64 \<longleftrightarrow> p < 64 * (sz div (64 :: nat))"
  by (simp add: div_less_iff_less_mult mult.commute)

lemma nth_bit_update:
  assumes "bs_ok b" and "p div 64 < bs_m_size b"
    and w: "\<And>w. bit (f w) (p mod 64) = v" "\<And>w j. j < 64 \<Longrightarrow> j \<noteq> p mod 64 \<Longrightarrow> bit (f w) j = bit (w :: ull) j"
  shows "bs_get (b\<lparr>bs_array := (bs_array b)[p div 64 := f (bs_array b ! (p div 64))]\<rparr>) q =
    (if q = p then Some v else bs_get b q)"
proof (cases "q div 64 = p div 64")
  case True
  then have "q mod 64 = p mod 64 \<longleftrightarrow> q = p" by (metis div_mult_mod_eq)
  then show ?thesis using True assms by (auto simp: bs_get_bit bs_ok_def)
next
  case False
  then show ?thesis using assms by (auto simp: bs_get_bit bs_ok_def)
qed

text \<open>C40. Single bits: a bit of a bit set allocated for \<open>sz\<close> bits can be written and read exactly
  below the last full word; a written bit is read back and the others stay, but the last
  \<open>sz mod 64\<close> positions lie outside the array, and every access to them is out of bounds.\<close>

theorem bitset_cells:
  "(case bs_set p (bs_allocate fresh sz b) of
      None \<Rightarrow> 64 * (sz div 64) \<le> p
    | Some b' \<Rightarrow> p < 64 * (sz div 64) \<and> bs_get b' p = Some True
        \<and> (q = p \<or> bs_get b' q = bs_get (bs_allocate fresh sz b) q)) \<and>
   (case bs_reset p (bs_allocate fresh sz b) of
      None \<Rightarrow> 64 * (sz div 64) \<le> p
    | Some b' \<Rightarrow> p < 64 * (sz div 64) \<and> bs_get b' p = Some False
        \<and> (q = p \<or> bs_get b' q = bs_get (bs_allocate fresh sz b) q)) \<and>
   (bs_get (bs_allocate fresh sz b) p = None) = (64 * (sz div 64) \<le> p)"
proof -
  let ?b = "bs_allocate fresh sz b"
  have l: "length (bs_array ?b) = sz div 64" "bs_m_size ?b = sz div 64"
    by (simp_all add: bs_allocate_def bits_def)
  show ?thesis
  proof (cases "p div 64 < sz div 64")
    case False
    then show ?thesis
      using l div_word [of p sz] by (simp add: bs_set_def bs_reset_def bs_get_def bits_def Let_def)
  next
    case True
    have p: "p < 64 * (sz div 64)" using True div_word [of p sz] by simp
    note u = nth_bit_update [OF bs_ok_allocate, of p fresh sz b]
    have s: "bs_get (?b\<lparr>bs_array := (bs_array ?b)[p div 64 := bs_array ?b ! (p div 64) OR push_bit (p mod 64) 1]\<rparr>) x
      = (if x = p then Some True else bs_get ?b x)" for x
      by (rule u [of "\<lambda>w. w OR push_bit (p mod 64) 1"]) (use True l in \<open>auto simp: bit_simps bit_1_iff\<close>)
    have r: "bs_get (?b\<lparr>bs_array := (bs_array ?b)[p div 64 := bs_array ?b ! (p div 64) AND NOT (push_bit (p mod 64) 1)]\<rparr>) x
      = (if x = p then Some False else bs_get ?b x)" for x
      by (rule u [of "\<lambda>w. w AND NOT (push_bit (p mod 64) 1)"]) (use True l in \<open>auto simp: bit_simps bit_1_iff\<close>)
    have e: "p - p div 64 * 64 = p mod 64" by (simp add: minus_div_mult_eq_mod)
    have g: "bs_get ?b p \<noteq> None" using True l by (simp add: bs_get_bit)
    show ?thesis using True p l g s r
      by (simp add: bs_set_def bs_reset_def bits_def Let_def e)
  qed
qed

text \<open>The hash of a bit set does not depend on the order of its first two words, since both
  count once: swapping them gives a different bit set with the same hash value.\<close>

theorem bitset_hash_collides:
  assumes "bs_array b = w0 # w1 # ws" and "bs_m_size b = length (bs_array b)"
  shows "map_option bs_hashval (bs_hash (b\<lparr>bs_array := w1 # w0 # ws\<rparr>)) = map_option bs_hashval (bs_hash b)
    \<and> bs_equal (b\<lparr>bs_array := w1 # w0 # ws\<rparr>) b = Some (w0 = w1)"
proof -
  have e: "equal_words (length xs) xs xs = Some True" for xs by (induction xs) auto
  have r: "[Suc 0..<Suc (Suc (length ws))] = Suc 0 # [2..<Suc (Suc (length ws))]"
    using assms by (simp add: upt_conv_Cons numeral_2_eq_2 del: upt_Suc)
  have f: "fold (\<lambda>i h. h + of_nat i * (w1 # w0 # ws) ! i) [2..<k] x = fold (\<lambda>i h. h + of_nat i * (w0 # w1 # ws) ! i) [2..<k] x"
    for k :: nat and x :: ull
    by (rule fold_cong) (auto simp: numeral_2_eq_2 nth_Cons' )
  have "map_option bs_hashval (bs_hash (b\<lparr>bs_array := w1 # w0 # ws\<rparr>)) = map_option bs_hashval (bs_hash b)"
    using assms f by (simp add: bs_hash_def r add.commute del: upt_Suc)
  then show ?thesis using assms e [of ws] by (auto simp: bs_equal_def)
qed

section \<open>Witnesses\<close>

definition two_words :: "nat \<Rightarrow> Bitset" where
  "two_words k = \<lparr>bs_array = [of_nat k, of_nat (k + 1)], bs_m_size = 2, bs_n = 128, bs_hashval = 0\<rparr>"

theorem bitset_gates_exact_witness:
  "\<exists>a x. bs_ands 0 1 2 (-1) 1 1 two_words = Some a \<and> bs_xors 0 1 2 (-1) 1 1 two_words = Some x
    \<and> bit_at (a 0) 64 = True \<and> bit_at (x 0) 64 = False"
proof -
  have f: "fits 0 1 two_words" "fits 0 2 two_words" "in_words (two_words 0) 64"
    by (simp_all add: fits_def bs_ok_def two_words_def in_words_def bits_def)
  have "bit_at (two_words 1) 64 = False" "bit_at (two_words 2) 64 = True" by (simp_all add: bit_at_def two_words_def)
  then show ?thesis using bitset_gates_exact [OF f(1,2) _ f(3), where s = "-1" and ?s1.0 = 1 and ?s2.0 = 1] by auto
qed

theorem bitset_hash_collides_witness:
  "map_option bs_hashval (bs_hash ((two_words 3)\<lparr>bs_array := [4, 3]\<rparr>)) = map_option bs_hashval (bs_hash (two_words 3))
    \<and> bs_equal ((two_words 3)\<lparr>bs_array := [4, 3]\<rparr>) (two_words 3) = Some False"
  using bitset_hash_collides [of "two_words 3" 3 4 "[]"] by (simp add: two_words_def)

end
