(* ===== verification/Max_Parse.thy ===== *)
theory Max_Parse
  imports Parse Machine_Float
begin

text \<open>
  The reader of the MaxSAT converter (src/tools/maxSAT_to_KNF/knf-parse.hpp) and the observer it
  feeds (\<open>KnfCheck\<close>, maxSAT2KNF.hpp).  The stream and the symbol that was read last are one text:
  its head is the current symbol, the empty text is the end of the file.  \<open>double\<close> values are the
  rationals of Machine_Float; \<open>pow (10, k)\<close> is the rounded power.  Assertions are checked.
\<close>

datatype conv_stop = Exit1 | Abort | Throw | Invalid

datatype Input_Type = UNKNOWN | CNF | KNF | WCNF | WKNF | WCARD | CAI | LSECNF | WHCNF

section \<open>Characters and numbers\<close>

definition sym :: "string \<Rightarrow> char \<Rightarrow> bool" where
  "sym s c \<longleftrightarrow> (case s of [] \<Rightarrow> False | d # _ \<Rightarrow> d = c)"

definition is_digit :: "char \<Rightarrow> bool" where
  "is_digit c \<longleftrightarrow> 48 \<le> (of_char c :: nat) \<and> (of_char c :: nat) \<le> 57"

definition at_digit :: "string \<Rightarrow> bool" where
  "at_digit s \<longleftrightarrow> (case s of [] \<Rightarrow> False | c # _ \<Rightarrow> is_digit c)"

definition SkipWhitespace :: "string \<Rightarrow> string" where
  "SkipWhitespace s = dropWhile is_space s"

definition SkipLinespace :: "string \<Rightarrow> string" where
  "SkipLinespace s = dropWhile (\<lambda>c. is_space c \<and> (of_char c :: nat) \<noteq> 10) s"

text \<open>The rest after the line; the observer ignores the text of a comment.\<close>

definition ParseLine :: "string \<Rightarrow> string" where
  "ParseLine s = tl (dropWhile (\<lambda>c. (of_char c :: nat) \<noteq> 10) s)"

text \<open>The loop is that of \<open>read_digits\<close>: it stops, and the value is undefined, when a partial sum
  overflows.  The first symbol is consumed whatever it is.\<close>

definition ParseInteger :: "string \<Rightarrow> (int \<times> string) option" where
  "ParseInteger s =
     (let sign = (if sym s (CHR ''-'') then -1 else 1);
          i = (if at_digit s then of_char (hd s) - 48 else 0)
      in case read_digits (tl s) i of None \<Rightarrow> None | Some (i, s) \<Rightarrow> Some (i * sign, s))"

lemma read_digits_length: "read_digits s i = Some (j, t) \<Longrightarrow> length t \<le> length s"
  by (induction s i rule: read_digits.induct) (fastforce split: if_splits)+

lemma read_digits_nil: "read_digits [] i = Some (i, [])"
  by simp

lemma ParseInteger_length:
  assumes "ParseInteger s = Some (i, t)"
  shows "length t \<le> length s - 1"
  using assms read_digits_length by (fastforce simp: ParseInteger_def Let_def split: option.splits)

lemma ParseInteger_end: "ParseInteger [] = Some (0, [])"
  by (simp add: ParseInteger_def sym_def at_digit_def)

lemma SkipLinespace_length: "length (SkipLinespace s) \<le> length s"
  by (simp add: SkipLinespace_def length_dropWhile_le)

lemma SkipWhitespace_length: "length (SkipWhitespace s) \<le> length s"
  by (simp add: SkipWhitespace_def length_dropWhile_le)

lemma ParseInteger_less:
  assumes "ParseInteger s = Some (i, t)" and "i \<noteq> 0"
  shows "length (SkipLinespace t) < length s"
proof (cases s)
  case Nil
  then show ?thesis using assms ParseInteger_end by simp
next
  case (Cons c u)
  then show ?thesis using ParseInteger_length [OF assms(1)] SkipLinespace_length [of t] by simp
qed

function ParseClause_loop :: "string \<Rightarrow> int list \<Rightarrow> (int list \<times> string) option" where
  "ParseClause_loop s clause =
     (case ParseInteger s of
        None \<Rightarrow> None
      | Some (integer, t) \<Rightarrow>
          if integer = 0 then Some (clause, SkipLinespace t)
          else ParseClause_loop (SkipLinespace t) (clause @ [integer]))"
  by pat_completeness auto
termination by (relation "measure (\<lambda>(s, clause). length s)") (auto simp: ParseInteger_less)

declare ParseClause_loop.simps [simp del]

definition ParseClause :: "string \<Rightarrow> (int list \<times> string) option" where
  "ParseClause s = ParseClause_loop s []"

text \<open>The constraint \<open>l1 ... ln >= k\<close> of a \<open>wcard\<close> file.  The literals with a 0 that ends them.\<close>

function constraint_lits :: "string \<Rightarrow> int list \<Rightarrow> (int list \<times> string) option" where
  "constraint_lits s clause =
     (case ParseInteger s of
        None \<Rightarrow> None
      | Some (integer, t) \<Rightarrow>
          (let t = SkipLinespace t
           in if \<not> sym t (CHR ''-'') \<and> \<not> at_digit t then Some (clause @ [integer], t)
              else if integer = 0 then Some (clause @ [integer], t)
              else constraint_lits t (clause @ [integer])))"
  by pat_completeness auto
termination by (relation "measure (\<lambda>(s, clause). length s)") (auto simp: ParseInteger_less)

declare constraint_lits.simps [simp del]

text \<open>\<open>clause.size () - bound\<close> is computed in \<open>size_t\<close> and converted to \<open>int\<close>.\<close>

definition as_int32 :: "int \<Rightarrow> int" where
  "as_int32 x = (x + 2 ^ 31) mod 2 ^ 32 - 2 ^ 31"

definition ParseConstraint :: "string \<Rightarrow> ((int list \<times> int) \<times> string) option" where
  "ParseConstraint s =
     (case constraint_lits s [] of
        None \<Rightarrow> None
      | Some (clause, s) \<Rightarrow>
          (if sym s (CHR ''<'') then
             (let s = tl s; strict = \<not> sym s (CHR ''='')
              in case ParseInteger (SkipWhitespace (if strict then s else tl s)) of
                   None \<Rightarrow> None
                 | Some (bound, s) \<Rightarrow>
                     Some ((map (\<lambda>l. -1 * l) clause, as_int32 (int (length clause) - bound + (if strict then 1 else 0))),
                           SkipLinespace s))
           else if sym s (CHR ''>'') then
             (let s = tl s; strict = \<not> sym s (CHR ''='')
              in case ParseInteger (SkipWhitespace (if strict then s else tl s)) of
                   None \<Rightarrow> None
                 | Some (bound, s) \<Rightarrow> Some ((clause, if strict then bound + 1 else bound), SkipLinespace s))
           else Some ((butlast clause, 1), SkipLinespace s)))"

fun double_digits :: "string \<Rightarrow> rat \<Rightarrow> string \<Rightarrow> rat \<times> string \<times> string" where
  "double_digits [] weight s_weight = (weight, s_weight, [])"
| "double_digits (c # s) weight s_weight =
     (if is_digit c
      then double_digits s (f64 (f64 (f64 (weight * 10) + of_int (of_char c)) - 48)) (s_weight @ [c])
      else (weight, s_weight, c # s))"

fun fraction_digits :: "string \<Rightarrow> nat \<Rightarrow> rat \<Rightarrow> string \<Rightarrow> rat \<times> string \<times> string" where
  "fraction_digits [] fcnt remainder s_weight = (remainder, s_weight, [])"
| "fraction_digits (c # s) fcnt remainder s_weight =
     (if is_digit c
      then fraction_digits s (fcnt + 1) (f64 (remainder + f64 ((of_int (of_char c) - 48) / f64 (10 ^ fcnt)))) (s_weight @ [c])
      else (remainder, s_weight, c # s))"

text \<open>At the end of the file the symbol is -1, as a character 255.\<close>

definition ParseDouble :: "string \<Rightarrow> rat \<times> string \<times> string" where
  "ParseDouble s =
     (let sign = (if sym s (CHR ''-'') then -1 else 1);
          weight = (if at_digit s then of_int (of_char (hd s)) - 48 else 0);
          s_weight = [if s = [] then char_of (255 :: nat) else hd s];
          (weight, s_weight, s) = double_digits (tl s) weight s_weight;
          (remainder, s_weight, s) =
            (if sym s (CHR ''.'') then fraction_digits (tl s) 1 0 (s_weight @ [CHR ''.'']) else (0, s_weight, s))
      in (f64 (weight + remainder) * sign, s_weight, s))"

text \<open>\<open>strtol\<close> with base 10, before its value is cut to the range of its type: \<open>None\<close> when there is no
  number.  \<open>stoi\<close> throws when there is no number and when the number does not fit.\<close>

fun digits_value :: "string \<Rightarrow> int \<Rightarrow> int \<times> string" where
  "digits_value [] i = (i, [])"
| "digits_value (c # s) i = (if is_digit c then digits_value s (i * 10 + (of_char c - 48)) else (i, c # s))"

definition strtol :: "string \<Rightarrow> (int \<times> string) option" where
  "strtol s =
     (let s = dropWhile is_space s;
          neg = sym s (CHR ''-'');
          s = (if neg \<or> sym s (CHR ''+'') then tl s else s)
      in if at_digit s then (case digits_value s 0 of (i, s) \<Rightarrow> Some (if neg then - i else i, s)) else None)"

definition stoi :: "string \<Rightarrow> conv_stop + int" where
  "stoi s = (case strtol s of
     None \<Rightarrow> Inl Throw
   | Some (i, _) \<Rightarrow> if - int_max - 1 \<le> i \<and> i \<le> int_max then Inr i else Inl Throw)"

section \<open>The header\<close>

record header =
  hd_var :: int
  hd_cls :: int
  hd_weight :: int
  hd_type :: Input_Type

definition header_type :: "bool \<Rightarrow> bool \<Rightarrow> bool \<Rightarrow> Input_Type" where
  "header_type weighted knf is_card =
     (if weighted then (if knf then WKNF else if is_card then WCARD else WCNF) else if knf then KNF else CNF)"

definition header_numbers :: "bool \<Rightarrow> header \<Rightarrow> string \<Rightarrow> conv_stop + header \<times> string" where
  "header_numbers weighted h s =
     (case ParseInteger s of
        None \<Rightarrow> Inl Invalid
      | Some (max_var, s) \<Rightarrow>
          if max_var < 1 then Inl Abort
          else case ParseInteger (SkipWhitespace s) of
            None \<Rightarrow> Inl Invalid
          | Some (max_cls, s) \<Rightarrow>
              if max_cls < 1 then Inl Abort
              else let s = SkipWhitespace s; h = h\<lparr>hd_var := max_var, hd_cls := max_cls\<rparr>
                   in if \<not> weighted then Inr (h, SkipWhitespace s)
                      else case ParseInteger s of
                        None \<Rightarrow> Inl Invalid
                      | Some (max_weight, s) \<Rightarrow>
                          if max_weight < 1 then Inl Abort
                          else Inr (h\<lparr>hd_weight := max_weight\<rparr>, SkipWhitespace (SkipWhitespace s)))"

definition DetermineHeader :: "string \<Rightarrow> header \<Rightarrow> conv_stop + bool \<times> header \<times> string" where
  "DetermineHeader c h =
     (let weighted = sym c (CHR ''w'');
          c = (if weighted then tl c else c);
          knf = sym c (CHR ''k'')
      in if \<not> knf \<and> \<not> sym c (CHR ''c'') then Inl Exit1
         else
           let c = tl c;
               a = sym c (CHR ''a'');
               c = (if a then tl c else c);
               ar = a \<and> sym c (CHR ''r'');
               c = (if ar then tl c else c);
               is_card = ar \<and> sym c (CHR ''d'');
               c = (if is_card then tl c else c);
               c = (if a then SkipWhitespace c else c);
               n = sym c (CHR ''n'');
               c = (if n then tl c else c);
               nf = n \<and> sym c (CHR ''f'');
               c = (if nf then SkipWhitespace (tl c) else c);
               res = is_card \<or> nf;
               t = header_type weighted knf is_card
           in if \<not> res then Inr (False, h\<lparr>hd_type := t\<rparr>, c)
              else case header_numbers weighted h c of
                Inl e \<Rightarrow> Inl e
              | Inr (h, c) \<Rightarrow> Inr (True, h\<lparr>hd_type := t\<rparr>, c))"

end
