(* ===== verification/Max_Check.thy ===== *)
theory Max_Check
  imports Max_Parse
begin

text \<open>
  \<open>class KnfCheck\<close> (maxSAT2KNF.hpp): it collects the constraints of the reader and writes them as a
  KNF file in which the soft clauses have become the literals of one cardinality row.  Its counters
  \<open>max_var\<close> and \<open>max_cls\<close> are set by \<open>Header\<close> before anything reads them.
\<close>

record knf_check =
  ck_clauses :: "int list list"
  ck_cards :: "(int list \<times> int) list"
  ck_guards :: "int list"
  ck_weights :: "int list"
  ck_card_weights :: "int list"
  ck_s_weights :: "string list"
  ck_card_s_weights :: "string list"
  ck_acc_soft :: int
  ck_max_var :: int
  ck_max_cls :: int
  ck_max_weight :: int

definition KnfCheck_new :: knf_check where
  "KnfCheck_new = \<lparr>ck_clauses = [], ck_cards = [], ck_guards = [], ck_weights = [], ck_card_weights = [],
     ck_s_weights = [], ck_card_s_weights = [], ck_acc_soft = 0, ck_max_var = 0, ck_max_cls = 0, ck_max_weight = -2\<rparr>"

definition set_header :: "int \<Rightarrow> int \<Rightarrow> int \<Rightarrow> knf_check \<Rightarrow> knf_check" where
  "set_header max_var max_cls max_weight k = k\<lparr>ck_max_var := max_var, ck_max_cls := max_cls, ck_max_weight := max_weight\<rparr>"

definition has_weight :: "knf_check \<Rightarrow> bool" where
  "has_weight k \<longleftrightarrow> ck_max_weight k \<noteq> -2"

section \<open>Constraints\<close>

definition in_int :: "int \<Rightarrow> bool" where
  "in_int i \<longleftrightarrow> - int_max - 1 \<le> i \<and> i \<le> int_max"

text \<open>The conversion of a \<open>double\<close> to \<open>int\<close> is undefined out of range.\<close>

definition weight_int :: "rat \<Rightarrow> conv_stop + int" where
  "weight_int w = (if in_int (trunc w) then Inr (trunc w) else Inl Invalid)"

definition accumulate :: "string \<Rightarrow> knf_check \<Rightarrow> conv_stop + knf_check" where
  "accumulate s_weight k =
     (if \<not> has_weight k then Inr k
      else case stoi s_weight of
        Inl e \<Rightarrow> Inl e
      | Inr i \<Rightarrow>
          if i = ck_max_weight k then Inr k
          else if in_int (ck_acc_soft k + i) then Inr (k\<lparr>ck_acc_soft := ck_acc_soft k + i\<rparr>) else Inl Invalid)"

definition Clause :: "int list \<Rightarrow> rat \<Rightarrow> string \<Rightarrow> knf_check \<Rightarrow> conv_stop + knf_check" where
  "Clause lits weight s_weight k =
     (if lits = [] then Inr k
      else case weight_int weight of
        Inl e \<Rightarrow> Inl e
      | Inr w \<Rightarrow> accumulate s_weight
          (k\<lparr>ck_clauses := ck_clauses k @ [lits], ck_weights := ck_weights k @ [w], ck_s_weights := ck_s_weights k @ [s_weight]\<rparr>))"

definition CardinalityConstraint :: "int list \<Rightarrow> int \<Rightarrow> rat \<Rightarrow> string \<Rightarrow> int \<Rightarrow> knf_check \<Rightarrow> conv_stop + knf_check" where
  "CardinalityConstraint lits bound weight s_weight guard k =
     (if lits = [] \<or> bound = 0 then Inr k
      else if bound = 1 then Clause lits weight s_weight k
      else case weight_int weight of
        Inl e \<Rightarrow> Inl e
      | Inr w \<Rightarrow> accumulate s_weight
          (k\<lparr>ck_cards := ck_cards k @ [(lits, bound)], ck_card_weights := ck_card_weights k @ [w],
             ck_card_s_weights := ck_card_s_weights k @ [s_weight], ck_guards := ck_guards k @ [guard]\<rparr>))"

definition SetMaxVar :: "knf_check \<Rightarrow> knf_check" where
  "SetMaxVar k = k\<lparr>ck_max_var :=
     fold (\<lambda>l v. if \<bar>l\<bar> > v then \<bar>l\<bar> else v) (concat (ck_clauses k) @ concat (map fst (ck_cards k))) (ck_max_var k)\<rparr>"

section \<open>Writing\<close>

definition show_lits :: "int list \<Rightarrow> string" where
  "show_lits lits = concat (map (\<lambda>l. show_int l @ '' '') lits)"

definition write_clause_line :: "int list \<Rightarrow> string" where
  "write_clause_line lits = show_lits lits @ ''0'' @ newline"

definition writeKnf :: "knf_check \<Rightarrow> string" where
  "writeKnf k =
     (let new_cls = show_nat (length (ck_cards k) + length (ck_clauses k));
          weight_of = (\<lambda>s. if has_weight k then s @ '' '' else [])
      in ''c converted file format'' @ newline
         @ (if has_weight k
            then ''p wknf '' @ show_int (ck_max_var k) @ '' '' @ new_cls @ '' '' @ show_int (ck_max_weight k) @ newline
            else ''p knf '' @ show_int (ck_max_var k) @ '' '' @ new_cls @ newline)
         @ concat (map (\<lambda>(lits, s). weight_of s @ write_clause_line lits) (zip (ck_clauses k) (ck_s_weights k)))
         @ concat (map (\<lambda>((lits, bound), s). weight_of s @ ''k '' @ show_int bound @ '' '' @ write_clause_line lits)
                       (zip (ck_cards k) (ck_card_s_weights k))))"

definition write_hard_clause :: "int list \<Rightarrow> string" where
  "write_hard_clause lits = ''h '' @ show_lits lits @ ''0'' @ newline"

definition write_soft_unit :: "int \<Rightarrow> string" where
  "write_soft_unit l = ''1 '' @ show_int l @ '' 0'' @ newline"

text \<open>\<open>None\<close> when \<open>new_max_var\<close> overflows.\<close>

definition write_soft_clause :: "int list \<Rightarrow> string \<times> int \<Rightarrow> (string \<times> int) option" where
  "write_soft_clause lits f =
     (case f of (file, new_max_var) \<Rightarrow>
        if length lits = 1 then Some (file @ write_soft_unit (hd lits), new_max_var)
        else if new_max_var + 1 > int_max then None
        else Some (file @ write_soft_unit new_max_var @ write_hard_clause (lits @ [- new_max_var]), new_max_var + 1))"

definition fix_clause :: "int \<Rightarrow> int list \<times> int \<Rightarrow> string \<times> int \<Rightarrow> (string \<times> int) option" where
  "fix_clause max_weight cw f =
     (case cw of (lits, w) \<Rightarrow>
        if w = max_weight then Some (fst f @ write_hard_clause lits, snd f) else write_soft_clause lits f)"

definition fix_MaxSAT :: "knf_check \<Rightarrow> conv_stop + string" where
  "fix_MaxSAT k =
     (if ck_max_var k + 1 > int_max then Inl Invalid
      else case ofold (fix_clause (ck_max_weight k)) (zip (ck_clauses k) (ck_weights k)) ([], ck_max_var k + 1) of
        None \<Rightarrow> Inl Invalid
      | Some (file, _) \<Rightarrow> Inr file)"

section \<open>MaxSAT2KNF\<close>

record conv =
  cv_file :: string
  cv_cnt :: nat
  cv_soft :: "int list"
  cv_new :: int
  cv_used :: "int list"

definition write_hard_clause_knf :: "int list \<Rightarrow> bool \<Rightarrow> conv \<Rightarrow> conv" where
  "write_hard_clause_knf lits write s =
     s\<lparr>cv_file := cv_file s @ (if write then write_clause_line lits else []), cv_cnt := cv_cnt s + 1\<rparr>"

text \<open>\<open>None\<close> when \<open>pos_used_soft_lits\<close> is written outside its bounds or \<open>new_max_var\<close> overflows.\<close>

definition write_soft_clause_knf :: "int list \<Rightarrow> bool \<Rightarrow> conv \<Rightarrow> conv option" where
  "write_soft_clause_knf lits write s =
     (if length lits = 1
      then (let v = nat \<bar>hd lits\<bar>
            in if v < length (cv_used s)
               then Some (s\<lparr>cv_soft := cv_soft s @ [hd lits], cv_used := (cv_used s)[v := 1]\<rparr>)
               else None)
      else if cv_new s + 1 > int_max then None
      else Some ((write_hard_clause_knf (lits @ [- cv_new s]) write (s\<lparr>cv_soft := cv_soft s @ [cv_new s]\<rparr>))
                   \<lparr>cv_new := cv_new s + 1\<rparr>))"

definition convert_clause :: "int \<Rightarrow> bool \<Rightarrow> int list \<times> int \<Rightarrow> conv \<Rightarrow> conv option" where
  "convert_clause max_weight write cw s =
     (case cw of (lits, w) \<Rightarrow>
        if w = max_weight then Some (write_hard_clause_knf lits write s) else write_soft_clause_knf lits write s)"

definition convert_clauses :: "knf_check \<Rightarrow> bool \<Rightarrow> conv \<Rightarrow> conv option" where
  "convert_clauses k write s =
     ofold (convert_clause (ck_max_weight k) write) (zip (ck_clauses k) (ck_weights k)) s"

text \<open>The difference of the number of soft units and the bound is a \<open>size_t\<close>.\<close>

definition bound_row :: "int list \<Rightarrow> int \<Rightarrow> string" where
  "bound_row soft_units add_bound =
     (if add_bound = 0 then []
      else ''k '' @ show_int ((int (length soft_units) - add_bound) mod 2 ^ 64)
           @ concat (map (\<lambda>l. '' '' @ show_int l) soft_units) @ '' 0'' @ newline)"

definition MaxSAT2KNF :: "int \<Rightarrow> knf_check \<Rightarrow> conv_stop + string" where
  "MaxSAT2KNF add_bound k =
     (if ck_max_var k + 1 > int_max then Inl Invalid
      else
        let s = \<lparr>cv_file = [], cv_cnt = 0, cv_soft = [], cv_new = ck_max_var k + 1,
                 cv_used = replicate (nat (ck_max_var k + 1)) 0\<rparr>
        in case convert_clauses k False s of
             None \<Rightarrow> Inl Invalid
           | Some s \<Rightarrow>
               let s = s\<lparr>cv_file := ''p knf '' @ show_int (cv_new s - 1) @ '' '' @ show_nat (cv_cnt s + 1) @ newline
                           @ bound_row (cv_soft s) add_bound,
                         cv_new := ck_max_var k + 1, cv_cnt := 0\<rparr>
               in case convert_clauses k True s of None \<Rightarrow> Inl Invalid | Some s \<Rightarrow> Inr (cv_file s))"

end
