(* ===== verification/Max_Main.thy ===== *)
theory Max_Main
  imports Max_Check
begin

text \<open>
  The loop of the reader (\<open>PlainTextKnfParser::Parse\<close>, knf-parse.hpp) with \<open>KnfCheck\<close> as its observer,
  and the program around it (maxSAT2KNF.cpp).  Every round of the loops consumes text.  The local
  variables without an initialiser start from the values \<open>g\<close>; the status lines on the standard
  output are left out.
\<close>

record reader =
  rd_weight :: rat
  rd_s_weight :: string
  rd_bound :: int
  rd_guard :: int
  rd_ncls :: nat
  rd_check :: knf_check

record unset =
  g_header :: bool
  g_head :: header
  g_bound :: int
  g_weight :: rat

section \<open>One statement\<close>

definition read_weight :: "string \<Rightarrow> reader \<Rightarrow> conv_stop + string \<times> reader" where
  "read_weight c r =
     (case ParseDouble c of (weight, s_weight, c) \<Rightarrow>
        if weight < 0 then Inl Abort
        else Inr (SkipWhitespace c, r\<lparr>rd_weight := weight, rd_s_weight := s_weight\<rparr>))"

definition read_bound :: "string \<Rightarrow> reader \<Rightarrow> conv_stop + string \<times> reader" where
  "read_bound c r =
     (case ParseInteger c of
        None \<Rightarrow> Inl Invalid
      | Some (bound, c) \<Rightarrow> if bound < 1 then Inl Abort else Inr (SkipWhitespace c, r\<lparr>rd_bound := bound\<rparr>))"

definition read_guard :: "string \<Rightarrow> reader \<Rightarrow> conv_stop + string \<times> reader" where
  "read_guard c r =
     (case ParseInteger c of
        None \<Rightarrow> Inl Invalid
      | Some (guard, c) \<Rightarrow> Inr (SkipWhitespace c, r\<lparr>rd_guard := guard\<rparr>))"

definition statement_kind :: "Input_Type \<Rightarrow> string \<Rightarrow> reader \<Rightarrow> conv_stop + char \<times> string \<times> reader" where
  "statement_kind t c r =
     (if sym c (CHR ''k'') then map_sum (\<lambda>x. x) (Pair (CHR ''k'')) (read_bound (SkipWhitespace (tl c)) r)
      else if sym c (CHR ''g'') then
        (case read_bound (SkipWhitespace (tl c)) r of
           Inl e \<Rightarrow> Inl e
         | Inr (c, r) \<Rightarrow> map_sum (\<lambda>x. x) (Pair (CHR ''k'')) (read_guard c r))
      else if t = CAI then map_sum (\<lambda>x. x) (Pair (CHR ''k'')) (read_bound c r)
      else if sym c (CHR ''h'') then Inr (CHR ''h'', SkipWhitespace (tl c), r\<lparr>rd_weight := -1, rd_s_weight := ''-1''\<rparr>)
      else if t = WHCNF then map_sum (\<lambda>x. x) (Pair (CHR ''c'')) (read_weight c r)
      else Inr (CHR ''c'', c, r))"

definition observe_card :: "int list \<Rightarrow> int \<Rightarrow> reader \<Rightarrow> conv_stop + reader" where
  "observe_card clause bound r =
     map_sum (\<lambda>x. x) (\<lambda>k. r\<lparr>rd_ncls := rd_ncls r + 1, rd_check := k, rd_guard := 0\<rparr>)
       (CardinalityConstraint clause bound (rd_weight r) (rd_s_weight r) (rd_guard r) (rd_check r))"

definition observe_clause :: "int list \<Rightarrow> reader \<Rightarrow> conv_stop + reader" where
  "observe_clause clause r =
     map_sum (\<lambda>x. x) (\<lambda>k. r\<lparr>rd_ncls := rd_ncls r + 1, rd_check := k\<rparr>)
       (Clause clause (rd_weight r) (rd_s_weight r) (rd_check r))"

definition statement_body :: "Input_Type \<Rightarrow> char \<Rightarrow> string \<Rightarrow> reader \<Rightarrow> conv_stop + string \<times> reader" where
  "statement_body t kind c r =
     (if t \<noteq> WCARD then
        (case ParseClause c of
           None \<Rightarrow> Inl Invalid
         | Some (clause, c) \<Rightarrow>
             map_sum (\<lambda>x. x) (Pair (SkipWhitespace c))
               (if kind = CHR ''c'' then observe_clause clause r
                else if kind = CHR ''k'' then observe_card clause (rd_bound r) r
                else observe_card clause 1 r))
      else
        (case ParseConstraint c of
           None \<Rightarrow> Inl Invalid
         | Some ((clause, bound), c) \<Rightarrow>
             let r = r\<lparr>rd_bound := bound\<rparr>
             in map_sum (\<lambda>x. x) (Pair (SkipWhitespace c))
                  (if clause = [] then Inr r else observe_card clause bound r)))"

definition read_statement :: "Input_Type \<Rightarrow> bool \<Rightarrow> string \<Rightarrow> reader \<Rightarrow> conv_stop + string \<times> reader" where
  "read_statement t weight_check c r =
     (if sym c (CHR ''c'') then Inr (ParseLine c, r)
      else case (if weight_check then read_weight c r else Inr (c, r)) of
        Inl e \<Rightarrow> Inl e
      | Inr (c, r) \<Rightarrow>
          (case statement_kind t c r of
             Inl e \<Rightarrow> Inl e
           | Inr (kind, c, r) \<Rightarrow> statement_body t kind c r))"

section \<open>The loops\<close>

lemma ParseLine_length: "length (ParseLine s) \<le> length s - 1"
proof -
  have "length (tl (dropWhile P s)) \<le> length s - 1" for P :: "char \<Rightarrow> bool"
    using length_dropWhile_le [of P s] by simp
  then show ?thesis by (simp add: ParseLine_def)
qed

lemma double_digits_length: "double_digits s w sw = (a, b, t) \<Longrightarrow> length t \<le> length s"
  by (induction s w sw rule: double_digits.induct) (fastforce split: if_splits)+

lemma fraction_digits_length: "fraction_digits s n w sw = (a, b, t) \<Longrightarrow> length t \<le> length s"
  by (induction s n w sw rule: fraction_digits.induct) (fastforce split: if_splits)+

lemma ParseDouble_length:
  assumes "ParseDouble s = (w, sw, t)"
  shows "length t \<le> length s - 1"
proof -
  let ?i = "if at_digit s then of_int (of_char (hd s)) - 48 else 0 :: rat"
  let ?c = "[if s = [] then char_of (255 :: nat) else hd s]"
  obtain w1 sw1 t1 where d: "double_digits (tl s) ?i ?c = (w1, sw1, t1)" by (cases "double_digits (tl s) ?i ?c")
  have l: "length t1 \<le> length s - 1" using double_digits_length [OF d] by simp
  show ?thesis
  proof (cases "sym t1 (CHR ''.'')")
    case True
    obtain w2 sw2 t2 where f: "fraction_digits (tl t1) 1 0 (sw1 @ [CHR ''.'']) = (w2, sw2, t2)"
      by (cases "fraction_digits (tl t1) 1 0 (sw1 @ [CHR ''.''])")
    have "t = t2" using assms d f True by (simp add: ParseDouble_def Let_def)
    then show ?thesis using fraction_digits_length [OF f] l by simp
  next
    case False
    then have "t = t1" using assms d by (simp add: ParseDouble_def Let_def)
    then show ?thesis using l by simp
  qed
qed

lemma ParseClause_loop_length:
  "ParseClause_loop s cl = Some (x, t) \<Longrightarrow> length t \<le> length s - 1"
proof (induction s cl rule: ParseClause_loop.induct)
  case (1 s cl)
  obtain i u where p: "ParseInteger s = Some (i, u)"
    using 1(2) by (auto simp: ParseClause_loop.simps [of s] split: option.splits)
  note l = ParseInteger_length [OF p] SkipLinespace_length [of u]
  show ?case
  proof (cases "i = 0")
    case True
    then have "t = SkipLinespace u" using 1(2) p by (simp add: ParseClause_loop.simps [of s])
    then show ?thesis using l by simp
  next
    case False
    then have "ParseClause_loop (SkipLinespace u) (cl @ [i]) = Some (x, t)"
      using 1(2) p by (simp add: ParseClause_loop.simps [of s])
    then have "length t \<le> length (SkipLinespace u) - 1" using 1(1) p False by blast
    then show ?thesis using l by simp
  qed
qed

lemma constraint_lits_length:
  "constraint_lits s cl = Some (x, t) \<Longrightarrow> length t \<le> length s - 1"
proof (induction s cl rule: constraint_lits.induct)
  case (1 s cl)
  obtain i u where p: "ParseInteger s = Some (i, u)"
    using 1(2) by (auto simp: constraint_lits.simps [of s] split: option.splits)
  note l = ParseInteger_length [OF p] SkipLinespace_length [of u]
  let ?u = "SkipLinespace u"
  show ?case
  proof (cases "(\<not> sym ?u (CHR ''-'') \<and> \<not> at_digit ?u) \<or> i = 0")
    case True
    then have "t = ?u" using 1(2) p by (auto simp: constraint_lits.simps [of s] Let_def split: if_splits)
    then show ?thesis using l by simp
  next
    case False
    then have "constraint_lits ?u (cl @ [i]) = Some (x, t)"
      using 1(2) p by (auto simp: constraint_lits.simps [of s] Let_def split: if_splits)
    then have "length t \<le> length ?u - 1" using 1(1) p False by blast
    then show ?thesis using l by simp
  qed
qed

lemma ParseClause_length: "ParseClause s = Some (x, t) \<Longrightarrow> length t \<le> length s - 1"
  unfolding ParseClause_def by (rule ParseClause_loop_length)

lemma ParseConstraint_length:
  assumes "ParseConstraint s = Some (x, t)"
  shows "length t \<le> length s - 1"
proof -
  obtain cl u where u: "constraint_lits s [] = Some (cl, u)"
    using assms by (cases "constraint_lits s []") (auto simp: ParseConstraint_def)
  have i: "length (SkipLinespace b) \<le> length u" if "ParseInteger (SkipWhitespace v) = Some (a, b)" "length v \<le> length u" for v a b
    using ParseInteger_length [OF that(1)] SkipLinespace_length [of b] SkipWhitespace_length [of v] that(2) by linarith
  have "length t \<le> length u"
    using assms u i SkipLinespace_length [of u]
    unfolding ParseConstraint_def Let_def
    by (auto split: if_splits option.splits dest!: i)
  then show ?thesis using constraint_lits_length [OF u] by linarith
qed

lemma SkipWhitespace_le: "length s \<le> n \<Longrightarrow> length (SkipWhitespace s) \<le> n"
  using SkipWhitespace_length [of s] by linarith

lemma read_weight_length: "read_weight c r = Inr (c', r') \<Longrightarrow> length c' \<le> length c - 1"
  by (auto simp: read_weight_def split: prod.splits if_splits dest!: ParseDouble_length intro: SkipWhitespace_le)

lemma read_bound_length: "read_bound c r = Inr (c', r') \<Longrightarrow> length c' \<le> length c - 1"
  by (auto simp: read_bound_def split: option.splits if_splits dest!: ParseInteger_length intro: SkipWhitespace_le)

lemma read_guard_length: "read_guard c r = Inr (c', r') \<Longrightarrow> length c' \<le> length c - 1"
  by (auto simp: read_guard_def split: option.splits dest!: ParseInteger_length intro: SkipWhitespace_le)

lemma map_sum_Inr: "map_sum (\<lambda>x. x) f s = Inr y \<longleftrightarrow> (\<exists>x. s = Inr x \<and> y = f x)"
  by (cases s) auto

lemma statement_kind_length:
  assumes "statement_kind t c r = Inr (k, c', r')"
  shows "length c' \<le> length c"
proof -
  have t: "length (SkipWhitespace (tl c)) \<le> length c" by (rule SkipWhitespace_le) simp
  show ?thesis
    using assms t unfolding statement_kind_def
    by (auto simp: map_sum_Inr split: if_splits sum.splits dest!: read_bound_length read_guard_length read_weight_length)
qed

lemma statement_body_length: "statement_body t k c r = Inr (c', r') \<Longrightarrow> length c' \<le> length c - 1"
  by (auto simp: statement_body_def Let_def map_sum_Inr split: if_splits option.splits
      dest!: ParseClause_length ParseConstraint_length intro: SkipWhitespace_le)

lemma read_statement_length:
  assumes "read_statement t wc c r = Inr (c', r')" and "c \<noteq> []"
  shows "length c' < length c"
proof -
  have "length c' \<le> length c - 1"
  proof (cases "sym c (CHR ''c'')")
    case True
    then show ?thesis using assms(1) ParseLine_length [of c] by (simp add: read_statement_def)
  next
    case False
    then show ?thesis using assms(1)
      by (auto simp: read_statement_def split: if_splits sum.splits
          dest!: statement_body_length statement_kind_length read_weight_length)
  qed
  then show ?thesis using assms(2) by (cases c) auto
qed

function read_statements :: "Input_Type \<Rightarrow> bool \<Rightarrow> string \<Rightarrow> reader \<Rightarrow> conv_stop + reader" where
  "read_statements t weight_check c r =
     (if c = [] then Inr r
      else case read_statement t weight_check c r of
        Inl e \<Rightarrow> Inl e
      | Inr (c, r) \<Rightarrow> read_statements t weight_check c r)"
  by pat_completeness auto
termination by (relation "measure (\<lambda>(t, wc, c, r). length c)") (auto simp: read_statement_length)

declare read_statements.simps [simp del]

function skip_comments :: "string \<Rightarrow> string" where
  "skip_comments c = (if sym c (CHR ''c'') then skip_comments (ParseLine c) else c)"
  by pat_completeness auto
termination
proof (relation "measure length")
  fix c assume "sym c (CHR ''c'')"
  then have "c \<noteq> []" by (auto simp: sym_def)
  then show "(ParseLine c, c) \<in> measure length" using ParseLine_length [of c] by (cases c) auto
qed simp

declare skip_comments.simps [simp del]

text \<open>The header, or what stands for it: when no header is read, the flag \<open>header\<close> keeps the value it
  happens to have.\<close>

definition read_header :: "unset \<Rightarrow> string \<Rightarrow> conv_stop + header \<times> string" where
  "read_header g c =
     (let c = skip_comments (SkipWhitespace c);
          h = (g_head g)\<lparr>hd_weight := -1\<rparr>
      in case (if sym c (CHR ''p'') then DetermineHeader (SkipWhitespace (tl c)) h else Inr (False, h, c)) of
           Inl e \<Rightarrow> Inl e
         | Inr (res, h, c) \<Rightarrow>
             Inr (if res \<or> g_header g then h else \<lparr>hd_var = 0, hd_cls = 0, hd_weight = -1, hd_type = WHCNF\<rparr>, c))"

definition PlainText_Parse :: "unset \<Rightarrow> string \<Rightarrow> Input_Type \<Rightarrow> knf_check \<Rightarrow> conv_stop + knf_check" where
  "PlainText_Parse g file input_type k =
     (case read_header g file of
        Inl e \<Rightarrow> Inl e
      | Inr (h, c) \<Rightarrow>
          if input_type \<noteq> UNKNOWN \<and> input_type \<noteq> CAI \<and> hd_type h \<noteq> input_type then Inl Exit1
          else
            let input_type = (if input_type = UNKNOWN then hd_type h else input_type);
                weight_check = (input_type \<in> {WCNF, WKNF, CAI, WCARD})
            in if weight_check \<and> hd_weight h < 0 then Inl Abort
               else
                 case read_statements input_type weight_check c
                        \<lparr>rd_weight = g_weight g, rd_s_weight = [], rd_bound = g_bound g, rd_guard = 0, rd_ncls = 0,
                         rd_check = set_header (hd_var h) (hd_cls h) (hd_weight h) k\<rparr> of
                   Inl e \<Rightarrow> Inl e
                 | Inr r \<Rightarrow>
                     let k = (if input_type = WHCNF then SetMaxVar (rd_check r) else rd_check r)
                     in if int (rd_ncls r) \<noteq> hd_cls h \<and> input_type \<noteq> WHCNF then Inl Exit1 else Inr k)"

section \<open>The program\<close>

text \<open>The argument after the marker.  When the marker is absent the code reads one position behind
  \<open>argv [argc]\<close>: \<open>beyond\<close> is what it finds there.\<close>

definition commandLineParseOption :: "string option \<Rightarrow> string list \<Rightarrow> string \<Rightarrow> bool \<times> string option" where
  "commandLineParseOption beyond args marker =
     (let position = length (takeWhile (\<lambda>a. a \<noteq> marker) args);
          found = (position < length args)
      in (found, if position + 1 = length args then None
                 else if found then Some (args ! (position + 1)) else beyond))"

text \<open>The file that is written, with its content.  A null pointer as a string is undefined.\<close>

definition write_result :: "string option \<Rightarrow> conv_stop + string \<Rightarrow> conv_stop + (string \<times> string) option" where
  "write_result path res =
     (case path of None \<Rightarrow> Inl Invalid
      | Some path \<Rightarrow> map_sum (\<lambda>x. x) (\<lambda>text. Some (path, text)) res)"

definition max2knf_main :: "unset \<Rightarrow> string option \<Rightarrow> (string \<rightharpoonup> string) \<Rightarrow> string list \<Rightarrow> conv_stop + (string \<times> string) option" where
  "max2knf_main g beyond files argv =
     (if ''-h'' \<in> set argv then Inr None
      else
        let (fix_MaxSAT_set, fix_MaxSAT_out) = commandLineParseOption beyond argv ''-fix_MaxSAT'';
            (MaxSAT2KNF_set, MaxSAT2KNF_out) = commandLineParseOption beyond argv ''-MaxSAT2KNF'';
            (add_bound, add_bound_out_char) = commandLineParseOption beyond argv ''-add_bound''
        in case (if add_bound then (case add_bound_out_char of None \<Rightarrow> Inl Invalid | Some s \<Rightarrow> stoi s) else Inr 0) of
             Inl e \<Rightarrow> Inl e
           | Inr add_bound_out \<Rightarrow>
               if length argv < 2 then Inl Invalid
               else case files (argv ! 1) of
                 None \<Rightarrow> Inl Throw
               | Some file \<Rightarrow>
                   (case PlainText_Parse g file UNKNOWN KnfCheck_new of
                      Inl e \<Rightarrow> Inl e
                    | Inr k \<Rightarrow>
                        if fix_MaxSAT_set then write_result fix_MaxSAT_out (fix_MaxSAT k)
                        else if MaxSAT2KNF_set then write_result MaxSAT2KNF_out (MaxSAT2KNF add_bound_out k)
                        else Inr None))"

end
