(* ===== verification/Max_Read.thy ===== *)
theory Max_Read
  imports Max_Main Parse_Props
begin

text \<open>
  The reader of the converter on a weighted formula in the format of its header: the weights are
  computed without rounding and every clause that is not empty reaches \<open>KnfCheck\<close> in order.
\<close>

section \<open>Integers are exact\<close>

lemma round_half_even_int: "round_half_even (of_int i) = i"
  by (simp add: round_half_even_def Let_def)

lemma exponent_int:
  assumes "0 < \<bar>i\<bar>"
  shows "exponent (of_int i) = bitlen \<bar>i\<bar> - 1"
proof -
  have q: "quotient_of (of_int \<bar>i\<bar>) = (\<bar>i\<bar>, 1)" by (simp add: quotient_of_int del: of_int_abs)
  have a: "\<bar>of_int i :: rat\<bar> = of_int \<bar>i\<bar>" by simp
  have "bitlen \<bar>i\<bar> \<ge> 1" using bitlen_eq_zero_iff [of "\<bar>i\<bar>"] bitlen_nonneg [of "\<bar>i\<bar>"] assms by linarith
  moreover have "(2 :: int) ^ nat (bitlen \<bar>i\<bar> - 1) \<le> \<bar>i\<bar>" using bitlen_bounds [OF assms] by simp
  then have "(of_int (2 ^ nat (bitlen \<bar>i\<bar> - 1)) :: rat) \<le> of_int \<bar>i\<bar>" by (simp only: of_int_le_iff)
  ultimately have "two_pow (bitlen \<bar>i\<bar> - 1) \<le> of_int \<bar>i\<bar>" by (simp add: two_pow_def)
  moreover have "bitlen 1 = 1" by (simp add: bitlen_def floorlog_def)
  ultimately show ?thesis unfolding exponent_def a q by (simp add: Let_def)
qed

lemma f64_int:
  assumes "\<bar>i\<bar> < 2 ^ 53"
  shows "f64 (of_int i) = of_int i"
proof (cases "i = 0")
  case False
  then have p: "0 < \<bar>i\<bar>" by simp
  let ?e = "max (bitlen \<bar>i\<bar> - 1 - 53 + 1) (- 1074)"
  have "(2 :: int) ^ nat (bitlen \<bar>i\<bar> - 1) \<le> \<bar>i\<bar>" using bitlen_bounds [OF p] by simp
  then have "(2 :: int) ^ nat (bitlen \<bar>i\<bar> - 1) < 2 ^ 53" using assms by linarith
  then have "nat (bitlen \<bar>i\<bar> - 1) < 53" by (rule power_less_imp_less_exp [rotated]) simp
  then have e: "?e \<le> 0" by linarith
  define q :: rat where "q = two_pow ?e"
  have q: "q = 1 / 2 ^ nat (- ?e)" using e by (auto simp: q_def two_pow_def)
  have d: "of_int i / q = (of_int (i * 2 ^ nat (- ?e)) :: rat)" by (simp add: q)
  have "f64 (of_int i) = of_int (round_half_even (of_int i / q)) * q"
    using False by (simp add: f64_def fp_round_def exponent_int [OF p] q_def Let_def)
  also have "\<dots> = of_int (i * 2 ^ nat (- ?e)) * q" unfolding d round_half_even_int ..
  also have "\<dots> = of_int i" by (simp add: q)
  finally show ?thesis .
qed (simp add: f64_def fp_round_def)

section \<open>Numbers\<close>

lemma is_digit_char: "d < 10 \<Longrightarrow> is_digit (char_of (48 + d :: nat))"
  by (simp add: is_digit_def of_char_of_nat)

text \<open>The decimal digits of a number, as the text that is written for it.\<close>

definition decimal :: "string \<Rightarrow> int \<Rightarrow> bool" where
  "decimal ds i \<longleftrightarrow> ds \<noteq> [] \<and> (\<forall>c\<in>set ds. is_digit c) \<and> (\<forall>s. no_digit s \<longrightarrow> read_digits (ds @ s) 0 = Some (i, s))"

lemma show_nat_digits: "c \<in> set (show_nat n) \<Longrightarrow> is_digit c"
proof (induction n rule: show_nat.induct)
  case (1 n)
  show ?case
  proof (cases "n < 10")
    case True
    then show ?thesis using 1(2) is_digit_char [of n] by (subst (asm) show_nat.simps) simp
  next
    case False
    have "n mod 10 < 10" by simp
    then show ?thesis using 1 False is_digit_char [of "n mod 10"] by (subst (asm) show_nat.simps) auto
  qed
qed

lemma decimal_show:
  assumes "int n + 48 \<le> int_max"
  shows "decimal (show_nat n) (int n)"
  unfolding decimal_def
proof (intro conjI ballI allI impI)
  show "show_nat n \<noteq> []" using show_nat_Cons [of n] by auto
  show "is_digit c" if "c \<in> set (show_nat n)" for c using that by (rule show_nat_digits)
  show "read_digits (show_nat n @ s) 0 = Some (int n, s)" if "no_digit s" for s
    using that by (simp only: read_digits_show [OF assms] read_digits_stop)
qed

lemma at_digit_digit: "is_digit c \<Longrightarrow> at_digit (c # s)"
  by (simp add: at_digit_def)

lemma at_digit_cur: "at_digit s \<longleftrightarrow> \<not> no_digit s"
  by (cases s) (auto simp: at_digit_def is_digit_def no_digit_def cur_def)

lemma no_digit_Nil: "no_digit []"
  by (simp add: no_digit_def cur_def)

lemma read_digits_head:
  assumes "is_digit c"
  shows "read_digits (c # s) 0 = read_digits s (of_char c - 48)"
proof -
  have "(of_char c :: int) = int (of_char c)" by (rule of_nat_of_char [symmetric])
  then have "(of_char c :: int) \<le> 57" using assms unfolding is_digit_def by linarith
  then show ?thesis using assms by (simp add: is_digit_def int_max_def)
qed

lemma is_digit_minus: "is_digit c \<Longrightarrow> c \<noteq> CHR ''-''"
  by (auto simp: is_digit_def)

lemma ParseInteger_digits:
  assumes "is_digit c"
  shows "ParseInteger (c # s) = read_digits (c # s) 0"
  using is_digit_minus [OF assms] unfolding ParseInteger_def read_digits_head [OF assms]
  by (simp add: sym_def at_digit_def assms split: option.split)

lemma ParseInteger_minus:
  "ParseInteger (CHR ''-'' # s) = (case read_digits s 0 of None \<Rightarrow> None | Some (i, s) \<Rightarrow> Some (- i, s))"
  by (simp add: ParseInteger_def sym_def at_digit_def is_digit_def split: option.split prod.split)

lemma ParseInteger_show:
  assumes "printable i" and "no_digit s"
  shows "ParseInteger (show_int i @ s) = Some (i, s)"
proof (cases "i < 0")
  case True
  have "decimal (show_nat (nat (- i))) (- i)" using decimal_show [of "nat (- i)"] assms(1) True by (simp add: printable_def)
  then have "read_digits (show_nat (nat (- i)) @ s) 0 = Some (- i, s)" using assms(2) by (simp add: decimal_def)
  then show ?thesis using True ParseInteger_minus by (simp add: show_int_def)
next
  case False
  have d: "decimal (show_nat (nat i)) i" using decimal_show [of "nat i"] assms(1) False by (simp add: printable_def)
  obtain c ds where c: "show_nat (nat i) = c # ds" "is_digit c" using d by (cases "show_nat (nat i)") (auto simp: decimal_def)
  have "read_digits (show_nat (nat i) @ s) 0 = Some (i, s)" using d assms(2) by (simp add: decimal_def)
  then show ?thesis using False c ParseInteger_digits [OF c(2)] by (simp add: show_int_def)
qed

lemma double_digits_read:
  assumes "\<forall>c\<in>set ds. is_digit c" and "read_digits (ds @ s) i = Some (j, s)" and "no_digit s" and "0 \<le> i" "i \<le> int_max"
  shows "double_digits (ds @ s) (of_int i) sw = (of_int j, sw @ ds, s)"
  using assms
proof (induction ds arbitrary: i sw)
  case Nil
  then have "double_digits s (of_int i) sw = (of_int i, sw, s)"
    by (cases s) (auto simp: no_digit_def cur_def is_digit_def)
  moreover have "j = i" using Nil by (simp add: read_digits_stop)
  ultimately show ?case by simp
next
  case (Cons c ds)
  have dig: "is_digit c" using Cons.prems(1) by simp
  have ch: "(of_char c :: int) = int (of_char c)" by (rule of_nat_of_char [symmetric])
  have c: "48 \<le> (of_char c :: int)" "(of_char c :: int) \<le> 57"
    using dig unfolding is_digit_def ch by linarith+
  have le: "i * 10 + of_char c \<le> int_max" and r: "read_digits (ds @ s) (i * 10 + of_char c - 48) = Some (j, s)"
    using Cons.prems(2) dig by (auto simp: is_digit_def split: if_splits)
  have f: "f64 (of_int k) = of_int k" if "0 \<le> k" "k \<le> int_max" for k
    using that by (intro f64_int) (simp add: int_max_def)
  have cr: "(of_char c :: rat) = of_int (of_char c)" by (metis ch of_int_of_nat_eq of_nat_of_char)
  have "f64 (of_int i * 10) = of_int (i * 10)" using f [of "i * 10"] c le Cons.prems(4) by simp
  moreover have "f64 (of_int (i * 10) + of_int (of_char c)) = of_int (i * 10 + of_char c)"
    using f [of "i * 10 + of_char c"] c le Cons.prems(4) by simp
  moreover have "f64 (of_int (i * 10 + of_char c) - 48) = of_int (i * 10 + of_char c - 48)"
    using f [of "i * 10 + of_char c - 48"] c le Cons.prems(4) by simp
  ultimately have "f64 (f64 (f64 (of_int i * 10) + of_int (of_char c)) - 48) = of_int (i * 10 + of_char c - 48)"
    by (simp only:)
  then have "double_digits ((c # ds) @ s) (of_int i) sw = double_digits (ds @ s) (of_int (i * 10 + of_char c - 48)) (sw @ [c])"
    using dig by simp
  also have "\<dots> = (of_int j, (sw @ [c]) @ ds, s)"
    by (rule Cons.IH [OF _ r]) (use Cons.prems c le in auto)
  finally show ?case by simp
qed

lemma ParseDouble_show:
  assumes "printable i" and "0 \<le> i" and "no_digit s" and "\<not> sym s (CHR ''.'')"
  shows "ParseDouble (show_int i @ s) = (of_int i, show_int i, s)"
proof -
  have d: "decimal (show_nat (nat i)) i" using decimal_show [of "nat i"] assms by (simp add: printable_def)
  obtain c ds where c: "show_nat (nat i) = c # ds" "is_digit c" "\<forall>c\<in>set ds. is_digit c"
    using d by (cases "show_nat (nat i)") (auto simp: decimal_def)
  have ch: "(of_char c :: int) = int (of_char c)" by (rule of_nat_of_char [symmetric])
  have c0: "48 \<le> (of_char c :: int)" "(of_char c :: int) \<le> 57"
    using c(2) unfolding is_digit_def ch by linarith+
  have "read_digits (ds @ s) (of_char c - 48) = Some (i, s)"
    using d assms(3) read_digits_head [OF c(2), of "ds @ s"] unfolding decimal_def c(1) by (metis append_Cons)
  then have "double_digits (ds @ s) (of_int (of_char c - 48)) [c] = (of_int i, [c] @ ds, s)"
    by (rule double_digits_read [OF c(3)]) (use assms(3) c0 in \<open>auto simp: int_max_def\<close>)
  then have r: "double_digits (ds @ s) (of_int (of_char c) - 48) [c] = (of_int i, c # ds, s)" by simp
  have f: "f64 (of_int i) = of_int i" using assms by (intro f64_int) (auto simp: printable_def int_max_def)
  have e: "show_int i = c # ds" using assms(2) c(1) by (simp add: show_int_def)
  show ?thesis
    using r f assms(4) c(2) is_digit_minus [OF c(2)] unfolding ParseDouble_def e
    by (simp add: sym_def at_digit_def)
qed

lemma digits_value_append:
  "\<forall>c\<in>set ds. is_digit c \<Longrightarrow> digits_value (ds @ s) i = digits_value s (fst (digits_value ds i))"
  by (induction ds arbitrary: i) auto

lemma digits_value_stop: "no_digit s \<Longrightarrow> digits_value s i = (i, s)"
  by (cases s) (auto simp: no_digit_def cur_def is_digit_def)

lemma digits_value_show: "fst (digits_value (show_nat n) 0) = int n"
proof (induction n rule: show_nat.induct)
  case (1 n)
  show ?case
  proof (cases "n < 10")
    case True
    then show ?thesis using is_digit_char [of n] by (subst show_nat.simps) (simp add: of_char_of_int)
  next
    case False
    have "n mod 10 < 10" by simp
    then have "fst (digits_value [char_of (48 + n mod 10)] (int (n div 10))) = int (n div 10) * 10 + int (n mod 10)"
      using is_digit_char [of "n mod 10"] by (simp add: of_char_of_int)
    moreover have "int (n div 10) * 10 + int (n mod 10) = int n" by presburger
    ultimately show ?thesis
      using False 1 digits_value_append [of "show_nat (n div 10)" "[char_of (48 + n mod 10)]" 0] show_nat_digits
      by (subst show_nat.simps) (simp del: digits_value.simps)
  qed
qed

lemma digit_not_space: "is_digit c \<Longrightarrow> \<not> is_space c \<and> c \<noteq> CHR ''+'' \<and> c \<noteq> CHR ''-''"
  by (auto simp: is_digit_def is_space_def)

lemma strtol_show:
  assumes "no_digit s"
  shows "strtol (show_int i @ s) = Some (i, s)"
proof -
  let ?n = "show_nat (nat \<bar>i\<bar>)"
  obtain c ds where c: "?n = c # ds" "is_digit c"
    using show_nat_Cons [of "nat \<bar>i\<bar>"] is_digit_char by blast
  have "digits_value (?n @ s) 0 = (\<bar>i\<bar>, s)"
    using digits_value_append [of ?n s 0] show_nat_digits digits_value_show [of "nat \<bar>i\<bar>"] digits_value_stop [OF assms] by simp
  then have v: "digits_value ((c # ds) @ s) 0 = (\<bar>i\<bar>, s)" by (simp only: c(1))
  have m: "\<not> is_space (CHR ''-'')" by (simp add: is_space_def)
  show ?thesis
  proof (cases "i < 0")
    case True
    then have "show_int i = CHR ''-'' # c # ds" using c(1) by (simp add: show_int_def)
    then show ?thesis using v True m c(2) by (simp add: strtol_def sym_def at_digit_def Let_def del: digits_value.simps)
  next
    case False
    then have "show_int i = c # ds" using c(1) by (simp add: show_int_def)
    then show ?thesis using v False digit_not_space [OF c(2)] c(2)
      by (simp add: strtol_def sym_def at_digit_def Let_def del: digits_value.simps)
  qed
qed

lemma stoi_show:
  assumes "printable i"
  shows "stoi (show_int i) = Inr i"
  using strtol_show [OF no_digit_Nil, of i] assms by (auto simp: stoi_def printable_def)

section \<open>Clauses\<close>

text \<open>A text that is empty or starts with a number.\<close>

definition at_number :: "string \<Rightarrow> bool" where
  "at_number s \<longleftrightarrow> cur s = 45 \<or> 48 \<le> cur s \<and> cur s \<le> 57"

lemma at_number_show [simp]: "at_number (show_int i @ s)"
  using cur_show_int [of i s] by (auto simp: at_number_def)

lemma at_number_stops:
  assumes "at_number s"
  shows "SkipWhitespace s = s" "SkipLinespace s = s" "c \<notin> {CHR ''-''} \<Longrightarrow> \<not> is_digit c \<Longrightarrow> \<not> sym s c" "s \<noteq> []"
proof -
  obtain d t where s: "s = d # t" using assms by (cases s) (auto simp: at_number_def cur_def)
  then have d: "d = CHR ''-'' \<or> is_digit d"
  proof (cases "(of_char d :: nat) = 45")
    case True
    then have "d = char_of (45 :: nat)" by (metis char_of_char)
    moreover have "char_of (45 :: nat) = CHR ''-''" by code_simp
    ultimately show ?thesis by simp
  qed (use assms s in \<open>auto simp: at_number_def cur_def is_digit_def\<close>)
  then have "\<not> is_space d" using digit_not_space by (auto simp: is_space_def)
  then show "SkipWhitespace s = s" "SkipLinespace s = s" "s \<noteq> []" by (simp_all add: s SkipWhitespace_def SkipLinespace_def)
  show "c \<notin> {CHR ''-''} \<Longrightarrow> \<not> is_digit c \<Longrightarrow> \<not> sym s c" using d by (auto simp: s sym_def)
qed

lemma spaces [simp]: "SkipWhitespace ('' '' @ s) = SkipWhitespace s" "SkipWhitespace (newline @ s) = SkipWhitespace s"
  "SkipLinespace ('' '' @ s) = SkipLinespace s" "SkipLinespace (newline @ s) = newline @ s"
  by (simp_all add: SkipWhitespace_def SkipLinespace_def is_space_def newline_def of_char_of_nat)

lemma no_digit_gap [simp]: "no_digit ('' '' @ s)" "no_digit (newline @ s)"
  by (simp_all add: no_digit_def cur_def newline_def of_char_of_nat)

lemma show_lits_Cons: "show_lits (l # ls) @ s = show_int l @ '' '' @ show_lits ls @ s"
  by (simp add: show_lits_def)

lemma at_number_lits: "at_number (show_lits ls @ ''0'' @ s)"
proof (cases ls)
  case Nil
  then show ?thesis using at_number_show [of 0 s] by (simp add: show_lits_def show_int_0)
next
  case (Cons l ks)
  show ?thesis unfolding Cons show_lits_Cons by (rule at_number_show)
qed

lemma ParseClause_loop_show:
  assumes "\<forall>l\<in>set ls. printable l \<and> l \<noteq> 0"
  shows "ParseClause_loop (show_lits ls @ ''0'' @ newline @ s) cl = Some (cl @ ls, newline @ s)"
  using assms
proof (induction ls arbitrary: cl)
  case Nil
  have "ParseInteger (show_int 0 @ newline @ s) = Some (0, newline @ s)"
    by (rule ParseInteger_show) (simp_all add: printable_def int_max_def)
  then show ?case by (subst ParseClause_loop.simps) (simp add: show_int_0 show_lits_def)
next
  case (Cons l ls)
  let ?t = "show_lits ls @ ''0'' @ newline @ s"
  have "ParseInteger (show_int l @ '' '' @ ?t) = Some (l, '' '' @ ?t)"
    by (rule ParseInteger_show) (use Cons.prems in \<open>simp_all only: no_digit_gap list.set ball_simps\<close>)
  moreover have "SkipLinespace ('' '' @ ?t) = ?t" unfolding spaces by (rule at_number_stops(2) [OF at_number_lits])
  ultimately have "ParseClause_loop (show_int l @ '' '' @ ?t) cl = ParseClause_loop ?t (cl @ [l])"
    using Cons.prems by (subst ParseClause_loop.simps) (simp del: append_Cons)
  then show ?case unfolding show_lits_Cons using Cons.IH [of "cl @ [l]"] Cons.prems by simp
qed

lemma ParseClause_show:
  "\<forall>l\<in>set ls. printable l \<and> l \<noteq> 0 \<Longrightarrow> ParseClause (show_lits ls @ ''0'' @ newline @ s) = Some (ls, newline @ s)"
  unfolding ParseClause_def using ParseClause_loop_show [of ls s "[]"] by (simp only: append_Nil)

section \<open>The weighted format\<close>

type_synonym wclause = "int list \<times> int"

definition wcnf_line :: "wclause \<Rightarrow> string" where
  "wcnf_line cw = (case cw of (c, w) \<Rightarrow> show_int w @ '' '' @ show_lits c @ ''0'' @ newline)"

definition wcnf_lines :: "wclause list \<Rightarrow> string" where
  "wcnf_lines cs = concat (map wcnf_line cs)"

definition wcnf_text :: "string \<Rightarrow> int \<Rightarrow> int \<Rightarrow> wclause list \<Rightarrow> string" where
  "wcnf_text word v mw cs = ''p '' @ word @ '' '' @ show_int v @ '' '' @ show_int (int (length cs)) @ '' '' @ show_int mw @ newline
     @ wcnf_lines cs"

definition wclause_ok :: "wclause \<Rightarrow> bool" where
  "wclause_ok cw \<longleftrightarrow> (case cw of (c, w) \<Rightarrow> 0 \<le> w \<and> printable w \<and> (\<forall>l\<in>set c. printable l \<and> l \<noteq> 0))"

definition collected :: "knf_check \<Rightarrow> wclause list" where
  "collected k = zip (ck_clauses k) (ck_weights k)"

text \<open>The weights of the soft clauses: the observer adds them up in an \<open>int\<close>.\<close>

definition soft_weight :: "int \<Rightarrow> wclause list \<Rightarrow> int" where
  "soft_weight mw cs = (\<Sum>(c, w)\<leftarrow>cs. if w = mw then 0 else w)"

lemma soft_weight_simps [simp]:
  "soft_weight mw [] = 0" "soft_weight mw ((c, w) # cs) = (if w = mw then 0 else w) + soft_weight mw cs"
  by (simp_all add: soft_weight_def)

lemma soft_weight_nonneg: "\<forall>x\<in>set cs. wclause_ok x \<Longrightarrow> 0 \<le> soft_weight mw cs"
  by (induction cs) (auto simp: wclause_ok_def)

text \<open>What one clause does to the observer.\<close>

definition keep_clause :: "wclause \<Rightarrow> knf_check \<Rightarrow> knf_check" where
  "keep_clause cw k = (case cw of (c, w) \<Rightarrow>
     if c = [] then k
     else k\<lparr>ck_clauses := ck_clauses k @ [c], ck_weights := ck_weights k @ [w], ck_s_weights := ck_s_weights k @ [show_int w],
            ck_acc_soft := ck_acc_soft k + (if w = ck_max_weight k then 0 else w)\<rparr>)"

lemma Clause_keeps:
  assumes "wclause_ok (c, w)" and "0 \<le> ck_acc_soft k" and "0 \<le> ck_max_weight k"
    and "ck_acc_soft k + (if w = ck_max_weight k then 0 else w) \<le> int_max"
  shows "Clause c (of_int w) (show_int w) k = Inr (keep_clause (c, w) k)"
proof -
  have w: "printable w" "0 \<le> w" using assms(1) by (auto simp: wclause_ok_def)
  have "weight_int (of_int w) = Inr w" using w by (auto simp: weight_int_def trunc_def in_int_def printable_def)
  moreover have "has_weight k" using assms(3) by (simp add: has_weight_def)
  ultimately show ?thesis
    using assms(2,4) w unfolding Clause_def accumulate_def stoi_show [OF w(1)] keep_clause_def
    by (auto simp: in_int_def has_weight_def int_max_def)
qed

lemma read_statement_wcnf:
  assumes ok: "wclause_ok (c, w)" and rest: "rest = [] \<or> at_number rest"
    and k: "Clause c (of_int w) (show_int w) (rd_check r) = Inr k"
  shows "read_statement WCNF True (wcnf_line (c, w) @ rest) r
    = Inr (rest, r\<lparr>rd_weight := of_int w, rd_s_weight := show_int w, rd_ncls := rd_ncls r + 1, rd_check := k\<rparr>)"
proof -
  let ?b = "show_lits c @ ''0'' @ newline @ rest"
  let ?r = "r\<lparr>rd_weight := of_int w, rd_s_weight := show_int w\<rparr>"
  have w: "printable w" "0 \<le> w" "\<forall>l\<in>set c. printable l \<and> l \<noteq> 0" using ok by (auto simp: wclause_ok_def)
  have line: "wcnf_line (c, w) @ rest = show_int w @ '' '' @ ?b" by (simp add: wcnf_line_def)
  have nc: "\<not> sym (show_int w @ '' '' @ ?b) (CHR ''c'')"
    by (rule at_number_stops(3) [OF at_number_show]) (auto simp: is_digit_def)
  have nb: "\<not> sym ?b (CHR ''k'')" "\<not> sym ?b (CHR ''g'')" "\<not> sym ?b (CHR ''h'')"
    by (rule at_number_stops(3) [OF at_number_lits]; auto simp: is_digit_def)+
  have "ParseDouble (show_int w @ '' '' @ ?b) = (of_int w, show_int w, '' '' @ ?b)"
    by (rule ParseDouble_show) (use w in \<open>simp_all only: no_digit_gap, simp add: sym_def\<close>)
  moreover have sp: "SkipWhitespace ('' '' @ ?b) = ?b" unfolding spaces by (rule at_number_stops(1) [OF at_number_lits])
  ultimately have rw: "read_weight (show_int w @ '' '' @ ?b) r = Inr (?b, ?r)"
    using w(2) unfolding read_weight_def by (simp only: prod.case) simp
  have kind: "statement_kind WCNF ?b ?r = Inr (CHR ''c'', ?b, ?r)" using nb by (simp add: statement_kind_def)
  have sr: "SkipWhitespace (newline @ rest) = rest"
    using rest at_number_stops(1) [of rest] unfolding spaces by (auto simp: SkipWhitespace_def)
  have body: "statement_body WCNF (CHR ''c'') ?b ?r = Inr (rest, ?r\<lparr>rd_ncls := rd_ncls r + 1, rd_check := k\<rparr>)"
    unfolding statement_body_def ParseClause_show [OF w(3)] using k sr by (simp add: observe_clause_def)
  show ?thesis unfolding read_statement_def line using nc rw kind body by simp
qed

lemma at_number_lines: "wcnf_lines cs = [] \<or> at_number (wcnf_lines cs)"
  by (cases cs) (auto simp: wcnf_lines_def wcnf_line_def split: prod.splits)

lemma wcnf_lines_Cons: "wcnf_lines (x # cs) = wcnf_line x @ wcnf_lines cs"
  by (simp add: wcnf_lines_def)

lemma keep_clause_fields [simp]:
  "ck_max_var (keep_clause x k) = ck_max_var k" "ck_max_weight (keep_clause x k) = ck_max_weight k"
  "ck_max_cls (keep_clause x k) = ck_max_cls k" "ck_cards (keep_clause x k) = ck_cards k"
  by (auto simp: keep_clause_def split: prod.splits)

lemma read_statements_wcnf:
  assumes "\<forall>x\<in>set cs. wclause_ok x" and "0 \<le> ck_acc_soft (rd_check r)" and "0 \<le> ck_max_weight (rd_check r)"
    and "ck_acc_soft (rd_check r) + soft_weight (ck_max_weight (rd_check r)) cs \<le> int_max"
  shows "\<exists>r'. read_statements WCNF True (wcnf_lines cs) r = Inr r' \<and> rd_ncls r' = rd_ncls r + length cs
    \<and> rd_check r' = fold keep_clause cs (rd_check r)"
  using assms
proof (induction cs arbitrary: r)
  case Nil
  then show ?case by (subst read_statements.simps) (simp add: wcnf_lines_def)
next
  case (Cons x cs)
  obtain c w where x: "x = (c, w)" by (cases x)
  let ?k = "rd_check r"
  have ok: "wclause_ok (c, w)" "\<forall>x\<in>set cs. wclause_ok x" using Cons.prems(1) by (simp_all add: x)
  have pos: "0 \<le> soft_weight (ck_max_weight ?k) cs" "0 \<le> w"
    using soft_weight_nonneg [OF ok(2)] ok(1) by (auto simp: wclause_ok_def)
  have k: "Clause c (of_int w) (show_int w) ?k = Inr (keep_clause (c, w) ?k)"
    by (rule Clause_keeps [OF ok(1) Cons.prems(2,3)]) (use Cons.prems(4) pos in \<open>simp add: x\<close>)
  let ?r = "r\<lparr>rd_weight := of_int w, rd_s_weight := show_int w, rd_ncls := rd_ncls r + 1, rd_check := keep_clause (c, w) ?k\<rparr>"
  have st: "read_statement WCNF True (wcnf_line (c, w) @ wcnf_lines cs) r = Inr (wcnf_lines cs, ?r)"
    by (rule read_statement_wcnf [OF ok(1) at_number_lines k])
  have ne: "wcnf_line (c, w) \<noteq> []" by (simp add: wcnf_line_def)
  have step: "read_statements WCNF True (wcnf_lines (x # cs)) r = read_statements WCNF True (wcnf_lines cs) ?r"
    using st ne by (subst read_statements.simps) (simp add: x wcnf_lines_Cons)
  have "0 \<le> ck_acc_soft (rd_check ?r)
    \<and> ck_acc_soft (rd_check ?r) + soft_weight (ck_max_weight (rd_check ?r)) cs \<le> int_max"
    using Cons.prems(2,4) pos by (auto simp: x keep_clause_def split: if_splits)
  then obtain r' where "read_statements WCNF True (wcnf_lines cs) ?r = Inr r'" "rd_ncls r' = rd_ncls ?r + length cs"
    "rd_check r' = fold keep_clause cs (rd_check ?r)"
    using Cons.IH [of ?r] ok(2) Cons.prems(3) by auto
  then show ?case using step by (intro exI [of _ r']) (simp add: x)
qed

lemma collected_fold:
  assumes "length (ck_weights k) = length (ck_clauses k)"
  shows "collected (fold keep_clause cs k) = collected k @ filter (\<lambda>(c, w). c \<noteq> []) cs"
  using assms
proof (induction cs arbitrary: k)
  case (Cons x cs)
  have "length (ck_weights (keep_clause x k)) = length (ck_clauses (keep_clause x k))"
    using Cons.prems by (auto simp: keep_clause_def split: prod.splits)
  note Cons.IH [OF this]
  moreover have "collected (keep_clause x k) = collected k @ filter (\<lambda>(c, w). c \<noteq> []) [x]"
    using Cons.prems by (auto simp: keep_clause_def collected_def split: prod.splits)
  ultimately show ?case by simp
qed simp

lemma fold_keep_fields:
  "ck_max_var (fold keep_clause cs k) = ck_max_var k" "ck_max_weight (fold keep_clause cs k) = ck_max_weight k"
  by (induction cs arbitrary: k) auto

section \<open>The header\<close>

lemma header_numbers_show:
  assumes "1 \<le> v" "printable v" "1 \<le> m" "printable m" "1 \<le> mw" "printable mw" and "rest = [] \<or> at_number rest"
  shows "header_numbers True h (show_int v @ '' '' @ show_int m @ '' '' @ show_int mw @ newline @ rest)
    = Inr (h\<lparr>hd_var := v, hd_cls := m, hd_weight := mw\<rparr>, rest)"
proof -
  let ?c = "'' '' @ show_int mw @ newline @ rest" let ?b = "'' '' @ show_int m @ ?c"
  have p: "ParseInteger (show_int v @ ?b) = Some (v, ?b)" "ParseInteger (show_int m @ ?c) = Some (m, ?c)"
    "ParseInteger (show_int mw @ newline @ rest) = Some (mw, newline @ rest)"
    by (rule ParseInteger_show, use assms in \<open>simp_all only: no_digit_gap\<close>)+
  have w: "SkipWhitespace ?b = show_int m @ ?c" "SkipWhitespace ?c = show_int mw @ newline @ rest"
    unfolding spaces by (rule at_number_stops(1) [OF at_number_show])+
  have sr: "SkipWhitespace (newline @ rest) = rest" "SkipWhitespace rest = rest"
    using assms(7) at_number_stops(1) [of rest] unfolding spaces by (auto simp: SkipWhitespace_def)
  show ?thesis unfolding header_numbers_def Let_def p option.case prod.case w sr using assms(1,3,5) by simp
qed

lemma read_header_wcnf:
  assumes "1 \<le> v" "printable v" "cs \<noteq> []" "printable (int (length cs))" "1 \<le> mw" "printable mw"
  shows "\<exists>h. read_header g (wcnf_text ''wcnf'' v mw cs) = Inr (h, wcnf_lines cs)
    \<and> hd_var h = v \<and> hd_cls h = int (length cs) \<and> hd_weight h = mw \<and> hd_type h = WCNF"
proof -
  let ?nums = "show_int v @ '' '' @ show_int (int (length cs)) @ '' '' @ show_int mw @ newline @ wcnf_lines cs"
  have t: "wcnf_text ''wcnf'' v mw cs = ''p '' @ ''wcnf'' @ '' '' @ ?nums" by (simp add: wcnf_text_def)
  have m: "1 \<le> int (length cs)" using assms(3) by (cases cs) auto
  note hn = header_numbers_show [OF assms(1,2) m assms(4-6) at_number_lines]
  have s1: "SkipWhitespace (''p '' @ ''wcnf'' @ '' '' @ ?nums) = ''p '' @ ''wcnf'' @ '' '' @ ?nums"
    by (simp add: SkipWhitespace_def is_space_def)
  have s2: "skip_comments (''p '' @ ''wcnf'' @ '' '' @ ?nums) = ''p '' @ ''wcnf'' @ '' '' @ ?nums"
    by (subst skip_comments.simps) (simp add: sym_def)
  have s3: "SkipWhitespace (tl (''p '' @ ''wcnf'' @ '' '' @ ?nums)) = ''wcnf'' @ '' '' @ ?nums"
    by (simp add: SkipWhitespace_def is_space_def)
  have s4: "SkipWhitespace ('' '' @ ?nums) = ?nums" unfolding spaces by (rule at_number_stops(1) [OF at_number_show])
  have d: "DetermineHeader (''wcnf'' @ '' '' @ ?nums) h = Inr (True, h\<lparr>hd_var := v, hd_cls := int (length cs), hd_weight := mw, hd_type := WCNF\<rparr>, wcnf_lines cs)" for h
    using s4 hn [of h cs] unfolding DetermineHeader_def by (simp add: sym_def Let_def header_type_def)
  show ?thesis unfolding read_header_def t s1 s2 Let_def using d by (simp add: s3 [simplified] sym_def)
qed

text \<open>A weighted problem the converter takes as it is.\<close>

definition wcnf_ok :: "int \<Rightarrow> int \<Rightarrow> wclause list \<Rightarrow> bool" where
  "wcnf_ok v mw cs \<longleftrightarrow> 1 \<le> v \<and> 1 \<le> mw \<and> printable mw \<and> cs \<noteq> [] \<and> printable (v + int (length cs) + 1)
     \<and> (\<forall>x\<in>set cs. wclause_ok x) \<and> soft_weight mw cs \<le> int_max"

lemma Parse_wcnf:
  assumes "wcnf_ok v mw cs"
  shows "\<exists>k. PlainText_Parse g (wcnf_text ''wcnf'' v mw cs) UNKNOWN KnfCheck_new = Inr k
    \<and> collected k = filter (\<lambda>(c, w). c \<noteq> []) cs \<and> ck_max_var k = v \<and> ck_max_weight k = mw"
proof -
  have ok: "1 \<le> v" "1 \<le> mw" "printable mw" "cs \<noteq> []" "printable v" "printable (int (length cs))"
    "\<forall>x\<in>set cs. wclause_ok x" "soft_weight mw cs \<le> int_max"
    using assms by (auto simp: wcnf_ok_def printable_def)
  obtain h where h: "read_header g (wcnf_text ''wcnf'' v mw cs) = Inr (h, wcnf_lines cs)" "hd_var h = v"
    "hd_cls h = int (length cs)" "hd_weight h = mw" "hd_type h = WCNF"
    using read_header_wcnf [OF ok(1,5,4,6,2,3), of g] by blast
  let ?k = "set_header v (int (length cs)) mw KnfCheck_new"
  let ?r = "\<lparr>rd_weight = g_weight g, rd_s_weight = [], rd_bound = g_bound g, rd_guard = 0, rd_ncls = 0, rd_check = ?k\<rparr>"
  have k: "ck_acc_soft ?k = 0" "ck_max_weight ?k = mw" "ck_max_var ?k = v" "collected ?k = []"
    "length (ck_weights ?k) = length (ck_clauses ?k)"
    by (simp_all add: set_header_def KnfCheck_new_def collected_def)
  obtain r where r: "read_statements WCNF True (wcnf_lines cs) ?r = Inr r" "rd_ncls r = length cs"
    "rd_check r = fold keep_clause cs ?k"
    using read_statements_wcnf [of cs ?r] ok k by auto
  have "PlainText_Parse g (wcnf_text ''wcnf'' v mw cs) UNKNOWN KnfCheck_new = Inr (fold keep_clause cs ?k)"
    unfolding PlainText_Parse_def h(1) using h(2-5) r ok(2) by simp
  then show ?thesis using collected_fold [OF k(5)] k fold_keep_fields [of cs ?k] by simp
qed

end
