(* ===== verification/Max_Rows.thy ===== *)
theory Max_Rows
  imports Max_Read
begin

text \<open>
  What the conversion writes: the hard clauses, one clause for every soft clause that is not a unit,
  relaxed by a new variable, and a cardinality row over the soft units.  The rows have a model exactly
  when an assignment satisfies the hard clauses and violates at most as many soft clauses as the
  bound says.
\<close>

section \<open>The rows\<close>

fun conv_rows :: "int \<Rightarrow> int \<Rightarrow> wclause list \<Rightarrow> int list list" where
  "conv_rows mw n [] = []"
| "conv_rows mw n ((c, w) # cs) =
     (if w = mw then c # conv_rows mw n cs
      else if length c = 1 then conv_rows mw n cs
      else (c @ [- n]) # conv_rows mw (n + 1) cs)"

fun conv_units :: "int \<Rightarrow> int \<Rightarrow> wclause list \<Rightarrow> int list" where
  "conv_units mw n [] = []"
| "conv_units mw n ((c, w) # cs) =
     (if w = mw then conv_units mw n cs
      else if length c = 1 then hd c # conv_units mw n cs
      else n # conv_units mw (n + 1) cs)"

fun conv_next :: "int \<Rightarrow> int \<Rightarrow> wclause list \<Rightarrow> int" where
  "conv_next mw n [] = n"
| "conv_next mw n ((c, w) # cs) =
     (if w = mw \<or> length c = 1 then conv_next mw n cs else conv_next mw (n + 1) cs)"

lemma conv_next_ge: "n \<le> conv_next mw n cs"
  by (induction mw n cs rule: conv_next.induct) auto

definition conv_text :: "bool \<Rightarrow> int list list \<Rightarrow> string" where
  "conv_text write rows = (if write then concat (map write_clause_line rows) else [])"

lemma conv_text_simps [simp]:
  "conv_text write [] = []" "conv_text write (r # rs) = (if write then write_clause_line r else []) @ conv_text write rs"
  by (simp_all add: conv_text_def)

lemma convert_clauses_run:
  assumes "\<forall>(c, w)\<in>set cs. \<forall>l\<in>set c. nat \<bar>l\<bar> < length (cv_used s)" and "conv_next mw (cv_new s) cs \<le> int_max"
  shows "\<exists>used. length used = length (cv_used s) \<and> ofold (convert_clause mw write) cs s =
    Some (s\<lparr>cv_file := cv_file s @ conv_text write (conv_rows mw (cv_new s) cs),
            cv_cnt := cv_cnt s + length (conv_rows mw (cv_new s) cs),
            cv_soft := cv_soft s @ conv_units mw (cv_new s) cs,
            cv_new := conv_next mw (cv_new s) cs, cv_used := used\<rparr>)"
  using assms
proof (induction cs arbitrary: s)
  case Nil
  then show ?case by (cases s) auto
next
  case (Cons x cs)
  obtain c w where x: "x = (c, w)" by (cases x)
  consider (hard) "w = mw" | (unit) "w \<noteq> mw" "length c = 1" | (long) "w \<noteq> mw" "length c \<noteq> 1" by blast
  then show ?case
  proof cases
    case hard
    let ?t = "write_hard_clause_knf c write s"
    have "convert_clause mw write x s = Some ?t" by (simp add: x hard convert_clause_def)
    moreover have "\<forall>(c, w)\<in>set cs. \<forall>l\<in>set c. nat \<bar>l\<bar> < length (cv_used ?t)"
      using Cons.prems(1) by (auto simp: write_hard_clause_knf_def)
    moreover have "conv_next mw (cv_new ?t) cs \<le> int_max"
      using Cons.prems(2) by (simp add: x hard write_hard_clause_knf_def)
    ultimately show ?thesis using Cons.IH [of ?t] by (auto simp: x hard write_hard_clause_knf_def)
  next
    case unit
    then obtain l where c: "c = [l]" by (cases c) auto
    let ?t = "s\<lparr>cv_soft := cv_soft s @ [l], cv_used := (cv_used s)[nat \<bar>l\<bar> := 1]\<rparr>"
    have "nat \<bar>l\<bar> < length (cv_used s)" using Cons.prems(1) by (auto simp: x c)
    then have "convert_clause mw write x s = Some ?t"
      using unit by (simp add: x c convert_clause_def write_soft_clause_knf_def)
    moreover have "\<forall>(c, w)\<in>set cs. \<forall>l\<in>set c. nat \<bar>l\<bar> < length (cv_used ?t)"
      using Cons.prems(1) by auto
    moreover have "conv_next mw (cv_new ?t) cs \<le> int_max" using Cons.prems(2) unit by (simp add: x)
    ultimately show ?thesis using Cons.IH [of ?t] unit by (auto simp: x c)
  next
    case long
    let ?u = "write_hard_clause_knf (c @ [- cv_new s]) write (s\<lparr>cv_soft := cv_soft s @ [cv_new s]\<rparr>)"
    let ?t = "?u\<lparr>cv_new := cv_new s + 1\<rparr>"
    have "conv_next mw (cv_new s + 1) cs \<le> int_max" using Cons.prems(2) long by (simp add: x)
    moreover from this have "cv_new s + 1 \<le> int_max" using conv_next_ge [of "cv_new s + 1" mw cs] by simp
    then have "convert_clause mw write x s = Some ?t"
      using long by (simp add: x convert_clause_def write_soft_clause_knf_def)
    moreover have "\<forall>(c, w)\<in>set cs. \<forall>l\<in>set c. nat \<bar>l\<bar> < length (cv_used ?t)"
      using Cons.prems(1) by (auto simp: write_hard_clause_knf_def)
    ultimately show ?thesis using Cons.IH [of ?t] long by (auto simp: x write_hard_clause_knf_def)
  qed
qed

definition conv_ok :: "knf_check \<Rightarrow> bool" where
  "conv_ok k \<longleftrightarrow> 0 \<le> ck_max_var k
     \<and> (\<forall>(c, w)\<in>set (collected k). \<forall>l\<in>set c. l \<noteq> 0 \<and> \<bar>l\<bar> \<le> ck_max_var k)
     \<and> conv_next (ck_max_weight k) (ck_max_var k + 1) (collected k) \<le> int_max"

lemma MaxSAT2KNF_text:
  fixes k
  defines "mw \<equiv> ck_max_weight k" and "n \<equiv> ck_max_var k + 1" and "cs \<equiv> collected k"
  assumes ok: "conv_ok k"
  shows "MaxSAT2KNF b k = Inr (''p knf '' @ show_int (conv_next mw n cs - 1) @ '' ''
    @ show_nat (length (conv_rows mw n cs) + 1) @ newline
    @ bound_row (conv_units mw n cs) b @ concat (map write_clause_line (conv_rows mw n cs)))"
proof -
  let ?s = "\<lparr>cv_file = [], cv_cnt = 0, cv_soft = [], cv_new = n, cv_used = replicate (nat n) 0\<rparr>"
  have nx: "conv_next mw n cs \<le> int_max" and le: "n \<le> int_max"
    using ok conv_next_ge [of n mw cs] by (auto simp: conv_ok_def mw_def n_def cs_def)
  have lits: "\<forall>(c, w)\<in>set cs. \<forall>l\<in>set c. nat \<bar>l\<bar> < nat n"
    using ok by (fastforce simp: conv_ok_def n_def cs_def)
  obtain u1 where 1: "length u1 = nat n" "convert_clauses k False ?s = Some (?s\<lparr>cv_cnt := length (conv_rows mw n cs),
      cv_soft := conv_units mw n cs, cv_new := conv_next mw n cs, cv_used := u1\<rparr>)"
    using convert_clauses_run [of cs ?s mw False] lits nx
    by (auto simp: convert_clauses_def conv_text_def mw_def cs_def collected_def)
  let ?f = "''p knf '' @ show_int (conv_next mw n cs - 1) @ '' '' @ show_nat (length (conv_rows mw n cs) + 1) @ newline
    @ bound_row (conv_units mw n cs) b"
  let ?t = "\<lparr>cv_file = ?f, cv_cnt = 0, cv_soft = conv_units mw n cs, cv_new = n, cv_used = u1\<rparr>"
  have "\<exists>s. convert_clauses k True ?t = Some s \<and> cv_file s = ?f @ concat (map write_clause_line (conv_rows mw n cs))"
    using convert_clauses_run [of cs ?t mw True] lits nx 1(1)
    by (auto simp: convert_clauses_def conv_text_def mw_def cs_def collected_def)
  then show ?thesis
    using 1(2) le unfolding MaxSAT2KNF_def Let_def n_def by (auto simp: n_def [symmetric])
qed

section \<open>Their meaning\<close>

definition clause_true :: "(nat \<Rightarrow> bool) \<Rightarrow> int list \<Rightarrow> bool" where
  "clause_true a c \<longleftrightarrow> (\<exists>l\<in>set c. lit_sat a l)"

definition hard_ok :: "int \<Rightarrow> (nat \<Rightarrow> bool) \<Rightarrow> wclause list \<Rightarrow> bool" where
  "hard_ok mw a cs \<longleftrightarrow> (\<forall>(c, w)\<in>set cs. w = mw \<longrightarrow> clause_true a c)"

definition soft_count :: "int \<Rightarrow> wclause list \<Rightarrow> nat" where
  "soft_count mw cs = length (filter (\<lambda>(c, w). w \<noteq> mw) cs)"

definition violated :: "int \<Rightarrow> (nat \<Rightarrow> bool) \<Rightarrow> wclause list \<Rightarrow> nat" where
  "violated mw a cs = length (filter (\<lambda>(c, w). w \<noteq> mw \<and> \<not> clause_true a c) cs)"

lemma row_sat_clause: "row_sat a c 1 \<longleftrightarrow> clause_true a c"
  by (auto simp: row_sat_def row_count_def clause_true_def filter_empty_conv Suc_le_eq)

lemma length_conv_units: "length (conv_units mw n cs) = soft_count mw cs"
  by (induction mw n cs rule: conv_units.induct) (auto simp: soft_count_def)

lemma relaxed_clause: "0 < n \<Longrightarrow> clause_true a (c @ [- n]) \<longleftrightarrow> clause_true a c \<or> \<not> lit_sat a n"
  by (auto simp: clause_true_def lit_sat_uminus)

lemma unit_clause: "length c = 1 \<Longrightarrow> clause_true a c \<longleftrightarrow> lit_sat a (hd c)"
  by (cases c) (auto simp: clause_true_def)

lemma soft_count_Cons [simp]: "soft_count mw ((c, w) # cs) = of_bool (w \<noteq> mw) + soft_count mw cs"
  by (simp add: soft_count_def)

lemma violated_Cons [simp]:
  "violated mw a ((c, w) # cs) = of_bool (w \<noteq> mw \<and> \<not> clause_true a c) + violated mw a cs"
  by (simp add: violated_def)

lemma rows_hard:
  assumes "\<forall>r\<in>set (conv_rows mw n cs). clause_true a r"
  shows "hard_ok mw a cs"
  using assms by (induction mw n cs rule: conv_rows.induct) (auto simp: hard_ok_def split: if_splits)

lemma rows_soft:
  assumes "0 < n" and "\<forall>r\<in>set (conv_rows mw n cs). clause_true a r"
  shows "row_count a (conv_units mw n cs) + int (violated mw a cs) \<le> int (soft_count mw cs)"
  using assms
proof (induction mw n cs rule: conv_rows.induct)
  case (2 mw n c w cs)
  consider "w = mw" | "w \<noteq> mw" "length c = 1" | "w \<noteq> mw" "length c \<noteq> 1" by blast
  then show ?case
  proof cases
    case 1
    then show ?thesis using 2 by simp
  next
    case m: 2
    then have "row_count a (conv_units mw n cs) + int (violated mw a cs) \<le> int (soft_count mw cs)" using 2 by simp
    then show ?thesis using m unit_clause [OF m(2)] by simp
  next
    case m: 3
    then have "row_count a (conv_units mw (n + 1) cs) + int (violated mw a cs) \<le> int (soft_count mw cs)"
      and "clause_true a (c @ [- n])" using 2 by auto
    then show ?thesis using m relaxed_clause [OF 2(4)] by auto
  qed
qed (simp add: violated_def soft_count_def)

definition clauses_below :: "int \<Rightarrow> wclause list \<Rightarrow> bool" where
  "clauses_below n cs \<longleftrightarrow> (\<forall>(c, w)\<in>set cs. \<forall>l\<in>set c. l \<noteq> 0 \<and> \<bar>l\<bar> < n)"

lemma clause_true_cong:
  assumes "\<forall>l\<in>set c. \<bar>l\<bar> < n" and "\<forall>v. int v < n \<longrightarrow> a v = b v"
  shows "clause_true a c = clause_true b c"
proof -
  have "lit_sat a l = lit_sat b l" if "l \<in> set c" for l
  proof -
    have "int (lit_var l) < n" using assms(1) that by (auto simp: lit_var_def)
    then show ?thesis using assms(2) by (simp add: lit_sat_def)
  qed
  then show ?thesis by (simp add: clause_true_def)
qed

lemma rows_extend:
  assumes "0 < n0" and "n0 \<le> n" and "clauses_below n0 cs" and "hard_ok mw a cs"
  shows "\<exists>b. (\<forall>v. int v < n \<longrightarrow> b v = a v) \<and> (\<forall>r\<in>set (conv_rows mw n cs). clause_true b r)
    \<and> row_count b (conv_units mw n cs) + int (violated mw a cs) = int (soft_count mw cs)"
  using assms
proof (induction mw n cs arbitrary: a rule: conv_rows.induct)
  case (1 mw n)
  then show ?case by (auto simp: violated_def soft_count_def)
next
  case (2 mw n c w cs)
  have below: "clauses_below n0 cs" "\<forall>l\<in>set c. \<bar>l\<bar> < n0" "\<forall>l\<in>set c. \<bar>l\<bar> < n"
    using 2(5,6) by (auto simp: clauses_below_def)
  have hard: "hard_ok mw a cs" "w = mw \<Longrightarrow> clause_true a c" using 2(7) by (auto simp: hard_ok_def)
  consider "w = mw" | "w \<noteq> mw" "length c = 1" | "w \<noteq> mw" "length c \<noteq> 1" by blast
  then show ?case
  proof cases
    case m: 1
    obtain b where b: "\<forall>v. int v < n \<longrightarrow> b v = a v" "\<forall>r\<in>set (conv_rows mw n cs). clause_true b r"
      "row_count b (conv_units mw n cs) + int (violated mw a cs) = int (soft_count mw cs)"
      using 2(1) [OF m 2(4,5) below(1) hard(1)] by blast
    have "clause_true b c" using clause_true_cong [OF below(3) b(1)] hard(2) m by simp
    then show ?thesis using b m by (intro exI [of _ b]) simp
  next
    case m: 2
    obtain b where b: "\<forall>v. int v < n \<longrightarrow> b v = a v" "\<forall>r\<in>set (conv_rows mw n cs). clause_true b r"
      "row_count b (conv_units mw n cs) + int (violated mw a cs) = int (soft_count mw cs)"
      using 2(2) [OF m 2(4,5) below(1) hard(1)] by blast
    have "clause_true a c = lit_sat b (hd c)"
      using clause_true_cong [OF below(3) b(1)] unit_clause [OF m(2)] by simp
    then show ?thesis using b m by (intro exI [of _ b]) simp
  next
    case m: 3
    let ?a = "a(nat n := clause_true a c)"
    have same: "?a v = a v" if "int v < n" for v
    proof -
      have "v \<noteq> nat n" using that by linarith
      then show ?thesis by simp
    qed
    have cl: "clause_true ?a d = clause_true a d" if "\<forall>l\<in>set d. \<bar>l\<bar> < n0" for d
      by (rule clause_true_cong [of _ n]) (use that 2(5) same in auto)
    have cls: "\<forall>(d, w)\<in>set cs. clause_true ?a d = clause_true a d"
      using below(1) cl by (fastforce simp: clauses_below_def)
    have h: "hard_ok mw ?a cs" using hard(1) cls unfolding hard_ok_def by fast
    have le: "n0 \<le> n + 1" using 2(5) by simp
    obtain b where b: "\<forall>v. int v < n + 1 \<longrightarrow> b v = ?a v" "\<forall>r\<in>set (conv_rows mw (n + 1) cs). clause_true b r"
      "row_count b (conv_units mw (n + 1) cs) + int (violated mw ?a cs) = int (soft_count mw cs)"
      using 2(3) [OF m 2(4) le below(1) h] by blast
    have viol: "violated mw ?a cs = violated mw a cs"
      unfolding violated_def using cls by (intro arg_cong [where f = length] filter_cong) auto
    have bv: "\<forall>v. int v < n \<longrightarrow> b v = a v" using b(1) same by auto
    have n: "0 < n" "lit_sat b n = clause_true a c" using 2(4,5) b(1) by (auto simp: lit_sat_def lit_var_def)
    moreover have "clause_true b c = clause_true a c" by (rule clause_true_cong [OF below(3) bv])
    ultimately have "clause_true b (c @ [- n])" using relaxed_clause [OF n(1)] by simp
    then show ?thesis using b bv m n viol by (intro exI [of _ b]) simp
  qed
qed

text \<open>The rows with the bound on the violated soft clauses.\<close>

definition knf_rows :: "int \<Rightarrow> int \<Rightarrow> int \<Rightarrow> wclause list \<Rightarrow> (int list \<times> int) list" where
  "knf_rows mw n b cs = (conv_units mw n cs, int (soft_count mw cs) - b) # map (\<lambda>r. (r, 1)) (conv_rows mw n cs)"

lemma knf_rows_sat:
  "rows_sat a (knf_rows mw n b cs) \<longleftrightarrow>
     int (soft_count mw cs) - b \<le> row_count a (conv_units mw n cs) \<and> (\<forall>r\<in>set (conv_rows mw n cs). clause_true a r)"
  by (auto simp: rows_sat_def knf_rows_def row_sat_clause row_sat_def [of _ "conv_units mw n cs"])

lemma knf_rows_sound:
  assumes "0 < n" and "rows_sat a (knf_rows mw n b cs)"
  shows "hard_ok mw a cs" and "int (violated mw a cs) \<le> b"
  using assms rows_hard [of mw n cs a] rows_soft [OF assms(1), of mw cs a] by (auto simp: knf_rows_sat)

lemma knf_rows_complete:
  assumes "0 < n" and "clauses_below n cs" and "hard_ok mw a cs" and "int (violated mw a cs) \<le> b"
  shows "\<exists>c. (\<forall>v. int v < n \<longrightarrow> c v = a v) \<and> rows_sat c (knf_rows mw n b cs)"
proof -
  obtain c where c: "\<forall>v. int v < n \<longrightarrow> c v = a v" "\<forall>r\<in>set (conv_rows mw n cs). clause_true c r"
    "row_count c (conv_units mw n cs) + int (violated mw a cs) = int (soft_count mw cs)"
    using rows_extend [OF assms(1) order_refl assms(2,3)] by blast
  then show ?thesis using assms(4) by (intro exI [of _ c]) (simp add: knf_rows_sat)
qed

end
