(* ===== verification/Max_Props.thy ===== *)
theory Max_Props
  imports Max_Rows
begin

text \<open>
  The converter as a whole: the file it writes is read by the solver as rows that have a model
  exactly when at most as many soft clauses as the bound says have to be violated.
\<close>

section \<open>The text of the conversion is the text of a problem\<close>

definition problem_of :: "nat \<Rightarrow> (int list \<times> int) list \<Rightarrow> preproc" where
  "problem_of v rows = fresh_preproc\<lparr>pp_vars := v, pp_clauses := length rows,
     pp_clause := [] # map fst rows, pp_degree := 0 # map snd rows\<rparr>"

lemma problem_of_fields [simp]:
  "pp_vars (problem_of v rows) = v" "pp_clauses (problem_of v rows) = length rows" "pp_rows (problem_of v rows) = rows"
proof -
  have "(pp_clause (problem_of v rows) ! Suc i, pp_degree (problem_of v rows) ! Suc i) = rows ! i" if "i < length rows" for i
    using that by (simp add: problem_of_def)
  then show "pp_rows (problem_of v rows) = rows"
    unfolding pp_rows_def by (intro nth_equalityI) (auto simp: problem_of_def simp del: upt_Suc)
qed (simp_all add: problem_of_def)

lemma spaces_shift:
  "concat (map (\<lambda>l. '' '' @ show_int l) ls) @ '' '' = '' '' @ concat (map (\<lambda>l. show_int l @ '' '') ls)"
  by (induction ls) auto

lemma bound_row_text:
  assumes "1 \<le> b" and "b + 2 \<le> int (length ls)" and "int (length ls) < 2 ^ 64"
  shows "bound_row ls b = write_row ls (int (length ls) - b)"
proof -
  have m: "(int (length ls) - b) mod 2 ^ 64 = int (length ls) - b" using assms by simp
  have "''k '' @ d @ concat (map (\<lambda>l. '' '' @ show_int l) ls) @ '' 0'' @ newline
    = ''k '' @ d @ '' '' @ concat (map (\<lambda>l. show_int l @ '' '') ls) @ ''0'' @ newline" for d
    using arg_cong [OF spaces_shift [of ls], of "\<lambda>s. s @ ''0'' @ newline"] by simp
  then show ?thesis using assms unfolding bound_row_def m write_row_def by simp
qed

lemma write_clause_row: "write_clause_line = (\<lambda>r. write_row r 1)"
  by (simp add: fun_eq_iff write_clause_line_def write_row_def show_lits_def)

lemma conv_next_le: "conv_next mw n cs \<le> n + int (length cs)"
  by (induction mw n cs rule: conv_next.induct) auto

lemma length_conv_rows: "length (conv_rows mw n cs) \<le> length cs"
  by (induction mw n cs rule: conv_rows.induct) auto

lemma soft_count_le: "soft_count mw cs \<le> length cs"
  by (simp add: soft_count_def)

lemma conv_units_range:
  assumes "0 < n" and "clauses_below n cs" and "l \<in> set (conv_units mw n cs)"
  shows "l \<noteq> 0 \<and> \<bar>l\<bar> < conv_next mw n cs"
  using assms
proof (induction mw n cs rule: conv_units.induct)
  case (2 mw n c w cs)
  have b: "clauses_below n cs" "clauses_below (n + 1) cs" using 2(5) by (fastforce simp: clauses_below_def)+
  have hd: "length c = 1 \<Longrightarrow> hd c \<noteq> 0 \<and> \<bar>hd c\<bar> < n" using 2(5) by (cases c) (auto simp: clauses_below_def)
  consider "w = mw" | "w \<noteq> mw" "length c = 1" | "w \<noteq> mw" "length c \<noteq> 1" by blast
  then show ?case
  proof cases
    case 1 then show ?thesis using 2 b by simp
  next
    case m: 2 then show ?thesis using 2 b hd conv_next_ge [of n mw cs] by auto
  next
    case m: 3 then show ?thesis using 2 b conv_next_ge [of "n + 1" mw cs] by auto
  qed
qed simp

lemma conv_rows_range:
  assumes "0 < n" and "clauses_below n cs" and "r \<in> set (conv_rows mw n cs)" and "l \<in> set r"
  shows "l \<noteq> 0 \<and> \<bar>l\<bar> < conv_next mw n cs"
  using assms
proof (induction mw n cs rule: conv_rows.induct)
  case (2 mw n c w cs)
  have b: "clauses_below n cs" "clauses_below (n + 1) cs" using 2(5) by (fastforce simp: clauses_below_def)+
  have c: "l \<in> set c \<Longrightarrow> l \<noteq> 0 \<and> \<bar>l\<bar> < n" using 2(5) by (auto simp: clauses_below_def)
  consider "w = mw" | "w \<noteq> mw" "length c = 1" | "w \<noteq> mw" "length c \<noteq> 1" by blast
  then show ?case
  proof cases
    case 1 then show ?thesis using 2 b c conv_next_ge [of n mw cs] by auto
  next
    case m: 2 then show ?thesis using 2 b by auto
  next
    case m: 3 then show ?thesis using 2 b c conv_next_ge [of "n + 1" mw cs] by auto
  qed
qed simp

lemma conversion_read_back:
  fixes k
  defines "mw \<equiv> ck_max_weight k" and "n \<equiv> ck_max_var k + 1" and "cs \<equiv> collected k"
  assumes ok: "0 \<le> ck_max_var k" "clauses_below n cs" and pr: "printable (ck_max_var k + int (length cs) + 1)"
    and b: "1 \<le> b" "b + 2 \<le> int (soft_count mw cs)"
  shows "\<exists>text p. MaxSAT2KNF b k = Inr text \<and> read_file text q = Some (Inr p) \<and> pp_rows p = knf_rows mw n b cs"
proof -
  have n: "0 < n" using ok by (simp add: n_def)
  note bounds = conv_next_le [of mw n cs] conv_next_ge [of n mw cs] length_conv_rows [of mw n cs] soft_count_le [of mw cs]
  have ko: "conv_ok k" using ok bounds pr by (fastforce simp: conv_ok_def clauses_below_def printable_def n_def cs_def mw_def)
  define p where "p = problem_of (nat (conv_next mw n cs - 1)) (knf_rows mw n b cs)"
  have r: "pp_rows p = knf_rows mw n b cs" by (simp add: p_def)
  have len: "length (conv_units mw n cs) = soft_count mw cs" by (rule length_conv_units)
  have vars: "int (pp_vars p) = conv_next mw n cs - 1" using bounds n by (simp add: p_def)
  have cls: "pp_clauses p = Suc (length (conv_rows mw n cs))" by (simp add: p_def knf_rows_def)
  have max: "printable i" if "\<bar>i\<bar> \<le> ck_max_var k + int (length cs) + 1" for i
    using that pr ok by (simp add: printable_def)
  have "printable l \<and> l \<noteq> 0" if "l \<in> set (conv_units mw n cs)" for l
    using conv_units_range [OF n ok(2) that] bounds by (auto intro!: max simp: n_def)
  moreover have "printable l \<and> l \<noteq> 0" if "x \<in> set (conv_rows mw n cs)" "l \<in> set x" for x l
    using conv_rows_range [OF n ok(2) that] bounds by (auto intro!: max simp: n_def)
  moreover have "printable (int (soft_count mw cs) - b)" "printable 1"
    using b bounds ok by (auto intro!: max)
  ultimately have w: "writable p" unfolding writable_def r vars cls
    using b bounds ok n by (auto simp: knf_rows_def n_def intro!: max)
  have "int (length (conv_units mw n cs)) < 2 ^ 64"
    using len bounds pr ok by (simp add: printable_def int_max_def)
  then have "bound_row (conv_units mw n cs) b = write_row (conv_units mw n cs) (int (soft_count mw cs) - b)"
    using bound_row_text [of b "conv_units mw n cs"] b len by simp
  moreover have "show_int (conv_next mw n cs - 1) = show_nat (pp_vars p)" using bounds n by (simp add: show_int_def p_def)
  ultimately have "MaxSAT2KNF b k = Inr (write_to_file p)"
    unfolding MaxSAT2KNF_text [OF ko] mw_def [symmetric] n_def [symmetric] cs_def [symmetric]
      write_to_file_rows r write_header_def cls
    by (simp add: knf_rows_def o_def write_clause_row)
  then show ?thesis using written_read_back [OF w, of q] r by auto
qed

section \<open>The command line\<close>

definition max2knf_markers :: "string set" where
  "max2knf_markers = {''-h'', ''-fix_MaxSAT'', ''-MaxSAT2KNF'', ''-add_bound''}"

definition max2knf_argv :: "string \<Rightarrow> string \<Rightarrow> string \<Rightarrow> nat \<Rightarrow> string list" where
  "max2knf_argv prog inp out b = [prog, inp, ''-MaxSAT2KNF'', out, ''-add_bound'', show_nat b]"

lemma show_nat_no_marker: "show_nat b \<notin> max2knf_markers"
proof -
  obtain d s where "show_nat b = char_of (48 + d :: nat) # s" "d < 10" using show_nat_Cons by blast
  moreover have "char_of (48 + d) \<noteq> CHR ''-''" if "d < 10" using is_digit_minus is_digit_char that by blast
  ultimately show ?thesis by (auto simp: max2knf_markers_def)
qed

lemma max2knf_options:
  assumes "{prog, inp, out} \<inter> max2knf_markers = {}"
  shows "''-h'' \<notin> set (max2knf_argv prog inp out b)"
    and "commandLineParseOption beyond (max2knf_argv prog inp out b) ''-fix_MaxSAT'' = (False, beyond)"
    and "commandLineParseOption beyond (max2knf_argv prog inp out b) ''-MaxSAT2KNF'' = (True, Some out)"
    and "commandLineParseOption beyond (max2knf_argv prog inp out b) ''-add_bound'' = (True, Some (show_nat b))"
  using assms show_nat_no_marker [of b]
  by (auto simp: commandLineParseOption_def max2knf_argv_def max2knf_markers_def Let_def)

lemma max2knf_main_run:
  assumes "{prog, inp, out} \<inter> max2knf_markers = {}" and "files inp = Some file" and "printable (int b)"
    and "PlainText_Parse g file UNKNOWN KnfCheck_new = Inr k"
  shows "max2knf_main g beyond files (max2knf_argv prog inp out b) = write_result (Some out) (MaxSAT2KNF (int b) k)"
proof -
  have "stoi (show_nat b) = Inr (int b)" using stoi_show [OF assms(3)] by (simp add: show_int_def)
  then show ?thesis
    unfolding max2knf_main_def max2knf_options [OF assms(1)] Let_def prod.case
    using max2knf_options(1) [OF assms(1), of b] assms(2,4) by (simp add: max2knf_argv_def)
qed

section \<open>Properties\<close>

text \<open>The converter drops empty clauses, the hard ones as well.\<close>

definition kept :: "wclause list \<Rightarrow> wclause list" where
  "kept cs = filter (\<lambda>(c, w). c \<noteq> []) cs"


lemma unweighted_header:
  assumes "1 \<le> v" "printable v" "1 \<le> m" "printable m" and "at_number rest"
  shows "header_numbers False h (show_int v @ '' '' @ show_int m @ newline @ rest) = Inr (h\<lparr>hd_var := v, hd_cls := m\<rparr>, rest)"
proof -
  let ?b = "'' '' @ show_int m @ newline @ rest"
  have p: "ParseInteger (show_int v @ ?b) = Some (v, ?b)" "ParseInteger (show_int m @ newline @ rest) = Some (m, newline @ rest)"
    by (rule ParseInteger_show, use assms in \<open>simp_all only: no_digit_gap\<close>)+
  have w: "SkipWhitespace ?b = show_int m @ newline @ rest" unfolding spaces by (rule at_number_stops(1) [OF at_number_show])
  have sr: "SkipWhitespace (newline @ rest) = rest" "SkipWhitespace rest = rest"
    using at_number_stops(1) [OF assms(5)] unfolding spaces by simp_all
  show ?thesis unfolding header_numbers_def Let_def p option.case prod.case w sr using assms(1,3) by simp
qed

definition knf_text :: "string \<Rightarrow> int \<Rightarrow> int \<Rightarrow> int list \<Rightarrow> string \<Rightarrow> string" where
  "knf_text word v m c rest = ''p '' @ word @ '' '' @ show_int v @ '' '' @ show_int m @ newline
     @ show_lits c @ ''0'' @ newline @ rest"

lemma unweighted_read_header:
  assumes "word \<in> {''cnf'', ''knf''}" and "1 \<le> v" "printable v" "1 \<le> m" "printable m"
  shows "\<exists>h. read_header g (knf_text word v m c rest) = Inr (h, show_lits c @ ''0'' @ newline @ rest)
    \<and> hd_type h \<in> {CNF, KNF} \<and> hd_weight h = -1"
proof -
  let ?c = "show_lits c @ ''0'' @ newline @ rest"
  let ?nums = "show_int v @ '' '' @ show_int m @ newline @ ?c"
  have t: "knf_text word v m c rest = ''p '' @ word @ '' '' @ ?nums" by (simp add: knf_text_def)
  note hn = unweighted_header [OF assms(2-5) at_number_lits, of _ c "newline @ rest"]
  have s1: "SkipWhitespace (''p '' @ u) = ''p '' @ u" for u by (simp add: SkipWhitespace_def is_space_def)
  have s2: "skip_comments (''p '' @ u) = ''p '' @ u" for u by (subst skip_comments.simps) (simp add: sym_def)
  have s3: "SkipWhitespace (tl (''p '' @ word @ u)) = word @ u" for u
    using assms(1) by (auto simp: SkipWhitespace_def is_space_def)
  have s4: "SkipWhitespace ('' '' @ ?nums) = ?nums" unfolding spaces by (rule at_number_stops(1) [OF at_number_show])
  have "DetermineHeader (''cnf'' @ '' '' @ ?nums) h = Inr (True, h\<lparr>hd_var := v, hd_cls := m, hd_type := CNF\<rparr>, ?c)" for h
    using s4 hn [of h] unfolding DetermineHeader_def by (simp add: sym_def Let_def header_type_def)
  moreover have "DetermineHeader (''knf'' @ '' '' @ ?nums) h = Inr (True, h\<lparr>hd_var := v, hd_cls := m, hd_type := KNF\<rparr>, ?c)" for h
    using s4 hn [of h] unfolding DetermineHeader_def by (simp add: sym_def Let_def header_type_def)
  ultimately have "\<exists>ty. ty \<in> {CNF, KNF} \<and> DetermineHeader (word @ '' '' @ ?nums) h = Inr (True, h\<lparr>hd_var := v, hd_cls := m, hd_type := ty\<rparr>, ?c)" for h
    using assms(1) by blast
  then obtain ty where "ty \<in> {CNF, KNF}" "DetermineHeader (word @ '' '' @ ?nums) ((g_head g)\<lparr>hd_weight := -1\<rparr>)
    = Inr (True, (g_head g)\<lparr>hd_weight := -1, hd_var := v, hd_cls := m, hd_type := ty\<rparr>, ?c)" by blast
  then show ?thesis unfolding read_header_def t s1 s2 Let_def by (simp add: s3 [simplified] sym_def)
qed

text \<open>C38. On a formula without weights the converter never succeeds: the sentinel of \<open>has_weight\<close> is
  overwritten by the header, so that the first clause that is not empty parses the empty weight and
  throws (after a conversion of the unset weight that may itself be undefined).\<close>

theorem unweighted_input_throws:
  assumes "word \<in> {''cnf'', ''knf''}" and "1 \<le> v" "printable v" "1 \<le> m" "printable m"
    and "c \<noteq> []" and "\<forall>l\<in>set c. printable l \<and> l \<noteq> 0"
  shows "PlainText_Parse g (knf_text word v m c rest) UNKNOWN KnfCheck_new
    = Inl (if in_int (trunc (g_weight g)) then Throw else Invalid)"
proof -
  let ?c = "show_lits c @ ''0'' @ newline @ rest"
  obtain h where h: "read_header g (knf_text word v m c rest) = Inr (h, ?c)" "hd_type h \<in> {CNF, KNF}" "hd_weight h = -1"
    using unweighted_read_header [OF assms(1-5)] by blast
  let ?r = "\<lparr>rd_weight = g_weight g, rd_s_weight = [], rd_bound = g_bound g, rd_guard = 0, rd_ncls = 0,
    rd_check = set_header (hd_var h) (hd_cls h) (hd_weight h) KnfCheck_new\<rparr>"
  have ns: "\<not> sym ?c (CHR ''c'')" "\<not> sym ?c (CHR ''k'')" "\<not> sym ?c (CHR ''g'')" "\<not> sym ?c (CHR ''h'')"
    by (rule at_number_stops(3) [OF at_number_lits]; auto simp: is_digit_def)+
  have stoi0: "stoi [] = Inl Throw" by (simp add: stoi_def strtol_def at_digit_def sym_def)
  have "Clause c (g_weight g) [] (rd_check ?r) = Inl (if in_int (trunc (g_weight g)) then Throw else Invalid)"
    using assms(6) h(3) by (simp add: Clause_def weight_int_def accumulate_def stoi0 has_weight_def set_header_def)
  then have body: "statement_body t (CHR ''c'') ?c ?r = Inl (if in_int (trunc (g_weight g)) then Throw else Invalid)"
    if "t \<noteq> WCARD" for t
    using that unfolding statement_body_def ParseClause_show [OF assms(7)] by (simp add: observe_clause_def)
  have "statement_kind (hd_type h) ?c ?r = Inr (CHR ''c'', ?c, ?r)" using ns h(2) by (auto simp: statement_kind_def)
  then have "read_statement (hd_type h) False ?c ?r = Inl (if in_int (trunc (g_weight g)) then Throw else Invalid)"
    using ns(1) body [of "hd_type h"] h(2) by (auto simp: read_statement_def)
  moreover have "?c \<noteq> []" by (rule at_number_stops(4) [OF at_number_lits])
  ultimately have "read_statements (hd_type h) False ?c ?r = Inl (if in_int (trunc (g_weight g)) then Throw else Invalid)"
    by (subst read_statements.simps) simp
  then show ?thesis unfolding PlainText_Parse_def h(1) using h(2) by (auto simp: Let_def)
qed

section \<open>Witnesses\<close>

definition max_demo :: "wclause list" where
  "max_demo = [([1, 2], 9), ([-1], 1), ([-2, 3], 1), ([-3], 1)]"

definition max_demo_unset :: unset where
  "max_demo_unset = \<lparr>g_header = False, g_head = \<lparr>hd_var = 7, hd_cls = 0, hd_weight = 5, hd_type = WCARD\<rparr>,
     g_bound = 3, g_weight = 1 / 2\<rparr>"


theorem unweighted_input_throws_witness:
  "PlainText_Parse max_demo_unset (knf_text ''cnf'' 2 1 [1, -2] []) UNKNOWN KnfCheck_new = Inl Throw"
proof -
  have "in_int (trunc (g_weight max_demo_unset))" by (simp add: max_demo_unset_def in_int_def trunc_def int_max_def)
  moreover have "\<forall>l\<in>set [1, -2]. printable l \<and> l \<noteq> 0" by (simp add: printable_def int_max_def)
  ultimately show ?thesis
    using unweighted_input_throws [of "''cnf''" 2 1 "[1, -2]" max_demo_unset "[]"] by (simp add: printable_def int_max_def)
qed

end
