(* ===== verification/Wecnf.thy ===== *)
theory Wecnf
  imports Max_Parse
begin

text \<open>
  The converter src/tools/wecnf_to_wcnf/main.cpp: it copies a weighted formula line by line, keeps
  the weight of the hard clauses and gives every soft clause the weight 1.  Both streams are text.
  \<open>long long\<close> is 64 bits wide; a zero byte ends the C string of a line.
\<close>

definition ll_max :: int where "ll_max = 2 ^ 63 - 1"

text \<open>\<open>strtoll\<close> cuts a number to the range of its type; \<open>None\<close> is \<open>endptr == str\<close>.\<close>

definition ll_cut :: "int \<Rightarrow> int" where
  "ll_cut i = max (- ll_max - 1) (min ll_max i)"

definition parse_long :: "string \<Rightarrow> (int \<times> string) option" where
  "parse_long s = (case strtol s of None \<Rightarrow> None | Some (i, s) \<Rightarrow> Some (ll_cut i, s))"

lemma tl_dropWhile_less:
  assumes "s \<noteq> []"
  shows "length (tl (dropWhile P s)) < length s"
proof -
  have "length (tl (dropWhile P s)) \<le> length s - 1" using length_dropWhile_le [of P s] by simp
  moreover have "0 < length s" using assms by simp
  ultimately show ?thesis by linarith
qed

function text_lines :: "string \<Rightarrow> string list" where
  "text_lines s =
     (if s = [] then []
      else takeWhile (\<lambda>c. (of_char c :: nat) \<noteq> 10) s # text_lines (tl (dropWhile (\<lambda>c. (of_char c :: nat) \<noteq> 10) s)))"
  by pat_completeness auto
termination by (relation "measure length") (use tl_dropWhile_less in \<open>auto simp del: length_tl\<close>)

declare text_lines.simps [simp del]

section \<open>The stream of the header line\<close>

text \<open>A stream is its rest and whether it is still good.  Reading a word or a number fails when only
  white space is left; a number that is missing reads as 0, one out of range as the nearest value.\<close>

definition in_word :: "string \<times> bool \<Rightarrow> string \<times> string \<times> bool" where
  "in_word iss =
     (case iss of (s, ok) \<Rightarrow>
        let s = dropWhile is_space s
        in if \<not> ok \<or> s = [] then ([], s, False)
           else (takeWhile (\<lambda>c. \<not> is_space c) s, dropWhile (\<lambda>c. \<not> is_space c) s, True))"

definition in_number :: "int \<Rightarrow> string \<times> bool \<Rightarrow> int \<times> string \<times> bool" where
  "in_number old iss =
     (case iss of (s, ok) \<Rightarrow>
        let s = dropWhile is_space s
        in if \<not> ok \<or> s = [] then (old, s, False)
           else case strtol s of
             None \<Rightarrow> (0, s, False)
           | Some (i, s) \<Rightarrow> (ll_cut i, s, ll_cut i = i))"

section \<open>Lines\<close>

record wecnf =
  we_out :: string
  we_vars :: int
  we_clauses :: int
  we_top :: int
  we_header :: bool

lemma strtol_length:
  assumes "strtol s = Some (i, t)"
  shows "length t < length s"
proof -
  let ?s = "dropWhile is_space s"
  let ?u = "if sym ?s (CHR ''-'') \<or> sym ?s (CHR ''+'') then tl ?s else ?s"
  have d: "digits_value u j = (k, v) \<Longrightarrow> length v \<le> length u" for u j k v
    by (induction u j rule: digits_value.induct) (fastforce split: if_splits)+
  have dig: "digits_value u j = (k, v) \<Longrightarrow> at_digit u \<Longrightarrow> length v < length u" for u j k v
    using d by (cases u) (auto simp: at_digit_def less_Suc_eq_le split: if_splits)
  have a: "at_digit ?u" and "\<exists>k. digits_value ?u 0 = (k, t)"
    using assms by (auto simp: strtol_def Let_def split: if_splits prod.splits)
  then have "length t < length ?u" using dig by blast
  also have "\<dots> \<le> length ?s" by simp
  also have "\<dots> \<le> length s" by (rule length_dropWhile_le)
  finally show ?thesis .
qed

definition skip_blanks :: "string \<Rightarrow> string" where
  "skip_blanks p = dropWhile (\<lambda>c. c = CHR '' '' \<or> (of_char c :: nat) = 9) p"

function copy_lits :: "string \<Rightarrow> string \<Rightarrow> string" where
  "copy_lits p fout =
     (if cur p = 0 then fout
      else
        let p = skip_blanks p
        in if cur p = 0 then fout
           else case parse_long p of
             None \<Rightarrow> fout
           | Some (lit, endptr) \<Rightarrow>
               let fout = fout @ '' '' @ show_int lit
               in if lit = 0 then fout else copy_lits endptr fout)"
  by pat_completeness auto
termination
proof (relation "measure (\<lambda>(p, fout). length p)")
  fix p q fout xy lit endptr out2 assume "q = skip_blanks p" "parse_long q = Some xy" "(lit, endptr) = xy"
  then obtain i where "strtol (skip_blanks p) = Some (i, endptr)" by (auto simp: parse_long_def split: option.splits)
  from strtol_length [OF this] have "length endptr < length p"
    using length_dropWhile_le [of _ p] by (metis le_trans not_le skip_blanks_def)
  then show "((endptr, out2), p, fout) \<in> measure (\<lambda>(p, fout). length p)" by simp
qed simp

declare copy_lits.simps [simp del]

text \<open>\<open>Inl\<close> is an early return of 1, with what has been written.\<close>

definition wecnf_header :: "string \<Rightarrow> wecnf \<Rightarrow> string + wecnf" where
  "wecnf_header line s =
     (let (p, iss) = in_word (line, True);
          (format, iss) = in_word iss
      in if format = ''wcnf'' \<or> format = ''wecnf'' then
           let (n_vars, iss) = in_number (we_vars s) iss;
               (n_clauses, iss) = in_number (we_clauses s) iss;
               (top, iss) = in_number (we_top s) iss
           in Inr (s\<lparr>we_vars := n_vars, we_clauses := n_clauses, we_top := top, we_header := True,
                     we_out := we_out s @ ''p wcnf '' @ show_int n_vars @ '' '' @ show_int n_clauses @ '' '' @ show_int top @ newline\<rparr>)
         else Inl (we_out s))"

definition wecnf_clause :: "string \<Rightarrow> wecnf \<Rightarrow> string + wecnf" where
  "wecnf_clause line s =
     (case parse_long line of
        None \<Rightarrow> Inr s
      | Some (weight, endptr) \<Rightarrow>
          if \<not> we_header s then Inl (we_out s)
          else
            let output_weight = (if weight \<ge> we_top s then we_top s else 1)
            in Inr (s\<lparr>we_out := copy_lits endptr (we_out s @ show_int output_weight) @ newline\<rparr>))"

definition wecnf_line :: "string \<Rightarrow> wecnf \<Rightarrow> string + wecnf" where
  "wecnf_line line s =
     (if line = [] then Inr (s\<lparr>we_out := we_out s @ newline\<rparr>)
      else if hd line = CHR ''c'' then Inr (s\<lparr>we_out := we_out s @ line @ newline\<rparr>)
      else if hd line = CHR ''p'' then wecnf_header line s
      else wecnf_clause line s)"

fun wecnf_lines :: "string list \<Rightarrow> wecnf \<Rightarrow> string + wecnf" where
  "wecnf_lines [] s = Inr s"
| "wecnf_lines (l # ls) s = (case wecnf_line l s of Inl e \<Rightarrow> Inl e | Inr s \<Rightarrow> wecnf_lines ls s)"

text \<open>The exit status and what the output file holds then; the two paths name different files.\<close>

definition wecnf_run :: "string \<Rightarrow> nat \<times> string" where
  "wecnf_run fin =
     (case wecnf_lines (text_lines fin) \<lparr>we_out = [], we_vars = 0, we_clauses = 0, we_top = 0, we_header = False\<rparr> of
        Inl fout \<Rightarrow> (1, fout)
      | Inr s \<Rightarrow> (if we_header s then 0 else 1, we_out s))"

definition wecnf_main :: "(string \<rightharpoonup> string) \<Rightarrow> string list \<Rightarrow> nat \<times> (string \<times> string) option" where
  "wecnf_main files argv =
     (if length argv < 3 then (1, None)
      else case files (argv ! 1) of
        None \<Rightarrow> (1, None)
      | Some fin \<Rightarrow> (case wecnf_run fin of (status, fout) \<Rightarrow> (status, Some (argv ! 2, fout))))"

end
