(* ===== verification/Wecnf_Props.thy ===== *)
theory Wecnf_Props
  imports Wecnf Max_Read
begin

text \<open>
  The WECNF converter copies a weighted formula and changes only the weights: hard clauses get the
  weight of the header, soft clauses the weight 1.
\<close>

section \<open>Lines\<close>

definition no_newline :: "string \<Rightarrow> bool" where
  "no_newline s \<longleftrightarrow> (\<forall>c\<in>set s. (of_char c :: nat) \<noteq> 10)"

lemma no_newline_append [simp]: "no_newline (s @ t) \<longleftrightarrow> no_newline s \<and> no_newline t"
  by (auto simp: no_newline_def)

lemma no_newline_Nil [simp]: "no_newline []"
  by (simp add: no_newline_def)

lemma no_newline_Cons [simp]: "no_newline (c # s) \<longleftrightarrow> (of_char c :: nat) \<noteq> 10 \<and> no_newline s"
  by (simp add: no_newline_def)

lemma no_newline_nat: "no_newline (show_nat n)"
  using show_nat_digits [of _ n] unfolding no_newline_def is_digit_def by fastforce

lemma no_newline_int [simp]: "no_newline (show_int i)"
  by (simp add: show_int_def no_newline_nat)

lemma no_newline_lits [simp]: "no_newline (show_lits ls)"
  by (induction ls) (auto simp: show_lits_def)

lemma text_lines_line:
  assumes "no_newline l"
  shows "text_lines (l @ newline @ s) = l # text_lines s"
proof -
  let ?P = "\<lambda>c. (of_char c :: nat) \<noteq> 10"
  have n: "\<not> ?P (char_of (10 :: nat))" by (simp add: of_char_of_nat)
  have "takeWhile ?P (l @ newline @ s) = l" "dropWhile ?P (l @ newline @ s) = newline @ s"
    using assms n by (simp_all add: no_newline_def newline_def)
  then show ?thesis by (subst text_lines.simps) (simp add: newline_def)
qed

lemma text_lines_Nil: "text_lines [] = []"
  by (subst text_lines.simps) simp

text \<open>The text of a clause without its newline.\<close>

definition clause_body :: "wclause \<Rightarrow> string" where
  "clause_body cw = (case cw of (c, w) \<Rightarrow> show_int w @ '' '' @ show_lits c @ ''0'')"

lemma wcnf_line_body: "wcnf_line x = clause_body x @ newline"
  by (simp add: wcnf_line_def clause_body_def split: prod.split)

lemma text_lines_clauses: "text_lines (wcnf_lines cs) = map clause_body cs"
proof (induction cs)
  case (Cons x cs)
  have "no_newline (clause_body x)" by (auto simp: clause_body_def split: prod.split)
  then show ?case using Cons text_lines_line [of "clause_body x" "wcnf_lines cs"] by (simp add: wcnf_lines_def wcnf_line_body)
qed (simp add: wcnf_lines_def text_lines_Nil)

section \<open>One clause\<close>

definition in_ll :: "int \<Rightarrow> bool" where
  "in_ll i \<longleftrightarrow> - ll_max - 1 \<le> i \<and> i \<le> ll_max"

lemma ll_cut_id: "in_ll i \<Longrightarrow> ll_cut i = i"
  by (simp add: in_ll_def ll_cut_def)

lemma parse_long_show: "no_digit s \<Longrightarrow> in_ll i \<Longrightarrow> parse_long (show_int i @ s) = Some (i, s)"
  by (simp add: parse_long_def strtol_show ll_cut_id)

lemma show_int_cur: "cur (show_int i @ s) \<noteq> 0" "skip_blanks (show_int i @ s) = show_int i @ s"
proof -
  have c: "cur (show_int i @ s) \<noteq> 0 \<and> cur (show_int i @ s) \<noteq> 32 \<and> cur (show_int i @ s) \<noteq> 9"
    using cur_show_int [of i s] by auto
  then show "cur (show_int i @ s) \<noteq> 0" by simp
  show "skip_blanks (show_int i @ s) = show_int i @ s"
    using c by (cases "show_int i @ s") (auto simp: skip_blanks_def cur_def)
qed

lemma skip_blanks_space: "skip_blanks ('' '' @ s) = skip_blanks s" "cur ('' '' @ s) \<noteq> 0"
  by (simp_all add: skip_blanks_def cur_def)

lemma copy_number:
  assumes "no_digit s" and "in_ll i"
  shows "copy_lits ('' '' @ show_int i @ s) f = (if i = 0 then f @ '' 0'' else copy_lits s (f @ '' '' @ show_int i))"
  using assms show_int_cur [of i s] skip_blanks_space [of "show_int i @ s"]
  by (subst copy_lits.simps) (simp add: parse_long_show show_int_0 Let_def)

lemma copy_lits_show:
  assumes "\<forall>l\<in>set ls. in_ll l \<and> l \<noteq> 0"
  shows "copy_lits ('' '' @ show_lits ls @ ''0'') f = f @ '' '' @ show_lits ls @ ''0''"
  using assms
proof (induction ls arbitrary: f)
  case Nil
  have "in_ll 0" by (simp add: in_ll_def ll_max_def)
  then show ?case using copy_number [of "[]" 0 f] by (simp add: show_lits_def show_int_0 no_digit_Nil)
next
  case (Cons l ls)
  have "copy_lits ('' '' @ show_int l @ '' '' @ show_lits ls @ ''0'') f
    = copy_lits ('' '' @ show_lits ls @ ''0'') (f @ '' '' @ show_int l)"
    using copy_number [of "'' '' @ show_lits ls @ ''0''" l f] Cons.prems by (simp only: no_digit_gap) simp
  then show ?case using Cons.IH [of "f @ '' '' @ show_int l"] Cons.prems by (simp add: show_lits_def)
qed

definition ll_clause :: "wclause \<Rightarrow> bool" where
  "ll_clause cw \<longleftrightarrow> (case cw of (c, w) \<Rightarrow> in_ll w \<and> (\<forall>l\<in>set c. in_ll l \<and> l \<noteq> 0))"

text \<open>The clause with the weight it is given.\<close>

definition reweigh :: "int \<Rightarrow> wclause \<Rightarrow> wclause" where
  "reweigh mw cw = (case cw of (c, w) \<Rightarrow> (c, if w \<ge> mw then mw else 1))"

lemma wecnf_line_clause:
  assumes "ll_clause x" and "we_header s"
  shows "wecnf_line (clause_body x) s = Inr (s\<lparr>we_out := we_out s @ wcnf_line (reweigh (we_top s) x)\<rparr>)"
proof -
  obtain c w where x: "x = (c, w)" by (cases x)
  have ok: "in_ll w" "\<forall>l\<in>set c. in_ll l \<and> l \<noteq> 0" using assms(1) by (auto simp: ll_clause_def x)
  let ?b = "'' '' @ show_lits c @ ''0''"
  have b: "clause_body x = show_int w @ ?b" by (simp add: clause_body_def x)
  have "cur (show_int w @ ?b) \<in> {45} \<union> {48..57}" by (rule cur_show_int)
  then have "show_int w @ ?b \<noteq> []" "hd (show_int w @ ?b) \<noteq> CHR ''c''" "hd (show_int w @ ?b) \<noteq> CHR ''p''"
    by (cases "show_int w @ ?b"; auto simp: cur_def)+
  then have "wecnf_line (clause_body x) s = wecnf_clause (show_int w @ ?b) s" unfolding wecnf_line_def b by simp
  also have "\<dots> = Inr (s\<lparr>we_out := we_out s @ wcnf_line (reweigh (we_top s) x)\<rparr>)"
    unfolding wecnf_clause_def parse_long_show [OF no_digit_gap(1) ok(1)]
    using assms(2) copy_lits_show [OF ok(2)] by (simp add: wcnf_line_def reweigh_def x)
  finally show ?thesis .
qed

lemma wecnf_lines_clauses:
  assumes "\<forall>x\<in>set cs. ll_clause x" and "we_header s"
  shows "wecnf_lines (map clause_body cs) s = Inr (s\<lparr>we_out := we_out s @ wcnf_lines (map (reweigh (we_top s)) cs)\<rparr>)"
  using assms by (induction cs arbitrary: s) (simp_all add: wcnf_lines_def wecnf_line_clause)

section \<open>The header\<close>

lemma in_number_show:
  assumes "in_ll i" and "no_digit s"
  shows "in_number v ('' '' @ show_int i @ s, True) = (i, s, True)"
proof -
  have "dropWhile is_space ('' '' @ show_int i @ s) = show_int i @ s" and "show_int i @ s \<noteq> []"
    using at_number_stops(1,4) [OF at_number_show, of i s] by (simp_all add: SkipWhitespace_def is_space_def)
  then show ?thesis using assms unfolding in_number_def prod.case by (simp only: Let_def) (simp add: strtol_show ll_cut_id)
qed

lemma wecnf_header_line:
  assumes "word \<in> {''wcnf'', ''wecnf''}" and "in_ll v" "in_ll m" "in_ll mw"
  shows "wecnf_line (''p '' @ word @ '' '' @ show_int v @ '' '' @ show_int m @ '' '' @ show_int mw) s
    = Inr (s\<lparr>we_vars := v, we_clauses := m, we_top := mw, we_header := True,
        we_out := we_out s @ ''p wcnf '' @ show_int v @ '' '' @ show_int m @ '' '' @ show_int mw @ newline\<rparr>)"
proof -
  let ?c = "'' '' @ show_int mw" let ?b = "'' '' @ show_int m @ ?c" let ?a = "'' '' @ show_int v @ ?b"
  have p: "in_word (''p '' @ word @ ?a, True) = (''p'', '' '' @ word @ ?a, True)" by (simp add: in_word_def is_space_def)
  have w: "in_word ('' '' @ word @ ?a, True) = (word, ?a, True)" using assms(1) by (auto simp: in_word_def is_space_def)
  have n: "in_number i (?a, True) = (v, ?b, True)" "in_number i (?b, True) = (m, ?c, True)" "in_number i (?c, True) = (mw, [], True)" for i
    using in_number_show [OF assms(2) no_digit_gap(1)] in_number_show [OF assms(3) no_digit_gap(1)]
      in_number_show [OF assms(4) no_digit_Nil] by simp_all
  have "wecnf_line (''p '' @ word @ ?a) s = wecnf_header (''p '' @ word @ ?a) s" by (simp add: wecnf_line_def)
  then show ?thesis unfolding wecnf_header_def p prod.case w n Let_def using assms(1) by auto
qed

section \<open>Property\<close>

text \<open>C37. The converter \<open>wecnf_to_wcnf\<close> turns the text of a weighted formula into the text of the same
  formula with other weights: at least the weight of the header becomes that weight, everything
  below becomes 1.  All numbers are those of 64 bits.\<close>

theorem wecnf_copies:
  assumes "word \<in> {''wcnf'', ''wecnf''}" and "in_ll v" "in_ll mw" "in_ll (int (length cs))" and "\<forall>x\<in>set cs. ll_clause x"
    and "files inp = Some (wcnf_text word v mw cs)"
  shows "wecnf_main files [prog, inp, out] = (0, Some (out, wcnf_text ''wcnf'' v mw (map (reweigh mw) cs)))"
proof -
  let ?h = "''p '' @ word @ '' '' @ show_int v @ '' '' @ show_int (int (length cs)) @ '' '' @ show_int mw"
  have "no_newline ?h" using assms(1) by auto
  then have "text_lines (wcnf_text word v mw cs) = ?h # map clause_body cs"
    using text_lines_line [of ?h "wcnf_lines cs"] by (simp add: wcnf_text_def text_lines_clauses)
  then have "wecnf_run (wcnf_text word v mw cs) = (0, wcnf_text ''wcnf'' v mw (map (reweigh mw) cs))"
    unfolding wecnf_run_def
    by (simp add: wecnf_header_line [OF assms(1,2,4,3), simplified] wecnf_lines_clauses assms(5) wcnf_text_def)
  then show ?thesis using assms(6) by (simp add: wecnf_main_def)
qed

theorem wecnf_copies_witness:
  "wecnf_main [''in'' \<mapsto> wcnf_text ''wecnf'' 2 5 [([1, -2], 9), ([2], 3)]] [''prog'', ''in'', ''out'']
    = (0, Some (''out'', wcnf_text ''wcnf'' 2 5 [([1, -2], 5), ([2], 1)]))"
proof -
  let ?cs = "[([1, -2], 9), ([2], 3)] :: wclause list"
  have m: "map (reweigh 5) ?cs = [([1, -2], 5), ([2], 1)]" by (simp add: reweigh_def)
  show ?thesis unfolding m [symmetric]
    by (rule wecnf_copies) (simp_all add: in_ll_def ll_max_def ll_clause_def)
qed

end
